(* ===== verification/Prelude.thy ===== *)
theory Prelude
  imports Main "HOL-Library.Word" "HOL-Library.Multiset"
begin

text \<open>
  Shared vocabulary of the development.

  \<^item> \<open>res\<close>: the three outcomes of a Rust function, \<open>Ok\<close>, \<open>Err\<close> and a
    panic (\<open>expect\<close>, \<open>unwrap\<close>, an index out of range, a failed \<open>debug_assert\<close>);
  \<^item> \<open>op\<close>: a method on a mutable receiver, a function from the state to an outcome
    and the state it leaves behind (also when it fails half way);
  \<^item> the checked arithmetic of \<open>usize\<close>/\<open>u64\<close> and \<open>div_ceil\<close>;
  \<^item> weakest preconditions \<open>wp\<close> for \<open>op\<close>, with rules for sequencing and loops;
  \<^item> the locale \<open>invariant_machine\<close>: a component whose commands all keep an invariant
    and never panic keeps it along every run.
\<close>

section \<open>Outcomes and operations\<close>

type_synonym bytes = "8 word list"

datatype ('e, 'a) res = Ok 'a | Err 'e | Panic

type_synonym ('s, 'e, 'a) op = "'s \<Rightarrow> ('e, 'a) res \<times> 's"

definition ret_op :: "'a \<Rightarrow> ('s, 'e, 'a) op" where
  "ret_op a s = (Ok a, s)"

definition err_op :: "'e \<Rightarrow> ('s, 'e, 'a) op" where
  "err_op e s = (Err e, s)"

definition panic_op :: "('s, 'e, 'a) op" where
  "panic_op s = (Panic, s)"

text \<open>Sequencing: the question-mark operator, a panic unwinds.\<close>

definition bind_op :: "('s, 'e, 'a) op \<Rightarrow> ('a \<Rightarrow> ('s, 'e, 'b) op) \<Rightarrow> ('s, 'e, 'b) op" where
  "bind_op m f s =
     (case m s of (Ok a, s') \<Rightarrow> f a s' | (Err e, s') \<Rightarrow> (Err e, s') | (Panic, s') \<Rightarrow> (Panic, s'))"

text \<open>\<open>expect\<close>: an error becomes a panic.\<close>

definition expect_op :: "('s, 'e, 'a) op \<Rightarrow> ('s, 'f, 'a) op" where
  "expect_op m s = (case m s of (Ok a, s') \<Rightarrow> (Ok a, s') | (_, s') \<Rightarrow> (Panic, s'))"

text \<open>\<open>map_err\<close>: the error of an inner component, converted.\<close>

definition map_err_op :: "('e \<Rightarrow> 'f) \<Rightarrow> ('s, 'e, 'a) op \<Rightarrow> ('s, 'f, 'a) op" where
  "map_err_op g m s =
     (case m s of (Ok a, s') \<Rightarrow> (Ok a, s') | (Err e, s') \<Rightarrow> (Err (g e), s') | (Panic, s') \<Rightarrow> (Panic, s'))"

text \<open>A \<open>for\<close> loop and an iterator \<open>map\<close> that collects the results.\<close>

fun for_op :: "('x \<Rightarrow> ('s, 'e, unit) op) \<Rightarrow> 'x list \<Rightarrow> ('s, 'e, unit) op" where
  "for_op f [] s = (Ok (), s)"
| "for_op f (x # xs) s = bind_op (f x) (\<lambda>_. for_op f xs) s"

fun map_op :: "('x \<Rightarrow> ('s, 'e, 'a) op) \<Rightarrow> 'x list \<Rightarrow> ('s, 'e, 'a list) op" where
  "map_op f [] s = (Ok [], s)"
| "map_op f (x # xs) s =
     bind_op (f x) (\<lambda>a. bind_op (map_op f xs) (\<lambda>as. ret_op (a # as))) s"

lemma bind_op_simps [simp]:
  "m s = (Ok a, s') \<Longrightarrow> bind_op m f s = f a s'"
  "m s = (Err e, s') \<Longrightarrow> bind_op m f s = (Err e, s')"
  "m s = (Panic, s') \<Longrightarrow> bind_op m f s = (Panic, s')"
  by (simp_all add: bind_op_def)

lemma bind_op_bool [simp]:
  "m s = (Ok True, s') \<Longrightarrow> bind_op m f s = f True s'"
  "m s = (Ok False, s') \<Longrightarrow> bind_op m f s = f False s'"
  by (simp_all add: bind_op_def)

lemma op_simps [simp]:
  "ret_op a s = (Ok a, s)" "err_op e s = (Err e, s)" "panic_op s = (Panic, s)"
  by (simp_all add: ret_op_def err_op_def panic_op_def)

lemma bind_op_Ok:
  "bind_op m f s = (Ok b, s') \<longleftrightarrow> (\<exists>a t. m s = (Ok a, t) \<and> f a t = (Ok b, s'))"
  by (auto simp: bind_op_def split: prod.splits res.splits)

section \<open>Weakest preconditions\<close>

text \<open>
  \<open>wp m Q E s\<close>: from \<open>s\<close>, \<open>m\<close> does not panic, a result satisfies \<open>Q\<close> and an
  error satisfies \<open>E\<close>, each together with the state that is left.
\<close>

definition wp :: "('s, 'e, 'a) op \<Rightarrow> ('a \<Rightarrow> 's \<Rightarrow> bool) \<Rightarrow> ('e \<Rightarrow> 's \<Rightarrow> bool) \<Rightarrow> 's \<Rightarrow> bool" where
  "wp m Q E s = (case m s of (Ok a, s') \<Rightarrow> Q a s' | (Err e, s') \<Rightarrow> E e s' | (Panic, _) \<Rightarrow> False)"

named_theorems wp_rules "weakest preconditions of the operations"

lemma wp_bind: "wp m (\<lambda>a. wp (f a) Q E) E s \<Longrightarrow> wp (bind_op m f) Q E s"
  by (auto simp: wp_def bind_op_def split: prod.splits res.splits)

lemma wp_eq: "m s = m' s' \<Longrightarrow> wp m' Q E s' \<Longrightarrow> wp m Q E s"
  by (simp add: wp_def)

lemma wp_conseq:
  assumes "wp m Q E s" and "\<And>a t. Q a t \<Longrightarrow> Q' a t" and "\<And>e t. E e t \<Longrightarrow> E' e t"
  shows "wp m Q' E' s"
  using assms by (auto simp: wp_def split: prod.splits res.splits)

lemma wp_conj: "wp m Q E s \<Longrightarrow> wp m Q' E' s \<Longrightarrow> wp m (\<lambda>a t. Q a t \<and> Q' a t) (\<lambda>e t. E e t \<and> E' e t) s"
  by (auto simp: wp_def split: prod.splits res.splits)

lemma wp_basic [simp]:
  "wp (ret_op a) Q E s = Q a s" "wp (err_op e) Q E s = E e s" "wp panic_op Q E s = False"
  by (simp_all add: wp_def)

lemma wp_OkD: "wp m Q E s \<Longrightarrow> m s = (Ok a, s') \<Longrightarrow> Q a s'"
  by (simp add: wp_def)

lemma wp_ErrD: "wp m Q E s \<Longrightarrow> m s = (Err e, s') \<Longrightarrow> E e s'"
  by (simp add: wp_def)

lemma wp_no_panic: "wp m Q E s \<Longrightarrow> fst (m s) \<noteq> Panic"
  by (auto simp: wp_def split: prod.splits res.splits)

lemma wpI:
  assumes "fst (m s) \<noteq> Panic" and "\<And>a t. m s = (Ok a, t) \<Longrightarrow> Q a t" and "\<And>e t. m s = (Err e, t) \<Longrightarrow> E e t"
  shows "wp m Q E s"
  using assms by (auto simp: wp_def split: prod.splits res.splits)

lemma wp_expect: "wp m Q (\<lambda>_ _. False) s \<Longrightarrow> wp (expect_op m) Q E s"
  by (auto simp: wp_def expect_op_def split: prod.splits res.splits)

lemma wp_map_err: "wp m Q (\<lambda>e. E (g e)) s \<Longrightarrow> wp (map_err_op g m) Q E s"
  by (auto simp: wp_def map_err_op_def split: prod.splits res.splits)

lemma wp_for:
  assumes "I s" and "\<And>x t. x \<in> set xs \<Longrightarrow> I t \<Longrightarrow> wp (f x) (\<lambda>_. I) E t"
  shows "wp (for_op f xs) (\<lambda>_. I) E s"
  using assms
proof (induction xs arbitrary: s)
  case Nil
  then show ?case by (simp add: wp_def)
next
  case (Cons x xs)
  have "wp (f x) (\<lambda>_. wp (for_op f xs) (\<lambda>_. I) E) E s"
    using Cons.prems by (intro wp_conseq [OF Cons.prems(2)]) (auto intro: Cons.IH)
  from wp_bind [OF this] show ?case by (simp add: wp_def)
qed

lemma wp_map:
  assumes "I s" and "\<And>x t. x \<in> set xs \<Longrightarrow> I t \<Longrightarrow> wp (f x) (\<lambda>_. I) E t"
  shows "wp (map_op f xs) (\<lambda>_. I) E s"
  using assms
proof (induction xs arbitrary: s)
  case Nil
  then show ?case by (simp add: wp_def)
next
  case (Cons x xs)
  have "wp (f x) (\<lambda>a. wp (bind_op (map_op f xs) (\<lambda>as. ret_op (a # as))) (\<lambda>_. I) E) E s"
    using Cons.prems
    by (intro wp_conseq [OF Cons.prems(2)] wp_bind) (auto intro!: wp_conseq [OF Cons.IH])
  from wp_bind [OF this] show ?case by (simp add: wp_def)
qed

section \<open>Components as machines\<close>

text \<open>
  A component is a state, commands and a step that runs one command. The contract: every
  command that the client may issue in a state keeps the invariant, whatever it returns,
  and does not panic.
\<close>

locale invariant_machine =
  fixes step :: "'c \<Rightarrow> 's \<Rightarrow> ('e, 'a) res \<times> 's"
    and inv :: "'s \<Rightarrow> bool"
    and pre :: "'c \<Rightarrow> 's \<Rightarrow> bool"
  assumes step_inv: "inv s \<Longrightarrow> pre c s \<Longrightarrow> wp (step c) (\<lambda>_. inv) (\<lambda>_. inv) s"
begin

fun run :: "'c list \<Rightarrow> 's \<Rightarrow> 's" where
  "run [] s = s"
| "run (c # cs) s = run cs (snd (step c s))"

text \<open>Every command is allowed in the state it is issued in.\<close>

fun legal :: "'c list \<Rightarrow> 's \<Rightarrow> bool" where
  "legal [] s = True"
| "legal (c # cs) s = (pre c s \<and> legal cs (snd (step c s)))"

lemma step_no_panic: "inv s \<Longrightarrow> pre c s \<Longrightarrow> fst (step c s) \<noteq> Panic"
  using step_inv by (rule wp_no_panic)

lemma step_snd: "inv s \<Longrightarrow> pre c s \<Longrightarrow> inv (snd (step c s))"
  using step_inv [of s c] by (auto simp: wp_def split: prod.splits res.splits)

lemma run_inv: "inv s \<Longrightarrow> legal cs s \<Longrightarrow> inv (run cs s)"
  by (induction cs arbitrary: s) (auto intro: step_snd)

lemma run_append: "run (cs @ ds) s = run ds (run cs s)"
  by (induction cs arbitrary: s) auto

lemma legal_append: "legal (cs @ ds) s \<longleftrightarrow> legal cs s \<and> legal ds (run cs s)"
  by (induction cs arbitrary: s) auto

lemma legal_always: "(\<And>c s. pre c s) \<Longrightarrow> legal cs s"
  by (induction cs arbitrary: s) auto

lemma run_no_panic: "inv s \<Longrightarrow> legal (cs @ [d]) s \<Longrightarrow> fst (step d (run cs s)) \<noteq> Panic"
  by (intro step_no_panic run_inv) (auto simp: legal_append)

end

section \<open>Checked arithmetic\<close>

definition usize_max :: nat where "usize_max = 2 ^ 64 - 1"

definition u32_max :: nat where "u32_max = 2 ^ 32 - 1"

definition i32_max :: nat where "i32_max = 2 ^ 31 - 1"

definition checked_add :: "nat \<Rightarrow> nat \<Rightarrow> nat option" where
  "checked_add a b = (if a + b \<le> usize_max then Some (a + b) else None)"

definition checked_sub :: "nat \<Rightarrow> nat \<Rightarrow> nat option" where
  "checked_sub a b = (if b \<le> a then Some (a - b) else None)"

definition checked_mul :: "nat \<Rightarrow> nat \<Rightarrow> nat option" where
  "checked_mul a b = (if a * b \<le> usize_max then Some (a * b) else None)"

definition saturating_mul :: "nat \<Rightarrow> nat \<Rightarrow> nat" where
  "saturating_mul a b = min (a * b) usize_max"

text \<open>Rust's \<open>div_ceil\<close>: the quotient, one more when there is a remainder.\<close>

definition div_ceil :: "nat \<Rightarrow> nat \<Rightarrow> nat" where
  "div_ceil a b = (if a mod b = 0 then a div b else a div b + 1)"

lemma checked_add_Some [simp]: "checked_add a b = Some c \<longleftrightarrow> c = a + b \<and> a + b \<le> usize_max"
  by (auto simp: checked_add_def)

lemma checked_sub_Some [simp]: "checked_sub a b = Some c \<longleftrightarrow> c = a - b \<and> b \<le> a"
  by (auto simp: checked_sub_def)

lemma checked_mul_Some [simp]: "checked_mul a b = Some c \<longleftrightarrow> c = a * b \<and> a * b \<le> usize_max"
  by (auto simp: checked_mul_def)

lemma div_ceil_0 [simp]: "div_ceil 0 b = 0"
  by (simp add: div_ceil_def)

lemma div_ceil_mult [simp]: "0 < b \<Longrightarrow> div_ceil (a * b) b = a"
  by (simp add: div_ceil_def)

lemma div_ceil_le_iff: "0 < b \<Longrightarrow> div_ceil a b \<le> k \<longleftrightarrow> a \<le> k * b"
proof -
  assume b: "0 < b"
  have ab: "a = a div b * b + a mod b" by simp
  have m: "a mod b < b" using b by simp
  show ?thesis
  proof (cases "a mod b = 0")
    case True
    then have "a = a div b * b" using ab by simp
    then have "a \<le> k * b \<longleftrightarrow> a div b \<le> k"
      using b by (metis mult_le_cancel2)
    with True show ?thesis by (simp add: div_ceil_def)
  next
    case False
    have "a \<le> k * b \<longleftrightarrow> a div b < k"
    proof
      assume "a \<le> k * b"
      then have "a div b * b < k * b" using ab False by linarith
      then show "a div b < k" using b by simp
    next
      assume "a div b < k"
      then have "(a div b + 1) * b \<le> k * b" by (intro mult_le_mono1) simp
      moreover have "a < (a div b + 1) * b" using ab m by (simp only: distrib_right)
      ultimately show "a \<le> k * b" by linarith
    qed
    with False show ?thesis by (simp add: div_ceil_def Suc_le_eq)
  qed
qed

lemma div_ceil_mono: "0 < b \<Longrightarrow> a \<le> a' \<Longrightarrow> div_ceil a b \<le> div_ceil a' b"
  by (meson div_ceil_le_iff le_trans order_refl)

lemma le_div_ceil_mult: "0 < b \<Longrightarrow> a \<le> div_ceil a b * b"
  using div_ceil_le_iff [of b a "div_ceil a b"] by simp

lemma div_le_div_ceil: "a div b \<le> div_ceil a b"
  by (simp add: div_ceil_def)

lemma div_ceil_le_self: "0 < b \<Longrightarrow> div_ceil a b \<le> a"
  by (simp add: div_ceil_le_iff)

lemma less_div_ceil_iff: "0 < b \<Longrightarrow> k < div_ceil a b \<longleftrightarrow> k * b < a"
  by (meson div_ceil_le_iff not_le)

lemma less_div_ceil: "0 < b \<Longrightarrow> a < c \<Longrightarrow> a div b < div_ceil c b"
  by (simp add: less_div_ceil_iff) (metis div_times_less_eq_dividend le_less_trans)

end
