(* ===== verification/PagedKv.thy ===== *)
theory PagedKv
  imports Prelude
begin

text \<open>
  The paged KV metadata manager of \<open>src/src/paged_kv.rs\<close>: reference-counted physical
  pages, the prefix cache over full blocks, and the reserve/commit protocol of appends.

  A \<open>BTreeSet\<close>/\<open>BTreeMap\<close>/\<open>HashMap\<close> is a set or a partial map; \<open>pop_first\<close> is
  the minimum of the set or of the map's domain. A \<open>Vec\<close> indexed by page is a list and
  an index out of range is a panic, as is every \<open>expect\<close>, failed \<open>debug_assert\<close> and
  underflow of a page's reference count. \<open>chain\<close>, the hash of the standard library, is
  an argument of the operations that use it.
\<close>

section \<open>State\<close>

type_synonym token = int
type_synonym chash = "64 word"
type_synonym block_key = "chash \<times> token list"
type_synonym chain_fun = "chash \<Rightarrow> token list \<Rightarrow> chash"

datatype kv_error =
    ConfigZero
  | ConfigTooManyPages
  | SequenceExists nat
  | SequenceMissing nat
  | EmptyAppend
  | PendingExists nat nat
  | SequenceLengthOverflow
  | AboveCapacity nat nat nat
  | PagesExhausted nat nat
  | ReservationIdOverflow
  | ReservationMissing nat
  | ReservationOrphan
  | ReservationNotOwner nat nat
  | CommittedLengthOverflow
  | LookaheadCountOverflow
  | LookaheadContextOverflow
  | LookaheadAboveCapacity
  | LookaheadPagesExhausted
  | InvalidLookaheadPrefix
  | PartialOutside nat nat
  | DuplicateReservation nat
  | ReservationInconsistent nat
  | RemovePending nat nat
  | BudgetError

record kv_config =
  block_size :: nat
  num_pages :: nat
  max_sequence_length :: nat

record append_reservation =
  ar_id :: nat
  ar_request :: nat
  ar_start :: nat
  ar_count :: nat
  ar_context :: nat
  ar_new_pages :: "nat list"
  ar_table :: "nat list"

record sequence_snapshot =
  ss_request :: nat
  ss_committed :: nat
  ss_table :: "nat list"
  ss_pending :: "nat option"

record kv_snapshot =
  ks_block_size :: nat
  ks_total :: nat
  ks_free :: nat
  ks_sequences :: "sequence_snapshot list"

record sequence_state =
  sq_committed :: nat
  sq_pages :: "nat list"
  sq_pending :: "nat option"
  sq_registered :: nat
  sq_hash :: chash

record reservation_state =
  rs_request :: nat
  rs_previous :: nat
  rs_start :: nat
  rs_count :: nat

record cached_block =
  cb_key :: block_key
  cb_tick :: "nat option"

record kv_manager =
  kv_conf :: kv_config
  free_pages :: "nat set"
  page_refs :: "nat list"
  page_blocks :: "cached_block option list"
  block_index :: "block_key \<rightharpoonup> nat"
  evictable :: "nat \<rightharpoonup> nat"
  next_tick :: nat
  prefix_caching :: bool
  reused_tokens :: nat
  sequences :: "nat \<rightharpoonup> sequence_state"
  reservations :: "nat \<rightharpoonup> reservation_state"
  next_reservation :: nat

type_synonym 'a kv_op = "(kv_manager, kv_error, 'a) op"

definition chain_root :: chash where
  "chain_root = 0x527564614B560001"

definition config_validate :: "kv_config \<Rightarrow> (kv_error, unit) res" where
  "config_validate c =
     (if block_size c = 0 \<or> num_pages c = 0 \<or> max_sequence_length c = 0 then Err ConfigZero
      else if num_pages c > u32_max then Err ConfigTooManyPages
      else Ok ())"

definition kv_new :: "kv_config \<Rightarrow> (kv_error, kv_manager) res" where
  "kv_new c =
     (case config_validate c of
        Ok _ \<Rightarrow> Ok \<lparr>kv_conf = c, free_pages = {0..<num_pages c},
                  page_refs = replicate (num_pages c) 0,
                  page_blocks = replicate (num_pages c) None,
                  block_index = Map.empty, evictable = Map.empty, next_tick = 0,
                  prefix_caching = False, reused_tokens = 0, sequences = Map.empty,
                  reservations = Map.empty, next_reservation = 1\<rparr>
      | Err e \<Rightarrow> Err e
      | Panic \<Rightarrow> Panic)"

section \<open>Counters\<close>

definition available_pages :: "kv_manager \<Rightarrow> nat" where
  "available_pages s = card (free_pages s) + card (dom (evictable s))"

definition free_page_count :: "kv_manager \<Rightarrow> nat" where
  "free_page_count s = available_pages s"

definition allocated_page_count :: "kv_manager \<Rightarrow> nat" where
  "allocated_page_count s = num_pages (kv_conf s) - available_pages s"

definition cached_page_count :: "kv_manager \<Rightarrow> nat" where
  "cached_page_count s = card (dom (evictable s))"

definition sequence_count :: "kv_manager \<Rightarrow> nat" where
  "sequence_count s = card (dom (sequences s))"

definition reservation_count :: "kv_manager \<Rightarrow> nat" where
  "reservation_count s = card (dom (reservations s))"

section \<open>Pages\<close>

definition drop_cached_block :: "nat \<Rightarrow> unit kv_op" where
  "drop_cached_block p s =
     (if length (page_blocks s) \<le> p then (Panic, s)
      else case page_blocks s ! p of
        None \<Rightarrow> (Ok (), s)
      | Some b \<Rightarrow>
          (let s1 = s\<lparr>page_blocks := (page_blocks s)[p := None]\<rparr>
           in (Ok (), if block_index s1 (cb_key b) = Some p
                      then s1\<lparr>block_index := (block_index s1)(cb_key b := None)\<rparr> else s1)))"

definition take_page :: "nat \<Rightarrow> nat kv_op" where
  "take_page p s =
     (if length (page_refs s) \<le> p \<or> page_refs s ! p \<noteq> 0 then (Panic, s)
      else (Ok p, s\<lparr>page_refs := (page_refs s)[p := 1]\<rparr>))"

definition allocate_page :: "nat kv_op" where
  "allocate_page s =
     (if free_pages s \<noteq> {} then
        (let p = Min (free_pages s) in take_page p (s\<lparr>free_pages := free_pages s - {p}\<rparr>))
      else if dom (evictable s) = {} then (Panic, s)
      else
        (let t = Min (dom (evictable s)); p = the (evictable s t)
         in bind_op (drop_cached_block p) (\<lambda>_. take_page p)
              (s\<lparr>evictable := (evictable s)(t := None)\<rparr>)))"

fun allocate_pages :: "nat \<Rightarrow> nat list kv_op" where
  "allocate_pages 0 s = (Ok [], s)"
| "allocate_pages (Suc n) s =
     bind_op allocate_page (\<lambda>p. bind_op (allocate_pages n) (\<lambda>ps. ret_op (p # ps))) s"

definition acquire_cached :: "nat \<Rightarrow> unit kv_op" where
  "acquire_cached p s =
     (if length (page_refs s) \<le> p \<or> length (page_blocks s) \<le> p then (Panic, s)
      else
        let incr = (\<lambda>s. s\<lparr>page_refs := (page_refs s)[p := page_refs s ! p + 1]\<rparr>)
        in if page_refs s ! p = 0 then
             (case page_blocks s ! p of
                None \<Rightarrow> (Panic, s)
              | Some b \<Rightarrow>
                  (let s1 = s\<lparr>page_blocks := (page_blocks s)[p := Some (b\<lparr>cb_tick := None\<rparr>)]\<rparr>
                   in (Ok (), incr (case cb_tick b of
                         None \<Rightarrow> s1
                       | Some t \<Rightarrow> s1\<lparr>evictable := (evictable s1)(t := None)\<rparr>))))
           else (Ok (), incr s))"

definition release_page :: "nat \<Rightarrow> unit kv_op" where
  "release_page p s =
     (if length (page_refs s) \<le> p \<or> length (page_blocks s) \<le> p \<or> page_refs s ! p = 0 then (Panic, s)
      else
        let s1 = s\<lparr>page_refs := (page_refs s)[p := page_refs s ! p - 1]\<rparr>
        in if page_refs s1 ! p \<noteq> 0 then (Ok (), s1)
           else
             (case page_blocks s1 ! p of
                Some b \<Rightarrow>
                  if prefix_caching s1 then
                    let t = next_tick s1
                    in (Ok (), s1\<lparr>next_tick := t + 1,
                                  page_blocks := (page_blocks s1)[p := Some (b\<lparr>cb_tick := Some t\<rparr>)],
                                  evictable := (evictable s1)(t \<mapsto> p)\<rparr>)
                  else bind_op (drop_cached_block p)
                         (\<lambda>_ s2. if p \<in> free_pages s2 then (Panic, s2)
                                else (Ok (), s2\<lparr>free_pages := insert p (free_pages s2)\<rparr>)) s1
              | None \<Rightarrow>
                  bind_op (drop_cached_block p)
                    (\<lambda>_ s2. if p \<in> free_pages s2 then (Panic, s2)
                           else (Ok (), s2\<lparr>free_pages := insert p (free_pages s2)\<rparr>)) s1))"

definition release_pages :: "nat list \<Rightarrow> unit kv_op" where
  "release_pages ps = for_op release_page ps"

text \<open>\<open>for page in evictable.into_values()\<close>, in tick order.\<close>

definition set_prefix_caching :: "bool \<Rightarrow> unit kv_op" where
  "set_prefix_caching enabled s =
     (let s1 = s\<lparr>prefix_caching := enabled\<rparr>
      in if enabled then (Ok (), s1)
         else for_op (\<lambda>p. bind_op (drop_cached_block p)
                            (\<lambda>_ s2. (Ok (), s2\<lparr>free_pages := insert p (free_pages s2)\<rparr>)))
                (map (\<lambda>t. the (evictable s1 t)) (sorted_list_of_set (dom (evictable s1))))
                (s1\<lparr>evictable := Map.empty\<rparr>))"

section \<open>Sequences and the prefix cache\<close>

definition sequence :: "nat \<Rightarrow> sequence_state kv_op" where
  "sequence rid s =
     (case sequences s rid of Some q \<Rightarrow> (Ok q, s) | None \<Rightarrow> (Err (SequenceMissing rid), s))"

definition create_sequence :: "nat \<Rightarrow> unit kv_op" where
  "create_sequence rid s =
     (if sequences s rid \<noteq> None then (Err (SequenceExists rid), s)
      else (Ok (), s\<lparr>sequences := (sequences s)(rid \<mapsto>
              \<lparr>sq_committed = 0, sq_pages = [], sq_pending = None, sq_registered = 0,
               sq_hash = chain_root\<rparr>)\<rparr>))"

definition block_tokens :: "nat \<Rightarrow> token list \<Rightarrow> nat \<Rightarrow> token list" where
  "block_tokens bs toks b = take bs (drop (b * bs) toks)"

text \<open>The loop over the usable blocks of a prompt: \<open>(parent hash, mapped pages)\<close>.\<close>

fun match_blocks :: "chain_fun \<Rightarrow> nat \<Rightarrow> token list \<Rightarrow> nat list \<Rightarrow> chash \<Rightarrow> nat list \<Rightarrow> (chash \<times> nat list) kv_op" where
  "match_blocks chain bs toks [] parent ps s = (Ok (parent, ps), s)"
| "match_blocks chain bs toks (b # blocks) parent ps s =
     (case block_index s (parent, block_tokens bs toks b) of
        None \<Rightarrow> (Ok (parent, ps), s)
      | Some p \<Rightarrow>
          bind_op (acquire_cached p)
            (\<lambda>_. match_blocks chain bs toks blocks (chain parent (block_tokens bs toks b)) (ps @ [p])) s)"

definition create_sequence_with_prefix :: "chain_fun \<Rightarrow> nat \<Rightarrow> token list \<Rightarrow> nat kv_op" where
  "create_sequence_with_prefix chain rid toks =
     bind_op (create_sequence rid) (\<lambda>_ s.
       if \<not> prefix_caching s \<or> length toks \<le> 1 then (Ok 0, s)
       else
         let bs = block_size (kv_conf s); usable = (length toks - 1) div bs
         in bind_op (match_blocks chain bs toks [0..<usable] chain_root [])
              (\<lambda>(parent, ps) s1.
                 case sequences s1 rid of
                   None \<Rightarrow> (Panic, s1)
                 | Some q \<Rightarrow>
                     (let matched = length ps * bs
                      in (Ok matched,
                          s1\<lparr>sequences := (sequences s1)(rid \<mapsto>
                               q\<lparr>sq_registered := length ps, sq_hash := parent,
                                 sq_committed := matched, sq_pages := ps\<rparr>),
                             reused_tokens := reused_tokens s1 + matched\<rparr>))) s)"

text \<open>The \<open>while block < complete\<close> loop; the first argument is \<open>complete - block\<close>.\<close>

fun register_blocks ::
  "chain_fun \<Rightarrow> nat \<Rightarrow> token list \<Rightarrow> nat list \<Rightarrow> nat \<Rightarrow> nat \<Rightarrow> chash \<Rightarrow> (nat \<times> chash) kv_op" where
  "register_blocks chain bs toks ps 0 block parent s = (Ok (block, parent), s)"
| "register_blocks chain bs toks ps (Suc n) block parent s =
     (if length ps \<le> block \<or> length (page_blocks s) \<le> ps ! block then (Panic, s)
      else
        let key = (parent, block_tokens bs toks block); p = ps ! block;
            s1 = (if block_index s key = None \<and> page_blocks s ! p = None
                  then s\<lparr>block_index := (block_index s)(key \<mapsto> p),
                         page_blocks := (page_blocks s)[p := Some \<lparr>cb_key = key, cb_tick = None\<rparr>]\<rparr>
                  else s)
        in register_blocks chain bs toks ps n (Suc block) (chain parent (block_tokens bs toks block)) s1)"

definition register_prefix :: "chain_fun \<Rightarrow> nat \<Rightarrow> token list \<Rightarrow> unit kv_op" where
  "register_prefix chain rid toks s =
     (if \<not> prefix_caching s then (Ok (), s)
      else bind_op (sequence rid) (\<lambda>q s.
        let bs = block_size (kv_conf s); committed = min (sq_committed q) (length toks);
            complete = committed div bs
        in bind_op (register_blocks chain bs toks (sq_pages q) (complete - sq_registered q)
                      (sq_registered q) (sq_hash q))
             (\<lambda>(block, parent) s1.
                case sequences s1 rid of
                  None \<Rightarrow> (Panic, s1)
                | Some q1 \<Rightarrow>
                    (Ok (), s1\<lparr>sequences := (sequences s1)(rid \<mapsto>
                        q1\<lparr>sq_registered := block, sq_hash := parent\<rparr>)\<rparr>)) s) s)"

definition contains_sequence :: "nat \<Rightarrow> kv_manager \<Rightarrow> bool" where
  "contains_sequence rid s = (sequences s rid \<noteq> None)"

definition committed_tokens :: "nat \<Rightarrow> nat kv_op" where
  "committed_tokens rid = bind_op (sequence rid) (\<lambda>q. ret_op (sq_committed q))"

definition block_table :: "nat \<Rightarrow> nat list kv_op" where
  "block_table rid = bind_op (sequence rid) (\<lambda>q. ret_op (sq_pages q))"

section \<open>Reserve, commit, cancel\<close>

definition can_append :: "nat \<Rightarrow> nat \<Rightarrow> bool kv_op" where
  "can_append rid cnt s =
     (if cnt = 0 then (Ok False, s)
      else bind_op (sequence rid) (\<lambda>q s.
        if sq_pending q \<noteq> None then (Ok False, s)
        else case checked_add (sq_committed q) cnt of
          None \<Rightarrow> (Ok False, s)
        | Some e \<Rightarrow>
            if e > max_sequence_length (kv_conf s) then (Ok False, s)
            else (Ok (div_ceil e (block_size (kv_conf s)) - length (sq_pages q) \<le> available_pages s), s)) s)"

definition begin_append :: "nat \<Rightarrow> nat \<Rightarrow> append_reservation kv_op" where
  "begin_append rid cnt s =
     (if cnt = 0 then (Err EmptyAppend, s)
      else bind_op (sequence rid) (\<lambda>q s.
        case sq_pending q of
          Some r \<Rightarrow> (Err (PendingExists rid r), s)
        | None \<Rightarrow>
          (case checked_add (sq_committed q) cnt of
             None \<Rightarrow> (Err SequenceLengthOverflow, s)
           | Some ctx \<Rightarrow>
             if ctx > max_sequence_length (kv_conf s)
             then (Err (AboveCapacity rid ctx (max_sequence_length (kv_conf s))), s)
             else
               let previous = length (sq_pages q);
                   additional = div_ceil ctx (block_size (kv_conf s)) - previous;
                   rid' = next_reservation s
               in if additional > available_pages s
                  then (Err (PagesExhausted additional (available_pages s)), s)
                  else case checked_add (next_reservation s) 1 of
                    None \<Rightarrow> (Err ReservationIdOverflow, s)
                  | Some nxt \<Rightarrow>
                      bind_op (allocate_pages additional) (\<lambda>new s.
                        case sequences s rid of
                          None \<Rightarrow> (Panic, s)
                        | Some q \<Rightarrow>
                            (let table = sq_pages q @ new
                             in (Ok \<lparr>ar_id = rid', ar_request = rid, ar_start = sq_committed q,
                                     ar_count = cnt, ar_context = ctx,
                                     ar_new_pages = new, ar_table = table\<rparr>,
                                 s\<lparr>sequences := (sequences s)(rid \<mapsto>
                                      q\<lparr>sq_pages := table, sq_pending := Some rid'\<rparr>),
                                   reservations := (reservations s)(rid' \<mapsto>
                                      \<lparr>rs_request = rid, rs_previous = previous,
                                       rs_start = sq_committed q, rs_count = cnt\<rparr>)\<rparr>)))
                        (s\<lparr>next_reservation := nxt\<rparr>))) s)"

definition take_reservation :: "nat \<Rightarrow> reservation_state kv_op" where
  "take_reservation r s =
     (case reservations s r of
        None \<Rightarrow> (Err (ReservationMissing r), s)
      | Some v \<Rightarrow> (Ok v, s\<lparr>reservations := (reservations s)(r := None)\<rparr>))"

definition validate_reservation :: "nat \<Rightarrow> unit kv_op" where
  "validate_reservation r s =
     (case reservations s r of
        None \<Rightarrow> (Err (ReservationMissing r), s)
      | Some v \<Rightarrow> bind_op (sequence (rs_request v)) (\<lambda>q s.
          if sq_pending q \<noteq> Some r \<or> sq_committed q \<noteq> rs_start v \<or> length (sq_pages q) < rs_previous v
          then (Err (ReservationInconsistent r), s)
          else case checked_add (rs_start v) (rs_count v) of
            None \<Rightarrow> (Err CommittedLengthOverflow, s)
          | Some _ \<Rightarrow> (Ok (), s)) s)"

fun validate_from :: "nat set \<Rightarrow> nat list \<Rightarrow> unit kv_op" where
  "validate_from seen [] s = (Ok (), s)"
| "validate_from seen (r # rs) s =
     (if r \<in> seen then (Err (DuplicateReservation r), s)
      else bind_op (validate_reservation r) (\<lambda>_. validate_from (insert r seen) rs) s)"

definition validate_reservations :: "nat list \<Rightarrow> unit kv_op" where
  "validate_reservations rs = validate_from {} rs"

definition commit_append :: "nat \<Rightarrow> nat kv_op" where
  "commit_append r =
     bind_op (validate_reservation r) (\<lambda>_.
     bind_op (take_reservation r) (\<lambda>v s.
       case sequences s (rs_request v) of
         None \<Rightarrow> (Err ReservationOrphan, s)
       | Some q \<Rightarrow>
           if sq_pending q \<noteq> Some r then (Err (ReservationNotOwner r (rs_request v)), s)
           else case checked_add (rs_start v) (rs_count v) of
             None \<Rightarrow> (Err CommittedLengthOverflow, s)
           | Some ctx \<Rightarrow>
               (Ok ctx, s\<lparr>sequences := (sequences s)(rs_request v \<mapsto>
                  q\<lparr>sq_committed := ctx, sq_pending := None\<rparr>)\<rparr>)))"

definition extend_append :: "nat \<Rightarrow> nat \<Rightarrow> append_reservation kv_op" where
  "extend_append r extra =
     bind_op (validate_reservation r) (\<lambda>_ s.
       case reservations s r of
         None \<Rightarrow> (Panic, s)
       | Some v \<Rightarrow>
         (case checked_add (rs_count v) extra of
            None \<Rightarrow> (Err LookaheadCountOverflow, s)
          | Some cnt \<Rightarrow>
            (case checked_add (rs_start v) cnt of
               None \<Rightarrow> (Err LookaheadContextOverflow, s)
             | Some e \<Rightarrow>
               if e > max_sequence_length (kv_conf s) then (Err LookaheadAboveCapacity, s)
               else case sequences s (rs_request v) of
                 None \<Rightarrow> (Panic, s)
               | Some q \<Rightarrow>
                   let additional = div_ceil e (block_size (kv_conf s)) - length (sq_pages q)
                   in if additional > available_pages s then (Err LookaheadPagesExhausted, s)
                      else bind_op (allocate_pages additional) (\<lambda>new s.
                        case sequences s (rs_request v) of
                          None \<Rightarrow> (Panic, s)
                        | Some q \<Rightarrow>
                            (Ok \<lparr>ar_id = r, ar_request = rs_request v, ar_start = rs_start v,
                                 ar_count = cnt, ar_context = e, ar_new_pages = new,
                                 ar_table = sq_pages q @ new\<rparr>,
                             s\<lparr>sequences := (sequences s)(rs_request v \<mapsto>
                                  q\<lparr>sq_pages := sq_pages q @ new\<rparr>),
                               reservations := (reservations s)(r \<mapsto> v\<lparr>rs_count := cnt\<rparr>)\<rparr>)) s)))"

text \<open>The validation of the consumed counts, before anything is changed.\<close>

fun check_consumed :: "(nat \<times> nat) list \<Rightarrow> unit kv_op" where
  "check_consumed [] s = (Ok (), s)"
| "check_consumed ((r, cnt) # rows) s =
     (case reservations s r of
        None \<Rightarrow> (Panic, s)
      | Some v \<Rightarrow>
          if cnt = 0 \<or> cnt > rs_count v then (Err InvalidLookaheadPrefix, s)
          else check_consumed rows s)"

definition commit_row :: "nat \<times> nat \<Rightarrow> nat kv_op" where
  "commit_row row s =
     (case reservations s (fst row) of
        None \<Rightarrow> (Panic, s)
      | Some v \<Rightarrow>
        (case sequences s (rs_request v) of
           None \<Rightarrow> (Panic, s)
         | Some q \<Rightarrow>
             let position = rs_start v + snd row; keep = div_ceil position (block_size (kv_conf s))
             in if keep > length (sq_pages q) then (Panic, s)
                else bind_op (release_pages (drop keep (sq_pages q))) (\<lambda>_. ret_op position)
                       (s\<lparr>reservations := (reservations s)(fst row := None),
                          sequences := (sequences s)(rs_request v \<mapsto>
                            q\<lparr>sq_pages := take keep (sq_pages q), sq_committed := position,
                              sq_pending := None\<rparr>)\<rparr>)))"

definition commit_append_prefixes :: "(nat \<times> nat) list \<Rightarrow> nat list kv_op" where
  "commit_append_prefixes rows =
     bind_op (validate_reservations (map fst rows)) (\<lambda>_.
     bind_op (check_consumed rows) (\<lambda>_. map_op commit_row rows))"

definition commit_append_partial :: "nat \<Rightarrow> nat \<Rightarrow> nat kv_op" where
  "commit_append_partial r cnt s =
     (case reservations s r of
        None \<Rightarrow> (Err (ReservationMissing r), s)
      | Some v \<Rightarrow>
          if cnt = 0 \<or> cnt > rs_count v then (Err (PartialOutside cnt (rs_count v)), s)
          else
            let ctx = rs_start v + cnt; needed = div_ceil ctx (block_size (kv_conf s))
            in bind_op (commit_append r) (\<lambda>committed s.
                 case sequences s (rs_request v) of
                   None \<Rightarrow> (Panic, s)
                 | Some q \<Rightarrow>
                     if committed < ctx then (Panic, s)
                     else bind_op (release_pages (drop needed (sq_pages q))) (\<lambda>_. ret_op ctx)
                            (s\<lparr>sequences := (sequences s)(rs_request v \<mapsto>
                                 q\<lparr>sq_committed := ctx, sq_pages := take needed (sq_pages q)\<rparr>)\<rparr>)) s)"

definition cancel_append :: "nat \<Rightarrow> unit kv_op" where
  "cancel_append r =
     bind_op (validate_reservation r) (\<lambda>_.
     bind_op (take_reservation r) (\<lambda>v s.
       case sequences s (rs_request v) of
         None \<Rightarrow> (Err ReservationOrphan, s)
       | Some q \<Rightarrow>
           if sq_pending q \<noteq> Some r then (Err (ReservationNotOwner r (rs_request v)), s)
           else if length (sq_pages q) < rs_previous v then (Panic, s)
           else release_pages (drop (rs_previous v) (sq_pages q))
                  (s\<lparr>sequences := (sequences s)(rs_request v \<mapsto>
                       q\<lparr>sq_pages := take (rs_previous v) (sq_pages q), sq_pending := None\<rparr>)\<rparr>)))"

definition commit_appends :: "nat list \<Rightarrow> nat list kv_op" where
  "commit_appends rs =
     bind_op (validate_reservations rs) (\<lambda>_. map_op (\<lambda>r. expect_op (commit_append r)) rs)"

definition cancel_appends :: "nat list \<Rightarrow> unit kv_op" where
  "cancel_appends rs =
     bind_op (validate_reservations rs) (\<lambda>_. for_op (\<lambda>r. expect_op (cancel_append r)) rs)"

definition remove_sequence :: "nat \<Rightarrow> unit kv_op" where
  "remove_sequence rid =
     bind_op (sequence rid) (\<lambda>q s.
       case sq_pending q of
         Some r \<Rightarrow> (Err (RemovePending rid r), s)
       | None \<Rightarrow> release_pages (rev (sq_pages q)) (s\<lparr>sequences := (sequences s)(rid := None)\<rparr>))"

definition kv_snapshot_of :: "kv_manager \<Rightarrow> kv_snapshot" where
  "kv_snapshot_of s =
     \<lparr>ks_block_size = block_size (kv_conf s), ks_total = num_pages (kv_conf s),
      ks_free = available_pages s,
      ks_sequences = map (\<lambda>rid. let q = the (sequences s rid) in
          \<lparr>ss_request = rid, ss_committed = sq_committed q, ss_table = sq_pages q,
           ss_pending = sq_pending q\<rparr>)
        (sorted_list_of_set (dom (sequences s)))\<rparr>"

end
