(* ===== verification/PagedKvPool.thy ===== *)
theory PagedKvPool
  imports PagedKv
begin

text \<open>
  The page pool of the KV manager: the accounting invariant of reference counts, free
  pages, evictable pages and published blocks, and what allocating, acquiring, releasing
  and forgetting one page does to it. \<open>owed\<close> lists the pages an operation holds in a
  local variable: counted, but not (or no longer) in any sequence's table.
\<close>

section \<open>Reference counts of the sequence tables\<close>

definition seq_refs :: "(nat \<rightharpoonup> sequence_state) \<Rightarrow> nat \<Rightarrow> nat" where
  "seq_refs sq p = (\<Sum>r\<in>dom sq. count_list (sq_pages (the (sq r))) p)"

lemma seq_refs_empty [simp]: "seq_refs Map.empty p = 0"
  by (simp add: seq_refs_def)

lemma seq_refs_insert:
  "finite (dom sq) \<Longrightarrow> sq r = None \<Longrightarrow> seq_refs (sq(r \<mapsto> q)) p = seq_refs sq p + count_list (sq_pages q) p"
proof -
  assume fin: "finite (dom sq)" and none: "sq r = None"
  have "(\<Sum>x\<in>dom sq. count_list (sq_pages (the ((sq(r \<mapsto> q)) x))) p)
      = (\<Sum>x\<in>dom sq. count_list (sq_pages (the (sq x))) p)"
    using none by (intro sum.cong) auto
  then show ?thesis using fin none by (simp add: seq_refs_def domIff)
qed

lemma seq_refs_remove:
  assumes "finite (dom sq)" and "sq r = Some q"
  shows "seq_refs sq p = seq_refs (sq(r := None)) p + count_list (sq_pages q) p"
proof -
  have eq: "sq = (sq(r := None))(r \<mapsto> q)" using assms(2) by auto
  show ?thesis
    by (subst eq, subst seq_refs_insert) (use assms in auto)
qed

lemma seq_refs_update:
  assumes "finite (dom sq)" and "sq r = Some q"
  shows "seq_refs (sq(r \<mapsto> q')) p + count_list (sq_pages q) p = seq_refs sq p + count_list (sq_pages q') p"
proof -
  have "seq_refs (sq(r \<mapsto> q')) p = seq_refs (sq(r := None)) p + count_list (sq_pages q') p"
    using seq_refs_insert [of "sq(r := None)" r q' p] assms by simp
  with seq_refs_remove [OF assms, of p] show ?thesis by simp
qed

lemma seq_refs_same_pages:
  assumes "finite (dom sq)" and "sq r = Some q" and "sq_pages q' = sq_pages q"
  shows "seq_refs (sq(r \<mapsto> q')) = seq_refs sq"
  using seq_refs_update [OF assms(1,2), of q'] assms(3) by (auto simp: fun_eq_iff)

lemma seq_refs_ge:
  "finite (dom sq) \<Longrightarrow> sq r = Some q \<Longrightarrow> count_list (sq_pages q) p \<le> seq_refs sq p"
  using seq_refs_remove [of sq r q p] by simp

lemma seq_refs_mem:
  "finite (dom sq) \<Longrightarrow> sq r = Some q \<Longrightarrow> p \<in> set (sq_pages q) \<Longrightarrow> 0 < seq_refs sq p"
  using seq_refs_ge [of sq r q p] by (metis count_list_0_iff gr_zeroI le_zero_eq)

section \<open>The invariant\<close>

definition refs_ok :: "nat list \<Rightarrow> kv_manager \<Rightarrow> bool" where
  "refs_ok owed s \<longleftrightarrow> finite (dom (sequences s)) \<and> length (page_refs s) = num_pages (kv_conf s)
     \<and> (\<forall>p < num_pages (kv_conf s). page_refs s ! p = seq_refs (sequences s) p + count_list owed p)
     \<and> set owed \<subseteq> {..<num_pages (kv_conf s)}
     \<and> (\<forall>r q. sequences s r = Some q \<longrightarrow> set (sq_pages q) \<subseteq> {..<num_pages (kv_conf s)})"

definition free_ok :: "kv_manager \<Rightarrow> bool" where
  "free_ok s \<longleftrightarrow> free_pages s \<subseteq> {..<num_pages (kv_conf s)}
     \<and> (\<forall>p \<in> free_pages s. page_refs s ! p = 0 \<and> page_blocks s ! p = None)
     \<and> (\<forall>p < num_pages (kv_conf s). page_refs s ! p = 0 \<longrightarrow> p \<in> free_pages s \<or> page_blocks s ! p \<noteq> None)"

text \<open>
  Published blocks: the index and the per-page records describe the same pages, a record
  carries its eviction tick exactly while the page is unreferenced, and the eviction
  order maps that tick back to the page.
\<close>

definition cache_ok :: "kv_manager \<Rightarrow> bool" where
  "cache_ok s \<longleftrightarrow> length (page_blocks s) = num_pages (kv_conf s)
     \<and> (\<forall>t p. evictable s t = Some p \<longleftrightarrow>
            p < num_pages (kv_conf s) \<and> (\<exists>b. page_blocks s ! p = Some b \<and> cb_tick b = Some t))
     \<and> (\<forall>p b. p < num_pages (kv_conf s) \<and> page_blocks s ! p = Some b \<longrightarrow>
            (cb_tick b = None \<longleftrightarrow> page_refs s ! p \<noteq> 0))
     \<and> (\<forall>k p. block_index s k = Some p \<longleftrightarrow>
            p < num_pages (kv_conf s) \<and> (\<exists>b. page_blocks s ! p = Some b \<and> cb_key b = k))
     \<and> (\<forall>t \<in> dom (evictable s). t < next_tick s)"

text \<open>
  The writable tail of a sequence, the pages from the first uncommitted position on, is
  owned by that sequence alone and is not published.
\<close>

definition tail_ok :: "kv_manager \<Rightarrow> bool" where
  "tail_ok s \<longleftrightarrow> (\<forall>r q j. sequences s r = Some q \<and> sq_committed q div block_size (kv_conf s) \<le> j
        \<and> j < length (sq_pages q) \<longrightarrow>
      page_blocks s ! (sq_pages q ! j) = None \<and> page_refs s ! (sq_pages q ! j) = 1)"

definition pool_inv :: "nat list \<Rightarrow> kv_manager \<Rightarrow> bool" where
  "pool_inv owed s \<longleftrightarrow> refs_ok owed s \<and> free_ok s \<and> cache_ok s \<and> tail_ok s"

lemmas pool_defs = pool_inv_def refs_ok_def free_ok_def cache_ok_def tail_ok_def

text \<open>Everything of the manager that the page operations leave alone.\<close>

definition kv_frame :: "kv_manager \<Rightarrow> kv_manager \<Rightarrow> bool" where
  "kv_frame s s' \<longleftrightarrow> kv_conf s' = kv_conf s \<and> prefix_caching s' = prefix_caching s
     \<and> reused_tokens s' = reused_tokens s \<and> sequences s' = sequences s
     \<and> reservations s' = reservations s \<and> next_reservation s' = next_reservation s"

lemma kv_frame_refl [simp]: "kv_frame s s"
  by (simp add: kv_frame_def)

lemma kv_frame_trans: "kv_frame s t \<Longrightarrow> kv_frame t u \<Longrightarrow> kv_frame s u"
  by (simp add: kv_frame_def)

section \<open>Consequences\<close>

lemma tail_okD:
  "tail_ok s \<Longrightarrow> sequences s r = Some q \<Longrightarrow> sq_committed q div block_size (kv_conf s) \<le> j \<Longrightarrow>
     j < length (sq_pages q) \<Longrightarrow>
     page_blocks s ! (sq_pages q ! j) = None \<and> page_refs s ! (sq_pages q ! j) = 1"
  unfolding tail_ok_def by blast

lemma cache_len: "cache_ok s \<Longrightarrow> length (page_blocks s) = num_pages (kv_conf s)"
  by (simp add: cache_ok_def)

lemma cache_evict:
  "cache_ok s \<Longrightarrow> evictable s t = Some p \<longleftrightarrow>
     p < num_pages (kv_conf s) \<and> (\<exists>b. page_blocks s ! p = Some b \<and> cb_tick b = Some t)"
  by (simp add: cache_ok_def)

lemma cache_index:
  "cache_ok s \<Longrightarrow> block_index s k = Some p \<longleftrightarrow>
     p < num_pages (kv_conf s) \<and> (\<exists>b. page_blocks s ! p = Some b \<and> cb_key b = k)"
  by (cases k) (simp add: cache_ok_def)

lemma cache_tick:
  "cache_ok s \<Longrightarrow> p < num_pages (kv_conf s) \<Longrightarrow> page_blocks s ! p = Some b \<Longrightarrow>
     cb_tick b = None \<longleftrightarrow> page_refs s ! p \<noteq> 0"
proof -
  assume c: "cache_ok s" and p: "p < num_pages (kv_conf s)" "page_blocks s ! p = Some b"
  have "\<forall>p b. p < num_pages (kv_conf s) \<and> page_blocks s ! p = Some b \<longrightarrow>
      (cb_tick b = None \<longleftrightarrow> page_refs s ! p \<noteq> 0)"
    using c unfolding cache_ok_def by (elim conjE)
  with p show ?thesis by blast
qed

lemma cache_fresh_tick: "cache_ok s \<Longrightarrow> evictable s t = Some p \<Longrightarrow> t < next_tick s"
  unfolding cache_ok_def by (elim conjE) (drule bspec [of _ _ t]; simp add: domI)

lemma cache_okI:
  assumes "length (page_blocks s) = num_pages (kv_conf s)"
    and "\<And>t p. evictable s t = Some p \<longleftrightarrow>
            p < num_pages (kv_conf s) \<and> (\<exists>b. page_blocks s ! p = Some b \<and> cb_tick b = Some t)"
    and "\<And>p b. p < num_pages (kv_conf s) \<Longrightarrow> page_blocks s ! p = Some b \<Longrightarrow>
            cb_tick b = None \<longleftrightarrow> page_refs s ! p \<noteq> 0"
    and "\<And>k p. block_index s k = Some p \<longleftrightarrow>
            p < num_pages (kv_conf s) \<and> (\<exists>b. page_blocks s ! p = Some b \<and> cb_key b = k)"
    and "\<And>t p. evictable s t = Some p \<Longrightarrow> t < next_tick s"
  shows "cache_ok s"
proof -
  have tick: "p < num_pages (kv_conf s) \<and> page_blocks s ! p = Some b \<longrightarrow>
      (cb_tick b = None \<longleftrightarrow> page_refs s ! p \<noteq> 0)" for p b
    using assms(3) by blast
  have fresh: "\<forall>t \<in> dom (evictable s). t < next_tick s" using assms(5) by auto
  show ?thesis unfolding cache_ok_def
    by (intro conjI allI) (rule assms(1) assms(2) tick assms(4) fresh)+
qed

lemma evictable_unref:
  "cache_ok s \<Longrightarrow> evictable s t = Some p \<Longrightarrow> page_refs s ! p = 0 \<and> p < num_pages (kv_conf s)"
  by (auto simp: cache_evict cache_tick [symmetric] dest: cache_tick)

lemma finite_evictable: "cache_ok s \<Longrightarrow> finite (dom (evictable s))"
  unfolding cache_ok_def by (meson finite_lessThan finite_subset lessThan_iff subsetI)

lemma finite_free: "free_ok s \<Longrightarrow> finite (free_pages s)"
  unfolding free_ok_def by (meson finite_lessThan finite_subset)

lemma evictable_inj: "cache_ok s \<Longrightarrow> inj_on (evictable s) (dom (evictable s))"
proof (rule inj_onI)
  fix t u assume c: "cache_ok s" and "t \<in> dom (evictable s)" and "evictable s t = evictable s u"
  then obtain p where "evictable s t = Some p" "evictable s u = Some p" by (metis domD)
  with c show "t = u" unfolding cache_ok_def by force
qed

lemma available_eq:
  assumes "pool_inv owed s"
  shows "available_pages s = card {p. p < num_pages (kv_conf s) \<and> page_refs s ! p = 0}"
proof -
  let ?n = "num_pages (kv_conf s)"
  have f: "free_ok s" and c: "cache_ok s" using assms by (auto simp: pool_inv_def)
  have "card (dom (evictable s)) = card (evictable s ` dom (evictable s))"
    by (simp add: card_image evictable_inj [OF c])
  also have "evictable s ` dom (evictable s) = Some ` ran (evictable s)"
    by (force simp: ran_def image_iff)
  finally have cd: "card (dom (evictable s)) = card (ran (evictable s))"
    by (simp add: card_image)
  have fin: "finite (ran (evictable s))"
    by (rule finite_ran) (rule finite_evictable [OF c])
  have disj: "free_pages s \<inter> ran (evictable s) = {}"
    using f c by (force simp: free_ok_def cache_ok_def ran_def)
  have un: "free_pages s \<union> ran (evictable s) = {p. p < ?n \<and> page_refs s ! p = 0}"
  proof (intro set_eqI iffI)
    fix p assume "p \<in> free_pages s \<union> ran (evictable s)"
    then show "p \<in> {p. p < ?n \<and> page_refs s ! p = 0}"
      using f evictable_unref [OF c] by (auto simp: free_ok_def ran_def)
  next
    fix p assume "p \<in> {p. p < ?n \<and> page_refs s ! p = 0}"
    then have p: "p < ?n" "page_refs s ! p = 0" by auto
    show "p \<in> free_pages s \<union> ran (evictable s)"
    proof (cases "page_blocks s ! p")
      case None
      with f p show ?thesis by (auto simp: free_ok_def)
    next
      case (Some b)
      with c p obtain t where "cb_tick b = Some t" unfolding cache_ok_def by blast
      with c p Some have "evictable s t = Some p" unfolding cache_ok_def by blast
      then show ?thesis by (auto simp: ran_def)
    qed
  qed
  show ?thesis
    unfolding available_pages_def cd un [symmetric]
    by (rule card_Un_disjoint [symmetric]) (use fin disj finite_free [OF f] in auto)
qed

lemma available_pos:
  "pool_inv owed s \<Longrightarrow> 0 < available_pages s \<longleftrightarrow> (\<exists>p < num_pages (kv_conf s). page_refs s ! p = 0)"
  by (auto simp: available_eq card_gt_0_iff)


section \<open>Allocation\<close>

text \<open>The state after page \<open>p\<close> leaves the free set, or is evicted, for a new owner.\<close>

lemma allocate_page_free:
  assumes "pool_inv owed s" and "free_pages s \<noteq> {}" and "p = Min (free_pages s)"
  shows "allocate_page s =
      (Ok p, s\<lparr>free_pages := free_pages s - {p}, page_refs := (page_refs s)[p := 1]\<rparr>)"
    and "p \<in> free_pages s"
proof -
  show p: "p \<in> free_pages s"
    using assms by (auto simp: pool_inv_def intro!: Min_in finite_free)
  then have "p < length (page_refs s)" "page_refs s ! p = 0"
    using assms(1) by (auto simp: pool_inv_def refs_ok_def free_ok_def)
  then show "allocate_page s =
      (Ok p, s\<lparr>free_pages := free_pages s - {p}, page_refs := (page_refs s)[p := 1]\<rparr>)"
    using assms(2,3) by (simp add: allocate_page_def take_page_def Let_def)
qed

lemma allocate_page_evict:
  assumes "pool_inv owed s" and "free_pages s = {}" and "dom (evictable s) \<noteq> {}"
  obtains t p b where "t = Min (dom (evictable s))" and "evictable s t = Some p"
    and "page_blocks s ! p = Some b" and "cb_tick b = Some t" and "p < num_pages (kv_conf s)"
    and "page_refs s ! p = 0"
    and "allocate_page s = (Ok p, s\<lparr>evictable := (evictable s)(t := None),
           page_blocks := (page_blocks s)[p := None],
           block_index := (block_index s)(cb_key b := None),
           page_refs := (page_refs s)[p := 1]\<rparr>)"
proof -
  have c: "cache_ok s" using assms(1) by (simp add: pool_inv_def)
  define t where "t = Min (dom (evictable s))"
  have "t \<in> dom (evictable s)"
    unfolding t_def using assms(3) finite_evictable [OF c] by (rule Min_in [rotated])
  then obtain p where tp: "evictable s t = Some p" by auto
  obtain b where b: "p < num_pages (kv_conf s)" "page_blocks s ! p = Some b" "cb_tick b = Some t"
    using c tp unfolding cache_ok_def by blast
  have idx: "block_index s (cb_key b) = Some p" using c b unfolding cache_ok_def by blast
  have r: "page_refs s ! p = 0" using evictable_unref [OF c tp] by simp
  have len: "length (page_blocks s) = num_pages (kv_conf s)" "length (page_refs s) = num_pages (kv_conf s)"
    using assms(1) by (auto simp: pool_defs)
  have "allocate_page s = (Ok p, s\<lparr>evictable := (evictable s)(t := None),
           page_blocks := (page_blocks s)[p := None],
           block_index := (block_index s)(cb_key b := None),
           page_refs := (page_refs s)[p := 1]\<rparr>)"
    using assms(2,3) tp b idx r len
    by (simp add: allocate_page_def take_page_def drop_cached_block_def bind_op_def Let_def
        t_def [symmetric])
  then show thesis using that t_def tp b r by blast
qed

text \<open>What a fresh page is: counted once, unpublished, and nobody else's.\<close>

definition fresh_page :: "kv_manager \<Rightarrow> nat \<Rightarrow> bool" where
  "fresh_page s p \<longleftrightarrow> p < num_pages (kv_conf s) \<and> page_refs s ! p = 1 \<and> page_blocks s ! p = None"

text \<open>Referenced pages are not touched by an allocation.\<close>

definition keeps_referenced :: "kv_manager \<Rightarrow> kv_manager \<Rightarrow> bool" where
  "keeps_referenced s s' \<longleftrightarrow> (\<forall>p < num_pages (kv_conf s). page_refs s ! p \<noteq> 0 \<longrightarrow>
      page_refs s' ! p = page_refs s ! p \<and> page_blocks s' ! p = page_blocks s ! p)"

lemma tail_ok_transfer:
  assumes "pool_inv owed s" and "sequences s' = sequences s" and "kv_conf s' = kv_conf s"
    and "keeps_referenced s s'"
  shows "tail_ok s'"
  unfolding tail_ok_def
proof (intro allI impI)
  fix r q j
  assume a: "sequences s' r = Some q \<and> sq_committed q div block_size (kv_conf s') \<le> j \<and> j < length (sq_pages q)"
  then have "page_blocks s ! (sq_pages q ! j) = None \<and> page_refs s ! (sq_pages q ! j) = 1"
    using assms unfolding pool_inv_def tail_ok_def by metis
  moreover have "sq_pages q ! j < num_pages (kv_conf s)"
    using a assms(1,2) nth_mem unfolding pool_inv_def refs_ok_def by fastforce
  ultimately show "page_blocks s' ! (sq_pages q ! j) = None \<and> page_refs s' ! (sq_pages q ! j) = 1"
    using assms(4) unfolding keeps_referenced_def by simp
qed

lemma allocate_page_ok:
  assumes inv: "pool_inv owed s" and av: "0 < available_pages s"
  obtains p s' where "allocate_page s = (Ok p, s')" and "pool_inv (p # owed) s'" and "kv_frame s s'"
    and "page_refs s ! p = 0" and "fresh_page s' p" and "keeps_referenced s s'"
    and "available_pages s = Suc (available_pages s')"
proof -
  note result = that
  let ?n = "num_pages (kv_conf s)"
  have len: "length (page_blocks s) = ?n" "length (page_refs s) = ?n"
    using inv by (auto simp: pool_defs)
  have ro: "refs_ok owed s" and fo: "free_ok s" and co: "cache_ok s" using inv by (auto simp: pool_inv_def)
  have key: thesis
    if al: "allocate_page s = (Ok p, s')" and p: "p < ?n" "page_refs s ! p = 0"
      and fr: "kv_frame s s'" and refs: "page_refs s' = (page_refs s)[p := 1]"
      and bl: "page_blocks s' = (page_blocks s)[p := None]"
      and fo': "free_ok s'" and co': "cache_ok s'" for p s'
  proof -
    have ro': "refs_ok (p # owed) s'"
      using ro fr p refs len unfolding refs_ok_def kv_frame_def by (auto simp: nth_list_update)
    have kr: "keeps_referenced s s'"
      using p len refs bl unfolding keeps_referenced_def by (auto simp: nth_list_update)
    have to': "tail_ok s'"
      using tail_ok_transfer [OF inv _ _ kr] fr by (simp add: kv_frame_def)
    have inv': "pool_inv (p # owed) s'" using ro' fo' co' to' by (simp add: pool_inv_def)
    have "{q. q < ?n \<and> page_refs s ! q = 0} = insert p {q. q < ?n \<and> page_refs s' ! q = 0}"
      using p len refs by (auto simp: nth_list_update)
    moreover have "p \<notin> {q. q < ?n \<and> page_refs s' ! q = 0}" using p len refs by simp
    ultimately have "available_pages s = Suc (available_pages s')"
      using fr by (simp add: available_eq [OF inv] available_eq [OF inv'] kv_frame_def)
    moreover have "fresh_page s' p"
      using p fr refs bl len by (simp add: fresh_page_def kv_frame_def)
    ultimately show thesis using result [OF al inv' fr p(2) _ kr] by blast
  qed
  show thesis
  proof (cases "free_pages s = {}")
    case False
    define p where "p = Min (free_pages s)"
    note al = allocate_page_free [OF inv False p_def]
    have p: "p < ?n" "page_refs s ! p = 0" "page_blocks s ! p = None"
      using al(2) fo by (auto simp: free_ok_def)
    have "(page_blocks s)[p := None] = page_blocks s" using p(3) by (metis list_update_id)
    then show thesis
      by (intro key [OF al(1)])
        (use p fo co len in \<open>auto simp: kv_frame_def free_ok_def cache_ok_def nth_list_update\<close>)
  next
    case True
    have "dom (evictable s) \<noteq> {}" using av True by (auto simp: available_pages_def)
    then obtain t p b where e: "evictable s t = Some p" "page_blocks s ! p = Some b" "cb_tick b = Some t"
        "p < ?n" "page_refs s ! p = 0"
      and al: "allocate_page s = (Ok p, s\<lparr>evictable := (evictable s)(t := None),
           page_blocks := (page_blocks s)[p := None],
           block_index := (block_index s)(cb_key b := None),
           page_refs := (page_refs s)[p := 1]\<rparr>)"
      using allocate_page_evict [OF inv True] by metis
    show thesis
    proof (rule key [OF al])
      show "free_ok (s\<lparr>evictable := (evictable s)(t := None),
           page_blocks := (page_blocks s)[p := None],
           block_index := (block_index s)(cb_key b := None),
           page_refs := (page_refs s)[p := 1]\<rparr>)"
        using e fo len True by (auto simp: free_ok_def nth_list_update)
      show "cache_ok (s\<lparr>evictable := (evictable s)(t := None),
           page_blocks := (page_blocks s)[p := None],
           block_index := (block_index s)(cb_key b := None),
           page_refs := (page_refs s)[p := 1]\<rparr>)"
        using e co len unfolding cache_ok_def
        by (auto simp: nth_list_update; metis option.inject)
    qed (use e in \<open>auto simp: kv_frame_def\<close>)
  qed
qed


lemma keeps_referenced_trans:
  assumes "keeps_referenced s t" and "keeps_referenced t u" and "kv_conf t = kv_conf s"
  shows "keeps_referenced s u"
  using assms unfolding keeps_referenced_def by auto

lemma allocate_pages_ok:
  assumes "pool_inv owed s" and "n \<le> available_pages s"
  shows "\<exists>ps s'. allocate_pages n s = (Ok ps, s') \<and> length ps = n \<and> distinct ps
     \<and> pool_inv (ps @ owed) s' \<and> kv_frame s s' \<and> keeps_referenced s s'
     \<and> (\<forall>p \<in> set ps. fresh_page s' p \<and> page_refs s ! p = 0)
     \<and> available_pages s = available_pages s' + n"
  using assms
proof (induction n arbitrary: s owed)
  case 0
  then show ?case by (auto simp: keeps_referenced_def)
next
  case (Suc n)
  have "0 < available_pages s" using Suc.prems(2) by simp
  from allocate_page_ok [OF Suc.prems(1) this] obtain p t where
    p: "allocate_page s = (Ok p, t)" "pool_inv (p # owed) t" "kv_frame s t" "page_refs s ! p = 0"
      "fresh_page t p" "keeps_referenced s t" "available_pages s = Suc (available_pages t)" .
  have "n \<le> available_pages t" using Suc.prems(2) p(7) by simp
  from Suc.IH [OF p(2) this] obtain ps u where
    ps: "allocate_pages n t = (Ok ps, u)" "length ps = n" "distinct ps" "pool_inv (ps @ p # owed) u"
      "kv_frame t u" "keeps_referenced t u" "\<forall>q\<in>set ps. fresh_page u q \<and> page_refs t ! q = 0"
      "available_pages t = available_pages u + n" by blast
  have conf: "kv_conf t = kv_conf s" "kv_conf u = kv_conf s"
    using p(3) ps(5) by (simp_all add: kv_frame_def)
  have pin: "p \<notin> set ps" using ps(7) p(5) by (auto simp: fresh_page_def)
  have fp: "fresh_page u p"
    using p(5) ps(6) conf by (auto simp: fresh_page_def keeps_referenced_def)
  have zero: "page_refs s ! q = 0" if "q \<in> set ps" for q
  proof (rule ccontr)
    assume "page_refs s ! q \<noteq> 0"
    moreover have "q < num_pages (kv_conf s)"
      using ps(7) that conf by (auto simp: fresh_page_def)
    ultimately have "page_refs t ! q = page_refs s ! q"
      using p(6) by (simp add: keeps_referenced_def)
    with ps(7) that \<open>page_refs s ! q \<noteq> 0\<close> show False by auto
  qed
  have "pool_inv ((p # ps) @ owed) u"
    using ps(4) by (simp add: pool_inv_def refs_ok_def)
  moreover have "allocate_pages (Suc n) s = (Ok (p # ps), u)"
    using p(1) ps(1) by simp
  moreover have "keeps_referenced s u" by (rule keeps_referenced_trans [OF p(6) ps(6) conf(1)])
  moreover have "kv_frame s u" by (rule kv_frame_trans [OF p(3) ps(5)])
  ultimately show ?case
    using ps(2,3,7,8) p(4,7) pin fp zero by (intro exI [of _ "p # ps"] exI [of _ u]) simp
qed

section \<open>Release\<close>

text \<open>Changing counts without emptying or filling a page keeps the free set and the cache.\<close>

lemma cache_ok_refs:
  assumes "cache_ok s" and "\<And>q. q < num_pages (kv_conf s) \<Longrightarrow> refs ! q = 0 \<longleftrightarrow> page_refs s ! q = 0"
  shows "cache_ok (s\<lparr>page_refs := refs\<rparr>)"
  using assms unfolding cache_ok_def by simp

lemma free_ok_refs:
  assumes "free_ok s" and "\<And>q. q < num_pages (kv_conf s) \<Longrightarrow> refs ! q = 0 \<longleftrightarrow> page_refs s ! q = 0"
  shows "free_ok (s\<lparr>page_refs := refs\<rparr>)"
  using assms unfolding free_ok_def by (auto dest: subsetD)

lemma release_page_ok:
  assumes inv: "pool_inv owed s" and mem: "p \<in> set owed"
  shows "\<exists>s'. release_page p s = (Ok (), s') \<and> pool_inv (remove1 p owed) s' \<and> kv_frame s s'
     \<and> page_refs s' = (page_refs s)[p := page_refs s ! p - 1]"
proof -
  let ?n = "num_pages (kv_conf s)"
  have len: "length (page_blocks s) = ?n" "length (page_refs s) = ?n"
    using inv by (auto simp: pool_defs)
  have ro: "refs_ok owed s" and fo: "free_ok s" and co: "cache_ok s" and tl: "tail_ok s"
    using inv by (auto simp: pool_inv_def)
  have p: "p < ?n" using ro mem by (auto simp: refs_ok_def)
  have cnt: "0 < count_list owed p" using mem by (metis count_list_0_iff gr0I)
  have ref: "page_refs s ! p = seq_refs (sequences s) p + count_list owed p"
    using ro p by (auto simp: refs_ok_def)
  have cl: "count_list (remove1 p owed) q = count_list owed q - (if q = p then 1 else 0)" for q
    using mem by (induction owed) auto
  have sub: "set (remove1 p owed) \<subseteq> set owed" by (rule set_remove1_subset)
  have keep: "pool_inv (remove1 p owed) s'"
    if fr: "kv_frame s s'" and refs: "page_refs s' = (page_refs s)[p := page_refs s ! p - 1]"
      and fo': "free_ok s'" and co': "cache_ok s'"
      and bl: "\<forall>q. q \<noteq> p \<longrightarrow> page_blocks s' ! q = page_blocks s ! q" for s'
  proof -
    have "refs_ok (remove1 p owed) s'"
      using ro fr p refs len cnt ref sub unfolding refs_ok_def kv_frame_def
      by (auto simp: nth_list_update cl dest!: subsetD)
    moreover have "tail_ok s'"
      unfolding tail_ok_def
    proof (intro allI impI)
      fix r q j
      assume a: "sequences s' r = Some q \<and> sq_committed q div block_size (kv_conf s') \<le> j \<and> j < length (sq_pages q)"
      then have a': "sequences s r = Some q" "sq_committed q div block_size (kv_conf s) \<le> j" "j < length (sq_pages q)"
        using fr by (auto simp: kv_frame_def)
      then have t: "page_blocks s ! (sq_pages q ! j) = None \<and> page_refs s ! (sq_pages q ! j) = 1"
        using tl unfolding tail_ok_def by blast
      have "0 < seq_refs (sequences s) (sq_pages q ! j)"
        using seq_refs_mem [of "sequences s" r q "sq_pages q ! j"] a' ro by (auto simp: refs_ok_def)
      then have "sq_pages q ! j \<noteq> p" using t ref cnt by auto
      then show "page_blocks s' ! (sq_pages q ! j) = None \<and> page_refs s' ! (sq_pages q ! j) = 1"
        using t refs bl by simp
    qed
    ultimately show ?thesis using fo' co' by (simp add: pool_inv_def)
  qed
  consider (shared) "page_refs s ! p \<noteq> 1"
    | (cached) b where "page_refs s ! p = 1" "page_blocks s ! p = Some b" "prefix_caching s"
    | (dropped) b where "page_refs s ! p = 1" "page_blocks s ! p = Some b" "\<not> prefix_caching s"
    | (plain) "page_refs s ! p = 1" "page_blocks s ! p = None"
    by (cases "page_blocks s ! p") auto
  then show ?thesis
  proof cases
    case shared
    let ?refs = "(page_refs s)[p := page_refs s ! p - 1]"
    have zero: "?refs ! q = 0 \<longleftrightarrow> page_refs s ! q = 0" for q
      using shared p len ref cnt by (cases "q = p") auto
    have "release_page p s = (Ok (), s\<lparr>page_refs := ?refs\<rparr>)"
      using shared p len ref cnt by (auto simp: release_page_def Let_def)
    moreover have "pool_inv (remove1 p owed) (s\<lparr>page_refs := ?refs\<rparr>)"
      by (intro keep cache_ok_refs free_ok_refs co fo zero) (simp_all add: kv_frame_def)
    ultimately show ?thesis by (simp add: kv_frame_def)
  next
    case (cached b)
    let ?t = "next_tick s"
    let ?s = "s\<lparr>page_refs := (page_refs s)[p := 0], next_tick := ?t + 1,
                page_blocks := (page_blocks s)[p := Some (b\<lparr>cb_tick := Some ?t\<rparr>)],
                evictable := (evictable s)(?t \<mapsto> p)\<rparr>"
    have "release_page p s = (Ok (), ?s)"
      using cached p len by (auto simp: release_page_def Let_def)
    moreover have "cache_ok ?s"
    proof (rule cache_okI)
      have bt: "cb_tick b = None" using cache_tick [OF co p cached(2)] cached(1) by simp
      have ev: "evictable s ?t = None" using cache_fresh_tick [OF co] by (meson less_irrefl not_Some_eq)
      show "evictable ?s t = Some q \<longleftrightarrow> q < num_pages (kv_conf ?s) \<and>
          (\<exists>b. page_blocks ?s ! q = Some b \<and> cb_tick b = Some t)" for t q
        using cache_evict [OF co, of t q] cache_evict [OF co, of ?t q] ev bt p len cached(2)
        by (cases "q = p"; cases "t = ?t") auto
      show "block_index ?s k = Some q \<longleftrightarrow> q < num_pages (kv_conf ?s) \<and>
          (\<exists>b. page_blocks ?s ! q = Some b \<and> cb_key b = k)" for k q
        using cache_index [OF co, of k q] p len cached(2) by (cases "q = p") auto
      show "cb_tick c = None \<longleftrightarrow> page_refs ?s ! q \<noteq> 0"
        if "q < num_pages (kv_conf ?s)" "page_blocks ?s ! q = Some c" for q c
        using that cache_tick [OF co, of q c] p len by (cases "q = p") auto
      show "t < next_tick ?s" if "evictable ?s t = Some q" for t q
        using that cache_fresh_tick [OF co, of t q] by (auto split: if_splits)
    qed (simp add: len)
    then have "pool_inv (remove1 p owed) ?s"
      using cached p len fo
      by (intro keep) (auto simp: kv_frame_def free_ok_def nth_list_update)
    ultimately show ?thesis using cached by (simp add: kv_frame_def)
  next
    case (dropped b)
    have bt: "cb_tick b = None" using cache_tick [OF co p dropped(2)] dropped(1) by simp
    have idx: "block_index s (cb_key b) = Some p" using cache_index [OF co] dropped p by blast
    have nf: "p \<notin> free_pages s" using fo dropped by (auto simp: free_ok_def)
    let ?s = "s\<lparr>page_refs := (page_refs s)[p := 0], page_blocks := (page_blocks s)[p := None],
                block_index := (block_index s)(cb_key b := None), free_pages := insert p (free_pages s)\<rparr>"
    have "release_page p s = (Ok (), ?s)"
      using dropped p len idx nf by (auto simp: release_page_def drop_cached_block_def bind_op_def Let_def)
    moreover have "cache_ok ?s"
    proof (rule cache_okI)
      show "evictable ?s t = Some q \<longleftrightarrow> q < num_pages (kv_conf ?s) \<and>
          (\<exists>b. page_blocks ?s ! q = Some b \<and> cb_tick b = Some t)" for t q
        using cache_evict [OF co, of t q] bt p len dropped(2) by (cases "q = p") auto
      show "block_index ?s k = Some q \<longleftrightarrow> q < num_pages (kv_conf ?s) \<and>
          (\<exists>b. page_blocks ?s ! q = Some b \<and> cb_key b = k)" for k q
        using cache_index [OF co, of k q] cache_index [OF co, of "cb_key b" q] idx p len dropped(2)
        by (cases "q = p"; cases "k = cb_key b") auto
      show "cb_tick c = None \<longleftrightarrow> page_refs ?s ! q \<noteq> 0"
        if "q < num_pages (kv_conf ?s)" "page_blocks ?s ! q = Some c" for q c
        using that cache_tick [OF co, of q c] p len by (cases "q = p") auto
      show "t < next_tick ?s" if "evictable ?s t = Some q" for t q
        using that cache_fresh_tick [OF co, of t q] by simp
    qed (simp add: len)
    then have "pool_inv (remove1 p owed) ?s"
      using dropped p len fo
      by (intro keep) (auto simp: kv_frame_def free_ok_def nth_list_update)
    ultimately show ?thesis using dropped by (simp add: kv_frame_def)
  next
    case plain
    have nf: "p \<notin> free_pages s" using fo plain by (auto simp: free_ok_def)
    let ?s = "s\<lparr>page_refs := (page_refs s)[p := 0], free_pages := insert p (free_pages s)\<rparr>"
    have "release_page p s = (Ok (), ?s)"
      using plain p len nf by (auto simp: release_page_def drop_cached_block_def bind_op_def Let_def)
    moreover have "cache_ok ?s"
    proof (rule cache_okI)
      show "cb_tick c = None \<longleftrightarrow> page_refs ?s ! q \<noteq> 0"
        if "q < num_pages (kv_conf ?s)" "page_blocks ?s ! q = Some c" for q c
        using that cache_tick [OF co, of q c] p len plain(2) by (cases "q = p") auto
      show "t < next_tick ?s" if "evictable ?s t = Some q" for t q
        using that cache_fresh_tick [OF co, of t q] by simp
    qed (use co in \<open>simp_all add: cache_evict cache_index cache_len\<close>)
    then have "pool_inv (remove1 p owed) ?s"
      using plain p len fo
      by (intro keep) (auto simp: kv_frame_def free_ok_def nth_list_update)
    ultimately show ?thesis using plain by (simp add: kv_frame_def)
  qed
qed


lemma release_pages_ok:
  assumes "pool_inv (ps @ owed) s"
  shows "\<exists>s'. release_pages ps s = (Ok (), s') \<and> pool_inv owed s' \<and> kv_frame s s'"
  using assms
proof (induction ps arbitrary: s)
  case Nil
  then show ?case by (simp add: release_pages_def)
next
  case (Cons p ps)
  from release_page_ok [OF Cons.prems, of p] obtain t where
    t: "release_page p s = (Ok (), t)" "pool_inv (ps @ owed) t" "kv_frame s t" by auto
  from Cons.IH [OF t(2)] obtain u where
    "release_pages ps t = (Ok (), u)" "pool_inv owed u" "kv_frame t u" by blast
  with t show ?case by (auto simp: release_pages_def intro: kv_frame_trans)
qed

section \<open>Mapping a published page\<close>

lemma acquire_cached_ok:
  assumes inv: "pool_inv owed s" and idx: "block_index s k = Some p"
  shows "\<exists>s'. acquire_cached p s = (Ok (), s') \<and> pool_inv (p # owed) s' \<and> kv_frame s s'
     \<and> block_index s' = block_index s \<and> page_refs s' = (page_refs s)[p := page_refs s ! p + 1]
     \<and> (\<forall>q. map_option cb_key (page_blocks s' ! q) = map_option cb_key (page_blocks s ! q))"
proof -
  let ?n = "num_pages (kv_conf s)"
  have ro: "refs_ok owed s" and fo: "free_ok s" and co: "cache_ok s" and tl: "tail_ok s"
    using inv by (auto simp: pool_inv_def)
  have len: "length (page_blocks s) = ?n" "length (page_refs s) = ?n"
    using inv by (auto simp: pool_defs)
  obtain b where b: "p < ?n" "page_blocks s ! p = Some b" "cb_key b = k"
    using cache_index [OF co, of k p] idx by blast
  let ?bs = "(page_blocks s)[p := Some (b\<lparr>cb_tick := None\<rparr>)]"
  let ?ev = "case cb_tick b of None \<Rightarrow> evictable s | Some t \<Rightarrow> (evictable s)(t := None)"
  let ?s = "s\<lparr>page_blocks := ?bs, evictable := ?ev, page_refs := (page_refs s)[p := page_refs s ! p + 1]\<rparr>"
  have bb: "cb_tick b = None \<Longrightarrow> b\<lparr>cb_tick := None\<rparr> = b" by (cases b) simp
  have tick: "cb_tick b = None \<longleftrightarrow> page_refs s ! p \<noteq> 0" using cache_tick [OF co b(1,2)] .
  have bl: "page_refs s ! p \<noteq> 0 \<Longrightarrow> ?bs = page_blocks s"
    using bb tick b(2) by (metis list_update_id)
  have "acquire_cached p s = (Ok (), ?s)"
  proof (cases "page_refs s ! p = 0")
    case True
    with tick show ?thesis using b len by (cases "cb_tick b") (auto simp: acquire_cached_def Let_def)
  next
    case False
    then have "cb_tick b = None" using tick by simp
    with False show ?thesis using b len bl by (simp add: acquire_cached_def Let_def)
  qed
  moreover have "cache_ok ?s"
  proof (rule cache_okI)
    show "evictable ?s t = Some q \<longleftrightarrow> q < num_pages (kv_conf ?s) \<and>
        (\<exists>b. page_blocks ?s ! q = Some b \<and> cb_tick b = Some t)" for t q
      using cache_evict [OF co, of t q] cache_evict [OF co, of t p] b len
      by (cases "q = p"; cases "cb_tick b") auto
    show "block_index ?s k = Some q \<longleftrightarrow> q < num_pages (kv_conf ?s) \<and>
        (\<exists>b. page_blocks ?s ! q = Some b \<and> cb_key b = k)" for k q
      using cache_index [OF co, of k q] b len by (cases "q = p") auto
    show "cb_tick c = None \<longleftrightarrow> page_refs ?s ! q \<noteq> 0"
      if "q < num_pages (kv_conf ?s)" "page_blocks ?s ! q = Some c" for q c
      using that cache_tick [OF co, of q c] b len by (cases "q = p") auto
    show "t < next_tick ?s" if "evictable ?s t = Some q" for t q
      using that cache_fresh_tick [OF co, of t q] by (auto split: option.splits if_splits)
  qed (simp add: len)
  moreover have "free_ok ?s"
    using fo b len unfolding free_ok_def by (auto simp: nth_list_update)
  moreover have "refs_ok (p # owed) ?s"
    using ro b len unfolding refs_ok_def by (auto simp: nth_list_update)
  moreover have "tail_ok ?s"
    unfolding tail_ok_def
  proof (intro allI impI)
    fix r q j
    assume a: "sequences ?s r = Some q \<and> sq_committed q div block_size (kv_conf ?s) \<le> j \<and> j < length (sq_pages q)"
    then have "page_blocks s ! (sq_pages q ! j) = None \<and> page_refs s ! (sq_pages q ! j) = 1"
      using tail_okD [OF tl, of r q j] by simp
    with b show "page_blocks ?s ! (sq_pages q ! j) = None \<and> page_refs ?s ! (sq_pages q ! j) = 1"
      by (cases "sq_pages q ! j = p") auto
  qed
  moreover have "\<forall>q. map_option cb_key (?bs ! q) = map_option cb_key (page_blocks s ! q)"
    using b len by (auto simp: nth_list_update)
  ultimately show ?thesis by (auto simp: pool_inv_def kv_frame_def)
qed

section \<open>Publishing a block\<close>

lemma count_list_two:
  "i < length xs \<Longrightarrow> j < length xs \<Longrightarrow> i \<noteq> j \<Longrightarrow> xs ! i = xs ! j \<Longrightarrow> 2 \<le> count_list xs (xs ! j)"
proof (induction xs arbitrary: i j)
  case Nil
  then show ?case by simp
next
  case (Cons x xs)
  show ?case
  proof (cases "i = 0 \<or> j = 0")
    case True
    with Cons.prems have "x \<in> set xs \<and> (x # xs) ! j = x"
      by (cases i; cases j) (auto intro: nth_mem)
    then have "0 < count_list xs x" by (metis count_list_0_iff gr0I)
    with \<open>x \<in> set xs \<and> (x # xs) ! j = x\<close> show ?thesis by simp
  next
    case False
    then obtain i' j' where "i = Suc i'" "j = Suc j'" by (cases i; cases j) auto
    with Cons.prems Cons.IH [of i' j'] show ?thesis by auto
  qed
qed

text \<open>A page of a writable tail occurs nowhere else.\<close>

lemma tail_unique:
  assumes inv: "pool_inv owed s" and r: "sequences s r = Some q" "j < length (sq_pages q)"
    and t: "sequences s r' = Some q'" "sq_committed q' div block_size (kv_conf s) \<le> j'" "j' < length (sq_pages q')"
    and eq: "sq_pages q ! j = sq_pages q' ! j'"
  shows "r = r' \<and> j = j'"
proof (rule ccontr)
  assume ne: "\<not> (r = r' \<and> j = j')"
  let ?p = "sq_pages q' ! j'"
  have fin: "finite (dom (sequences s))" and ro: "refs_ok owed s"
    using inv by (auto simp: pool_inv_def refs_ok_def)
  have one: "page_refs s ! ?p = 1" using inv t unfolding pool_inv_def tail_ok_def by blast
  have "?p < num_pages (kv_conf s)"
    using ro t(1,3) nth_mem unfolding refs_ok_def by fastforce
  then have le: "seq_refs (sequences s) ?p \<le> 1" using ro one unfolding refs_ok_def by auto
  show False
  proof (cases "r = r'")
    case True
    then have "2 \<le> count_list (sq_pages q') ?p"
      using ne r t eq count_list_two [of j "sq_pages q'" j'] by auto
    with seq_refs_ge [OF fin t(1), of ?p] le show False by simp
  next
    case False
    have "0 < count_list (sq_pages q) ?p"
      by (metis count_list_0_iff eq gr0I nth_mem r(2))
    moreover have "0 < count_list (sq_pages q') ?p"
      by (metis count_list_0_iff gr0I nth_mem t(3))
    moreover have "seq_refs (sequences s) ?p = seq_refs ((sequences s)(r := None)) ?p + count_list (sq_pages q) ?p"
      by (rule seq_refs_remove [OF fin r(1)])
    moreover have "count_list (sq_pages q') ?p \<le> seq_refs ((sequences s)(r := None)) ?p"
      by (rule seq_refs_ge) (use fin t(1) False in auto)
    ultimately show False using le by simp
  qed
qed

lemma publish_ok:
  assumes inv: "pool_inv owed s" and r: "sequences s r = Some q" "j < length (sq_pages q)"
    and full: "j < sq_committed q div block_size (kv_conf s)" and p: "p = sq_pages q ! j"
    and new: "block_index s k = None" "page_blocks s ! p = None"
  shows "pool_inv owed (s\<lparr>block_index := (block_index s)(k \<mapsto> p),
           page_blocks := (page_blocks s)[p := Some \<lparr>cb_key = k, cb_tick = None\<rparr>]\<rparr>)"
    (is "pool_inv owed ?s")
proof -
  let ?n = "num_pages (kv_conf s)"
  have ro: "refs_ok owed s" and fo: "free_ok s" and co: "cache_ok s" and tl: "tail_ok s"
    using inv by (auto simp: pool_inv_def)
  have len: "length (page_blocks s) = ?n" using co by (rule cache_len)
  have pn: "p < ?n" using ro r p nth_mem unfolding refs_ok_def by fastforce
  have pr: "0 < page_refs s ! p"
    using ro pn seq_refs_mem [of "sequences s" r q p] r p unfolding refs_ok_def by simp
  have "cache_ok ?s"
  proof (rule cache_okI)
    show "evictable ?s t = Some x \<longleftrightarrow> x < num_pages (kv_conf ?s) \<and>
        (\<exists>b. page_blocks ?s ! x = Some b \<and> cb_tick b = Some t)" for t x
      using cache_evict [OF co, of t x] new pn len by (cases "x = p") auto
    show "block_index ?s l = Some x \<longleftrightarrow> x < num_pages (kv_conf ?s) \<and>
        (\<exists>b. page_blocks ?s ! x = Some b \<and> cb_key b = l)" for l x
      using cache_index [OF co, of l x] cache_index [OF co, of k x] new pn len
      by (cases "x = p"; cases "l = k") auto
    show "cb_tick c = None \<longleftrightarrow> page_refs ?s ! x \<noteq> 0"
      if "x < num_pages (kv_conf ?s)" "page_blocks ?s ! x = Some c" for x c
      using that cache_tick [OF co, of x c] pr pn len by (cases "x = p") auto
    show "t < next_tick ?s" if "evictable ?s t = Some x" for t x
      using that cache_fresh_tick [OF co, of t x] by simp
  qed (simp add: len)
  moreover have "free_ok ?s" using fo pr pn len unfolding free_ok_def by (auto simp: nth_list_update)
  moreover have "refs_ok owed ?s" using ro unfolding refs_ok_def by simp
  moreover have "tail_ok ?s"
    unfolding tail_ok_def
  proof (intro allI impI)
    fix r' q' j'
    assume a: "sequences ?s r' = Some q' \<and> sq_committed q' div block_size (kv_conf ?s) \<le> j' \<and> j' < length (sq_pages q')"
    have "sq_pages q' ! j' \<noteq> p"
    proof
      assume "sq_pages q' ! j' = p"
      with tail_unique [OF inv r, of r' q' j'] a p have "r = r'" "j = j'" by auto
      with a r full show False by simp
    qed
    then show "page_blocks ?s ! (sq_pages q' ! j') = None \<and> page_refs ?s ! (sq_pages q' ! j') = 1"
      using tail_okD [OF tl, of r' q' j'] a by simp
  qed
  ultimately show ?thesis by (simp add: pool_inv_def)
qed


section \<open>Disabling the prefix cache\<close>

text \<open>
  While the loop runs the evicted pages are neither free nor evictable; the invariant holds
  of the state that still lists the pages not yet visited.
\<close>

definition drop_to_free :: "nat \<Rightarrow> unit kv_op" where
  "drop_to_free p =
     bind_op (drop_cached_block p) (\<lambda>_ s2. (Ok (), s2\<lparr>free_pages := insert p (free_pages s2)\<rparr>))"

lemma drop_to_free_ok:
  assumes inv: "pool_inv owed (s\<lparr>evictable := ev\<rparr>)" and t: "ev t = Some p"
  shows "\<exists>s'. drop_to_free p s = (Ok (), s') \<and> pool_inv owed (s'\<lparr>evictable := ev(t := None)\<rparr>)
     \<and> kv_frame s s' \<and> evictable s' = evictable s"
proof -
  let ?u = "s\<lparr>evictable := ev\<rparr>" and ?n = "num_pages (kv_conf s)"
  have ro: "refs_ok owed ?u" and fo: "free_ok ?u" and co: "cache_ok ?u" and tl: "tail_ok ?u"
    using inv by (auto simp: pool_inv_def)
  have len: "length (page_blocks s) = ?n" using cache_len [OF co] by simp
  obtain b where b: "p < ?n" "page_blocks s ! p = Some b" "cb_tick b = Some t"
    using cache_evict [OF co, of t p] t by auto
  have idx: "block_index s (cb_key b) = Some p" using cache_index [OF co, of "cb_key b" p] b by auto
  have rz: "page_refs s ! p = 0" using cache_tick [OF co, of p b] b by auto
  let ?s = "s\<lparr>page_blocks := (page_blocks s)[p := None], block_index := (block_index s)(cb_key b := None),
              free_pages := insert p (free_pages s)\<rparr>"
  let ?v = "?s\<lparr>evictable := ev(t := None)\<rparr>"
  have "drop_to_free p s = (Ok (), ?s)"
    using b len idx by (simp add: drop_to_free_def bind_op_def drop_cached_block_def Let_def)
  moreover have "cache_ok ?v"
  proof (rule cache_okI)
    show "evictable ?v u = Some q \<longleftrightarrow> q < num_pages (kv_conf ?v) \<and>
        (\<exists>b. page_blocks ?v ! q = Some b \<and> cb_tick b = Some u)" for u q
      using cache_evict [OF co, of u q] cache_evict [OF co, of t q] t b len
      by (cases "q = p"; cases "u = t") auto
    show "block_index ?v k = Some q \<longleftrightarrow> q < num_pages (kv_conf ?v) \<and>
        (\<exists>b. page_blocks ?v ! q = Some b \<and> cb_key b = k)" for k q
      using cache_index [OF co, of k q] cache_index [OF co, of "cb_key b" q] idx b len
      by (cases "q = p"; cases "k = cb_key b") auto
    show "cb_tick c = None \<longleftrightarrow> page_refs ?v ! q \<noteq> 0"
      if "q < num_pages (kv_conf ?v)" "page_blocks ?v ! q = Some c" for q c
      using that cache_tick [OF co, of q c] b len by (cases "q = p") auto
    show "u < next_tick ?v" if "evictable ?v u = Some q" for u q
      using that cache_fresh_tick [OF co, of u q] by (auto split: if_splits)
  qed (simp add: len)
  moreover have "free_ok ?v" using fo b len rz unfolding free_ok_def by (auto simp: nth_list_update)
  moreover have "refs_ok owed ?v" using ro unfolding refs_ok_def by simp
  moreover have "tail_ok ?v"
    unfolding tail_ok_def
  proof (intro allI impI)
    fix r q j
    assume a: "sequences ?v r = Some q \<and> sq_committed q div block_size (kv_conf ?v) \<le> j \<and> j < length (sq_pages q)"
    then have "page_blocks s ! (sq_pages q ! j) = None \<and> page_refs s ! (sq_pages q ! j) = 1"
      using tail_okD [OF tl, of r q j] by simp
    with b show "page_blocks ?v ! (sq_pages q ! j) = None \<and> page_refs ?v ! (sq_pages q ! j) = 1"
      by (cases "sq_pages q ! j = p") auto
  qed
  ultimately show ?thesis by (auto simp: pool_inv_def kv_frame_def)
qed

lemma drop_all_ok:
  assumes "pool_inv owed (s\<lparr>evictable := ev\<rparr>)" and "distinct ts" and "set ts = dom ev"
  shows "\<exists>s'. for_op drop_to_free (map (\<lambda>t. the (ev t)) ts) s = (Ok (), s')
     \<and> pool_inv owed (s'\<lparr>evictable := Map.empty\<rparr>) \<and> kv_frame s s' \<and> evictable s' = evictable s"
  using assms
proof (induction ts arbitrary: s ev)
  case Nil
  from Nil.prems(3) have "dom ev = {}" by simp
  then have "ev = Map.empty" by (simp only: dom_eq_empty_conv)
  with Nil show ?case by auto
next
  case (Cons t ts)
  from Cons.prems(3) have "t \<in> dom ev" by (metis list.set_intros(1))
  then obtain p where p: "ev t = Some p" by (rule domD [THEN exE])
  from drop_to_free_ok [OF Cons.prems(1) p] obtain u where
    u: "drop_to_free p s = (Ok (), u)" "pool_inv owed (u\<lparr>evictable := ev(t := None)\<rparr>)" "kv_frame s u"
      "evictable u = evictable s" by blast
  have eq: "map (\<lambda>x. the ((ev(t := None)) x)) ts = map (\<lambda>x. the (ev x)) ts"
    using Cons.prems(2) by (intro map_cong) auto
  have "set ts = dom (ev(t := None))" using Cons.prems(2,3) by auto
  moreover have "distinct ts" using Cons.prems(2) by simp
  ultimately obtain v where
    "for_op drop_to_free (map (\<lambda>x. the (ev x)) ts) u = (Ok (), v)"
    "pool_inv owed (v\<lparr>evictable := Map.empty\<rparr>)" "kv_frame u v" "evictable v = evictable u"
    using Cons.IH [OF u(2)] unfolding eq by blast
  with u p show ?case by (auto intro: kv_frame_trans)
qed

lemma pool_inv_caching: "pool_inv owed (s\<lparr>prefix_caching := b\<rparr>) = pool_inv owed s"
proof -
  have "refs_ok owed (s\<lparr>prefix_caching := b\<rparr>) = refs_ok owed s" by (simp add: refs_ok_def)
  moreover have "free_ok (s\<lparr>prefix_caching := b\<rparr>) = free_ok s" by (simp add: free_ok_def)
  moreover have "cache_ok (s\<lparr>prefix_caching := b\<rparr>) = cache_ok s"
  proof -
    have f: "kv_conf (s\<lparr>prefix_caching := b\<rparr>) = kv_conf s"
      "page_blocks (s\<lparr>prefix_caching := b\<rparr>) = page_blocks s"
      "page_refs (s\<lparr>prefix_caching := b\<rparr>) = page_refs s"
      "evictable (s\<lparr>prefix_caching := b\<rparr>) = evictable s"
      "block_index (s\<lparr>prefix_caching := b\<rparr>) = block_index s"
      "next_tick (s\<lparr>prefix_caching := b\<rparr>) = next_tick s" by simp_all
    show ?thesis unfolding cache_ok_def f by (rule refl)
  qed
  moreover have "tail_ok (s\<lparr>prefix_caching := b\<rparr>) = tail_ok s" by (simp add: tail_ok_def)
  ultimately show ?thesis by (simp add: pool_inv_def)
qed

lemma set_prefix_caching_ok:
  assumes "pool_inv owed s"
  shows "\<exists>s'. set_prefix_caching enabled s = (Ok (), s') \<and> pool_inv owed s'
     \<and> kv_frame (s\<lparr>prefix_caching := enabled\<rparr>) s' \<and> (\<not> enabled \<longrightarrow> evictable s' = Map.empty)"
proof -
  have flag: "pool_inv owed (s\<lparr>prefix_caching := enabled\<rparr>)"
    using assms by (simp add: pool_inv_caching)
  show ?thesis
  proof (cases enabled)
    case True
    with flag show ?thesis by (simp add: set_prefix_caching_def)
  next
    case False
    let ?s = "s\<lparr>prefix_caching := False, evictable := Map.empty\<rparr>"
    let ?ts = "sorted_list_of_set (dom (evictable s))"
    have "finite (dom (evictable s))" using assms by (auto simp: pool_inv_def intro: finite_evictable)
    then have ts: "distinct ?ts" "set ?ts = dom (evictable s)" by simp_all
    have "?s\<lparr>evictable := evictable s\<rparr> = s\<lparr>prefix_caching := False\<rparr>" by simp
    then have "pool_inv owed (?s\<lparr>evictable := evictable s\<rparr>)" using flag False by simp
    from drop_all_ok [OF this ts] obtain s' where
      s': "for_op drop_to_free (map (\<lambda>t. the (evictable s t)) ?ts) ?s = (Ok (), s')"
        "pool_inv owed (s'\<lparr>evictable := Map.empty\<rparr>)" "kv_frame ?s s'" "evictable s' = Map.empty"
      by auto
    have "set_prefix_caching enabled s = (Ok (), s')"
      using False s'(1) by (simp add: set_prefix_caching_def drop_to_free_def [abs_def])
    moreover have "s'\<lparr>evictable := Map.empty\<rparr> = s'" using s'(4) by (metis kv_manager.surjective kv_manager.update_convs(6))
    then have "pool_inv owed s'" using s'(2) by (simp only:)
    ultimately show ?thesis using s'(3,4) False by (auto simp: kv_frame_def)
  qed
qed

end
