(* ===== verification/PagedKvInv.thy ===== *)
theory PagedKvInv
  imports PagedKvPool
begin

text \<open>
  The invariant of the whole KV manager: the page accounting of \<open>PagedKvPool\<close>, and the
  agreement of sequences with their reservations. Each operation is characterised by its
  outcome on a state that satisfies the invariant: which error with which state, or the
  result with the new state, which satisfies the invariant again.
\<close>

section \<open>Sequences and reservations\<close>

definition seq_ok :: "kv_manager \<Rightarrow> nat \<Rightarrow> sequence_state \<Rightarrow> bool" where
  "seq_ok s r q \<longleftrightarrow> sq_registered q * block_size (kv_conf s) \<le> sq_committed q \<and>
     (case sq_pending q of
        None \<Rightarrow> length (sq_pages q) = div_ceil (sq_committed q) (block_size (kv_conf s))
      | Some i \<Rightarrow> (\<exists>v. reservations s i = Some v \<and> rs_request v = r \<and> rs_start v = sq_committed q \<and>
            rs_previous v = div_ceil (sq_committed q) (block_size (kv_conf s)) \<and> 0 < rs_count v \<and>
            sq_committed q + rs_count v \<le> max_sequence_length (kv_conf s) \<and>
            length (sq_pages q) = div_ceil (sq_committed q + rs_count v) (block_size (kv_conf s))))"

definition kv_ok :: "kv_manager \<Rightarrow> bool" where
  "kv_ok s \<longleftrightarrow> 0 < block_size (kv_conf s) \<and> max_sequence_length (kv_conf s) \<le> usize_max
     \<and> next_reservation s \<le> usize_max \<and> finite (dom (reservations s))
     \<and> (\<forall>r q. sequences s r = Some q \<longrightarrow> seq_ok s r q)
     \<and> (\<forall>i v. reservations s i = Some v \<longrightarrow> i < next_reservation s \<and>
          (\<exists>q. sequences s (rs_request v) = Some q \<and> sq_pending q = Some i))"

definition kv_inv :: "kv_manager \<Rightarrow> bool" where
  "kv_inv s \<longleftrightarrow> pool_inv [] s \<and> kv_ok s"

lemma kv_inv_conf: "kv_inv s \<Longrightarrow> 0 < block_size (kv_conf s)" "kv_inv s \<Longrightarrow> max_sequence_length (kv_conf s) \<le> usize_max"
  by (simp_all add: kv_inv_def kv_ok_def)

lemma kv_inv_seq: "kv_inv s \<Longrightarrow> sequences s r = Some q \<Longrightarrow> seq_ok s r q"
  by (simp add: kv_inv_def kv_ok_def)

lemma kv_inv_finite: "kv_inv s \<Longrightarrow> finite (dom (sequences s))" "kv_inv s \<Longrightarrow> finite (dom (reservations s))"
  by (simp_all add: kv_inv_def kv_ok_def pool_inv_def refs_ok_def)

lemma kv_inv_pending_None:
  "kv_inv s \<Longrightarrow> sequences s r = Some q \<Longrightarrow> sq_pending q = None \<Longrightarrow>
     length (sq_pages q) = div_ceil (sq_committed q) (block_size (kv_conf s))"
  using kv_inv_seq [of s r q] by (simp add: seq_ok_def)

lemma kv_inv_pending_Some:
  assumes "kv_inv s" and "sequences s r = Some q" and "sq_pending q = Some i"
  obtains v where "reservations s i = Some v" "rs_request v = r" "rs_start v = sq_committed q"
    "rs_previous v = div_ceil (sq_committed q) (block_size (kv_conf s))" "0 < rs_count v"
    "sq_committed q + rs_count v \<le> max_sequence_length (kv_conf s)"
    "length (sq_pages q) = div_ceil (sq_committed q + rs_count v) (block_size (kv_conf s))"
  using kv_inv_seq [OF assms(1,2)] assms(3) by (auto simp: seq_ok_def)

lemma kv_inv_reservation:
  assumes "kv_inv s" and "reservations s i = Some v"
  obtains q where "sequences s (rs_request v) = Some q" "sq_pending q = Some i"
    "rs_start v = sq_committed q"
    "rs_previous v = div_ceil (sq_committed q) (block_size (kv_conf s))" "0 < rs_count v"
    "sq_committed q + rs_count v \<le> max_sequence_length (kv_conf s)"
    "length (sq_pages q) = div_ceil (sq_committed q + rs_count v) (block_size (kv_conf s))"
proof -
  obtain q where q: "sequences s (rs_request v) = Some q" "sq_pending q = Some i"
    using assms unfolding kv_inv_def kv_ok_def by blast
  show thesis by (rule kv_inv_pending_Some [OF assms(1) q]) (use assms(2) q that in auto)
qed

lemma kv_inv_fresh: "kv_inv s \<Longrightarrow> reservations s i = Some v \<Longrightarrow> i < next_reservation s"
  by (simp add: kv_inv_def kv_ok_def)

section \<open>Moving pages between a sequence and a local variable\<close>

definition same_pool :: "kv_manager \<Rightarrow> kv_manager \<Rightarrow> bool" where
  "same_pool s s' \<longleftrightarrow> kv_conf s' = kv_conf s \<and> free_pages s' = free_pages s \<and> page_refs s' = page_refs s
     \<and> page_blocks s' = page_blocks s \<and> block_index s' = block_index s \<and> evictable s' = evictable s
     \<and> next_tick s' = next_tick s"

lemma same_pool_free: "same_pool s s' \<Longrightarrow> free_ok s \<Longrightarrow> free_ok s'"
  by (simp add: same_pool_def free_ok_def)

lemma same_pool_cache: "same_pool s s' \<Longrightarrow> cache_ok s \<Longrightarrow> cache_ok s'"
  unfolding same_pool_def cache_ok_def by (elim conjE) (intro conjI; simp)

lemma same_pool_available: "same_pool s s' \<Longrightarrow> available_pages s' = available_pages s"
  by (simp add: same_pool_def available_pages_def)

lemma seq_refs_pos: "0 < seq_refs sq p \<Longrightarrow> \<exists>r q. sq r = Some q \<and> p \<in> set (sq_pages q)"
proof (rule ccontr)
  assume pos: "0 < seq_refs sq p" and "\<not> (\<exists>r q. sq r = Some q \<and> p \<in> set (sq_pages q))"
  then have "count_list (sq_pages (the (sq r))) p = 0" if "r \<in> dom sq" for r
    using that by (auto simp: count_list_0_iff)
  then have "seq_refs sq p = 0" by (simp add: seq_refs_def)
  with pos show False by simp
qed

lemma pool_move:
  assumes inv: "pool_inv owed s" and same: "same_pool s s'" and fin: "finite (dom (sequences s'))"
    and cnt: "\<And>p. seq_refs (sequences s') p + count_list owed' p = seq_refs (sequences s) p + count_list owed p"
    and tl: "tail_ok s'"
  shows "pool_inv owed' s'"
proof -
  let ?n = "num_pages (kv_conf s)"
  have ro: "refs_ok owed s" using inv by (simp add: pool_inv_def)
  have range: "p < ?n" if "0 < seq_refs (sequences s') p + count_list owed' p" for p
  proof -
    have "0 < seq_refs (sequences s) p + count_list owed p" using that cnt by simp
    then consider "0 < seq_refs (sequences s) p" | "0 < count_list owed p" by linarith
    then show ?thesis
    proof cases
      case 1
      from seq_refs_pos [OF this] obtain r q where "sequences s r = Some q" "p \<in> set (sq_pages q)" by blast
      moreover from this(1) have "set (sq_pages q) \<subseteq> {..<?n}" using ro unfolding refs_ok_def by blast
      ultimately show ?thesis by auto
    next
      case 2
      then have "p \<in> set owed" by (metis count_notin less_irrefl)
      then show ?thesis using ro by (auto simp: refs_ok_def)
    qed
  qed
  have "set owed' \<subseteq> {..<?n}"
  proof
    fix p assume "p \<in> set owed'"
    then have "0 < count_list owed' p" by (metis count_list_0_iff gr0I)
    then show "p \<in> {..<?n}" using range by simp
  qed
  moreover have "set (sq_pages q) \<subseteq> {..<?n}" if "sequences s' r = Some q" for r q
    using seq_refs_mem [OF fin that] range by auto
  ultimately have "refs_ok owed' s'"
    using ro same fin cnt by (auto simp: refs_ok_def same_pool_def)
  then show ?thesis
    using inv tl same_pool_free [OF same] same_pool_cache [OF same] by (simp add: pool_inv_def)
qed

text \<open>One sequence changes; its new writable tail consists of unshared, unpublished pages.\<close>

lemma pool_update_seq:
  assumes inv: "pool_inv owed s" and r: "sequences s r = Some q" and same: "same_pool s s'"
    and s': "sequences s' = (sequences s)(r \<mapsto> q')"
    and cnt: "\<And>p. count_list (sq_pages q') p + count_list owed' p = count_list (sq_pages q) p + count_list owed p"
    and tl: "\<And>j. sq_committed q' div block_size (kv_conf s) \<le> j \<Longrightarrow> j < length (sq_pages q') \<Longrightarrow>
        page_blocks s ! (sq_pages q' ! j) = None \<and> page_refs s ! (sq_pages q' ! j) = 1"
  shows "pool_inv owed' s'"
proof (rule pool_move [OF inv same])
  have fin: "finite (dom (sequences s))" using inv by (auto simp: pool_inv_def refs_ok_def)
  then show "finite (dom (sequences s'))" using s' by simp
  show "seq_refs (sequences s') p + count_list owed' p = seq_refs (sequences s) p + count_list owed p" for p
    using seq_refs_update [OF fin r, of q' p] cnt [of p] s' by simp
  show "tail_ok s'"
    using inv tl same s' unfolding tail_ok_def same_pool_def pool_inv_def by (auto split: if_splits)
qed

lemma pool_insert_seq:
  assumes inv: "pool_inv owed s" and r: "sequences s r = None" and same: "same_pool s s'"
    and s': "sequences s' = (sequences s)(r \<mapsto> q')" and q': "sq_pages q' = []"
  shows "pool_inv owed s'"
proof (rule pool_move [OF inv same])
  have fin: "finite (dom (sequences s))" using inv by (auto simp: pool_inv_def refs_ok_def)
  then show "finite (dom (sequences s'))" using s' by simp
  show "seq_refs (sequences s') p + count_list owed p = seq_refs (sequences s) p + count_list owed p" for p
    using seq_refs_insert [OF fin r, of q' p] s' q' by simp
  show "tail_ok s'"
    using inv same s' q' unfolding tail_ok_def same_pool_def pool_inv_def by (auto split: if_splits)
qed

lemma pool_remove_seq:
  assumes inv: "pool_inv [] s" and r: "sequences s r = Some q" and same: "same_pool s s'"
    and s': "sequences s' = (sequences s)(r := None)" and owed: "mset owed = mset (sq_pages q)"
  shows "pool_inv owed s'"
proof (rule pool_move [OF inv same])
  have fin: "finite (dom (sequences s))" using inv by (auto simp: pool_inv_def refs_ok_def)
  then show "finite (dom (sequences s'))" using s' by simp
  have "count_list owed p = count_list (sq_pages q) p" for p
    using owed by (metis count_mset)
  then show "seq_refs (sequences s') p + count_list owed p = seq_refs (sequences s) p + count_list [] p" for p
    using seq_refs_remove [OF fin r, of p] s' by simp
  show "tail_ok s'"
    using inv same s' unfolding tail_ok_def same_pool_def pool_inv_def by (auto split: if_splits)
qed

section \<open>Agreement after a change of one sequence\<close>

lemma kv_ok_step:
  assumes ok: "kv_ok s" and conf: "kv_conf s' = kv_conf s"
    and nxt: "next_reservation s \<le> next_reservation s'" "next_reservation s' \<le> usize_max"
    and seqs: "\<And>r'. r' \<noteq> r \<Longrightarrow> sequences s' r' = sequences s r'"
    and res: "\<And>i v. rs_request v \<noteq> r \<Longrightarrow> reservations s' i = Some v \<longleftrightarrow> reservations s i = Some v"
    and fin: "finite (dom (reservations s'))"
    and new: "\<And>q. sequences s' r = Some q \<Longrightarrow> seq_ok s' r q"
    and own: "\<And>i v. reservations s' i = Some v \<Longrightarrow> rs_request v = r \<Longrightarrow>
        i < next_reservation s' \<and> (\<exists>q. sequences s' r = Some q \<and> sq_pending q = Some i)"
  shows "kv_ok s'"
proof -
  have "seq_ok s' r' q" if q: "sequences s' r' = Some q" for r' q
  proof (cases "r' = r")
    case True
    then show ?thesis using new q by simp
  next
    case False
    then have "seq_ok s r' q" using ok q seqs by (simp add: kv_ok_def)
    then show ?thesis using False res conf unfolding seq_ok_def by (auto split: option.splits)
  qed
  moreover have "i < next_reservation s' \<and> (\<exists>q. sequences s' (rs_request v) = Some q \<and> sq_pending q = Some i)"
    if v: "reservations s' i = Some v" for i v
  proof (cases "rs_request v = r")
    case True
    then show ?thesis using own v by simp
  next
    case False
    then have "reservations s i = Some v" using res v by simp
    then have "i < next_reservation s \<and> (\<exists>q. sequences s (rs_request v) = Some q \<and> sq_pending q = Some i)"
      using ok unfolding kv_ok_def by blast
    then show ?thesis using False seqs nxt(1) by auto
  qed
  ultimately show ?thesis using ok conf nxt fin unfolding kv_ok_def by simp
qed

lemma kv_ok_frame: "kv_frame s s' \<Longrightarrow> kv_ok s \<Longrightarrow> kv_ok s'"
proof -
  assume f: "kv_frame s s'" and ok: "kv_ok s"
  have "seq_ok s' r q = seq_ok s r q" for r q
    using f by (simp add: seq_ok_def kv_frame_def cong: option.case_cong)
  with f ok show ?thesis by (simp add: kv_ok_def kv_frame_def)
qed

section \<open>Creating sequences\<close>

lemma kv_new_ok:
  assumes "kv_new c = Ok s" and "max_sequence_length c \<le> usize_max"
  shows "kv_inv s" and "kv_conf s = c" and "sequences s = Map.empty" and "available_pages s = num_pages c"
proof -
  have c: "0 < block_size c" and s: "s = \<lparr>kv_conf = c, free_pages = {0..<num_pages c},
                  page_refs = replicate (num_pages c) 0,
                  page_blocks = replicate (num_pages c) None,
                  block_index = Map.empty, evictable = Map.empty, next_tick = 0,
                  prefix_caching = False, reused_tokens = 0, sequences = Map.empty,
                  reservations = Map.empty, next_reservation = 1\<rparr>"
    using assms(1) by (auto simp: kv_new_def config_validate_def split: if_splits)
  have "refs_ok [] s" "free_ok s" "tail_ok s"
    unfolding refs_ok_def free_ok_def tail_ok_def by (auto simp: s)
  moreover have "cache_ok s" by (rule cache_okI) (auto simp: s)
  ultimately show "kv_inv s" using assms(2) c
    by (simp add: kv_inv_def pool_inv_def kv_ok_def) (simp add: s usize_max_def)
  show "kv_conf s = c" "sequences s = Map.empty" "available_pages s = num_pages c"
    by (simp_all add: s available_pages_def)
qed

definition fresh_sequence :: sequence_state where
  "fresh_sequence = \<lparr>sq_committed = 0, sq_pages = [], sq_pending = None, sq_registered = 0, sq_hash = chain_root\<rparr>"

lemma create_sequence_eq:
  "create_sequence rid s =
     (if sequences s rid \<noteq> None then (Err (SequenceExists rid), s)
      else (Ok (), s\<lparr>sequences := (sequences s)(rid \<mapsto> fresh_sequence)\<rparr>))"
  by (simp add: create_sequence_def fresh_sequence_def)

lemma kv_inv_no_reservation:
  "kv_inv s \<Longrightarrow> sequences s r = None \<Longrightarrow> reservations s i = Some v \<Longrightarrow> rs_request v \<noteq> r"
  by (metis kv_inv_reservation option.distinct(1))

lemma create_sequence_inv:
  assumes inv: "kv_inv s" and r: "sequences s rid = None"
  shows "kv_inv (s\<lparr>sequences := (sequences s)(rid \<mapsto> fresh_sequence)\<rparr>)" (is "kv_inv ?s")
proof -
  have "pool_inv [] ?s"
    by (rule pool_insert_seq [of "[]" s rid _ fresh_sequence])
      (use inv r in \<open>auto simp: kv_inv_def same_pool_def fresh_sequence_def\<close>)
  moreover have "kv_ok ?s"
    by (rule kv_ok_step [of s ?s rid])
      (use inv r kv_inv_no_reservation [OF inv r] in \<open>auto simp: kv_inv_def kv_ok_def seq_ok_def fresh_sequence_def\<close>)
  ultimately show ?thesis by (simp add: kv_inv_def)
qed

section \<open>Reserving\<close>

lemma begin_append_ok:
  assumes inv: "kv_inv s" and q: "sequences s rid = Some q" "sq_pending q = None" and cnt: "0 < cnt"
    and max: "sq_committed q + cnt \<le> max_sequence_length (kv_conf s)"
    and av: "div_ceil (sq_committed q + cnt) (block_size (kv_conf s)) - length (sq_pages q) \<le> available_pages s"
    and nxt: "next_reservation s < usize_max"
  obtains new s' where
    "begin_append rid cnt s = (Ok \<lparr>ar_id = next_reservation s, ar_request = rid,
        ar_start = sq_committed q, ar_count = cnt, ar_context = sq_committed q + cnt,
        ar_new_pages = new, ar_table = sq_pages q @ new\<rparr>, s')"
    and "kv_inv s'" and "length (sq_pages q @ new) = div_ceil (sq_committed q + cnt) (block_size (kv_conf s))"
    and "distinct new" and "\<forall>p\<in>set new. page_refs s ! p = 0 \<and> fresh_page s' p"
    and "available_pages s = available_pages s' + length new"
    and "sequences s' = (sequences s)(rid \<mapsto> q\<lparr>sq_pages := sq_pages q @ new, sq_pending := Some (next_reservation s)\<rparr>)"
    and "reservations s' = (reservations s)(next_reservation s \<mapsto>
          \<lparr>rs_request = rid, rs_previous = length (sq_pages q), rs_start = sq_committed q, rs_count = cnt\<rparr>)"
    and "next_reservation s' = Suc (next_reservation s)"
    and "kv_conf s' = kv_conf s" and "prefix_caching s' = prefix_caching s" and "reused_tokens s' = reused_tokens s"
proof -
  note result = that
  let ?bs = "block_size (kv_conf s)" and ?i = "next_reservation s"
  let ?s1 = "s\<lparr>next_reservation := ?i + 1\<rparr>"
  let ?k = "div_ceil (sq_committed q + cnt) ?bs - length (sq_pages q)"
  have bs: "0 < ?bs" and mx: "max_sequence_length (kv_conf s) \<le> usize_max" using kv_inv_conf inv by auto
  have "pool_inv [] ?s1"
    by (rule pool_move [of "[]" s]) (use inv in \<open>auto simp: kv_inv_def same_pool_def pool_inv_def refs_ok_def tail_ok_def\<close>)
  moreover have "?k \<le> available_pages ?s1" using av by (simp add: available_pages_def)
  ultimately obtain new t where t: "allocate_pages ?k ?s1 = (Ok new, t)" "length new = ?k" "distinct new"
    "pool_inv (new @ []) t" "kv_frame ?s1 t" "keeps_referenced ?s1 t"
    "\<forall>p\<in>set new. fresh_page t p \<and> page_refs ?s1 ! p = 0" "available_pages ?s1 = available_pages t + ?k"
    using allocate_pages_ok [of "[]" ?s1 ?k] by blast
  have tf: "kv_conf t = kv_conf s" "prefix_caching t = prefix_caching s" "reused_tokens t = reused_tokens s"
    "sequences t = sequences s" "reservations t = reservations s" "next_reservation t = Suc ?i"
    using t(5) by (simp_all add: kv_frame_def)
  let ?q = "q\<lparr>sq_pages := sq_pages q @ new, sq_pending := Some ?i\<rparr>"
  let ?v = "\<lparr>rs_request = rid, rs_previous = length (sq_pages q), rs_start = sq_committed q, rs_count = cnt\<rparr>"
  let ?s = "t\<lparr>sequences := (sequences t)(rid \<mapsto> ?q), reservations := (reservations t)(?i \<mapsto> ?v)\<rparr>"
  have len: "length (sq_pages q) = div_ceil (sq_committed q) ?bs" by (rule kv_inv_pending_None [OF inv q])
  have tot: "length (sq_pages q @ new) = div_ceil (sq_committed q + cnt) ?bs"
    using t(2) len div_ceil_mono [OF bs, of "sq_committed q" "sq_committed q + cnt"] by simp
  have run: "begin_append rid cnt s = (Ok \<lparr>ar_id = ?i, ar_request = rid,
        ar_start = sq_committed q, ar_count = cnt, ar_context = sq_committed q + cnt,
        ar_new_pages = new, ar_table = sq_pages q @ new\<rparr>, ?s)"
    using q cnt max mx av nxt t(1) tf
    by (simp add: begin_append_def sequence_def bind_op_def checked_add_def Let_def)
  have pool: "pool_inv [] ?s"
  proof (rule pool_update_seq [OF t(4), of rid q ?s ?q "[]"])
    show "same_pool t ?s" by (simp add: same_pool_def)
    show "count_list (sq_pages ?q) p + count_list [] p = count_list (sq_pages q) p + count_list (new @ []) p" for p
      by simp
    fix j assume j: "sq_committed ?q div block_size (kv_conf t) \<le> j" "j < length (sq_pages ?q)"
    show "page_blocks t ! (sq_pages ?q ! j) = None \<and> page_refs t ! (sq_pages ?q ! j) = 1"
    proof (cases "j < length (sq_pages q)")
      case True
      then show ?thesis using tail_okD [of t rid q j] t(4) j q tf by (simp add: pool_inv_def nth_append)
    next
      case False
      then have "sq_pages ?q ! j \<in> set new" using j by (simp add: nth_append)
      then show ?thesis using t(7) by (auto simp: fresh_page_def)
    qed
  qed (use q tf in simp_all)
  have none: "rs_request v = rid \<Longrightarrow> reservations s i \<noteq> Some v" for i v
    using kv_inv_reservation [OF inv, of i v] q by (metis option.distinct(1) option.inject)
  have nr: "reservations s ?i = None" using kv_inv_fresh [OF inv, of ?i] by (cases "reservations s ?i") auto
  have ok: "kv_ok ?s"
  proof (rule kv_ok_step [of s ?s rid])
    show "seq_ok ?s rid q'" if "sequences ?s rid = Some q'" for q'
      using that kv_inv_seq [OF inv q(1)] cnt max tot len tf by (auto simp: seq_ok_def)
    show "reservations ?s i = Some v \<longleftrightarrow> reservations s i = Some v" if "rs_request v \<noteq> rid" for i v
      using that nr tf by auto
    show "i < next_reservation ?s \<and> (\<exists>q. sequences ?s rid = Some q \<and> sq_pending q = Some i)"
      if "reservations ?s i = Some v" "rs_request v = rid" for i v
      using that none [of v i] tf by (auto split: if_splits)
  qed (use inv tf nxt in \<open>auto simp: kv_inv_def kv_ok_def\<close>)
  have "fresh_page ?s p" if "fresh_page t p" for p using that by (simp add: fresh_page_def)
  then have fr: "\<forall>p\<in>set new. page_refs s ! p = 0 \<and> fresh_page ?s p" using t(7) by auto
  have "available_pages s = available_pages ?s + length new"
    using t(2,8) by (simp add: available_pages_def)
  then show thesis
    by (intro result [OF run _ tot t(3) fr]) (use pool ok tf in \<open>simp_all add: kv_inv_def\<close>)
qed

lemma can_append_iff:
  "can_append rid cnt s = (Ok True, s) \<longleftrightarrow> 0 < cnt \<and> (\<exists>q. sequences s rid = Some q \<and> sq_pending q = None
     \<and> sq_committed q + cnt \<le> usize_max \<and> sq_committed q + cnt \<le> max_sequence_length (kv_conf s)
     \<and> div_ceil (sq_committed q + cnt) (block_size (kv_conf s)) - length (sq_pages q) \<le> available_pages s)"
  by (auto simp: can_append_def sequence_def bind_op_def checked_add_def split: option.splits)

lemma begin_append_err:
  assumes "can_append rid cnt s \<noteq> (Ok True, s) \<or> \<not> next_reservation s < usize_max"
  shows "\<exists>e. begin_append rid cnt s = (Err e, s)"
  using assms unfolding can_append_iff
  by (auto simp: begin_append_def sequence_def bind_op_def checked_add_def Let_def split: option.splits)

lemma begin_append_cases:
  assumes "kv_inv s"
  obtains (err) e where "begin_append rid cnt s = (Err e, s)"
      and "can_append rid cnt s \<noteq> (Ok True, s) \<or> next_reservation s = usize_max"
  | (ok) q new s' where "sequences s rid = Some q" and "sq_pending q = None" and "0 < cnt"
    and "sq_committed q + cnt \<le> max_sequence_length (kv_conf s)"
    and "begin_append rid cnt s = (Ok \<lparr>ar_id = next_reservation s, ar_request = rid,
        ar_start = sq_committed q, ar_count = cnt, ar_context = sq_committed q + cnt,
        ar_new_pages = new, ar_table = sq_pages q @ new\<rparr>, s')"
    and "kv_inv s'" and "length (sq_pages q @ new) = div_ceil (sq_committed q + cnt) (block_size (kv_conf s))"
    and "distinct new" and "\<forall>p\<in>set new. page_refs s ! p = 0 \<and> fresh_page s' p"
    and "available_pages s = available_pages s' + length new"
    and "sequences s' = (sequences s)(rid \<mapsto> q\<lparr>sq_pages := sq_pages q @ new, sq_pending := Some (next_reservation s)\<rparr>)"
    and "reservations s' = (reservations s)(next_reservation s \<mapsto>
          \<lparr>rs_request = rid, rs_previous = length (sq_pages q), rs_start = sq_committed q, rs_count = cnt\<rparr>)"
    and "next_reservation s' = Suc (next_reservation s)"
    and "kv_conf s' = kv_conf s" and "prefix_caching s' = prefix_caching s" and "reused_tokens s' = reused_tokens s"
proof (cases "can_append rid cnt s = (Ok True, s) \<and> next_reservation s < usize_max")
  case True
  then obtain q where "0 < cnt" "sequences s rid = Some q" "sq_pending q = None"
    "sq_committed q + cnt \<le> max_sequence_length (kv_conf s)"
    "div_ceil (sq_committed q + cnt) (block_size (kv_conf s)) - length (sq_pages q) \<le> available_pages s"
    unfolding can_append_iff by blast
  from begin_append_ok [OF assms this(2,3,1,4,5)] True ok [OF this(2,3,1,4)] show ?thesis by metis
next
  case False
  have "next_reservation s \<le> usize_max" using assms by (simp add: kv_inv_def kv_ok_def)
  with False begin_append_err [of rid cnt s] err show ?thesis by fastforce
qed

section \<open>Settling a reservation\<close>

lemma validate_reservation_eq:
  assumes "kv_inv s"
  shows "validate_reservation r s =
    (if reservations s r = None then (Err (ReservationMissing r), s) else (Ok (), s))"
proof (cases "reservations s r")
  case None
  then show ?thesis by (simp add: validate_reservation_def)
next
  case (Some v)
  from kv_inv_reservation [OF assms this] obtain q where
    q: "sequences s (rs_request v) = Some q" "sq_pending q = Some r" "rs_start v = sq_committed q"
      "rs_previous v = div_ceil (sq_committed q) (block_size (kv_conf s))"
      "sq_committed q + rs_count v \<le> max_sequence_length (kv_conf s)"
      "length (sq_pages q) = div_ceil (sq_committed q + rs_count v) (block_size (kv_conf s))" by metis
  have "rs_previous v \<le> length (sq_pages q)"
    using q(4,6) div_ceil_mono [OF kv_inv_conf(1) [OF assms], of "sq_committed q" "sq_committed q + rs_count v"]
    by simp
  then show ?thesis
    using Some q kv_inv_conf(2) [OF assms]
    by (simp add: validate_reservation_def sequence_def bind_op_def checked_add_def)
qed

lemma validate_from_eq:
  assumes "kv_inv s"
  shows "(distinct rs \<and> set rs \<inter> seen = {} \<and> set rs \<subseteq> dom (reservations s) \<longrightarrow> validate_from seen rs s = (Ok (), s))
    \<and> (\<not> (distinct rs \<and> set rs \<inter> seen = {} \<and> set rs \<subseteq> dom (reservations s)) \<longrightarrow>
         (\<exists>e. validate_from seen rs s = (Err e, s)))"
proof (induction rs arbitrary: seen)
  case Nil
  then show ?case by simp
next
  case (Cons r rs)
  show ?case
  proof (cases "r \<in> seen \<or> reservations s r = None")
    case True
    then show ?thesis using validate_reservation_eq [OF assms, of r] by (auto simp: bind_op_def)
  next
    case False
    then have step: "validate_from seen (r # rs) s = validate_from (insert r seen) rs s"
      using validate_reservation_eq [OF assms, of r] by (auto simp: bind_op_def)
    show ?thesis unfolding step using Cons.IH [of "insert r seen"] False by auto
  qed
qed

lemma validate_reservations_cases:
  assumes "kv_inv s"
  shows "(distinct rs \<and> set rs \<subseteq> dom (reservations s) \<and> validate_reservations rs s = (Ok (), s))
    \<or> (\<not> (distinct rs \<and> set rs \<subseteq> dom (reservations s)) \<and> (\<exists>e. validate_reservations rs s = (Err e, s)))"
  using validate_from_eq [OF assms, of rs "{}"] unfolding validate_reservations_def by auto

text \<open>Leaving the reservation with \<open>c\<close> committed tokens and just the pages they need.\<close>

lemma settle_ok:
  assumes inv: "kv_inv s" and v: "reservations s r = Some v" and q: "sequences s (rs_request v) = Some q"
    and c: "sq_committed q \<le> c" "c \<le> rs_start v + rs_count v" and keep: "keep = div_ceil c (block_size (kv_conf s))"
    and q': "q' = q\<lparr>sq_pages := take keep (sq_pages q), sq_committed := c, sq_pending := None\<rparr>"
    and s0: "s0 = s\<lparr>reservations := (reservations s)(r := None),
        sequences := (sequences s)(rs_request v \<mapsto> q')\<rparr>"
  shows "keep \<le> length (sq_pages q)"
    and "\<exists>s'. release_pages (drop keep (sq_pages q)) s0 = (Ok (), s') \<and> kv_inv s' \<and> kv_frame s0 s'"
proof -
  let ?bs = "block_size (kv_conf s)"
  have bs: "0 < ?bs" using kv_inv_conf inv by auto
  from kv_inv_reservation [OF inv v] q have
    p: "sq_pending q = Some r" "rs_start v = sq_committed q"
      "length (sq_pages q) = div_ceil (sq_committed q + rs_count v) ?bs" by (metis option.inject)+
  show le: "keep \<le> length (sq_pages q)"
    using div_ceil_mono [OF bs c(2)] p keep by simp
  have pool: "pool_inv (drop keep (sq_pages q)) s0"
  proof (rule pool_update_seq [of "[]" s "rs_request v" q s0 q'])
    show "count_list (sq_pages q') p + count_list (drop keep (sq_pages q)) p
        = count_list (sq_pages q) p + count_list [] p" for p
      using q' by (simp flip: count_list_append)
    fix j assume j: "sq_committed q' div block_size (kv_conf s) \<le> j" "j < length (sq_pages q')"
    have "sq_committed q div ?bs \<le> j" using j(1) q' c(1) div_le_mono [OF c(1), of ?bs] by simp
    then show "page_blocks s ! (sq_pages q' ! j) = None \<and> page_refs s ! (sq_pages q' ! j) = 1"
      using tail_okD [of s "rs_request v" q j] q q' j(2) inv by (simp add: kv_inv_def pool_inv_def)
  qed (use inv q s0 in \<open>auto simp: kv_inv_def same_pool_def\<close>)
  from release_pages_ok [of "drop keep (sq_pages q)" "[]" s0] pool obtain s' where
    s': "release_pages (drop keep (sq_pages q)) s0 = (Ok (), s')" "pool_inv [] s'" "kv_frame s0 s'" by auto
  have only: "i = r" if "reservations s i = Some w" "rs_request w = rs_request v" for i w
    using kv_inv_reservation [OF inv that(1)] that(2) q p(1) by (metis option.inject)
  have "kv_ok s0"
  proof (rule kv_ok_step [of s s0 "rs_request v"])
    show "seq_ok s0 (rs_request v) q2" if "sequences s0 (rs_request v) = Some q2" for q2
      using that s0 q' kv_inv_seq [OF inv q] c(1) le keep by (auto simp: seq_ok_def)
    show "reservations s0 i = Some w \<longleftrightarrow> reservations s i = Some w" if "rs_request w \<noteq> rs_request v" for i w
      using that s0 v by auto
    show "i < next_reservation s0 \<and> (\<exists>q. sequences s0 (rs_request v) = Some q \<and> sq_pending q = Some i)"
      if "reservations s0 i = Some w" "rs_request w = rs_request v" for i w
      using that s0 only [of i w] by (auto split: if_splits)
  qed (use inv s0 in \<open>auto simp: kv_inv_def kv_ok_def\<close>)
  with s' kv_ok_frame [OF s'(3)] show
    "\<exists>s'. release_pages (drop keep (sq_pages q)) s0 = (Ok (), s') \<and> kv_inv s' \<and> kv_frame s0 s'"
    by (auto simp: kv_inv_def)
qed

text \<open>The state of the sequences and reservations after settling at \<open>c\<close> tokens.\<close>

definition settled :: "nat \<Rightarrow> nat \<Rightarrow> kv_manager \<Rightarrow> kv_manager \<Rightarrow> bool" where
  "settled r c s s' \<longleftrightarrow> (\<exists>v q. reservations s r = Some v \<and> sequences s (rs_request v) = Some q \<and>
     reservations s' = (reservations s)(r := None) \<and>
     sequences s' = (sequences s)(rs_request v \<mapsto>
        q\<lparr>sq_pages := take (div_ceil c (block_size (kv_conf s))) (sq_pages q), sq_committed := c, sq_pending := None\<rparr>) \<and>
     kv_conf s' = kv_conf s \<and> prefix_caching s' = prefix_caching s \<and> reused_tokens s' = reused_tokens s \<and>
     next_reservation s' = next_reservation s)"

lemma commit_row_ok:
  assumes inv: "kv_inv s" and v: "reservations s r = Some v" and cnt: "0 < cnt" "cnt \<le> rs_count v"
  obtains s' where "commit_row (r, cnt) s = (Ok (rs_start v + cnt), s')" and "kv_inv s'"
    and "settled r (rs_start v + cnt) s s'"
proof -
  obtain q where q: "sequences s (rs_request v) = Some q" "rs_start v = sq_committed q"
    using kv_inv_reservation [OF inv v] by metis
  let ?keep = "div_ceil (rs_start v + cnt) (block_size (kv_conf s))"
  let ?q = "q\<lparr>sq_pages := take ?keep (sq_pages q), sq_committed := rs_start v + cnt, sq_pending := None\<rparr>"
  let ?s0 = "s\<lparr>reservations := (reservations s)(r := None), sequences := (sequences s)(rs_request v \<mapsto> ?q)\<rparr>"
  have c: "sq_committed q \<le> rs_start v + cnt" "rs_start v + cnt \<le> rs_start v + rs_count v"
    using q(2) cnt by auto
  note settle = settle_ok [OF inv v q(1) c refl refl refl]
  from settle(2) obtain s' where s': "release_pages (drop ?keep (sq_pages q)) ?s0 = (Ok (), s')"
    "kv_inv s'" "kv_frame ?s0 s'" by blast
  have "commit_row (r, cnt) s = (Ok (rs_start v + cnt), s')"
    using v q(1) settle(1) s'(1) by (simp add: commit_row_def Let_def bind_op_def)
  moreover have "settled r (rs_start v + cnt) s s'"
    using v q(1) s'(3) by (auto simp: settled_def kv_frame_def)
  ultimately show thesis using that s'(2) by blast
qed

lemma release_pages_Nil [simp]: "release_pages [] s = (Ok (), s)"
  by (simp add: release_pages_def)

text \<open>Committing a whole reservation is the row with all its tokens.\<close>

lemma commit_append_row:
  assumes inv: "kv_inv s" and v: "reservations s r = Some v"
  shows "commit_append r s = commit_row (r, rs_count v) s"
proof -
  obtain q where q: "sequences s (rs_request v) = Some q" "sq_pending q = Some r"
    "rs_start v = sq_committed q" "sq_committed q + rs_count v \<le> max_sequence_length (kv_conf s)"
    "length (sq_pages q) = div_ceil (sq_committed q + rs_count v) (block_size (kv_conf s))"
    using kv_inv_reservation [OF inv v] by metis
  then show ?thesis
    using v kv_inv_conf(2) [OF inv] validate_reservation_eq [OF inv, of r]
    by (simp add: commit_append_def take_reservation_def bind_op_def commit_row_def Let_def checked_add_def)
qed

lemma commit_append_missing:
  "kv_inv s \<Longrightarrow> reservations s r = None \<Longrightarrow> commit_append r s = (Err (ReservationMissing r), s)"
  by (simp add: commit_append_def validate_reservation_eq bind_op_def)

text \<open>A partial commit is the row with the consumed tokens.\<close>

lemma sq_update_order:
  "q\<lparr>sq_pending := a, sq_committed := b, sq_pages := c\<rparr> = q\<lparr>sq_pages := c, sq_committed := b, sq_pending := a\<rparr>"
  by (cases q) simp

lemma commit_append_partial_row:
  assumes inv: "kv_inv s" and v: "reservations s r = Some v" and cnt: "0 < cnt" "cnt \<le> rs_count v"
  shows "commit_append_partial r cnt s = commit_row (r, cnt) s"
proof -
  obtain q where q: "sequences s (rs_request v) = Some q" "sq_pending q = Some r"
    "rs_start v = sq_committed q" "sq_committed q + rs_count v \<le> max_sequence_length (kv_conf s)"
    "length (sq_pages q) = div_ceil (sq_committed q + rs_count v) (block_size (kv_conf s))"
    using kv_inv_reservation [OF inv v] by metis
  have keep: "div_ceil (sq_committed q + cnt) (block_size (kv_conf s)) \<le> length (sq_pages q)"
    using q(5) cnt(2) div_ceil_mono [OF kv_inv_conf(1) [OF inv], of "sq_committed q + cnt" "sq_committed q + rs_count v"]
    by simp
  show ?thesis
    using v q cnt keep kv_inv_conf(2) [OF inv] validate_reservation_eq [OF inv, of r]
    by (simp add: commit_append_partial_def commit_append_def take_reservation_def bind_op_def
        commit_row_def Let_def checked_add_def sq_update_order)
qed

lemma cancel_append_ok:
  assumes inv: "kv_inv s" and v: "reservations s r = Some v"
  obtains s' where "cancel_append r s = (Ok (), s')" and "kv_inv s'" and "settled r (rs_start v) s s'"
proof -
  obtain q where q: "sequences s (rs_request v) = Some q" "rs_start v = sq_committed q" "sq_pending q = Some r"
    "rs_previous v = div_ceil (sq_committed q) (block_size (kv_conf s))"
    using kv_inv_reservation [OF inv v] by metis
  let ?keep = "div_ceil (rs_start v) (block_size (kv_conf s))"
  let ?q = "q\<lparr>sq_pages := take ?keep (sq_pages q), sq_committed := rs_start v, sq_pending := None\<rparr>"
  let ?s0 = "s\<lparr>reservations := (reservations s)(r := None), sequences := (sequences s)(rs_request v \<mapsto> ?q)\<rparr>"
  have c: "sq_committed q \<le> rs_start v" "rs_start v \<le> rs_start v + rs_count v" using q(2) by auto
  note settle = settle_ok [OF inv v q(1) c refl refl refl]
  from settle(2) obtain s' where s': "release_pages (drop ?keep (sq_pages q)) ?s0 = (Ok (), s')"
    "kv_inv s'" "kv_frame ?s0 s'" by blast
  have "?q = q\<lparr>sq_pages := take ?keep (sq_pages q), sq_pending := None\<rparr>" using q(2) by simp
  then have "cancel_append r s = (Ok (), s')"
    using v q settle(1) s'(1) validate_reservation_eq [OF inv, of r]
    by (simp add: cancel_append_def take_reservation_def bind_op_def)
  moreover have "settled r (rs_start v) s s'"
    using v q(1) s'(3) by (auto simp: settled_def kv_frame_def)
  ultimately show thesis using that s'(2) by blast
qed

lemma cancel_append_missing:
  "kv_inv s \<Longrightarrow> reservations s r = None \<Longrightarrow> cancel_append r s = (Err (ReservationMissing r), s)"
  by (simp add: cancel_append_def validate_reservation_eq bind_op_def)

section \<open>The abstract ledger\<close>

text \<open>
  What the manager promises its client: how many tokens each request has committed, and
  which reservations are open, each as (request, first position, number of tokens).
\<close>

type_synonym ledger = "(nat \<rightharpoonup> nat) \<times> (nat \<rightharpoonup> nat \<times> nat \<times> nat)"

definition kv_ledger :: "kv_manager \<Rightarrow> ledger" where
  "kv_ledger s = (\<lambda>r. map_option sq_committed (sequences s r),
     \<lambda>i. map_option (\<lambda>v. (rs_request v, rs_start v, rs_count v)) (reservations s i))"

definition lg_create :: "nat \<Rightarrow> nat \<Rightarrow> ledger \<Rightarrow> ledger" where
  "lg_create r n l = ((fst l)(r \<mapsto> n), snd l)"

definition lg_remove :: "nat \<Rightarrow> ledger \<Rightarrow> ledger" where
  "lg_remove r l = ((fst l)(r := None), snd l)"

definition lg_begin :: "nat \<Rightarrow> nat \<Rightarrow> nat \<Rightarrow> ledger \<Rightarrow> ledger" where
  "lg_begin i r n l = (fst l, (snd l)(i \<mapsto> (r, the (fst l r), n)))"

text \<open>A reservation ends with \<open>k\<close> of its tokens kept; cancelling keeps none.\<close>

definition lg_settle :: "nat \<Rightarrow> nat \<Rightarrow> ledger \<Rightarrow> ledger" where
  "lg_settle i k l =
     (case snd l i of None \<Rightarrow> l | Some (r, st, n) \<Rightarrow> ((fst l)(r \<mapsto> st + k), (snd l)(i := None)))"

definition lg_settle_rows :: "(nat \<times> nat) list \<Rightarrow> ledger \<Rightarrow> ledger" where
  "lg_settle_rows rows = fold (\<lambda>(i, k). lg_settle i k) rows"

lemma lg_settle_rows_simps [simp]:
  "lg_settle_rows [] l = l"
  "lg_settle_rows ((i, k) # rows) l = lg_settle_rows rows (lg_settle i k l)"
  by (simp_all add: lg_settle_rows_def)

definition kv_static :: "kv_manager \<Rightarrow> kv_manager \<Rightarrow> bool" where
  "kv_static s s' \<longleftrightarrow> kv_conf s' = kv_conf s \<and> prefix_caching s' = prefix_caching s
     \<and> reused_tokens s' = reused_tokens s \<and> next_reservation s \<le> next_reservation s'"

lemma kv_static_refl [simp]: "kv_static s s"
  by (simp add: kv_static_def)

lemma kv_static_trans: "kv_static s t \<Longrightarrow> kv_static t u \<Longrightarrow> kv_static s u"
  by (simp add: kv_static_def)

lemma kv_ledger_lookup:
  "fst (kv_ledger s) r = map_option sq_committed (sequences s r)"
  "snd (kv_ledger s) i = map_option (\<lambda>v. (rs_request v, rs_start v, rs_count v)) (reservations s i)"
  by (simp_all add: kv_ledger_def)

lemma settled_ledger:
  assumes "settled r (rs_start v + k) s s'" and "reservations s r = Some v"
  shows "kv_ledger s' = lg_settle r k (kv_ledger s)" and "kv_static s s'"
proof -
  obtain q where q: "sequences s (rs_request v) = Some q"
    and s': "reservations s' = (reservations s)(r := None)"
      "sequences s' = (sequences s)(rs_request v \<mapsto>
        q\<lparr>sq_pages := take (div_ceil (rs_start v + k) (block_size (kv_conf s))) (sq_pages q),
          sq_committed := rs_start v + k, sq_pending := None\<rparr>)"
      "kv_conf s' = kv_conf s" "prefix_caching s' = prefix_caching s" "reused_tokens s' = reused_tokens s"
      "next_reservation s' = next_reservation s"
    using assms by (auto simp: settled_def)
  show "kv_static s s'" using s' by (simp add: kv_static_def)
  show "kv_ledger s' = lg_settle r k (kv_ledger s)"
    using s'(1,2) assms(2) by (auto simp: kv_ledger_def lg_settle_def fun_eq_iff)
qed

lemma settled_other:
  "settled r c s s' \<Longrightarrow> i \<noteq> r \<Longrightarrow> reservations s' i = reservations s i"
  by (auto simp: settled_def)

section \<open>Groups of rows\<close>

definition row_ok :: "kv_manager \<Rightarrow> nat \<times> nat \<Rightarrow> bool" where
  "row_ok s row \<longleftrightarrow> (\<exists>v. reservations s (fst row) = Some v \<and> 0 < snd row \<and> snd row \<le> rs_count v)"

definition row_position :: "kv_manager \<Rightarrow> nat \<times> nat \<Rightarrow> nat" where
  "row_position s row = rs_start (the (reservations s (fst row))) + snd row"

lemma commit_rows_ok:
  assumes "kv_inv s" and "distinct (map fst rows)" and "\<forall>row\<in>set rows. row_ok s row"
  shows "\<exists>s'. map_op commit_row rows s = (Ok (map (row_position s) rows), s') \<and> kv_inv s'
     \<and> kv_ledger s' = lg_settle_rows rows (kv_ledger s) \<and> kv_static s s'
     \<and> (\<forall>i. i \<notin> fst ` set rows \<longrightarrow> reservations s' i = reservations s i)"
  using assms
proof (induction rows arbitrary: s)
  case Nil
  then show ?case by simp
next
  case (Cons row rows)
  obtain r k where row: "row = (r, k)" by (cases row)
  obtain v where v: "reservations s r = Some v" "0 < k" "k \<le> rs_count v"
    using Cons.prems(3) row by (auto simp: row_ok_def)
  from commit_row_ok [OF Cons.prems(1) v] obtain t where
    t: "commit_row (r, k) s = (Ok (rs_start v + k), t)" "kv_inv t" "settled r (rs_start v + k) s t" .
  note led = settled_ledger [OF t(3) v(1)]
  have same: "reservations t (fst x) = reservations s (fst x)" if "x \<in> set rows" for x
    using settled_other [OF t(3), of "fst x"] Cons.prems(2) row that by force
  have "\<forall>x\<in>set rows. row_ok t x" using Cons.prems(3) same by (simp add: row_ok_def)
  with Cons.IH [OF t(2)] Cons.prems(2) obtain u where
    u: "map_op commit_row rows t = (Ok (map (row_position t) rows), u)" "kv_inv u"
      "kv_ledger u = lg_settle_rows rows (kv_ledger t)" "kv_static t u"
      "\<forall>i. i \<notin> fst ` set rows \<longrightarrow> reservations u i = reservations t i" by auto
  have "map (row_position t) rows = map (row_position s) rows"
    using same by (simp add: row_position_def)
  then have "map_op commit_row (row # rows) s = (Ok (map (row_position s) (row # rows)), u)"
    using t(1) u(1) row v(1) by (simp add: row_position_def)
  moreover have "kv_static s u" by (rule kv_static_trans [OF led(2) u(4)])
  ultimately show ?case
    using u led row settled_other [OF t(3)] by auto
qed

lemma check_consumed_eq:
  assumes "set (map fst rows) \<subseteq> dom (reservations s)"
  shows "(\<forall>row\<in>set rows. row_ok s row) \<and> check_consumed rows s = (Ok (), s)
    \<or> \<not> (\<forall>row\<in>set rows. row_ok s row) \<and> check_consumed rows s = (Err InvalidLookaheadPrefix, s)"
  using assms
proof (induction rows)
  case Nil
  then show ?case by simp
next
  case (Cons row rows)
  obtain r k where row: "row = (r, k)" by (cases row)
  obtain v where v: "reservations s r = Some v" using Cons.prems row by auto
  have "check_consumed (row # rows) s =
      (if row_ok s row then check_consumed rows s else (Err InvalidLookaheadPrefix, s))"
    using row v by (auto simp: row_ok_def)
  then show ?case using Cons by (cases "row_ok s row") simp_all
qed

definition rows_ok :: "kv_manager \<Rightarrow> (nat \<times> nat) list \<Rightarrow> bool" where
  "rows_ok s rows \<longleftrightarrow> distinct (map fst rows) \<and> (\<forall>row\<in>set rows. row_ok s row)"

lemma commit_append_prefixes_err:
  assumes inv: "kv_inv s" and bad: "\<not> rows_ok s rows"
  shows "\<exists>e. commit_append_prefixes rows s = (Err e, s)"
  using validate_reservations_cases [OF inv, of "map fst rows"]
proof (elim disjE conjE exE)
  fix e assume "validate_reservations (map fst rows) s = (Err e, s)"
  then show ?thesis by (simp add: commit_append_prefixes_def)
next
  assume v: "distinct (map fst rows)" "set (map fst rows) \<subseteq> dom (reservations s)"
    "validate_reservations (map fst rows) s = (Ok (), s)"
  then show ?thesis
    using check_consumed_eq [OF v(2)] bad by (auto simp: commit_append_prefixes_def rows_ok_def)
qed

lemma commit_append_prefixes_ok:
  assumes inv: "kv_inv s" and rows: "rows_ok s rows"
  obtains s' where "commit_append_prefixes rows s = (Ok (map (row_position s) rows), s')" and "kv_inv s'"
    and "kv_ledger s' = lg_settle_rows rows (kv_ledger s)" and "kv_static s s'"
    and "\<forall>i. i \<notin> fst ` set rows \<longrightarrow> reservations s' i = reservations s i"
proof -
  have dom: "set (map fst rows) \<subseteq> dom (reservations s)" using rows by (auto simp: rows_ok_def row_ok_def)
  have "validate_reservations (map fst rows) s = (Ok (), s)"
    using validate_reservations_cases [OF inv, of "map fst rows"] dom rows by (auto simp: rows_ok_def)
  moreover have "check_consumed rows s = (Ok (), s)"
    using check_consumed_eq [OF dom] rows by (auto simp: rows_ok_def)
  ultimately have "commit_append_prefixes rows s = map_op commit_row rows s"
    by (simp add: commit_append_prefixes_def)
  with commit_rows_ok [OF inv] rows that show thesis unfolding rows_ok_def by metis
qed

definition full_row :: "kv_manager \<Rightarrow> nat \<Rightarrow> nat \<times> nat" where
  "full_row s r = (r, rs_count (the (reservations s r)))"

lemma full_row_ok: "kv_inv s \<Longrightarrow> r \<in> dom (reservations s) \<Longrightarrow> row_ok s (full_row s r)"
  by (auto simp: row_ok_def full_row_def elim!: kv_inv_reservation)

lemma expect_commit_rows:
  assumes "kv_inv s" and "distinct rs" and "set rs \<subseteq> dom (reservations s)"
  shows "map_op (\<lambda>r. expect_op (commit_append r)) rs s = map_op commit_row (map (full_row s) rs) s"
  using assms
proof (induction rs arbitrary: s)
  case Nil
  then show ?case by simp
next
  case (Cons r rs)
  obtain v where v: "reservations s r = Some v" using Cons.prems(3) by auto
  then have fr: "full_row s r = (r, rs_count v)" by (simp add: full_row_def)
  have cnt: "0 < rs_count v" using kv_inv_reservation [OF Cons.prems(1) v] by metis
  from commit_row_ok [OF Cons.prems(1) v cnt] obtain t where
    t: "commit_row (r, rs_count v) s = (Ok (rs_start v + rs_count v), t)" "kv_inv t"
      "settled r (rs_start v + rs_count v) s t" by auto
  have same: "reservations t x = reservations s x" if "x \<in> set rs" for x
    using settled_other [OF t(3), of x] Cons.prems(2) that by auto
  then have rows: "map (full_row t) rs = map (full_row s) rs" by (simp add: full_row_def)
  have "set rs \<subseteq> dom (reservations t)" using same Cons.prems(3) by (auto simp: domIff)
  then have "map_op (\<lambda>r. expect_op (commit_append r)) rs t = map_op commit_row (map (full_row s) rs) t"
    using Cons.IH [OF t(2)] Cons.prems(2) unfolding rows by simp
  moreover have "(expect_op (commit_append r) :: nat kv_op) s = (Ok (rs_start v + rs_count v), t)"
    using commit_append_row [OF Cons.prems(1) v] t(1) by (simp add: expect_op_def)
  ultimately show ?case using t(1) fr by (simp add: bind_op_def)
qed

lemma commit_appends_ok:
  assumes inv: "kv_inv s" and rs: "distinct rs" "set rs \<subseteq> dom (reservations s)"
  obtains s' where "commit_appends rs s = (Ok (map (\<lambda>r. row_position s (full_row s r)) rs), s')"
    and "kv_inv s'" and "kv_ledger s' = lg_settle_rows (map (full_row s) rs) (kv_ledger s)" and "kv_static s s'"
    and "\<forall>i. i \<notin> set rs \<longrightarrow> reservations s' i = reservations s i"
proof -
  have "distinct (map fst (map (full_row s) rs))"
    using rs(1) by (simp add: full_row_def comp_def)
  moreover have "\<forall>row\<in>set (map (full_row s) rs). row_ok s row"
    using full_row_ok [OF inv] subsetD [OF rs(2)] by simp
  ultimately obtain s' where
    "map_op commit_row (map (full_row s) rs) s = (Ok (map (row_position s) (map (full_row s) rs)), s')"
    "kv_inv s'" "kv_ledger s' = lg_settle_rows (map (full_row s) rs) (kv_ledger s)" "kv_static s s'"
    "\<forall>i. i \<notin> fst ` set (map (full_row s) rs) \<longrightarrow> reservations s' i = reservations s i"
    using commit_rows_ok [OF inv] by blast
  moreover have "validate_reservations rs s = (Ok (), s)"
    using validate_reservations_cases [OF inv, of rs] rs by auto
  ultimately show thesis using expect_commit_rows [OF inv rs] that
    by (simp add: commit_appends_def comp_def full_row_def image_iff)
qed

lemma commit_appends_err:
  "kv_inv s \<Longrightarrow> \<not> (distinct rs \<and> set rs \<subseteq> dom (reservations s)) \<Longrightarrow> \<exists>e. commit_appends rs s = (Err e, s)"
  using validate_reservations_cases [of s rs] by (auto simp: commit_appends_def)

lemma expect_cancel_rows:
  assumes "kv_inv s" and "distinct rs" and "set rs \<subseteq> dom (reservations s)"
  shows "\<exists>s'. for_op (\<lambda>r. expect_op (cancel_append r)) rs s = ((Ok (), s') :: (kv_error, unit) res \<times> kv_manager) \<and> kv_inv s'
     \<and> kv_ledger s' = lg_settle_rows (map (\<lambda>r. (r, 0)) rs) (kv_ledger s) \<and> kv_static s s'
     \<and> (\<forall>i. i \<notin> set rs \<longrightarrow> reservations s' i = reservations s i)"
  using assms
proof (induction rs arbitrary: s)
  case Nil
  then show ?case by simp
next
  case (Cons r rs)
  obtain v where v: "reservations s r = Some v" using Cons.prems(3) by auto
  from cancel_append_ok [OF Cons.prems(1) v] obtain t where
    t: "cancel_append r s = (Ok (), t)" "kv_inv t" "settled r (rs_start v) s t" .
  have t3: "settled r (rs_start v + 0) s t" using t(3) by simp
  note led = settled_ledger [OF t3 v]
  have "set rs \<subseteq> dom (reservations t)"
    using settled_other [OF t(3)] Cons.prems(2,3) by (force simp: domIff)
  moreover have "distinct rs" using Cons.prems(2) by simp
  ultimately obtain u where
    u: "for_op (\<lambda>r. expect_op (cancel_append r)) rs t = ((Ok (), u) :: (kv_error, unit) res \<times> kv_manager)" "kv_inv u"
      "kv_ledger u = lg_settle_rows (map (\<lambda>r. (r, 0)) rs) (kv_ledger t)" "kv_static t u"
      "\<forall>i. i \<notin> set rs \<longrightarrow> reservations u i = reservations t i"
    using Cons.IH [OF t(2)] by metis
  have "kv_static s u" by (rule kv_static_trans [OF led(2) u(4)])
  moreover have "(expect_op (cancel_append r) :: unit kv_op) s = (Ok (), t)"
    using t(1) by (simp add: expect_op_def)
  then have "for_op (\<lambda>r. expect_op (cancel_append r)) (r # rs) s = ((Ok (), u) :: (kv_error, unit) res \<times> kv_manager)"
    using u(1) by simp
  moreover have "reservations u i = reservations s i" if "i \<notin> set (r # rs)" for i
    using u(5) settled_other [OF t(3), of i] that by simp
  moreover have "kv_ledger u = lg_settle_rows (map (\<lambda>r. (r, 0)) (r # rs)) (kv_ledger s)"
    using u(3) led(1) by simp
  ultimately show ?case using u(2) by (intro exI [of _ u]) simp
qed

lemma cancel_appends_ok:
  assumes inv: "kv_inv s" and rs: "distinct rs" "set rs \<subseteq> dom (reservations s)"
  obtains s' where "cancel_appends rs s = (Ok (), s')" and "kv_inv s'"
    and "kv_ledger s' = lg_settle_rows (map (\<lambda>r. (r, 0)) rs) (kv_ledger s)" and "kv_static s s'"
    and "\<forall>i. i \<notin> set rs \<longrightarrow> reservations s' i = reservations s i"
proof -
  have "validate_reservations rs s = (Ok (), s)"
    using validate_reservations_cases [OF inv, of rs] rs by auto
  with expect_cancel_rows [OF inv rs] that show thesis by (auto simp: cancel_appends_def)
qed

lemma cancel_appends_err:
  "kv_inv s \<Longrightarrow> \<not> (distinct rs \<and> set rs \<subseteq> dom (reservations s)) \<Longrightarrow> \<exists>e. cancel_appends rs s = (Err e, s)"
  using validate_reservations_cases [of s rs] by (auto simp: cancel_appends_def)

section \<open>Removing a sequence\<close>

lemma remove_sequence_ok:
  assumes inv: "kv_inv s" and q: "sequences s rid = Some q" "sq_pending q = None"
  obtains s' where "remove_sequence rid s = (Ok (), s')" and "kv_inv s'"
    and "sequences s' = (sequences s)(rid := None)" and "reservations s' = reservations s" and "kv_static s s'"
proof -
  let ?s0 = "s\<lparr>sequences := (sequences s)(rid := None)\<rparr>"
  have "pool_inv (rev (sq_pages q) @ []) ?s0"
    by (rule pool_remove_seq [of s rid q]) (use inv q in \<open>auto simp: kv_inv_def same_pool_def\<close>)
  from release_pages_ok [OF this] obtain s' where
    s': "release_pages (rev (sq_pages q)) ?s0 = (Ok (), s')" "pool_inv [] s'" "kv_frame ?s0 s'" by blast
  have none: "reservations s i = Some v \<Longrightarrow> rs_request v \<noteq> rid" for i v
    using kv_inv_reservation [OF inv, of i v] q by (metis option.distinct(1) option.inject)
  have "kv_ok ?s0"
    by (rule kv_ok_step [of s ?s0 rid]) (use inv none in \<open>auto simp: kv_inv_def kv_ok_def\<close>)
  then have "kv_inv s'" using s' kv_ok_frame by (simp add: kv_inv_def)
  moreover have "remove_sequence rid s = (Ok (), s')"
    using q s'(1) by (simp add: remove_sequence_def sequence_def bind_op_def)
  ultimately show thesis using that s'(3) by (simp add: kv_frame_def kv_static_def)
qed

lemma remove_sequence_err:
  "sequences s rid = None \<Longrightarrow> remove_sequence rid s = (Err (SequenceMissing rid), s)"
  "sequences s rid = Some q \<Longrightarrow> sq_pending q = Some i \<Longrightarrow> remove_sequence rid s = (Err (RemovePending rid i), s)"
  by (simp_all add: remove_sequence_def sequence_def bind_op_def)

section \<open>Extending a reservation\<close>

lemma extend_append_ok:
  assumes inv: "kv_inv s" and v: "reservations s r = Some v" and q: "sequences s (rs_request v) = Some q"
    and max: "rs_start v + (rs_count v + extra) \<le> max_sequence_length (kv_conf s)"
    and av: "div_ceil (rs_start v + (rs_count v + extra)) (block_size (kv_conf s)) - length (sq_pages q) \<le> available_pages s"
  obtains new s' where
    "extend_append r extra s = (Ok \<lparr>ar_id = r, ar_request = rs_request v, ar_start = rs_start v,
        ar_count = rs_count v + extra, ar_context = rs_start v + (rs_count v + extra),
        ar_new_pages = new, ar_table = sq_pages q @ new\<rparr>, s')"
    and "kv_inv s'" and "kv_static s s'"
    and "sequences s' = (sequences s)(rs_request v \<mapsto> q\<lparr>sq_pages := sq_pages q @ new\<rparr>)"
    and "reservations s' = (reservations s)(r \<mapsto> v\<lparr>rs_count := rs_count v + extra\<rparr>)"
    and "length (sq_pages q @ new) = div_ceil (rs_start v + (rs_count v + extra)) (block_size (kv_conf s))"
proof -
  note result = that
  let ?bs = "block_size (kv_conf s)" and ?rid = "rs_request v"
  let ?e = "rs_start v + (rs_count v + extra)"
  let ?k = "div_ceil ?e ?bs - length (sq_pages q)"
  have bs: "0 < ?bs" and mx: "max_sequence_length (kv_conf s) \<le> usize_max" using kv_inv_conf inv by auto
  from kv_inv_reservation [OF inv v] q have
    p: "sq_pending q = Some r" "rs_start v = sq_committed q" "0 < rs_count v"
      "rs_previous v = div_ceil (sq_committed q) ?bs"
      "length (sq_pages q) = div_ceil (sq_committed q + rs_count v) ?bs" by (metis option.inject)+
  obtain new t where t: "allocate_pages ?k s = (Ok new, t)" "length new = ?k"
    "pool_inv (new @ []) t" "kv_frame s t" "\<forall>p\<in>set new. fresh_page t p \<and> page_refs s ! p = 0"
    using allocate_pages_ok [of "[]" s ?k] inv av unfolding kv_inv_def by blast
  have tf: "kv_conf t = kv_conf s" "prefix_caching t = prefix_caching s" "reused_tokens t = reused_tokens s"
    "sequences t = sequences s" "reservations t = reservations s" "next_reservation t = next_reservation s"
    using t(4) by (simp_all add: kv_frame_def)
  let ?q = "q\<lparr>sq_pages := sq_pages q @ new\<rparr>"
  let ?v = "v\<lparr>rs_count := rs_count v + extra\<rparr>"
  let ?s = "t\<lparr>sequences := (sequences t)(?rid \<mapsto> ?q), reservations := (reservations t)(r \<mapsto> ?v)\<rparr>"
  have tot: "length (sq_pages q @ new) = div_ceil ?e ?bs"
    using t(2) p(2,5) div_ceil_mono [OF bs, of "sq_committed q + rs_count v" ?e] by simp
  have run: "extend_append r extra s = (Ok \<lparr>ar_id = r, ar_request = ?rid, ar_start = rs_start v,
        ar_count = rs_count v + extra, ar_context = ?e, ar_new_pages = new, ar_table = sq_pages q @ new\<rparr>, ?s)"
    using v q max mx av t(1) tf validate_reservation_eq [OF inv, of r]
    by (simp add: extend_append_def bind_op_def checked_add_def Let_def)
  have pool: "pool_inv [] ?s"
  proof (rule pool_update_seq [OF t(3), of ?rid q ?s ?q "[]"])
    show "same_pool t ?s" by (simp add: same_pool_def)
    show "count_list (sq_pages ?q) p + count_list [] p = count_list (sq_pages q) p + count_list (new @ []) p" for p
      by simp
    fix j assume j: "sq_committed ?q div block_size (kv_conf t) \<le> j" "j < length (sq_pages ?q)"
    show "page_blocks t ! (sq_pages ?q ! j) = None \<and> page_refs t ! (sq_pages ?q ! j) = 1"
    proof (cases "j < length (sq_pages q)")
      case True
      then show ?thesis using tail_okD [of t ?rid q j] t(3) j q tf by (simp add: pool_inv_def nth_append)
    next
      case False
      then have "sq_pages ?q ! j \<in> set new" using j by (simp add: nth_append)
      then show ?thesis using t(5) by (auto simp: fresh_page_def)
    qed
  qed (use q tf in simp_all)
  have only: "i = r" if "reservations s i = Some w" "rs_request w = ?rid" for i w
    using kv_inv_reservation [OF inv that(1)] that(2) q p(1) by (metis option.inject)
  have ok: "kv_ok ?s"
  proof (rule kv_ok_step [of s ?s ?rid])
    show "seq_ok ?s ?rid q'" if "sequences ?s ?rid = Some q'" for q'
    proof -
      have "sq_registered q * ?bs \<le> sq_committed q" using kv_inv_seq [OF inv q] by (simp add: seq_ok_def)
      moreover have "q' = ?q" using that by simp
      ultimately show ?thesis using p(1-4) max tot tf(1) unfolding seq_ok_def by simp
    qed
    show "reservations ?s i = Some w \<longleftrightarrow> reservations s i = Some w" if "rs_request w \<noteq> ?rid" for i w
      using that v tf by auto
    show "i < next_reservation ?s \<and> (\<exists>q. sequences ?s ?rid = Some q \<and> sq_pending q = Some i)"
      if "reservations ?s i = Some w" "rs_request w = ?rid" for i w
      using that only [of i w] tf p(1) kv_inv_fresh [OF inv v] by (auto split: if_splits)
  qed (use inv tf in \<open>auto simp: kv_inv_def kv_ok_def\<close>)
  have "kv_inv ?s" using pool ok by (simp only: kv_inv_def simp_thms)
  moreover have "kv_static s ?s" using tf by (simp add: kv_static_def)
  ultimately show thesis by (rule result [OF run _ _ _ _ tot]) (simp_all add: tf)
qed

lemma extend_append_err:
  assumes inv: "kv_inv s"
    and bad: "\<And>v q. reservations s r = Some v \<Longrightarrow> sequences s (rs_request v) = Some q \<Longrightarrow>
      \<not> (rs_start v + (rs_count v + extra) \<le> max_sequence_length (kv_conf s) \<and>
         div_ceil (rs_start v + (rs_count v + extra)) (block_size (kv_conf s)) - length (sq_pages q) \<le> available_pages s)"
  shows "\<exists>e. extend_append r extra s = (Err e, s)"
proof (cases "reservations s r")
  case None
  then show ?thesis using validate_reservation_eq [OF inv, of r] by (simp add: extend_append_def)
next
  case (Some v)
  then obtain q where q: "sequences s (rs_request v) = Some q" using kv_inv_reservation [OF inv] by metis
  show ?thesis
    using Some q bad [OF Some q] validate_reservation_eq [OF inv, of r]
    by (auto simp: extend_append_def bind_op_def Let_def checked_add_def)
qed

section \<open>The prefix cache\<close>

lemma set_prefix_caching_inv:
  assumes "kv_inv s"
  obtains s' where "set_prefix_caching b s = (Ok (), s')" and "kv_inv s'" and "kv_frame (s\<lparr>prefix_caching := b\<rparr>) s'"
proof -
  obtain s' where s': "set_prefix_caching b s = (Ok (), s')" "pool_inv [] s'" "kv_frame (s\<lparr>prefix_caching := b\<rparr>) s'"
    using set_prefix_caching_ok [of "[]" s b] assms by (auto simp: kv_inv_def)
  have "kv_ok (s\<lparr>prefix_caching := b\<rparr>)"
    using assms by (simp add: kv_inv_def kv_ok_def seq_ok_def cong: option.case_cong)
  then have "kv_inv s'" using s' kv_ok_frame by (simp add: kv_inv_def)
  with s' that show thesis by blast
qed

lemma register_blocks_ok:
  assumes "pool_inv [] s" and "sequences s rid = Some q" and "block + n \<le> sq_committed q div block_size (kv_conf s)"
    and "sq_committed q div block_size (kv_conf s) \<le> length (sq_pages q)"
  shows "\<exists>h s'. register_blocks chain bs toks (sq_pages q) n block parent s = (Ok (block + n, h), s')
     \<and> pool_inv [] s' \<and> kv_frame s s'"
  using assms
proof (induction n arbitrary: s block parent)
  case 0
  then show ?case by simp
next
  case (Suc n)
  let ?key = "(parent, block_tokens bs toks block)" and ?p = "sq_pages q ! block"
  let ?s1 = "if block_index s ?key = None \<and> page_blocks s ! ?p = None
             then s\<lparr>block_index := (block_index s)(?key \<mapsto> ?p),
                    page_blocks := (page_blocks s)[?p := Some \<lparr>cb_key = ?key, cb_tick = None\<rparr>]\<rparr> else s"
  have b: "block < length (sq_pages q)" "block < sq_committed q div block_size (kv_conf s)"
    using Suc.prems(3,4) by auto
  have "set (sq_pages q) \<subseteq> {..<num_pages (kv_conf s)}" "length (page_blocks s) = num_pages (kv_conf s)"
    using Suc.prems(1,2) by (auto simp: pool_inv_def refs_ok_def cache_len)
  then have "?p < length (page_blocks s)" using b(1) by (metis lessThan_iff nth_mem subsetD)
  then have step: "register_blocks chain bs toks (sq_pages q) (Suc n) block parent s =
      register_blocks chain bs toks (sq_pages q) n (Suc block) (chain parent (block_tokens bs toks block)) ?s1"
    using b(1) by (simp add: Let_def)
  have p1: "pool_inv [] ?s1"
    using publish_ok [OF Suc.prems(1,2) b refl, of ?key] Suc.prems(1) by simp
  have f1: "kv_frame s ?s1" by (simp add: kv_frame_def)
  then have same: "sequences ?s1 rid = Some q" "kv_conf ?s1 = kv_conf s" using Suc.prems(2) by (simp_all add: kv_frame_def)
  have "Suc block + n \<le> sq_committed q div block_size (kv_conf ?s1)"
    "sq_committed q div block_size (kv_conf ?s1) \<le> length (sq_pages q)" using Suc.prems(3,4) same(2) by simp_all
  from Suc.IH [OF p1 same(1) this, of "chain parent (block_tokens bs toks block)"] obtain h s' where
    "register_blocks chain bs toks (sq_pages q) n (Suc block) (chain parent (block_tokens bs toks block)) ?s1
       = (Ok (Suc block + n, h), s')" "pool_inv [] s'" "kv_frame ?s1 s'" by blast
  then show ?case unfolding step using kv_frame_trans [OF f1] by auto
qed

lemma committed_within: "kv_inv s \<Longrightarrow> sequences s r = Some q \<Longrightarrow>
    sq_committed q div block_size (kv_conf s) \<le> length (sq_pages q)"
proof (cases "sq_pending q")
  case None
  assume "kv_inv s" "sequences s r = Some q"
  with None kv_inv_pending_None div_le_div_ceil show ?thesis by metis
next
  case (Some i)
  assume inv: "kv_inv s" and q: "sequences s r = Some q"
  from kv_inv_pending_Some [OF inv q Some] obtain n where
    len: "length (sq_pages q) = div_ceil (sq_committed q + n) (block_size (kv_conf s))" by metis
  have "sq_committed q div block_size (kv_conf s) \<le> div_ceil (sq_committed q) (block_size (kv_conf s))"
    by (rule div_le_div_ceil)
  also have "\<dots> \<le> div_ceil (sq_committed q + n) (block_size (kv_conf s))"
    by (rule div_ceil_mono) (use kv_inv_conf(1) [OF inv] in auto)
  finally show ?thesis by (simp add: len)
qed

lemma kv_inv_relabel:
  assumes inv: "kv_inv s" and q: "sequences s r = Some q" and reg: "n * block_size (kv_conf s) \<le> sq_committed q"
  shows "kv_inv (s\<lparr>sequences := (sequences s)(r \<mapsto> q\<lparr>sq_registered := n, sq_hash := h\<rparr>)\<rparr>)" (is "kv_inv ?s")
proof -
  have "pool_inv [] ?s"
    by (rule pool_update_seq [of "[]" s r q ?s "q\<lparr>sq_registered := n, sq_hash := h\<rparr>"])
      (use inv q in \<open>auto simp: kv_inv_def same_pool_def pool_inv_def dest: tail_okD\<close>)
  moreover have "kv_ok ?s"
  proof (rule kv_ok_step [of s ?s r])
    show "seq_ok ?s r q'" if "sequences ?s r = Some q'" for q'
      using that kv_inv_seq [OF inv q] reg by (auto simp: seq_ok_def split: option.splits)
    show "i < next_reservation ?s \<and> (\<exists>q. sequences ?s r = Some q \<and> sq_pending q = Some i)"
      if "reservations ?s i = Some v" "rs_request v = r" for i v
      using that q kv_inv_reservation [OF inv, of i v] kv_inv_fresh [OF inv, of i v] by auto
  qed (use inv in \<open>auto simp: kv_inv_def kv_ok_def\<close>)
  ultimately show ?thesis by (simp add: kv_inv_def)
qed

lemma register_prefix_cases:
  assumes inv: "kv_inv s"
  obtains (off) "\<not> prefix_caching s" and "register_prefix chain rid toks s = (Ok (), s)"
  | (missing) "prefix_caching s" and "sequences s rid = None"
      and "register_prefix chain rid toks s = (Err (SequenceMissing rid), s)"
  | (ok) q n h s' where "prefix_caching s" and "sequences s rid = Some q"
      and "register_prefix chain rid toks s = (Ok (), s')" and "kv_inv s'"
      and "sequences s' = (sequences s)(rid \<mapsto> q\<lparr>sq_registered := n, sq_hash := h\<rparr>)"
      and "reservations s' = reservations s" and "kv_static s s'"
proof (cases "prefix_caching s")
  case False
  then show thesis using off by (simp add: register_prefix_def)
next
  case True
  show thesis
  proof (cases "sequences s rid")
    case None
    with True show thesis using missing by (simp add: register_prefix_def sequence_def bind_op_def)
  next
    case (Some q)
    let ?bs = "block_size (kv_conf s)"
    let ?c = "min (sq_committed q) (length toks) div ?bs"
    let ?n = "?c - sq_registered q" and ?k = "sq_registered q + (?c - sq_registered q)"
    have bs: "0 < ?bs" using kv_inv_conf inv by auto
    have "sq_registered q * ?bs \<le> sq_committed q" using kv_inv_seq [OF inv Some] by (simp add: seq_ok_def)
    moreover have "?c * ?bs \<le> sq_committed q"
      by (meson div_times_less_eq_dividend le_trans min.cobounded1)
    ultimately have reg: "?k * ?bs \<le> sq_committed q" by (cases "sq_registered q \<le> ?c") auto
    then have "?k \<le> sq_committed q div ?bs" using bs by (simp add: less_eq_div_iff_mult_less_eq)
    from register_blocks_ok [OF _ Some this committed_within [OF inv Some], of chain ?bs toks "sq_hash q"] inv
    obtain h t where t: "register_blocks chain ?bs toks (sq_pages q) ?n (sq_registered q) (sq_hash q) s = (Ok (?k, h), t)"
      "pool_inv [] t" "kv_frame s t" by (auto simp: kv_inv_def)
    have tf: "kv_conf t = kv_conf s" "sequences t = sequences s" "reservations t = reservations s"
      using t(3) by (simp_all add: kv_frame_def)
    have "kv_inv t" using t(2,3) inv kv_ok_frame by (simp add: kv_inv_def)
    then have "kv_inv (t\<lparr>sequences := (sequences t)(rid \<mapsto> q\<lparr>sq_registered := ?k, sq_hash := h\<rparr>)\<rparr>)"
      by (rule kv_inv_relabel) (use Some reg tf in simp_all)
    moreover have "register_prefix chain rid toks s =
        (Ok (), t\<lparr>sequences := (sequences t)(rid \<mapsto> q\<lparr>sq_registered := ?k, sq_hash := h\<rparr>)\<rparr>)"
      using True Some t(1) tf by (simp add: register_prefix_def sequence_def bind_op_def Let_def)
    ultimately show thesis using ok [OF True Some] tf t(3) by (simp add: kv_static_def kv_frame_def)
  qed
qed

section \<open>Mapping a cached prefix\<close>

text \<open>What the loop of \<open>create_sequence_with_prefix\<close> finds, as a function of the index alone.\<close>

fun match_pages ::
  "(block_key \<rightharpoonup> nat) \<Rightarrow> chain_fun \<Rightarrow> nat \<Rightarrow> token list \<Rightarrow> nat list \<Rightarrow> chash \<Rightarrow> chash \<times> nat list" where
  "match_pages idx chain bs toks [] parent = (parent, [])"
| "match_pages idx chain bs toks (b # blocks) parent =
     (case idx (parent, block_tokens bs toks b) of
        None \<Rightarrow> (parent, [])
      | Some p \<Rightarrow>
          (let r = match_pages idx chain bs toks blocks (chain parent (block_tokens bs toks b))
           in (fst r, p # snd r)))"

lemma match_pages_length: "length (snd (match_pages idx chain bs toks blocks parent)) \<le> length blocks"
  by (induction blocks arbitrary: parent) (auto simp: Let_def split: option.splits)

lemma pool_inv_perm:
  assumes "mset xs = mset ys" and "pool_inv xs s"
  shows "pool_inv ys s"
proof -
  have "count_list ys p = count_list xs p" for p using assms(1) by (metis count_mset)
  moreover have "set ys = set xs" using assms(1) by (metis set_mset_mset)
  ultimately show ?thesis using assms(2) by (simp add: pool_inv_def refs_ok_def)
qed

lemma match_blocks_ok:
  assumes "pool_inv (rev acc @ owed) s"
  shows "\<exists>s'. match_blocks chain bs toks blocks parent acc s =
      (Ok (fst (match_pages (block_index s) chain bs toks blocks parent),
           acc @ snd (match_pages (block_index s) chain bs toks blocks parent)), s')
    \<and> pool_inv (rev (acc @ snd (match_pages (block_index s) chain bs toks blocks parent)) @ owed) s'
    \<and> kv_frame s s' \<and> block_index s' = block_index s"
  using assms
proof (induction blocks arbitrary: s parent acc)
  case Nil
  then show ?case by simp
next
  case (Cons b blocks)
  let ?key = "(parent, block_tokens bs toks b)"
  show ?case
  proof (cases "block_index s ?key")
    case None
    then show ?thesis using Cons.prems by simp
  next
    case (Some p)
    from acquire_cached_ok [OF Cons.prems Some] obtain t where
      t: "acquire_cached p s = (Ok (), t)" "pool_inv (p # rev acc @ owed) t" "kv_frame s t"
        "block_index t = block_index s" by blast
    have "pool_inv (rev (acc @ [p]) @ owed) t" using t(2) by simp
    from Cons.IH [OF this, of "chain parent (block_tokens bs toks b)"] obtain u where
      "match_blocks chain bs toks blocks (chain parent (block_tokens bs toks b)) (acc @ [p]) t =
        (Ok (fst (match_pages (block_index t) chain bs toks blocks (chain parent (block_tokens bs toks b))),
           (acc @ [p]) @ snd (match_pages (block_index t) chain bs toks blocks (chain parent (block_tokens bs toks b)))), u)"
      "pool_inv (rev ((acc @ [p]) @ snd (match_pages (block_index t) chain bs toks blocks (chain parent (block_tokens bs toks b)))) @ owed) u"
      "kv_frame t u" "block_index u = block_index t" by blast
    then show ?thesis using Some t(1,3,4) kv_frame_trans [OF t(3)] by (simp add: Let_def)
  qed
qed

definition usable_blocks :: "kv_manager \<Rightarrow> token list \<Rightarrow> nat" where
  "usable_blocks s toks =
     (if prefix_caching s \<and> 1 < length toks then (length toks - 1) div block_size (kv_conf s) else 0)"

definition cached_prefix :: "chain_fun \<Rightarrow> kv_manager \<Rightarrow> token list \<Rightarrow> chash \<times> nat list" where
  "cached_prefix chain s toks =
     match_pages (block_index s) chain (block_size (kv_conf s)) toks [0..<usable_blocks s toks] chain_root"

lemma create_sequence_with_prefix_ok:
  assumes inv: "kv_inv s" and none: "sequences s rid = None"
  obtains s' where
    "create_sequence_with_prefix chain rid toks s =
       (Ok (length (snd (cached_prefix chain s toks)) * block_size (kv_conf s)), s')"
    and "kv_inv s'" and "reservations s' = reservations s"
    and "sequences s' = (sequences s)(rid \<mapsto>
       \<lparr>sq_committed = length (snd (cached_prefix chain s toks)) * block_size (kv_conf s),
        sq_pages = snd (cached_prefix chain s toks), sq_pending = None,
        sq_registered = length (snd (cached_prefix chain s toks)),
        sq_hash = fst (cached_prefix chain s toks)\<rparr>)"
    and "kv_conf s' = kv_conf s" and "prefix_caching s' = prefix_caching s" and "block_index s' = block_index s"
    and "next_reservation s' = next_reservation s"
    and "reused_tokens s' = reused_tokens s + length (snd (cached_prefix chain s toks)) * block_size (kv_conf s)"
proof -
  note result = that
  let ?bs = "block_size (kv_conf s)" and ?s1 = "s\<lparr>sequences := (sequences s)(rid \<mapsto> fresh_sequence)\<rparr>"
  define cp where "cp = cached_prefix chain s toks"
  have bs: "0 < ?bs" using kv_inv_conf inv by auto
  have inv1: "kv_inv ?s1" by (rule create_sequence_inv [OF inv none])
  show thesis
  proof (cases "prefix_caching s \<and> 1 < length toks")
    case False
    then have "usable_blocks s toks = 0" by (auto simp: usable_blocks_def)
    then have cp0: "cached_prefix chain s toks = (chain_root, [])" by (simp add: cached_prefix_def)
    have "create_sequence_with_prefix chain rid toks s = (Ok 0, ?s1)"
      using False none by (auto simp: create_sequence_with_prefix_def create_sequence_eq bind_op_def)
    then show thesis by (intro result [of ?s1]) (use inv1 in \<open>auto simp: cp0 fresh_sequence_def\<close>)
  next
    case True
    have "pool_inv (rev [] @ []) ?s1" using inv1 by (simp add: kv_inv_def)
    from match_blocks_ok [OF this, of chain ?bs toks "[0..<(length toks - 1) div ?bs]" chain_root]
    obtain t where t: "match_blocks chain ?bs toks [0..<(length toks - 1) div ?bs] chain_root [] ?s1 = (Ok cp, t)"
      "pool_inv (rev (snd cp) @ []) t" "kv_frame ?s1 t" "block_index t = block_index s"
      using True by (auto simp: cp_def cached_prefix_def usable_blocks_def)
    have tf: "kv_conf t = kv_conf s" "prefix_caching t = prefix_caching s" "reused_tokens t = reused_tokens s"
      "sequences t = (sequences s)(rid \<mapsto> fresh_sequence)" "reservations t = reservations s"
      "next_reservation t = next_reservation s"
      using t(3) by (simp_all add: kv_frame_def)
    let ?q = "\<lparr>sq_committed = length (snd cp) * ?bs, sq_pages = snd cp, sq_pending = None,
        sq_registered = length (snd cp), sq_hash = fst cp\<rparr>"
    let ?s = "t\<lparr>sequences := (sequences t)(rid \<mapsto> ?q),
        reused_tokens := reused_tokens t + length (snd cp) * ?bs\<rparr>"
    have run: "create_sequence_with_prefix chain rid toks s = (Ok (length (snd cp) * ?bs), ?s)"
      using True none t(1) tf
      by (simp add: create_sequence_with_prefix_def create_sequence_eq bind_op_def Let_def
          fresh_sequence_def case_prod_beta)
    have "pool_inv [] ?s"
    proof (rule pool_update_seq [OF t(2), of rid fresh_sequence ?s ?q])
      show "count_list (sq_pages ?q) p + count_list [] p
          = count_list (sq_pages fresh_sequence) p + count_list (rev (snd cp) @ []) p" for p
        by (simp add: fresh_sequence_def)
    qed (use tf bs in \<open>auto simp: same_pool_def\<close>)
    moreover have "kv_ok ?s"
      by (rule kv_ok_step [of s ?s rid])
        (use inv tf bs kv_inv_no_reservation [OF inv none] in \<open>auto simp: kv_inv_def kv_ok_def seq_ok_def\<close>)
    ultimately have "kv_inv ?s" by (simp add: kv_inv_def)
    from result [OF run [unfolded cp_def] this [unfolded cp_def]] show thesis
      using tf t(4) by (simp add: cp_def)
  qed
qed

lemma create_sequence_with_prefix_err:
  "sequences s rid \<noteq> None \<Longrightarrow> create_sequence_with_prefix chain rid toks s = (Err (SequenceExists rid), s)"
  by (simp add: create_sequence_with_prefix_def create_sequence_def bind_op_def)

end
