(* ===== verification/PagedKvMachine.thy ===== *)
theory PagedKvMachine
  imports PagedKvInv
begin

text \<open>
  The KV manager as a machine: one command per public method. Every command keeps the
  invariant, never panics, leaves the state untouched when it fails, and refines the
  ledger of committed tokens and open reservations.
\<close>

section \<open>Commands\<close>

datatype kv_cmd =
    KCreate nat
  | KCreatePrefix nat "token list"
  | KRegister nat "token list"
  | KSetCaching bool
  | KBegin nat nat
  | KExtend nat nat
  | KCommit nat
  | KCommitAll "nat list"
  | KCommitPrefixes "(nat \<times> nat) list"
  | KCommitPartial nat nat
  | KCancel nat
  | KCancelAll "nat list"
  | KRemove nat

definition ignore :: "('s, 'e, 'a) op \<Rightarrow> ('s, 'e, unit) op" where
  "ignore m = bind_op m (\<lambda>_. ret_op ())"

lemma ignore_simps [simp]:
  "m s = (Ok a, s') \<Longrightarrow> ignore m s = (Ok (), s')"
  "m s = (Err e, s') \<Longrightarrow> ignore m s = (Err e, s')"
  by (simp_all add: ignore_def)

fun kv_step :: "chain_fun \<Rightarrow> kv_cmd \<Rightarrow> unit kv_op" where
  "kv_step chain (KCreate r) = create_sequence r"
| "kv_step chain (KCreatePrefix r toks) = ignore (create_sequence_with_prefix chain r toks)"
| "kv_step chain (KRegister r toks) = register_prefix chain r toks"
| "kv_step chain (KSetCaching b) = set_prefix_caching b"
| "kv_step chain (KBegin r n) = ignore (begin_append r n)"
| "kv_step chain (KExtend i n) = ignore (extend_append i n)"
| "kv_step chain (KCommit i) = ignore (commit_append i)"
| "kv_step chain (KCommitAll is) = ignore (commit_appends is)"
| "kv_step chain (KCommitPrefixes rows) = ignore (commit_append_prefixes rows)"
| "kv_step chain (KCommitPartial i n) = ignore (commit_append_partial i n)"
| "kv_step chain (KCancel i) = cancel_append i"
| "kv_step chain (KCancelAll is) = cancel_appends is"
| "kv_step chain (KRemove r) = remove_sequence r"

fun kv_run :: "chain_fun \<Rightarrow> kv_cmd list \<Rightarrow> kv_manager \<Rightarrow> kv_manager" where
  "kv_run chain [] s = s"
| "kv_run chain (c # cs) s = kv_run chain cs (snd (kv_step chain c s))"

section \<open>The abstract protocol\<close>

text \<open>
  Which changes of the ledger a successful command may make: one open reservation per
  request, reservation identifiers never reused while open, a commit keeps all the tokens
  of a reservation, a partial commit a nonempty prefix and a cancellation none of them.
\<close>

inductive lg_trans :: "kv_cmd \<Rightarrow> ledger \<Rightarrow> ledger \<Rightarrow> bool" where
  lg_Create: "fst l r = None \<Longrightarrow> lg_trans (KCreate r) l (lg_create r 0 l)"
| lg_CreatePrefix: "fst l r = None \<Longrightarrow> k \<le> length toks - 1 \<Longrightarrow>
    lg_trans (KCreatePrefix r toks) l (lg_create r k l)"
| lg_Register: "lg_trans (KRegister r toks) l l"
| lg_SetCaching: "lg_trans (KSetCaching b) l l"
| lg_Begin: "fst l r = Some k \<Longrightarrow> 0 < n \<Longrightarrow> snd l i = None \<Longrightarrow> \<forall>j st m. snd l j \<noteq> Some (r, st, m) \<Longrightarrow>
    lg_trans (KBegin r n) l (lg_begin i r n l)"
| lg_Extend: "snd l i = Some (r, st, m) \<Longrightarrow>
    lg_trans (KExtend i n) l (fst l, (snd l)(i \<mapsto> (r, st, m + n)))"
| lg_Commit: "snd l i = Some (r, st, m) \<Longrightarrow> lg_trans (KCommit i) l (lg_settle i m l)"
| lg_CommitAll: "distinct is \<Longrightarrow> \<forall>i\<in>set is. snd l i \<noteq> None \<Longrightarrow>
    lg_trans (KCommitAll is) l (lg_settle_rows (map (\<lambda>i. (i, snd (snd (the (snd l i))))) is) l)"
| lg_CommitPrefixes: "distinct (map fst rows) \<Longrightarrow>
    \<forall>(i, k)\<in>set rows. 0 < k \<and> (\<exists>r st m. snd l i = Some (r, st, m) \<and> k \<le> m) \<Longrightarrow>
    lg_trans (KCommitPrefixes rows) l (lg_settle_rows rows l)"
| lg_CommitPartial: "snd l i = Some (r, st, m) \<Longrightarrow> 0 < n \<Longrightarrow> n \<le> m \<Longrightarrow>
    lg_trans (KCommitPartial i n) l (lg_settle i n l)"
| lg_Cancel: "snd l i \<noteq> None \<Longrightarrow> lg_trans (KCancel i) l (lg_settle i 0 l)"
| lg_CancelAll: "distinct is \<Longrightarrow> \<forall>i\<in>set is. snd l i \<noteq> None \<Longrightarrow>
    lg_trans (KCancelAll is) l (lg_settle_rows (map (\<lambda>i. (i, 0)) is) l)"
| lg_Remove: "fst l r \<noteq> None \<Longrightarrow> \<forall>j st m. snd l j \<noteq> Some (r, st, m) \<Longrightarrow>
    lg_trans (KRemove r) l (lg_remove r l)"

inductive_cases lg_BeginE: "lg_trans (KBegin r n) l l'"
inductive_cases lg_RemoveE: "lg_trans (KRemove r) l l'"

section \<open>Every command\<close>

text \<open>The verdict on one command, shared by all the theorems below.\<close>

definition kv_verdict :: "chain_fun \<Rightarrow> kv_cmd \<Rightarrow> kv_manager \<Rightarrow> bool" where
  "kv_verdict chain c s \<longleftrightarrow>
     (\<exists>e. kv_step chain c s = (Err e, s)) \<or>
     (\<exists>s'. kv_step chain c s = (Ok (), s') \<and> kv_inv s' \<and> lg_trans c (kv_ledger s) (kv_ledger s')
        \<and> kv_conf s' = kv_conf s)"

lemma verdict_Ok:
  "kv_step chain c s = (Ok (), s') \<Longrightarrow> kv_inv s' \<Longrightarrow> lg_trans c (kv_ledger s) (kv_ledger s') \<Longrightarrow>
     kv_conf s' = kv_conf s \<Longrightarrow> kv_verdict chain c s"
  unfolding kv_verdict_def by blast

lemma verdict_Err: "kv_step chain c s = (Err e, s) \<Longrightarrow> kv_verdict chain c s"
  unfolding kv_verdict_def by blast

lemma verdict_settle:
  assumes inv: "kv_inv s" and v: "reservations s i = Some v"
    and run: "kv_step chain c s = (Ok (), s')" "kv_inv s'" and set: "settled i (rs_start v + k) s s'"
    and tr: "lg_trans c (kv_ledger s) (lg_settle i k (kv_ledger s))"
  shows "kv_verdict chain c s"
  using run settled_ledger [OF set v] tr by (intro verdict_Ok [of _ _ _ s']) (auto simp: kv_static_def)

lemma no_open:
  assumes "kv_inv s" and "sequences s r = Some q" and "sq_pending q = None"
  shows "\<forall>j st m. snd (kv_ledger s) j \<noteq> Some (r, st, m)"
proof (intro allI notI)
  fix j st m assume "snd (kv_ledger s) j = Some (r, st, m)"
  then obtain v where "reservations s j = Some v" "rs_request v = r" by (auto simp: kv_ledger_lookup)
  with kv_inv_reservation [OF assms(1), of j v] assms(2,3) show False
    by (metis option.distinct(1) option.inject)
qed

lemma verdict_create:
  assumes inv: "kv_inv s"
  shows "kv_verdict chain (KCreate r) s"
proof (cases "sequences s r")
  case None
  let ?s = "s\<lparr>sequences := (sequences s)(r \<mapsto> fresh_sequence)\<rparr>"
  have "kv_ledger ?s = lg_create r 0 (kv_ledger s)"
    by (auto simp: kv_ledger_def lg_create_def fresh_sequence_def)
  moreover have "lg_trans (KCreate r) (kv_ledger s) (lg_create r 0 (kv_ledger s))"
    using None by (intro lg_Create) (simp add: kv_ledger_lookup)
  ultimately show ?thesis
    using None create_sequence_inv [OF inv None] by (intro verdict_Ok [of _ _ _ ?s]) (simp_all add: create_sequence_eq)
qed (auto intro: verdict_Err simp: create_sequence_eq)

lemma usable_within:
  assumes "kv_inv s"
  shows "length (snd (cached_prefix chain s toks)) * block_size (kv_conf s) \<le> length toks - 1"
proof -
  have "length (snd (cached_prefix chain s toks)) \<le> usable_blocks s toks"
    using match_pages_length [of _ _ _ _ "[0..<usable_blocks s toks]"] by (simp add: cached_prefix_def)
  also have "\<dots> \<le> (length toks - 1) div block_size (kv_conf s)" by (simp add: usable_blocks_def)
  finally show ?thesis using kv_inv_conf(1) [OF assms] by (simp add: less_eq_div_iff_mult_less_eq)
qed

lemma verdict_create_prefix:
  assumes inv: "kv_inv s"
  shows "kv_verdict chain (KCreatePrefix r toks) s"
proof (cases "sequences s r")
  case None
  from create_sequence_with_prefix_ok [OF inv None, of chain toks] obtain s' where
    s': "create_sequence_with_prefix chain r toks s =
       (Ok (length (snd (cached_prefix chain s toks)) * block_size (kv_conf s)), s')"
      "kv_inv s'" "reservations s' = reservations s" "kv_conf s' = kv_conf s"
    and sq: "sequences s' = (sequences s)(r \<mapsto>
       \<lparr>sq_committed = length (snd (cached_prefix chain s toks)) * block_size (kv_conf s),
        sq_pages = snd (cached_prefix chain s toks), sq_pending = None,
        sq_registered = length (snd (cached_prefix chain s toks)),
        sq_hash = fst (cached_prefix chain s toks)\<rparr>)" by metis
  have "kv_ledger s' = lg_create r (length (snd (cached_prefix chain s toks)) * block_size (kv_conf s)) (kv_ledger s)"
    using s'(3) sq by (auto simp: kv_ledger_def lg_create_def)
  moreover have "lg_trans (KCreatePrefix r toks) (kv_ledger s)
      (lg_create r (length (snd (cached_prefix chain s toks)) * block_size (kv_conf s)) (kv_ledger s))"
    using None usable_within [OF inv] by (intro lg_CreatePrefix) (simp_all add: kv_ledger_lookup)
  ultimately show ?thesis using s' by (intro verdict_Ok [of _ _ _ s']) simp_all
next
  case (Some q)
  then show ?thesis using create_sequence_with_prefix_err [of s r] by (auto intro!: verdict_Err)
qed

lemma verdict_register:
  assumes "kv_inv s"
  shows "kv_verdict chain (KRegister r toks) s"
proof (rule register_prefix_cases [OF assms, of chain r toks])
  assume "register_prefix chain r toks s = (Ok (), s)"
  then show ?thesis using assms by (intro verdict_Ok [of _ _ _ s]) (simp_all add: lg_Register)
next
  fix q n h s'
  assume s': "sequences s r = Some q" "register_prefix chain r toks s = (Ok (), s')" "kv_inv s'"
    "sequences s' = (sequences s)(r \<mapsto> q\<lparr>sq_registered := n, sq_hash := h\<rparr>)"
    "reservations s' = reservations s" "kv_static s s'"
  then have "kv_ledger s' = kv_ledger s" by (auto simp: kv_ledger_def)
  then show ?thesis using s' by (intro verdict_Ok [of _ _ _ s']) (simp_all add: lg_Register kv_static_def)
qed (auto intro: verdict_Err)

lemma verdict_set_caching:
  assumes "kv_inv s"
  shows "kv_verdict chain (KSetCaching b) s"
proof -
  obtain s' where s': "set_prefix_caching b s = (Ok (), s')" "kv_inv s'" "kv_frame (s\<lparr>prefix_caching := b\<rparr>) s'"
    by (rule set_prefix_caching_inv [OF assms])
  then have "kv_ledger s' = kv_ledger s" by (simp add: kv_frame_def kv_ledger_def)
  then show ?thesis using s' by (intro verdict_Ok [of _ _ _ s']) (simp_all add: lg_SetCaching kv_frame_def)
qed

lemma verdict_begin:
  assumes inv: "kv_inv s"
  shows "kv_verdict chain (KBegin r n) s"
proof (rule begin_append_cases [OF inv, of r n])
  fix e assume "begin_append r n s = (Err e, s)"
  then show ?thesis by (intro verdict_Err) simp
next
  fix q new s'
  assume q: "sequences s r = Some q" "sq_pending q = None" "0 < n"
    and run: "begin_append r n s = (Ok \<lparr>ar_id = next_reservation s, ar_request = r,
        ar_start = sq_committed q, ar_count = n, ar_context = sq_committed q + n,
        ar_new_pages = new, ar_table = sq_pages q @ new\<rparr>, s')" and inv': "kv_inv s'"
    and s': "sequences s' = (sequences s)(r \<mapsto> q\<lparr>sq_pages := sq_pages q @ new, sq_pending := Some (next_reservation s)\<rparr>)"
      "reservations s' = (reservations s)(next_reservation s \<mapsto>
          \<lparr>rs_request = r, rs_previous = length (sq_pages q), rs_start = sq_committed q, rs_count = n\<rparr>)"
      "kv_conf s' = kv_conf s"
  have none: "reservations s (next_reservation s) = None"
    using kv_inv_fresh [OF inv] by (metis less_irrefl not_Some_eq)
  have "kv_ledger s' = lg_begin (next_reservation s) r n (kv_ledger s)"
    using s' q(1) by (auto simp: kv_ledger_def lg_begin_def fun_eq_iff)
  moreover have "lg_trans (KBegin r n) (kv_ledger s) (lg_begin (next_reservation s) r n (kv_ledger s))"
    using q none no_open [OF inv q(1,2)] by (intro lg_Begin [of _ _ "sq_committed q"]) (simp_all add: kv_ledger_lookup)
  ultimately show ?thesis using run inv' s'(3) by (intro verdict_Ok [of _ _ _ s']) simp_all
qed

lemma verdict_extend:
  assumes inv: "kv_inv s"
  shows "kv_verdict chain (KExtend i n) s"
proof (cases "\<exists>v q. reservations s i = Some v \<and> sequences s (rs_request v) = Some q
    \<and> rs_start v + (rs_count v + n) \<le> max_sequence_length (kv_conf s)
    \<and> div_ceil (rs_start v + (rs_count v + n)) (block_size (kv_conf s)) - length (sq_pages q) \<le> available_pages s")
  case True
  then obtain v q where v: "reservations s i = Some v" "sequences s (rs_request v) = Some q"
    "rs_start v + (rs_count v + n) \<le> max_sequence_length (kv_conf s)"
    "div_ceil (rs_start v + (rs_count v + n)) (block_size (kv_conf s)) - length (sq_pages q) \<le> available_pages s"
    by blast
  from extend_append_ok [OF inv v] obtain new s' where
    run: "extend_append i n s = (Ok \<lparr>ar_id = i, ar_request = rs_request v, ar_start = rs_start v,
        ar_count = rs_count v + n, ar_context = rs_start v + (rs_count v + n),
        ar_new_pages = new, ar_table = sq_pages q @ new\<rparr>, s')" "kv_inv s'" "kv_static s s'"
    and s': "sequences s' = (sequences s)(rs_request v \<mapsto> q\<lparr>sq_pages := sq_pages q @ new\<rparr>)"
    "reservations s' = (reservations s)(i \<mapsto> v\<lparr>rs_count := rs_count v + n\<rparr>)" by metis
  have "kv_ledger s' = (fst (kv_ledger s), (snd (kv_ledger s))(i \<mapsto> (rs_request v, rs_start v, rs_count v + n)))"
    using s' v(2) by (auto simp: kv_ledger_def fun_eq_iff)
  moreover have "lg_trans (KExtend i n) (kv_ledger s)
      (fst (kv_ledger s), (snd (kv_ledger s))(i \<mapsto> (rs_request v, rs_start v, rs_count v + n)))"
    by (intro lg_Extend) (simp add: kv_ledger_lookup v(1))
  ultimately show ?thesis using run by (intro verdict_Ok [of _ _ _ s']) (simp_all add: kv_static_def)
next
  case False
  from extend_append_err [OF inv, of i n] False obtain e where "extend_append i n s = (Err e, s)" by blast
  then show ?thesis by (intro verdict_Err) simp
qed

lemma verdict_commit:
  assumes inv: "kv_inv s"
  shows "kv_verdict chain (KCommit i) s"
proof (cases "reservations s i")
  case None
  then show ?thesis using commit_append_missing [OF inv] by (auto intro: verdict_Err)
next
  case (Some v)
  have "0 < rs_count v" using kv_inv_reservation [OF inv Some] by metis
  from commit_row_ok [OF inv Some this] obtain s' where
    "commit_row (i, rs_count v) s = (Ok (rs_start v + rs_count v), s')" "kv_inv s'"
    "settled i (rs_start v + rs_count v) s s'" by auto
  with commit_append_row [OF inv Some] show ?thesis
    by (intro verdict_settle [OF inv Some, of _ _ s' "rs_count v"])
      (auto intro!: lg_Commit simp: kv_ledger_lookup Some)
qed

lemma verdict_commit_partial:
  assumes inv: "kv_inv s"
  shows "kv_verdict chain (KCommitPartial i n) s"
proof (cases "reservations s i")
  case None
  then show ?thesis by (intro verdict_Err [of _ _ _ "ReservationMissing i"]) (simp add: commit_append_partial_def)
next
  case (Some v)
  show ?thesis
  proof (cases "0 < n \<and> n \<le> rs_count v")
    case True
    from commit_row_ok [OF inv Some] True obtain s' where
      "commit_row (i, n) s = (Ok (rs_start v + n), s')" "kv_inv s'" "settled i (rs_start v + n) s s'" by blast
    with commit_append_partial_row [OF inv Some] True show ?thesis
      by (intro verdict_settle [OF inv Some, of _ _ s' n])
        (auto intro!: lg_CommitPartial simp: kv_ledger_lookup Some)
  next
    case False
    then show ?thesis using Some
      by (intro verdict_Err [of _ _ _ "PartialOutside n (rs_count v)"]) (auto simp: commit_append_partial_def)
  qed
qed

lemma verdict_cancel:
  assumes inv: "kv_inv s"
  shows "kv_verdict chain (KCancel i) s"
proof (cases "reservations s i")
  case None
  then show ?thesis using cancel_append_missing [OF inv] by (auto intro: verdict_Err)
next
  case (Some v)
  from cancel_append_ok [OF inv Some] obtain s' where
    "cancel_append i s = (Ok (), s')" "kv_inv s'" "settled i (rs_start v) s s'" .
  then show ?thesis
    by (intro verdict_settle [OF inv Some, of _ _ s' 0]) (auto intro!: lg_Cancel simp: kv_ledger_lookup Some)
qed

lemma verdict_commit_all:
  assumes inv: "kv_inv s"
  shows "kv_verdict chain (KCommitAll is) s"
proof (cases "distinct is \<and> set is \<subseteq> dom (reservations s)")
  case False
  from commit_appends_err [OF inv this] obtain e where "commit_appends is s = (Err e, s)" ..
  then show ?thesis by (intro verdict_Err) simp
next
  case True
  let ?pos = "map (\<lambda>i. row_position s (full_row s i)) is"
  obtain s' where
    s': "commit_appends is s = (Ok ?pos, s')"
    "kv_inv s'" "kv_ledger s' = lg_settle_rows (map (full_row s) is) (kv_ledger s)" "kv_static s s'"
    by (rule commit_appends_ok [OF inv, of "is"]) (use True in auto)
  have rows: "map (full_row s) is = map (\<lambda>i. (i, snd (snd (the (snd (kv_ledger s) i))))) is"
    using True by (auto simp: full_row_def kv_ledger_lookup)
  have "lg_trans (KCommitAll is) (kv_ledger s)
      (lg_settle_rows (map (\<lambda>i. (i, snd (snd (the (snd (kv_ledger s) i))))) is) (kv_ledger s))"
    using True by (intro lg_CommitAll) (auto simp: kv_ledger_lookup)
  then have "lg_trans (KCommitAll is) (kv_ledger s) (lg_settle_rows (map (full_row s) is) (kv_ledger s))"
    unfolding rows .
  then show ?thesis using s' by (intro verdict_Ok [of _ _ _ s']) (simp_all add: kv_static_def)
qed

lemma verdict_cancel_all:
  assumes inv: "kv_inv s"
  shows "kv_verdict chain (KCancelAll is) s"
proof (cases "distinct is \<and> set is \<subseteq> dom (reservations s)")
  case False
  from cancel_appends_err [OF inv this] obtain e where "cancel_appends is s = (Err e, s)" ..
  then show ?thesis by (intro verdict_Err) simp
next
  case True
  obtain s' where s': "cancel_appends is s = (Ok (), s')" "kv_inv s'"
    "kv_ledger s' = lg_settle_rows (map (\<lambda>r. (r, 0)) is) (kv_ledger s)" "kv_static s s'"
    by (rule cancel_appends_ok [OF inv, of "is"]) (use True in auto)
  have "lg_trans (KCancelAll is) (kv_ledger s) (lg_settle_rows (map (\<lambda>i. (i, 0)) is) (kv_ledger s))"
    using True by (intro lg_CancelAll) (auto simp: kv_ledger_lookup)
  then show ?thesis using s' by (intro verdict_Ok [of _ _ _ s']) (simp_all add: kv_static_def)
qed

lemma verdict_commit_prefixes:
  assumes inv: "kv_inv s"
  shows "kv_verdict chain (KCommitPrefixes rows) s"
proof (cases "rows_ok s rows")
  case False
  from commit_append_prefixes_err [OF inv this] obtain e where "commit_append_prefixes rows s = (Err e, s)" ..
  then show ?thesis by (intro verdict_Err) simp
next
  case True
  obtain s' where s': "commit_append_prefixes rows s = (Ok (map (row_position s) rows), s')" "kv_inv s'"
    "kv_ledger s' = lg_settle_rows rows (kv_ledger s)" "kv_static s s'"
    by (rule commit_append_prefixes_ok [OF inv True])
  have "lg_trans (KCommitPrefixes rows) (kv_ledger s) (lg_settle_rows rows (kv_ledger s))"
  proof (intro lg_CommitPrefixes)
    show "distinct (map fst rows)" using True by (simp add: rows_ok_def)
    show "\<forall>(i, k)\<in>set rows. 0 < k \<and> (\<exists>r st m. snd (kv_ledger s) i = Some (r, st, m) \<and> k \<le> m)"
      using True by (auto simp: rows_ok_def row_ok_def kv_ledger_lookup)
  qed
  then show ?thesis using s' by (intro verdict_Ok [of _ _ _ s']) (simp_all add: kv_static_def)
qed

lemma verdict_remove:
  assumes inv: "kv_inv s"
  shows "kv_verdict chain (KRemove r) s"
proof (cases "\<exists>q. sequences s r = Some q \<and> sq_pending q = None")
  case True
  then obtain q where q: "sequences s r = Some q" "sq_pending q = None" by blast
  from remove_sequence_ok [OF inv q] obtain s' where
    s': "remove_sequence r s = (Ok (), s')" "kv_inv s'" "sequences s' = (sequences s)(r := None)"
      "reservations s' = reservations s" "kv_static s s'" .
  have "kv_ledger s' = lg_remove r (kv_ledger s)"
    using s'(3,4) by (auto simp: kv_ledger_def lg_remove_def)
  moreover have "lg_trans (KRemove r) (kv_ledger s) (lg_remove r (kv_ledger s))"
    using q no_open [OF inv q] by (intro lg_Remove) (simp_all add: kv_ledger_lookup)
  ultimately show ?thesis using s' by (intro verdict_Ok [of _ _ _ s']) (simp_all add: kv_static_def)
next
  case False
  then show ?thesis
    by (cases "sequences s r") (auto intro: verdict_Err simp: remove_sequence_err)
qed

lemma kv_verdict_ok: "kv_inv s \<Longrightarrow> kv_verdict chain c s"
  by (cases c)
    (simp_all add: verdict_create verdict_create_prefix verdict_register verdict_set_caching verdict_begin
      verdict_extend verdict_commit verdict_commit_all verdict_commit_prefixes verdict_commit_partial
      verdict_cancel verdict_cancel_all verdict_remove)

interpretation kvm: invariant_machine "kv_step chain" kv_inv "\<lambda>_ _. True" for chain :: chain_fun
proof
  fix s c assume "kv_inv s"
  from kv_verdict_ok [OF this, of chain c] show "wp (kv_step chain c) (\<lambda>_. kv_inv) (\<lambda>_. kv_inv) s"
    using \<open>kv_inv s\<close> by (auto simp: kv_verdict_def wp_def)
qed

lemma kv_run_machine: "kv_run chain cs s = kvm.run chain cs s"
  by (induction cs arbitrary: s) simp_all

end
