(* ===== verification/PagedKvProps.thy ===== *)
theory PagedKvProps
  imports PagedKvMachine
begin

text \<open>
  The properties of the KV manager: safety of every run, refinement of the ledger,
  conservation and isolation of pages, the reserve/commit/cancel protocol, and what the
  prefix cache reuses. The first sections hold the lemmas on prefix matching and the
  concrete manager on which the properties are instantiated.
\<close>

section \<open>Keys of a prompt's blocks\<close>

fun chain_from :: "chain_fun \<Rightarrow> nat \<Rightarrow> token list \<Rightarrow> nat list \<Rightarrow> chash \<Rightarrow> chash" where
  "chain_from chain bs toks [] h = h"
| "chain_from chain bs toks (b # blocks) h = chain_from chain bs toks blocks (chain h (block_tokens bs toks b))"

definition prefix_key :: "chain_fun \<Rightarrow> nat \<Rightarrow> token list \<Rightarrow> nat \<Rightarrow> block_key" where
  "prefix_key chain bs toks b = (chain_from chain bs toks [0..<b] chain_root, block_tokens bs toks b)"

lemma chain_from_append [simp]:
  "chain_from chain bs toks (xs @ ys) h = chain_from chain bs toks ys (chain_from chain bs toks xs h)"
  by (induction xs arbitrary: h) simp_all

lemma match_pages_spec:
  assumes "h = chain_from chain bs toks [0..<b] chain_root"
  shows "\<exists>k\<le>n. match_pages idx chain bs toks [b..<b + n] h =
      (chain_from chain bs toks [0..<b + k] chain_root, map (\<lambda>j. the (idx (prefix_key chain bs toks j))) [b..<b + k])
    \<and> (\<forall>j. b \<le> j \<and> j < b + k \<longrightarrow> idx (prefix_key chain bs toks j) \<noteq> None)
    \<and> (k < n \<longrightarrow> idx (prefix_key chain bs toks (b + k)) = None)"
  using assms
proof (induction n arbitrary: b h)
  case 0
  then show ?case by auto
next
  case (Suc n)
  have key: "(h, block_tokens bs toks b) = prefix_key chain bs toks b" by (simp add: prefix_key_def Suc.prems)
  have up: "[b..<b + Suc n] = b # [Suc b..<Suc b + n]" by (simp add: upt_conv_Cons del: upt_Suc)
  show ?case
  proof (cases "idx (prefix_key chain bs toks b)")
    case None
    then show ?thesis using Suc.prems key unfolding up by (intro exI [of _ 0]) auto
  next
    case (Some p)
    have "chain h (block_tokens bs toks b) = chain_from chain bs toks [0..<Suc b] chain_root"
      using Suc.prems by simp
    from Suc.IH [OF this] obtain k where k: "k \<le> n"
      "match_pages idx chain bs toks [Suc b..<Suc b + n] (chain h (block_tokens bs toks b)) =
        (chain_from chain bs toks [0..<Suc b + k] chain_root, map (\<lambda>j. the (idx (prefix_key chain bs toks j))) [Suc b..<Suc b + k])"
      "\<forall>j. Suc b \<le> j \<and> j < Suc b + k \<longrightarrow> idx (prefix_key chain bs toks j) \<noteq> None"
      "k < n \<longrightarrow> idx (prefix_key chain bs toks (Suc b + k)) = None" by blast
    have ks: "[b..<b + Suc k] = b # [Suc b..<Suc b + k]" by (simp add: upt_conv_Cons del: upt_Suc)
    have "match_pages idx chain bs toks [b..<b + Suc n] h =
        (chain_from chain bs toks [0..<b + Suc k] chain_root, map (\<lambda>j. the (idx (prefix_key chain bs toks j))) [b..<b + Suc k])"
      unfolding up ks using k(2) key Some by simp
    moreover have "idx (prefix_key chain bs toks j) \<noteq> None" if "b \<le> j" "j < b + Suc k" for j
      using that k(3) Some by (cases "j = b") auto
    ultimately show ?thesis using k(1,4) by (intro exI [of _ "Suc k"]) simp
  qed
qed

lemma register_blocks_index:
  assumes "h = chain_from chain bs toks [0..<b] chain_root" and "b + n \<le> length ps" and "distinct ps"
    and "\<forall>p\<in>set ps. p < length (page_blocks s)"
    and "\<forall>j. b \<le> j \<and> j < length ps \<longrightarrow> page_blocks s ! (ps ! j) = None"
  shows "\<exists>s'. register_blocks chain bs toks ps n b h s = (Ok (b + n, chain_from chain bs toks [0..<b + n] chain_root), s')
     \<and> (\<forall>k. block_index s k \<noteq> None \<longrightarrow> block_index s' k \<noteq> None)
     \<and> (\<forall>j. b \<le> j \<and> j < b + n \<longrightarrow> block_index s' (prefix_key chain bs toks j) \<noteq> None)
     \<and> sequences s' = sequences s \<and> kv_conf s' = kv_conf s \<and> prefix_caching s' = prefix_caching s"
  using assms
proof (induction n arbitrary: b h s)
  case 0
  then show ?case by auto
next
  case (Suc n)
  let ?key = "prefix_key chain bs toks b" and ?p = "ps ! b"
  have key: "(h, block_tokens bs toks b) = ?key" by (simp add: prefix_key_def Suc.prems)
  let ?s1 = "if block_index s ?key = None \<and> page_blocks s ! ?p = None
             then s\<lparr>block_index := (block_index s)(?key \<mapsto> ?p),
                    page_blocks := (page_blocks s)[?p := Some \<lparr>cb_key = ?key, cb_tick = None\<rparr>]\<rparr> else s"
  have b: "b < length ps" "?p < length (page_blocks s)" "page_blocks s ! ?p = None"
    using Suc.prems(2,4,5) by auto
  have step: "register_blocks chain bs toks ps (Suc n) b h s =
      register_blocks chain bs toks ps n (Suc b) (chain h (block_tokens bs toks b)) ?s1"
    using b(1,2) by (simp add: Let_def key)
  have c: "chain h (block_tokens bs toks b) = chain_from chain bs toks [0..<Suc b] chain_root"
    using Suc.prems(1) by simp
  have l: "Suc b + n \<le> length ps" using Suc.prems(2) by simp
  have r: "\<forall>p\<in>set ps. p < length (page_blocks ?s1)" using Suc.prems(4) by simp
  have u: "\<forall>j. Suc b \<le> j \<and> j < length ps \<longrightarrow> page_blocks ?s1 ! (ps ! j) = None"
  proof (intro allI impI)
    fix j assume j: "Suc b \<le> j \<and> j < length ps"
    then have "ps ! j \<noteq> ?p" using Suc.prems(3) b(1) by (simp add: nth_eq_iff_index_eq)
    then show "page_blocks ?s1 ! (ps ! j) = None" using Suc.prems(5) j by auto
  qed
  from Suc.IH [OF c l Suc.prems(3) r u] obtain s' where s':
    "register_blocks chain bs toks ps n (Suc b) (chain h (block_tokens bs toks b)) ?s1 =
       (Ok (Suc b + n, chain_from chain bs toks [0..<Suc b + n] chain_root), s')"
    "\<forall>k. block_index ?s1 k \<noteq> None \<longrightarrow> block_index s' k \<noteq> None"
    "\<forall>j. Suc b \<le> j \<and> j < Suc b + n \<longrightarrow> block_index s' (prefix_key chain bs toks j) \<noteq> None"
    "sequences s' = sequences ?s1" "kv_conf s' = kv_conf ?s1" "prefix_caching s' = prefix_caching ?s1" by blast
  have now: "block_index ?s1 ?key \<noteq> None" using b(3) by simp
  have "block_index s' (prefix_key chain bs toks j) \<noteq> None" if "b \<le> j" "j < b + Suc n" for j
  proof (cases "j = b")
    case True
    then show ?thesis using s'(2) now by blast
  next
    case False
    then show ?thesis using that s'(3) by simp
  qed
  moreover have "block_index s' k \<noteq> None" if "block_index s k \<noteq> None" for k
  proof -
    have "block_index ?s1 k \<noteq> None" using that by simp
    then show ?thesis using s'(2) by blast
  qed
  moreover have "sequences s' = sequences s" "kv_conf s' = kv_conf s" "prefix_caching s' = prefix_caching s"
    using s'(4-6) by simp_all
  ultimately show ?case unfolding step using s'(1) by (intro exI [of _ s']) simp
qed

section \<open>A concrete manager\<close>

definition demo_chain :: chain_fun where
  "demo_chain h toks = h * 31 + word_of_int (sum_list toks)"

definition demo_conf :: kv_config where
  "demo_conf = \<lparr>block_size = 2, num_pages = 4, max_sequence_length = 8\<rparr>"

definition demo_fresh :: kv_manager where
  "demo_fresh = \<lparr>kv_conf = demo_conf, free_pages = {0, 1, 2, 3}, page_refs = [0, 0, 0, 0],
     page_blocks = [None, None, None, None], block_index = Map.empty, evictable = Map.empty,
     next_tick = 0, prefix_caching = False, reused_tokens = 0, sequences = Map.empty,
     reservations = Map.empty, next_reservation = 1\<rparr>"

lemma replicate_four: "replicate 4 x = [x, x, x, x]"
  by (simp add: numeral_eq_Suc)

lemma demo_new: "kv_new demo_conf = Ok demo_fresh"
proof -
  have "{0..<4} = {0, 1, 2, 3::nat}" by auto
  then show ?thesis
    by (simp add: replicate_four kv_new_def demo_fresh_def demo_conf_def config_validate_def u32_max_def)
qed

lemma demo_small: "n \<le> 1000 \<Longrightarrow> n \<le> usize_max"
  by (simp add: usize_max_def)

lemma kv_run_inv: "kv_new c = Ok s0 \<Longrightarrow> max_sequence_length c \<le> usize_max \<Longrightarrow> kv_inv (kv_run chain cs s0)"
  by (simp add: kv_run_machine kvm.run_inv kvm.legal_always kv_new_ok(1))

lemma demo_inv: "kv_inv (kv_run demo_chain cs demo_fresh)"
  by (rule kv_run_inv [OF demo_new]) (simp add: demo_conf_def demo_small)

lemma demo_conf_kept: "kv_conf (kv_run chain cs s) = kv_conf s" if "kv_inv s"
  using that
proof (induction cs arbitrary: s)
  case (Cons c cs)
  from kv_verdict_ok [OF Cons.prems, of chain c] Cons.prems
  have "kv_inv (snd (kv_step chain c s))" "kv_conf (snd (kv_step chain c s)) = kv_conf s"
    by (auto simp: kv_verdict_def)
  with Cons.IH show ?case by simp
qed simp

text \<open>One request with three of its eight tokens committed, in two pages, caching enabled.\<close>

definition demo_cmds :: "kv_cmd list" where
  "demo_cmds = [KSetCaching True, KCreate 1, KBegin 1 3, KCommit 1]"

definition demo_state :: kv_manager where
  "demo_state = \<lparr>kv_conf = demo_conf, free_pages = {2, 3}, page_refs = [1, 1, 0, 0],
     page_blocks = [None, None, None, None], block_index = Map.empty, evictable = Map.empty,
     next_tick = 0, prefix_caching = True, reused_tokens = 0,
     sequences = [1 \<mapsto> \<lparr>sq_committed = 3, sq_pages = [0, 1], sq_pending = None, sq_registered = 0,
                       sq_hash = chain_root\<rparr>],
     reservations = Map.empty, next_reservation = 2\<rparr>"

lemmas kv_eval = set_prefix_caching_def create_sequence_def begin_append_def sequence_def bind_op_def
  usize_max_def Let_def available_pages_def div_ceil_def checked_add_def allocate_page_def take_page_def
  validate_reservation_def take_reservation_def commit_append_def ignore_def can_append_def

lemma demo_run: "kv_run demo_chain demo_cmds demo_fresh = demo_state"
proof -
  have two: "allocate_pages 2 s = bind_op allocate_page (\<lambda>p. bind_op (bind_op allocate_page (\<lambda>p. ret_op [p])) (\<lambda>ps. ret_op (p # ps))) s" for s
    by (simp add: numeral_2_eq_2 bind_op_def cong: prod.case_cong res.case_cong split: prod.splits res.splits)
  show ?thesis
    by (simp add: demo_cmds_def demo_fresh_def demo_state_def demo_conf_def kv_eval two fun_eq_iff insert_Diff_if)
qed

lemma demo_state_inv: "kv_inv demo_state"
  using demo_inv [of demo_cmds] by (simp add: demo_run)

section \<open>Runs\<close>

text \<open>
  C1: From a freshly validated configuration, any sequence of commands (create, map a
  prefix, register, toggle caching, begin, extend, commit, partial and grouped commits,
  cancel, remove), including those that fail, leads to a state in which the page accounting
  and the reservations agree, and the next command does not panic: no \<open>expect\<close>, index,
  debug assertion or reference count underflow of the file is reachable.
\<close>

theorem kv_runs_safe:
  assumes "kv_new c = Ok s0" and "max_sequence_length c \<le> usize_max"
  shows "kv_inv (kv_run chain cs s0) \<and> fst (kv_step chain d (kv_run chain cs s0)) \<noteq> Panic"
  using kvm.run_inv [OF kv_new_ok(1) [OF assms] kvm.legal_always]
    kvm.step_no_panic [of "kv_run chain cs s0" chain d]
  by (simp add: kv_run_machine)

lemma kv_runs_safe_witness:
  "kv_inv (kv_run demo_chain demo_cmds demo_fresh) \<and>
   fst (kv_step demo_chain (KCancelAll [1, 1]) (kv_run demo_chain demo_cmds demo_fresh)) \<noteq> Panic"
  by (rule kv_runs_safe [OF demo_new]) (simp add: demo_conf_def demo_small)

text \<open>
  C2: Refinement. A command that succeeds keeps the invariant and changes the ledger of
  committed tokens and open reservations as the reserve/commit/cancel protocol prescribes;
  a command that fails leaves the whole manager exactly as it was, so every operation,
  the grouped ones included, is atomic.
\<close>

theorem kv_refines_ledger:
  assumes "kv_inv s"
  shows "case kv_step chain c s of
      (Ok _, s') \<Rightarrow> kv_inv s' \<and> lg_trans c (kv_ledger s) (kv_ledger s')
    | (Err e, s') \<Rightarrow> s' = s
    | (Panic, s') \<Rightarrow> False"
  using kv_verdict_ok [OF assms, of chain c] by (auto simp: kv_verdict_def)

lemma kv_refines_ledger_witness:
  "case kv_step demo_chain (KBegin 1 5) demo_state of
      (Ok _, s') \<Rightarrow> kv_inv s' \<and> lg_trans (KBegin 1 5) (kv_ledger demo_state) (kv_ledger s')
    | (Err e, s') \<Rightarrow> s' = demo_state
    | (Panic, s') \<Rightarrow> False"
  by (rule kv_refines_ledger [OF demo_state_inv])

section \<open>Pages\<close>

lemma kv_pages_total:
  assumes "kv_inv s"
  shows "available_pages s + card (\<Union>q\<in>ran (sequences s). set (sq_pages q)) = num_pages (kv_conf s)"
proof -
  let ?n = "num_pages (kv_conf s)" and ?used = "\<Union>q\<in>ran (sequences s). set (sq_pages q)"
  have ro: "refs_ok [] s" and inv: "pool_inv [] s" using assms by (auto simp: kv_inv_def pool_inv_def)
  have fin: "finite (dom (sequences s))" by (rule kv_inv_finite(1) [OF assms])
  have used: "p \<in> ?used \<longleftrightarrow> 0 < seq_refs (sequences s) p" for p
    using seq_refs_pos [of "sequences s" p] seq_refs_mem [OF fin, of _ _ p] by (auto simp: ran_def)
  have sub: "?used \<subseteq> {..<?n}" using ro unfolding refs_ok_def ran_def by blast
  have "{p. p < ?n \<and> page_refs s ! p = 0} = {..<?n} - ?used"
  proof (intro set_eqI)
    fix p
    have "p < ?n \<Longrightarrow> page_refs s ! p = seq_refs (sequences s) p" using ro by (simp add: refs_ok_def)
    then show "p \<in> {p. p < ?n \<and> page_refs s ! p = 0} \<longleftrightarrow> p \<in> {..<?n} - ?used"
      using used [of p] by (simp del: UN_iff) auto
  qed
  then have "available_pages s = card ({..<?n} - ?used)" by (simp add: available_eq [OF inv])
  also have "\<dots> = ?n - card ?used" using sub by (simp add: card_Diff_subset finite_subset)
  finally show ?thesis using card_mono [OF _ sub] by simp
qed

text \<open>
  Conservation. The pages that can be allocated and the pages that occur in some
  block table always add up to the configured number of pages: none is lost, none is both
  allocatable and in use.
\<close>

theorem kv_pages_conserved:
  assumes "kv_inv s"
  shows "available_pages s + card (\<Union>q\<in>ran (sequences s). set (sq_pages q)) = num_pages (kv_conf s)"
  by (rule kv_pages_total [OF assms])

lemma kv_pages_conserved_witness:
  "available_pages demo_state + card (\<Union>q\<in>ran (sequences demo_state). set (sq_pages q)) = num_pages (kv_conf demo_state)"
  by (rule kv_pages_conserved [OF demo_state_inv])

section \<open>Reserving, committing, cancelling\<close>

text \<open>
  Admission. \<open>can_append\<close> is exact: when it answers yes, \<open>begin_append\<close> succeeds (as
  long as reservation identifiers last), otherwise \<open>begin_append\<close> fails and changes nothing.
  The reservation starts at the committed length, its table extends the sequence's table
  by fresh, unshared pages and covers all its tokens with no page to spare.
\<close>

theorem kv_admission_exact:
  assumes "kv_inv s" and "next_reservation s < usize_max"
  shows "if can_append r n s = (Ok True, s)
    then \<exists>a s'. begin_append r n s = (Ok a, s') \<and> fst (kv_ledger s) r = Some (ar_start a)
      \<and> ar_context a = ar_start a + n
      \<and> length (ar_table a) = div_ceil (ar_context a) (block_size (kv_conf s))
      \<and> (\<exists>q. sequences s r = Some q \<and> ar_table a = sq_pages q @ ar_new_pages a)
      \<and> distinct (ar_new_pages a) \<and> (\<forall>p\<in>set (ar_new_pages a). page_refs s ! p = 0 \<and> page_refs s' ! p = 1)
      \<and> available_pages s = available_pages s' + length (ar_new_pages a)
    else \<exists>e. begin_append r n s = (Err e, s)"
proof (cases "can_append r n s = (Ok True, s)")
  case True
  then obtain q where q: "0 < n" "sequences s r = Some q" "sq_pending q = None"
    "sq_committed q + n \<le> max_sequence_length (kv_conf s)"
    "div_ceil (sq_committed q + n) (block_size (kv_conf s)) - length (sq_pages q) \<le> available_pages s"
    unfolding can_append_iff by blast
  obtain new s' where s': "begin_append r n s = (Ok \<lparr>ar_id = next_reservation s, ar_request = r,
        ar_start = sq_committed q, ar_count = n, ar_context = sq_committed q + n,
        ar_new_pages = new, ar_table = sq_pages q @ new\<rparr>, s')"
    "length (sq_pages q @ new) = div_ceil (sq_committed q + n) (block_size (kv_conf s))" "distinct new"
    "\<forall>p\<in>set new. page_refs s ! p = 0 \<and> fresh_page s' p" "available_pages s = available_pages s' + length new"
    by (rule begin_append_ok [OF assms(1) q(2,3,1,4,5) assms(2)])
  show ?thesis
    using True s' q(2) by (simp add: kv_ledger_lookup fresh_page_def)
next
  case False
  then show ?thesis using begin_append_err [of r n s] by simp
qed

lemma kv_admission_exact_witness:
  "if can_append 1 4 demo_state = (Ok True, demo_state)
    then \<exists>a s'. begin_append 1 4 demo_state = (Ok a, s') \<and> fst (kv_ledger demo_state) 1 = Some (ar_start a)
      \<and> ar_context a = ar_start a + 4
      \<and> length (ar_table a) = div_ceil (ar_context a) (block_size (kv_conf demo_state))
      \<and> (\<exists>q. sequences demo_state 1 = Some q \<and> ar_table a = sq_pages q @ ar_new_pages a)
      \<and> distinct (ar_new_pages a)
      \<and> (\<forall>p\<in>set (ar_new_pages a). page_refs demo_state ! p = 0 \<and> page_refs s' ! p = 1)
      \<and> available_pages demo_state = available_pages s' + length (ar_new_pages a)
    else \<exists>e. begin_append 1 4 demo_state = (Err e, demo_state)"
  by (rule kv_admission_exact [OF demo_state_inv]) (simp add: demo_state_def usize_max_def)

text \<open>
  Round trip. Cancelling a reservation right after it was made gives back exactly the
  block tables, committed lengths and open reservations of before, and as many pages.
\<close>

theorem kv_begin_cancel_roundtrip:
  assumes "kv_inv s" and "begin_append r n s = (Ok a, s1)"
  shows "\<exists>s2. cancel_append (ar_id a) s1 = (Ok (), s2) \<and> kv_inv s2 \<and> sequences s2 = sequences s
    \<and> reservations s2 = reservations s \<and> available_pages s2 = available_pages s"
proof (rule begin_append_cases [OF assms(1), of r n])
  fix e assume "begin_append r n s = (Err e, s)"
  then show ?thesis using assms(2) by simp
next
  fix q :: sequence_state and new t
  let ?i = "next_reservation s"
  let ?v = "\<lparr>rs_request = r, rs_previous = length (sq_pages q), rs_start = sq_committed q, rs_count = n\<rparr>"
  assume q: "sequences s r = Some q" "sq_pending q = None"
    and run: "begin_append r n s = (Ok \<lparr>ar_id = ?i, ar_request = r,
        ar_start = sq_committed q, ar_count = n, ar_context = sq_committed q + n,
        ar_new_pages = new, ar_table = sq_pages q @ new\<rparr>, t)" and inv: "kv_inv t"
    and seqs: "sequences t = (sequences s)(r \<mapsto> q\<lparr>sq_pages := sq_pages q @ new, sq_pending := Some ?i\<rparr>)"
    and res: "reservations t = (reservations s)(?i \<mapsto> ?v)" and conf: "kv_conf t = kv_conf s"
  have v: "reservations t ?i = Some ?v" using res by simp
  obtain s2 where s2: "cancel_append ?i t = (Ok (), s2)" "kv_inv s2" "settled ?i (rs_start ?v) t s2"
    by (rule cancel_append_ok [OF inv v])
  have len: "div_ceil (sq_committed q) (block_size (kv_conf s)) = length (sq_pages q)"
    using kv_inv_pending_None [OF assms(1) q] by simp
  have none: "reservations s ?i = None" using kv_inv_fresh [OF assms(1), of ?i] by (cases "reservations s ?i") auto
  have "q\<lparr>sq_pages := sq_pages q, sq_committed := sq_committed q, sq_pending := None\<rparr> = q"
    using q(2) by (cases q) simp
  then have seq2: "sequences s2 = sequences s" and "reservations s2 = reservations s" and "kv_conf s2 = kv_conf s"
    using s2(3) v seqs res none q(1) len conf by (auto simp: settled_def fun_eq_iff)
  moreover have "available_pages s2 = available_pages s"
    using kv_pages_total [OF s2(2)] kv_pages_total [OF assms(1)] seq2 \<open>kv_conf s2 = kv_conf s\<close> by simp
  moreover have "a = \<lparr>ar_id = ?i, ar_request = r, ar_start = sq_committed q, ar_count = n,
      ar_context = sq_committed q + n, ar_new_pages = new, ar_table = sq_pages q @ new\<rparr>" "s1 = t"
    using run assms(2) by simp_all
  ultimately show ?thesis using s2 by simp
qed

lemma kv_begin_cancel_roundtrip_witness:
  "\<exists>a s1 s2. begin_append 1 4 demo_state = (Ok a, s1) \<and> cancel_append (ar_id a) s1 = (Ok (), s2)
     \<and> sequences s2 = sequences demo_state \<and> available_pages s2 = 2"
proof -
  have can: "can_append 1 4 demo_state = (Ok True, demo_state)"
    by (simp add: demo_state_def demo_conf_def kv_eval)
  then obtain a s1 where a: "begin_append 1 4 demo_state = (Ok a, s1)"
    by (rule_tac begin_append_cases [OF demo_state_inv, of 1 4]) (auto simp: demo_state_def usize_max_def)
  have "available_pages demo_state = 2" by (simp add: demo_state_def available_pages_def)
  with a kv_begin_cancel_roundtrip [OF demo_state_inv a] show ?thesis by auto
qed

text \<open>
  C4: Equivalence of the three commits. A partial commit is the grouped commit of one row,
  and a whole commit is the partial commit of all the reservation's tokens: same positions,
  same pages released, same final state.
\<close>

theorem kv_commits_agree:
  assumes "kv_inv s" and "reservations s i = Some v" and "0 < n" "n \<le> rs_count v"
  shows "map_op (\<lambda>(i, n). commit_append_partial i n) [(i, n)] s = commit_append_prefixes [(i, n)] s
    \<and> commit_append i s = commit_append_partial i (rs_count v) s
    \<and> (\<exists>s' q. commit_append_partial i n s = (Ok (rs_start v + n), s') \<and> kv_inv s'
        \<and> sequences s' (rs_request v) = Some q \<and> sq_committed q = rs_start v + n \<and> sq_pending q = None
        \<and> length (sq_pages q) = div_ceil (rs_start v + n) (block_size (kv_conf s)))"
proof (intro conjI)
  have cnt: "0 < rs_count v" using assms(3,4) by simp
  obtain s' where s': "commit_row (i, n) s = (Ok (rs_start v + n), s')" "kv_inv s'" "settled i (rs_start v + n) s s'"
    by (rule commit_row_ok [OF assms])
  have row: "commit_append_partial i n s = commit_row (i, n) s" by (rule commit_append_partial_row [OF assms])
  have "validate_reservations [i] s = (Ok (), s)"
    using validate_reservations_cases [OF assms(1), of "[i]"] assms(2) by auto
  then have "commit_append_prefixes [(i, n)] s = map_op commit_row [(i, n)] s"
    using assms(2-4) by (simp add: commit_append_prefixes_def)
  then show "map_op (\<lambda>(i, n). commit_append_partial i n) [(i, n)] s = commit_append_prefixes [(i, n)] s"
    using row s'(1) by simp
  show "commit_append i s = commit_append_partial i (rs_count v) s"
    using commit_append_row [OF assms(1,2)] commit_append_partial_row [OF assms(1,2) cnt] by simp
  obtain w q where "reservations s i = Some w" "sequences s (rs_request w) = Some q"
    and seqs: "sequences s' = (sequences s)(rs_request w \<mapsto>
        q\<lparr>sq_pages := take (div_ceil (rs_start v + n) (block_size (kv_conf s))) (sq_pages q),
          sq_committed := rs_start v + n, sq_pending := None\<rparr>)" and conf: "kv_conf s' = kv_conf s"
    using s'(3) unfolding settled_def by blast
  then have q': "sequences s' (rs_request v) = Some (q\<lparr>sq_pages := take (div_ceil (rs_start v + n) (block_size (kv_conf s))) (sq_pages q),
          sq_committed := rs_start v + n, sq_pending := None\<rparr>)" using assms(2) by simp
  from kv_inv_pending_None [OF s'(2) q'] conf q' s'(1,2) row
  show "\<exists>s' q. commit_append_partial i n s = (Ok (rs_start v + n), s') \<and> kv_inv s'
        \<and> sequences s' (rs_request v) = Some q \<and> sq_committed q = rs_start v + n \<and> sq_pending q = None
        \<and> length (sq_pages q) = div_ceil (rs_start v + n) (block_size (kv_conf s))"
    by simp
qed

text \<open>The concrete manager with four more tokens reserved.\<close>

definition demo_open :: kv_manager where
  "demo_open = snd (kv_step demo_chain (KBegin 1 4) demo_state)"

lemma demo_open_inv: "kv_inv demo_open"
  using kv_verdict_ok [OF demo_state_inv, of demo_chain "KBegin 1 4"] demo_state_inv
  by (auto simp: demo_open_def kv_verdict_def)

lemma demo_open_reservation:
  "reservations demo_open 2 = Some \<lparr>rs_request = 1, rs_previous = 2, rs_start = 3, rs_count = 4\<rparr>"
proof -
  have two: "allocate_pages 2 s = bind_op allocate_page (\<lambda>p. bind_op (bind_op allocate_page (\<lambda>p. ret_op [p])) (\<lambda>ps. ret_op (p # ps))) s" for s
    by (simp add: numeral_2_eq_2 bind_op_def cong: prod.case_cong res.case_cong split: prod.splits res.splits)
  show ?thesis
    by (simp add: demo_open_def demo_state_def demo_conf_def kv_eval two fun_eq_iff insert_Diff_if)
qed

lemma kv_commits_agree_witness:
  "\<exists>s' q. commit_append_partial 2 3 demo_open = (Ok 6, s') \<and> sequences s' 1 = Some q
     \<and> sq_committed q = 6 \<and> length (sq_pages q) = 3"
proof -
  have conf: "kv_conf demo_open = demo_conf"
    using kv_verdict_ok [OF demo_state_inv, of demo_chain "KBegin 1 4"]
    by (auto simp: demo_open_def kv_verdict_def demo_state_def)
  show ?thesis
    using kv_commits_agree [OF demo_open_inv demo_open_reservation, of 3]
    by (auto simp: conf demo_conf_def div_ceil_def)
qed

section \<open>Who may write a page\<close>

text \<open>
  C3: Write isolation. After any sequence of commands from a fresh manager (reservations,
  prefix reuse and publication, eviction, partial commits, cancellations, removals), every token
  position that an open reservation lets its caller write has a page in the block table of its
  request, and that page is private: it occurs nowhere else in any block table, is referenced
  once, is neither free nor published in the prefix cache, so no other request reads it and no
  later prompt is given it. Conversely a page that occurs at two places of the block tables lies,
  at both, in a block all of whose tokens are committed.
\<close>

theorem kv_write_isolation:
  assumes "kv_new c = Ok s0" and "max_sequence_length c \<le> usize_max" and "kv_run chain cs s0 = s"
  shows "(\<forall>i v pos. reservations s i = Some v \<and> rs_start v \<le> pos \<and> pos < rs_start v + rs_count v \<longrightarrow>
      (\<exists>q j p. sequences s (rs_request v) = Some q \<and> j = pos div block_size c \<and> j < length (sq_pages q)
         \<and> p = sq_pages q ! j \<and> page_refs s ! p = 1 \<and> p \<notin> free_pages s \<and> (\<forall>key. block_index s key \<noteq> Some p)
         \<and> (\<forall>r' q' j'. sequences s r' = Some q' \<and> j' < length (sq_pages q') \<and> sq_pages q' ! j' = p \<longrightarrow>
              r' = rs_request v \<and> j' = j)))
    \<and> (\<forall>r q j r' q' j'. sequences s r = Some q \<and> j < length (sq_pages q) \<and> sequences s r' = Some q'
         \<and> j' < length (sq_pages q') \<and> sq_pages q ! j = sq_pages q' ! j' \<and> (r, j) \<noteq> (r', j') \<longrightarrow>
         Suc j * block_size c \<le> sq_committed q)"
proof -
  have inv: "kv_inv s"
    using kvm.run_inv [OF kv_new_ok(1) [OF assms(1,2)] kvm.legal_always, of chain cs] assms(3)
    by (simp add: kv_run_machine)
  have conf: "kv_conf s = c"
    using demo_conf_kept [OF kv_new_ok(1) [OF assms(1,2)], of chain cs] kv_new_ok(2) [OF assms(1,2)] assms(3) by simp
  have pool: "pool_inv [] s" and tl: "tail_ok s" and cache: "cache_ok s" and free: "free_ok s"
    using inv by (auto simp: kv_inv_def pool_inv_def)
  have bs: "0 < block_size c" using kv_inv_conf(1) [OF inv] conf by simp
  have own: "\<exists>q j p. sequences s (rs_request v) = Some q \<and> j = pos div block_size c \<and> j < length (sq_pages q)
         \<and> p = sq_pages q ! j \<and> page_refs s ! p = 1 \<and> p \<notin> free_pages s \<and> (\<forall>key. block_index s key \<noteq> Some p)
         \<and> (\<forall>r' q' j'. sequences s r' = Some q' \<and> j' < length (sq_pages q') \<and> sq_pages q' ! j' = p \<longrightarrow>
              r' = rs_request v \<and> j' = j)"
    if v: "reservations s i = Some v" and pos: "rs_start v \<le> pos" "pos < rs_start v + rs_count v" for i v pos
  proof -
    obtain q where q: "sequences s (rs_request v) = Some q" "rs_start v = sq_committed q"
      "length (sq_pages q) = div_ceil (sq_committed q + rs_count v) (block_size c)"
      by (rule kv_inv_reservation [OF inv v]) (use conf in auto)
    let ?j = "pos div block_size c"
    let ?p = "sq_pages q ! ?j"
    have j: "sq_committed q div block_size (kv_conf s) \<le> ?j" "?j < length (sq_pages q)"
      using pos q(2,3) bs conf by (simp_all add: div_le_mono less_div_ceil)
    have page: "page_blocks s ! ?p = None" "page_refs s ! ?p = 1" using tail_okD [OF tl q(1) j] by auto
    have "\<forall>key. block_index s key \<noteq> Some ?p" using cache page(1) by (simp add: cache_ok_def)
    moreover have "?p \<notin> free_pages s" using free page(2) unfolding free_ok_def by fastforce
    moreover have "r' = rs_request v \<and> j' = ?j"
      if "sequences s r' = Some q'" "j' < length (sq_pages q')" "sq_pages q' ! j' = ?p" for r' q' j'
      by (rule tail_unique [OF pool that(1,2) q(1) j that(3)])
    ultimately show ?thesis using q(1) j(2) page(2) by blast
  qed
  have shared: "Suc j * block_size c \<le> sq_committed q"
    if p: "sequences s r = Some q" "j < length (sq_pages q)" "sequences s r' = Some q'" "j' < length (sq_pages q')"
      "sq_pages q ! j = sq_pages q' ! j'" "(r, j) \<noteq> (r', j')" for r q j r' q' j'
  proof (rule ccontr)
    assume "\<not> Suc j * block_size c \<le> sq_committed q"
    then have "sq_committed q div block_size (kv_conf s) \<le> j"
      using bs conf by (simp add: less_mult_imp_div_less less_Suc_eq_le [symmetric])
    from tail_unique [OF pool p(3,4,1) this p(2)] p(5,6) show False by auto
  qed
  show ?thesis using own shared by blast
qed

lemma kv_write_isolation_witness:
  "\<exists>q. sequences demo_open 1 = Some q \<and> page_refs demo_open ! (sq_pages q ! 3) = 1
     \<and> (\<forall>key. block_index demo_open key \<noteq> Some (sq_pages q ! 3))"
proof -
  have "kv_run demo_chain (demo_cmds @ [KBegin 1 4]) demo_fresh = demo_open"
    using demo_run by (simp add: kv_run_machine kvm.run_append demo_open_def)
  note claim = conjunct1 [OF kv_write_isolation [OF demo_new _ this]]
  have "max_sequence_length demo_conf \<le> usize_max" by (simp add: demo_conf_def demo_small)
  from claim [OF this, rule_format, of 2 _ 6] demo_open_reservation show ?thesis by (auto simp: demo_conf_def)
qed

section \<open>What the prefix cache reuses\<close>

lemma longest_prefix:
  assumes "kv_inv s" and "sequences s r = None" and "prefix_caching s"
  shows "\<exists>k s' q. create_sequence_with_prefix chain r toks s = (Ok (k * block_size (kv_conf s)), s')
    \<and> sequences s' r = Some q \<and> sq_committed q = k * block_size (kv_conf s)
    \<and> sq_pages q = map (\<lambda>b. the (block_index s (prefix_key chain (block_size (kv_conf s)) toks b))) [0..<k]
    \<and> k \<le> (length toks - 1) div block_size (kv_conf s)
    \<and> (\<forall>b<k. block_index s (prefix_key chain (block_size (kv_conf s)) toks b) \<noteq> None)
    \<and> (k < (length toks - 1) div block_size (kv_conf s) \<longrightarrow>
         block_index s (prefix_key chain (block_size (kv_conf s)) toks k) = None)"
proof -
  let ?bs = "block_size (kv_conf s)" and ?n = "usable_blocks s toks"
  obtain k where k: "k \<le> ?n"
    "match_pages (block_index s) chain ?bs toks [0..<0 + ?n] chain_root =
      (chain_from chain ?bs toks [0..<0 + k] chain_root,
       map (\<lambda>j. the (block_index s (prefix_key chain ?bs toks j))) [0..<0 + k])"
    "\<forall>j. 0 \<le> j \<and> j < 0 + k \<longrightarrow> block_index s (prefix_key chain ?bs toks j) \<noteq> None"
    "k < ?n \<longrightarrow> block_index s (prefix_key chain ?bs toks (0 + k)) = None"
    using match_pages_spec [of chain_root chain ?bs toks 0 ?n "block_index s"] by auto
  have n: "?n = (length toks - 1) div ?bs" using assms(3) by (simp add: usable_blocks_def)
  have cp: "snd (cached_prefix chain s toks) = map (\<lambda>j. the (block_index s (prefix_key chain ?bs toks j))) [0..<k]"
    using k(2) by (simp add: cached_prefix_def)
  obtain s' where "create_sequence_with_prefix chain r toks s =
       (Ok (length (snd (cached_prefix chain s toks)) * ?bs), s')"
    "sequences s' = (sequences s)(r \<mapsto>
       \<lparr>sq_committed = length (snd (cached_prefix chain s toks)) * ?bs,
        sq_pages = snd (cached_prefix chain s toks), sq_pending = None,
        sq_registered = length (snd (cached_prefix chain s toks)),
        sq_hash = fst (cached_prefix chain s toks)\<rparr>)"
    by (rule create_sequence_with_prefix_ok [OF assms(1,2)])
  then show ?thesis using k(1,3,4) n cp by (intro exI [of _ k] exI [of _ s']) simp
qed

text \<open>
  Longest prefix. A new sequence maps the pages of the first \<open>k\<close> blocks of its prompt
  where every one of them is published under the hash of the blocks before it, and \<open>k\<close> is
  the largest such number that leaves at least one token of the prompt to compute.
\<close>

theorem kv_longest_prefix:
  assumes "kv_inv s" and "sequences s r = None" and "prefix_caching s"
  shows "\<exists>k s' q. create_sequence_with_prefix chain r toks s = (Ok (k * block_size (kv_conf s)), s')
    \<and> sequences s' r = Some q \<and> sq_committed q = k * block_size (kv_conf s)
    \<and> sq_pages q = map (\<lambda>b. the (block_index s (prefix_key chain (block_size (kv_conf s)) toks b))) [0..<k]
    \<and> k \<le> (length toks - 1) div block_size (kv_conf s)
    \<and> (\<forall>b<k. block_index s (prefix_key chain (block_size (kv_conf s)) toks b) \<noteq> None)
    \<and> (k < (length toks - 1) div block_size (kv_conf s) \<longrightarrow>
         block_index s (prefix_key chain (block_size (kv_conf s)) toks k) = None)"
  using assms by (rule longest_prefix)

lemma kv_longest_prefix_witness:
  "\<exists>k s' q. create_sequence_with_prefix demo_chain 2 [7, 8, 9] demo_state = (Ok (k * 2), s')
    \<and> sequences s' 2 = Some q \<and> sq_committed q = k * 2 \<and> k = 0"
proof -
  have "sequences demo_state 2 = None" "prefix_caching demo_state" by (simp_all add: demo_state_def)
  from kv_longest_prefix [OF demo_state_inv this, of demo_chain "[7, 8, 9]"] show ?thesis
    by (auto simp: demo_state_def demo_conf_def) (metis gr0I)
qed

text \<open>
  Reuse. Once a request with an unpublished block table has registered a prompt it has
  committed, a new request with the same prompt finds every block of it that can be reused:
  all the full blocks before the last token, whatever the hash function is.
\<close>

theorem kv_registered_prefix_reused:
  assumes "kv_inv s" and "prefix_caching s" and "sequences s r = Some q"
    and "sq_registered q = 0" "sq_hash q = chain_root" "distinct (sq_pages q)"
    and "\<forall>p\<in>set (sq_pages q). page_blocks s ! p = None"
    and "length toks \<le> sq_committed q" and "sequences s r' = None"
  shows "\<exists>s1 s2. register_prefix chain r toks s = (Ok (), s1)
    \<and> create_sequence_with_prefix chain r' toks s1 =
       (Ok ((length toks - 1) div block_size (kv_conf s) * block_size (kv_conf s)), s2)"
proof -
  let ?bs = "block_size (kv_conf s)" and ?n = "length toks div block_size (kv_conf s)"
  have "?n \<le> sq_committed q div ?bs" using assms(8) by (rule div_le_mono)
  also have "\<dots> \<le> length (sq_pages q)" by (rule committed_within [OF assms(1,3)])
  finally have n: "0 + ?n \<le> length (sq_pages q)" by simp
  have inv: "pool_inv [] s" using assms(1) by (simp add: kv_inv_def)
  have range: "\<forall>p\<in>set (sq_pages q). p < length (page_blocks s)"
    using inv assms(3) unfolding pool_inv_def refs_ok_def by (auto simp: cache_len)
  have clear: "\<forall>j. 0 \<le> j \<and> j < length (sq_pages q) \<longrightarrow> page_blocks s ! (sq_pages q ! j) = None"
    using assms(7) by simp
  obtain t h where t: "register_blocks chain ?bs toks (sq_pages q) ?n 0 chain_root s = (Ok (?n, h), t)"
    "\<forall>j < ?n. block_index t (prefix_key chain ?bs toks j) \<noteq> None"
    "sequences t = sequences s" "kv_conf t = kv_conf s" "prefix_caching t = prefix_caching s"
    using register_blocks_index [OF _ n assms(6) range clear, of chain_root chain ?bs toks] by auto
  let ?s1 = "t\<lparr>sequences := (sequences t)(r \<mapsto> q\<lparr>sq_registered := ?n, sq_hash := h\<rparr>)\<rparr>"
  have reg: "register_prefix chain r toks s = (Ok (), ?s1)"
    using assms(2-5,8) t(1,3) by (simp add: register_prefix_def sequence_def bind_op_def Let_def min_absorb2)
  have inv1: "kv_inv ?s1"
    by (rule register_prefix_cases [OF assms(1), of chain r toks]) (use reg assms(1,2) in auto)
  have new: "sequences ?s1 r' = None" using assms(3,9) t(3) by auto
  have pc: "prefix_caching ?s1" using assms(2) t(5) by simp
  from longest_prefix [OF inv1 new pc, of chain toks] t(4) obtain k s2 where
    k: "create_sequence_with_prefix chain r' toks ?s1 = (Ok (k * ?bs), s2)"
      "k \<le> (length toks - 1) div ?bs"
      "k < (length toks - 1) div ?bs \<longrightarrow> block_index ?s1 (prefix_key chain ?bs toks k) = None" by auto
  have "k = (length toks - 1) div ?bs"
  proof (rule ccontr)
    assume "k \<noteq> (length toks - 1) div ?bs"
    then have "k < (length toks - 1) div ?bs" using k(2) by simp
    moreover have "(length toks - 1) div ?bs \<le> ?n" by (rule div_le_mono) simp
    ultimately show False using k(3) t(2) by simp
  qed
  with reg k(1) show ?thesis by blast
qed

lemma kv_registered_prefix_reused_witness:
  "\<exists>s1 s2. register_prefix demo_chain 1 [7, 8, 9] demo_state = (Ok (), s1)
    \<and> create_sequence_with_prefix demo_chain 2 [7, 8, 9] s1 = (Ok 2, s2)"
proof -
  let ?q = "\<lparr>sq_committed = 3, sq_pages = [0, 1], sq_pending = None, sq_registered = 0, sq_hash = chain_root\<rparr>"
  have q: "sequences demo_state 1 = Some ?q" by (simp add: demo_state_def)
  have pc: "prefix_caching demo_state" by (simp add: demo_state_def)
  show ?thesis
    using kv_registered_prefix_reused [OF demo_state_inv pc q, of "[7, 8, 9]" 2 demo_chain]
    by (simp add: demo_state_def demo_conf_def)
qed

end
