(* ===== verification/ContinuousBatch.thy ===== *)
theory ContinuousBatch
  imports PagedKv
begin

text \<open>
  The continuous batching scheduler of \<open>src/src/continuous_batch.rs\<close>: its state, one
  definition per method, in the order of the file. \<open>lifecycle.rs\<close> and \<open>sampling.rs\<close> follow
  in \<open>BatchLifecycle\<close>.

  \<open>'smp\<close> is the state of a token sampler, which the scheduler only stores. \<open>chain\<close> is the
  hash of the KV manager. A \<open>BTreeMap\<close> is iterated in the order of its keys. The counters
  that are only reported (\<open>preemptions\<close>, drafted and accepted tokens) and the admission
  ticket are unbounded; request and batch identifiers are checked against \<open>u64::MAX\<close> as in
  the code. An index of a map or slice that is missing is a panic.
\<close>

section \<open>Data\<close>

datatype sched_error =
    KvFailed kv_error
  | ZeroLimits
  | ZeroPendingLimit
  | ZeroSpeculative
  | EmptyPrompt
  | PromptAboveBatch nat nat
  | RequestLengthOverflow
  | RequestAboveCapacity nat nat
  | NegativePromptToken
  | RequestNeedsPages nat nat
  | PendingQueueFull
  | RequestIdOverflow
  | BatchStillInFlight nat
  | BatchIdOverflow
  | RowCountMismatch nat nat
  | NegativeToken
  | MissingRequest nat
  | NotOwned nat nat
  | FailedNotOwner
  | VerifyMismatch
  | BudgetsExceedPool
  | RequestDisappeared
  | BatchNotInFlight nat
  | BatchMismatch nat nat
  | CancelInFlight nat nat
  | LimitWhileInFlight
  | LimitStrands nat nat
  | ArgmaxRows
  | NeedsLogits
  | LogitRows
  | MissingSampler
  | SamplerInvalid
  | SelectFailed
  | AllNaN nat
  | IndexAboveI32
  | ContextOverflow
  | ContextAboveU32
  | NoPhysicalPage
  | TableOverflow

record generation_config =
  max_new_tokens :: nat
  eos_token_ids :: "token list"

datatype batch_kind = Prefill | Decode | Verify

datatype kv_admission = OnDemand | ReserveSequenceCapacity

record speculative_config =
  draft_tokens :: nat
  ngram_size :: nat

record sched_seq =
  sc_request :: nat
  sc_tokens :: "token list"
  sc_start :: nat
  sc_context :: nat
  sc_table :: "nat list"
  sc_reservation :: nat

record sched_batch =
  sb_id :: nat
  sb_kind :: batch_kind
  sb_rows :: "sched_seq list"

record finished_generation =
  fg_request :: nat
  fg_prompt :: "token list"
  fg_generated :: "token list"
  fg_eos :: bool

record 'smp pending_request =
  pr_id :: nat
  pr_prompt :: "token list"
  pr_gen :: generation_config
  pr_sampler :: "'smp option"

datatype phase = NeedsPrefill | AwaitingDecode token | InFlight nat

record 'smp active_request =
  ac_prompt :: "token list"
  ac_gen :: generation_config
  ac_sampler :: "'smp option"
  ac_eos :: "token set"
  ac_generated :: "token list"
  ac_history :: "token list"
  ac_admitted :: nat
  ac_phase :: phase

record batch_config =
  max_active_sequences :: nat
  max_batch_tokens :: nat

record batch_options =
  max_pending_requests :: "nat option"
  admission_policy :: kv_admission

record 'smp scheduler =
  cfg :: batch_config
  opts :: batch_options
  kv :: kv_manager
  pending :: "'smp pending_request list"
  deferred :: "nat set"
  active :: "nat \<rightharpoonup> 'smp active_request"
  finished :: "finished_generation list"
  in_flight :: "sched_batch option"
  prefer_prefill :: bool
  next_request :: nat
  next_batch :: nat
  chunk_tokens :: "nat option"
  admission_ceiling :: "nat option"
  recompute_preemption :: bool
  next_admission :: nat
  preemptions :: nat
  speculative :: "speculative_config option"
  speculative_turn :: bool
  drafted :: nat
  accepted :: nat

record paged_snapshot =
  sn_pending :: nat
  sn_active :: nat
  sn_in_flight :: bool
  sn_finished :: nat
  sn_free_pages :: nat
  sn_total_pages :: nat
  sn_preemptions :: nat
  sn_cached_tokens :: nat
  sn_drafted :: nat
  sn_accepted :: nat

type_synonym ('smp, 'a) sched_op = "('smp scheduler, sched_error, 'a) op"

text \<open>A method of the KV manager, its error converted by \<open>From\<close>.\<close>

definition on_kv :: "'a kv_op \<Rightarrow> ('smp, 'a) sched_op" where
  "on_kv m s =
     (case m (kv s) of
        (Ok a, k) \<Rightarrow> (Ok a, s\<lparr>kv := k\<rparr>)
      | (Err e, k) \<Rightarrow> (Err (KvFailed e), s\<lparr>kv := k\<rparr>)
      | (Panic, k) \<Rightarrow> (Panic, s\<lparr>kv := k\<rparr>))"

definition active_ids :: "'smp scheduler \<Rightarrow> nat list" where
  "active_ids s = sorted_list_of_set (dom (active s))"

definition get_active :: "nat \<Rightarrow> ('smp, 'smp active_request) sched_op" where
  "get_active rid s = (case active s rid of None \<Rightarrow> (Panic, s) | Some a \<Rightarrow> (Ok a, s))"

section \<open>Scheduled batches\<close>

definition batch_size :: "sched_batch \<Rightarrow> nat" where
  "batch_size b = length (sb_rows b)"

definition next_n :: "sched_batch \<Rightarrow> nat" where
  "next_n b = (case sb_rows b of [] \<Rightarrow> 0 | r # _ \<Rightarrow> length (sc_tokens r))"

definition token_matrix :: "sched_batch \<Rightarrow> token list" where
  "token_matrix b = concat (map sc_tokens (sb_rows b))"

fun row_lengths :: "nat \<Rightarrow> nat list \<Rightarrow> (sched_error, nat list) res" where
  "row_lengths st [] = Ok []"
| "row_lengths st (off # offs) =
     (case checked_add st off of
        None \<Rightarrow> Err ContextOverflow
      | Some v \<Rightarrow>
        (case checked_add v 1 of
           None \<Rightarrow> Err ContextOverflow
         | Some l \<Rightarrow>
             if l > u32_max then Err ContextAboveU32
             else (case row_lengths st offs of Ok ls \<Rightarrow> Ok (l # ls) | Err e \<Rightarrow> Err e | Panic \<Rightarrow> Panic)))"

fun rows_lengths :: "sched_seq list \<Rightarrow> (sched_error, nat list) res" where
  "rows_lengths [] = Ok []"
| "rows_lengths (r # rs) =
     (case row_lengths (sc_start r) [0..<length (sc_tokens r)] of
        Ok ls \<Rightarrow> (case rows_lengths rs of Ok ms \<Rightarrow> Ok (ls @ ms) | Err e \<Rightarrow> Err e | Panic \<Rightarrow> Panic)
      | Err e \<Rightarrow> Err e | Panic \<Rightarrow> Panic)"

definition context_lengths :: "sched_batch \<Rightarrow> (sched_error, nat list) res" where
  "context_lengths b = rows_lengths (sb_rows b)"

text \<open>The writes \<open>table[row * stride + column] = page\<close>, in the order of the loops.\<close>

fun write_pages :: "nat \<Rightarrow> nat list \<Rightarrow> nat list \<Rightarrow> (sched_error, nat list) res" where
  "write_pages at [] table = Ok table"
| "write_pages at (p # ps) table =
     (if length table \<le> at then Panic else write_pages (Suc at) ps (table[at := p]))"

fun write_rows :: "nat \<Rightarrow> nat \<Rightarrow> sched_seq list \<Rightarrow> nat list \<Rightarrow> (sched_error, nat list) res" where
  "write_rows stride row [] table = Ok table"
| "write_rows stride row (r # rs) table =
     (case write_pages (row * stride) (sc_table r) table of
        Ok t \<Rightarrow> write_rows stride (Suc row) rs t | Err e \<Rightarrow> Err e | Panic \<Rightarrow> Panic)"

definition table_stride :: "sched_batch \<Rightarrow> nat" where
  "table_stride b = fold max (map (\<lambda>r. length (sc_table r)) (sb_rows b)) 0"

definition flattened_block_table :: "sched_batch \<Rightarrow> (sched_error, nat list \<times> nat) res" where
  "flattened_block_table b =
     (let stride = table_stride b
      in if stride = 0 \<and> sb_rows b \<noteq> [] then Err NoPhysicalPage
         else case checked_mul (batch_size b) stride of
           None \<Rightarrow> Err TableOverflow
         | Some len \<Rightarrow>
             (case write_rows stride 0 (sb_rows b) (replicate len 0) of
                Ok t \<Rightarrow> Ok (t, stride) | Err e \<Rightarrow> Err e | Panic \<Rightarrow> Panic))"

section \<open>Construction and configuration\<close>

definition batch_config_validate :: "batch_config \<Rightarrow> (sched_error, unit) res" where
  "batch_config_validate c =
     (if max_active_sequences c = 0 \<or> max_batch_tokens c = 0 then Err ZeroLimits else Ok ())"

definition options_validate :: "batch_options \<Rightarrow> (sched_error, unit) res" where
  "options_validate op = (if max_pending_requests op = Some 0 then Err ZeroPendingLimit else Ok ())"

definition with_options ::
  "batch_config \<Rightarrow> kv_config \<Rightarrow> batch_options \<Rightarrow> (sched_error, 'smp scheduler) res" where
  "with_options c k op =
     (case batch_config_validate c of Err e \<Rightarrow> Err e | Panic \<Rightarrow> Panic | Ok _ \<Rightarrow>
      case options_validate op of Err e \<Rightarrow> Err e | Panic \<Rightarrow> Panic | Ok _ \<Rightarrow>
      case kv_new k of Err e \<Rightarrow> Err (KvFailed e) | Panic \<Rightarrow> Panic | Ok m \<Rightarrow>
        Ok \<lparr>cfg = c, opts = op, kv = m, pending = [], deferred = {}, active = Map.empty,
            finished = [], in_flight = None, prefer_prefill = True, next_request = 1,
            next_batch = 1, chunk_tokens = None, admission_ceiling = None,
            recompute_preemption = False, next_admission = 0, preemptions = 0,
            speculative = None, speculative_turn = False, drafted = 0, accepted = 0\<rparr>)"

definition default_options :: batch_options where
  "default_options = \<lparr>max_pending_requests = None, admission_policy = OnDemand\<rparr>"

definition sched_new :: "batch_config \<Rightarrow> kv_config \<Rightarrow> (sched_error, 'smp scheduler) res" where
  "sched_new c k = with_options c k default_options"

definition new_paged :: "batch_config \<Rightarrow> kv_config \<Rightarrow> (sched_error, 'smp scheduler) res" where
  "new_paged c k =
     (case sched_new c k of
        Ok s \<Rightarrow> Ok (s\<lparr>chunk_tokens := Some (max_batch_tokens c), recompute_preemption := True\<rparr>)
      | Err e \<Rightarrow> Err e | Panic \<Rightarrow> Panic)"

definition sched_set_prefix_caching :: "bool \<Rightarrow> ('smp, unit) sched_op" where
  "sched_set_prefix_caching b = on_kv (set_prefix_caching b)"

definition set_speculative_decoding :: "speculative_config option \<Rightarrow> ('smp, unit) sched_op" where
  "set_speculative_decoding c s =
     (if (\<exists>x. c = Some x \<and> (draft_tokens x = 0 \<or> ngram_size x = 0)) then (Err ZeroSpeculative, s)
      else (Ok (), s\<lparr>speculative := c\<rparr>))"

text \<open>The final selected token is returned, never fed through the model.\<close>

definition request_page_budget :: "nat \<Rightarrow> generation_config \<Rightarrow> nat \<Rightarrow> nat" where
  "request_page_budget prompt_length g bs = div_ceil (prompt_length + (max_new_tokens g - 1)) bs"

definition submit_with_sampler ::
  "token list \<Rightarrow> generation_config \<Rightarrow> 'smp option \<Rightarrow> ('smp, nat) sched_op" where
  "submit_with_sampler prompt g sampler s =
     (if prompt = [] then (Err EmptyPrompt, s)
      else if chunk_tokens s = None \<and> length prompt > max_batch_tokens (cfg s)
        then (Err (PromptAboveBatch (length prompt) (max_batch_tokens (cfg s))), s)
      else case checked_add (length prompt) (max_new_tokens g) of
        None \<Rightarrow> (Err RequestLengthOverflow, s)
      | Some total_len \<Rightarrow>
        (let k = kv_conf (kv s);
             required = (case admission_policy (opts s) of
                OnDemand \<Rightarrow> div_ceil (length prompt) (block_size k)
              | ReserveSequenceCapacity \<Rightarrow> request_page_budget (length prompt) g (block_size k))
         in if total_len > max_sequence_length k
              then (Err (RequestAboveCapacity total_len (max_sequence_length k)), s)
            else if list_ex (\<lambda>t. t < 0) (prompt @ eos_token_ids g) then (Err NegativePromptToken, s)
            else if max_new_tokens g > 0 \<and> required > num_pages k
              then (Err (RequestNeedsPages required (num_pages k)), s)
            else if max_new_tokens g > 0 \<and>
                (case max_pending_requests (opts s) of None \<Rightarrow> False | Some limit \<Rightarrow> limit \<le> length (pending s))
              then (Err PendingQueueFull, s)
            else case checked_add (next_request s) 1 of
              None \<Rightarrow> (Err RequestIdOverflow, s)
            | Some nxt \<Rightarrow>
                let rid = next_request s; s1 = s\<lparr>next_request := nxt\<rparr>
                in (Ok rid,
                    if max_new_tokens g = 0
                    then s1\<lparr>finished := finished s1 @ [\<lparr>fg_request = rid, fg_prompt = prompt,
                            fg_generated = [], fg_eos = False\<rparr>]\<rparr>
                    else s1\<lparr>pending := pending s1 @ [\<lparr>pr_id = rid, pr_prompt = prompt, pr_gen = g,
                            pr_sampler = sampler\<rparr>]\<rparr>)))"

definition submit :: "token list \<Rightarrow> generation_config \<Rightarrow> ('smp, nat) sched_op" where
  "submit prompt g = submit_with_sampler prompt g None"

section \<open>Admission\<close>

text \<open>The page budgets of the active requests, taken from the pool one after the other.\<close>

fun take_budgets :: "nat list \<Rightarrow> nat \<Rightarrow> nat option" where
  "take_budgets [] avail = Some avail"
| "take_budgets (b # bs) avail =
     (case checked_sub avail b of None \<Rightarrow> None | Some a \<Rightarrow> take_budgets bs a)"

definition ready :: "'smp scheduler \<Rightarrow> 'smp pending_request \<Rightarrow> bool" where
  "ready s r \<longleftrightarrow> pr_id r \<notin> deferred s \<and>
     (case admission_ceiling s of None \<Rightarrow> True | Some c \<Rightarrow> pr_id r < c)"

definition activate :: "nat \<Rightarrow> 'smp pending_request \<Rightarrow> 'smp active_request" where
  "activate ticket r = \<lparr>ac_prompt = pr_prompt r, ac_gen = pr_gen r, ac_sampler = pr_sampler r,
     ac_eos = set (eos_token_ids (pr_gen r)), ac_generated = [], ac_history = pr_prompt r,
     ac_admitted = ticket, ac_phase = NeedsPrefill\<rparr>"

text \<open>
  The \<open>while\<close> loop, which removes one queued request per round: the first argument counts
  the rounds left, initially the length of the queue, so that the loop has ended by itself
  when it is 0.
\<close>

fun promote_loop :: "chain_fun \<Rightarrow> nat \<Rightarrow> nat \<Rightarrow> ('smp, unit) sched_op" where
  "promote_loop chain 0 avail s = (Ok (), s)"
| "promote_loop chain (Suc n) avail s =
     (if max_active_sequences (cfg s) \<le> card (dom (active s)) then (Ok (), s)
      else case dropWhile (\<lambda>r. \<not> ready s r) (pending s) of
        [] \<Rightarrow> (Ok (), s)
      | r # rest \<Rightarrow>
          let reserve = (admission_policy (opts s) = ReserveSequenceCapacity);
              pages = request_page_budget (length (pr_prompt r)) (pr_gen r) (block_size (kv_conf (kv s)))
          in if reserve \<and> pages > avail then (Ok (), s)
             else bind_op (on_kv (create_sequence_with_prefix chain (pr_id r) (pr_prompt r)))
               (\<lambda>_ s. promote_loop chain n (if reserve then avail - pages else avail)
                  (s\<lparr>next_admission := next_admission s + 1,
                     active := (active s)(pr_id r \<mapsto> activate (next_admission s) r)\<rparr>))
               (s\<lparr>pending := takeWhile (\<lambda>r. \<not> ready s r) (pending s) @ rest\<rparr>))"

definition active_budgets :: "'smp scheduler \<Rightarrow> nat list" where
  "active_budgets s = map (\<lambda>rid. let a = the (active s rid) in
     request_page_budget (length (ac_prompt a)) (ac_gen a) (block_size (kv_conf (kv s)))) (active_ids s)"

definition promote_pending :: "chain_fun \<Rightarrow> ('smp, unit) sched_op" where
  "promote_pending chain s =
     (case (if admission_policy (opts s) = ReserveSequenceCapacity
            then take_budgets (active_budgets s) (num_pages (kv_conf (kv s)))
            else Some (num_pages (kv_conf (kv s)))) of
        None \<Rightarrow> (Err BudgetsExceedPool, s)
      | Some avail \<Rightarrow> promote_loop chain (length (pending s)) avail s)"

section \<open>Building a batch\<close>

definition scheduled_sequence :: "append_reservation \<Rightarrow> token list \<Rightarrow> sched_seq" where
  "scheduled_sequence a toks = \<lparr>sc_request = ar_request a, sc_tokens = toks, sc_start = ar_start a,
     sc_context = ar_context a, sc_table = ar_table a, sc_reservation = ar_id a\<rparr>"

definition rollback_scheduled_rows :: "sched_seq list \<Rightarrow> ('smp, unit) sched_op" where
  "rollback_scheduled_rows rows = on_kv (cancel_appends (map sc_reservation rows))"

fun mark_in_flight :: "nat \<Rightarrow> sched_seq list \<Rightarrow> ('smp, unit) sched_op" where
  "mark_in_flight bid [] s = (Ok (), s)"
| "mark_in_flight bid (r # rs) s =
     (case active s (sc_request r) of
        None \<Rightarrow> (Err RequestDisappeared, s)
      | Some a \<Rightarrow> mark_in_flight bid rs
          (s\<lparr>active := (active s)(sc_request r \<mapsto> a\<lparr>ac_phase := InFlight bid\<rparr>)\<rparr>))"

definition finish_schedule :: "batch_kind \<Rightarrow> sched_seq list \<Rightarrow> ('smp, sched_batch option) sched_op" where
  "finish_schedule kind rows s =
     (if rows = [] then (Ok None, s)
      else case checked_add (next_batch s) 1 of
        None \<Rightarrow> bind_op (rollback_scheduled_rows rows) (\<lambda>_. err_op BatchIdOverflow) s
      | Some nxt \<Rightarrow>
          if list_ex (\<lambda>r. active s (sc_request r) = None) rows
          then bind_op (rollback_scheduled_rows rows) (\<lambda>_. err_op RequestDisappeared) s
          else bind_op (mark_in_flight (next_batch s) rows)
                 (\<lambda>_. ret_op (Some \<lparr>sb_id = next_batch s, sb_kind = kind, sb_rows = rows\<rparr>))
                 (s\<lparr>next_batch := nxt\<rparr>))"

text \<open>
  The loop over the candidates that the three builders share: stop at the row limit, skip
  a request whose tokens no longer fit, otherwise reserve them and append the row. \<open>tokens\<close>
  computes a candidate's tokens; \<open>rollback\<close> says whether the builder cancels the rows it
  has reserved when a reservation fails.
\<close>

fun reserve_rows ::
  "('c \<Rightarrow> nat) \<Rightarrow> ('c \<Rightarrow> ('smp, token list) sched_op) \<Rightarrow> bool \<Rightarrow> nat \<Rightarrow> nat \<Rightarrow> 'c list \<Rightarrow>
     sched_seq list \<Rightarrow> ('smp, sched_seq list) sched_op" where
  "reserve_rows rid tokens rollback limit width [] rows s = (Ok rows, s)"
| "reserve_rows rid tokens rollback limit width (c # cs) rows s =
     (if limit \<le> length rows then (Ok rows, s)
      else bind_op (on_kv (can_append (rid c) width)) (\<lambda>fits.
        if \<not> fits then reserve_rows rid tokens rollback limit width cs rows
        else bind_op (tokens c) (\<lambda>toks s.
          case begin_append (rid c) width (kv s) of
            (Ok a, k) \<Rightarrow> reserve_rows rid tokens rollback limit width cs
                          (rows @ [scheduled_sequence a toks]) (s\<lparr>kv := k\<rparr>)
          | (Err e, k) \<Rightarrow>
              (if rollback then bind_op (rollback_scheduled_rows rows) (\<lambda>_. err_op (KvFailed e)) (s\<lparr>kv := k\<rparr>)
               else (Err (KvFailed e), s\<lparr>kv := k\<rparr>))
          | (Panic, k) \<Rightarrow> (Panic, s\<lparr>kv := k\<rparr>))) s)"

definition decode_token :: "'smp scheduler \<Rightarrow> nat \<Rightarrow> token option" where
  "decode_token s rid =
     (case active s rid of None \<Rightarrow> None
      | Some a \<Rightarrow> (case ac_phase a of AwaitingDecode t \<Rightarrow> Some t | _ \<Rightarrow> None))"

definition schedule_decode :: "('smp, sched_batch option) sched_op" where
  "schedule_decode s =
     (let cands = map (\<lambda>rid. (rid, the (decode_token s rid)))
                    (filter (\<lambda>rid. decode_token s rid \<noteq> None) (active_ids s))
      in bind_op (reserve_rows fst (\<lambda>c. ret_op [snd c]) True (max_batch_tokens (cfg s)) 1 cands [])
           (finish_schedule Decode) s)"

definition prefill_chunk :: "nat \<Rightarrow> 'smp active_request \<Rightarrow> ('smp, nat \<times> nat \<times> bool) sched_op" where
  "prefill_chunk rid a =
     bind_op (on_kv (committed_tokens rid)) (\<lambda>committed s.
       let remaining = length (ac_history a) - committed;
           len = min (min remaining (case chunk_tokens s of None \<Rightarrow> remaining | Some c \<Rightarrow> c))
                     (max_batch_tokens (cfg s))
       in (Ok (committed, len, committed + len = length (ac_history a)), s))"

type_synonym bucket_key = "nat \<times> bool"

text \<open>
  \<open>buckets.entry(key).or_default().push(id)\<close> on a \<open>BTreeMap\<close>, kept as the list of its
  entries in key order.
\<close>

fun push_bucket :: "bucket_key \<Rightarrow> nat \<Rightarrow> (bucket_key \<times> nat list) list \<Rightarrow> (bucket_key \<times> nat list) list" where
  "push_bucket key rid [] = [(key, [rid])]"
| "push_bucket key rid ((k, ids) # bs) =
     (if key = k then (k, ids @ [rid]) # bs
      else if fst key < fst k \<or> fst key = fst k \<and> snd key < snd k then (key, [rid]) # (k, ids) # bs
      else (k, ids) # push_bucket key rid bs)"

fun prefill_buckets ::
  "nat list \<Rightarrow> (bucket_key \<times> nat list) list \<Rightarrow> ('smp, (bucket_key \<times> nat list) list) sched_op" where
  "prefill_buckets [] bs s = (Ok bs, s)"
| "prefill_buckets (rid # rids) bs s =
     bind_op (get_active rid) (\<lambda>a.
     bind_op (prefill_chunk rid a) (\<lambda>(position, nxt, _) s.
       if ac_phase a = NeedsPrefill \<and> rid \<notin> deferred s \<and> nxt > 0
       then bind_op (on_kv (can_append rid nxt)) (\<lambda>fits.
              prefill_buckets rids (if fits then push_bucket (nxt, position \<noteq> 0) rid bs else bs)) s
       else prefill_buckets rids bs s)) s"

definition bucket_tokens :: "nat \<Rightarrow> bucket_key \<times> nat list \<Rightarrow> nat" where
  "bucket_tokens limit b = min (length (snd b)) (limit div fst (fst b)) * fst (fst b)"

text \<open>\<open>max_by\<close> keeps the later of two elements that compare equal.\<close>

definition bucket_max :: "nat \<Rightarrow> (bucket_key \<times> nat list) list \<Rightarrow> (bucket_key \<times> nat list) option" where
  "bucket_max limit bs =
     (case bs of [] \<Rightarrow> None
      | b # rest \<Rightarrow> Some (fold (\<lambda>x best.
          if bucket_tokens limit best < bucket_tokens limit x \<or>
             bucket_tokens limit best = bucket_tokens limit x \<and> hd (snd x) \<le> hd (snd best)
          then x else best) rest b))"

definition prefill_tokens :: "nat \<Rightarrow> nat \<Rightarrow> ('smp, token list) sched_op" where
  "prefill_tokens width rid =
     bind_op (get_active rid) (\<lambda>a.
     bind_op (prefill_chunk rid a) (\<lambda>(start, len, _) s.
       if len \<noteq> width \<or> start + len > length (ac_history a) then (Panic, s)
       else (Ok (take len (drop start (ac_history a))), s)))"

definition schedule_prefill :: "('smp, sched_batch option) sched_op" where
  "schedule_prefill s =
     bind_op (prefill_buckets (active_ids s) []) (\<lambda>buckets s.
       case bucket_max (max_batch_tokens (cfg s)) buckets of
         None \<Rightarrow> (Ok None, s)
       | Some ((width, later), cands) \<Rightarrow>
           bind_op (reserve_rows id (prefill_tokens width) True (max_batch_tokens (cfg s) div width)
                      width cands [])
             (finish_schedule Prefill) s) s"

section \<open>Speculative batches\<close>

text \<open>
  The two nested loops over \<open>n\<close> and \<open>start\<close>, both downwards, as one scan of their pairs: it
  leaves at the first match with a nonempty continuation. The end of the continuation is added
  in \<open>usize\<close>; an overflow is a panic.
\<close>

fun ngram_scan :: "token list \<Rightarrow> nat \<Rightarrow> (nat \<times> nat) list \<Rightarrow> (sched_error, token list) res" where
  "ngram_scan history draft [] = Ok []"
| "ngram_scan history draft ((n, st) # rest) =
     (if take n (drop st history) = drop (length history - n) history
      then (case checked_add (st + n) draft of
              None \<Rightarrow> Panic
            | Some e \<Rightarrow>
                let to = min e (length history)
                in if st + n < to then Ok (take (to - (st + n)) (drop (st + n) history))
                   else ngram_scan history draft rest)
      else ngram_scan history draft rest)"

definition ngram_draft :: "token list \<Rightarrow> nat \<Rightarrow> nat \<Rightarrow> (sched_error, token list) res" where
  "ngram_draft history ngram draft =
     (let len = length history
      in ngram_scan history draft
           (concat (map (\<lambda>n. map (\<lambda>st. (n, st)) (rev [0..<len - n])) (rev [1..<Suc (min ngram (len - 1))]))))"

fun verify_candidates ::
  "speculative_config \<Rightarrow> nat list \<Rightarrow> ('smp, (nat \<times> token \<times> token list) list) sched_op" where
  "verify_candidates c [] s = (Ok [], s)"
| "verify_candidates c (rid # rids) s =
     bind_op (get_active rid) (\<lambda>a.
       case ac_phase a of
         AwaitingDecode t \<Rightarrow>
           if max_new_tokens (ac_gen a) < length (ac_generated a) then panic_op
           else if ac_sampler a \<noteq> None \<or> max_new_tokens (ac_gen a) - length (ac_generated a) < 2
             then verify_candidates c rids
           else
             (case ngram_draft (ac_history a) (ngram_size c) (draft_tokens c) of
                Err e \<Rightarrow> err_op e
              | Panic \<Rightarrow> panic_op
              | Ok draft \<Rightarrow>
                 if draft = [] then verify_candidates c rids
                 else bind_op (on_kv (can_append rid (draft_tokens c + 1))) (\<lambda>fits.
                   bind_op (verify_candidates c rids) (\<lambda>rest.
                     ret_op (if fits then (rid, t, draft) # rest else rest))))
       | _ \<Rightarrow> verify_candidates c rids) s"

text \<open>\<open>draft.resize(len, pad)\<close>: cut or padded with the last draft token.\<close>

definition resize :: "nat \<Rightarrow> token \<Rightarrow> token list \<Rightarrow> token list" where
  "resize n pad xs = take n xs @ replicate (n - length xs) pad"

definition verify_tokens :: "speculative_config \<Rightarrow> nat \<times> token \<times> token list \<Rightarrow> ('smp, token list) sched_op" where
  "verify_tokens c = (\<lambda>(rid, t, draft) s.
     if draft = [] then (Panic, s)
     else (Ok (t # resize (draft_tokens c) (last draft) draft), s))"

text \<open>A width that overflows panics at the addition, or in a release build at the division by 0.\<close>

definition schedule_verify :: "('smp, sched_batch option) sched_op" where
  "schedule_verify s =
     (case speculative s of
        None \<Rightarrow> (Ok None, s)
      | Some c \<Rightarrow>
          (case checked_add (draft_tokens c) 1 of
             None \<Rightarrow> (Panic, s)
           | Some width \<Rightarrow>
               let max_rows = max_batch_tokens (cfg s) div width
               in if max_rows = 0 then (Ok None, s)
                  else bind_op (verify_candidates c (active_ids s)) (\<lambda>cands.
                    bind_op (reserve_rows fst (verify_tokens c) False max_rows width cands [])
                      (finish_schedule Verify)) s))"

section \<open>Scheduling with preemption\<close>

definition try_schedule :: "('smp, sched_batch option) sched_op" where
  "try_schedule s =
     bind_op (if prefer_prefill s then schedule_prefill else ret_op None) (\<lambda>b s.
       case b of
         Some batch \<Rightarrow> (Ok (Some batch), s\<lparr>prefer_prefill := False\<rparr>)
       | None \<Rightarrow>
           let s1 = s\<lparr>speculative_turn := \<not> speculative_turn s\<rparr>
           in bind_op (if speculative_turn s1 then schedule_verify else ret_op None) (\<lambda>b s.
                case b of
                  Some batch \<Rightarrow> (Ok (Some batch), s\<lparr>prefer_prefill := True\<rparr>)
                | None \<Rightarrow>
                    bind_op schedule_decode (\<lambda>b s.
                      case b of
                        Some batch \<Rightarrow> (Ok (Some batch), s\<lparr>prefer_prefill := True\<rparr>)
                      | None \<Rightarrow>
                          bind_op schedule_prefill (\<lambda>b s.
                            case b of
                              Some batch \<Rightarrow> (Ok (Some batch), s\<lparr>prefer_prefill := False\<rparr>)
                            | None \<Rightarrow> (Ok None, s)) s) s) s1) s"

fun page_holders :: "nat list \<Rightarrow> ('smp, (nat \<times> nat) list) sched_op" where
  "page_holders [] s = (Ok [], s)"
| "page_holders (rid # rids) s =
     bind_op (get_active rid) (\<lambda>a.
       case ac_phase a of
         InFlight b \<Rightarrow> page_holders rids
       | _ \<Rightarrow> bind_op (on_kv (block_table rid)) (\<lambda>table.
                bind_op (page_holders rids) (\<lambda>rest.
                  ret_op (if table = [] then rest else (ac_admitted a, rid) # rest)))) s"

text \<open>The greatest pair in lexicographic order.\<close>

definition newest_holder :: "(nat \<times> nat) list \<Rightarrow> nat \<times> nat" where
  "newest_holder hs = fold (\<lambda>x best.
     if fst best < fst x \<or> fst best = fst x \<and> snd best \<le> snd x then x else best) (tl hs) (hd hs)"

definition preempt_newest :: "('smp, bool) sched_op" where
  "preempt_newest s =
     bind_op (page_holders (active_ids s)) (\<lambda>holders s.
       if length holders \<le> 1 then (Ok False, s)
       else
         let victim = snd (newest_holder holders)
         in bind_op (on_kv (remove_sequence victim)) (\<lambda>_.
            bind_op (on_kv (create_sequence victim)) (\<lambda>_ s.
              case active s victim of
                None \<Rightarrow> (Panic, s)
              | Some a \<Rightarrow>
                  (Ok True, s\<lparr>active := (active s)(victim \<mapsto> a\<lparr>ac_phase := NeedsPrefill\<rparr>),
                              preemptions := preemptions s + 1, prefer_prefill := False\<rparr>))) s) s"

text \<open>
  Every round of the loop but the last preempts a request that holds pages, so there are at
  most as many as active requests; the first argument is one more than that. Running out
  of it is a panic, which is proved not to happen.
\<close>

fun schedule_loop :: "nat \<Rightarrow> ('smp, sched_batch option) sched_op" where
  "schedule_loop 0 s = (Panic, s)"
| "schedule_loop (Suc n) s =
     bind_op try_schedule (\<lambda>b s.
       case b of
         Some batch \<Rightarrow> (Ok (Some batch), s\<lparr>in_flight := Some batch\<rparr>)
       | None \<Rightarrow>
           if \<not> recompute_preemption s then (Ok None, s)
           else bind_op preempt_newest (\<lambda>gained.
                  if gained then schedule_loop n else ret_op None) s) s"

definition schedule :: "chain_fun \<Rightarrow> ('smp, sched_batch option) sched_op" where
  "schedule chain s =
     (case in_flight s of
        Some b \<Rightarrow> (Err (BatchStillInFlight (sb_id b)), s)
      | None \<Rightarrow>
          if next_batch s = usize_max then (Err BatchIdOverflow, s)
          else bind_op (promote_pending chain)
                 (\<lambda>_ s. schedule_loop (Suc (card (dom (active s)))) s) s)"

section \<open>Completing and failing a batch\<close>

definition take_batch :: "nat \<Rightarrow> ('smp, sched_batch) sched_op" where
  "take_batch bid s =
     (case in_flight s of
        None \<Rightarrow> (Err (BatchNotInFlight bid), s)
      | Some b \<Rightarrow>
          if sb_id b \<noteq> bid then (Err (BatchMismatch bid (sb_id b)), s)
          else (Ok b, s\<lparr>in_flight := None\<rparr>))"

definition samples_token :: "'smp scheduler \<Rightarrow> sched_seq \<Rightarrow> bool" where
  "samples_token s r =
     (case active s (sc_request r) of None \<Rightarrow> False | Some a \<Rightarrow> length (ac_history a) \<le> sc_context r)"

fun ownership_error :: "nat \<Rightarrow> sched_seq list \<Rightarrow> 'smp scheduler \<Rightarrow> sched_error option" where
  "ownership_error bid [] s = None"
| "ownership_error bid (r # rs) s =
     (case active s (sc_request r) of
        None \<Rightarrow> Some (MissingRequest (sc_request r))
      | Some a \<Rightarrow> if ac_phase a \<noteq> InFlight bid then Some (NotOwned (sc_request r) bid)
                  else ownership_error bid rs s)"

text \<open>\<open>remove_sequence\<close> and the move to the queue of finished requests.\<close>

definition finish_request :: "nat \<Rightarrow> bool \<Rightarrow> ('smp, unit) sched_op" where
  "finish_request rid on_eos s =
     (case active s rid of
        None \<Rightarrow> (Panic, s)
      | Some a \<Rightarrow>
          bind_op (on_kv (remove_sequence rid)) (\<lambda>_ s.
            (Ok (), s\<lparr>finished := finished s @ [\<lparr>fg_request = rid, fg_prompt = ac_prompt a,
                 fg_generated = ac_generated a, fg_eos = on_eos\<rparr>]\<rparr>))
            (s\<lparr>active := (active s)(rid := None)\<rparr>))"

definition register_row :: "chain_fun \<Rightarrow> sched_seq \<Rightarrow> ('smp, unit) sched_op" where
  "register_row chain r =
     bind_op (get_active (sc_request r)) (\<lambda>a. on_kv (register_prefix chain (sc_request r) (ac_history a)))"

definition apply_token :: "sched_seq \<times> token \<Rightarrow> ('smp, unit) sched_op" where
  "apply_token rt s =
     (case active s (sc_request (fst rt)) of
        None \<Rightarrow> (Panic, s)
      | Some a \<Rightarrow>
          if sc_context (fst rt) < length (ac_history a)
          then (Ok (), s\<lparr>active := (active s)(sc_request (fst rt) \<mapsto> a\<lparr>ac_phase := NeedsPrefill\<rparr>)\<rparr>)
          else
            let a1 = a\<lparr>ac_generated := ac_generated a @ [snd rt], ac_history := ac_history a @ [snd rt]\<rparr>;
                on_eos = (snd rt \<in> ac_eos a1)
            in if on_eos \<or> max_new_tokens (ac_gen a1) \<le> length (ac_generated a1)
               then finish_request (sc_request (fst rt)) on_eos
                      (s\<lparr>active := (active s)(sc_request (fst rt) \<mapsto> a1)\<rparr>)
               else (Ok (), s\<lparr>active := (active s)(sc_request (fst rt) \<mapsto>
                       a1\<lparr>ac_phase := AwaitingDecode (snd rt)\<rparr>)\<rparr>))"

definition complete_batch :: "chain_fun \<Rightarrow> nat \<Rightarrow> token list \<Rightarrow> ('smp, unit) sched_op" where
  "complete_batch chain bid toks =
     bind_op (take_batch bid) (\<lambda>b s.
       let restore = (\<lambda>e s. (Err e, s\<lparr>in_flight := Some b\<rparr>))
       in if length toks \<noteq> length (sb_rows b)
            then restore (RowCountMismatch (length (sb_rows b)) (length toks)) s
          else if list_ex (\<lambda>(r, t). samples_token s r \<and> t < 0) (zip (sb_rows b) toks)
            then restore NegativeToken s
          else case ownership_error bid (sb_rows b) s of
            Some e \<Rightarrow> restore e s
          | None \<Rightarrow>
              (case commit_append_prefixes (map (\<lambda>r. (sc_reservation r, length (sc_tokens r))) (sb_rows b)) (kv s) of
                 (Err e, k) \<Rightarrow> restore (KvFailed e) (s\<lparr>kv := k\<rparr>)
               | (Panic, k) \<Rightarrow> (Panic, s\<lparr>kv := k\<rparr>)
               | (Ok _, k) \<Rightarrow>
                   bind_op (for_op (register_row chain) (sb_rows b))
                     (\<lambda>_. for_op apply_token (zip (sb_rows b) toks)) (s\<lparr>kv := k\<rparr>)))"

definition restore_phase :: "batch_kind \<Rightarrow> sched_seq \<Rightarrow> ('smp, unit) sched_op" where
  "restore_phase kind r s =
     (case active s (sc_request r) of
        None \<Rightarrow> (Panic, s)
      | Some a \<Rightarrow>
          (case kind of
             Prefill \<Rightarrow> (Ok (), s\<lparr>active := (active s)(sc_request r \<mapsto> a\<lparr>ac_phase := NeedsPrefill\<rparr>)\<rparr>)
           | _ \<Rightarrow>
               if sc_tokens r = [] then (Panic, s)
               else (Ok (), s\<lparr>active := (active s)(sc_request r \<mapsto>
                      a\<lparr>ac_phase := AwaitingDecode (hd (sc_tokens r))\<rparr>)\<rparr>)))"

definition fail_batch :: "nat \<Rightarrow> ('smp, unit) sched_op" where
  "fail_batch bid =
     bind_op (take_batch bid) (\<lambda>b s.
       if ownership_error bid (sb_rows b) s \<noteq> None
       then (Err FailedNotOwner, s\<lparr>in_flight := Some b\<rparr>)
       else case cancel_appends (map sc_reservation (sb_rows b)) (kv s) of
         (Err e, k) \<Rightarrow> (Err (KvFailed e), s\<lparr>kv := k, in_flight := Some b\<rparr>)
       | (Panic, k) \<Rightarrow> (Panic, s\<lparr>kv := k\<rparr>)
       | (Ok _, k) \<Rightarrow> for_op (restore_phase (sb_kind b)) (sb_rows b) (s\<lparr>kv := k\<rparr>))"

text \<open>
  The accepted tokens of one verification row: the predictions up to the first one that
  ends the request or that the draft did not foresee. \<open>got\<close> is how many came before; a
  draft shorter than the predictions is an index out of range, \<open>None\<close>.
\<close>

fun verify_row :: "token set \<Rightarrow> nat \<Rightarrow> token list \<Rightarrow> nat \<Rightarrow> token list \<Rightarrow> token list option" where
  "verify_row eos remaining draft got [] = Some []"
| "verify_row eos remaining draft got (p # ps) =
     (if Suc got = remaining \<or> p \<in> eos \<or> ps = [] then Some [p]
      else case draft of
        [] \<Rightarrow> None
      | d # ds \<Rightarrow> if d \<noteq> p then Some [p]
                  else map_option (\<lambda>more. p # more) (verify_row eos remaining ds (Suc got) ps))"

definition complete_verify_row ::
  "chain_fun \<Rightarrow> nat \<Rightarrow> sched_seq \<times> token list \<Rightarrow> ('smp, nat \<times> token list) sched_op" where
  "complete_verify_row chain width rp s =
     (let r = fst rp; preds = snd rp; rid = sc_request r in
      case active s rid of
        None \<Rightarrow> (Err (MissingRequest rid), s)
      | Some a \<Rightarrow>
          if max_new_tokens (ac_gen a) < length (ac_generated a) then (Panic, s)
          else
            (case verify_row (ac_eos a) (max_new_tokens (ac_gen a) - length (ac_generated a))
                    (tl (sc_tokens r)) 0 preds of
               None \<Rightarrow> (Panic, s)
             | Some produced \<Rightarrow>
               if produced = [] then (Panic, s)
               else
                 bind_op (on_kv (commit_append_partial (sc_reservation r) (length produced))) (\<lambda>_ s.
                   case active s rid of
                     None \<Rightarrow> (Panic, s)
                   | Some a \<Rightarrow>
                       let a1 = a\<lparr>ac_history := ac_history a @ produced,
                                  ac_generated := ac_generated a @ produced\<rparr>;
                           on_eos = (last produced \<in> ac_eos a1)
                       in bind_op (on_kv (register_prefix chain rid (ac_history a1))) (\<lambda>_.
                            bind_op
                              (if on_eos \<or> max_new_tokens (ac_gen a1) \<le> length (ac_generated a1)
                               then finish_request rid on_eos
                               else (\<lambda>s. (Ok (), s\<lparr>active := (active s)(rid \<mapsto>
                                       a1\<lparr>ac_phase := AwaitingDecode (last produced)\<rparr>)\<rparr>)))
                              (\<lambda>_. ret_op (rid, produced)))
                            (s\<lparr>active := (active s)(rid \<mapsto> a1)\<rparr>))
                   (s\<lparr>drafted := drafted s + (width - 1), accepted := accepted s + (length produced - 1)\<rparr>)))"

fun chunks :: "nat \<Rightarrow> nat \<Rightarrow> 'a list \<Rightarrow> 'a list list" where
  "chunks width 0 xs = []"
| "chunks width (Suc n) xs = take width xs # chunks width n (drop width xs)"

definition complete_verify_batch ::
  "chain_fun \<Rightarrow> nat \<Rightarrow> token list \<Rightarrow> ('smp, (nat \<times> token list) list) sched_op" where
  "complete_verify_batch chain bid argmax =
     bind_op (take_batch bid) (\<lambda>b s.
       let width = next_n b
       in if sb_kind b \<noteq> Verify \<or> length argmax \<noteq> batch_size b * width
          then (Err VerifyMismatch, s\<lparr>in_flight := Some b\<rparr>)
          else map_op (complete_verify_row chain width)
                 (zip (sb_rows b) (chunks width (batch_size b) argmax)) s)"

section \<open>Queries\<close>

definition pop_finished :: "'smp scheduler \<Rightarrow> finished_generation option \<times> 'smp scheduler" where
  "pop_finished s =
     (case finished s of [] \<Rightarrow> (None, s) | f # fs \<Rightarrow> (Some f, s\<lparr>finished := fs\<rparr>))"

definition paged_snapshot_of :: "'smp scheduler \<Rightarrow> paged_snapshot" where
  "paged_snapshot_of s =
     \<lparr>sn_pending = length (pending s), sn_active = card (dom (active s)),
      sn_in_flight = (in_flight s \<noteq> None), sn_finished = length (finished s),
      sn_free_pages = free_page_count (kv s), sn_total_pages = num_pages (kv_conf (kv s)),
      sn_preemptions = preemptions s, sn_cached_tokens = reused_tokens (kv s),
      sn_drafted = drafted s, sn_accepted = accepted s\<rparr>"

definition generated_tokens :: "'smp scheduler \<Rightarrow> nat \<Rightarrow> token list option" where
  "generated_tokens s rid = map_option ac_generated (active s rid)"

section \<open>Look-ahead reservations\<close>

definition lookahead_row ::
  "nat \<Rightarrow> nat \<Rightarrow> sched_seq \<Rightarrow> ('smp, (nat \<times> append_reservation) option) sched_op" where
  "lookahead_row wanted budget r =
     bind_op (get_active (sc_request r)) (\<lambda>a s.
       let k = kv_conf (kv s);
           remaining = max_new_tokens (ac_gen a) - length (ac_generated a)
       in if max_sequence_length k < sc_context r then (Panic, s)
          else
            let extra = min (min (min wanted budget) (remaining - 1)) (max_sequence_length k - sc_context r);
                pages = div_ceil (sc_context r + extra) (block_size k) - length (sc_table r)
            in if extra > 0 \<and> pages \<le> free_page_count (kv s)
               then bind_op (on_kv (extend_append (sc_reservation r) extra)) (\<lambda>res. ret_op (Some (extra, res))) s
               else (Ok None, s))"

fun lookahead_rows ::
  "nat \<Rightarrow> nat \<Rightarrow> sched_seq list \<Rightarrow> ('smp, (nat \<times> append_reservation) list) sched_op" where
  "lookahead_rows wanted budget [] s = (Ok [], s)"
| "lookahead_rows wanted budget (r # rs) s =
     bind_op (lookahead_row wanted budget r) (\<lambda>got.
       case got of
         None \<Rightarrow> lookahead_rows wanted budget rs
       | Some (extra, res) \<Rightarrow>
           bind_op (lookahead_rows wanted (budget - extra) rs)
             (\<lambda>rest. ret_op ((sc_request r, res) # rest))) s"

definition reserve_lookahead ::
  "sched_batch \<Rightarrow> nat \<Rightarrow> ('smp, (nat \<times> append_reservation) list) sched_op" where
  "reserve_lookahead b wanted s =
     (if wanted = 0 \<or> sb_kind b \<noteq> Decode then (Ok [], s)
      else lookahead_rows wanted (max_batch_tokens (cfg s) - batch_size b) (sb_rows b) s)"

end
