(* ===== verification/BatchLifecycle.thy ===== *)
theory BatchLifecycle
  imports ContinuousBatch
begin

text \<open>
  Cancellation, idleness and reconfiguration (\<open>src/src/continuous_batch/lifecycle.rs\<close>) and
  token selection (\<open>src/src/continuous_batch/sampling.rs\<close>). A logit is \<open>None\<close> when it is
  NaN, otherwise a value of an ordered type. The construction of a sampler, the selection
  of a token and \<open>clear_workspace\<close> are parameters.
\<close>

section \<open>Lifecycle\<close>

record cancelled_generation =
  cg_request :: nat
  cg_prompt :: "token list"
  cg_generated :: "token list"

definition cancel :: "nat \<Rightarrow> ('smp, cancelled_generation option) sched_op" where
  "cancel rid s =
     (case dropWhile (\<lambda>r. pr_id r \<noteq> rid) (pending s) of
        r # rest \<Rightarrow>
          (Ok (Some \<lparr>cg_request = rid, cg_prompt = pr_prompt r, cg_generated = []\<rparr>),
           s\<lparr>pending := takeWhile (\<lambda>r. pr_id r \<noteq> rid) (pending s) @ rest,
             deferred := deferred s - {rid}\<rparr>)
      | [] \<Rightarrow>
          (case active s rid of
             None \<Rightarrow> (Ok None, s)
           | Some a \<Rightarrow>
               (case ac_phase a of
                  InFlight b \<Rightarrow> (Err (CancelInFlight rid b), s)
                | _ \<Rightarrow>
                    bind_op (on_kv (remove_sequence rid)) (\<lambda>_ s.
                      (Ok (Some \<lparr>cg_request = rid, cg_prompt = ac_prompt a, cg_generated = ac_generated a\<rparr>),
                       s\<lparr>active := (active s)(rid := None), deferred := deferred s - {rid}\<rparr>)) s)))"

definition is_idle :: "'smp scheduler \<Rightarrow> bool" where
  "is_idle s \<longleftrightarrow> pending s = [] \<and> dom (active s) = {} \<and> in_flight s = None"

definition waiting_lengths :: "'smp scheduler \<Rightarrow> nat list" where
  "waiting_lengths s = map (\<lambda>r. length (pr_prompt r)) (pending s) @
     map (\<lambda>rid. length (ac_prompt (the (active s rid))))
       (filter (\<lambda>rid. ac_phase (the (active s rid)) = NeedsPrefill) (active_ids s))"

definition minimum_batch_token_limit :: "'smp scheduler \<Rightarrow> nat" where
  "minimum_batch_token_limit s =
     (if chunk_tokens s \<noteq> None then 1 else fold max (waiting_lengths s) 1)"

definition batch_token_limit :: "'smp scheduler \<Rightarrow> nat" where
  "batch_token_limit s = max_batch_tokens (cfg s)"

definition set_batch_token_limit :: "nat \<Rightarrow> ('smp, unit) sched_op" where
  "set_batch_token_limit limit s =
     (if in_flight s \<noteq> None then (Err LimitWhileInFlight, s)
      else if limit < minimum_batch_token_limit s
        then (Err (LimitStrands limit (minimum_batch_token_limit s)), s)
      else (Ok (), s\<lparr>cfg := (cfg s)\<lparr>max_batch_tokens := limit\<rparr>\<rparr>))"

section \<open>Token selection\<close>

record 'smp selection =
  sel_batch :: nat
  sel_tokens :: "token list"
  sel_samplers :: "(nat \<times> 'smp) list"

type_synonym 'f logit = "'f option"

definition no_token :: token where "no_token = - 1"

definition submit_sampled ::
  "('c \<Rightarrow> 'smp option) \<Rightarrow> token list \<Rightarrow> generation_config \<Rightarrow> 'c \<Rightarrow> ('smp, nat) sched_op" where
  "submit_sampled new_sampler prompt g c s =
     (case new_sampler c of
        None \<Rightarrow> (Err SamplerInvalid, s)
      | Some smp \<Rightarrow> submit_with_sampler prompt g (Some smp) s)"

definition in_flight_batch :: "nat \<Rightarrow> 'smp scheduler \<Rightarrow> (sched_error, sched_batch) res" where
  "in_flight_batch bid s =
     (case in_flight s of
        Some b \<Rightarrow> if sb_id b = bid then Ok b else Err (BatchNotInFlight bid)
      | None \<Rightarrow> Err (BatchNotInFlight bid))"

definition batch_requires_logits :: "nat \<Rightarrow> 'smp scheduler \<Rightarrow> (sched_error, bool) res" where
  "batch_requires_logits bid s =
     (case in_flight_batch bid s of
        Ok b \<Rightarrow> Ok (list_ex (\<lambda>r. samples_token s r \<and>
                  (case active s (sc_request r) of None \<Rightarrow> False | Some a \<Rightarrow> ac_sampler a \<noteq> None)) (sb_rows b))
      | Err e \<Rightarrow> Err e | Panic \<Rightarrow> Panic)"

definition complete_greedy_batch :: "chain_fun \<Rightarrow> nat \<Rightarrow> token list \<Rightarrow> ('smp, token list) sched_op" where
  "complete_greedy_batch chain bid argmax s =
     (case in_flight_batch bid s of
        Err e \<Rightarrow> (Err e, s) | Panic \<Rightarrow> (Panic, s)
      | Ok b \<Rightarrow>
          if length argmax \<noteq> length (sb_rows b) then (Err ArgmaxRows, s)
          else
            let toks = map (\<lambda>(r, t). if samples_token s r then t else no_token) (zip (sb_rows b) argmax)
            in (case batch_requires_logits bid s of
                  Err e \<Rightarrow> (Err e, s) | Panic \<Rightarrow> (Panic, s)
                | Ok True \<Rightarrow> (Err NeedsLogits, s)
                | Ok False \<Rightarrow> bind_op (complete_batch chain bid toks) (\<lambda>_. ret_op toks) s))"

fun collect_samplers ::
  "'smp scheduler \<Rightarrow> sched_seq list \<Rightarrow> (sched_error, nat \<rightharpoonup> 'smp option) res" where
  "collect_samplers s [] = Ok Map.empty"
| "collect_samplers s (r # rs) =
     (case active s (sc_request r) of
        None \<Rightarrow> Err (MissingRequest (sc_request r))
      | Some a \<Rightarrow>
          (case collect_samplers s rs of
             Ok m \<Rightarrow> Ok (if m (sc_request r) = None then m(sc_request r \<mapsto> ac_sampler a) else m)
           | Err e \<Rightarrow> Err e | Panic \<Rightarrow> Panic))"

definition batch_sampling_state :: "nat \<Rightarrow> 'smp scheduler \<Rightarrow> (sched_error, nat \<rightharpoonup> 'smp option) res" where
  "batch_sampling_state bid s =
     (case in_flight_batch bid s of
        Ok b \<Rightarrow> collect_samplers s (sb_rows b) | Err e \<Rightarrow> Err e | Panic \<Rightarrow> Panic)"

type_synonym ('smp, 'f) select_fun =
  "nat \<Rightarrow> 'f logit list \<Rightarrow> 'smp option \<Rightarrow> (sched_error, token) res \<times> 'smp option"

fun select_rows ::
  "('smp, 'f) select_fun \<Rightarrow> ('smp \<Rightarrow> 'smp) \<Rightarrow> nat \<Rightarrow> 'smp scheduler \<Rightarrow> (sched_seq \<times> 'f logit list) list \<Rightarrow>
     (nat \<rightharpoonup> 'smp option) \<Rightarrow> (sched_error, token list \<times> (nat \<times> 'smp) list) res" where
  "select_rows select clear bid s [] st = Ok ([], [])"
| "select_rows select clear bid s ((r, values) # rows) st =
     (case active s (sc_request r) of
        None \<Rightarrow> Err (MissingRequest (sc_request r))
      | Some a \<Rightarrow>
          if ac_phase a \<noteq> InFlight bid then Err (NotOwned (sc_request r) bid)
          else if \<not> samples_token s r then
            (case select_rows select clear bid s rows st of
               Ok (ts, ss) \<Rightarrow> Ok (no_token # ts, ss) | Err e \<Rightarrow> Err e | Panic \<Rightarrow> Panic)
          else
            (case st (sc_request r) of
               None \<Rightarrow> Err MissingSampler
             | Some smp \<Rightarrow>
                 (case select (sc_request r) values smp of
                    (Err e, _) \<Rightarrow> Err e | (Panic, _) \<Rightarrow> Panic
                  | (Ok t, nxt) \<Rightarrow>
                      (case select_rows select clear bid s rows (st(sc_request r := None)) of
                         Ok (ts, ss) \<Rightarrow>
                           Ok (t # ts, (case nxt of None \<Rightarrow> ss | Some n \<Rightarrow> (sc_request r, clear n) # ss))
                       | Err e \<Rightarrow> Err e | Panic \<Rightarrow> Panic))))"

definition select_batch_tokens_with ::
  "('smp, 'f) select_fun \<Rightarrow> ('smp \<Rightarrow> 'smp) \<Rightarrow> nat \<Rightarrow> 'f logit list \<Rightarrow> nat \<Rightarrow> (nat \<rightharpoonup> 'smp option) \<Rightarrow>
     'smp scheduler \<Rightarrow> (sched_error, 'smp selection) res" where
  "select_batch_tokens_with select clear bid logits vocabulary st s =
     (case in_flight_batch bid s of
        Err e \<Rightarrow> Err e | Panic \<Rightarrow> Panic
      | Ok b \<Rightarrow>
          if vocabulary = 0 \<or> checked_mul (length (sb_rows b)) vocabulary \<noteq> Some (length logits)
          then Err LogitRows
          else (case select_rows select clear bid s
                       (zip (sb_rows b) (chunks vocabulary (length (sb_rows b)) logits)) st of
                  Ok (ts, ss) \<Rightarrow> Ok \<lparr>sel_batch = bid, sel_tokens = ts, sel_samplers = ss\<rparr>
                | Err e \<Rightarrow> Err e | Panic \<Rightarrow> Panic))"

text \<open>The first index of the greatest value that is not NaN.\<close>

fun greedy_scan :: "nat \<Rightarrow> ('f::linorder) logit list \<Rightarrow> (nat \<times> 'f) option \<Rightarrow> (nat \<times> 'f) option" where
  "greedy_scan i [] best = best"
| "greedy_scan i (v # vs) best =
     greedy_scan (Suc i) vs
       (case v of
          None \<Rightarrow> best
        | Some x \<Rightarrow> (case best of None \<Rightarrow> Some (i, x) | Some (j, y) \<Rightarrow> if x > y then Some (i, x) else best))"

definition greedy_token :: "('f::linorder) logit list \<Rightarrow> nat \<Rightarrow> (sched_error, token) res" where
  "greedy_token values row =
     (case greedy_scan 0 values None of
        None \<Rightarrow> Err (AllNaN row)
      | Some (i, _) \<Rightarrow> if i > i32_max then Err IndexAboveI32 else Ok (int i))"

definition select_batch_tokens ::
  "('smp \<Rightarrow> ('f::linorder) logit list \<Rightarrow> token list \<Rightarrow> token list \<Rightarrow> (sched_error, token) res \<times> 'smp) \<Rightarrow>
     ('smp \<Rightarrow> 'smp) \<Rightarrow> nat \<Rightarrow> 'f logit list \<Rightarrow> nat \<Rightarrow> 'smp scheduler \<Rightarrow> (sched_error, 'smp selection) res" where
  "select_batch_tokens sample clear bid logits vocabulary s =
     (case batch_sampling_state bid s of
        Err e \<Rightarrow> Err e | Panic \<Rightarrow> Panic
      | Ok st \<Rightarrow>
          select_batch_tokens_with
            (\<lambda>rid values smp. case smp of
               Some x \<Rightarrow>
                 (case active s rid of
                    None \<Rightarrow> (Panic, smp)
                  | Some a \<Rightarrow> (let (t, y) = sample x values (ac_prompt a) (ac_generated a) in (t, Some y)))
             | None \<Rightarrow> (greedy_token values 0, None))
            clear bid logits vocabulary st s)"

fun store_samplers :: "(nat \<times> 'smp) list \<Rightarrow> 'smp scheduler \<Rightarrow> 'smp scheduler" where
  "store_samplers [] s = s"
| "store_samplers ((rid, smp) # rest) s =
     store_samplers rest
       (case active s rid of
          None \<Rightarrow> s
        | Some a \<Rightarrow> s\<lparr>active := (active s)(rid \<mapsto> a\<lparr>ac_sampler := Some smp\<rparr>)\<rparr>)"

definition complete_selected_batch :: "chain_fun \<Rightarrow> 'smp selection \<Rightarrow> ('smp, token list) sched_op" where
  "complete_selected_batch chain sel =
     bind_op (complete_batch chain (sel_batch sel) (sel_tokens sel))
       (\<lambda>_ s. (Ok (sel_tokens sel), store_samplers (sel_samplers sel) s))"

end
