(* ===== verification/KvService.thy ===== *)
theory KvService
  imports PagedKvMachine
begin

text \<open>
  The contract between the KV manager and the schedulers that drive it, as a locale over
  the abstract ledger: what admission, reservation, grouped commit, grouped cancellation,
  creation and removal promise. It is interpreted on the operations of \<open>PagedKv\<close>; the
  scheduler's proofs use only these facts.
\<close>

section \<open>Ledgers\<close>

text \<open>An open reservation starts at the committed length and is the only one of its request.\<close>

definition lg_ok :: "ledger \<Rightarrow> bool" where
  "lg_ok l \<longleftrightarrow> (\<forall>i r st n. snd l i = Some (r, st, n) \<longrightarrow> fst l r = Some st \<and> 0 < n)
     \<and> (\<forall>i j r st n st' n'. snd l i = Some (r, st, n) \<longrightarrow> snd l j = Some (r, st', n') \<longrightarrow> i = j)"

definition lg_free :: "ledger \<Rightarrow> nat \<Rightarrow> bool" where
  "lg_free l r \<longleftrightarrow> (\<forall>i st n. snd l i \<noteq> Some (r, st, n))"

definition begun :: "ledger \<Rightarrow> nat \<Rightarrow> nat \<Rightarrow> append_reservation \<Rightarrow> ledger \<Rightarrow> bool" where
  "begun l r n a l' \<longleftrightarrow> ar_request a = r \<and> fst l r = Some (ar_start a) \<and> ar_context a = ar_start a + n
     \<and> 0 < n \<and> snd l (ar_id a) = None \<and> lg_free l r \<and> l' = lg_begin (ar_id a) r n l"

definition rows_within :: "ledger \<Rightarrow> (nat \<times> nat) list \<Rightarrow> bool" where
  "rows_within l rows \<longleftrightarrow> distinct (map fst rows) \<and>
     (\<forall>(i, k)\<in>set rows. 0 < k \<and> (\<exists>r st m. snd l i = Some (r, st, m) \<and> k \<le> m))"

lemma lg_settle_other: "j \<noteq> i \<Longrightarrow> snd (lg_settle i k l) j = snd l j"
  by (auto simp: lg_settle_def split: option.splits)

lemma lg_settle_gone: "snd (lg_settle i k l) i = None"
  by (auto simp: lg_settle_def split: option.splits)

lemma lg_settle_rows_other: "i \<notin> fst ` set rows \<Longrightarrow> snd (lg_settle_rows rows l) i = snd l i"
proof (induction rows arbitrary: l)
  case (Cons row rows)
  obtain j k where row: "row = (j, k)" by (cases row)
  then have "snd (lg_settle_rows rows (lg_settle j k l)) i = snd (lg_settle j k l) i"
    using Cons.prems by (intro Cons.IH) auto
  then show ?case using Cons.prems row by (simp add: lg_settle_other)
qed simp

lemma lg_settle_none: "snd l i = None \<Longrightarrow> snd (lg_settle j k l) i = None"
  by (cases "i = j") (simp_all add: lg_settle_gone lg_settle_other)

lemma lg_settle_rows_none: "snd l i = None \<Longrightarrow> snd (lg_settle_rows rows l) i = None"
proof (induction rows arbitrary: l)
  case (Cons row rows)
  then show ?case by (cases row) (simp add: lg_settle_none)
qed simp

lemma lg_settle_rows_gone: "i \<in> fst ` set rows \<Longrightarrow> snd (lg_settle_rows rows l) i = None"
proof (induction rows arbitrary: l)
  case (Cons row rows)
  obtain j k where row: "row = (j, k)" by (cases row)
  show ?case
  proof (cases "j = i")
    case True
    then show ?thesis using row by (simp add: lg_settle_rows_none lg_settle_gone)
  next
    case False
    then have "i \<in> fst ` set rows" using Cons.prems row by auto
    then show ?thesis using Cons.IH row by simp
  qed
qed simp

lemma lg_ok_settle:
  assumes "lg_ok l"
  shows "lg_ok (lg_settle i k l)"
proof (cases "snd l i")
  case None
  then show ?thesis using assms by (simp add: lg_settle_def)
next
  case (Some v)
  obtain r st n where v: "v = (r, st, n)" by (cases v)
  have "j \<noteq> i \<Longrightarrow> snd l j = Some (r', st', n') \<Longrightarrow> r' \<noteq> r" for j r' st' n'
    using assms Some v unfolding lg_ok_def by metis
  then show ?thesis using assms Some v unfolding lg_ok_def lg_settle_def by (auto split: if_splits)
qed

text \<open>Where a request stands after its row of a group has been settled.\<close>

lemma lg_settle_fst:
  assumes "lg_ok l"
  shows "fst (lg_settle i k l) r =
    (case snd l i of Some (r', st, n) \<Rightarrow> if r' = r then Some (st + k) else fst l r | None \<Rightarrow> fst l r)"
  using assms by (auto simp: lg_settle_def split: option.splits)

lemma lg_settle_rows_untouched:
  "lg_ok l \<Longrightarrow> \<forall>(i, k)\<in>set rows. \<forall>st n. snd l i \<noteq> Some (r, st, n) \<Longrightarrow>
     fst (lg_settle_rows rows l) r = fst l r"
proof (induction rows arbitrary: l)
  case Nil
  then show ?case by simp
next
  case (Cons row rows)
  obtain i k where row: "row = (i, k)" by (cases row)
  have "\<forall>(j, k')\<in>set rows. \<forall>st n. snd (lg_settle i k l) j \<noteq> Some (r, st, n)"
  proof (intro ballI, clarify)
    fix j k' st n assume "(j, k') \<in> set rows" and s: "snd (lg_settle i k l) j = Some (r, st, n)"
    then have "j \<noteq> i" using lg_settle_gone [of i k l] by auto
    with s have "snd l j = Some (r, st, n)" by (simp add: lg_settle_other)
    with Cons.prems(2) \<open>(j, k') \<in> set rows\<close> show False by fastforce
  qed
  with Cons.IH [OF lg_ok_settle [OF Cons.prems(1)]]
  have "fst (lg_settle_rows rows (lg_settle i k l)) r = fst (lg_settle i k l) r" by blast
  also have "\<dots> = fst l r"
    using Cons.prems row by (auto simp: lg_settle_fst split: option.splits)
  finally show ?case by (simp add: row)
qed

lemma lg_settle_rows_request:
  assumes "lg_ok l" and "distinct (map fst rows)" and "(i, k) \<in> set rows" and "snd l i = Some (r, st, n)"
  shows "fst (lg_settle_rows rows l) r = Some (st + k)"
  using assms
proof (induction rows arbitrary: l)
  case Nil
  then show ?case by simp
next
  case (Cons row rows)
  obtain i' k' where row: "row = (i', k')" by (cases row)
  show ?case
  proof (cases "i' = i")
    case True
    then have "i \<notin> fst ` set rows" "k' = k" using Cons.prems(2,3) row by (auto simp: image_iff)
    have "\<forall>(j, m)\<in>set rows. \<forall>st n. snd (lg_settle i k l) j \<noteq> Some (r, st, n)"
    proof (intro ballI, clarify)
      fix j m st' n' assume "(j, m) \<in> set rows" and s: "snd (lg_settle i k l) j = Some (r, st', n')"
      then have ji: "j \<noteq> i" using \<open>i \<notin> fst ` set rows\<close> by force
      with s have "snd l j = Some (r, st', n')" by (simp add: lg_settle_other)
      with Cons.prems(1,4) ji show False unfolding lg_ok_def by blast
    qed
    from lg_settle_rows_untouched [OF lg_ok_settle [OF Cons.prems(1)] this]
    show ?thesis using Cons.prems(4) True \<open>k' = k\<close> row by (simp add: lg_settle_def)
  next
    case False
    then have "(i, k) \<in> set rows" using Cons.prems(3) row by auto
    moreover have "snd (lg_settle i' k' l) i = Some (r, st, n)"
      using Cons.prems(4) False by (simp add: lg_settle_other)
    ultimately show ?thesis
      using Cons.IH [OF lg_ok_settle [OF Cons.prems(1)]] Cons.prems(2) row by simp
  qed
qed

text \<open>Cancelling moves no request.\<close>

lemma lg_cancel_fst:
  assumes "lg_ok l"
  shows "fst (lg_settle_rows (map (\<lambda>i. (i, 0)) is) l) = fst l"
  using assms
proof (induction "is" arbitrary: l)
  case (Cons i "is")
  have "fst (lg_settle i 0 l) = fst l"
    using Cons.prems by (auto simp: lg_settle_def lg_ok_def split: option.splits)
  then show ?case using Cons.IH [OF lg_ok_settle [OF Cons.prems]] by simp
qed simp

lemma lg_cancel_all:
  assumes "lg_ok l" and "set is = dom (snd l)"
  shows "lg_settle_rows (map (\<lambda>i. (i, 0)) is) l = (fst l, Map.empty)"
proof -
  let ?l = "lg_settle_rows (map (\<lambda>i. (i, 0)) is) l"
  have "snd ?l i = None" for i
  proof (cases "i \<in> set is")
    case True
    then show ?thesis by (intro lg_settle_rows_gone) force
  next
    case False
    then have "snd ?l i = snd l i" by (intro lg_settle_rows_other) force
    then show ?thesis using False assms(2) by auto
  qed
  then show ?thesis using lg_cancel_fst [OF assms(1)] by (simp add: prod_eq_iff fun_eq_iff)
qed

section \<open>The contract\<close>

locale reservation_service =
  fixes inv :: "'k \<Rightarrow> bool"
    and ledger :: "'k \<Rightarrow> ledger"
    and cap :: "'k \<Rightarrow> nat"
    and can :: "nat \<Rightarrow> nat \<Rightarrow> 'k \<Rightarrow> ('e, bool) res \<times> 'k"
    and reserve :: "nat \<Rightarrow> nat \<Rightarrow> 'k \<Rightarrow> ('e, append_reservation) res \<times> 'k"
    and commit :: "(nat \<times> nat) list \<Rightarrow> 'k \<Rightarrow> ('e, nat list) res \<times> 'k"
    and abort :: "nat list \<Rightarrow> 'k \<Rightarrow> ('e, unit) res \<times> 'k"
    and create :: "nat \<Rightarrow> 'k \<Rightarrow> ('e, unit) res \<times> 'k"
    and drop_seq :: "nat \<Rightarrow> 'k \<Rightarrow> ('e, unit) res \<times> 'k"
  assumes ledger_ok: "inv k \<Longrightarrow> lg_ok (ledger k)"
    and finite_ledger: "inv k \<Longrightarrow> finite (dom (fst (ledger k)))"
    and can_pure: "inv k \<Longrightarrow> fst (ledger k) r \<noteq> None \<Longrightarrow> \<exists>b. can r n k = (Ok b, k)"
    and reserve_law: "inv k \<Longrightarrow> (\<exists>e. reserve r n k = (Err e, k)) \<or>
      (\<exists>a k'. reserve r n k = (Ok a, k') \<and> inv k' \<and> begun (ledger k) r n a (ledger k')
         \<and> ar_context a \<le> cap k \<and> cap k' = cap k)"
    and commit_law: "inv k \<Longrightarrow> if rows_within (ledger k) rows
      then \<exists>ps k'. commit rows k = (Ok ps, k') \<and> inv k' \<and> ledger k' = lg_settle_rows rows (ledger k) \<and> cap k' = cap k
      else \<exists>e. commit rows k = (Err e, k)"
    and abort_law: "inv k \<Longrightarrow> if distinct is \<and> set is \<subseteq> dom (snd (ledger k))
      then \<exists>k'. abort is k = (Ok (), k') \<and> inv k'
             \<and> ledger k' = lg_settle_rows (map (\<lambda>i. (i, 0)) is) (ledger k) \<and> cap k' = cap k
      else \<exists>e. abort is k = (Err e, k)"
    and create_law: "inv k \<Longrightarrow> fst (ledger k) r = None \<Longrightarrow>
      \<exists>k'. create r k = (Ok (), k') \<and> inv k' \<and> ledger k' = lg_create r 0 (ledger k) \<and> cap k' = cap k"
    and drop_law: "inv k \<Longrightarrow> fst (ledger k) r \<noteq> None \<Longrightarrow> lg_free (ledger k) r \<Longrightarrow>
      \<exists>k'. drop_seq r k = (Ok (), k') \<and> inv k' \<and> ledger k' = lg_remove r (ledger k) \<and> cap k' = cap k"
begin

text \<open>Aborting everything that is open leaves the committed lengths and nothing open.\<close>

lemma abort_everything:
  assumes "inv k" and "distinct is" and "set is = dom (snd (ledger k))"
  obtains k' where "abort is k = (Ok (), k')" and "inv k'" and "ledger k' = (fst (ledger k), Map.empty)"
    and "cap k' = cap k"
  using abort_law [OF assms(1), of "is"] assms lg_cancel_all [OF ledger_ok [OF assms(1)] assms(3)] by auto

text \<open>A request is dropped and starts again from nothing.\<close>

lemma recreate:
  assumes "inv k" and "fst (ledger k) r \<noteq> None" and "lg_free (ledger k) r"
  obtains k1 k2 where "drop_seq r k = (Ok (), k1)" and "create r k1 = (Ok (), k2)" and "inv k2"
    and "ledger k2 = ((fst (ledger k))(r \<mapsto> 0), snd (ledger k))" and "cap k2 = cap k"
proof -
  obtain k1 where k1: "drop_seq r k = (Ok (), k1)" "inv k1" "ledger k1 = lg_remove r (ledger k)" "cap k1 = cap k"
    using drop_law [OF assms] by blast
  have "fst (ledger k1) r = None" by (simp add: k1(3) lg_remove_def)
  from create_law [OF k1(2) this] obtain k2 where
    "create r k1 = (Ok (), k2)" "inv k2" "ledger k2 = lg_create r 0 (ledger k1)" "cap k2 = cap k1" by blast
  with that k1 show thesis by (auto simp: lg_create_def lg_remove_def)
qed

end

section \<open>The KV manager provides it\<close>

definition kv_cap :: "kv_manager \<Rightarrow> nat" where
  "kv_cap k = max_sequence_length (kv_conf k)"

lemma kv_lg_ok: "kv_inv k \<Longrightarrow> lg_ok (kv_ledger k)"
  unfolding lg_ok_def
proof (intro conjI allI impI)
  assume inv: "kv_inv k"
  show "fst (kv_ledger k) r = Some st" "0 < n" if op: "snd (kv_ledger k) i = Some (r, st, n)" for i r st n
  proof -
    obtain v where v: "reservations k i = Some v" "r = rs_request v" "st = rs_start v" "n = rs_count v"
      using op by (auto simp: kv_ledger_lookup)
    obtain q where "sequences k (rs_request v) = Some q" "rs_start v = sq_committed q" "0 < rs_count v"
      using kv_inv_reservation [OF inv v(1)] by metis
    then show "fst (kv_ledger k) r = Some st" "0 < n" using v(2-4) by (simp_all add: kv_ledger_lookup)
  qed
  show "i = j" if "snd (kv_ledger k) i = Some (r, st, n)" "snd (kv_ledger k) j = Some (r, st', n')" for i j r st n st' n'
  proof -
    obtain v w where v: "reservations k i = Some v" "rs_request v = r" "reservations k j = Some w" "rs_request w = r"
      using \<open>snd (kv_ledger k) i = Some (r, st, n)\<close> \<open>snd (kv_ledger k) j = Some (r, st', n')\<close> by (auto simp: kv_ledger_lookup)
    then show "i = j" using kv_inv_reservation [OF inv v(1)] kv_inv_reservation [OF inv v(3)]
      by (metis option.inject)
  qed
qed

lemma kv_rows_within: "rows_within (kv_ledger k) rows \<longleftrightarrow> rows_ok k rows"
  by (auto simp: rows_within_def rows_ok_def row_ok_def kv_ledger_lookup)

lemma kv_reserve_law:
  assumes inv: "kv_inv k"
  shows "(\<exists>e. begin_append r n k = (Err e, k)) \<or>
      (\<exists>a k'. begin_append r n k = (Ok a, k') \<and> kv_inv k' \<and> begun (kv_ledger k) r n a (kv_ledger k')
         \<and> ar_context a \<le> kv_cap k \<and> kv_cap k' = kv_cap k)"
proof (rule begin_append_cases [OF inv, of r n])
  fix q :: sequence_state and new k'
  assume q: "sequences k r = Some q" "sq_pending q = None" "0 < n"
      "sq_committed q + n \<le> max_sequence_length (kv_conf k)"
    and run: "begin_append r n k = (Ok \<lparr>ar_id = next_reservation k, ar_request = r,
        ar_start = sq_committed q, ar_count = n, ar_context = sq_committed q + n,
        ar_new_pages = new, ar_table = sq_pages q @ new\<rparr>, k')" and inv': "kv_inv k'"
    and k': "sequences k' = (sequences k)(r \<mapsto> q\<lparr>sq_pages := sq_pages q @ new, sq_pending := Some (next_reservation k)\<rparr>)"
      "reservations k' = (reservations k)(next_reservation k \<mapsto>
          \<lparr>rs_request = r, rs_previous = length (sq_pages q), rs_start = sq_committed q, rs_count = n\<rparr>)"
      "kv_conf k' = kv_conf k"
  have none: "reservations k (next_reservation k) = None"
    using kv_inv_fresh [OF inv] by (metis less_irrefl not_Some_eq)
  have "kv_ledger k' = lg_begin (next_reservation k) r n (kv_ledger k)"
    using k' q(1) by (auto simp: kv_ledger_def lg_begin_def fun_eq_iff)
  then have "begun (kv_ledger k) r n \<lparr>ar_id = next_reservation k, ar_request = r,
        ar_start = sq_committed q, ar_count = n, ar_context = sq_committed q + n,
        ar_new_pages = new, ar_table = sq_pages q @ new\<rparr> (kv_ledger k')"
    using q none no_open [OF inv q(1,2)] by (simp add: begun_def lg_free_def kv_ledger_lookup)
  then show ?thesis using run inv' q(4) k'(3) by (auto simp: kv_cap_def)
qed blast

interpretation kvs: reservation_service kv_inv kv_ledger kv_cap can_append begin_append
  commit_append_prefixes cancel_appends create_sequence remove_sequence
proof
  fix k :: kv_manager assume inv: "kv_inv k"
  show "lg_ok (kv_ledger k)" by (rule kv_lg_ok [OF inv])
  show "finite (dom (fst (kv_ledger k)))"
    using kv_inv_finite(1) [OF inv] by (simp add: kv_ledger_def dom_def)
  show "\<exists>b. can_append r n k = (Ok b, k)" if "fst (kv_ledger k) r \<noteq> None" for r n
    using that by (auto simp: can_append_def sequence_def bind_op_def kv_ledger_lookup split: option.splits)
  show "(\<exists>e. begin_append r n k = (Err e, k)) \<or>
      (\<exists>a k'. begin_append r n k = (Ok a, k') \<and> kv_inv k' \<and> begun (kv_ledger k) r n a (kv_ledger k')
         \<and> ar_context a \<le> kv_cap k \<and> kv_cap k' = kv_cap k)" for r n
    by (rule kv_reserve_law [OF inv])
  show "if rows_within (kv_ledger k) rows
      then \<exists>ps k'. commit_append_prefixes rows k = (Ok ps, k') \<and> kv_inv k'
             \<and> kv_ledger k' = lg_settle_rows rows (kv_ledger k) \<and> kv_cap k' = kv_cap k
      else \<exists>e. commit_append_prefixes rows k = (Err e, k)" for rows
    using commit_append_prefixes_err [OF inv, of rows]
    by (auto simp: kv_rows_within kv_static_def kv_cap_def elim: commit_append_prefixes_ok [OF inv])
  show "if distinct is \<and> set is \<subseteq> dom (snd (kv_ledger k))
      then \<exists>k'. cancel_appends is k = (Ok (), k') \<and> kv_inv k'
             \<and> kv_ledger k' = lg_settle_rows (map (\<lambda>i. (i, 0)) is) (kv_ledger k) \<and> kv_cap k' = kv_cap k
      else \<exists>e. cancel_appends is k = (Err e, k)" for "is"
  proof -
    have "dom (snd (kv_ledger k)) = dom (reservations k)" by (auto simp: kv_ledger_def)
    then show ?thesis using cancel_appends_err [OF inv, of "is"]
      by (auto simp: kv_static_def kv_cap_def elim: cancel_appends_ok [OF inv, of "is"])
  qed
  show "\<exists>k'. create_sequence r k = (Ok (), k') \<and> kv_inv k' \<and> kv_ledger k' = lg_create r 0 (kv_ledger k)
      \<and> kv_cap k' = kv_cap k" if "fst (kv_ledger k) r = None" for r
  proof -
    have none: "sequences k r = None" using that by (simp add: kv_ledger_lookup)
    let ?k = "k\<lparr>sequences := (sequences k)(r \<mapsto> fresh_sequence)\<rparr>"
    have "kv_ledger ?k = lg_create r 0 (kv_ledger k)"
      by (auto simp: kv_ledger_def lg_create_def fresh_sequence_def)
    then show ?thesis using create_sequence_inv [OF inv none] none
      by (intro exI [of _ ?k]) (simp add: create_sequence_eq kv_cap_def)
  qed
  show "\<exists>k'. remove_sequence r k = (Ok (), k') \<and> kv_inv k' \<and> kv_ledger k' = lg_remove r (kv_ledger k)
      \<and> kv_cap k' = kv_cap k" if l: "fst (kv_ledger k) r \<noteq> None" "lg_free (kv_ledger k) r" for r
  proof -
    obtain q where q: "sequences k r = Some q" using l(1) by (auto simp: kv_ledger_lookup)
    have "sq_pending q = None"
    proof (rule ccontr)
      assume "sq_pending q \<noteq> None"
      then obtain i where "sq_pending q = Some i" by auto
      from kv_inv_pending_Some [OF inv q this] l(2) show False
        by (auto simp: lg_free_def kv_ledger_lookup)
    qed
    from remove_sequence_ok [OF inv q this] obtain k' where
      k': "remove_sequence r k = (Ok (), k')" "kv_inv k'" "sequences k' = (sequences k)(r := None)"
        "reservations k' = reservations k" "kv_static k k'" .
    have "kv_ledger k' = lg_remove r (kv_ledger k)"
      using k'(3,4) by (auto simp: kv_ledger_def lg_remove_def)
    with k'(1,2,5) show ?thesis by (simp add: kv_static_def kv_cap_def)
  qed
qed

section \<open>Publishing and settling one row\<close>

text \<open>
  The operations with which a finished row is published and settled: registering a prefix
  changes nothing a scheduler can see, a partial commit keeps a nonempty part of one row.
\<close>

locale commit_service = reservation_service +
  fixes register :: "nat \<Rightarrow> 't list \<Rightarrow> 'a \<Rightarrow> ('b, unit) res \<times> 'a"
    and settle_part :: "nat \<Rightarrow> nat \<Rightarrow> 'a \<Rightarrow> ('b, nat) res \<times> 'a"
  assumes register_law: "inv k \<Longrightarrow> fst (ledger k) r \<noteq> None \<Longrightarrow>
      \<exists>k'. register r ts k = (Ok (), k') \<and> inv k' \<and> ledger k' = ledger k \<and> cap k' = cap k"
    and settle_part_law: "inv k \<Longrightarrow> snd (ledger k) i = Some (r, st, m) \<Longrightarrow> 0 < n \<Longrightarrow> n \<le> m \<Longrightarrow>
      \<exists>p k'. settle_part i n k = (Ok p, k') \<and> inv k' \<and> ledger k' = lg_settle i n (ledger k) \<and> cap k' = cap k"
begin

text \<open>A row that is settled in part and published stands where it started plus that part.\<close>

lemma settle_and_register:
  assumes "inv k" and row: "snd (ledger k) i = Some (r, st, m)" and n: "0 < n" "n \<le> m"
  obtains p k1 k2 where "settle_part i n k = (Ok p, k1)" and "register r ts k1 = (Ok (), k2)"
    and "inv k1" and "inv k2" and "cap k1 = cap k" and "cap k2 = cap k"
    and "ledger k1 = ((fst (ledger k))(r \<mapsto> st + n), (snd (ledger k))(i := None))" and "ledger k2 = ledger k1"
proof -
  obtain p k1 where k1: "settle_part i n k = (Ok p, k1)" "inv k1" "ledger k1 = lg_settle i n (ledger k)" "cap k1 = cap k"
    using settle_part_law [OF assms] by blast
  have l: "ledger k1 = ((fst (ledger k))(r \<mapsto> st + n), (snd (ledger k))(i := None))"
    using k1(3) row by (simp add: lg_settle_def)
  then have "fst (ledger k1) r \<noteq> None" by simp
  from register_law [OF k1(2) this] that k1 l show thesis by metis
qed

end

interpretation kvc: commit_service kv_inv kv_ledger kv_cap can_append begin_append
  commit_append_prefixes cancel_appends create_sequence remove_sequence "register_prefix chain" commit_append_partial
  for chain :: chain_fun
proof
  fix k :: kv_manager assume inv: "kv_inv k"
  show "\<exists>k'. register_prefix chain r ts k = (Ok (), k') \<and> kv_inv k' \<and> kv_ledger k' = kv_ledger k \<and> kv_cap k' = kv_cap k"
    if r: "fst (kv_ledger k) r \<noteq> None" for r ts
  proof (rule register_prefix_cases [OF inv, of chain r ts])
    assume "register_prefix chain r ts k = (Ok (), k)"
    then show ?thesis using inv by blast
  next
    assume "sequences k r = None"
    then show ?thesis using r by (simp add: kv_ledger_lookup)
  next
    fix q n h k' assume q: "sequences k r = Some q" and run: "register_prefix chain r ts k = (Ok (), k')" "kv_inv k'"
      and k': "sequences k' = (sequences k)(r \<mapsto> q\<lparr>sq_registered := n, sq_hash := h\<rparr>)"
        "reservations k' = reservations k" "kv_static k k'"
    have "kv_ledger k' = kv_ledger k" using q k' by (auto simp: kv_ledger_def fun_eq_iff)
    then show ?thesis using run k'(3) by (auto simp: kv_static_def kv_cap_def)
  qed
  show "\<exists>p k'. commit_append_partial i n k = (Ok p, k') \<and> kv_inv k' \<and> kv_ledger k' = lg_settle i n (kv_ledger k)
      \<and> kv_cap k' = kv_cap k" if op: "snd (kv_ledger k) i = Some (r, st, m)" "0 < n" "n \<le> m" for i r st m n
  proof -
    obtain v where v: "reservations k i = Some v" "rs_count v = m" using op(1) by (auto simp: kv_ledger_lookup)
    have n: "n \<le> rs_count v" using op(3) v(2) by simp
    obtain k' where k': "commit_row (i, n) k = (Ok (rs_start v + n), k')" "kv_inv k'" "settled i (rs_start v + n) k k'"
      by (rule commit_row_ok [OF inv v(1) op(2) n])
    have "commit_append_partial i n k = (Ok (rs_start v + n), k')"
      using commit_append_partial_row [OF inv v(1) op(2) n] k'(1) by simp
    moreover have "kv_cap k' = kv_cap k" using settled_ledger(2) [OF k'(3) v(1)] by (simp add: kv_static_def kv_cap_def)
    ultimately show ?thesis using k'(2) settled_ledger(1) [OF k'(3) v(1)] by blast
  qed
qed

end
