(* ===== verification/BatchInv.thy ===== *)
theory BatchInv
  imports BatchLifecycle KvService
begin

text \<open>
  The invariant of the scheduler and the proofs that scheduling keeps it. Between batches
  (\<open>idle_inv\<close>) nothing is reserved and every active request is either waiting for a part of
  its history to be written, or has all of it written but the last token. While a batch
  runs (\<open>flight_inv\<close>) the open reservations are exactly those of its rows.
\<close>

section \<open>The invariant\<close>

abbreviation len_of :: "'smp scheduler \<Rightarrow> nat \<rightharpoonup> nat" where
  "len_of s \<equiv> fst (kv_ledger (kv s))"

abbreviation open_of :: "'smp scheduler \<Rightarrow> nat \<rightharpoonup> nat \<times> nat \<times> nat" where
  "open_of s \<equiv> snd (kv_ledger (kv s))"

definition request_ok :: "nat \<Rightarrow> 'smp active_request \<Rightarrow> bool" where
  "request_ok cap a \<longleftrightarrow> ac_history a = ac_prompt a @ ac_generated a \<and> ac_prompt a \<noteq> []
     \<and> length (ac_generated a) < max_new_tokens (ac_gen a)
     \<and> length (ac_prompt a) + max_new_tokens (ac_gen a) \<le> cap
     \<and> ac_eos a = set (eos_token_ids (ac_gen a)) \<and> set (ac_generated a) \<inter> ac_eos a = {}"

definition pending_ok :: "nat \<Rightarrow> nat \<Rightarrow> 'smp pending_request \<Rightarrow> bool" where
  "pending_ok cap nxt r \<longleftrightarrow> pr_prompt r \<noteq> [] \<and> 0 < max_new_tokens (pr_gen r)
     \<and> length (pr_prompt r) + max_new_tokens (pr_gen r) \<le> cap \<and> pr_id r < nxt"

definition base_inv :: "'smp scheduler \<Rightarrow> bool" where
  "base_inv s \<longleftrightarrow> kv_inv (kv s) \<and> dom (active s) = dom (len_of s)
     \<and> (\<forall>rid a. active s rid = Some a \<longrightarrow> request_ok (kv_cap (kv s)) a \<and> rid < next_request s)
     \<and> (\<forall>r\<in>set (pending s). pending_ok (kv_cap (kv s)) (next_request s) r \<and> active s (pr_id r) = None)
     \<and> distinct (map pr_id (pending s)) \<and> next_batch s \<le> usize_max"

definition phase_ok :: "(nat \<rightharpoonup> nat) \<Rightarrow> nat \<Rightarrow> 'smp active_request \<Rightarrow> bool" where
  "phase_ok L rid a \<longleftrightarrow>
     (case ac_phase a of
        NeedsPrefill \<Rightarrow> (\<exists>c. L rid = Some c \<and> c < length (ac_history a))
      | AwaitingDecode t \<Rightarrow> L rid = Some (length (ac_history a) - 1) \<and> ac_generated a \<noteq> []
          \<and> last (ac_history a) = t
      | InFlight b \<Rightarrow> False)"

definition idle_inv :: "'smp scheduler \<Rightarrow> bool" where
  "idle_inv s \<longleftrightarrow> base_inv s \<and> in_flight s = None \<and> open_of s = Map.empty
     \<and> (\<forall>rid a. active s rid = Some a \<longrightarrow> phase_ok (len_of s) rid a)"

definition row_shape :: "batch_kind \<Rightarrow> 'smp active_request \<Rightarrow> nat \<Rightarrow> token list \<Rightarrow> bool" where
  "row_shape kind a st toks \<longleftrightarrow>
     (case kind of
        Prefill \<Rightarrow> st + length toks \<le> length (ac_history a) \<and> toks = take (length toks) (drop st (ac_history a))
      | Decode \<Rightarrow> Suc st = length (ac_history a) \<and> toks = [last (ac_history a)] \<and> ac_generated a \<noteq> []
      | Verify \<Rightarrow> Suc st = length (ac_history a) \<and> hd toks = last (ac_history a) \<and> ac_generated a \<noteq> [])"

definition row_inv :: "batch_kind \<Rightarrow> nat \<Rightarrow> 'smp scheduler \<Rightarrow> sched_seq \<Rightarrow> bool" where
  "row_inv kind bid s r \<longleftrightarrow>
     (\<exists>a. active s (sc_request r) = Some a \<and> ac_phase a = InFlight bid
        \<and> row_shape kind a (sc_start r) (sc_tokens r))
     \<and> len_of s (sc_request r) = Some (sc_start r)
     \<and> (\<exists>m. open_of s (sc_reservation r) = Some (sc_request r, sc_start r, m) \<and> length (sc_tokens r) \<le> m)
     \<and> sc_context r = sc_start r + length (sc_tokens r) \<and> sc_tokens r \<noteq> []
     \<and> sc_context r \<le> kv_cap (kv s)"

definition flight_inv :: "'smp scheduler \<Rightarrow> sched_batch \<Rightarrow> bool" where
  "flight_inv s b \<longleftrightarrow> base_inv s \<and> sb_rows b \<noteq> [] \<and> distinct (map sc_request (sb_rows b))
     \<and> (\<forall>r\<in>set (sb_rows b). row_inv (sb_kind b) (sb_id b) s r)
     \<and> dom (open_of s) = sc_reservation ` set (sb_rows b)
     \<and> (\<forall>r\<in>set (sb_rows b). length (sc_tokens r) = next_n b)
     \<and> batch_size b * next_n b \<le> max_batch_tokens (cfg s)
     \<and> (\<forall>rid a. active s rid = Some a \<longrightarrow> rid \<notin> sc_request ` set (sb_rows b) \<longrightarrow> phase_ok (len_of s) rid a)"

definition sched_inv :: "'smp scheduler \<Rightarrow> bool" where
  "sched_inv s \<longleftrightarrow> (case in_flight s of None \<Rightarrow> idle_inv s | Some b \<Rightarrow> flight_inv s b)"

lemma sched_inv_idle: "in_flight s = None \<Longrightarrow> sched_inv s \<longleftrightarrow> idle_inv s"
  by (simp add: sched_inv_def)

lemma sched_inv_flight: "in_flight s = Some b \<Longrightarrow> sched_inv s \<longleftrightarrow> flight_inv s b"
  by (simp add: sched_inv_def)

text \<open>
  What a client sees of the requests under way: configuration, prompt and generated tokens.
  Scheduling, preemption and failure change none of it.
\<close>

definition contents :: "'smp scheduler \<Rightarrow> nat \<rightharpoonup> generation_config \<times> token list \<times> token list" where
  "contents s = map_of (map (\<lambda>r. (pr_id r, pr_gen r, pr_prompt r, [])) (pending s))
     ++ (\<lambda>rid. map_option (\<lambda>a. (ac_gen a, ac_prompt a, ac_generated a)) (active s rid))"

definition same_work :: "'smp scheduler \<Rightarrow> 'smp scheduler \<Rightarrow> bool" where
  "same_work s t \<longleftrightarrow> contents t = contents s \<and> finished t = finished s \<and> next_request t = next_request s"

definition keeps :: "'smp scheduler \<Rightarrow> 'smp scheduler \<Rightarrow> bool" where
  "keeps s t \<longleftrightarrow> idle_inv t \<and> same_work s t"

section \<open>Consequences\<close>

lemma same_work_refl [simp]: "same_work s s"
  by (simp add: same_work_def)

lemma same_work_trans: "same_work s t \<Longrightarrow> same_work t u \<Longrightarrow> same_work s u"
  by (simp add: same_work_def)

lemma keeps_trans: "same_work s t \<Longrightarrow> keeps t u \<Longrightarrow> keeps s u"
  by (simp add: keeps_def same_work_def)

lemma contents_active: "active s rid = Some a \<Longrightarrow> contents s rid = Some (ac_gen a, ac_prompt a, ac_generated a)"
  by (simp add: contents_def map_add_Some_iff)

lemma same_work_phases:
  assumes "\<And>rid. map_option (\<lambda>a. (ac_gen a, ac_prompt a, ac_generated a)) (active t rid)
      = map_option (\<lambda>a. (ac_gen a, ac_prompt a, ac_generated a)) (active s rid)"
    and "pending t = pending s" and "finished t = finished s" and "next_request t = next_request s"
  shows "same_work s t"
  using assms by (simp add: same_work_def contents_def)

lemma base_len: "base_inv s \<Longrightarrow> active s rid = Some a \<Longrightarrow> \<exists>c. len_of s rid = Some c"
  unfolding base_inv_def by (metis domD domI)

lemma base_active: "base_inv s \<Longrightarrow> len_of s rid = Some c \<Longrightarrow> \<exists>a. active s rid = Some a"
  unfolding base_inv_def by (metis domD domI)

lemma base_finite: "base_inv s \<Longrightarrow> finite (dom (active s))"
  unfolding base_inv_def using kvs.finite_ledger by metis

lemma active_ids_set [simp]: "base_inv s \<Longrightarrow> set (active_ids s) = dom (active s)"
  using base_finite [of s] by (simp add: active_ids_def)

lemma base_request: "base_inv s \<Longrightarrow> active s rid = Some a \<Longrightarrow> request_ok (kv_cap (kv s)) a"
  by (simp add: base_inv_def)

lemma base_kv: "base_inv s \<Longrightarrow> kv_inv (kv s)"
  by (simp add: base_inv_def)

lemma request_ok_phase [simp]: "request_ok cap (a\<lparr>ac_phase := p\<rparr>) = request_ok cap a"
  by (simp add: request_ok_def)

lemma idle_sched: "idle_inv s \<Longrightarrow> sched_inv s"
  by (simp add: sched_inv_def idle_inv_def)

lemma request_history: "request_ok cap a \<Longrightarrow> length (ac_history a) < cap" 
  by (auto simp: request_ok_def)

lemma kv_update_same [simp]: "s\<lparr>kv := kv s\<rparr> = s"
  by (cases s) simp

lemma wp_on_kv:
  "wp (on_kv m) Q E s = wp m (\<lambda>a k. Q a (s\<lparr>kv := k\<rparr>)) (\<lambda>e k. E (KvFailed e) (s\<lparr>kv := k\<rparr>)) (kv s)"
  by (auto simp: wp_def on_kv_def split: prod.splits res.splits)

lemma on_kv_Ok: "m (kv s) = (Ok a, k) \<Longrightarrow> on_kv m s = (Ok a, s\<lparr>kv := k\<rparr>)"
  by (simp add: on_kv_def)

lemma get_active_Ok: "active s rid = Some a \<Longrightarrow> get_active rid s = (Ok a, s)"
  by (simp add: get_active_def)

lemma committed_eq: "fst (kv_ledger k) rid = Some c \<Longrightarrow> committed_tokens rid k = (Ok c, k)"
  by (auto simp: committed_tokens_def sequence_def bind_op_def kv_ledger_lookup)

lemma on_committed: "len_of s rid = Some c \<Longrightarrow> on_kv (committed_tokens rid) s = (Ok c, s)"
  by (simp add: on_kv_Ok [OF committed_eq])

lemma on_can_append:
  "kv_inv (kv s) \<Longrightarrow> len_of s rid \<noteq> None \<Longrightarrow> \<exists>b. on_kv (can_append rid n) s = (Ok b, s)"
  using kvs.can_pure [of "kv s" rid n] by (auto simp: on_kv_def)

text \<open>Only the KV manager changes, and it still knows the same requests.\<close>

lemma base_inv_kv:
  assumes "base_inv s" and "kv_inv k" and "fst (kv_ledger k) = len_of s" and "kv_cap k = kv_cap (kv s)"
  shows "base_inv (s\<lparr>kv := k\<rparr>)"
  using assms by (simp add: base_inv_def)

lemma base_inv_active:
  assumes "base_inv s" and "active s rid = Some a" and "request_ok (kv_cap (kv s)) a'"
  shows "base_inv (s\<lparr>active := (active s)(rid \<mapsto> a')\<rparr>)"
  using assms unfolding base_inv_def by (auto simp: domIff)

lemma base_inv_activeI:
  assumes b: "base_inv s" and d: "\<And>rid. act rid = None \<longleftrightarrow> active s rid = None"
    and r: "\<And>rid a. act rid = Some a \<Longrightarrow> request_ok (kv_cap (kv s)) a"
    and t: "kv t = kv s" "active t = act" "pending t = pending s" "next_request t = next_request s"
      "next_batch t \<le> usize_max"
  shows "base_inv t"
proof -
  have "dom act = dom (active s)" unfolding dom_def using d by simp
  moreover have "rid < next_request s" if a: "act rid = Some a" for rid a
  proof -
    obtain a' where "active s rid = Some a'" using a d [of rid] by auto
    then show ?thesis using b unfolding base_inv_def by blast
  qed
  moreover have "act (pr_id q) = None" if "q \<in> set (pending s)" for q
    using that b d unfolding base_inv_def by blast
  ultimately show ?thesis using b r t unfolding base_inv_def by metis
qed

section \<open>Reserving the rows of a batch\<close>

text \<open>
  From the idle state \<open>s0\<close>, the rows reserved so far: the KV manager has exactly their
  reservations open, nothing else has changed.
\<close>

definition reserving :: "'smp scheduler \<Rightarrow> nat \<Rightarrow> sched_seq list \<Rightarrow> 'smp scheduler \<Rightarrow> bool" where
  "reserving s0 w rows s \<longleftrightarrow> s = s0\<lparr>kv := kv s\<rparr> \<and> kv_inv (kv s) \<and> kv_cap (kv s) = kv_cap (kv s0)
     \<and> len_of s = len_of s0 \<and> distinct (map sc_request rows)
     \<and> next_reservation (kv s) = next_reservation (kv s0) + length rows
     \<and> dom (open_of s) = sc_reservation ` set rows
     \<and> (\<forall>r\<in>set rows. len_of s0 (sc_request r) = Some (sc_start r)
          \<and> open_of s (sc_reservation r) = Some (sc_request r, sc_start r, w)
          \<and> sc_context r = sc_start r + w \<and> sc_context r \<le> kv_cap (kv s0) \<and> 0 < w)"

lemma reserving_start: "idle_inv s \<Longrightarrow> reserving s w [] s"
  by (auto simp: reserving_def idle_inv_def base_inv_def)

lemma reserving_same: "reserving s0 w rows s \<Longrightarrow> s = s0\<lparr>kv := kv s\<rparr>"
  by (simp add: reserving_def)

lemma reserving_fields:
  assumes "reserving s0 w rows s"
  shows "active s = active s0" "cfg s = cfg s0" "next_batch s = next_batch s0" "in_flight s = in_flight s0"
    "chunk_tokens s = chunk_tokens s0" "deferred s = deferred s0" "pending s = pending s0"
    "finished s = finished s0" "next_request s = next_request s0"
  by (subst reserving_same [OF assms], simp)+

lemma reserving_base: "idle_inv s0 \<Longrightarrow> reserving s0 w rows s \<Longrightarrow> base_inv s"
proof -
  assume i: "idle_inv s0" and r: "reserving s0 w rows s"
  have "base_inv (s0\<lparr>kv := kv s\<rparr>)"
    by (rule base_inv_kv) (use i r in \<open>simp_all add: idle_inv_def reserving_def\<close>)
  then show "base_inv s" using reserving_same [OF r] by simp
qed

lemma reserving_distinct: "reserving s0 w rows s \<Longrightarrow> distinct (map sc_reservation rows)"
proof -
  assume r: "reserving s0 w rows s"
  then have "inj_on sc_reservation (set rows)"
    unfolding reserving_def by (intro inj_onI) (metis (no_types, lifting) distinct_map inj_onD option.inject prod.inject)
  then show ?thesis using r by (simp add: reserving_def distinct_map)
qed

lemma idle_inv_kv:
  assumes "idle_inv s0" and "kv_inv k" and "kv_ledger k = (len_of s0, Map.empty)" and "kv_cap k = kv_cap (kv s0)"
  shows "idle_inv (s0\<lparr>kv := k\<rparr>)"
  using assms base_inv_kv [of s0 k] by (simp add: idle_inv_def)

lemma rollback_ok:
  assumes "idle_inv s0" and "reserving s0 w rows s"
  obtains k where "rollback_scheduled_rows rows s = (Ok (), s0\<lparr>kv := k\<rparr>)" and "idle_inv (s0\<lparr>kv := k\<rparr>)"
proof -
  have d: "set (map sc_reservation rows) = dom (open_of s)" using assms(2) by (simp add: reserving_def)
  have i: "kv_inv (kv s)" using assms(2) by (simp add: reserving_def)
  from kvs.abort_everything [OF i reserving_distinct [OF assms(2)] d] obtain k where
    k: "cancel_appends (map sc_reservation rows) (kv s) = (Ok (), k)" "kv_inv k"
      "kv_ledger k = (len_of s, Map.empty)" "kv_cap k = kv_cap (kv s)" .
  have "s\<lparr>kv := k\<rparr> = s0\<lparr>kv := k\<rparr>" by (subst reserving_same [OF assms(2)]) simp
  then have "rollback_scheduled_rows rows s = (Ok (), s0\<lparr>kv := k\<rparr>)"
    using k(1) by (simp add: rollback_scheduled_rows_def on_kv_Ok)
  moreover have "idle_inv (s0\<lparr>kv := k\<rparr>)"
    using k assms by (intro idle_inv_kv) (simp_all add: reserving_def)
  ultimately show thesis using that by blast
qed

lemma begin_next:
  assumes "kv_inv k" and "begin_append r n k = (Ok a, k')"
  shows "next_reservation k' = Suc (next_reservation k)"
  by (rule begin_append_cases [OF assms(1), of r n]) (use assms(2) in auto)

lemma begin_err_room:
  assumes "kv_inv k" and "begin_append r n k = (Err e, k')" and "can_append r n k = (Ok True, k)"
  shows "next_reservation k = usize_max"
  by (rule begin_append_cases [OF assms(1), of r n]) (use assms(2,3) in auto)

text \<open>One more row.\<close>

lemma reserving_snoc:
  assumes r: "reserving s0 w rows s" and run: "begin_append rid w (kv s) = (Ok a, k)"
    and inv: "kv_inv k" "begun (kv_ledger (kv s)) rid w a (kv_ledger k)"
      "ar_context a \<le> kv_cap (kv s)" "kv_cap k = kv_cap (kv s)"
  shows "reserving s0 w (rows @ [scheduled_sequence a toks]) (s\<lparr>kv := k\<rparr>)"
proof -
  have kinv: "kv_inv (kv s)" using r by (simp add: reserving_def)
  have b: "ar_request a = rid" "len_of s rid = Some (ar_start a)" "ar_context a = ar_start a + w" "0 < w"
    "open_of s (ar_id a) = None" "lg_free (kv_ledger (kv s)) rid"
    "kv_ledger k = lg_begin (ar_id a) rid w (kv_ledger (kv s))" using inv(2) by (auto simp: begun_def)
  have new: "rid \<notin> sc_request ` set rows"
  proof
    assume "rid \<in> sc_request ` set rows"
    then obtain x where "x \<in> set rows" "sc_request x = rid" by auto
    then have "open_of s (sc_reservation x) = Some (rid, sc_start x, w)" using r by (auto simp: reserving_def)
    then show False using b(6) by (simp add: lg_free_def)
  qed
  have len: "fst (kv_ledger k) = len_of s0" and opn: "snd (kv_ledger k) = (open_of s)(ar_id a \<mapsto> (rid, ar_start a, w))"
    using b(2,7) r by (simp_all add: lg_begin_def reserving_def)
  have old: "sc_reservation x \<noteq> ar_id a" if "x \<in> set rows" for x
    using that r b(5) by (auto simp: reserving_def)
  have "s\<lparr>kv := k\<rparr> = s0\<lparr>kv := k\<rparr>" by (subst reserving_same [OF r]) simp
  moreover have "next_reservation k = next_reservation (kv s0) + length (rows @ [scheduled_sequence a toks])"
    using begin_next [OF kinv run] r by (simp add: reserving_def)
  moreover have "dom (snd (kv_ledger k)) = sc_reservation ` set (rows @ [scheduled_sequence a toks])"
    using opn r by (auto simp: reserving_def scheduled_sequence_def)
  moreover have "\<forall>x\<in>set (rows @ [scheduled_sequence a toks]). len_of s0 (sc_request x) = Some (sc_start x)
        \<and> snd (kv_ledger k) (sc_reservation x) = Some (sc_request x, sc_start x, w)
        \<and> sc_context x = sc_start x + w \<and> sc_context x \<le> kv_cap (kv s0) \<and> 0 < w"
    using r old opn b inv(3) by (auto simp: reserving_def scheduled_sequence_def)
  moreover have "distinct (map sc_request (rows @ [scheduled_sequence a toks]))"
    using r new b(1) by (auto simp: reserving_def scheduled_sequence_def)
  moreover have "kv_cap k = kv_cap (kv s0)" using inv(4) r by (simp add: reserving_def)
  moreover have "kv (s\<lparr>kv := k\<rparr>) = k" by simp
  ultimately show ?thesis unfolding reserving_def using inv(1) len by metis
qed

text \<open>
  The loop. \<open>G\<close> is what the builder says of the tokens of a candidate's row. A builder that
  does not roll back must have identifiers left for all its rows.
\<close>

lemma reserve_rows_ok:
  assumes idle: "idle_inv s0" and res: "reserving s0 w rows s"
    and cands: "\<forall>c\<in>set cs. active s0 (rid c) \<noteq> None"
    and toks: "\<forall>c\<in>set cs. \<forall>t rs. reserving s0 w rs t \<longrightarrow>
        (\<exists>ts. tokens c t = (Ok ts, t) \<and> length ts = w \<and> G (rid c) ts)"
    and good: "\<forall>r\<in>set rows. length (sc_tokens r) = w \<and> G (sc_request r) (sc_tokens r)"
    and room: "rollback \<or> next_reservation (kv s0) + limit \<le> usize_max"
  shows "wp (reserve_rows rid tokens rollback limit w cs rows)
    (\<lambda>rows' t. reserving s0 w rows' t \<and> length rows' \<le> max limit (length rows)
       \<and> (\<forall>r\<in>set rows'. length (sc_tokens r) = w \<and> G (sc_request r) (sc_tokens r)))
    (\<lambda>e t. idle_inv t \<and> (\<exists>k. t = s0\<lparr>kv := k\<rparr>)) s"
  using res cands toks good
proof (induction cs arbitrary: rows s)
  case Nil
  then show ?case by (simp add: wp_def)
next
  case (Cons c cs)
  note r = Cons.prems(1)
  have base: "base_inv s" by (rule reserving_base [OF idle r])
  show ?case
  proof (cases "limit \<le> length rows")
    case True
    then show ?thesis using r Cons.prems(4) by (simp add: wp_def)
  next
    case False
    have "active s (rid c) \<noteq> None" using Cons.prems(2) reserving_fields(1) [OF r] by simp
    then obtain n where n: "len_of s (rid c) = Some n" using base_len [OF base] by blast
    then obtain fits where fits: "can_append (rid c) w (kv s) = (Ok fits, kv s)"
      using kvs.can_pure [OF base_kv [OF base], of "rid c" w] by auto
    then have on: "on_kv (can_append (rid c) w) s = (Ok fits, s)" by (simp add: on_kv_Ok)
    have cs: "\<forall>c\<in>set cs. active s0 (rid c) \<noteq> None" using Cons.prems(2) by simp
    have ts: "\<forall>c\<in>set cs. \<forall>t rs. reserving s0 w rs t \<longrightarrow>
        (\<exists>ts. tokens c t = (Ok ts, t) \<and> length ts = w \<and> G (rid c) ts)" using Cons.prems(3) by simp
    show ?thesis
    proof (cases fits)
      case False
      then have "reserve_rows rid tokens rollback limit w (c # cs) rows s
          = reserve_rows rid tokens rollback limit w cs rows s"
        using \<open>\<not> limit \<le> length rows\<close> on by simp
      with Cons.IH [OF r cs ts Cons.prems(4)] show ?thesis by (simp add: wp_def)
    next
      case True
      obtain tk where tk: "tokens c s = (Ok tk, s)" "length tk = w" "G (rid c) tk"
        using Cons.prems(3) r by (meson list.set_intros(1))
      from kvs.reserve_law [OF base_kv [OF base], of "rid c" w] show ?thesis
      proof (elim disjE exE conjE)
        fix a k assume k: "begin_append (rid c) w (kv s) = (Ok a, k)" "kv_inv k"
          "begun (kv_ledger (kv s)) (rid c) w a (kv_ledger k)" "ar_context a \<le> kv_cap (kv s)" "kv_cap k = kv_cap (kv s)"
        let ?rows = "rows @ [scheduled_sequence a tk]"
        have step: "reserve_rows rid tokens rollback limit w (c # cs) rows s
            = reserve_rows rid tokens rollback limit w cs ?rows (s\<lparr>kv := k\<rparr>)"
          using \<open>\<not> limit \<le> length rows\<close> on True tk(1) k(1) by simp
        have "ar_request a = rid c" using k(3) by (simp add: begun_def)
        then have g: "\<forall>r\<in>set ?rows. length (sc_tokens r) = w \<and> G (sc_request r) (sc_tokens r)"
          using Cons.prems(4) tk(2,3) by (simp add: scheduled_sequence_def)
        have len: "max limit (length ?rows) = max limit (length rows)"
          using \<open>\<not> limit \<le> length rows\<close> by simp
        show ?thesis
          using Cons.IH [OF reserving_snoc [OF r k] cs ts g] unfolding wp_def step len .
      next
        fix e assume e: "begin_append (rid c) w (kv s) = (Err e, kv s)"
        have "next_reservation (kv s) = usize_max"
          using begin_err_room [OF base_kv [OF base] e] fits True by simp
        then have rb: rollback using room r \<open>\<not> limit \<le> length rows\<close> by (auto simp: reserving_def)
        from rollback_ok [OF idle r] obtain k where
          k: "rollback_scheduled_rows rows s = (Ok (), s0\<lparr>kv := k\<rparr>)" "idle_inv (s0\<lparr>kv := k\<rparr>)" .
        have "reserve_rows rid tokens rollback limit w (c # cs) rows s = (Err (KvFailed e), s0\<lparr>kv := k\<rparr>)"
          using \<open>\<not> limit \<le> length rows\<close> on True tk(1) e rb k(1) by simp
        then show ?thesis using k(2) by (auto simp: wp_def)
      qed
    qed
  qed
qed

section \<open>Launching the rows\<close>

text \<open>The KV manager may have changed inside, its lengths and identifiers have not.\<close>

definition kv_only :: "'smp scheduler \<Rightarrow> 'smp scheduler \<Rightarrow> bool" where
  "kv_only s t \<longleftrightarrow> t = s\<lparr>kv := kv t\<rparr> \<and> kv_inv (kv t) \<and> len_of t = len_of s \<and> open_of t = open_of s
     \<and> kv_cap (kv t) = kv_cap (kv s) \<and> next_reservation (kv t) = next_reservation (kv s)"

lemma kv_only_idle: "idle_inv s \<Longrightarrow> kv_only s t \<Longrightarrow> idle_inv t"
proof -
  assume i: "idle_inv s" and k: "kv_only s t"
  have "kv_ledger (kv t) = (len_of s, Map.empty)"
    using i k by (simp add: kv_only_def idle_inv_def prod_eq_iff)
  then have "idle_inv (s\<lparr>kv := kv t\<rparr>)" using i k by (intro idle_inv_kv) (simp_all add: kv_only_def)
  moreover have "t = s\<lparr>kv := kv t\<rparr>" using k by (simp add: kv_only_def)
  ultimately show ?thesis by simp
qed

lemma reserving_none:
  assumes "idle_inv s0" and "reserving s0 w [] s"
  shows "kv_only s0 s"
  using assms by (auto simp: reserving_def kv_only_def idle_inv_def)

lemma mark_in_flight_eq:
  assumes "\<forall>r\<in>set rows. active s (sc_request r) \<noteq> None"
  shows "mark_in_flight bid rows s = (Ok (), s\<lparr>active := (\<lambda>rid.
     if rid \<in> sc_request ` set rows then map_option (\<lambda>a. a\<lparr>ac_phase := InFlight bid\<rparr>) (active s rid)
     else active s rid)\<rparr>)"
  using assms
proof (induction rows arbitrary: s)
  case Nil
  then show ?case by (cases s) simp
next
  case (Cons r rows)
  obtain a where a: "active s (sc_request r) = Some a" using Cons.prems by auto
  let ?s = "s\<lparr>active := (active s)(sc_request r \<mapsto> a\<lparr>ac_phase := InFlight bid\<rparr>)\<rparr>"
  have "\<forall>x\<in>set rows. active ?s (sc_request x) \<noteq> None" using Cons.prems by auto
  from Cons.IH [OF this] show ?case using a by (auto simp: fun_eq_iff)
qed

text \<open>What a builder returns: a batch in flight, or nothing and an unchanged scheduler.\<close>

definition launched :: "'smp scheduler \<Rightarrow> sched_batch option \<Rightarrow> 'smp scheduler \<Rightarrow> bool" where
  "launched s b t \<longleftrightarrow> (case b of None \<Rightarrow> kv_only s t
     | Some b \<Rightarrow> flight_inv t b \<and> in_flight t = None \<and> recompute_preemption t = recompute_preemption s
         \<and> same_work s t)"

lemma finish_schedule_ok:
  assumes idle: "idle_inv s0" and res: "reserving s0 w rows s"
    and shape: "\<forall>r\<in>set rows. length (sc_tokens r) = w \<and>
        (\<exists>a. active s0 (sc_request r) = Some a \<and> row_shape kind a (sc_start r) (sc_tokens r))"
    and bound: "length rows * w \<le> max_batch_tokens (cfg s0)"
  shows "wp (finish_schedule kind rows) (launched s0) (\<lambda>e. keeps s0) s"
proof (cases "rows = []")
  case True
  then have "kv_only s0 s" using reserving_none [OF idle] res by simp
  then show ?thesis using True by (simp add: finish_schedule_def wp_def launched_def)
next
  case False
  note f = reserving_fields [OF res]
  have base: "base_inv s" by (rule reserving_base [OF idle res])
  have act: "\<forall>r\<in>set rows. active s (sc_request r) \<noteq> None" using shape f(1) by auto
  then have noex: "\<not> list_ex (\<lambda>r. active s (sc_request r) = None) rows" by (auto simp: list_ex_iff)
  show ?thesis
  proof (cases "next_batch s + 1 \<le> usize_max")
    case False
    obtain k where "rollback_scheduled_rows rows s = (Ok (), s0\<lparr>kv := k\<rparr>)" "idle_inv (s0\<lparr>kv := k\<rparr>)"
      by (rule rollback_ok [OF idle res])
    moreover have "same_work s0 (s0\<lparr>kv := k\<rparr>)" for k by (rule same_work_phases) simp_all
    ultimately show ?thesis using False \<open>rows \<noteq> []\<close>
      by (simp add: finish_schedule_def checked_add_def wp_def keeps_def)
  next
    case True
    let ?bid = "next_batch s" and ?b = "\<lparr>sb_id = next_batch s, sb_kind = kind, sb_rows = rows\<rparr>"
    let ?mark = "\<lambda>rid. if rid \<in> sc_request ` set rows
       then map_option (\<lambda>a. a\<lparr>ac_phase := InFlight ?bid\<rparr>) (active s rid) else active s rid"
    let ?t = "s\<lparr>next_batch := next_batch s + 1, active := ?mark\<rparr>"
    have run: "finish_schedule kind rows s = (Ok (Some ?b), ?t)"
      using True noex \<open>rows \<noteq> []\<close> mark_in_flight_eq [of rows "s\<lparr>next_batch := next_batch s + 1\<rparr>" ?bid] act
      by (simp add: finish_schedule_def checked_add_def cong: if_cong)
    have b: "base_inv ?t"
    proof (rule base_inv_activeI [OF base])
      show "?mark rid = None \<longleftrightarrow> active s rid = None" for rid by simp
      show "request_ok (kv_cap (kv s)) a" if "?mark rid = Some a" for rid a
        using that base_request [OF base] by (auto split: if_splits)
    qed (use True in simp_all)
    have n: "next_n ?b = w" using shape \<open>rows \<noteq> []\<close> by (cases rows) (auto simp: next_n_def)
    have rows: "row_inv kind ?bid ?t r" if r: "r \<in> set rows" for r
    proof -
      obtain a where a: "active s0 (sc_request r) = Some a" "row_shape kind a (sc_start r) (sc_tokens r)"
        "length (sc_tokens r) = w" using shape r by blast
      have "active ?t (sc_request r) = Some (a\<lparr>ac_phase := InFlight ?bid\<rparr>)" using a(1) f(1) r by simp
      moreover have "row_shape kind (a\<lparr>ac_phase := InFlight ?bid\<rparr>) (sc_start r) (sc_tokens r)"
        using a(2) by (simp add: row_shape_def cong: batch_kind.case_cong)
      moreover have "sc_tokens r \<noteq> []" using a(3) res r by (auto simp: reserving_def)
      ultimately show ?thesis using res r a(3) by (auto simp: row_inv_def reserving_def)
    qed
    have "phase_ok (len_of ?t) rid a" if "active ?t rid = Some a" "rid \<notin> sc_request ` set rows" for rid a
      using that idle res f(1) by (simp add: idle_inv_def reserving_def)
    then have "flight_inv ?t ?b"
      using b False n rows shape bound res f(2)
      by (auto simp: flight_inv_def batch_size_def reserving_def)
    moreover have "in_flight ?t = None" using f(4) idle by (simp add: idle_inv_def)
    moreover have "recompute_preemption ?t = recompute_preemption s0"
      by (subst reserving_same [OF res]) simp
    moreover have "same_work s0 ?t"
      by (rule same_work_phases) (simp_all add: f option.map_comp comp_def)
    ultimately show ?thesis using run by (simp add: wp_def launched_def)
  qed
qed

text \<open>A builder: its candidates are reserved one after the other and launched.\<close>

lemma build_ok:
  assumes idle: "idle_inv s0"
    and cands: "\<forall>c\<in>set cs. active s0 (rid c) \<noteq> None"
    and toks: "\<forall>c\<in>set cs. \<forall>t rs. reserving s0 w rs t \<longrightarrow>
        (\<exists>ts. tokens c t = (Ok ts, t) \<and> length ts = w \<and> G (rid c) ts)"
    and shape: "\<And>r st ts. G r ts \<Longrightarrow> len_of s0 r = Some st \<Longrightarrow>
        \<exists>a. active s0 r = Some a \<and> row_shape kind a st ts"
    and room: "rollback \<or> next_reservation (kv s0) + limit \<le> usize_max"
    and bound: "limit * w \<le> max_batch_tokens (cfg s0)"
  shows "wp (bind_op (reserve_rows rid tokens rollback limit w cs []) (finish_schedule kind))
    (launched s0) (\<lambda>e. keeps s0) s0"
proof (rule wp_bind, rule wp_conseq)
  show "wp (reserve_rows rid tokens rollback limit w cs [])
    (\<lambda>rows' t. reserving s0 w rows' t \<and> length rows' \<le> max limit (length ([] :: sched_seq list))
       \<and> (\<forall>r\<in>set rows'. length (sc_tokens r) = w \<and> G (sc_request r) (sc_tokens r)))
    (\<lambda>e t. idle_inv t \<and> (\<exists>k. t = s0\<lparr>kv := k\<rparr>)) s0"
    by (rule reserve_rows_ok [OF idle reserving_start [OF idle] cands toks _ room]) simp
next
  fix rows t
  assume a: "reserving s0 w rows t \<and> length rows \<le> max limit (length ([] :: sched_seq list))
       \<and> (\<forall>r\<in>set rows. length (sc_tokens r) = w \<and> G (sc_request r) (sc_tokens r))"
  then have "length rows * w \<le> limit * w" by simp
  also note bound
  finally have bd: "length rows * w \<le> max_batch_tokens (cfg s0)" .
  have "\<forall>r\<in>set rows. length (sc_tokens r) = w \<and>
        (\<exists>a. active s0 (sc_request r) = Some a \<and> row_shape kind a (sc_start r) (sc_tokens r))"
    using a shape by (auto simp: reserving_def)
  then show "wp (finish_schedule kind rows) (launched s0) (\<lambda>e. keeps s0) t"
    using a bd by (intro finish_schedule_ok [OF idle]) auto
next
  fix e t assume "idle_inv t \<and> (\<exists>k. t = s0\<lparr>kv := k\<rparr>)"
  then show "keeps s0 t" unfolding keeps_def by (auto intro: same_work_phases)
qed

end
