(* ===== verification/BatchSchedule.thy ===== *)
theory BatchSchedule
  imports BatchInv
begin

text \<open>
  Scheduling keeps the invariant: the three builders (decode, prefill, verification),
  preemption, admission of queued requests, and the scheduling loop with the bound on its
  rounds.
\<close>

section \<open>Decode rows\<close>

lemma decode_token_iff:
  "decode_token s rid = Some t \<longleftrightarrow> (\<exists>a. active s rid = Some a \<and> ac_phase a = AwaitingDecode t)"
  by (auto simp: decode_token_def split: option.splits phase.splits)

lemma idle_awaiting:
  assumes "idle_inv s" and "active s rid = Some a" and "ac_phase a = AwaitingDecode t"
  shows "len_of s rid = Some (length (ac_history a) - 1)" "ac_generated a \<noteq> []" "last (ac_history a) = t"
    "ac_history a \<noteq> []"
proof -
  have "phase_ok (len_of s) rid a" using assms(1,2) by (simp add: idle_inv_def)
  then show "len_of s rid = Some (length (ac_history a) - 1)" "ac_generated a \<noteq> []" "last (ac_history a) = t"
    using assms(3) by (simp_all add: phase_ok_def)
  have "request_ok (kv_cap (kv s)) a"
    by (rule base_request [OF _ assms(2)]) (use assms(1) in \<open>simp add: idle_inv_def\<close>)
  then show "ac_history a \<noteq> []" by (simp add: request_ok_def)
qed

lemma schedule_decode_ok:
  assumes "idle_inv s"
  shows "wp schedule_decode (launched s) (\<lambda>e. keeps s) s"
proof -
  let ?G = "\<lambda>r ts. \<exists>t. decode_token s r = Some t \<and> ts = [t]"
  let ?cs = "map (\<lambda>rid. (rid, the (decode_token s rid))) (filter (\<lambda>rid. decode_token s rid \<noteq> None) (active_ids s))"
  have "wp (bind_op (reserve_rows fst (\<lambda>c. ret_op [snd c]) True (max_batch_tokens (cfg s)) 1 ?cs [])
      (finish_schedule Decode)) (launched s) (\<lambda>e. keeps s) s"
  proof (rule build_ok [OF assms, where G = ?G])
    show "\<forall>c\<in>set ?cs. active s (fst c) \<noteq> None" by (auto simp: decode_token_iff)
    show "\<forall>c\<in>set ?cs. \<forall>t rs. reserving s 1 rs t \<longrightarrow>
        (\<exists>ts. ret_op [snd c] t = (Ok ts, t) \<and> length ts = 1 \<and> ?G (fst c) ts)"
      by (auto simp: ret_op_def)
    show "\<exists>a. active s r = Some a \<and> row_shape Decode a st ts" if g: "?G r ts" and l: "len_of s r = Some st" for r st ts
    proof -
      obtain t a where a: "active s r = Some a" "ac_phase a = AwaitingDecode t" "ts = [t]"
        using g by (auto simp: decode_token_iff)
      from idle_awaiting [OF assms a(1,2)] l a show ?thesis by (auto simp: row_shape_def)
    qed
  qed simp_all
  then show ?thesis by (simp add: schedule_decode_def wp_def Let_def)
qed

section \<open>Prefill chunks\<close>

definition chunk_len :: "'smp scheduler \<Rightarrow> 'smp active_request \<Rightarrow> nat \<Rightarrow> nat" where
  "chunk_len s a c =
     min (min (length (ac_history a) - c)
            (case chunk_tokens s of None \<Rightarrow> length (ac_history a) - c | Some k \<Rightarrow> k))
         (max_batch_tokens (cfg s))"

lemma prefill_chunk_eq:
  "len_of s rid = Some c \<Longrightarrow> prefill_chunk rid a s =
     (Ok (c, chunk_len s a c, c + chunk_len s a c = length (ac_history a)), s)"
  by (simp add: prefill_chunk_def on_committed chunk_len_def Let_def)

text \<open>What membership in a bucket of width \<open>w\<close> says of a request.\<close>

definition chunk_ready :: "'smp scheduler \<Rightarrow> nat \<Rightarrow> nat \<Rightarrow> bool" where
  "chunk_ready s w rid \<longleftrightarrow> 0 < w \<and> (\<exists>a c. active s rid = Some a \<and> ac_phase a = NeedsPrefill
     \<and> len_of s rid = Some c \<and> chunk_len s a c = w)"

definition buckets_ok :: "'smp scheduler \<Rightarrow> (bucket_key \<times> nat list) list \<Rightarrow> bool" where
  "buckets_ok s bs \<longleftrightarrow> list_all (\<lambda>b. \<forall>rid\<in>set (snd b). chunk_ready s (fst (fst b)) rid) bs"

lemma push_bucket_ok:
  "buckets_ok s bs \<Longrightarrow> chunk_ready s (fst k) rid \<Longrightarrow> buckets_ok s (push_bucket k rid bs)"
  by (induction bs) (auto simp: buckets_ok_def split: if_splits)

lemma prefill_buckets_ok:
  assumes "base_inv s" and "set rids \<subseteq> dom (active s)" and "buckets_ok s bs"
  shows "\<exists>bs'. prefill_buckets rids bs s = (Ok bs', s) \<and> buckets_ok s bs'"
  using assms
proof (induction rids arbitrary: bs)
  case Nil
  then show ?case by simp
next
  case (Cons rid rids)
  obtain a where a: "active s rid = Some a" using Cons.prems(2) by auto
  obtain c where c: "len_of s rid = Some c" using base_len [OF Cons.prems(1) a] by blast
  let ?n = "chunk_len s a c"
  obtain fits where fits: "on_kv (can_append rid ?n) s = (Ok fits, s)"
    using on_can_append [OF base_kv [OF Cons.prems(1)], of rid ?n] c by auto
  have step: "prefill_buckets (rid # rids) bs s =
      (if ac_phase a = NeedsPrefill \<and> rid \<notin> deferred s \<and> ?n > 0
       then prefill_buckets rids (if fits then push_bucket (?n, c \<noteq> 0) rid bs else bs) s
       else prefill_buckets rids bs s)"
    using fits by (simp add: get_active_Ok [OF a] prefill_chunk_eq [OF c])
  have "chunk_ready s ?n rid" if "ac_phase a = NeedsPrefill" "?n > 0"
    using that a c by (auto simp: chunk_ready_def)
  then have "buckets_ok s (if ac_phase a = NeedsPrefill \<and> rid \<notin> deferred s \<and> ?n > 0 \<and> fits
       then push_bucket (?n, c \<noteq> 0) rid bs else bs)"
    using push_bucket_ok [OF Cons.prems(3), of "(?n, c \<noteq> 0)" rid] Cons.prems(3) by simp
  with Cons.IH [OF Cons.prems(1)] Cons.prems(2) show ?case unfolding step by (auto split: if_splits)
qed

lemma fold_pick: "fold (\<lambda>x best. if f x best then x else best) xs b \<in> insert b (set xs)"
proof (induction xs arbitrary: b)
  case (Cons x xs)
  have "fold (\<lambda>x best. if f x best then x else best) xs (if f x b then x else b)
      \<in> insert (if f x b then x else b) (set xs)" by (rule Cons.IH)
  then show ?case by (auto split: if_splits)
qed simp

lemma bucket_max_mem: "bucket_max n bs = Some b \<Longrightarrow> b \<in> set bs"
  using fold_pick [of "\<lambda>x best. bucket_tokens n best < bucket_tokens n x \<or>
             bucket_tokens n best = bucket_tokens n x \<and> hd (snd x) \<le> hd (snd best)"]
  by (cases bs) (auto simp: bucket_max_def)

lemma prefill_tokens_eq:
  assumes "active s rid = Some a" and "len_of s rid = Some c" and "chunk_len s a c = w" "0 < w"
  shows "prefill_tokens w rid s = (Ok (take w (drop c (ac_history a))), s) \<and>
    length (take w (drop c (ac_history a))) = w \<and> c + w \<le> length (ac_history a)"
proof -
  have "w \<le> length (ac_history a) - c" using assms(3) by (simp add: chunk_len_def)
  then have "c + w \<le> length (ac_history a)" using assms(4) by simp
  then show ?thesis
    using assms by (simp add: prefill_tokens_def get_active_Ok prefill_chunk_eq Let_def)
qed

lemma reserving_chunk_len: "reserving s0 w rows s \<Longrightarrow> chunk_len s a c = chunk_len s0 a c"
  using reserving_fields(2,5) [of s0 w rows s] by (simp add: chunk_len_def)

lemma schedule_prefill_ok:
  assumes "idle_inv s"
  shows "wp schedule_prefill (launched s) (\<lambda>e. keeps s) s"
proof -
  have base: "base_inv s" using assms by (simp add: idle_inv_def)
  obtain bs where bs: "prefill_buckets (active_ids s) [] s = (Ok bs, s)" "buckets_ok s bs"
    using prefill_buckets_ok [OF base, of "active_ids s" "[]"] base by (auto simp: buckets_ok_def)
  have only: "kv_only s s" using base by (simp add: kv_only_def base_inv_def)
  show ?thesis
  proof (cases "bucket_max (max_batch_tokens (cfg s)) bs")
    case None
    then show ?thesis using bs(1) only by (simp add: schedule_prefill_def wp_def launched_def)
  next
    case (Some b)
    obtain w later cands where b: "b = ((w, later), cands)" by (metis prod.exhaust)
    have cr: "\<forall>rid\<in>set cands. chunk_ready s w rid"
      using bucket_max_mem [OF Some] bs(2) b by (auto simp: buckets_ok_def list_all_iff)
    let ?limit = "max_batch_tokens (cfg s) div w"
    let ?G = "\<lambda>r ts. \<exists>a c. active s r = Some a \<and> len_of s r = Some c \<and> c + w \<le> length (ac_history a)
       \<and> ts = take w (drop c (ac_history a))"
    have run: "schedule_prefill s =
        bind_op (reserve_rows id (prefill_tokens w) True ?limit w cands []) (finish_schedule Prefill) s"
      using bs(1) Some b by (simp add: schedule_prefill_def)
    have "wp (bind_op (reserve_rows id (prefill_tokens w) True ?limit w cands []) (finish_schedule Prefill))
      (launched s) (\<lambda>e. keeps s) s"
    proof (rule build_ok [OF assms, where G = ?G])
      show "\<forall>c\<in>set cands. active s (id c) \<noteq> None" using cr by (auto simp: chunk_ready_def)
      show "\<forall>c\<in>set cands. \<forall>t rs. reserving s w rs t \<longrightarrow>
          (\<exists>ts. prefill_tokens w c t = (Ok ts, t) \<and> length ts = w \<and> ?G (id c) ts)"
      proof (intro ballI allI impI)
        fix rid t rs assume "rid \<in> set cands" and r: "reserving s w rs t"
        then obtain a c where a: "active s rid = Some a" "len_of s rid = Some c" "chunk_len s a c = w" "0 < w"
          using cr by (auto simp: chunk_ready_def)
        have "active t rid = Some a" "len_of t rid = Some c" "chunk_len t a c = w"
          using a r reserving_fields(1) [OF r] reserving_chunk_len [OF r] by (simp_all add: reserving_def)
        from prefill_tokens_eq [OF this a(4)] a
        show "\<exists>ts. prefill_tokens w rid t = (Ok ts, t) \<and> length ts = w \<and> ?G (id rid) ts" by auto
      qed
      show "\<exists>a. active s r = Some a \<and> row_shape Prefill a st ts" if "?G r ts" "len_of s r = Some st" for r st ts
        using that by (auto simp: row_shape_def min_def)
      show "?limit * w \<le> max_batch_tokens (cfg s)" by simp
    qed simp
    then show ?thesis by (simp add: wp_def run)
  qed
qed

section \<open>Verification rows\<close>

definition draftable :: "'smp scheduler \<Rightarrow> nat \<times> token \<times> token list \<Rightarrow> bool" where
  "draftable s = (\<lambda>(rid, t, draft). draft \<noteq> [] \<and>
     (\<exists>a. active s rid = Some a \<and> ac_phase a = AwaitingDecode t \<and> ac_sampler a = None))"

lemma ngram_scan_ok:
  assumes "length h + d \<le> usize_max"
  shows "\<forall>(m, st)\<in>set xs. st + m \<le> length h \<Longrightarrow> \<exists>draft. ngram_scan h d xs = Ok draft"
proof (induction xs)
  case (Cons x xs)
  obtain m st where x: "x = (m, st)" by (cases x)
  have "st + m + d \<le> usize_max" using Cons.prems assms x by auto
  then show ?case using Cons x by (simp add: Let_def checked_add_def)
qed simp

lemma ngram_draft_ok:
  assumes "length h + d \<le> usize_max"
  shows "\<exists>draft. ngram_draft h n d = Ok draft"
  unfolding ngram_draft_def Let_def by (rule ngram_scan_ok [OF assms]) auto

lemma verify_candidates_ok:
  assumes "base_inv s" and "set rids \<subseteq> dom (active s)" and room: "draft_tokens c + kv_cap (kv s) \<le> usize_max"
  shows "\<exists>cands. verify_candidates c rids s = (Ok cands, s) \<and> (\<forall>x\<in>set cands. draftable s x)"
  using assms(1,2)
proof (induction rids)
  case Nil
  then show ?case by simp
next
  case (Cons rid rids)
  obtain a where a: "active s rid = Some a" using Cons.prems(2) by auto
  have "length (ac_history a) + draft_tokens c \<le> usize_max"
    using request_history [OF base_request [OF Cons.prems(1) a]] room by linarith
  then obtain draft where draft: "ngram_draft (ac_history a) (ngram_size c) (draft_tokens c) = Ok draft"
    using ngram_draft_ok by blast
  obtain rest where rest: "verify_candidates c rids s = (Ok rest, s)" "\<forall>x\<in>set rest. draftable s x"
    using Cons by auto
  have len: "\<not> max_new_tokens (ac_gen a) < length (ac_generated a)"
    using base_request [OF Cons.prems(1) a] by (simp add: request_ok_def)
  obtain n where n: "len_of s rid = Some n" using base_len [OF Cons.prems(1) a] by blast
  obtain fits where fits: "on_kv (can_append rid (draft_tokens c + 1)) s = (Ok fits, s)"
    using on_can_append [OF base_kv [OF Cons.prems(1)], of rid "draft_tokens c + 1"] n by auto
  show ?case
  proof (cases "ac_phase a")
    case (AwaitingDecode t)
    show ?thesis
    proof (cases "ac_sampler a \<noteq> None \<or> max_new_tokens (ac_gen a) - length (ac_generated a) < 2 \<or> draft = []")
      case True
      then have "verify_candidates c (rid # rids) s = (Ok rest, s)"
        using AwaitingDecode len rest(1) by (auto simp: get_active_Ok [OF a] draft)
      then show ?thesis using rest(2) by blast
    next
      case False
      then have "verify_candidates c (rid # rids) s = (Ok (if fits then (rid, t, draft) # rest else rest), s)"
        using AwaitingDecode len rest(1) fits by (simp add: get_active_Ok [OF a] draft)
      moreover have "draftable s (rid, t, draft)" using False a AwaitingDecode by (simp add: draftable_def)
      ultimately show ?thesis using rest(2) by (intro exI conjI) (assumption, auto)
    qed
  qed (use rest in \<open>simp_all add: get_active_Ok [OF a]\<close>)
qed

text \<open>
  What a round of speculation relies on: identifiers are left for a whole verification batch,
  which is not rolled back, and the width of a row and the end of a draft fit \<open>usize\<close>.
\<close>

definition id_room :: "'smp scheduler \<Rightarrow> bool" where
  "id_room s \<longleftrightarrow> (\<forall>c. speculative s = Some c \<longrightarrow>
     next_reservation (kv s) + max_batch_tokens (cfg s) \<le> usize_max \<and> draft_tokens c + 1 + kv_cap (kv s) \<le> usize_max)"

lemma schedule_verify_ok:
  assumes "idle_inv s" and "id_room s"
  shows "wp schedule_verify (launched s) (\<lambda>e. keeps s) s"
proof -
  have base: "base_inv s" using assms(1) by (simp add: idle_inv_def)
  have only: "kv_only s s" using base by (simp add: kv_only_def base_inv_def)
  show ?thesis
  proof (cases "speculative s")
    case None
    then show ?thesis using only by (simp add: schedule_verify_def wp_def launched_def)
  next
    case (Some c)
    let ?w = "draft_tokens c + 1"
    have room: "next_reservation (kv s) + max_batch_tokens (cfg s) \<le> usize_max" "?w + kv_cap (kv s) \<le> usize_max"
      using assms(2) Some by (simp_all add: id_room_def)
    then have w: "Suc (draft_tokens c) \<le> usize_max" by simp
    let ?limit = "max_batch_tokens (cfg s) div ?w"
    show ?thesis
    proof (cases "?limit = 0")
      case True
      then show ?thesis using Some only w by (simp add: schedule_verify_def checked_add_def wp_def launched_def)
    next
      case False
      obtain cands where cands: "verify_candidates c (active_ids s) s = (Ok cands, s)" "\<forall>x\<in>set cands. draftable s x"
        using verify_candidates_ok [OF base, of "active_ids s" c] base room(2) by auto
      let ?G = "\<lambda>r ts. \<exists>t a. active s r = Some a \<and> ac_phase a = AwaitingDecode t \<and> hd ts = t"
      have run: "schedule_verify s =
          bind_op (reserve_rows fst (verify_tokens c) False ?limit ?w cands []) (finish_schedule Verify) s"
        using Some False cands(1) w by (simp add: schedule_verify_def checked_add_def Let_def)
      have "wp (bind_op (reserve_rows fst (verify_tokens c) False ?limit ?w cands []) (finish_schedule Verify))
        (launched s) (\<lambda>e. keeps s) s"
      proof (rule build_ok [OF assms(1), where G = ?G])
        show "\<forall>c\<in>set cands. active s (fst c) \<noteq> None" using cands(2) by (force simp: draftable_def)
        show "\<forall>x\<in>set cands. \<forall>t rs. reserving s ?w rs t \<longrightarrow>
            (\<exists>ts. verify_tokens c x t = (Ok ts, t) \<and> length ts = ?w \<and> ?G (fst x) ts)"
          using cands(2) by (force simp: draftable_def verify_tokens_def resize_def)
        show "\<exists>a. active s r = Some a \<and> row_shape Verify a st ts" if g: "?G r ts" and l: "len_of s r = Some st" for r st ts
        proof -
          obtain t a where a: "active s r = Some a" "ac_phase a = AwaitingDecode t" "hd ts = t" using g by blast
          from idle_awaiting [OF assms(1) a(1,2)] l a show ?thesis by (auto simp: row_shape_def)
        qed
        have "?limit \<le> max_batch_tokens (cfg s)" by (rule div_le_dividend)
        then show "False \<or> next_reservation (kv s) + ?limit \<le> usize_max" using room(1) by linarith
        show "?limit * ?w \<le> max_batch_tokens (cfg s)" by (rule div_times_less_eq_dividend)
      qed
      then show ?thesis by (simp add: wp_def run)
    qed
  qed
qed

section \<open>One attempt\<close>

text \<open>Like \<open>launched\<close>, up to the flags that steer the next attempt.\<close>

definition steered :: "'smp scheduler \<Rightarrow> 'smp scheduler \<Rightarrow> bool" where
  "steered s t \<longleftrightarrow> (\<exists>k p v. t = s\<lparr>kv := k, prefer_prefill := p, speculative_turn := v\<rparr> \<and> kv_inv k
     \<and> kv_ledger k = kv_ledger (kv s) \<and> kv_cap k = kv_cap (kv s)
     \<and> next_reservation k = next_reservation (kv s))"

definition attempted :: "'smp scheduler \<Rightarrow> sched_batch option \<Rightarrow> 'smp scheduler \<Rightarrow> bool" where
  "attempted s b t \<longleftrightarrow> (case b of None \<Rightarrow> steered s t
     | Some b \<Rightarrow> flight_inv t b \<and> in_flight t = None \<and> same_work s t)"

lemma base_inv_flags:
  "base_inv (s\<lparr>prefer_prefill := p\<rparr>) = base_inv s" "base_inv (s\<lparr>speculative_turn := p\<rparr>) = base_inv s"
  by (simp_all add: base_inv_def)

lemma idle_inv_flags:
  "idle_inv (s\<lparr>prefer_prefill := p\<rparr>) = idle_inv s" "idle_inv (s\<lparr>speculative_turn := p\<rparr>) = idle_inv s"
  by (simp_all add: idle_inv_def base_inv_flags)

lemma row_inv_flags:
  "row_inv kind bid (s\<lparr>prefer_prefill := p\<rparr>) = row_inv kind bid s" 
  by (simp add: row_inv_def fun_eq_iff)

lemma flight_inv_flags: "flight_inv (s\<lparr>prefer_prefill := p\<rparr>) b = flight_inv s b"
  by (simp add: flight_inv_def base_inv_flags row_inv_flags)

lemma flight_inv_set: "flight_inv (s\<lparr>in_flight := x\<rparr>) b = flight_inv s b"
proof -
  have "base_inv (s\<lparr>in_flight := x\<rparr>) = base_inv s" by (simp add: base_inv_def)
  moreover have "row_inv kind bid (s\<lparr>in_flight := x\<rparr>) = row_inv kind bid s" for kind bid
    by (simp add: row_inv_def fun_eq_iff)
  ultimately show ?thesis by (simp add: flight_inv_def)
qed

lemma steered_idle: "idle_inv s \<Longrightarrow> steered s t \<Longrightarrow> idle_inv t"
proof -
  assume i: "idle_inv s" and "steered s t"
  then obtain k p v where t: "t = s\<lparr>kv := k, prefer_prefill := p, speculative_turn := v\<rparr>" and k: "kv_inv k"
    "kv_ledger k = kv_ledger (kv s)" "kv_cap k = kv_cap (kv s)" by (auto simp: steered_def)
  have "kv_ledger k = (len_of s, Map.empty)" using i k(2) by (simp add: idle_inv_def prod_eq_iff)
  then have "idle_inv (s\<lparr>kv := k\<rparr>)" using i k by (intro idle_inv_kv) simp_all
  then show ?thesis by (simp add: t idle_inv_flags)
qed

lemma steered_trans: "steered s t \<Longrightarrow> steered t u \<Longrightarrow> steered s u"
  unfolding steered_def by fastforce

lemma steered_refl: "kv_inv (kv s) \<Longrightarrow> steered s s"
  unfolding steered_def by (intro exI [of _ "kv s"] exI [of _ "prefer_prefill s"] exI [of _ "speculative_turn s"]) simp

lemma steered_turn: "kv_inv (kv s) \<Longrightarrow> steered s (s\<lparr>speculative_turn := b\<rparr>)"
  unfolding steered_def by (intro exI [of _ "kv s"] exI [of _ "prefer_prefill s"] exI [of _ b]) simp

lemma kv_only_steered: "kv_only s t \<Longrightarrow> steered s t"
proof -
  assume k: "kv_only s t"
  have "t = s\<lparr>kv := kv t\<rparr>" using k unfolding kv_only_def by blast
  also have "\<dots> = s\<lparr>kv := kv t, prefer_prefill := prefer_prefill s, speculative_turn := speculative_turn s\<rparr>"
    by (cases s) simp
  finally show ?thesis using k unfolding steered_def kv_only_def by (metis prod.collapse)
qed

lemma steered_room: "steered s t \<Longrightarrow> id_room s \<Longrightarrow> id_room t"
  by (auto simp: steered_def id_room_def)

lemma steered_same: "steered s t \<Longrightarrow> same_work s t"
  by (auto simp: steered_def intro: same_work_phases)

lemma same_work_flags [simp]: "same_work s (t\<lparr>prefer_prefill := p\<rparr>) = same_work s t"
  "same_work s (t\<lparr>in_flight := f\<rparr>) = same_work s t"
  by (simp_all add: same_work_def contents_def)

text \<open>Chaining two attempts: the second runs only when the first returns nothing.\<close>

lemma attempt_chain:
  assumes idle: "idle_inv s" and first: "wp m (launched s) (\<lambda>e. keeps s) s"
    and some: "\<And>b t. flight_inv t b \<Longrightarrow> f (Some b) t = (Ok (Some b), t\<lparr>prefer_prefill := p\<rparr>)"
    and none: "\<And>t. idle_inv t \<Longrightarrow> steered s t \<Longrightarrow> wp (f None) (attempted s) (\<lambda>e. keeps s) t"
  shows "wp (bind_op m f) (attempted s) (\<lambda>e. keeps s) s"
proof (rule wp_bind, rule wp_conseq [OF first])
  fix b t assume l: "launched s b t"
  show "wp (f b) (attempted s) (\<lambda>e. keeps s) t"
  proof (cases b)
    case None
    then have "kv_only s t" using l by (simp add: launched_def)
    with kv_only_idle [OF idle] kv_only_steered none None show ?thesis by blast
  next
    case (Some x)
    then show ?thesis using l some by (simp add: wp_def attempted_def launched_def flight_inv_flags)
  qed
qed

lemma attempted_mono: "steered s t \<Longrightarrow> attempted t b u \<Longrightarrow> attempted s b u"
  using steered_same [of s t] by (cases b) (auto simp: attempted_def intro: steered_trans same_work_trans)

lemma attempted_none: "steered s t \<Longrightarrow> attempted s None t"
  by (simp add: attempted_def)

lemma launched_none: "idle_inv s \<Longrightarrow> launched s None s"
  by (simp add: launched_def kv_only_def idle_inv_def base_inv_def)

lemma try_schedule_ok:
  assumes idle: "idle_inv s" and room: "id_room s"
  shows "wp try_schedule (attempted s) (\<lambda>e. keeps s) s"
proof -
  let ?none = "\<lambda>b s. case b of Some batch \<Rightarrow> (Ok (Some batch), s\<lparr>prefer_prefill := False\<rparr>) | None \<Rightarrow> (Ok None, s)"
  have last: "wp (bind_op schedule_prefill ?none) (attempted t) (\<lambda>e. keeps t) t" if "idle_inv t" for t :: "'a scheduler"
    by (rule attempt_chain [OF that schedule_prefill_ok [OF that], of _ False])
      (auto simp: wp_def attempted_none)
  let ?dec = "\<lambda>b s. case b of Some batch \<Rightarrow> (Ok (Some batch), s\<lparr>prefer_prefill := True\<rparr>)
     | None \<Rightarrow> bind_op schedule_prefill ?none s"
  have dec: "wp (bind_op schedule_decode ?dec) (attempted t) (\<lambda>e. keeps t) t" if i: "idle_inv t" for t :: "'a scheduler"
  proof (rule attempt_chain [OF i schedule_decode_ok [OF i], of _ True])
    fix u :: "'a scheduler" assume i': "idle_inv u" and st: "steered t u"
    have "wp (bind_op schedule_prefill ?none) (attempted t) (\<lambda>e. keeps t) u"
      by (rule wp_conseq [OF last [OF i']]) (erule attempted_mono [OF st], erule keeps_trans [OF steered_same [OF st]])
    then show "wp (?dec None) (attempted t) (\<lambda>e. keeps t) u" by (rule wp_eq [rotated]) simp
  qed simp
  let ?ver = "\<lambda>b s. case b of Some batch \<Rightarrow> (Ok (Some batch), s\<lparr>prefer_prefill := True\<rparr>)
     | None \<Rightarrow> bind_op schedule_decode ?dec s"
  have ver: "wp (bind_op (if x then schedule_verify else ret_op None) ?ver) (attempted t) (\<lambda>e. keeps t) t"
    if i: "idle_inv t" and r: "id_room t" for x and t :: "'a scheduler"
  proof (rule attempt_chain [OF i, of _ _ True])
    show "wp (if x then schedule_verify else ret_op None) (launched t) (\<lambda>e. keeps t) t"
      using schedule_verify_ok [OF i r] launched_none [OF i] by simp
    fix u :: "'a scheduler" assume i': "idle_inv u" and st: "steered t u"
    have "wp (bind_op schedule_decode ?dec) (attempted t) (\<lambda>e. keeps t) u"
      by (rule wp_conseq [OF dec [OF i']]) (erule attempted_mono [OF st], erule keeps_trans [OF steered_same [OF st]])
    then show "wp (?ver None) (attempted t) (\<lambda>e. keeps t) u" by (rule wp_eq [rotated]) simp
  qed simp
  let ?pre = "\<lambda>b s. case b of Some batch \<Rightarrow> (Ok (Some batch), s\<lparr>prefer_prefill := False\<rparr>)
     | None \<Rightarrow> (let s1 = s\<lparr>speculative_turn := \<not> speculative_turn s\<rparr>
                in bind_op (if speculative_turn s1 then schedule_verify else ret_op None) ?ver s1)"
  have "wp (bind_op (if prefer_prefill s then schedule_prefill else ret_op None) ?pre) (attempted s) (\<lambda>e. keeps s) s"
  proof (rule attempt_chain [OF idle, of _ _ False])
    show "wp (if prefer_prefill s then schedule_prefill else ret_op None) (launched s) (\<lambda>e. keeps s) s"
      using schedule_prefill_ok [OF idle] launched_none [OF idle] by simp
    fix u :: "'a scheduler" assume u: "idle_inv u" "steered s u"
    let ?u = "u\<lparr>speculative_turn := \<not> speculative_turn u\<rparr>"
    have i: "idle_inv ?u" using u(1) by (simp add: idle_inv_flags)
    have st: "steered s ?u"
      using steered_trans [OF u(2) steered_turn] u(1) by (simp add: idle_inv_def base_inv_def)
    have "wp (bind_op (if speculative_turn ?u then schedule_verify else ret_op None) ?ver)
        (attempted s) (\<lambda>e. keeps s) ?u"
      by (rule wp_conseq [OF ver [OF i steered_room [OF st room], of "speculative_turn ?u"]])
        (erule attempted_mono [OF st], erule keeps_trans [OF steered_same [OF st]])
    then show "wp (?pre None) (attempted s) (\<lambda>e. keeps s) u"
      by (rule wp_eq [rotated]) (simp only: option.case Let_def)
  qed simp
  then show ?thesis by (rule wp_eq [rotated]) (simp only: try_schedule_def Let_def)
qed

section \<open>Preemption\<close>

text \<open>The requests that hold pages; every preemption makes one fewer.\<close>

definition page_owners :: "'smp scheduler \<Rightarrow> nat set" where
  "page_owners s = {rid. \<exists>c>0. len_of s rid = Some c}"

lemma page_owners_active: "base_inv s \<Longrightarrow> page_owners s \<subseteq> dom (active s)"
  using base_active [of s] by (auto simp: page_owners_def)

lemma page_owners_finite: "base_inv s \<Longrightarrow> finite (page_owners s)"
  using page_owners_active base_finite finite_subset by metis

lemma idle_not_in_flight: "idle_inv s \<Longrightarrow> active s rid = Some a \<Longrightarrow> ac_phase a \<noteq> InFlight b"
proof -
  assume "idle_inv s" "active s rid = Some a"
  then have "phase_ok (len_of s) rid a" by (simp add: idle_inv_def)
  then show ?thesis by (auto simp: phase_ok_def)
qed

lemma block_table_eq:
  assumes "kv_inv k" and "fst (kv_ledger k) rid = Some c" and "snd (kv_ledger k) = Map.empty"
  obtains table where "block_table rid k = (Ok table, k)" and "table = [] \<longleftrightarrow> c = 0"
proof -
  obtain q where q: "sequences k rid = Some q" "sq_committed q = c"
    using assms(2) by (auto simp: kv_ledger_lookup)
  have "reservations k i = None" for i
    using assms(3) by (auto simp: kv_ledger_def fun_eq_iff)
  then have p: "sq_pending q = None"
    using kv_inv_pending_Some [OF assms(1) q(1)] by (metis not_Some_eq)
  have "length (sq_pages q) = div_ceil c (block_size (kv_conf k))"
    using kv_inv_pending_None [OF assms(1) q(1) p] q(2) by simp
  moreover have "0 < div_ceil c (block_size (kv_conf k)) \<longleftrightarrow> 0 < c"
    using less_div_ceil_iff [OF kv_inv_conf(1) [OF assms(1)], of 0 c] by simp
  ultimately have "sq_pages q = [] \<longleftrightarrow> c = 0" by (metis gr0I length_greater_0_conv less_irrefl)
  then show thesis using that q(1) by (simp add: block_table_def sequence_def bind_op_def)
qed

lemma page_holders_ok:
  assumes "idle_inv s" and "set rids \<subseteq> dom (active s)"
  shows "\<exists>hs. page_holders rids s = (Ok hs, s) \<and> (\<forall>h\<in>set hs. snd h \<in> page_owners s)"
  using assms
proof (induction rids)
  case Nil
  then show ?case by simp
next
  case (Cons rid rids)
  have base: "base_inv s" using Cons.prems(1) by (simp add: idle_inv_def)
  obtain a where a: "active s rid = Some a" using Cons.prems(2) by auto
  obtain c where c: "len_of s rid = Some c" using base_len [OF base a] by blast
  have e: "open_of s = Map.empty" using Cons.prems(1) by (simp add: idle_inv_def)
  obtain table where table: "block_table rid (kv s) = (Ok table, kv s)" "table = [] \<longleftrightarrow> c = 0"
    by (rule block_table_eq [OF base_kv [OF base] c e])
  obtain hs where hs: "page_holders rids s = (Ok hs, s)" "\<forall>h\<in>set hs. snd h \<in> page_owners s"
    using Cons by auto
  have "on_kv (block_table rid) s = (Ok table, s)" using table(1) by (simp add: on_kv_Ok)
  then have "page_holders (rid # rids) s = (Ok (if table = [] then hs else (ac_admitted a, rid) # hs), s)"
    using hs(1) idle_not_in_flight [OF Cons.prems(1) a]
    by (simp add: get_active_Ok [OF a] split: phase.splits)
  moreover have "rid \<in> page_owners s" if "table \<noteq> []" using that table(2) c by (simp add: page_owners_def)
  ultimately show ?case using hs(2) by (intro exI conjI) (assumption, auto)
qed

lemma newest_mem: "hs \<noteq> [] \<Longrightarrow> newest_holder hs \<in> set hs"
  using fold_pick [of "\<lambda>x best. fst best < fst x \<or> fst best = fst x \<and> snd best \<le> snd x" "tl hs" "hd hs"]
  unfolding newest_holder_def by (cases hs) auto

lemma remove_next:
  assumes "remove_sequence r k = (Ok (), k')" and "kv_inv k"
  shows "next_reservation k' = next_reservation k"
proof -
  obtain q where q: "sequences k r = Some q" "sq_pending q = None"
    using assms(1) by (auto simp: remove_sequence_def sequence_def bind_op_def split: option.splits)
  let ?k0 = "k\<lparr>sequences := (sequences k)(r := None)\<rparr>"
  have "pool_inv (rev (sq_pages q) @ []) ?k0"
    by (rule pool_remove_seq [of k r q]) (use assms(2) q in \<open>auto simp: kv_inv_def same_pool_def\<close>)
  from release_pages_ok [OF this] obtain k1 where
    "release_pages (rev (sq_pages q)) ?k0 = (Ok (), k1)" "kv_frame ?k0 k1" by blast
  then show ?thesis using assms(1) q by (simp add: remove_sequence_def sequence_def bind_op_def kv_frame_def)
qed

lemma create_next: "create_sequence r k = (Ok (), k') \<Longrightarrow> next_reservation k' = next_reservation k"
  by (auto simp: create_sequence_def split: if_splits)

lemma base_drop_request:
  assumes "base_inv s" and "active s rid = Some a"
  shows "request_ok (kv_cap (kv s)) (a\<lparr>ac_phase := p\<rparr>)"
  using base_request [OF assms] by simp

text \<open>What a preemption leaves: one owner fewer, everything else of the loop as before.\<close>

definition preempted :: "'smp scheduler \<Rightarrow> 'smp scheduler \<Rightarrow> bool" where
  "preempted s t \<longleftrightarrow> idle_inv t \<and> page_owners t \<subset> page_owners s \<and> dom (active t) = dom (active s)
     \<and> cfg t = cfg s \<and> speculative t = speculative s \<and> next_reservation (kv t) = next_reservation (kv s)
     \<and> kv_cap (kv t) = kv_cap (kv s) \<and> same_work s t"

lemma preempt_newest_ok:
  assumes "idle_inv s"
  shows "preempt_newest s = (Ok False, s) \<or> (\<exists>t. preempt_newest s = (Ok True, t) \<and> preempted s t)"
proof -
  have base: "base_inv s" using assms by (simp add: idle_inv_def)
  obtain hs where hs: "page_holders (active_ids s) s = (Ok hs, s)" "\<forall>h\<in>set hs. snd h \<in> page_owners s"
    using page_holders_ok [OF assms, of "active_ids s"] base by auto
  show ?thesis
  proof (cases "length hs \<le> 1")
    case True
    then show ?thesis using hs(1) by (simp add: preempt_newest_def)
  next
    case False
    define v where "v = snd (newest_holder hs)"
    have "hs \<noteq> []" using False by auto
    then have "v \<in> page_owners s" using hs(2) newest_mem v_def by blast
    then obtain c where c: "len_of s v = Some c" "0 < c" by (auto simp: page_owners_def)
    obtain a where a: "active s v = Some a" using base_active [OF base c(1)] by blast
    have free: "lg_free (kv_ledger (kv s)) v" using assms by (simp add: idle_inv_def lg_free_def)
    obtain k1 k2 where k: "remove_sequence v (kv s) = (Ok (), k1)" "create_sequence v k1 = (Ok (), k2)" "kv_inv k2"
      "kv_ledger k2 = ((len_of s)(v \<mapsto> 0), open_of s)" "kv_cap k2 = kv_cap (kv s)"
      by (rule kvs.recreate [OF base_kv [OF base] _ free]) (use c in simp_all)
    let ?a = "a\<lparr>ac_phase := NeedsPrefill\<rparr>"
    let ?t = "s\<lparr>kv := k2, active := (active s)(v \<mapsto> ?a), preemptions := preemptions s + 1, prefer_prefill := False\<rparr>"
    have run: "preempt_newest s = (Ok True, ?t)"
      using hs(1) False k(1,2) a by (simp add: preempt_newest_def v_def [symmetric] bind_op_def on_kv_def Let_def)
    have nr: "next_reservation k2 = next_reservation (kv s)"
      using create_next [OF k(2)] remove_next [OF k(1) base_kv [OF base]] by simp
    have "dom (active s) = dom (len_of s)" using base by (simp add: base_inv_def)
    then have d: "dom (active ?t) = dom (fst (kv_ledger k2))" using a c k(4) by auto
    have "request_ok (kv_cap (kv s)) ?a" by (rule base_drop_request [OF base a])
    then have b: "base_inv ?t"
      using base k(3,5) d a unfolding base_inv_def by (auto split: if_splits)
    have "request_ok (kv_cap (kv s)) a" by (rule base_request [OF base a])
    then have "phase_ok ((len_of s)(v \<mapsto> 0)) rid b" if "((active s)(v \<mapsto> ?a)) rid = Some b" for rid b
      using that assms by (auto simp: idle_inv_def phase_ok_def request_ok_def split: if_splits phase.splits)
    then have i: "idle_inv ?t" using b assms k(4) by (simp add: idle_inv_def)
    have "page_owners ?t = page_owners s - {v}" using k(4) by (auto simp: page_owners_def)
    then have "page_owners ?t \<subset> page_owners s" using \<open>v \<in> page_owners s\<close> by auto
    moreover have "same_work s ?t" by (rule same_work_phases) (simp_all add: a)
    moreover have "dom (active ?t) = dom (active s)" using a by auto
    ultimately have "preempted s ?t" using i nr k(5) by (simp add: preempted_def)
    then show ?thesis using run by blast
  qed
qed

section \<open>The scheduling loop\<close>

definition scheduled :: "'smp scheduler \<Rightarrow> sched_batch option \<Rightarrow> 'smp scheduler \<Rightarrow> bool" where
  "scheduled s b t \<longleftrightarrow> (case b of None \<Rightarrow> idle_inv t | Some b \<Rightarrow> in_flight t = Some b \<and> flight_inv t b)
     \<and> same_work s t"

lemma steered_owners: "steered s t \<Longrightarrow> page_owners t = page_owners s"
  by (auto simp: steered_def page_owners_def)

lemma preempted_room: "preempted s t \<Longrightarrow> id_room s \<Longrightarrow> id_room t"
  by (simp add: preempted_def id_room_def)

lemma schedule_loop_ok:
  assumes "idle_inv s" and "id_room s" and "card (page_owners s) < n"
  shows "wp (schedule_loop n) (scheduled s) (\<lambda>e. keeps s) s"
  using assms
proof (induction n arbitrary: s)
  case 0
  then show ?case by simp
next
  case (Suc n)
  let ?f = "\<lambda>b s. case b of Some batch \<Rightarrow> (Ok (Some batch), s\<lparr>in_flight := Some batch\<rparr>)
     | None \<Rightarrow> if \<not> recompute_preemption s then (Ok None, s)
               else bind_op preempt_newest (\<lambda>gained. if gained then schedule_loop n else ret_op None) s"
  have "wp (bind_op try_schedule ?f) (scheduled s) (\<lambda>e. keeps s) s"
  proof (rule wp_bind, rule wp_conseq [OF try_schedule_ok [OF Suc.prems(1,2)]])
    fix b t assume at: "attempted s b t"
    show "wp (?f b) (scheduled s) (\<lambda>e. keeps s) t"
    proof (cases b)
      case (Some x)
      then show ?thesis using at by (simp add: wp_def scheduled_def attempted_def flight_inv_set)
    next
      case None
      then have st: "steered s t" using at by (simp add: attempted_def)
      have i: "idle_inv t" and room: "id_room t" and fin: "same_work s t"
        using steered_idle [OF Suc.prems(1) st] steered_room [OF st Suc.prems(2)] steered_same [OF st] by auto
      show ?thesis
      proof (cases "recompute_preemption t")
        case False
        then show ?thesis using None i fin by (simp add: wp_def scheduled_def)
      next
        case True
        from preempt_newest_ok [OF i] show ?thesis
        proof (elim disjE exE conjE)
          assume "preempt_newest t = (Ok False, t)"
          then show ?thesis using None True i fin by (simp add: wp_def scheduled_def)
        next
          fix u assume u: "preempt_newest t = (Ok True, u)" "preempted t u"
          have "card (page_owners u) < card (page_owners t)"
            using u(2) page_owners_finite [of t] i by (intro psubset_card_mono) (simp_all add: preempted_def idle_inv_def)
          then have "card (page_owners u) < n" using Suc.prems(3) steered_owners [OF st] by simp
          with Suc.IH [of u] u(2) preempted_room [OF u(2) room]
          have w: "wp (schedule_loop n) (scheduled u) (\<lambda>e. keeps u) u" by (simp add: preempted_def)
          have su: "same_work s u" using u(2) fin by (simp add: preempted_def same_work_def)
          have "scheduled u x y \<Longrightarrow> scheduled s x y" for x y
            using su by (auto simp: scheduled_def intro: same_work_trans)
          then have "wp (schedule_loop n) (scheduled s) (\<lambda>e. keeps s) u"
            using keeps_trans [OF su] by (rule wp_conseq [OF w])
          then show ?thesis by (rule wp_eq [rotated]) (use None True u(1) in simp)
        qed
      qed
    qed
  qed simp
  then show ?case by (rule wp_eq [rotated]) simp
qed

section \<open>Admission\<close>

lemma request_ok_activate:
  "pending_ok cap nxt r \<Longrightarrow> request_ok cap (activate ticket r)"
  by (simp add: pending_ok_def request_ok_def activate_def)

lemma drop_while_split:
  assumes "dropWhile P xs = y # ys"
  shows "set (takeWhile P xs @ ys) \<subseteq> set xs" "distinct (map f xs) \<Longrightarrow> distinct (map f (takeWhile P xs @ ys))
    \<and> f y \<notin> f ` set (takeWhile P xs @ ys)" "y \<in> set xs"
proof -
  have xs: "xs = takeWhile P xs @ y # ys" using takeWhile_dropWhile_id [of P xs] assms by simp
  show "set (takeWhile P xs @ ys) \<subseteq> set xs" by (subst (2) xs) auto
  show "y \<in> set xs" by (subst xs) simp
  assume "distinct (map f xs)"
  then have "distinct (map f (takeWhile P xs @ y # ys))" using xs by simp
  then show "distinct (map f (takeWhile P xs @ ys)) \<and> f y \<notin> f ` set (takeWhile P xs @ ys)" by auto
qed

lemma map_of_move:
  assumes "distinct (map f (xs @ ys @ [x]))"
  shows "(map_of (map (\<lambda>y. (f y, g y)) (xs @ ys)))(f x \<mapsto> g x) = map_of (map (\<lambda>y. (f y, g y)) (xs @ x # ys))"
proof
  fix k
  have "map_of (map (\<lambda>y. (f y, g y)) zs) (f x) = None" if "f x \<notin> f ` set zs" for zs
    using that by (auto simp: map_of_eq_None_iff)
  then show "((map_of (map (\<lambda>y. (f y, g y)) (xs @ ys)))(f x \<mapsto> g x)) k
      = map_of (map (\<lambda>y. (f y, g y)) (xs @ x # ys)) k"
    using assms by (cases "k = f x") (auto simp: map_add_def split: option.splits)
qed

lemma contents_promoted:
  assumes dw: "dropWhile (\<lambda>r. \<not> ready s r) (pending s) = r # rest"
    and "distinct (map pr_id ((takeWhile (\<lambda>r. \<not> ready s r) (pending s) @ rest) @ [r]))"
    and "active s (pr_id r) = None"
  shows "contents (s\<lparr>pending := takeWhile (\<lambda>r. \<not> ready s r) (pending s) @ rest, kv := k, next_admission := n,
      active := (active s)(pr_id r \<mapsto> activate m r)\<rparr>) = contents s"
proof -
  let ?xs = "takeWhile (\<lambda>r. \<not> ready s r) (pending s)"
  have "pending s = ?xs @ r # rest" using takeWhile_dropWhile_id [of "\<lambda>r. \<not> ready s r" "pending s"] dw by simp
  then have "contents s = map_of (map (\<lambda>r. (pr_id r, pr_gen r, pr_prompt r, [])) (?xs @ r # rest))
     ++ (\<lambda>rid. map_option (\<lambda>a. (ac_gen a, ac_prompt a, ac_generated a)) (active s rid))"
    by (simp only: contents_def)
  also have "\<dots> = (map_of (map (\<lambda>r. (pr_id r, pr_gen r, pr_prompt r, [])) (?xs @ rest)))(pr_id r \<mapsto> (pr_gen r, pr_prompt r, []))
     ++ (\<lambda>rid. map_option (\<lambda>a. (ac_gen a, ac_prompt a, ac_generated a)) (active s rid))"
    by (simp only: map_of_move [where g = "\<lambda>r. (pr_gen r, pr_prompt r, [])", OF assms(2) [unfolded append_assoc]])
  finally show ?thesis using assms(3)
    by (auto simp: contents_def activate_def map_add_def fun_eq_iff split: option.splits)
qed

lemma base_inv_promoted:
  assumes "base_inv s" and "request_ok (kv_cap (kv s)) a" and "rid < next_request s" and "kv_inv (kv t)"
    and "kv_cap (kv t) = kv_cap (kv s)" and "active t = (active s)(rid \<mapsto> a)" and "dom (active t) = dom (len_of t)"
    and "\<forall>q\<in>set (pending t). pending_ok (kv_cap (kv s)) (next_request s) q \<and> active s (pr_id q) = None"
    and "\<forall>q\<in>set (pending t). pr_id q \<noteq> rid" and "distinct (map pr_id (pending t))"
    and "next_request t = next_request s" and "next_batch t = next_batch s"
  shows "base_inv t"
  using assms unfolding base_inv_def by (simp split: if_splits)

lemma promote_loop_ok:
  assumes "idle_inv s" and "id_room s"
  shows "wp (promote_loop chain n avail) (\<lambda>_ t. idle_inv t \<and> id_room t \<and> same_work s t) (\<lambda>e t. False) s"
  using assms
proof (induction n arbitrary: s avail)
  case 0
  then show ?case by (simp add: wp_def)
next
  case (Suc n)
  show ?case
  proof (cases "max_active_sequences (cfg s) \<le> card (dom (active s)) \<or> dropWhile (\<lambda>r. \<not> ready s r) (pending s) = []")
    case True
    have "promote_loop chain (Suc n) avail s = (Ok (), s)"
    proof (cases "max_active_sequences (cfg s) \<le> card (dom (active s))")
      case False
      with True have none: "dropWhile (\<lambda>r. \<not> ready s r) (pending s) = []" by blast
      show ?thesis by (simp only: promote_loop.simps none list.case if_cancel)
    qed simp
    then show ?thesis using Suc.prems unfolding wp_def by simp
  next
    case False
    then obtain r rest where dw: "dropWhile (\<lambda>r. \<not> ready s r) (pending s) = r # rest"
      by (metis list.exhaust)
    let ?reserve = "admission_policy (opts s) = ReserveSequenceCapacity"
    let ?pages = "request_page_budget (length (pr_prompt r)) (pr_gen r) (block_size (kv_conf (kv s)))"
    let ?left = "takeWhile (\<lambda>r. \<not> ready s r) (pending s) @ rest"
    show ?thesis
    proof (cases "?reserve \<and> ?pages > avail")
      case True
      then show ?thesis using Suc.prems False dw by (simp add: wp_def Let_def)
    next
      case fits: False
      have base: "base_inv s" using Suc.prems(1) by (simp add: idle_inv_def)
      note split = drop_while_split [OF dw]
      have r: "pending_ok (kv_cap (kv s)) (next_request s) r" "active s (pr_id r) = None"
        using base split(3) by (auto simp: base_inv_def)
      have "dom (active s) = dom (len_of s)" using base by (simp add: base_inv_def)
      then have "len_of s (pr_id r) = None" using r(2) by (metis domIff)
      then have none: "sequences (kv s) (pr_id r) = None" by (simp add: kv_ledger_lookup)
      obtain k where k: "create_sequence_with_prefix chain (pr_id r) (pr_prompt r) (kv s) =
           (Ok (length (snd (cached_prefix chain (kv s) (pr_prompt r))) * block_size (kv_conf (kv s))), k)"
        "kv_inv k" "reservations k = reservations (kv s)" "kv_conf k = kv_conf (kv s)"
        "next_reservation k = next_reservation (kv s)"
        and seqs: "sequences k = (sequences (kv s))(pr_id r \<mapsto>
           \<lparr>sq_committed = length (snd (cached_prefix chain (kv s) (pr_prompt r))) * block_size (kv_conf (kv s)),
            sq_pages = snd (cached_prefix chain (kv s) (pr_prompt r)), sq_pending = None,
            sq_registered = length (snd (cached_prefix chain (kv s) (pr_prompt r))),
            sq_hash = fst (cached_prefix chain (kv s) (pr_prompt r))\<rparr>)"
        by (rule create_sequence_with_prefix_ok [OF base_kv [OF base] none])
      let ?m = "length (snd (cached_prefix chain (kv s) (pr_prompt r))) * block_size (kv_conf (kv s))"
      have m: "?m \<le> length (pr_prompt r) - 1" by (rule usable_within [OF base_kv [OF base]])
      have len: "fst (kv_ledger k) = (len_of s)(pr_id r \<mapsto> ?m)" and opn: "snd (kv_ledger k) = open_of s"
        using seqs k(3) by (auto simp: kv_ledger_def)
      let ?a = "activate (next_admission s) r"
      let ?t = "s\<lparr>pending := ?left, kv := k, next_admission := next_admission s + 1,
          active := (active s)(pr_id r \<mapsto> ?a)\<rparr>"
      have cap: "kv_cap k = kv_cap (kv s)" using k(4) by (simp add: kv_cap_def)
      have "request_ok (kv_cap (kv s)) ?a" by (rule request_ok_activate [OF r(1)])
      moreover have new: "distinct (map pr_id ?left) \<and> pr_id r \<notin> pr_id ` set ?left"
        using split(2) [of pr_id] base by (simp add: base_inv_def)
      moreover have "dom (active ?t) = dom (fst (kv_ledger k))"
        using base len by (simp add: base_inv_def)
      moreover have "pr_id r < next_request s" using r(1) by (simp add: pending_ok_def)
      moreover have "\<forall>q\<in>set ?left. pending_ok (kv_cap (kv s)) (next_request s) q \<and> active s (pr_id q) = None"
        using base split(1) by (auto simp: base_inv_def)
      moreover have "\<forall>q\<in>set ?left. pr_id q \<noteq> pr_id r"
        using conjunct2 [OF new] by (metis imageI)
      ultimately have b: "base_inv ?t"
        using base k(2) cap base_inv_promoted [where s = s and t = ?t and rid = "pr_id r" and a = ?a] by simp
      have "phase_ok (len_of ?t) rid a" if "active ?t rid = Some a" for rid a
      proof (cases "rid = pr_id r")
        case True
        have "pr_prompt r \<noteq> []" using r(1) by (simp add: pending_ok_def)
        then have "?m < length (pr_prompt r)" using m by (cases "pr_prompt r") auto
        then show ?thesis using True \<open>active ?t rid = Some a\<close> len by (auto simp: phase_ok_def activate_def)
      next
        case False
        then show ?thesis using \<open>active ?t rid = Some a\<close> len Suc.prems(1)
          by (auto simp: idle_inv_def phase_ok_def split: phase.splits)
      qed
      then have i: "idle_inv ?t" using b opn Suc.prems(1) by (simp add: idle_inv_def)
      have room: "id_room ?t" using Suc.prems(2) k(5) cap by (simp add: id_room_def)
      have step: "promote_loop chain (Suc n) avail s =
          promote_loop chain n (if ?reserve then avail - ?pages else avail) ?t"
        using False fits dw k(1) by (simp add: Let_def on_kv_def) blast
      have distinct: "distinct (map pr_id (?left @ [r]))" using new by auto
      have fin: "same_work s ?t"
        unfolding same_work_def using contents_promoted [OF dw distinct r(2)] by simp
      have "wp (promote_loop chain n (if ?reserve then avail - ?pages else avail))
          (\<lambda>_ t. idle_inv t \<and> id_room t \<and> same_work s t) (\<lambda>e t. False) ?t"
        by (rule wp_conseq [OF Suc.IH [OF i room]]) (use same_work_trans [OF fin] in auto)
      then show ?thesis unfolding wp_def step .
    qed
  qed
qed

lemma promote_pending_ok:
  assumes "idle_inv s" and "id_room s"
  shows "wp (promote_pending chain) (\<lambda>_ t. idle_inv t \<and> id_room t \<and> same_work s t) (\<lambda>e t. t = s) s"
proof (cases "if admission_policy (opts s) = ReserveSequenceCapacity
            then take_budgets (active_budgets s) (num_pages (kv_conf (kv s)))
            else Some (num_pages (kv_conf (kv s)))")
  case None
  then show ?thesis by (simp add: promote_pending_def wp_def split: if_splits)
next
  case (Some avail)
  have "wp (promote_loop chain (length (pending s)) avail)
      (\<lambda>_ t. idle_inv t \<and> id_room t \<and> same_work s t) (\<lambda>e t. t = s) s"
    by (rule wp_conseq [OF promote_loop_ok [OF assms]]) auto
  then show ?thesis by (rule wp_eq [rotated]) (use Some in \<open>simp add: promote_pending_def\<close>)
qed

lemma schedule_ok:
  assumes "sched_inv s" and "id_room s"
  shows "wp (schedule chain) (scheduled s) (\<lambda>e t. sched_inv t \<and> same_work s t \<and> in_flight t = in_flight s) s"
proof (cases "in_flight s")
  case (Some b)
  then show ?thesis using assms(1) by (simp add: schedule_def wp_def)
next
  case None
  then have i: "idle_inv s" using assms(1) by (simp add: sched_inv_def)
  show ?thesis
  proof (cases "next_batch s = usize_max")
    case True
    then show ?thesis using None assms(1) by (simp add: schedule_def wp_def)
  next
    case False
    let ?loop = "\<lambda>_ s. schedule_loop (Suc (card (dom (active s)))) s"
    have "wp (bind_op (promote_pending chain) ?loop) (scheduled s) (\<lambda>e t. sched_inv t \<and> same_work s t \<and> in_flight t = in_flight s) s"
    proof (rule wp_bind, rule wp_conseq [OF promote_pending_ok [OF i assms(2)]])
      fix x and t :: "'a scheduler" assume t: "idle_inv t \<and> id_room t \<and> same_work s t"
      then have "card (page_owners t) \<le> card (dom (active t))"
        by (intro card_mono base_finite page_owners_active) (simp_all add: idle_inv_def)
      then have w: "wp (schedule_loop (Suc (card (dom (active t))))) (scheduled t) (\<lambda>e. keeps t) t"
        using t by (intro schedule_loop_ok) auto
      have "wp (schedule_loop (Suc (card (dom (active t))))) (scheduled s) (\<lambda>e t. sched_inv t \<and> same_work s t \<and> in_flight t = in_flight s) t"
        by (rule wp_conseq [OF w]) (use t idle_sched same_work_trans None in \<open>auto simp: scheduled_def keeps_def idle_inv_def\<close>)
      then show "wp (?loop x) (scheduled s) (\<lambda>e t. sched_inv t \<and> same_work s t \<and> in_flight t = in_flight s) t" by (rule wp_eq [rotated]) simp
    qed (use assms(1) in simp)
    then show ?thesis by (rule wp_eq [rotated]) (use None False in \<open>simp add: schedule_def\<close>)
  qed
qed

end
