(* ===== verification/BatchComplete.thy ===== *)
theory BatchComplete
  imports BatchSchedule
begin

text \<open>
  Completing, verifying and failing a batch keep the invariant. While the rows of a batch
  are settled one after the other, \<open>moved\<close> says where every request stands; a completed
  row adds its token to its request (\<open>row_result\<close>), and nothing else changes.
\<close>

section \<open>Rows under way\<close>

text \<open>
  \<open>pos\<close> is the committed length of a row's request: its context once the batch is committed,
  its start once the batch is cancelled.
\<close>

definition moved :: "(sched_seq \<Rightarrow> nat) \<Rightarrow> batch_kind \<Rightarrow> sched_seq list \<Rightarrow> 'smp scheduler \<Rightarrow> bool" where
  "moved pos kind rows s \<longleftrightarrow> base_inv s \<and> in_flight s = None \<and> open_of s = Map.empty
     \<and> distinct (map sc_request rows)
     \<and> (\<forall>r\<in>set rows. (\<exists>a. active s (sc_request r) = Some a \<and> row_shape kind a (sc_start r) (sc_tokens r))
          \<and> len_of s (sc_request r) = Some (pos r) \<and> sc_context r = sc_start r + length (sc_tokens r)
          \<and> sc_tokens r \<noteq> [])
     \<and> (\<forall>rid a. active s rid = Some a \<longrightarrow> rid \<notin> sc_request ` set rows \<longrightarrow> phase_ok (len_of s) rid a)"

lemma moved_done: "moved pos kind [] s \<Longrightarrow> idle_inv s"
  by (simp add: moved_def idle_inv_def)

lemma phase_ok_at: "L' rid = L rid \<Longrightarrow> phase_ok L' rid a = phase_ok L rid a"
  by (simp add: phase_ok_def cong: phase.case_cong)

lemma moved_other:
  assumes "moved pos kind (r # rows) s" and "x \<in> set rows"
  shows "sc_request x \<noteq> sc_request r"
proof -
  have "sc_request r \<notin> sc_request ` set rows" using assms(1) by (simp add: moved_def)
  then show ?thesis using imageI [OF assms(2), of sc_request] by metis
qed

lemma moved_head:
  assumes "moved pos kind (r # rows) s"
  obtains a where "active s (sc_request r) = Some a" and "row_shape kind a (sc_start r) (sc_tokens r)"
    and "len_of s (sc_request r) = Some (pos r)" and "sc_context r = sc_start r + length (sc_tokens r)"
    and "sc_tokens r \<noteq> []" and "request_ok (kv_cap (kv s)) a"
  using assms base_request by (fastforce simp: moved_def)

lemma moved_update:
  assumes m: "moved pos kind (r # rows) s" and a: "active s (sc_request r) = Some a"
    and new: "request_ok (kv_cap (kv s)) a'" "phase_ok (len_of s) (sc_request r) a'"
  shows "moved pos kind rows (s\<lparr>active := (active s)(sc_request r \<mapsto> a')\<rparr>)"
proof -
  let ?t = "s\<lparr>active := (active s)(sc_request r \<mapsto> a')\<rparr>"
  have "base_inv ?t" by (rule base_inv_active [OF _ a new(1)]) (use m in \<open>simp add: moved_def\<close>)
  moreover have "sc_request x \<noteq> sc_request r" if "x \<in> set rows" for x
    by (rule moved_other [OF m that])
  moreover have "phase_ok (len_of ?t) rid b" if "active ?t rid = Some b" "rid \<notin> sc_request ` set rows" for rid b
    using that m new(2) by (cases "rid = sc_request r") (auto simp: moved_def)
  ultimately show ?thesis using m by (simp add: moved_def)
qed

lemma base_inv_dropped:
  assumes b: "base_inv s" and k: "kv_inv k" "kv_cap k = kv_cap (kv s)" "fst (kv_ledger k) = (len_of s)(rid := None)"
    and t: "kv t = k" "active t = (active s)(rid := None)" "pending t = pending s"
      "next_request t = next_request s" "next_batch t = next_batch s"
  shows "base_inv t"
proof -
  have "dom (active t) = dom (len_of t)" using b k(3) t(1,2) by (simp add: base_inv_def)
  moreover have "active t r = Some a \<Longrightarrow> active s r = Some a" for r a using t(2) by (auto split: if_splits)
  moreover have "active s r = None \<Longrightarrow> active t r = None" for r using t(2) by simp
  ultimately show ?thesis using b k(1,2) t unfolding base_inv_def by metis
qed

lemma moved_finish:
  assumes m: "moved pos kind (r # rows) s" and a: "active s (sc_request r) = Some a"
  obtains k where "remove_sequence (sc_request r) (kv s) = (Ok (), k)"
    and "moved pos kind rows (s\<lparr>active := (active s)(sc_request r := None), kv := k, finished := fin\<rparr>)"
proof -
  let ?rid = "sc_request r"
  have base: "base_inv s" using m by (simp add: moved_def)
  have "len_of s ?rid \<noteq> None" using base_len [OF base a] by auto
  moreover have "lg_free (kv_ledger (kv s)) ?rid" using m by (simp add: moved_def lg_free_def)
  ultimately obtain k where k: "remove_sequence ?rid (kv s) = (Ok (), k)" "kv_inv k"
    "kv_ledger k = lg_remove ?rid (kv_ledger (kv s))" "kv_cap k = kv_cap (kv s)"
    using kvs.drop_law [OF base_kv [OF base]] by metis
  let ?t = "s\<lparr>active := (active s)(?rid := None), kv := k, finished := fin\<rparr>"
  have b: "base_inv ?t" by (rule base_inv_dropped [OF base k(2,4)]) (simp_all add: k(3) lg_remove_def)
  have "sc_request x \<noteq> ?rid" if "x \<in> set rows" for x
    by (rule moved_other [OF m that])
  moreover have "phase_ok (len_of ?t) rid b" if "active ?t rid = Some b" "rid \<notin> sc_request ` set rows" for rid b
  proof -
    have "rid \<noteq> ?rid" "active s rid = Some b" using that(1) by (auto split: if_splits)
    then have "phase_ok (len_of s) rid b" using m that(2) by (simp add: moved_def)
    then show ?thesis using phase_ok_at [of "len_of ?t" rid "len_of s" b] k(3) \<open>rid \<noteq> ?rid\<close> by (simp add: lg_remove_def)
  qed
  ultimately have "moved pos kind rows ?t"
    using m b k(3) by (simp add: moved_def lg_remove_def)
  with k(1) that show thesis by blast
qed

section \<open>Applying the tokens\<close>

text \<open>
  What a completed row does to its request: a chunk of a prompt goes on, otherwise the token
  is appended and the request ends on an end token or at its token limit.
\<close>

definition extended :: "token list \<Rightarrow> 'smp active_request \<Rightarrow> 'smp active_request" where
  "extended ts a = a\<lparr>ac_generated := ac_generated a @ ts, ac_history := ac_history a @ ts\<rparr>"

definition ends :: "'smp active_request \<Rightarrow> bool" where
  "ends a \<longleftrightarrow> last (ac_generated a) \<in> ac_eos a \<or> max_new_tokens (ac_gen a) \<le> length (ac_generated a)"

definition as_finished :: "nat \<Rightarrow> 'smp active_request \<Rightarrow> finished_generation" where
  "as_finished rid a = \<lparr>fg_request = rid, fg_prompt = ac_prompt a, fg_generated = ac_generated a,
     fg_eos = (last (ac_generated a) \<in> ac_eos a)\<rparr>"

definition row_result :: "sched_seq \<Rightarrow> token \<Rightarrow> 'smp active_request \<Rightarrow> 'smp active_request \<times> bool" where
  "row_result r t a =
     (if sc_context r < length (ac_history a) then (a\<lparr>ac_phase := NeedsPrefill\<rparr>, False)
      else if ends (extended [t] a) then (extended [t] a, True)
      else ((extended [t] a)\<lparr>ac_phase := AwaitingDecode t\<rparr>, False))"

text \<open>The scheduler after the rows, up to the KV manager.\<close>

fun rows_result :: "(sched_seq \<times> token) list \<Rightarrow> (nat \<rightharpoonup> 'smp active_request) \<times> finished_generation list \<Rightarrow>
    (nat \<rightharpoonup> 'smp active_request) \<times> finished_generation list" where
  "rows_result [] w = w"
| "rows_result ((r, t) # rows) (act, fin) =
     (let (a, over) = row_result r t (the (act (sc_request r)))
      in rows_result rows
           (if over then (act(sc_request r := None), fin @ [as_finished (sc_request r) a])
            else (act(sc_request r \<mapsto> a), fin)))"

lemma extended_simps [simp]:
  "ac_gen (extended ts a) = ac_gen a" "ac_prompt (extended ts a) = ac_prompt a" "ac_eos (extended ts a) = ac_eos a"
  "ac_generated (extended ts a) = ac_generated a @ ts" "ac_history (extended ts a) = ac_history a @ ts"
  "ac_phase (extended ts a) = ac_phase a"
  by (simp_all add: extended_def)

text \<open>A request goes on with tokens that stay below its limit and contain no end token.\<close>

lemma request_ok_extended:
  assumes "request_ok cap a" and "length (ac_generated a) + length ts < max_new_tokens (ac_gen a)"
    and "set ts \<inter> ac_eos a = {}"
  shows "request_ok cap (extended ts a)"
  using assms by (auto simp: request_ok_def)

lemma completed_context:
  assumes "row_shape kind a (sc_start r) (sc_tokens r)" and "kind \<noteq> Verify"
    and "sc_context r = sc_start r + length (sc_tokens r)"
  shows "sc_context r \<le> length (ac_history a)"
  using assms by (cases kind) (auto simp: row_shape_def)

lemma apply_token_ok:
  assumes m: "moved sc_context kind (r # rows) s" and kind: "kind \<noteq> Verify"
  obtains t where "apply_token (r, tok) s = (Ok (), t)" and "moved sc_context kind rows t"
    and "(active t, finished t) = (case row_result r tok (the (active s (sc_request r))) of (a, over) \<Rightarrow>
       if over then ((active s)(sc_request r := None), finished s @ [as_finished (sc_request r) a])
       else ((active s)(sc_request r \<mapsto> a), finished s))"
    and "t = s\<lparr>active := active t, kv := kv t, finished := finished t\<rparr>"
proof -
  obtain a where a: "active s (sc_request r) = Some a" "row_shape kind a (sc_start r) (sc_tokens r)"
    "len_of s (sc_request r) = Some (sc_context r)" "sc_context r = sc_start r + length (sc_tokens r)"
    "request_ok (kv_cap (kv s)) a" using moved_head [OF m] by metis
  note le = completed_context [OF a(2) kind a(4)]
  show thesis
  proof (cases "sc_context r < length (ac_history a)")
    case True
    let ?t = "s\<lparr>active := (active s)(sc_request r \<mapsto> a\<lparr>ac_phase := NeedsPrefill\<rparr>)\<rparr>"
    have "moved sc_context kind rows ?t"
      by (rule moved_update [OF m a(1)]) (use a True in \<open>simp_all add: phase_ok_def\<close>)
    then show thesis using that [of ?t] a(1) True by (simp add: apply_token_def row_result_def)
  next
    case False
    then have ctx: "sc_context r = length (ac_history a)" using le by simp
    let ?a = "extended [tok] a"
    show thesis
    proof (cases "ends ?a")
      case True
      let ?s = "s\<lparr>active := (active s)(sc_request r \<mapsto> ?a)\<rparr>"
      let ?e = "tok \<in> ac_eos a"
      obtain k where k: "remove_sequence (sc_request r) (kv s) = (Ok (), k)"
        and mk: "moved sc_context kind rows (s\<lparr>active := (active s)(sc_request r := None), kv := k,
          finished := finished s @ [as_finished (sc_request r) ?a]\<rparr>)"
        by (rule moved_finish [OF m a(1)])
      let ?t = "s\<lparr>active := (active s)(sc_request r := None), kv := k,
          finished := finished s @ [as_finished (sc_request r) ?a]\<rparr>"
      have "finish_request (sc_request r) ?e ?s = (Ok (), ?t)"
        using k by (simp add: finish_request_def on_kv_def as_finished_def)
      then have "apply_token (r, tok) s = (Ok (), ?t)"
        using a(1) False True by (simp add: apply_token_def extended_def ends_def Let_def)
      then show thesis using that [of ?t] mk a(1) False True by (simp add: row_result_def)
    next
      case go: False
      let ?t = "s\<lparr>active := (active s)(sc_request r \<mapsto> ?a\<lparr>ac_phase := AwaitingDecode tok\<rparr>)\<rparr>"
      have "request_ok (kv_cap (kv s)) ?a"
        by (rule request_ok_extended [OF a(5)]) (use go in \<open>auto simp: ends_def\<close>)
      then have "moved sc_context kind rows ?t"
        by (intro moved_update [OF m a(1)]) (use a(3) ctx in \<open>simp_all add: phase_ok_def\<close>)
      moreover have "apply_token (r, tok) s = (Ok (), ?t)"
        using a(1) False go by (simp add: apply_token_def extended_def ends_def Let_def)
      ultimately show thesis using that [of ?t] a(1) False go by (simp add: row_result_def)
    qed
  qed
qed

lemma apply_tokens_ok:
  assumes "moved sc_context kind (map fst rts) s" and "kind \<noteq> Verify"
  shows "\<exists>t. for_op apply_token rts s = (Ok (), t) \<and> idle_inv t
     \<and> (active t, finished t) = rows_result rts (active s, finished s)
     \<and> t = s\<lparr>active := active t, kv := kv t, finished := finished t\<rparr>"
  using assms(1)
proof (induction rts arbitrary: s)
  case Nil
  then show ?case using moved_done by fastforce
next
  case (Cons rt rts)
  obtain r tok where rt: "rt = (r, tok)" by (cases rt)
  have m: "moved sc_context kind (r # map fst rts) s" using Cons.prems rt by simp
  obtain t where t: "apply_token (r, tok) s = (Ok (), t)" "moved sc_context kind (map fst rts) t"
    "(active t, finished t) = (case row_result r tok (the (active s (sc_request r))) of (a, over) \<Rightarrow>
       if over then ((active s)(sc_request r := None), finished s @ [as_finished (sc_request r) a])
       else ((active s)(sc_request r \<mapsto> a), finished s))"
    "t = s\<lparr>active := active t, kv := kv t, finished := finished t\<rparr>"
    by (rule apply_token_ok [OF m assms(2)])
  obtain u where u: "for_op apply_token rts t = (Ok (), u)" "idle_inv u"
    "(active u, finished u) = rows_result rts (active t, finished t)"
    "u = t\<lparr>active := active u, kv := kv u, finished := finished u\<rparr>"
    using Cons.IH [OF t(2)] by blast
  have "for_op apply_token (rt # rts) s = (Ok (), u)" using t(1) u(1) rt by simp
  moreover have "(active u, finished u) = rows_result (rt # rts) (active s, finished s)"
    using u(3) t(3) rt by (simp add: Let_def split: prod.splits)
  moreover have "u = s\<lparr>active := active u, kv := kv u, finished := finished u\<rparr>"
    by (subst u(4), subst t(4)) simp
  ultimately show ?case using u(2) by blast
qed

section \<open>The rows of a batch in flight\<close>

lemma flight_row:
  assumes "flight_inv s b" and "r \<in> set (sb_rows b)"
  obtains a m where "active s (sc_request r) = Some a" and "ac_phase a = InFlight (sb_id b)"
    and "row_shape (sb_kind b) a (sc_start r) (sc_tokens r)" and "len_of s (sc_request r) = Some (sc_start r)"
    and "open_of s (sc_reservation r) = Some (sc_request r, sc_start r, m)" and "length (sc_tokens r) \<le> m"
    and "sc_context r = sc_start r + length (sc_tokens r)" and "sc_tokens r \<noteq> []"
  using assms by (fastforce simp: flight_inv_def row_inv_def)

lemma flight_distinct: "flight_inv s b \<Longrightarrow> distinct (map sc_reservation (sb_rows b))"
proof -
  assume f: "flight_inv s b"
  have "inj_on sc_reservation (set (sb_rows b))"
  proof (rule inj_onI)
    fix x y assume x: "x \<in> set (sb_rows b)" and y: "y \<in> set (sb_rows b)" and e: "sc_reservation x = sc_reservation y"
    obtain mx where "open_of s (sc_reservation x) = Some (sc_request x, sc_start x, mx)" by (rule flight_row [OF f x])
    moreover obtain my where "open_of s (sc_reservation y) = Some (sc_request y, sc_start y, my)"
      by (rule flight_row [OF f y])
    ultimately have "sc_request x = sc_request y" using e by simp
    then show "x = y" using f x y by (auto simp: flight_inv_def distinct_map inj_on_def)
  qed
  then show ?thesis using f by (simp add: flight_inv_def distinct_map)
qed

lemma flight_owned: "flight_inv s b \<Longrightarrow> ownership_error (sb_id b) (sb_rows b) (s\<lparr>in_flight := f\<rparr>) = None"
proof -
  assume f: "flight_inv s b"
  have "ownership_error (sb_id b) rows (s\<lparr>in_flight := f\<rparr>) = None" if "set rows \<subseteq> set (sb_rows b)" for rows
    using that
  proof (induction rows)
    case (Cons r rows)
    then have r: "r \<in> set (sb_rows b)" by simp
    obtain a where "active s (sc_request r) = Some a" "ac_phase a = InFlight (sb_id b)" by (rule flight_row [OF f r])
    then show ?case using Cons by simp
  qed simp
  then show ?thesis by simp
qed

lemma base_inv_in_flight [simp]: "base_inv (s\<lparr>in_flight := f\<rparr>) = base_inv s"
  by (simp add: base_inv_def)

text \<open>Once the KV manager has settled the reservations, the requests stand at \<open>pos\<close>.\<close>

lemma flight_moved:
  assumes f: "flight_inv s b" and k: "kv_inv k" "kv_cap k = kv_cap (kv s)" "snd (kv_ledger k) = Map.empty"
    and pos: "\<And>r. r \<in> set (sb_rows b) \<Longrightarrow> fst (kv_ledger k) (sc_request r) = Some (pos r)"
    and rest: "\<And>rid. rid \<notin> sc_request ` set (sb_rows b) \<Longrightarrow> fst (kv_ledger k) rid = len_of s rid"
  shows "moved pos (sb_kind b) (sb_rows b) (s\<lparr>in_flight := None, kv := k\<rparr>)"
proof -
  let ?t = "s\<lparr>in_flight := None, kv := k\<rparr>"
  have "fst (kv_ledger k) rid = None \<longleftrightarrow> len_of s rid = None" for rid
  proof (cases "rid \<in> sc_request ` set (sb_rows b)")
    case True
    then obtain r where r: "r \<in> set (sb_rows b)" "rid = sc_request r" by auto
    obtain a where "len_of s (sc_request r) = Some (sc_start r)" by (rule flight_row [OF f r(1)])
    then show ?thesis using pos [OF r(1)] r(2) by simp
  qed (simp add: rest)
  then have d: "dom (fst (kv_ledger k)) = dom (len_of s)" by (simp add: dom_def)
  have b: "base_inv ?t"
    using f k d unfolding base_inv_def flight_inv_def by simp
  have "phase_ok (len_of ?t) rid a" if "active ?t rid = Some a" "rid \<notin> sc_request ` set (sb_rows b)" for rid a
    using that f rest phase_ok_at [of "len_of ?t" rid "len_of s" a] by (simp add: flight_inv_def)
  moreover have "(\<exists>a. active ?t (sc_request r) = Some a \<and> row_shape (sb_kind b) a (sc_start r) (sc_tokens r))
      \<and> len_of ?t (sc_request r) = Some (pos r) \<and> sc_context r = sc_start r + length (sc_tokens r) \<and> sc_tokens r \<noteq> []"
    if r: "r \<in> set (sb_rows b)" for r
  proof -
    obtain a where "active s (sc_request r) = Some a" "row_shape (sb_kind b) a (sc_start r) (sc_tokens r)"
      "sc_context r = sc_start r + length (sc_tokens r)" "sc_tokens r \<noteq> []" by (rule flight_row [OF f r])
    then show ?thesis using pos [OF r] by simp
  qed
  ultimately show ?thesis using b f k(3) by (simp add: moved_def flight_inv_def)
qed

section \<open>Completing a batch\<close>

lemma register_rows_ok:
  assumes "base_inv s" and "\<forall>r\<in>set rows. active s (sc_request r) \<noteq> None"
  shows "\<exists>k. for_op (register_row chain) rows s = (Ok (), s\<lparr>kv := k\<rparr>) \<and> kv_inv k
    \<and> kv_ledger k = kv_ledger (kv s) \<and> kv_cap k = kv_cap (kv s)"
  using assms
proof (induction rows arbitrary: s)
  case Nil
  then show ?case by (intro exI [of _ "kv s"]) (simp add: base_inv_def)
next
  case (Cons r rows)
  obtain a where a: "active s (sc_request r) = Some a" using Cons.prems(2) by auto
  then have "len_of s (sc_request r) \<noteq> None" using base_len [OF Cons.prems(1)] by fastforce
  then obtain k where k: "register_prefix chain (sc_request r) (ac_history a) (kv s) = (Ok (), k)" "kv_inv k"
    "kv_ledger k = kv_ledger (kv s)" "kv_cap k = kv_cap (kv s)"
    using kvc.register_law [OF base_kv [OF Cons.prems(1)]] by blast
  have "base_inv (s\<lparr>kv := k\<rparr>)" by (rule base_inv_kv [OF Cons.prems(1) k(2) _ k(4)]) (simp add: k(3))
  from Cons.IH [OF this] Cons.prems(2) obtain k' where
    "for_op (register_row chain) rows (s\<lparr>kv := k\<rparr>) = (Ok (), s\<lparr>kv := k'\<rparr>)" "kv_inv k'"
    "kv_ledger k' = kv_ledger (kv s)" "kv_cap k' = kv_cap (kv s)" using k(3,4) by auto
  moreover have "register_row chain r s = (Ok (), s\<lparr>kv := k\<rparr>)"
    using k(1) by (simp add: register_row_def get_active_Ok [of s "sc_request r", OF a] on_kv_def)
  ultimately show ?case by auto
qed

definition completed :: "nat \<Rightarrow> token list \<Rightarrow> 'smp scheduler \<Rightarrow> 'smp scheduler \<Rightarrow> bool" where
  "completed bid toks s t \<longleftrightarrow> idle_inv t \<and> (\<exists>b. in_flight s = Some b \<and> sb_id b = bid \<and> length toks = length (sb_rows b)
      \<and> (active t, finished t) = rows_result (zip (sb_rows b) toks) (active s, finished s))
     \<and> t = s\<lparr>in_flight := None, active := active t, kv := kv t, finished := finished t\<rparr>"

lemma restore_same: "in_flight s = Some b \<Longrightarrow> s\<lparr>in_flight := Some b\<rparr> = s"
  by (cases s) simp

text \<open>The checks of \<open>complete_batch\<close> that can fail in a state with the invariant.\<close>

definition completes :: "nat \<Rightarrow> token list \<Rightarrow> 'smp scheduler \<Rightarrow> bool" where
  "completes bid toks s \<longleftrightarrow> (case in_flight s of None \<Rightarrow> False
     | Some b \<Rightarrow> sb_id b = bid \<and> length toks = length (sb_rows b)
         \<and> \<not> list_ex (\<lambda>(r, t). samples_token (s\<lparr>in_flight := None\<rparr>) r \<and> t < 0) (zip (sb_rows b) toks))"

lemma complete_batch_exact:
  assumes inv: "sched_inv s" and kind: "\<forall>b. in_flight s = Some b \<longrightarrow> sb_kind b \<noteq> Verify"
  shows "if completes bid toks s then \<exists>t. complete_batch chain bid toks s = (Ok (), t) \<and> completed bid toks s t
     else \<exists>e. complete_batch chain bid toks s = (Err e, s)"
proof (cases "in_flight s")
  case None
  then show ?thesis by (simp add: complete_batch_def take_batch_def completes_def)
next
  case (Some b)
  have rst: "s\<lparr>in_flight := Some b\<rparr> = s" by (rule restore_same [OF Some])
  have f: "flight_inv s b" using inv Some by (simp add: sched_inv_def)
  have k0: "kv_inv (kv s)" using f by (simp add: flight_inv_def base_inv_def)
  let ?s = "s\<lparr>in_flight := None\<rparr>"
  show ?thesis
  proof (cases "sb_id b \<noteq> bid \<or> length toks \<noteq> length (sb_rows b)
      \<or> list_ex (\<lambda>(r, t). samples_token ?s r \<and> t < 0) (zip (sb_rows b) toks)")
    case True
    have "\<exists>e. complete_batch chain bid toks s = (Err e, s)"
    proof (cases "sb_id b = bid")
      case False
      then show ?thesis using Some by (simp add: complete_batch_def take_batch_def)
    next
      case owner: True
      then have "take_batch bid s = (Ok b, ?s)" using Some by (simp add: take_batch_def)
      then show ?thesis using True owner rst by (simp add: complete_batch_def bind_op_def Let_def)
    qed
    moreover have "\<not> completes bid toks s" using True Some by (auto simp: completes_def)
    ultimately show ?thesis by simp
  next
    case False
    then have bid: "sb_id b = bid" by simp
    note own = flight_owned [OF f, of None]
    let ?rows = "map (\<lambda>r. (sc_reservation r, length (sc_tokens r))) (sb_rows b)"
    have "map fst ?rows = map sc_reservation (sb_rows b)" by simp
    then have dist: "distinct (map fst ?rows)" using flight_distinct [OF f] by metis
    have within: "rows_within (kv_ledger (kv s)) ?rows"
      unfolding rows_within_def
    proof (intro conjI dist ballI)
      fix x assume "x \<in> set ?rows"
      then obtain r where r: "r \<in> set (sb_rows b)" "x = (sc_reservation r, length (sc_tokens r))" by auto
      obtain m where "open_of s (sc_reservation r) = Some (sc_request r, sc_start r, m)" "length (sc_tokens r) \<le> m"
        "sc_tokens r \<noteq> []" by (rule flight_row [OF f r(1)])
      then show "case x of (i, k) \<Rightarrow> 0 < k \<and> (\<exists>r st m. open_of s i = Some (r, st, m) \<and> k \<le> m)"
        by (auto simp: r(2))
    qed
    then obtain ps k where k: "commit_append_prefixes ?rows (kv s) = (Ok ps, k)" "kv_inv k"
      "kv_ledger k = lg_settle_rows ?rows (kv_ledger (kv s))" "kv_cap k = kv_cap (kv s)"
      using kvs.commit_law [OF k0, of ?rows] by auto
    note lg = kvs.ledger_ok [OF k0]
    have none: "snd (kv_ledger k) = Map.empty"
    proof
      fix i show "snd (kv_ledger k) i = None"
      proof (cases "i \<in> fst ` set ?rows")
        case False
        have "dom (open_of s) = fst ` set ?rows" using f by (simp add: flight_inv_def image_image)
        then have "open_of s i = None" using False by auto
        then show ?thesis by (simp add: k(3) lg_settle_rows_none)
      qed (simp add: k(3) lg_settle_rows_gone)
    qed
    have m: "moved sc_context (sb_kind b) (sb_rows b) (s\<lparr>in_flight := None, kv := k\<rparr>)"
    proof (rule flight_moved [OF f k(2,4) none])
      fix r assume r: "r \<in> set (sb_rows b)"
      obtain m where m: "open_of s (sc_reservation r) = Some (sc_request r, sc_start r, m)"
        "sc_context r = sc_start r + length (sc_tokens r)" by (rule flight_row [OF f r])
      have "(sc_reservation r, length (sc_tokens r)) \<in> set ?rows" using r by auto
      from lg_settle_rows_request [OF lg dist this m(1)] m(2)
      show "fst (kv_ledger k) (sc_request r) = Some (sc_context r)" by (simp add: k(3))
    next
      fix rid assume rid: "rid \<notin> sc_request ` set (sb_rows b)"
      have "\<forall>(i, k)\<in>set ?rows. \<forall>st n. open_of s i \<noteq> Some (rid, st, n)"
      proof (intro ballI, clarify)
        fix i n st m assume "(i, n) \<in> set ?rows" and op: "open_of s i = Some (rid, st, m)"
        then obtain r where r: "r \<in> set (sb_rows b)" "i = sc_reservation r" by auto
        obtain m' where "open_of s (sc_reservation r) = Some (sc_request r, sc_start r, m')" by (rule flight_row [OF f r(1)])
        then have "sc_request r = rid" using op r(2) by simp
        then show False using rid r(1) by auto
      qed
      then show "fst (kv_ledger k) rid = len_of s rid"
        unfolding k(3) by (rule lg_settle_rows_untouched [OF lg])
    qed
    let ?t = "s\<lparr>in_flight := None, kv := k\<rparr>"
    have act: "\<forall>r\<in>set (sb_rows b). active ?t (sc_request r) \<noteq> None"
    proof
      fix r assume "r \<in> set (sb_rows b)"
      then obtain a where "active s (sc_request r) = Some a" by (rule flight_row [OF f])
      then show "active ?t (sc_request r) \<noteq> None" by simp
    qed
    have bt: "base_inv ?t" using m by (simp add: moved_def)
    obtain k' where k': "for_op (register_row chain) (sb_rows b) ?t = (Ok (), s\<lparr>in_flight := None, kv := k'\<rparr>)"
      "kv_inv k'" "kv_ledger k' = kv_ledger k" "kv_cap k' = kv_cap k"
      using register_rows_ok [OF bt act] by auto
    have m': "moved sc_context (sb_kind b) (map fst (zip (sb_rows b) toks)) (s\<lparr>in_flight := None, kv := k'\<rparr>)"
      using m k'(2-4) base_inv_kv [OF bt k'(2)] False by (simp add: moved_def)
    obtain u where u: "for_op apply_token (zip (sb_rows b) toks) (s\<lparr>in_flight := None, kv := k'\<rparr>) = (Ok (), u)"
      "idle_inv u" "(active u, finished u) = rows_result (zip (sb_rows b) toks) (active s, finished s)"
      "u = s\<lparr>in_flight := None, kv := k', active := active u, kv := kv u, finished := finished u\<rparr>"
      using apply_tokens_ok [OF m' kind [rule_format, OF Some]] by auto
    have "complete_batch chain bid toks s = (Ok (), u)"
      using Some False own k(1) k'(1) u(1) bid by (simp add: complete_batch_def take_batch_def Let_def)
    moreover have "u = s\<lparr>in_flight := None, active := active u, kv := kv u, finished := finished u\<rparr>"
      by (subst u(4)) simp
    ultimately have "\<exists>t. complete_batch chain bid toks s = (Ok (), t) \<and> completed bid toks s t"
      using u(2,3) Some bid False unfolding completed_def by blast
    moreover have "completes bid toks s" using False Some by (simp add: completes_def)
    ultimately show ?thesis by simp
  qed
qed

lemma complete_batch_cases:
  assumes "sched_inv s" and "\<forall>b. in_flight s = Some b \<longrightarrow> sb_kind b \<noteq> Verify"
  shows "(\<exists>e. complete_batch chain bid toks s = (Err e, s)) \<or>
     (\<exists>t. complete_batch chain bid toks s = (Ok (), t) \<and> completed bid toks s t)"
  using complete_batch_exact [OF assms, of bid toks chain] by (auto split: if_splits)

end
