(* ===== verification/BatchVerify.thy ===== *)
theory BatchVerify
  imports BatchComplete
begin

text \<open>
  Failing a batch restores its requests; completing a verification batch appends the tokens
  that plain greedy decoding would have produced. Both keep the invariant.
\<close>

section \<open>Failing a batch\<close>

text \<open>The request a failed row leaves: nothing but its phase has changed.\<close>

definition restored :: "batch_kind \<Rightarrow> sched_seq \<Rightarrow> 'smp active_request \<Rightarrow> 'smp active_request" where
  "restored kind r a = a\<lparr>ac_phase := (if kind = Prefill then NeedsPrefill else AwaitingDecode (hd (sc_tokens r)))\<rparr>"

lemma restored_phase_ok:
  assumes "row_shape kind a (sc_start r) (sc_tokens r)" and "sc_tokens r \<noteq> []" and "L rid = Some (sc_start r)"
  shows "phase_ok L rid (restored kind r a)"
  using assms by (cases kind; cases "sc_tokens r") (auto simp: row_shape_def restored_def phase_ok_def)

lemma restore_phase_eq:
  assumes "active s (sc_request r) = Some a" and "sc_tokens r \<noteq> []"
  shows "restore_phase kind r s = (Ok (), s\<lparr>active := (active s)(sc_request r \<mapsto> restored kind r a)\<rparr>)"
  using assms by (cases kind) (simp_all add: restore_phase_def restored_def)

lemma restore_phases_ok:
  assumes "moved sc_start kind rows s"
  shows "\<exists>t. for_op (restore_phase kind) rows s = (Ok (), t) \<and> idle_inv t \<and> t = s\<lparr>active := active t\<rparr>
    \<and> (\<forall>rid. rid \<notin> sc_request ` set rows \<longrightarrow> active t rid = active s rid)
    \<and> (\<forall>r\<in>set rows. active t (sc_request r) = map_option (restored kind r) (active s (sc_request r)))"
  using assms
proof (induction rows arbitrary: s)
  case Nil
  then show ?case using moved_done by fastforce
next
  case (Cons r rows)
  obtain a where a: "active s (sc_request r) = Some a" "row_shape kind a (sc_start r) (sc_tokens r)"
    "len_of s (sc_request r) = Some (sc_start r)" "sc_tokens r \<noteq> []" "request_ok (kv_cap (kv s)) a"
    using moved_head [OF Cons.prems] by metis
  let ?s = "s\<lparr>active := (active s)(sc_request r \<mapsto> restored kind r a)\<rparr>"
  have "request_ok (kv_cap (kv s)) (restored kind r a)" using a(5) by (simp add: restored_def)
  then have m: "moved sc_start kind rows ?s"
    by (rule moved_update [OF Cons.prems a(1)]) (rule restored_phase_ok [where r = r, OF a(2,4)], rule a(3))
  obtain t where t: "for_op (restore_phase kind) rows ?s = (Ok (), t)" "idle_inv t" "t = ?s\<lparr>active := active t\<rparr>"
    "\<forall>rid. rid \<notin> sc_request ` set rows \<longrightarrow> active t rid = active ?s rid"
    "\<forall>x\<in>set rows. active t (sc_request x) = map_option (restored kind x) (active ?s (sc_request x))"
    using Cons.IH [OF m] by blast
  have new: "sc_request r \<notin> sc_request ` set rows" using moved_other [OF Cons.prems] by fastforce
  have "for_op (restore_phase kind) (r # rows) s = (Ok (), t)"
    using t(1) restore_phase_eq [OF a(1,4)] by simp
  moreover have "t = s\<lparr>active := active t\<rparr>" by (subst t(3)) simp
  moreover have "active t (sc_request x) = map_option (restored kind x) (active s (sc_request x))"
    if "x \<in> set (r # rows)" for x
  proof (cases "x = r")
    case True
    then show ?thesis using t(4) new a(1) by simp
  next
    case False
    then have "x \<in> set rows" using that by simp
    then show ?thesis using t(5) moved_other [OF Cons.prems] by simp
  qed
  moreover have "active t rid = active s rid" if "rid \<notin> sc_request ` set (r # rows)" for rid
    using that t(4) by simp
  ultimately show ?case using t(2) by blast
qed

definition failed :: "nat \<Rightarrow> 'smp scheduler \<Rightarrow> 'smp scheduler \<Rightarrow> bool" where
  "failed bid s t \<longleftrightarrow> idle_inv t \<and> same_work s t \<and> len_of t = len_of s
     \<and> t = s\<lparr>in_flight := None, kv := kv t, active := active t\<rparr>
     \<and> (\<exists>b. in_flight s = Some b \<and> sb_id b = bid
         \<and> (\<forall>rid. rid \<notin> sc_request ` set (sb_rows b) \<longrightarrow> active t rid = active s rid)
         \<and> (\<forall>r\<in>set (sb_rows b). active t (sc_request r)
              = map_option (restored (sb_kind b) r) (active s (sc_request r))))"

lemma fail_batch_exact:
  assumes inv: "sched_inv s"
  shows "if map_option sb_id (in_flight s) = Some bid then \<exists>t. fail_batch bid s = (Ok (), t) \<and> failed bid s t
     else \<exists>e. fail_batch bid s = (Err e, s)"
proof (cases "in_flight s")
  case None
  then show ?thesis by (simp add: fail_batch_def take_batch_def)
next
  case (Some b)
  have f: "flight_inv s b" using inv Some by (simp add: sched_inv_def)
  have k0: "kv_inv (kv s)" using f by (simp add: flight_inv_def base_inv_def)
  show ?thesis
  proof (cases "sb_id b = bid")
    case False
    then show ?thesis using Some by (simp add: fail_batch_def take_batch_def)
  next
    case bid: True
    note own = flight_owned [OF f, of None]
    have "set (map sc_reservation (sb_rows b)) = dom (open_of s)" using f by (simp add: flight_inv_def)
    then obtain k where k: "cancel_appends (map sc_reservation (sb_rows b)) (kv s) = (Ok (), k)" "kv_inv k"
      "kv_ledger k = (len_of s, Map.empty)" "kv_cap k = kv_cap (kv s)"
      by (rule kvs.abort_everything [OF k0 flight_distinct [OF f]])
    have m: "moved sc_start (sb_kind b) (sb_rows b) (s\<lparr>in_flight := None, kv := k\<rparr>)"
    proof (rule flight_moved [OF f k(2,4)])
      fix r assume "r \<in> set (sb_rows b)"
      then have "len_of s (sc_request r) = Some (sc_start r)" by (rule flight_row [OF f])
      then show "fst (kv_ledger k) (sc_request r) = Some (sc_start r)" by (simp add: k(3))
    qed (simp_all add: k(3))
    obtain t where t: "for_op (restore_phase (sb_kind b)) (sb_rows b) (s\<lparr>in_flight := None, kv := k\<rparr>) = (Ok (), t)"
      "idle_inv t" "t = s\<lparr>in_flight := None, kv := k, active := active t\<rparr>"
      "\<forall>rid. rid \<notin> sc_request ` set (sb_rows b) \<longrightarrow> active t rid = active s rid"
      "\<forall>r\<in>set (sb_rows b). active t (sc_request r) = map_option (restored (sb_kind b) r) (active s (sc_request r))"
      using restore_phases_ok [OF m] by auto
    have kt: "kv t = k" "pending t = pending s" "finished t = finished s" "next_request t = next_request s"
      by (subst t(3), simp)+
    have "fail_batch bid s = (Ok (), t)"
      using Some bid own k(1) t(1) by (simp add: fail_batch_def take_batch_def)
    moreover have "same_work s t"
    proof (rule same_work_phases)
      fix rid
      show "map_option (\<lambda>a. (ac_gen a, ac_prompt a, ac_generated a)) (active t rid)
          = map_option (\<lambda>a. (ac_gen a, ac_prompt a, ac_generated a)) (active s rid)"
        using t(4,5) by (cases "rid \<in> sc_request ` set (sb_rows b)")
          (auto simp: restored_def option.map_comp comp_def)
    qed (simp_all add: kt)
    moreover have "t = s\<lparr>in_flight := None, kv := kv t, active := active t\<rparr>" using t(3) kt(1) by simp
    ultimately have "\<exists>t. fail_batch bid s = (Ok (), t) \<and> failed bid s t"
      using t(2,4,5) Some bid kt(1) k(3) by (auto simp: failed_def)
    then show ?thesis using Some bid by simp
  qed
qed

lemma fail_batch_cases:
  assumes "sched_inv s"
  shows "(\<exists>e. fail_batch bid s = (Err e, s)) \<or> (\<exists>t. fail_batch bid s = (Ok (), t) \<and> failed bid s t)"
  using fail_batch_exact [OF assms, of bid] by (auto split: if_splits)

section \<open>Accepted tokens\<close>

text \<open>
  Plain greedy decoding with the model \<open>next\<close>: up to \<open>n\<close> tokens after the history \<open>h\<close>, ending
  at an end token or when \<open>remaining\<close> tokens are made.
\<close>

fun greedy_decode :: "(token list \<Rightarrow> token) \<Rightarrow> token set \<Rightarrow> nat \<Rightarrow> token list \<Rightarrow> nat \<Rightarrow> token list" where
  "greedy_decode model eos remaining h 0 = []"
| "greedy_decode model eos remaining h (Suc n) =
     (if remaining = 0 then []
      else let t = model h in
        if t \<in> eos then [t] else t # greedy_decode model eos (remaining - 1) (h @ [t]) n)"

text \<open>The predictions a model returns for the last token of \<open>h\<close> followed by the draft.\<close>

definition predicts :: "(token list \<Rightarrow> token) \<Rightarrow> token list \<Rightarrow> token list \<Rightarrow> token list \<Rightarrow> bool" where
  "predicts model h draft ps \<longleftrightarrow> length ps = Suc (length draft) \<and> (\<forall>i<length ps. ps ! i = model (h @ take i draft))"

lemma verify_row_greedy:
  "predicts model h draft ps \<Longrightarrow> got < remaining \<Longrightarrow>
   \<exists>out. verify_row eos remaining draft got ps = Some out \<and> out \<noteq> []
     \<and> out = greedy_decode model eos (remaining - got) h (length out)"
proof (induction ps arbitrary: draft got h)
  case Nil
  then show ?case by (simp add: predicts_def)
next
  case (Cons p ps)
  have p: "p = model h" using Cons.prems(1) by (auto simp: predicts_def)
  show ?case
  proof (cases "Suc got = remaining \<or> p \<in> eos \<or> ps = []")
    case True
    then have "verify_row eos remaining draft got (p # ps) = Some [p]" by simp
    moreover have "[p] = greedy_decode model eos (remaining - got) h (length [p])"
      using Cons.prems(2) p by (simp add: Let_def)
    ultimately show ?thesis by blast
  next
    case False
    then obtain d ds where d: "draft = d # ds" using Cons.prems(1) by (cases draft) (auto simp: predicts_def)
    show ?thesis
    proof (cases "d = p")
      case False
      then have "verify_row eos remaining draft got (p # ps) = Some [p]" using d by simp
      moreover have "[p] = greedy_decode model eos (remaining - got) h (length [p])"
        using Cons.prems(2) p by (simp add: Let_def)
      ultimately show ?thesis by blast
    next
      case True
      have "ps ! i = model ((h @ [p]) @ take i ds)" if "i < length ps" for i
      proof -
        have all: "\<forall>i<length (p # ps). (p # ps) ! i = model (h @ take i draft)"
          using Cons.prems(1) unfolding predicts_def by (rule conjunct2)
        have "(p # ps) ! Suc i = model (h @ take (Suc i) draft)"
          by (rule all [rule_format]) (use that in simp)
        then show ?thesis using d True by simp
      qed
      then have "predicts model (h @ [p]) ds ps" using Cons.prems(1) d by (simp add: predicts_def)
      moreover have "Suc got < remaining" using Cons.prems(2) False by simp
      ultimately obtain out where out: "verify_row eos remaining ds (Suc got) ps = Some out" "out \<noteq> []"
        "out = greedy_decode model eos (remaining - Suc got) (h @ [p]) (length out)" using Cons.IH by blast
      have "verify_row eos remaining draft got (p # ps) = Some (p # out)" using False True d out(1) by simp
      moreover have "p # out = greedy_decode model eos (remaining - got) h (length (p # out))"
        using out(3) False p Cons.prems(2) by (simp add: Let_def)
      ultimately show ?thesis by blast
    qed
  qed
qed

text \<open>Whatever the predictions are: a nonempty prefix of them that respects the limits.\<close>

lemma verify_row_bounds:
  "length ps = Suc (length draft) \<Longrightarrow> got < remaining \<Longrightarrow>
   \<exists>out. verify_row eos remaining draft got ps = Some out \<and> out \<noteq> [] \<and> length out \<le> length ps
     \<and> got + length out \<le> remaining \<and> set (butlast out) \<inter> eos = {} \<and> out = take (length out) ps
     \<and> butlast out = take (length out - 1) draft"
proof (induction ps arbitrary: draft got)
  case (Cons p ps)
  show ?case
  proof (cases "Suc got = remaining \<or> p \<in> eos \<or> ps = []")
    case True
    then show ?thesis using Cons.prems by (intro exI [of _ "[p]"]) auto
  next
    case False
    then obtain d ds where d: "draft = d # ds" using Cons.prems(1) by (cases draft) auto
    show ?thesis
    proof (cases "d = p")
      case False
      then show ?thesis using Cons.prems d by (intro exI [of _ "[p]"]) auto
    next
      case True
      obtain out where out: "verify_row eos remaining ds (Suc got) ps = Some out" "out \<noteq> []" "length out \<le> length ps"
        "Suc got + length out \<le> remaining" "set (butlast out) \<inter> eos = {}" "out = take (length out) ps"
        "butlast out = take (length out - 1) ds"
        using Cons.IH [of ds "Suc got"] Cons.prems d False by auto
      have "butlast (p # out) = p # butlast out" using out(2) by simp
      moreover have "take (length (p # out) - 1) draft = p # take (length out - 1) ds"
        using d True out(2) by (cases out) simp_all
      moreover have "take (length (p # out)) (p # ps) = p # out" using out(6) by simp
      ultimately show ?thesis using False True d out(1,3,4,5,7)
        by (intro exI [of _ "p # out"]) simp
    qed
  qed
qed simp

section \<open>Completing a verification batch\<close>

text \<open>The rows still to be verified, with their reservations open.\<close>

definition verifying :: "nat \<Rightarrow> nat \<Rightarrow> sched_seq list \<Rightarrow> 'smp scheduler \<Rightarrow> bool" where
  "verifying bid w rows s \<longleftrightarrow> base_inv s \<and> in_flight s = None \<and> distinct (map sc_request rows)
     \<and> (\<forall>r\<in>set rows. row_inv Verify bid s r \<and> length (sc_tokens r) = w)
     \<and> dom (open_of s) = sc_reservation ` set rows
     \<and> (\<forall>rid a. active s rid = Some a \<longrightarrow> rid \<notin> sc_request ` set rows \<longrightarrow> phase_ok (len_of s) rid a)"

lemma verifying_done: "verifying bid w [] s \<Longrightarrow> idle_inv s"
  by (simp add: verifying_def idle_inv_def)

lemma verifying_head:
  assumes "verifying bid w (r # rows) s"
  obtains a m where "active s (sc_request r) = Some a" and "Suc (sc_start r) = length (ac_history a)"
    and "ac_generated a \<noteq> []" and "len_of s (sc_request r) = Some (sc_start r)"
    and "open_of s (sc_reservation r) = Some (sc_request r, sc_start r, m)" and "w \<le> m"
    and "length (sc_tokens r) = w" and "sc_tokens r \<noteq> []" and "request_ok (kv_cap (kv s)) a"
  using assms base_request by (fastforce simp: verifying_def row_inv_def row_shape_def)

lemma row_inv_other:
  assumes "row_inv kind bid s x" and "active t (sc_request x) = active s (sc_request x)"
    and "len_of t (sc_request x) = len_of s (sc_request x)"
    and "open_of t (sc_reservation x) = open_of s (sc_reservation x)" and "kv_cap (kv t) = kv_cap (kv s)"
  shows "row_inv kind bid t x"
  using assms by (simp add: row_inv_def)

text \<open>One row is settled, its request replaced or dropped.\<close>

lemma verifying_step:
  assumes v: "verifying bid w (r # rows) s" and base: "base_inv t"
    and t: "in_flight t = None" "active t = (active s)(sc_request r := new)" "kv_cap (kv t) = kv_cap (kv s)"
      "len_of t = (len_of s)(sc_request r := pos)" "open_of t = (open_of s)(sc_reservation r := None)"
    and new: "\<And>a. new = Some a \<Longrightarrow> phase_ok (len_of t) (sc_request r) a"
  shows "verifying bid w rows t"
proof -
  have other: "sc_request x \<noteq> sc_request r" if "x \<in> set rows" for x
  proof -
    have "sc_request r \<notin> sc_request ` set rows" using v by (simp add: verifying_def)
    then show ?thesis using imageI [OF that, of sc_request] by metis
  qed
  have res: "sc_reservation x \<noteq> sc_reservation r" if "x \<in> set rows" for x
  proof
    assume e: "sc_reservation x = sc_reservation r"
    have "row_inv Verify bid s x" "row_inv Verify bid s r" using v that by (simp_all add: verifying_def)
    then have "sc_request x = sc_request r" using e by (auto simp: row_inv_def)
    then show False using other [OF that] by simp
  qed
  have "row_inv Verify bid t x" if x: "x \<in> set rows" for x
    by (rule row_inv_other [of Verify bid s]) (use v x other [OF x] res [OF x] t in \<open>simp_all add: verifying_def\<close>)
  moreover have "dom (open_of t) = sc_reservation ` set rows"
    using v t(5) res by (auto simp: verifying_def)
  moreover have "phase_ok (len_of t) rid a" if a: "active t rid = Some a" "rid \<notin> sc_request ` set rows" for rid a
  proof (cases "rid = sc_request r")
    case True
    then show ?thesis using new a(1) t(2) by simp
  next
    case False
    then have "phase_ok (len_of s) rid a" using v a t(2) by (simp add: verifying_def)
    then show ?thesis using phase_ok_at [of "len_of t" rid "len_of s" a] t(4) False by simp
  qed
  ultimately show ?thesis using v base t(1) by (simp add: verifying_def)
qed

text \<open>What a verified row does to its request, as an abstract step.\<close>

definition verify_result :: "sched_seq \<Rightarrow> token list \<Rightarrow> 'smp active_request \<Rightarrow> token list" where
  "verify_result r preds a = the (verify_row (ac_eos a) (max_new_tokens (ac_gen a) - length (ac_generated a))
     (tl (sc_tokens r)) 0 preds)"

fun verified_rows :: "(sched_seq \<times> token list) list \<Rightarrow> (nat \<rightharpoonup> 'smp active_request) \<times> finished_generation list \<Rightarrow>
    (nat \<rightharpoonup> 'smp active_request) \<times> finished_generation list" where
  "verified_rows [] w = w"
| "verified_rows ((r, preds) # rows) (act, fin) =
     (let a = the (act (sc_request r)); out = verify_result r preds a; a' = extended out a
      in verified_rows rows
           (if ends a' then (act(sc_request r := None), fin @ [as_finished (sc_request r) a'])
            else (act(sc_request r \<mapsto> a'\<lparr>ac_phase := AwaitingDecode (last out)\<rparr>), fin)))"

lemma verify_extends: "a\<lparr>ac_history := ac_history a @ ts, ac_generated := ac_generated a @ ts\<rparr> = extended ts a"
  by (cases a) (simp add: extended_def)

lemma verify_row_ok:
  assumes v: "verifying bid w (r # rows) s" and preds: "length preds = w"
  obtains t a where "active s (sc_request r) = Some a"
    and "complete_verify_row chain w (r, preds) s = (Ok (sc_request r, verify_result r preds a), t)"
    and "verifying bid w rows t"
    and "(active t, finished t) = (let a' = extended (verify_result r preds a) a in
       if ends a' then ((active s)(sc_request r := None), finished s @ [as_finished (sc_request r) a'])
       else ((active s)(sc_request r \<mapsto> a'\<lparr>ac_phase := AwaitingDecode (last (verify_result r preds a))\<rparr>), finished s))"
    and "t = s\<lparr>active := active t, kv := kv t, finished := finished t, drafted := drafted t, accepted := accepted t\<rparr>"
proof -
  let ?rid = "sc_request r"
  obtain a m where a: "active s ?rid = Some a" "Suc (sc_start r) = length (ac_history a)" "ac_generated a \<noteq> []"
    "len_of s ?rid = Some (sc_start r)" "open_of s (sc_reservation r) = Some (?rid, sc_start r, m)" "w \<le> m"
    "length (sc_tokens r) = w" "sc_tokens r \<noteq> []" and rok: "request_ok (kv_cap (kv s)) a"
    by (rule verifying_head [OF v])
  have base: "base_inv s" using v by (simp add: verifying_def)
  let ?rem = "max_new_tokens (ac_gen a) - length (ac_generated a)"
  have lim: "length (ac_generated a) < max_new_tokens (ac_gen a)" using rok by (simp add: request_ok_def)
  have "length preds = Suc (length (tl (sc_tokens r)))" using preds a(7,8) by (cases "sc_tokens r") simp_all
  then obtain out where out: "verify_row (ac_eos a) ?rem (tl (sc_tokens r)) 0 preds = Some out" "out \<noteq> []"
    "length out \<le> length preds" "0 + length out \<le> ?rem" "set (butlast out) \<inter> ac_eos a = {}"
    using verify_row_bounds [of preds "tl (sc_tokens r)" 0 ?rem "ac_eos a"] lim by auto
  have res: "verify_result r preds a = out" by (simp add: verify_result_def out(1))
  have n: "0 < length out" "length out \<le> m" using out(2,3) preds a(6) by auto
  let ?a = "extended out a"
  obtain p k1 k2 where k: "commit_append_partial (sc_reservation r) (length out) (kv s) = (Ok p, k1)"
    "register_prefix chain ?rid (ac_history ?a) k1 = (Ok (), k2)" "kv_inv k1" "kv_inv k2"
    "kv_cap k1 = kv_cap (kv s)" "kv_cap k2 = kv_cap (kv s)"
    "kv_ledger k1 = ((len_of s)(?rid \<mapsto> sc_start r + length out), (open_of s)(sc_reservation r := None))"
    "kv_ledger k2 = kv_ledger k1"
    by (rule kvc.settle_and_register [OF base_kv [OF base] a(5) n])
  let ?s = "s\<lparr>drafted := drafted s + (w - 1), accepted := accepted s + (length out - 1),
      active := (active s)(?rid \<mapsto> ?a), kv := k2\<rparr>"
  let ?fin = "as_finished ?rid ?a"
  have run: "complete_verify_row chain w (r, preds) s =
      bind_op (if ends ?a then finish_request ?rid (last out \<in> ac_eos a)
               else (\<lambda>s. (Ok (), s\<lparr>active := (active s)(?rid \<mapsto> ?a\<lparr>ac_phase := AwaitingDecode (last out)\<rparr>)\<rparr>)))
        (\<lambda>_. ret_op (?rid, out)) ?s"
    using a(1) lim out(1,2) k(1,2)
    by (simp add: complete_verify_row_def on_kv_def Let_def verify_extends ends_def)
  show thesis
  proof (cases "ends ?a")
    case True
    have "lg_free (kv_ledger k2) ?rid"
      unfolding lg_free_def
    proof (intro allI notI)
      fix i st n' assume "snd (kv_ledger k2) i = Some (?rid, st, n')"
      then have i: "open_of s i = Some (?rid, st, n')" "i \<noteq> sc_reservation r" using k(7,8) by (auto split: if_splits)
      then show False using kvs.ledger_ok [OF base_kv [OF base]] a(5) unfolding lg_ok_def by metis
    qed
    moreover have "fst (kv_ledger k2) ?rid \<noteq> None" using k(7,8) by simp
    ultimately obtain k3 where k3: "remove_sequence ?rid k2 = (Ok (), k3)" "kv_inv k3"
      "kv_ledger k3 = lg_remove ?rid (kv_ledger k2)" "kv_cap k3 = kv_cap k2"
      using kvs.drop_law [OF k(4)] by blast
    let ?t = "s\<lparr>drafted := drafted s + (w - 1), accepted := accepted s + (length out - 1),
      active := (active s)(?rid := None), kv := k3, finished := finished s @ [?fin]\<rparr>"
    have "complete_verify_row chain w (r, preds) s = (Ok (?rid, out), ?t)"
      using True run k3(1) out(2) by (simp add: finish_request_def on_kv_def as_finished_def)
    moreover have "base_inv ?t"
      by (rule base_inv_dropped [OF base k3(2)]) (simp_all add: k3(3,4) k(6-8) lg_remove_def)
    then have "verifying bid w rows ?t"
      by (rule verifying_step [OF v, where new = None and pos = None])
        (use v in \<open>simp_all add: verifying_def k3(3,4) k(6-8) lg_remove_def\<close>)
    ultimately show thesis using that [of a ?t] a(1) True by (simp add: res Let_def)
  next
    case False
    let ?b = "?a\<lparr>ac_phase := AwaitingDecode (last out)\<rparr>"
    let ?t = "s\<lparr>drafted := drafted s + (w - 1), accepted := accepted s + (length out - 1),
      active := (active s)(?rid \<mapsto> ?b), kv := k2\<rparr>"
    have "last out \<notin> ac_eos a" "length (ac_generated a) + length out < max_new_tokens (ac_gen a)"
      using False out(2) by (simp_all add: ends_def)
    then have ok: "request_ok (kv_cap (kv s)) ?a"
      using out(2,5) append_butlast_last_id [OF out(2)]
      by (intro request_ok_extended [OF rok]) (metis Int_insert_left_if0 Un_insert_right set_append list.set(1,2) sup_bot.right_neutral)+
    have "complete_verify_row chain w (r, preds) s = (Ok (?rid, out), ?t)"
      using False run by simp
    moreover have "base_inv (s\<lparr>active := (active s)(?rid \<mapsto> ?b)\<rparr>)"
      by (rule base_inv_active [OF base a(1)]) (use ok in simp)
    then have "base_inv ?t" using k(4,6-8) a(4) unfolding base_inv_def by (auto simp: insert_absorb domI)
    then have "verifying bid w rows ?t"
      by (rule verifying_step [OF v, where new = "Some ?b" and pos = "Some (sc_start r + length out)"])
        (use v a(2) out(2) in \<open>simp_all add: verifying_def k(6-8) phase_ok_def\<close>)
    ultimately show thesis using that [of a ?t] a(1) False by (simp add: res Let_def)
  qed
qed

lemma verify_rows_ok:
  assumes "verifying bid w (map fst rps) s" and "\<forall>rp\<in>set rps. length (snd rp) = w"
  shows "\<exists>t. map_op (complete_verify_row chain w) rps s
        = (Ok (map (\<lambda>(r, ps). (sc_request r, verify_result r ps (the (active s (sc_request r))))) rps), t)
     \<and> idle_inv t \<and> (active t, finished t) = verified_rows rps (active s, finished s)
     \<and> t = s\<lparr>active := active t, kv := kv t, finished := finished t, drafted := drafted t, accepted := accepted t\<rparr>"
  using assms
proof (induction rps arbitrary: s)
  case Nil
  then show ?case using verifying_done by fastforce
next
  case (Cons rp rps)
  obtain r preds where rp: "rp = (r, preds)" by (cases rp)
  have v: "verifying bid w (r # map fst rps) s" and len: "length preds = w" using Cons.prems rp by simp_all
  obtain t a where a: "active s (sc_request r) = Some a"
    and run: "complete_verify_row chain w (r, preds) s = (Ok (sc_request r, verify_result r preds a), t)"
    and v': "verifying bid w (map fst rps) t"
    and af: "(active t, finished t) = (let a' = extended (verify_result r preds a) a in
       if ends a' then ((active s)(sc_request r := None), finished s @ [as_finished (sc_request r) a'])
       else ((active s)(sc_request r \<mapsto> a'\<lparr>ac_phase := AwaitingDecode (last (verify_result r preds a))\<rparr>), finished s))"
    and t: "t = s\<lparr>active := active t, kv := kv t, finished := finished t, drafted := drafted t, accepted := accepted t\<rparr>"
    by (rule verify_row_ok [OF v len])
  have "\<forall>rp\<in>set rps. length (snd rp) = w" using Cons.prems(2) by simp
  from Cons.IH [OF v' this] obtain u where u:
    "map_op (complete_verify_row chain w) rps t
        = (Ok (map (\<lambda>(r, ps). (sc_request r, verify_result r ps (the (active t (sc_request r))))) rps), u)"
    "idle_inv u" "(active u, finished u) = verified_rows rps (active t, finished t)"
    "u = t\<lparr>active := active u, kv := kv u, finished := finished u, drafted := drafted u, accepted := accepted u\<rparr>"
    by blast
  have "sc_request r \<notin> sc_request ` fst ` set rps" using v by (simp add: verifying_def image_image)
  moreover have "active t rid = active s rid" if "rid \<noteq> sc_request r" for rid
    using af that by (simp add: Let_def split: if_splits)
  ultimately have same: "map (\<lambda>(r, ps). (sc_request r, verify_result r ps (the (active t (sc_request r))))) rps
      = map (\<lambda>(r, ps). (sc_request r, verify_result r ps (the (active s (sc_request r))))) rps"
    by (intro map_cong) (auto simp: image_iff)
  have "map_op (complete_verify_row chain w) (rp # rps) s
        = (Ok (map (\<lambda>(r, ps). (sc_request r, verify_result r ps (the (active s (sc_request r))))) (rp # rps)), u)"
    using run u(1) a same by (simp add: rp)
  moreover have "(active u, finished u) = verified_rows (rp # rps) (active s, finished s)"
    using u(3) af a by (simp add: rp Let_def split: if_splits)
  moreover have "u = s\<lparr>active := active u, kv := kv u, finished := finished u, drafted := drafted u, accepted := accepted u\<rparr>"
    by (subst u(4), subst t) simp
  ultimately show ?case using u(2) by blast
qed

lemma chunks_length [simp]: "length (chunks w n xs) = n"
  by (induction n arbitrary: xs) simp_all

lemma chunks_widths: "length xs = n * w \<Longrightarrow> ps \<in> set (chunks w n xs) \<Longrightarrow> length ps = w"
proof (induction n arbitrary: xs)
  case (Suc n)
  then show ?case using Suc.IH [of "drop w xs"] by auto
qed simp

lemma concat_chunks: "length xs = n * w \<Longrightarrow> concat (chunks w n xs) = xs"
  by (induction n arbitrary: xs) auto

definition verified :: "nat \<Rightarrow> token list \<Rightarrow> 'smp scheduler \<Rightarrow> (nat \<times> token list) list \<Rightarrow> 'smp scheduler \<Rightarrow> bool" where
  "verified bid argmax s outs t \<longleftrightarrow> idle_inv t \<and> (\<exists>b rps. in_flight s = Some b \<and> sb_id b = bid \<and> sb_kind b = Verify
      \<and> length argmax = batch_size b * next_n b \<and> rps = zip (sb_rows b) (chunks (next_n b) (batch_size b) argmax)
      \<and> outs = map (\<lambda>(r, ps). (sc_request r, verify_result r ps (the (active s (sc_request r))))) rps
      \<and> (active t, finished t) = verified_rows rps (active s, finished s))
     \<and> t = s\<lparr>in_flight := None, active := active t, kv := kv t, finished := finished t,
           drafted := drafted t, accepted := accepted t\<rparr>"

definition verifies :: "nat \<Rightarrow> token list \<Rightarrow> 'smp scheduler \<Rightarrow> bool" where
  "verifies bid argmax s \<longleftrightarrow> (case in_flight s of None \<Rightarrow> False
     | Some b \<Rightarrow> sb_id b = bid \<and> sb_kind b = Verify \<and> length argmax = batch_size b * next_n b)"

lemma complete_verify_exact:
  assumes inv: "sched_inv s"
  shows "if verifies bid argmax s
     then \<exists>outs t. complete_verify_batch chain bid argmax s = (Ok outs, t) \<and> verified bid argmax s outs t
     else \<exists>e. complete_verify_batch chain bid argmax s = (Err e, s)"
proof (cases "in_flight s")
  case None
  then show ?thesis by (simp add: complete_verify_batch_def take_batch_def verifies_def)
next
  case (Some b)
  have f: "flight_inv s b" using inv Some by (simp add: sched_inv_def)
  show ?thesis
  proof (cases "sb_id b = bid")
    case False
    then show ?thesis using Some by (simp add: complete_verify_batch_def take_batch_def verifies_def)
  next
    case bid: True
    show ?thesis
    proof (cases "sb_kind b \<noteq> Verify \<or> length argmax \<noteq> batch_size b * next_n b")
      case True
      then have "\<exists>e. complete_verify_batch chain bid argmax s = (Err e, s)"
        using Some bid restore_same [OF Some] by (simp add: complete_verify_batch_def take_batch_def Let_def)
      moreover have "\<not> verifies bid argmax s" using True Some by (auto simp: verifies_def)
      ultimately show ?thesis by simp
    next
      case False
      let ?w = "next_n b" and ?s = "s\<lparr>in_flight := None\<rparr>"
      let ?rps = "zip (sb_rows b) (chunks ?w (batch_size b) argmax)"
      have fst: "map fst ?rps = sb_rows b" by (simp add: batch_size_def)
      have w: "\<forall>rp\<in>set ?rps. length (snd rp) = ?w"
        using False chunks_widths [of argmax "batch_size b" ?w] by (auto dest: set_zip_rightD)
      have "row_inv Verify bid ?s r" if r: "r \<in> set (sb_rows b)" for r
      proof (rule row_inv_other)
        show "row_inv Verify bid s r" using f r False bid by (auto simp: flight_inv_def)
      qed simp_all
      then have "verifying bid ?w (map fst ?rps) ?s"
        unfolding fst using f by (simp add: verifying_def flight_inv_def)
      from verify_rows_ok [OF this w] obtain t where
        t: "map_op (complete_verify_row chain ?w) ?rps ?s
          = (Ok (map (\<lambda>(r, ps). (sc_request r, verify_result r ps (the (active s (sc_request r))))) ?rps), t)"
        "idle_inv t" "(active t, finished t) = verified_rows ?rps (active s, finished s)"
        "t = s\<lparr>in_flight := None, active := active t, kv := kv t, finished := finished t, drafted := drafted t,
            accepted := accepted t\<rparr>" by auto
      have "complete_verify_batch chain bid argmax s
          = (Ok (map (\<lambda>(r, ps). (sc_request r, verify_result r ps (the (active s (sc_request r))))) ?rps), t)"
        using Some bid False t(1) by (simp add: complete_verify_batch_def take_batch_def Let_def)
      then have "\<exists>outs t. complete_verify_batch chain bid argmax s = (Ok outs, t) \<and> verified bid argmax s outs t"
        using t(2-4) Some bid False unfolding verified_def by blast
      moreover have "verifies bid argmax s" using Some bid False by (simp add: verifies_def)
      ultimately show ?thesis by simp
    qed
  qed
qed

lemma complete_verify_cases:
  assumes "sched_inv s"
  shows "(\<exists>e. complete_verify_batch chain bid argmax s = (Err e, s)) \<or>
     (\<exists>outs t. complete_verify_batch chain bid argmax s = (Ok outs, t) \<and> verified bid argmax s outs t)"
  using complete_verify_exact [OF assms, of bid argmax chain] by (auto split: if_splits)

end
