(* ===== verification/BatchMachine.thy ===== *)
theory BatchMachine
  imports BatchVerify
begin

text \<open>
  The scheduler as a machine: one command per public method, the guards under which its
  driver may issue them, and the proof that every command keeps \<open>sched_inv\<close> and does not
  panic.
\<close>

definition queued :: "'smp pending_request list \<Rightarrow> nat \<rightharpoonup> generation_config \<times> token list \<times> token list" where
  "queued xs = map_of (map (\<lambda>r. (pr_id r, pr_gen r, pr_prompt r, [])) xs)"

lemma contents_at: "contents s x = (case active s x of
     Some a \<Rightarrow> Some (ac_gen a, ac_prompt a, ac_generated a) | None \<Rightarrow> queued (pending s) x)"
  by (simp add: contents_def queued_def map_add_def split: option.splits)

lemma not_queued: "x \<notin> pr_id ` set xs \<Longrightarrow> queued xs x = None"
  by (auto simp: queued_def map_of_eq_None_iff)

lemma queued_snoc:
  "pr_id y \<notin> pr_id ` set xs \<Longrightarrow> queued (xs @ [y]) = (queued xs)(pr_id y \<mapsto> (pr_gen y, pr_prompt y, []))"
  using not_queued [of "pr_id y" xs] by (auto simp: queued_def map_add_def fun_eq_iff split: option.splits)

section \<open>Queueing, limits and cancellation\<close>

lemma sched_inv_frame:
  assumes inv: "sched_inv s" and base: "base_inv s \<Longrightarrow> base_inv t"
    and t: "kv t = kv s" "active t = active s" "in_flight t = in_flight s" "cfg t = cfg s"
  shows "sched_inv t"
proof -
  have r: "row_inv kind bid t r = row_inv kind bid s r" for kind bid r
    by (simp add: row_inv_def t)
  show ?thesis
  proof (cases "in_flight s")
    case None
    then show ?thesis using inv base t by (simp add: sched_inv_def idle_inv_def)
  next
    case (Some b)
    then show ?thesis using inv base t r by (simp add: sched_inv_def flight_inv_def)
  qed
qed

lemma sched_base: "sched_inv s \<Longrightarrow> base_inv s"
  by (auto simp: sched_inv_def idle_inv_def flight_inv_def split: option.splits)

lemma submit_inv:
  assumes "sched_inv s"
  shows "wp (submit_with_sampler prompt g smp) (\<lambda>rid t. sched_inv t \<and> rid = next_request s
      \<and> (if max_new_tokens g = 0
         then contents t = contents s \<and> finished t = finished s @ [\<lparr>fg_request = rid, fg_prompt = prompt,
                fg_generated = [], fg_eos = False\<rparr>]
         else contents t = (contents s)(rid \<mapsto> (g, prompt, [])) \<and> finished t = finished s)) (\<lambda>e t. t = s) s"
proof (rule wpI)
  show "fst (submit_with_sampler prompt g smp s) \<noteq> Panic"
    by (simp add: submit_with_sampler_def Let_def split: option.splits)
next
  fix e t assume "submit_with_sampler prompt g smp s = (Err e, t)"
  then show "t = s" by (auto simp: submit_with_sampler_def Let_def split: option.splits if_splits)
next
  fix rid t assume run: "submit_with_sampler prompt g smp s = (Ok rid, t)"
  note base = sched_base [OF assms]
  have ok: "prompt \<noteq> []" "length prompt + max_new_tokens g \<le> kv_cap (kv s)" "rid = next_request s"
    using run by (auto simp: submit_with_sampler_def Let_def kv_cap_def split: option.splits if_splits)
  let ?fin = "s\<lparr>next_request := Suc rid, finished := finished s @ [\<lparr>fg_request = rid, fg_prompt = prompt,
         fg_generated = [], fg_eos = False\<rparr>]\<rparr>"
  let ?pend = "s\<lparr>next_request := Suc rid, pending := pending s @ [\<lparr>pr_id = rid, pr_prompt = prompt,
         pr_gen = g, pr_sampler = smp\<rparr>]\<rparr>"
  have t: "t = (if max_new_tokens g = 0 then ?fin else ?pend)"
    using run by (auto simp: submit_with_sampler_def Let_def split: option.splits if_splits)
  have old: "active s rid = None" using base ok(3) by (cases "active s rid") (auto simp: base_inv_def)
  have new: "rid \<notin> pr_id ` set (pending s)" using base ok(3) by (auto simp: base_inv_def pending_ok_def)
  have grow: "pending_ok cap (next_request s) r \<Longrightarrow> pending_ok cap (Suc rid) r" for cap and r :: "'a pending_request"
    using ok(3) by (simp add: pending_ok_def)
  show "sched_inv t \<and> rid = next_request s
      \<and> (if max_new_tokens g = 0
         then contents t = contents s \<and> finished t = finished s @ [\<lparr>fg_request = rid, fg_prompt = prompt,
                fg_generated = [], fg_eos = False\<rparr>]
         else contents t = (contents s)(rid \<mapsto> (g, prompt, [])) \<and> finished t = finished s)"
  proof (cases "max_new_tokens g = 0")
    case True
    have "base_inv ?fin" using base grow ok(3) unfolding base_inv_def by (simp add: less_Suc_eq)
    then have "sched_inv ?fin" by (intro sched_inv_frame [OF assms]) simp_all
    then show ?thesis using True t ok(3) by (simp add: contents_def)
  next
    case False
    have "pending_ok (kv_cap (kv s)) (Suc rid) \<lparr>pr_id = rid, pr_prompt = prompt, pr_gen = g, pr_sampler = smp\<rparr>"
      using ok False by (simp add: pending_ok_def)
    then have "base_inv ?pend" using base grow ok(3) old new unfolding base_inv_def by (simp add: less_Suc_eq)
    then have "sched_inv ?pend" by (intro sched_inv_frame [OF assms]) simp_all
    moreover have "contents ?pend = (contents s)(rid \<mapsto> (g, prompt, []))"
    proof
      fix x
      show "contents ?pend x = ((contents s)(rid \<mapsto> (g, prompt, []))) x"
        using old new by (cases "x = rid") (simp_all add: contents_at queued_snoc split: option.split)
    qed
    ultimately show ?thesis using False t ok(3) by simp
  qed
qed

text \<open>Dropping a request that no batch owns.\<close>

lemma flight_inv_dropped:
  assumes f: "flight_inv s b" and k: "kv_inv k" "kv_cap k = kv_cap (kv s)" "kv_ledger k = lg_remove rid (kv_ledger (kv s))"
    and a: "active s rid = Some a" "\<forall>bid. ac_phase a \<noteq> InFlight bid"
    and t: "kv t = k" "active t = (active s)(rid := None)" "pending t = pending s" "cfg t = cfg s"
      "next_request t = next_request s" "next_batch t = next_batch s"
  shows "flight_inv t b"
proof -
  have base: "base_inv t"
    by (rule base_inv_dropped [of s k rid]) (use f k t in \<open>simp_all add: flight_inv_def lg_remove_def\<close>)
  have other: "sc_request r \<noteq> rid" if r: "r \<in> set (sb_rows b)" for r
  proof -
    obtain x where "active s (sc_request r) = Some x" "ac_phase x = InFlight (sb_id b)" by (rule flight_row [OF f r])
    then show ?thesis using a by auto
  qed
  have "row_inv (sb_kind b) (sb_id b) t r" if r: "r \<in> set (sb_rows b)" for r
    by (rule row_inv_other [of "sb_kind b" "sb_id b" s])
      (use f r other [OF r] k(2,3) t in \<open>simp_all add: flight_inv_def lg_remove_def\<close>)
  moreover have "phase_ok (len_of t) x y" if "active t x = Some y" "x \<notin> sc_request ` set (sb_rows b)" for x y
  proof -
    have x: "x \<noteq> rid" "active s x = Some y" using that(1) t(2) by (auto split: if_splits)
    then have "phase_ok (len_of s) x y" using f that(2) by (simp add: flight_inv_def)
    then show ?thesis using phase_ok_at [of "len_of t" x "len_of s" y] x(1) k(3) t(1) by (simp add: lg_remove_def)
  qed
  ultimately show ?thesis using f base t(1,4) k(3) by (simp add: flight_inv_def lg_remove_def)
qed

definition cancelled :: "nat \<Rightarrow> 'smp scheduler \<Rightarrow> cancelled_generation option \<Rightarrow> 'smp scheduler \<Rightarrow> bool" where
  "cancelled rid s c t \<longleftrightarrow> sched_inv t \<and> finished t = finished s \<and> in_flight t = in_flight s
     \<and> contents t = (contents s)(rid := None)
     \<and> c = map_option (\<lambda>(g, p, ts). \<lparr>cg_request = rid, cg_prompt = p, cg_generated = ts\<rparr>) (contents s rid)"

lemma map_of_removed:
  assumes "dropWhile P xs = y # ys" and "distinct (map f xs)"
  shows "map_of (map (\<lambda>x. (f x, g x)) (takeWhile P xs @ ys)) = (map_of (map (\<lambda>x. (f x, g x)) xs))(f y := None)"
    and "map_of (map (\<lambda>x. (f x, g x)) xs) (f y) = Some (g y)"
proof -
  note sp = drop_while_split(2,3) [OF assms(1)]
  have xs: "takeWhile P xs @ y # ys = xs" using takeWhile_dropWhile_id [of P xs] assms(1) by simp
  have new: "f y \<notin> f ` set (takeWhile P xs @ ys)" using sp(1) [of f] assms(2) by simp
  have "distinct (map f (takeWhile P xs @ ys @ [y]))" using sp(1) [of f] assms(2) by auto
  note mv = map_of_move [OF this, of g, unfolded xs]
  have none: "map_of (map (\<lambda>x. (f x, g x)) (takeWhile P xs @ ys)) (f y) = None"
    using new by (auto simp: map_of_eq_None_iff)
  show "map_of (map (\<lambda>x. (f x, g x)) (takeWhile P xs @ ys)) = (map_of (map (\<lambda>x. (f x, g x)) xs))(f y := None)"
    using none unfolding mv [symmetric] by (simp add: fun_upd_idem)
  show "map_of (map (\<lambda>x. (f x, g x)) xs) (f y) = Some (g y)" unfolding mv [symmetric] by simp
qed

lemma cancel_pending_ok:
  assumes inv: "sched_inv s" and dw: "dropWhile (\<lambda>r. pr_id r \<noteq> rid) (pending s) = r # rest"
  shows "wp (cancel rid) (cancelled rid s) (\<lambda>e t. t = s) s"
proof -
  note base = sched_base [OF inv]
  let ?xs = "takeWhile (\<lambda>r. pr_id r \<noteq> rid) (pending s) @ rest"
  let ?t = "s\<lparr>pending := ?xs, deferred := deferred s - {rid}\<rparr>"
  have rid: "pr_id r = rid" using hd_dropWhile [of "\<lambda>r. pr_id r \<noteq> rid" "pending s"] dw by simp
  have d: "distinct (map pr_id (pending s))" using base by (simp add: base_inv_def)
  have none: "active s rid = None" using base drop_while_split(3) [OF dw] rid by (auto simp: base_inv_def)
  note m = map_of_removed [OF dw d, where g = "\<lambda>r. (pr_gen r, pr_prompt r, [] :: token list)", folded queued_def, unfolded rid]
  have "base_inv ?t"
    using base drop_while_split(1) [OF dw] drop_while_split(2) [OF dw, of pr_id] d unfolding base_inv_def by auto
  then have "sched_inv ?t" by (intro sched_inv_frame [OF inv]) simp_all
  moreover have "contents ?t = (contents s)(rid := None)"
  proof
    fix x
    show "contents ?t x = ((contents s)(rid := None)) x"
      using none by (cases "x = rid") (simp_all add: contents_at m(1) split: option.split)
  qed
  moreover have "contents s rid = Some (pr_gen r, pr_prompt r, [])"
    using m(2) none by (simp add: contents_at)
  ultimately have "cancelled rid s (Some \<lparr>cg_request = rid, cg_prompt = pr_prompt r, cg_generated = []\<rparr>) ?t"
    by (simp add: cancelled_def)
  then show ?thesis using dw by (simp add: wp_def cancel_def)
qed

lemma cancel_active_ok:
  assumes inv: "sched_inv s" and dw: "dropWhile (\<lambda>r. pr_id r \<noteq> rid) (pending s) = []"
    and a: "active s rid = Some a" "\<forall>b. ac_phase a \<noteq> InFlight b"
  shows "wp (cancel rid) (cancelled rid s) (\<lambda>e t. t = s) s"
proof -
  note base = sched_base [OF inv]
  have free: "lg_free (kv_ledger (kv s)) rid"
  proof (cases "in_flight s")
    case None
    then show ?thesis using inv by (simp add: sched_inv_def idle_inv_def lg_free_def)
  next
    case (Some b)
    then have f: "flight_inv s b" using inv by (simp add: sched_inv_def)
    show ?thesis
      unfolding lg_free_def
    proof (intro allI notI)
      fix i st n assume op: "open_of s i = Some (rid, st, n)"
      then have "i \<in> sc_reservation ` set (sb_rows b)" using f by (auto simp: flight_inv_def)
      then obtain r where r: "r \<in> set (sb_rows b)" "i = sc_reservation r" by auto
      obtain x m where "active s (sc_request r) = Some x" "ac_phase x = InFlight (sb_id b)"
        "open_of s (sc_reservation r) = Some (sc_request r, sc_start r, m)" by (rule flight_row [OF f r(1)])
      then show False using op r(2) a by auto
    qed
  qed
  obtain c where "len_of s rid = Some c" using base_len [OF base a(1)] by blast
  then obtain k where k: "remove_sequence rid (kv s) = (Ok (), k)" "kv_inv k"
    "kv_ledger k = lg_remove rid (kv_ledger (kv s))" "kv_cap k = kv_cap (kv s)"
    using kvs.drop_law [OF base_kv [OF base] _ free] by auto
  let ?t = "s\<lparr>kv := k, active := (active s)(rid := None), deferred := deferred s - {rid}\<rparr>"
  have not: "pr_id r \<noteq> rid" if "r \<in> set (pending s)" for r using dw that by (simp add: dropWhile_eq_Nil_conv)
  have "sched_inv ?t"
  proof (cases "in_flight s")
    case None
    then have i: "idle_inv s" using inv by (simp add: sched_inv_def)
    have "base_inv ?t" by (rule base_inv_dropped [OF base k(2,4)]) (simp_all add: k(3) lg_remove_def)
    moreover have "phase_ok (len_of ?t) x y" if x: "active ?t x = Some y" for x y
    proof -
      have "x \<noteq> rid" "active s x = Some y" using x by (auto split: if_splits)
      then have "phase_ok (len_of s) x y" using i by (simp add: idle_inv_def)
      then show ?thesis using phase_ok_at [of "len_of ?t" x "len_of s" y] \<open>x \<noteq> rid\<close> k(3) by (simp add: lg_remove_def)
    qed
    ultimately show ?thesis using i k(3) by (simp add: sched_inv_def idle_inv_def lg_remove_def)
  next
    case (Some b)
    then have f: "flight_inv s b" using inv by (simp add: sched_inv_def)
    have "flight_inv ?t b" by (rule flight_inv_dropped [OF f k(2,4,3) a]) simp_all
    then show ?thesis using Some by (simp add: sched_inv_def)
  qed
  moreover have "contents ?t = (contents s)(rid := None)"
  proof
    fix x
    have "rid \<notin> pr_id ` set (pending s)" using not by auto
    from not_queued [OF this] show "contents ?t x = ((contents s)(rid := None)) x"
      by (cases "x = rid") (simp_all add: contents_at split: option.split)
  qed
  moreover have "contents s rid = Some (ac_gen a, ac_prompt a, ac_generated a)" by (rule contents_active [OF a(1)])
  ultimately have "cancelled rid s (Some \<lparr>cg_request = rid, cg_prompt = ac_prompt a, cg_generated = ac_generated a\<rparr>) ?t"
    by (simp add: cancelled_def)
  moreover have "cancel rid s = (Ok (Some \<lparr>cg_request = rid, cg_prompt = ac_prompt a, cg_generated = ac_generated a\<rparr>), ?t)"
    unfolding cancel_def dw using a k(1) by (cases "ac_phase a") (simp_all add: on_kv_def)
  ultimately show ?thesis by (simp add: wp_def)
qed

lemma cancel_ok:
  assumes inv: "sched_inv s"
  shows "wp (cancel rid) (cancelled rid s) (\<lambda>e t. t = s) s"
proof (cases "dropWhile (\<lambda>r. pr_id r \<noteq> rid) (pending s)")
  case (Cons r rest)
  then show ?thesis by (rule cancel_pending_ok [OF inv])
next
  case Nil
  show ?thesis
  proof (cases "active s rid")
    case None
    have "rid \<notin> pr_id ` set (pending s)" using Nil by (auto simp: dropWhile_eq_Nil_conv)
    from not_queued [OF this] have "contents s rid = None" using None by (simp add: contents_at)
    moreover have "cancel rid s = (Ok None, s)" unfolding cancel_def Nil using None by simp
    ultimately show ?thesis using inv by (simp add: wp_def cancelled_def fun_upd_idem)
  next
    case (Some a)
    show ?thesis
    proof (cases "\<exists>b. ac_phase a = InFlight b")
      case True
      then have "\<exists>e. cancel rid s = (Err e, s)" unfolding cancel_def Nil using Some by auto
      then show ?thesis by (auto simp: wp_def)
    next
      case False
      then show ?thesis by (intro cancel_active_ok [OF inv Nil Some]) simp
    qed
  qed
qed

section \<open>Look-ahead reservations\<close>

inductive_cases lg_ExtendE: "lg_trans (KExtend i n) l l'"

lemma extend_cases:
  assumes "kv_inv k"
  shows "(\<exists>e. extend_append i n k = (Err e, k)) \<or>
     (\<exists>a k' r st m. extend_append i n k = (Ok a, k') \<and> kv_inv k' \<and> snd (kv_ledger k) i = Some (r, st, m)
        \<and> kv_ledger k' = (fst (kv_ledger k), (snd (kv_ledger k))(i \<mapsto> (r, st, m + n))) \<and> kv_cap k' = kv_cap k)"
proof (cases "extend_append i n k")
  case (Pair res k')
  have v: "kv_verdict chain (KExtend i n) k" for chain by (rule kv_verdict_ok [OF assms])
  show ?thesis
  proof (cases res)
    case (Ok a)
    then have "kv_inv k'" "lg_trans (KExtend i n) (kv_ledger k) (kv_ledger k')" "kv_conf k' = kv_conf k"
      using v Pair by (auto simp: kv_verdict_def ignore_def)
    then show ?thesis using Ok Pair by (auto simp: kv_cap_def elim!: lg_ExtendE)
  next
    case (Err e)
    then show ?thesis using v Pair by (auto simp: kv_verdict_def ignore_def)
  next
    case Panic
    then show ?thesis using v Pair by (auto simp: kv_verdict_def ignore_def)
  qed
qed

lemma flight_extended:
  assumes f: "flight_inv s b" and k: "kv_inv k" "kv_cap k = kv_cap (kv s)"
    and op: "open_of s i = Some (r, st, m)" "kv_ledger k = (len_of s, (open_of s)(i \<mapsto> (r, st, m + n)))"
  shows "flight_inv (s\<lparr>kv := k\<rparr>) b"
proof -
  let ?t = "s\<lparr>kv := k\<rparr>"
  have "base_inv ?t" by (rule base_inv_kv [OF _ k(1) _ k(2)]) (use f op(2) in \<open>simp_all add: flight_inv_def\<close>)
  moreover have "row_inv (sb_kind b) (sb_id b) ?t x" if x: "x \<in> set (sb_rows b)" for x
  proof -
    have "row_inv (sb_kind b) (sb_id b) s x" using f x by (simp add: flight_inv_def)
    then show ?thesis using op k(2) by (cases "sc_reservation x = i") (fastforce simp: row_inv_def)+
  qed
  moreover have "dom (open_of ?t) = dom (open_of s)" using op by auto
  ultimately show ?thesis using f op(2) by (simp add: flight_inv_def)
qed

lemma lookahead_row_ok:
  assumes f: "flight_inv s b" and r: "r \<in> set (sb_rows b)"
  shows "wp (lookahead_row wanted budget r) (\<lambda>_ t. flight_inv t b \<and> t = s\<lparr>kv := kv t\<rparr>) (\<lambda>e t. t = s) s"
proof -
  have base: "base_inv s" and row: "sc_context r \<le> kv_cap (kv s)" using f r by (auto simp: flight_inv_def row_inv_def)
  obtain a where a: "active s (sc_request r) = Some a" by (rule flight_row [OF f r])
  let ?kc = "kv_conf (kv s)"
  let ?extra = "min (min (min wanted budget) (max_new_tokens (ac_gen a) - length (ac_generated a) - 1))
     (max_sequence_length ?kc - sc_context r)"
  let ?go = "?extra > 0 \<and> div_ceil (sc_context r + ?extra) (block_size ?kc) - length (sc_table r) \<le> free_page_count (kv s)"
  have run: "lookahead_row wanted budget r s =
     (if ?go then bind_op (on_kv (extend_append (sc_reservation r) ?extra)) (\<lambda>res. ret_op (Some (?extra, res))) s
      else (Ok None, s))"
    using row by (simp add: lookahead_row_def get_active_Ok [of s "sc_request r", OF a] kv_cap_def Let_def)
  show ?thesis
  proof (cases ?go)
    case False
    have "lookahead_row wanted budget r s = (Ok None, s)" unfolding run by (rule if_not_P [OF False])
    then show ?thesis using f by (simp add: wp_def)
  next
    case True
    have go: "lookahead_row wanted budget r s
        = bind_op (on_kv (extend_append (sc_reservation r) ?extra)) (\<lambda>res. ret_op (Some (?extra, res))) s"
      unfolding run by (rule if_P [OF True])
    from extend_cases [OF base_kv [OF base], of "sc_reservation r" ?extra] show ?thesis
    proof (elim disjE exE conjE)
      fix e assume "extend_append (sc_reservation r) ?extra (kv s) = (Err e, kv s)"
      then show ?thesis unfolding wp_def go by (simp add: on_kv_def)
    next
      fix x k q st m assume k: "extend_append (sc_reservation r) ?extra (kv s) = (Ok x, k)" "kv_inv k"
        "open_of s (sc_reservation r) = Some (q, st, m)"
        "kv_ledger k = (len_of s, (open_of s)(sc_reservation r \<mapsto> (q, st, m + ?extra)))" "kv_cap k = kv_cap (kv s)"
      have "flight_inv (s\<lparr>kv := k\<rparr>) b" by (rule flight_extended [OF f k(2,5,3,4)])
      then show ?thesis using k(1) unfolding wp_def go by (simp add: on_kv_def)
    qed
  qed
qed

lemma lookahead_rows_ok:
  assumes "flight_inv s b" and "set rows \<subseteq> set (sb_rows b)"
  shows "wp (lookahead_rows wanted budget rows) (\<lambda>_ t. flight_inv t b \<and> t = s\<lparr>kv := kv t\<rparr>)
    (\<lambda>e t. flight_inv t b \<and> t = s\<lparr>kv := kv t\<rparr>) s"
  using assms
proof (induction rows arbitrary: budget s)
  case Nil
  then show ?case by (simp add: wp_def)
next
  case (Cons r rows)
  let ?post = "\<lambda>_ t. flight_inv t b \<and> t = s\<lparr>kv := kv t\<rparr>"
  let ?f = "\<lambda>got. case got of
         None \<Rightarrow> lookahead_rows wanted budget rows
       | Some (extra, res) \<Rightarrow>
           bind_op (lookahead_rows wanted (budget - extra) rows) (\<lambda>rest. ret_op ((sc_request r, res) # rest))"
  have r: "r \<in> set (sb_rows b)" using Cons.prems(2) by simp
  have "wp (bind_op (lookahead_row wanted budget r) ?f) ?post ?post s"
  proof (rule wp_bind, rule wp_conseq [OF lookahead_row_ok [OF Cons.prems(1) r]])
    fix got t assume t: "flight_inv t b \<and> t = s\<lparr>kv := kv t\<rparr>"
    have rest: "wp (lookahead_rows wanted n rows) ?post ?post t" for n
    proof (rule wp_conseq)
      show "wp (lookahead_rows wanted n rows) (\<lambda>_ u. flight_inv u b \<and> u = t\<lparr>kv := kv u\<rparr>)
          (\<lambda>e u. flight_inv u b \<and> u = t\<lparr>kv := kv u\<rparr>) t"
        using t Cons.prems(2) by (intro Cons.IH) simp_all
      show "flight_inv u b \<and> u = s\<lparr>kv := kv u\<rparr>" if u: "flight_inv u b \<and> u = t\<lparr>kv := kv u\<rparr>" for u
      proof -
        have "u = t\<lparr>kv := kv u\<rparr>" "t = s\<lparr>kv := kv t\<rparr>" using u t by blast+
        then have "u = s\<lparr>kv := kv t\<rparr>\<lparr>kv := kv u\<rparr>" by metis
        then show ?thesis using u by simp
      qed
      then show "flight_inv u b \<and> u = s\<lparr>kv := kv u\<rparr>" if "flight_inv u b \<and> u = t\<lparr>kv := kv u\<rparr>" for u
        using that .
    qed
    show "wp (?f got) ?post ?post t"
    proof (cases got)
      case None
      then show ?thesis using rest by simp
    next
      case (Some x)
      obtain extra res where x: "x = (extra, res)" by (cases x)
      have "wp (bind_op (lookahead_rows wanted (budget - extra) rows) (\<lambda>rest. ret_op ((sc_request r, res) # rest)))
          ?post ?post t"
        by (rule wp_bind, rule wp_conseq [OF rest]) simp_all
      then show ?thesis using Some x by simp
    qed
  next
    fix e t assume "t = s"
    then show "flight_inv t b \<and> t = s\<lparr>kv := kv t\<rparr>" using Cons.prems(1) by simp
  qed
  then show ?case by (rule wp_eq [rotated]) simp
qed

lemma reserve_lookahead_ok:
  assumes "sched_inv s" and b: "in_flight s = Some b"
  shows "wp (reserve_lookahead b wanted) (\<lambda>_ t. sched_inv t \<and> t = s\<lparr>kv := kv t\<rparr>)
    (\<lambda>e t. sched_inv t \<and> t = s\<lparr>kv := kv t\<rparr>) s"
proof -
  have f: "flight_inv s b" using assms by (simp add: sched_inv_def)
  have keep: "sched_inv t" if "flight_inv t b \<and> t = s\<lparr>kv := kv t\<rparr>" for t
  proof -
    have "flight_inv t b" "in_flight t = in_flight (s\<lparr>kv := kv t\<rparr>)" using that by metis+
    then show ?thesis using b by (simp add: sched_inv_def)
  qed
  show ?thesis
  proof (cases "wanted = 0 \<or> sb_kind b \<noteq> Decode")
    case True
    then show ?thesis using assms(1) by (auto simp: reserve_lookahead_def wp_def)
  next
    case False
    have "wp (lookahead_rows wanted (max_batch_tokens (cfg s) - batch_size b) (sb_rows b))
        (\<lambda>_ t. sched_inv t \<and> t = s\<lparr>kv := kv t\<rparr>) (\<lambda>e t. sched_inv t \<and> t = s\<lparr>kv := kv t\<rparr>) s"
      by (rule wp_conseq [OF lookahead_rows_ok [OF f order_refl]]) (use keep in blast)+
    then show ?thesis by (rule wp_eq [rotated]) (use False in \<open>simp add: reserve_lookahead_def\<close>)
  qed
qed

section \<open>The machine\<close>

datatype 'smp sched_cmd =
    BSubmit "token list" generation_config "'smp option"
  | BSchedule
  | BComplete nat "token list"
  | BVerify nat "token list"
  | BFail nat
  | BCancel nat
  | BLimit nat
  | BPrefix bool
  | BSpeculative "speculative_config option"
  | BLookahead nat
  | BPop

fun sched_step :: "chain_fun \<Rightarrow> 'smp sched_cmd \<Rightarrow> ('smp, unit) sched_op" where
  "sched_step chain (BSubmit prompt g smp) s = ignore (submit_with_sampler prompt g smp) s"
| "sched_step chain BSchedule s = ignore (schedule chain) s"
| "sched_step chain (BComplete bid toks) s = complete_batch chain bid toks s"
| "sched_step chain (BVerify bid argmax) s = ignore (complete_verify_batch chain bid argmax) s"
| "sched_step chain (BFail bid) s = fail_batch bid s"
| "sched_step chain (BCancel rid) s = ignore (cancel rid) s"
| "sched_step chain (BLimit n) s = set_batch_token_limit n s"
| "sched_step chain (BPrefix b) s = sched_set_prefix_caching b s"
| "sched_step chain (BSpeculative c) s = set_speculative_decoding c s"
| "sched_step chain (BLookahead n) s =
     (case in_flight s of None \<Rightarrow> (Ok (), s) | Some b \<Rightarrow> ignore (reserve_lookahead b n) s)"
| "sched_step chain BPop s = (Ok (), snd (pop_finished s))"

text \<open>
  What the driver guarantees: it completes a verification batch with
  \<open>complete_verify_batch\<close> only, and with speculation on it schedules only while reservation
  identifiers are left for a whole batch and the draft length leaves room for the width of a
  row and the end of a draft in \<open>usize\<close> (\<open>id_room\<close>).
\<close>

fun sched_pre :: "'smp sched_cmd \<Rightarrow> 'smp scheduler \<Rightarrow> bool" where
  "sched_pre BSchedule s = id_room s"
| "sched_pre (BComplete bid toks) s = (\<forall>b. in_flight s = Some b \<longrightarrow> sb_kind b \<noteq> Verify)"
| "sched_pre _ s = True"

lemma wp_ignore: "wp m (\<lambda>_. Q) E s \<Longrightarrow> wp (ignore m) (\<lambda>_. Q) E s"
  unfolding ignore_def by (rule wp_bind, rule wp_conseq) simp_all

lemma set_limit_inv:
  assumes "sched_inv s"
  shows "wp (set_batch_token_limit n) (\<lambda>_. sched_inv) (\<lambda>e t. t = s) s"
proof (cases "in_flight s")
  case None
  then have "idle_inv (s\<lparr>cfg := (cfg s)\<lparr>max_batch_tokens := n\<rparr>\<rparr>)"
    using assms by (simp add: sched_inv_def idle_inv_def base_inv_def)
  then show ?thesis using None by (simp add: set_batch_token_limit_def wp_def idle_sched)
qed (simp add: set_batch_token_limit_def wp_def)

lemma prefix_caching_inv:
  assumes "sched_inv s"
  shows "wp (sched_set_prefix_caching b) (\<lambda>_. sched_inv) (\<lambda>e t. t = s) s"
proof -
  obtain k where k: "set_prefix_caching b (kv s) = (Ok (), k)" "kv_inv k" "kv_frame ((kv s)\<lparr>prefix_caching := b\<rparr>) k"
    by (rule set_prefix_caching_inv [OF base_kv [OF sched_base [OF assms]], of b])
  have l: "kv_ledger k = kv_ledger (kv s)" "kv_cap k = kv_cap (kv s)"
    using k(3) by (simp_all add: kv_frame_def kv_ledger_def kv_cap_def)
  have base: "base_inv (s\<lparr>kv := k\<rparr>)"
    by (rule base_inv_kv [OF sched_base [OF assms] k(2)]) (simp_all add: l)
  have "sched_inv (s\<lparr>kv := k\<rparr>)"
    using assms base l by (auto simp: sched_inv_def idle_inv_def flight_inv_def row_inv_def split: option.splits)
  then show ?thesis using k(1) by (simp add: sched_set_prefix_caching_def on_kv_def wp_def)
qed

lemma speculative_inv:
  assumes "sched_inv s"
  shows "wp (set_speculative_decoding c) (\<lambda>_. sched_inv) (\<lambda>e t. t = s) s"
proof -
  have "sched_inv (s\<lparr>speculative := c\<rparr>)" by (rule sched_inv_frame [OF assms]) (simp_all add: base_inv_def)
  then show ?thesis by (simp add: set_speculative_decoding_def wp_def)
qed

lemma pop_inv: "sched_inv s \<Longrightarrow> sched_inv (snd (pop_finished s))"
  by (rule sched_inv_frame [of s]) (simp_all add: pop_finished_def base_inv_def split: list.splits)

interpretation schedm: invariant_machine "sched_step chain" sched_inv sched_pre for chain :: chain_fun
proof
  fix s :: "'a scheduler" and c assume inv: "sched_inv s" and pre: "sched_pre c s"
  let ?ok = "\<lambda>_. sched_inv :: 'a scheduler \<Rightarrow> bool"
  show "wp (sched_step chain c) ?ok ?ok s"
  proof (cases c)
    case (BSubmit prompt g smp)
    have "wp (submit_with_sampler prompt g smp) ?ok ?ok s"
      by (rule wp_conseq [OF submit_inv [OF inv]]) (use inv in auto)
    from wp_eq [OF _ wp_ignore [OF this]] show ?thesis using BSubmit by simp
  next
    case BSchedule
    have "wp (schedule chain) ?ok ?ok s"
      by (rule wp_conseq [OF schedule_ok [OF inv]])
        (use pre BSchedule in \<open>auto simp: scheduled_def sched_inv_def idle_inv_def split: option.splits\<close>)
    from wp_eq [OF _ wp_ignore [OF this]] show ?thesis using BSchedule by simp
  next
    case (BComplete bid toks)
    have "wp (complete_batch chain bid toks) ?ok ?ok s"
      using complete_batch_cases [OF inv, of chain bid toks] pre BComplete inv idle_sched
      by (auto simp: wp_def completed_def)
    from wp_eq [OF _ this] show ?thesis using BComplete by simp
  next
    case (BVerify bid argmax)
    have "wp (complete_verify_batch chain bid argmax) ?ok ?ok s"
      using complete_verify_cases [OF inv, of chain bid argmax] inv idle_sched by (auto simp: wp_def verified_def)
    from wp_eq [OF _ wp_ignore [OF this]] show ?thesis using BVerify by simp
  next
    case (BFail bid)
    have "wp (fail_batch bid) ?ok ?ok s"
      using fail_batch_cases [OF inv, of bid] inv idle_sched by (auto simp: wp_def failed_def)
    from wp_eq [OF _ this] show ?thesis using BFail by simp
  next
    case (BCancel rid)
    have "wp (cancel rid) ?ok ?ok s"
      by (rule wp_conseq [OF cancel_ok [OF inv]]) (use inv in \<open>auto simp: cancelled_def\<close>)
    from wp_eq [OF _ wp_ignore [OF this]] show ?thesis using BCancel by simp
  next
    case (BLimit n)
    have "wp (set_batch_token_limit n) ?ok ?ok s"
      by (rule wp_conseq [OF set_limit_inv [OF inv]]) (use inv in auto)
    from wp_eq [OF _ this] show ?thesis using BLimit by simp
  next
    case (BPrefix b)
    have "wp (sched_set_prefix_caching b) ?ok ?ok s"
      by (rule wp_conseq [OF prefix_caching_inv [OF inv]]) (use inv in auto)
    from wp_eq [OF _ this] show ?thesis using BPrefix by simp
  next
    case (BSpeculative x)
    have "wp (set_speculative_decoding x) ?ok ?ok s"
      by (rule wp_conseq [OF speculative_inv [OF inv]]) (use inv in auto)
    from wp_eq [OF _ this] show ?thesis using BSpeculative by simp
  next
    case (BLookahead n)
    show ?thesis
    proof (cases "in_flight s")
      case None
      then show ?thesis using BLookahead inv by (simp add: wp_def)
    next
      case (Some b)
      have "wp (reserve_lookahead b n) ?ok ?ok s"
        by (rule wp_conseq [OF reserve_lookahead_ok [OF inv Some]]) auto
      from wp_eq [OF _ wp_ignore [OF this]] show ?thesis using BLookahead Some by simp
    qed
  next
    case BPop
    then show ?thesis using pop_inv [OF inv] by (simp add: wp_def)
  qed
qed

section \<open>Construction\<close>

lemma with_options_inv:
  assumes "with_options c k options = Ok s" and "max_sequence_length k \<le> usize_max"
  shows "sched_inv s" and "contents s = Map.empty" and "finished s = []" and "in_flight s = None"
proof -
  obtain m where m: "kv_new k = Ok m"
    and s: "s = \<lparr>cfg = c, opts = options, kv = m, pending = [], deferred = {}, active = Map.empty,
            finished = [], in_flight = None, prefer_prefill = True, next_request = 1,
            next_batch = 1, chunk_tokens = None, admission_ceiling = None,
            recompute_preemption = False, next_admission = 0, preemptions = 0,
            speculative = None, speculative_turn = False, drafted = 0, accepted = 0\<rparr>"
    using assms(1) by (auto simp: with_options_def split: res.splits)
  have "kv_inv m" by (rule kv_new_ok(1) [OF m assms(2)])
  moreover have "kv_ledger m = (Map.empty, Map.empty)"
    using m by (auto simp: kv_new_def kv_ledger_def split: res.splits)
  ultimately show "sched_inv s" by (simp add: s sched_inv_def idle_inv_def base_inv_def usize_max_def)
  show "contents s = Map.empty" "finished s = []" "in_flight s = None" by (simp_all add: s contents_def)
qed

lemma new_paged_inv:
  assumes "new_paged c k = Ok s" and "max_sequence_length k \<le> usize_max"
  shows "sched_inv s"
proof -
  obtain s0 where s0: "with_options c k default_options = Ok s0"
    and s: "s = s0\<lparr>chunk_tokens := Some (max_batch_tokens c), recompute_preemption := True\<rparr>"
    using assms(1) by (auto simp: new_paged_def sched_new_def split: res.splits)
  have "sched_inv s0" by (rule with_options_inv(1) [OF s0 assms(2)])
  then show ?thesis by (rule sched_inv_frame) (simp_all add: s base_inv_def)
qed

end
