(* ===== verification/BatchFacts.thy ===== *)
theory BatchFacts
  imports BatchMachine
begin

text \<open>
  Lemmas behind the properties of the scheduler: the generations a batch finishes, the
  layout of the flattened block table, the greedy choice, the n-gram search, and the rounds
  of the scheduling loop.
\<close>

section \<open>Finished generations\<close>

text \<open>What the end of a generation promises its client.\<close>

definition well_ended :: "generation_config \<Rightarrow> finished_generation \<Rightarrow> bool" where
  "well_ended g f \<longleftrightarrow> fg_generated f \<noteq> [] \<and> length (fg_generated f) \<le> max_new_tokens g
     \<and> (fg_eos f \<longleftrightarrow> last (fg_generated f) \<in> set (eos_token_ids g))
     \<and> (fg_eos f \<or> length (fg_generated f) = max_new_tokens g)
     \<and> set (butlast (fg_generated f)) \<inter> set (eos_token_ids g) = {}"

lemma as_finished_well:
  assumes r: "request_ok cap a" and n: "length (ac_generated a) + length ts \<le> max_new_tokens (ac_gen a)"
    and ts: "ts \<noteq> []" "set (butlast ts) \<inter> ac_eos a = {}" and e: "ends (extended ts a)"
  shows "well_ended (ac_gen a) (as_finished rid (extended ts a))"
proof -
  have eos: "ac_eos a = set (eos_token_ids (ac_gen a))" and g: "set (ac_generated a) \<inter> ac_eos a = {}"
    using r unfolding request_ok_def by blast+
  have "set (butlast (ac_generated a @ ts)) \<inter> ac_eos a = {}"
    using ts g by (auto simp: butlast_append)
  then show ?thesis using n ts(1) e eos by (auto simp: well_ended_def as_finished_def ends_def)
qed

lemma rows_result_finished:
  assumes "distinct (map (sc_request \<circ> fst) rts)"
    and "\<forall>rt\<in>set rts. \<exists>a. act (sc_request (fst rt)) = Some a \<and> request_ok cap a"
  shows "\<exists>fs. snd (rows_result rts (act, fin)) = fin @ fs \<and>
    (\<forall>f\<in>set fs. \<exists>rt\<in>set rts. \<exists>a. act (sc_request (fst rt)) = Some a \<and> fg_request f = sc_request (fst rt)
       \<and> fg_prompt f = ac_prompt a \<and> fg_generated f = ac_generated a @ [snd rt] \<and> well_ended (ac_gen a) f)"
  using assms
proof (induction rts arbitrary: act fin)
  case Nil
  then show ?case by simp
next
  case (Cons rt rts)
  obtain r t where rt: "rt = (r, t)" by (cases rt)
  obtain a where a: "act (sc_request r) = Some a" "request_ok cap a" using Cons.prems(2) rt by auto
  obtain a' over where res: "row_result r t a = (a', over)" by (cases "row_result r t a")
  let ?act = "if over then act(sc_request r := None) else act(sc_request r \<mapsto> a')"
  let ?new = "if over then [as_finished (sc_request r) a'] else []"
  have step: "rows_result (rt # rts) (act, fin) = rows_result rts (?act, fin @ ?new)"
    using a(1) res by (simp add: rt)
  have new: "sc_request r \<notin> (sc_request \<circ> fst) ` set rts" using Cons.prems(1) rt by (simp add: image_image)
  have other: "?act (sc_request (fst x)) = act (sc_request (fst x))" if "x \<in> set rts" for x
  proof -
    have "sc_request (fst x) \<noteq> sc_request r" using new imageI [OF that, of "sc_request \<circ> fst"] by (metis comp_apply)
    then show ?thesis by simp
  qed
  have p: "\<forall>x\<in>set rts. \<exists>a. ?act (sc_request (fst x)) = Some a \<and> request_ok cap a"
  proof
    fix x assume x: "x \<in> set rts"
    then obtain b where "act (sc_request (fst x)) = Some b" "request_ok cap b" using Cons.prems(2) by auto
    then show "\<exists>a. ?act (sc_request (fst x)) = Some a \<and> request_ok cap a" unfolding other [OF x] by blast
  qed
  have d: "distinct (map (sc_request \<circ> fst) rts)" using Cons.prems(1) by (simp add: comp_def)
  from Cons.IH [OF d p, of "fin @ ?new"] obtain fs where fs: "snd (rows_result rts (?act, fin @ ?new)) = (fin @ ?new) @ fs"
    "\<forall>f\<in>set fs. \<exists>rt\<in>set rts. \<exists>a. ?act (sc_request (fst rt)) = Some a \<and> fg_request f = sc_request (fst rt)
       \<and> fg_prompt f = ac_prompt a \<and> fg_generated f = ac_generated a @ [snd rt] \<and> well_ended (ac_gen a) f" by blast
  have head: "fg_request f = sc_request r \<and> fg_prompt f = ac_prompt a \<and> fg_generated f = ac_generated a @ [t]
      \<and> well_ended (ac_gen a) f" if f: "f \<in> set ?new" for f
  proof -
    have over: "over" "f = as_finished (sc_request r) a'" using f by (auto split: if_splits)
    then have e: "ends (extended [t] a)" "a' = extended [t] a" using res by (auto simp: row_result_def split: if_splits)
    have "well_ended (ac_gen a) (as_finished (sc_request r) (extended [t] a))"
      using a(2) by (intro as_finished_well [OF a(2) _ _ _ e(1)]) (simp_all add: request_ok_def)
    then show ?thesis using over(2) e(2) by (simp add: as_finished_def)
  qed
  have "\<exists>rt\<in>set (rt # rts). \<exists>a. act (sc_request (fst rt)) = Some a \<and> fg_request f = sc_request (fst rt)
       \<and> fg_prompt f = ac_prompt a \<and> fg_generated f = ac_generated a @ [snd rt] \<and> well_ended (ac_gen a) f"
    if "f \<in> set (?new @ fs)" for f
  proof (cases "f \<in> set ?new")
    case True
    from head [OF this] a(1) show ?thesis by (intro bexI [of _ rt] exI [of _ a]) (simp_all add: rt)
  next
    case False
    then have "f \<in> set fs" using that by auto
    then obtain x b where x: "x \<in> set rts" "?act (sc_request (fst x)) = Some b" "fg_request f = sc_request (fst x)"
      "fg_prompt f = ac_prompt b" "fg_generated f = ac_generated b @ [snd x]" "well_ended (ac_gen b) f"
      using fs(2) by blast
    then have "act (sc_request (fst x)) = Some b" using other [OF x(1)] by metis
    then show ?thesis using x by (intro bexI [of _ x]) auto
  qed
  then show ?case unfolding step using fs(1) by (intro exI [of _ "?new @ fs"]) simp
qed

text \<open>The same for verified rows: what becomes of every request, and which generations end.\<close>

definition verify_step :: "sched_seq \<times> token list \<Rightarrow> 'smp active_request \<Rightarrow> 'smp active_request" where
  "verify_step rp a = extended (verify_result (fst rp) (snd rp) a) a"

lemma verified_rows_effect:
  assumes "distinct (map (sc_request \<circ> fst) rps)" and "\<forall>rp\<in>set rps. act (sc_request (fst rp)) \<noteq> None"
  shows "\<exists>act' fs. verified_rows rps (act, fin) = (act', fin @ fs)
    \<and> (\<forall>rid. rid \<notin> (sc_request \<circ> fst) ` set rps \<longrightarrow> act' rid = act rid)
    \<and> (\<forall>rp\<in>set rps. \<forall>a. act (sc_request (fst rp)) = Some a \<longrightarrow>
         (if ends (verify_step rp a)
          then act' (sc_request (fst rp)) = None \<and> as_finished (sc_request (fst rp)) (verify_step rp a) \<in> set fs
          else act' (sc_request (fst rp)) = Some ((verify_step rp a)
                 \<lparr>ac_phase := AwaitingDecode (last (verify_result (fst rp) (snd rp) a))\<rparr>)))
    \<and> (\<forall>f\<in>set fs. \<exists>rp\<in>set rps. \<exists>a. act (sc_request (fst rp)) = Some a \<and> ends (verify_step rp a)
         \<and> f = as_finished (sc_request (fst rp)) (verify_step rp a))"
    (is "\<exists>act' fs. ?res rps act fin act' fs \<and> ?other rps act act' \<and> (\<forall>rp\<in>set rps. ?row act act' fs rp) \<and> ?fin rps act fs")
  using assms
proof (induction rps arbitrary: act fin)
  case Nil
  then show ?case by simp
next
  case (Cons rp rps)
  let ?rid = "sc_request (fst rp)"
  obtain a where a: "act ?rid = Some a" using Cons.prems(2) by auto
  define a' where "a' = verify_step rp a"
  define act1 where "act1 = (if ends a' then act(?rid := None)
     else act(?rid \<mapsto> a'\<lparr>ac_phase := AwaitingDecode (last (verify_result (fst rp) (snd rp) a))\<rparr>))"
  define fs1 where "fs1 = (if ends a' then [as_finished ?rid a'] else [])"
  have step: "verified_rows (rp # rps) (act, fin) = verified_rows rps (act1, fin @ fs1)"
    by (cases rp) (use a in \<open>simp add: a'_def act1_def fs1_def verify_step_def Let_def\<close>)
  have new: "?rid \<notin> (sc_request \<circ> fst) ` set rps" and d: "distinct (map (sc_request \<circ> fst) rps)"
    using Cons.prems(1) by (auto simp: comp_def)
  have act1: "act1 rid = act rid" if "rid \<noteq> ?rid" for rid using that by (simp add: act1_def)
  have other: "sc_request (fst x) \<noteq> ?rid" if "x \<in> set rps" for x
    using new imageI [OF that, of "sc_request \<circ> fst"] by (metis comp_apply)
  have "\<forall>x\<in>set rps. act1 (sc_request (fst x)) \<noteq> None"
    using Cons.prems(2) other act1 by simp
  from Cons.IH [OF d this, of "fin @ fs1"] obtain act' fs where
    ih: "?res rps act1 (fin @ fs1) act' fs" "?other rps act1 act'" "\<forall>x\<in>set rps. ?row act1 act' fs x" "?fin rps act1 fs"
    by blast
  have "?res (rp # rps) act fin act' (fs1 @ fs)" using step ih(1) by simp
  moreover have "?other (rp # rps) act act'" using ih(2) act1 by simp
  moreover have "?row act act' (fs1 @ fs) x" if x: "x \<in> set (rp # rps)" for x
  proof (cases "x = rp")
    case True
    have "act' ?rid = act1 ?rid" using ih(2) new by blast
    then show ?thesis using a True by (simp add: act1_def fs1_def a'_def)
  next
    case False
    then have x': "x \<in> set rps" using x by simp
    show ?thesis using bspec [OF ih(3) x'] act1 [OF other [OF x']] by (auto split: if_splits)
  qed
  moreover have "?fin (rp # rps) act (fs1 @ fs)"
  proof
    fix f assume f: "f \<in> set (fs1 @ fs)"
    show "\<exists>x\<in>set (rp # rps). \<exists>a. act (sc_request (fst x)) = Some a \<and> ends (verify_step x a)
         \<and> f = as_finished (sc_request (fst x)) (verify_step x a)"
    proof (cases "f \<in> set fs")
      case True
      then obtain x b where x: "x \<in> set rps" "act1 (sc_request (fst x)) = Some b" "ends (verify_step x b)"
        "f = as_finished (sc_request (fst x)) (verify_step x b)" using ih(4) by blast
      have "act (sc_request (fst x)) = Some b" using x(2) act1 [OF other [OF x(1)]] by simp
      then show ?thesis using x by (intro bexI [of _ x] exI [of _ b]) simp_all
    next
      case False
      then have "ends a'" "f = as_finished ?rid a'" using f by (auto simp: fs1_def split: if_splits)
      then show ?thesis using a by (intro bexI [of _ rp] exI [of _ a]) (simp_all add: a'_def)
    qed
  qed
  ultimately show ?case by blast
qed

text \<open>The rows of a verification batch in flight, paired with their predictions.\<close>

lemma verify_rows_facts:
  assumes f: "flight_inv s b" and len: "length argmax = batch_size b * next_n b"
    and rps: "rps = zip (sb_rows b) (chunks (next_n b) (batch_size b) argmax)"
  shows "map fst rps = sb_rows b" and "distinct (map (sc_request \<circ> fst) rps)"
    and "rp \<in> set rps \<Longrightarrow> \<exists>a. active s (sc_request (fst rp)) = Some a \<and> request_ok (kv_cap (kv s)) a
      \<and> length (snd rp) = Suc (length (tl (sc_tokens (fst rp))))"
proof -
  show fst: "map fst rps = sb_rows b" by (simp add: rps batch_size_def)
  have "map (sc_request \<circ> fst) rps = map sc_request (map fst rps)" by simp
  then show "distinct (map (sc_request \<circ> fst) rps)" using f by (simp only: fst) (simp add: flight_inv_def)
  assume rp: "rp \<in> set rps"
  then have r: "fst rp \<in> set (sb_rows b)" unfolding rps by (metis prod.collapse set_zip_leftD)
  have "snd rp \<in> set (chunks (next_n b) (batch_size b) argmax)"
    using rp unfolding rps by (metis prod.collapse set_zip_rightD)
  then have "length (snd rp) = next_n b" by (rule chunks_widths [OF len])
  moreover have "length (sc_tokens (fst rp)) = next_n b" using f r by (simp add: flight_inv_def)
  moreover obtain a where a: "active s (sc_request (fst rp)) = Some a" "sc_tokens (fst rp) \<noteq> []" by (rule flight_row [OF f r])
  moreover have "request_ok (kv_cap (kv s)) a" by (rule base_request [OF _ a(1)]) (use f in \<open>simp add: flight_inv_def\<close>)
  ultimately show "\<exists>a. active s (sc_request (fst rp)) = Some a \<and> request_ok (kv_cap (kv s)) a
      \<and> length (snd rp) = Suc (length (tl (sc_tokens (fst rp))))" by (cases "sc_tokens (fst rp)") simp_all
qed

lemma verify_step_well_ended:
  assumes "request_ok cap a" and "length (snd rp) = Suc (length (tl (sc_tokens (fst rp))))" and "ends (verify_step rp a)"
  shows "verify_result (fst rp) (snd rp) a \<noteq> []" and "well_ended (ac_gen a) (as_finished rid (verify_step rp a))"
proof -
  let ?rem = "max_new_tokens (ac_gen a) - length (ac_generated a)"
  have lim: "0 < ?rem" "length (ac_generated a) < max_new_tokens (ac_gen a)" using assms(1) by (simp_all add: request_ok_def)
  obtain out where out: "verify_row (ac_eos a) ?rem (tl (sc_tokens (fst rp))) 0 (snd rp) = Some out" "out \<noteq> []"
    "0 + length out \<le> ?rem" "set (butlast out) \<inter> ac_eos a = {}"
    using verify_row_bounds [OF assms(2) lim(1), of "ac_eos a"] by blast
  have res: "verify_result (fst rp) (snd rp) a = out" by (simp add: verify_result_def out(1))
  then show "verify_result (fst rp) (snd rp) a \<noteq> []" using out(2) by simp
  show "well_ended (ac_gen a) (as_finished rid (verify_step rp a))"
    unfolding verify_step_def res
    by (rule as_finished_well [OF assms(1) _ out(2,4)]) (use out(3) lim(2) assms(3) in \<open>simp_all add: verify_step_def res\<close>)
qed

section \<open>The flattened block table\<close>

definition padded :: "nat \<Rightarrow> nat list \<Rightarrow> nat list" where
  "padded stride ps = ps @ replicate (stride - length ps) 0"

lemma write_pages_eq:
  "pos + length ps \<le> length table \<Longrightarrow>
     write_pages pos ps table = Ok (take pos table @ ps @ drop (pos + length ps) table)"
proof (induction ps arbitrary: pos table)
  case (Cons p ps)
  then have "write_pages (Suc pos) ps (table[pos := p])
      = Ok (take (Suc pos) (table[pos := p]) @ ps @ drop (Suc pos + length ps) (table[pos := p]))"
    by (intro Cons.IH) simp
  then show ?case using Cons.prems by (simp add: take_Suc_conv_app_nth)
qed simp

lemma write_rows_eq:
  assumes "\<forall>r\<in>set rows. length (sc_table r) \<le> stride" and "length done_part = row * stride"
  shows "write_rows stride row rows (done_part @ replicate (length rows * stride) 0)
    = Ok (done_part @ concat (map (padded stride \<circ> sc_table) rows))"
  using assms
proof (induction rows arbitrary: row done_part)
  case (Cons r rows)
  let ?rest = "replicate (length rows * stride) (0::nat)"
  have l: "length (sc_table r) \<le> stride" using Cons.prems(1) by simp
  have split: "replicate (length (r # rows) * stride) (0::nat)
      = replicate (length (sc_table r)) 0 @ replicate (stride - length (sc_table r)) 0 @ ?rest"
    using l by (simp add: replicate_add [symmetric])
  have "write_pages (row * stride) (sc_table r) (done_part @ replicate (length (r # rows) * stride) 0)
      = Ok ((done_part @ padded stride (sc_table r)) @ ?rest)"
    unfolding split using Cons.prems(2) l by (subst write_pages_eq) (simp_all add: padded_def)
  moreover have "write_rows stride (Suc row) rows ((done_part @ padded stride (sc_table r)) @ ?rest)
      = Ok ((done_part @ padded stride (sc_table r)) @ concat (map (padded stride \<circ> sc_table) rows))"
    using Cons.prems l by (intro Cons.IH) (simp_all add: padded_def)
  ultimately show ?case by (simp add: comp_def)
qed simp

lemma le_fold_max: "k \<le> fold max xs (k :: nat)"
proof (induction xs arbitrary: k)
  case (Cons x xs)
  show ?case using Cons [of "max x k"] by simp
qed simp

lemma mem_le_fold_max: "x \<in> set xs \<Longrightarrow> x \<le> fold max xs (k :: nat)"
proof (induction xs arbitrary: k)
  case (Cons y xs)
  show ?case
  proof (cases "x = y")
    case True
    then show ?thesis using le_fold_max [of "max y k" xs] by simp
  qed (use Cons in simp)
qed simp

lemma stride_bound: "r \<in> set (sb_rows b) \<Longrightarrow> length (sc_table r) \<le> table_stride b"
  by (simp add: table_stride_def mem_le_fold_max)

section \<open>The greedy choice\<close>

definition best_of :: "('f::linorder) logit list \<Rightarrow> (nat \<times> 'f) option \<Rightarrow> bool" where
  "best_of vs b \<longleftrightarrow> (case b of
     None \<Rightarrow> \<forall>v\<in>set vs. v = None
   | Some (i, x) \<Rightarrow> i < length vs \<and> vs ! i = Some x
       \<and> (\<forall>j<length vs. \<forall>y. vs ! j = Some y \<longrightarrow> y \<le> x \<and> (j < i \<longrightarrow> y < x)))"

lemma best_of_snoc:
  assumes "best_of vs b"
  shows "best_of (vs @ [v]) (case v of None \<Rightarrow> b
     | Some x \<Rightarrow> (case b of None \<Rightarrow> Some (length vs, x) | Some (j, y) \<Rightarrow> if x > y then Some (length vs, x) else b))"
proof (cases v)
  case None
  then show ?thesis using assms by (cases b) (auto simp: best_of_def nth_append less_Suc_eq)
next
  case (Some x)
  show ?thesis
  proof (cases b)
    case None
    then have "vs ! j = None" if "j < length vs" for j using assms that by (simp add: best_of_def)
    then show ?thesis using None Some by (auto simp: best_of_def nth_append less_Suc_eq)
  next
    case (Some p)
    then show ?thesis using assms \<open>v = Some x\<close>
      by (cases p) (auto simp: best_of_def nth_append less_Suc_eq intro: order.strict_trans1 order.strict_implies_order)
  qed
qed

lemma greedy_scan_best: "best_of pre b \<Longrightarrow> best_of (pre @ vs) (greedy_scan (length pre) vs b)"
proof (induction vs arbitrary: pre b)
  case (Cons v vs)
  from Cons.IH [OF best_of_snoc [OF Cons.prems, of v]] show ?case by simp
qed simp

section \<open>The n-gram search\<close>

text \<open>The last \<open>m\<close> tokens of the history occur earlier, at \<open>st\<close>.\<close>

definition recurs :: "token list \<Rightarrow> nat \<Rightarrow> nat \<times> nat \<Rightarrow> bool" where
  "recurs h n = (\<lambda>(m, st). 1 \<le> m \<and> m \<le> n \<and> st + m < length h \<and> take m (drop st h) = drop (length h - m) h)"

definition before :: "nat \<times> nat \<Rightarrow> nat \<times> nat \<Rightarrow> bool" where
  "before = (\<lambda>(m, st) (m', st'). m' < m \<or> m' = m \<and> st' < st)"

lemma greatest_before:
  assumes "finite S" and "S \<noteq> {}"
  shows "\<exists>q\<in>S. \<forall>p\<in>S. p = q \<or> before q p"
  using assms
proof (induction rule: finite_ne_induct)
  case (insert x F)
  then obtain q where q: "q \<in> F" "\<forall>p\<in>F. p = q \<or> before q p" by blast
  show ?case
  proof (cases "before q x")
    case True
    then show ?thesis using q by blast
  next
    case False
    have "\<forall>p\<in>F. before x p \<or> p = x"
      using q False by (cases q; cases x) (auto simp: before_def split: prod.splits; force)
    then show ?thesis by blast
  qed
qed simp

lemma find_sorted:
  "sorted_wrt R xs \<Longrightarrow> find P xs = Some x \<Longrightarrow> P x \<and> x \<in> set xs \<and> (\<forall>y\<in>set xs. P y \<longrightarrow> y = x \<or> R x y)"
  by (induction xs) (auto split: if_splits)

lemma sorted_spots:
  "sorted_wrt (>) ns \<Longrightarrow> (\<And>n. sorted_wrt (>) (f n)) \<Longrightarrow>
     sorted_wrt before (concat (map (\<lambda>n. map (\<lambda>st. (n, st)) (f n)) ns))"
proof (induction ns)
  case (Cons n ns)
  have "sorted_wrt before (map (\<lambda>st. (n, st)) (f n))" using Cons.prems(2) by (simp add: sorted_wrt_map before_def)
  then show ?case using Cons by (auto simp: sorted_wrt_append before_def)
qed simp

lemma sorted_down: "sorted_wrt (>) (rev [a..<b])"
  by (simp add: sorted_wrt_rev)

definition spots :: "token list \<Rightarrow> nat \<Rightarrow> (nat \<times> nat) list" where
  "spots h n = concat (map (\<lambda>n. map (\<lambda>st. (n, st)) (rev [0..<length h - n])) (rev [1..<Suc (min n (length h - 1))]))"

text \<open>Without an overflow the scan is a search.\<close>

lemma ngram_scan_eq:
  assumes "length h + d \<le> usize_max" and "\<forall>(m, st)\<in>set xs. st + m \<le> length h"
  shows "ngram_scan h d xs = Ok (case find (\<lambda>(m, st). take m (drop st h) = drop (length h - m) h
       \<and> st + m < min (st + m + d) (length h)) xs of
     None \<Rightarrow> [] | Some (m, st) \<Rightarrow> take (min (st + m + d) (length h) - (st + m)) (drop (st + m) h))"
  using assms(2)
proof (induction xs)
  case (Cons x xs)
  obtain m st where x: "x = (m, st)" by (cases x)
  have "st + m + d \<le> usize_max" using Cons.prems assms(1) x by auto
  then show ?case using Cons x by (simp add: Let_def checked_add_def)
qed simp

lemma spots_within: "\<forall>(m, st)\<in>set (spots h n). st + m \<le> length h"
  by (auto simp: spots_def)

lemma ngram_draft_spots: "ngram_draft h n d = ngram_scan h d (spots h n)"
  by (simp add: ngram_draft_def spots_def Let_def)

lemma ngram_find:
  assumes "0 < d" and "length h + d \<le> usize_max"
  shows "ngram_draft h n d = Ok (case find (recurs h n) (spots h n) of
        None \<Rightarrow> [] | Some (m, st) \<Rightarrow> take d (drop (st + m) h))"
proof -
  let ?P = "\<lambda>(m, st). take m (drop st h) = drop (length h - m) h \<and> st + m < min (st + m + d) (length h)"
  have "find ?P (spots h n) = find (recurs h n) (spots h n)"
    by (rule find_cong) (use assms(1) in \<open>auto simp: recurs_def spots_def\<close>)
  moreover have "take (min (st + m + d) (length h) - (st + m)) (drop (st + m) h) = take d (drop (st + m) h)" for m st
    by (cases "st + m + d \<le> length h") (auto simp: min_def)
  ultimately show ?thesis
    using ngram_scan_eq [OF assms(2) spots_within, of n] by (simp add: ngram_draft_spots split: option.splits prod.splits)
qed

lemma ngram_search:
  assumes "0 < d" and "length h + d \<le> usize_max"
  shows "ngram_draft h n d = Ok [] \<longleftrightarrow> (\<forall>p. \<not> recurs h n p)"
    and "recurs h n (m, st) \<Longrightarrow> \<forall>p. recurs h n p \<longrightarrow> p = (m, st) \<or> before (m, st) p \<Longrightarrow>
      ngram_draft h n d = Ok (take d (drop (st + m) h))"
proof -
  have spot: "p \<in> set (spots h n)" if "recurs h n p" for p
    using that by (cases p) (auto simp: recurs_def spots_def)
  have sorted: "sorted_wrt before (spots h n)" unfolding spots_def by (rule sorted_spots) (rule sorted_down)+
  show "ngram_draft h n d = Ok [] \<longleftrightarrow> (\<forall>p. \<not> recurs h n p)"
  proof (cases "find (recurs h n) (spots h n)")
    case None
    have "ngram_draft h n d = Ok []" using ngram_find [OF assms, of n] unfolding None by simp
    moreover have "\<not> recurs h n p" for p using None spot [of p] unfolding find_None_iff by blast
    ultimately show ?thesis by blast
  next
    case (Some p)
    obtain m st where p: "p = (m, st)" by (cases p)
    have r: "recurs h n (m, st)" using find_sorted [OF sorted Some] p by simp
    then have "take d (drop (st + m) h) \<noteq> []" using assms(1) by (auto simp: recurs_def)
    then show ?thesis using ngram_find [OF assms, of n] Some p r by auto
  qed
  assume r: "recurs h n (m, st)" and best: "\<forall>p. recurs h n p \<longrightarrow> p = (m, st) \<or> before (m, st) p"
  obtain q where q: "find (recurs h n) (spots h n) = Some q"
    using spot [OF r] r by (cases "find (recurs h n) (spots h n)") (auto simp: find_None_iff)
  have "recurs h n q" "q = (m, st) \<or> before q (m, st)" using find_sorted [OF sorted q] spot [OF r] r by auto
  moreover have "q = (m, st) \<or> before (m, st) q" using best calculation(1) by blast
  ultimately have "q = (m, st)" by (cases q) (auto simp: before_def)
  then show "ngram_draft h n d = Ok (take d (drop (st + m) h))" using ngram_find [OF assms, of n] q by simp
qed

section \<open>Rounds of the scheduling loop\<close>

lemma schedule_loop_more:
  "fst (schedule_loop n s) \<noteq> Panic \<Longrightarrow> schedule_loop (Suc n) s = schedule_loop n s"
proof (induction n arbitrary: s)
  case 0
  then show ?case by simp
next
  case (Suc n)
  obtain r t where try_s: "try_schedule s = (r, t)" by (cases "try_schedule s")
  show ?case
  proof (cases "r = Ok None \<and> recompute_preemption t")
    case True
    obtain g u where pre: "preempt_newest t = (g, u)" by (cases "preempt_newest t")
    show ?thesis
    proof (cases "g = Ok True")
      case go: True
      have step: "schedule_loop (Suc k) s = schedule_loop k u" for k using try_s True pre go by simp
      have "fst (schedule_loop n u) \<noteq> Panic" using Suc.prems step [of n] by simp
      from Suc.IH [OF this] show ?thesis by (simp only: step)
    next
      case False
      then show ?thesis using try_s True pre by (cases g) (auto simp: bind_op_def split: bool.splits)
    qed
  next
    case False
    then show ?thesis using try_s by (cases r) (auto simp: bind_op_def split: option.splits)
  qed
qed

lemma schedule_loop_enough:
  assumes "fst (schedule_loop n s) \<noteq> Panic" and "n \<le> m"
  shows "schedule_loop m s = schedule_loop n s"
  using assms(2)
proof (induction m rule: dec_induct)
  case (step k)
  then show ?case using schedule_loop_more [of k s] assms(1) by simp
qed simp

end
