(* ===== verification/BatchProps.thy ===== *)
theory BatchProps
  imports BatchFacts PagedKvProps
begin

text \<open>The properties of the continuous batching scheduler, with concrete witnesses.\<close>

section \<open>Concrete schedulers\<close>

definition demo_batch_conf :: batch_config where
  "demo_batch_conf = \<lparr>max_active_sequences = 2, max_batch_tokens = 8\<rparr>"

definition demo_sched :: "unit scheduler" where
  "demo_sched = \<lparr>cfg = demo_batch_conf, opts = default_options, kv = demo_fresh, pending = [], deferred = {},
     active = Map.empty, finished = [], in_flight = None, prefer_prefill = True, next_request = 1,
     next_batch = 1, chunk_tokens = Some 8, admission_ceiling = None, recompute_preemption = True,
     next_admission = 0, preemptions = 0, speculative = None, speculative_turn = False, drafted = 0, accepted = 0\<rparr>"

lemma demo_new_paged: "new_paged demo_batch_conf demo_conf = Ok demo_sched"
  by (simp add: new_paged_def sched_new_def with_options_def batch_config_validate_def options_validate_def
      default_options_def demo_new demo_batch_conf_def demo_sched_def)

lemma demo_conf_small: "max_sequence_length demo_conf \<le> usize_max"
  by (simp add: demo_conf_def demo_small)

lemma demo_sched_inv: "sched_inv demo_sched"
  by (rule new_paged_inv [OF demo_new_paged demo_conf_small])

text \<open>
  Request 1 with three tokens in the cache and a batch in flight that writes four more: a
  verification batch, and the last chunk of a prompt of seven tokens.
\<close>

lemma demo_open_full: "demo_open = \<lparr>kv_conf = demo_conf, free_pages = {}, page_refs = [1, 1, 1, 1],
     page_blocks = [None, None, None, None], block_index = Map.empty, evictable = Map.empty,
     next_tick = 0, prefix_caching = True, reused_tokens = 0,
     sequences = [1 \<mapsto> \<lparr>sq_committed = 3, sq_pages = [0, 1, 2, 3], sq_pending = Some 2, sq_registered = 0,
                       sq_hash = chain_root\<rparr>],
     reservations = [2 \<mapsto> \<lparr>rs_request = 1, rs_previous = 2, rs_start = 3, rs_count = 4\<rparr>], next_reservation = 3\<rparr>"
proof -
  have two: "allocate_pages 2 s = bind_op allocate_page (\<lambda>p. bind_op (bind_op allocate_page (\<lambda>p. ret_op [p])) (\<lambda>ps. ret_op (p # ps))) s" for s
    by (simp add: numeral_2_eq_2 bind_op_def cong: prod.case_cong res.case_cong split: prod.splits res.splits)
  show ?thesis
    by (simp add: demo_open_def demo_state_def demo_conf_def kv_eval two fun_eq_iff insert_Diff_if)
qed

lemma demo_open_ledger: "kv_ledger demo_open = ([1 \<mapsto> 3], [2 \<mapsto> (1, 3, 4)])" "kv_cap demo_open = 8"
  by (simp_all add: demo_open_full kv_ledger_def kv_cap_def demo_conf_def fun_eq_iff)

definition demo_row :: "token list \<Rightarrow> sched_seq" where
  "demo_row toks = \<lparr>sc_request = 1, sc_tokens = toks, sc_start = 3, sc_context = 7, sc_table = [0, 1, 2, 3],
     sc_reservation = 2\<rparr>"

definition demo_request :: "nat \<Rightarrow> token list \<Rightarrow> token list \<Rightarrow> unit active_request" where
  "demo_request n prompt made = \<lparr>ac_prompt = prompt, ac_gen = \<lparr>max_new_tokens = n, eos_token_ids = [99]\<rparr>,
     ac_sampler = None, ac_eos = {99}, ac_generated = made, ac_history = prompt @ made, ac_admitted = 0,
     ac_phase = InFlight 7\<rparr>"

definition demo_flight :: "batch_kind \<Rightarrow> token list \<Rightarrow> unit active_request \<Rightarrow> unit scheduler" where
  "demo_flight kind toks a = demo_sched\<lparr>kv := demo_open, next_request := 2, next_batch := 8,
     active := [1 \<mapsto> a], in_flight := Some \<lparr>sb_id = 7, sb_kind = kind, sb_rows = [demo_row toks]\<rparr>\<rparr>"

lemma demo_flight_inv:
  assumes "request_ok 8 a" and "ac_phase a = InFlight 7" and "length toks = 4" and "row_shape kind a 3 toks"
  shows "sched_inv (demo_flight kind toks a)"
  using assms demo_open_inv demo_open_ledger
  by (auto simp: sched_inv_def flight_inv_def demo_flight_def demo_sched_def base_inv_def row_inv_def demo_row_def
      next_n_def batch_size_def demo_batch_conf_def usize_max_def)

definition demo_verify :: "unit scheduler" where
  "demo_verify = demo_flight Verify [13, 12, 13, 12] (demo_request 6 [12, 11] [12, 13])"

definition demo_prefill :: "unit scheduler" where
  "demo_prefill = demo_flight Prefill [4, 5, 6, 7] (demo_request 1 [1, 2, 3, 4, 5, 6, 7] [])"

lemma demo_verify_inv: "sched_inv demo_verify"
  unfolding demo_verify_def by (rule demo_flight_inv) (simp_all add: demo_request_def request_ok_def row_shape_def)

lemma demo_prefill_inv: "sched_inv demo_prefill"
  unfolding demo_prefill_def
  by (rule demo_flight_inv) (simp_all add: demo_request_def request_ok_def row_shape_def eval_nat_numeral)

lemma demo_in_flight [simp]:
  "in_flight (demo_flight kind toks a) = Some \<lparr>sb_id = 7, sb_kind = kind, sb_rows = [demo_row toks]\<rparr>"
  "active (demo_flight kind toks a) = [1 \<mapsto> a]" "finished (demo_flight kind toks a) = []"
  by (simp_all add: demo_flight_def demo_sched_def)

section \<open>Runs\<close>

fun sched_run :: "chain_fun \<Rightarrow> 'smp sched_cmd list \<Rightarrow> 'smp scheduler \<Rightarrow> 'smp scheduler" where
  "sched_run chain [] s = s"
| "sched_run chain (c # cs) s = sched_run chain cs (snd (sched_step chain c s))"

fun sched_legal :: "chain_fun \<Rightarrow> 'smp sched_cmd list \<Rightarrow> 'smp scheduler \<Rightarrow> bool" where
  "sched_legal chain [] s = True"
| "sched_legal chain (c # cs) s = (sched_pre c s \<and> sched_legal chain cs (snd (sched_step chain c s)))"

lemma sched_machine:
  "sched_run chain cs s = schedm.run chain cs s" "sched_legal chain cs s = schedm.legal chain cs s"
  by (induction cs arbitrary: s) simp_all

text \<open>
  C5: From any constructor, any sequence of scheduler commands the driver may issue
  (submissions, scheduling rounds, completions, verifications, failures, cancellations,
  reconfiguration, look-ahead) leads to a state that satisfies the invariant linking
  requests, phases, batch rows and KV reservations, and the next command does not panic:
  no \<open>expect\<close>, subtraction or index of the scheduler is reachable, and the scheduling loop
  ends within its rounds. With speculation on, rounds are assumed to be scheduled while
  identifiers last and with a draft length whose row width fits \<open>usize\<close> (\<open>id_room\<close>).
\<close>

theorem sched_runs_safe:
  assumes "with_options c k options = Ok s0 \<or> new_paged c k = Ok s0" and "max_sequence_length k \<le> usize_max"
    and "sched_legal chain (cs @ [d]) s0"
  shows "sched_inv (sched_run chain cs s0) \<and> fst (sched_step chain d (sched_run chain cs s0)) \<noteq> Panic"
proof -
  have i: "sched_inv s0" using assms(1,2) with_options_inv(1) new_paged_inv by blast
  have l: "schedm.legal chain (cs @ [d]) s0" using assms(3) by (simp add: sched_machine)
  then have "schedm.legal chain cs s0" by (simp add: schedm.legal_append)
  from schedm.run_inv [OF i this] schedm.run_no_panic [OF i l] show ?thesis by (simp add: sched_machine)
qed

lemma sched_runs_safe_witness:
  "sched_inv (sched_run demo_chain [BSubmit [1, 2, 3] \<lparr>max_new_tokens = 2, eos_token_ids = [9]\<rparr> None] demo_sched)
   \<and> fst (sched_step demo_chain BSchedule
        (sched_run demo_chain [BSubmit [1, 2, 3] \<lparr>max_new_tokens = 2, eos_token_ids = [9]\<rparr> None] demo_sched)) \<noteq> Panic"
proof (rule sched_runs_safe [OF disjI2 [OF demo_new_paged] demo_conf_small])
  show "sched_legal demo_chain ([BSubmit [1, 2, 3] \<lparr>max_new_tokens = 2, eos_token_ids = [9]\<rparr> None] @ [BSchedule]) demo_sched"
    by (simp add: submit_with_sampler_def demo_sched_def demo_batch_conf_def default_options_def demo_fresh_def
        demo_conf_def checked_add_def usize_max_def id_room_def ignore_def bind_op_def Let_def div_ceil_def)
qed

section \<open>Scheduling\<close>

text \<open>A request of three tokens that waits for its prefill, and the batch that is scheduled for it.\<close>

definition waiting_kv :: kv_manager where
  "waiting_kv = demo_fresh\<lparr>sequences := [1 \<mapsto> \<lparr>sq_committed = 0, sq_pages = [], sq_pending = None, sq_registered = 0, sq_hash = chain_root\<rparr>]\<rparr>"

definition begun_kv :: kv_manager where
  "begun_kv = waiting_kv\<lparr>free_pages := {2, 3}, page_refs := [1, 1, 0, 0],
     sequences := [1 \<mapsto> \<lparr>sq_committed = 0, sq_pages = [0, 1], sq_pending = Some 1, sq_registered = 0, sq_hash = chain_root\<rparr>],
     reservations := [1 \<mapsto> \<lparr>rs_request = 1, rs_previous = 0, rs_start = 0, rs_count = 3\<rparr>], next_reservation := 2\<rparr>"

definition demo_waiting :: "unit scheduler" where
  "demo_waiting = demo_sched\<lparr>kv := waiting_kv,
     next_request := 2, active := [1 \<mapsto> (demo_request 2 [1, 2, 3] [])\<lparr>ac_phase := NeedsPrefill\<rparr>]\<rparr>"

lemmas sched_eval = get_active_def prefill_chunk_def on_kv_def committed_tokens_def kv_eval demo_request_def demo_sched_def demo_fresh_def
     demo_batch_conf_def demo_conf_def default_options_def waiting_kv_def

lemma waiting_buckets: "prefill_buckets [1] [] demo_waiting = (Ok [((3, False), [1])], demo_waiting)"
  by (simp add: demo_waiting_def sched_eval)

lemma waiting_fits: "on_kv (can_append 1 3) demo_waiting = (Ok True, demo_waiting)"
  by (simp add: demo_waiting_def sched_eval)

lemma waiting_tokens: "prefill_tokens 3 1 demo_waiting = (Ok [1, 2, 3], demo_waiting)"
  by (simp add: demo_waiting_def sched_eval prefill_tokens_def)

lemma waiting_begin: "begin_append 1 3 waiting_kv = 
    (Ok \<lparr>ar_id = 1, ar_request = 1, ar_start = 0, ar_count = 3, ar_context = 3, ar_new_pages = [0, 1], ar_table = [0, 1]\<rparr>, begun_kv)"
proof -
  have two: "allocate_pages 2 s = bind_op allocate_page (\<lambda>p. bind_op (bind_op allocate_page (\<lambda>p. ret_op [p])) (\<lambda>ps. ret_op (p # ps))) s" for s
    by (simp add: numeral_2_eq_2 bind_op_def cong: prod.case_cong res.case_cong split: prod.splits res.splits)
  show ?thesis
    by (simp add: begun_kv_def sched_eval two fun_eq_iff insert_Diff_if)
qed

definition begun_row :: sched_seq where
  "begun_row = \<lparr>sc_request = 1, sc_tokens = [1, 2, 3], sc_start = 0, sc_context = 3, sc_table = [0, 1], sc_reservation = 1\<rparr>"

definition waiting_batch :: sched_batch where
  "waiting_batch = \<lparr>sb_id = 1, sb_kind = Prefill, sb_rows = [begun_row]\<rparr>"

definition demo_scheduled :: "unit scheduler" where
  "demo_scheduled = demo_waiting\<lparr>kv := begun_kv, next_batch := 2, active := [1 \<mapsto> demo_request 2 [1, 2, 3] []\<lparr>ac_phase := InFlight 1\<rparr>],
     prefer_prefill := False, in_flight := Some waiting_batch\<rparr>"

lemma demo_waiting_simps [simp]: "kv demo_waiting = waiting_kv" "cfg demo_waiting = demo_batch_conf" "in_flight demo_waiting = None"
   "next_batch demo_waiting = 1" "active_ids demo_waiting = [1]" "prefer_prefill demo_waiting"
   "active demo_waiting = [1 \<mapsto> (demo_request 2 [1, 2, 3] [])\<lparr>ac_phase := NeedsPrefill\<rparr>]" "pending demo_waiting = []" "opts demo_waiting = default_options"
  by (simp_all add: demo_waiting_def demo_sched_def active_ids_def)

lemma waiting_reserve: "reserve_rows id (prefill_tokens 3) True 2 3 [1] [] demo_waiting = (Ok [begun_row], demo_waiting\<lparr>kv := begun_kv\<rparr>)"
  using waiting_fits waiting_tokens waiting_begin by (simp add: begun_row_def scheduled_sequence_def)

lemma waiting_prefill: "schedule_prefill demo_waiting = (Ok (Some waiting_batch), demo_scheduled\<lparr>prefer_prefill := True, in_flight := None\<rparr>)"
proof -
  have max: "bucket_max 8 [((3, False), [1])] = Some ((3, False), [1])" by (simp add: bucket_max_def)
  have row: "finish_schedule Prefill [begun_row] (demo_waiting\<lparr>kv := begun_kv\<rparr>) = (Ok (Some waiting_batch), demo_scheduled\<lparr>prefer_prefill := True, in_flight := None\<rparr>)"
    by (simp add: finish_schedule_def begun_row_def waiting_batch_def demo_scheduled_def checked_add_def usize_max_def demo_waiting_def demo_sched_def)
  show ?thesis
    by (simp add: schedule_prefill_def waiting_buckets bind_op_def [of "prefill_buckets [1] []"] max demo_batch_conf_def  waiting_reserve row
        del: One_nat_def prefill_buckets.simps reserve_rows.simps)
qed

lemma demo_schedules: "schedule demo_chain demo_waiting = (Ok (Some waiting_batch), demo_scheduled)"
proof -
  have "try_schedule demo_waiting = (Ok (Some waiting_batch), demo_scheduled\<lparr>in_flight := None\<rparr>)"
    using waiting_prefill by (simp add: try_schedule_def demo_scheduled_def)
  then show ?thesis
    by (simp add: schedule_def promote_pending_def default_options_def usize_max_def demo_scheduled_def)
qed

lemma demo_waiting_inv: "sched_inv demo_waiting"
proof -
  have "kv_run demo_chain [KCreate 1] demo_fresh = waiting_kv"
    by (simp add: waiting_kv_def demo_fresh_def demo_conf_def kv_eval)
  then have kv: "kv_inv waiting_kv" using demo_inv [of "[KCreate 1]"] by simp
  have "kv_ledger waiting_kv = ([1 \<mapsto> 0], Map.empty)" "kv_cap waiting_kv = 8"
    by (simp_all add: waiting_kv_def kv_ledger_def kv_cap_def demo_fresh_def demo_conf_def fun_eq_iff)
  with kv show ?thesis
    by (simp add: sched_inv_def idle_inv_def base_inv_def demo_waiting_def demo_sched_def request_ok_def demo_request_def phase_ok_def usize_max_def)
qed


text \<open>
  What \<open>id_room\<close> rules out: the setter accepts the largest draft length, and with it the width
  of a verification row overflows as soon as one is scheduled.
\<close>

lemma widest_draft_panics:
  "set_speculative_decoding (Some c) s = (Ok (), t) \<Longrightarrow> draft_tokens c = usize_max \<Longrightarrow>
     schedule_verify t = (Panic, t)"
  by (auto simp: set_speculative_decoding_def schedule_verify_def checked_add_def split: if_splits)

lemma widest_draft_accepted:
  "set_speculative_decoding (Some \<lparr>draft_tokens = usize_max, ngram_size = 1\<rparr>) s
     = (Ok (), s\<lparr>speculative := Some \<lparr>draft_tokens = usize_max, ngram_size = 1\<rparr>\<rparr>)"
  by (simp add: set_speculative_decoding_def usize_max_def)

text \<open>
  C6: A scheduled batch is never empty and never exceeds the token budget; its rows belong
  to distinct active requests marked as owned by it, all have the same width, start where
  the KV cache of the request ends and stay within its capacity; a prefill row carries the
  next tokens of the history, a decode row the last generated token, a verification row
  starts with it. When nothing is scheduled nothing is reserved, and an error leaves the
  scheduler consistent. \<open>id_room\<close> is needed: see \<open>widest_draft_panics\<close> above.
\<close>

theorem schedule_sound:
  assumes "sched_inv s" and "id_room s"
  shows "case schedule chain s of
      (Ok (Some b), t) \<Rightarrow> in_flight t = Some b \<and> sb_rows b \<noteq> [] \<and> batch_size b * next_n b \<le> max_batch_tokens (cfg t)
        \<and> distinct (map sc_request (sb_rows b))
        \<and> (\<forall>r\<in>set (sb_rows b). length (sc_tokens r) = next_n b \<and> sc_context r = sc_start r + next_n b
             \<and> fst (kv_ledger (kv t)) (sc_request r) = Some (sc_start r)
             \<and> sc_context r \<le> max_sequence_length (kv_conf (kv t))
             \<and> (\<exists>a. active t (sc_request r) = Some a \<and> ac_phase a = InFlight (sb_id b)
                  \<and> row_shape (sb_kind b) a (sc_start r) (sc_tokens r)))
    | (Ok None, t) \<Rightarrow> in_flight t = None \<and> reservations (kv t) = Map.empty
    | (Err e, t) \<Rightarrow> sched_inv t
    | (Panic, t) \<Rightarrow> False"
proof (cases "schedule chain s")
  case (Pair res t)
  have w: "wp (schedule chain) (scheduled s) (\<lambda>e t. sched_inv t \<and> same_work s t \<and> in_flight t = in_flight s) s" by (rule schedule_ok [OF assms])
  show ?thesis
  proof (cases res)
    case (Ok ob)
    have sch: "scheduled s ob t" using wp_OkD [OF w] Pair Ok by blast
    show ?thesis
    proof (cases ob)
      case None
      then have i: "idle_inv t" using sch by (simp add: scheduled_def)
      have "reservations (kv t) i = None" for i
      proof -
        have "open_of t i = None" using i by (simp add: idle_inv_def)
        then show ?thesis by (simp add: kv_ledger_lookup)
      qed
      then show ?thesis using Pair Ok None i by (auto simp: idle_inv_def)
    next
      case (Some b)
      then have f: "in_flight t = Some b" "flight_inv t b" using sch by (simp_all add: scheduled_def)
      have len: "length (sc_tokens r) = next_n b" if "r \<in> set (sb_rows b)" for r
        using f(2) that by (simp add: flight_inv_def)
      have row: "row_inv (sb_kind b) (sb_id b) t r" if "r \<in> set (sb_rows b)" for r
        using f(2) that by (simp add: flight_inv_def)
      have rows: "length (sc_tokens r) = next_n b \<and> sc_context r = sc_start r + next_n b
             \<and> fst (kv_ledger (kv t)) (sc_request r) = Some (sc_start r)
             \<and> sc_context r \<le> max_sequence_length (kv_conf (kv t))
             \<and> (\<exists>a. active t (sc_request r) = Some a \<and> ac_phase a = InFlight (sb_id b)
                  \<and> row_shape (sb_kind b) a (sc_start r) (sc_tokens r))" if r: "r \<in> set (sb_rows b)" for r
        using row [OF r] len [OF r] by (simp add: row_inv_def kv_cap_def)
      have "sb_rows b \<noteq> []" "batch_size b * next_n b \<le> max_batch_tokens (cfg t)"
        "distinct (map sc_request (sb_rows b))" using f(2) by (simp_all add: flight_inv_def)
      then show ?thesis using ballI [OF rows] Pair Ok Some f(1) by simp
    qed
  next
    case (Err e)
    then show ?thesis using wp_ErrD [OF w, of e t] Pair by simp
  next
    case Panic
    then show ?thesis using wp_no_panic [OF w] Pair by simp
  qed
qed

lemma schedule_sound_witness:
  "case schedule demo_chain demo_waiting of
      (Ok (Some b), t) \<Rightarrow> batch_size b * next_n b \<le> max_batch_tokens (cfg t) \<and> map sc_tokens (sb_rows b) = [[1, 2, 3]]
    | _ \<Rightarrow> False"
proof -
  have "id_room demo_waiting" by (simp add: id_room_def demo_waiting_def demo_sched_def)
  from schedule_sound [OF demo_waiting_inv this, of demo_chain]
  have "batch_size waiting_batch * next_n waiting_batch \<le> max_batch_tokens (cfg demo_scheduled)"
    by (simp add: demo_schedules)
  then show ?thesis by (simp add: demo_schedules) (simp add: waiting_batch_def begun_row_def)
qed

text \<open>Commands that leave all the work of the scheduler as it is.\<close>

lemma quiet_command:
  assumes "sched_inv s" and "sched_pre c s"
    and "c \<in> {BSchedule, BFail bid, BLookahead n, BPrefix flag, BSpeculative spec, BLimit n}"
  shows "contents (snd (sched_step chain c s)) = contents s \<and> finished (snd (sched_step chain c s)) = finished s"
proof -
  have same: "contents (snd (m s)) = contents s \<and> finished (snd (m s)) = finished s"
    if "wp m (\<lambda>_. same_work s) (\<lambda>_. same_work s) s" for m :: "('a, unit) sched_op"
    using that by (auto simp: wp_def same_work_def split: prod.splits res.splits)
  have "wp (sched_step chain c) (\<lambda>_. same_work s) (\<lambda>_. same_work s) s"
    using assms(3)
  proof (elim insertE emptyE)
    assume c: "c = BSchedule"
    then have "id_room s" using assms(2) by simp
    then have "wp (schedule chain) (\<lambda>_. same_work s) (\<lambda>_. same_work s) s"
      by (rule wp_conseq [OF schedule_ok [OF assms(1)]]) (simp_all add: scheduled_def)
    from wp_eq [OF _ wp_ignore [OF this]] c show ?thesis by simp
  next
    assume c: "c = BFail bid"
    have "wp (fail_batch bid) (\<lambda>_. same_work s) (\<lambda>_. same_work s) s"
      using fail_batch_cases [OF assms(1), of bid] by (auto simp: wp_def failed_def)
    from wp_eq [OF _ this] c show ?thesis by simp
  next
    assume c: "c = BLookahead n"
    show ?thesis
    proof (cases "in_flight s")
      case None
      then show ?thesis using c by (simp add: wp_def)
    next
      case (Some b)
      have k: "same_work s (s\<lparr>kv := k\<rparr>)" for k by (simp add: same_work_def contents_def)
      have "wp (reserve_lookahead b n) (\<lambda>_. same_work s) (\<lambda>_. same_work s) s"
        by (rule wp_conseq [OF reserve_lookahead_ok [OF assms(1) Some]]) (use k in metis)+
      from wp_eq [OF _ wp_ignore [OF this]] c Some show ?thesis by simp
    qed
  next
    assume c: "c = BPrefix flag"
    have "wp (sched_set_prefix_caching flag) (\<lambda>_. same_work s) (\<lambda>_. same_work s) s"
      using wp_no_panic [OF prefix_caching_inv [OF assms(1)], of flag]
      by (auto simp: wp_def sched_set_prefix_caching_def on_kv_def same_work_def contents_def
          split: prod.splits res.splits)
    from wp_eq [OF _ this] c show ?thesis by simp
  next
    assume c: "c = BSpeculative spec"
    then show ?thesis by (simp add: wp_def set_speculative_decoding_def same_work_def contents_def)
  next
    assume c: "c = BLimit n"
    then show ?thesis by (simp add: wp_def set_batch_token_limit_def same_work_def contents_def)
  qed
  from same [OF this] show ?thesis .
qed

text \<open>
  C7: Scheduling (admission, preemption with recomputation, failed attempts included),
  look-ahead, failing a batch and reconfiguration never change the prompt, the
  configuration or the generated tokens of any request, lose a request or touch the
  finished queue, whether they succeed or not.
\<close>

theorem sched_work_preserved:
  assumes "sched_inv s" and "sched_pre c s"
    and "c \<in> {BSchedule, BFail bid, BLookahead n, BPrefix flag, BSpeculative spec, BLimit n}"
  shows "contents (snd (sched_step chain c s)) = contents s \<and> finished (snd (sched_step chain c s)) = finished s"
  using assms by (rule quiet_command)

lemma sched_work_preserved_witness:
  "contents (snd (sched_step demo_chain (BFail 7) demo_verify)) = contents demo_verify
   \<and> finished (snd (sched_step demo_chain (BFail 7) demo_verify)) = finished demo_verify"
  by (rule sched_work_preserved [OF demo_verify_inv, where bid = 7]) simp_all

text \<open>
  C8: The scheduling loop ends: after at most one round more than there are active requests
  it has scheduled a batch or run out of requests to preempt, so that any larger bound on
  the rounds gives the same result, and the loop of the source, which has no bound, returns
  it. As for a single round, with speculation on the row width fits \<open>usize\<close>.
\<close>

theorem schedule_loop_ends:
  assumes "idle_inv s" and "id_room s" and "Suc (card (dom (active s))) \<le> n"
  shows "fst (schedule_loop n s) \<noteq> Panic \<and> schedule_loop n s = schedule_loop (Suc (card (dom (active s)))) s"
proof -
  have base: "base_inv s" using assms(1) by (simp add: idle_inv_def)
  have "card (page_owners s) \<le> card (dom (active s))"
    using base by (intro card_mono base_finite page_owners_active)
  then have "wp (schedule_loop (Suc (card (dom (active s))))) (scheduled s) (\<lambda>e. keeps s) s"
    by (intro schedule_loop_ok [OF assms(1,2)]) simp
  note ok = wp_no_panic [OF this]
  from schedule_loop_enough [OF ok assms(3)] ok show ?thesis by simp
qed

lemma schedule_loop_ends_witness:
  "fst (schedule_loop 5 demo_sched) \<noteq> Panic
   \<and> schedule_loop 5 demo_sched = schedule_loop (Suc (card (dom (active demo_sched)))) demo_sched"
proof (rule schedule_loop_ends)
  show "idle_inv demo_sched" using demo_sched_inv by (simp add: sched_inv_def demo_sched_def)
qed (simp_all add: id_room_def demo_sched_def)

end
