(* ===== verification/BatchOutcomes.thy ===== *)
theory BatchOutcomes
  imports BatchProps
begin

text \<open>The properties of completed, verified, failed and cancelled batches and of their data.\<close>

section \<open>Completing\<close>

text \<open>
  C9: Completing a prefill or decode batch is atomic and does what the abstract row step
  says: on success exactly the rows' requests change, a chunk of a prompt goes on to its
  next chunk, every other row appends its token and then waits for the next decode or moves
  to the finished queue, in row order, and the scheduler is idle again; a wrong batch, a
  wrong number of tokens or a negative token leaves the whole scheduler as it was.
\<close>

theorem complete_batch_refines:
  assumes "sched_inv s" and "\<forall>b. in_flight s = Some b \<longrightarrow> sb_kind b \<noteq> Verify"
  shows "if completes bid toks s
    then \<exists>t b. complete_batch chain bid toks s = (Ok (), t) \<and> idle_inv t \<and> in_flight s = Some b
       \<and> (active t, finished t) = rows_result (zip (sb_rows b) toks) (active s, finished s)
       \<and> pending t = pending s \<and> cfg t = cfg s
    else \<exists>e. complete_batch chain bid toks s = (Err e, s)"
proof (cases "completes bid toks s")
  case True
  then obtain t where run: "complete_batch chain bid toks s = (Ok (), t)" and d: "completed bid toks s t"
    using complete_batch_exact [OF assms, of bid toks chain] by auto
  have t: "t = s\<lparr>in_flight := None, active := active t, kv := kv t, finished := finished t\<rparr>"
    using d unfolding completed_def by blast
  have "pending t = pending s" "cfg t = cfg s" by (subst t, simp)+
  then show ?thesis using True run d unfolding completed_def by auto
next
  case False
  then show ?thesis using complete_batch_exact [OF assms, of bid toks chain] by simp
qed

lemma demo_prefill_kind: "\<forall>b. in_flight demo_prefill = Some b \<longrightarrow> sb_kind b \<noteq> Verify"
  by (simp add: demo_prefill_def)

lemma demo_prefill_completes: "completes 7 [5] demo_prefill"
  by (simp add: completes_def demo_prefill_def)

lemma complete_batch_refines_witness:
  "\<exists>t. complete_batch demo_chain 7 [5] demo_prefill = (Ok (), t) \<and> active t = Map.empty
     \<and> finished t = [\<lparr>fg_request = 1, fg_prompt = [1, 2, 3, 4, 5, 6, 7], fg_generated = [5], fg_eos = False\<rparr>]"
proof -
  have "rows_result (zip [demo_row [4, 5, 6, 7]] [5]) (active demo_prefill, finished demo_prefill)
      = (Map.empty, [\<lparr>fg_request = 1, fg_prompt = [1, 2, 3, 4, 5, 6, 7], fg_generated = [5], fg_eos = False\<rparr>])"
    by (simp add: demo_prefill_def demo_row_def demo_request_def row_result_def ends_def as_finished_def)
  then show ?thesis
    using complete_batch_refines [OF demo_prefill_inv demo_prefill_kind, of 7 "[5]" demo_chain] demo_prefill_completes
    by (auto simp: demo_prefill_def)
qed

lemma complete_batch_finishes:
  assumes "sched_inv s" and "\<forall>b. in_flight s = Some b \<longrightarrow> sb_kind b \<noteq> Verify"
    and "complete_batch chain bid toks s = (Ok (), t)"
  shows "\<exists>fs. finished t = finished s @ fs \<and> (\<forall>f\<in>set fs. \<exists>g made new. fg_generated f = made @ new \<and> new \<noteq> []
      \<and> contents s (fg_request f) = Some (g, fg_prompt f, made) \<and> well_ended g f)"
proof -
  obtain b where b: "in_flight s = Some b" "length toks = length (sb_rows b)"
    "(active t, finished t) = rows_result (zip (sb_rows b) toks) (active s, finished s)"
    using complete_batch_cases [OF assms(1,2), of chain bid toks] assms(3) by (auto simp: completed_def)
  have fl: "flight_inv s b" using assms(1) b(1) by (simp add: sched_inv_def)
  have "map (sc_request \<circ> fst) (zip (sb_rows b) toks) = map sc_request (map fst (zip (sb_rows b) toks))" by simp
  then have d: "distinct (map (sc_request \<circ> fst) (zip (sb_rows b) toks))"
    using fl b(2) by (simp only: map_fst_zip) (simp add: flight_inv_def)
  have "\<exists>a. active s (sc_request (fst rt)) = Some a \<and> request_ok (kv_cap (kv s)) a"
    if "rt \<in> set (zip (sb_rows b) toks)" for rt
  proof -
    have r: "fst rt \<in> set (sb_rows b)" using that set_zip_leftD [of "fst rt" "snd rt"] by (metis prod.collapse)
    obtain a where "active s (sc_request (fst rt)) = Some a" by (rule flight_row [OF fl r])
    then show ?thesis using base_request fl by (auto simp: flight_inv_def)
  qed
  then obtain fs where fs: "finished t = finished s @ fs" "\<forall>f\<in>set fs. \<exists>rt\<in>set (zip (sb_rows b) toks). \<exists>a.
       active s (sc_request (fst rt)) = Some a \<and> fg_request f = sc_request (fst rt) \<and> fg_prompt f = ac_prompt a
       \<and> fg_generated f = ac_generated a @ [snd rt] \<and> well_ended (ac_gen a) f"
    using rows_result_finished [OF d, of "active s" "kv_cap (kv s)" "finished s"] b(3) by (metis snd_conv)
  have "\<exists>g made new. fg_generated f = made @ new \<and> new \<noteq> [] \<and> contents s (fg_request f) = Some (g, fg_prompt f, made)
      \<and> well_ended g f" if f: "f \<in> set fs" for f
  proof -
    obtain rt :: "sched_seq \<times> token" and a where a: "active s (sc_request (fst rt)) = Some a" "fg_request f = sc_request (fst rt)"
      "fg_prompt f = ac_prompt a" "fg_generated f = ac_generated a @ [snd rt]" "well_ended (ac_gen a) f"
      using fs(2) f by blast
    show ?thesis using contents_active [OF a(1)] a(2-5) by auto
  qed
  then show ?thesis using fs(1) by blast
qed

lemma complete_verify_finishes:
  assumes "sched_inv s" and "complete_verify_batch chain bid argmax s = (Ok outs, t)"
  shows "\<exists>fs. finished t = finished s @ fs \<and> (\<forall>f\<in>set fs. \<exists>g made new. fg_generated f = made @ new \<and> new \<noteq> []
      \<and> contents s (fg_request f) = Some (g, fg_prompt f, made) \<and> well_ended g f)"
proof -
  obtain b rps where b: "in_flight s = Some b" "length argmax = batch_size b * next_n b"
    "rps = zip (sb_rows b) (chunks (next_n b) (batch_size b) argmax)"
    "(active t, finished t) = verified_rows rps (active s, finished s)"
    using complete_verify_cases [OF assms(1), of chain bid argmax] assms(2) unfolding verified_def by auto
  have fl: "flight_inv s b" using assms(1) b(1) by (simp add: sched_inv_def)
  note facts = verify_rows_facts [OF fl b(2,3)]
  have "\<forall>rp\<in>set rps. active s (sc_request (fst rp)) \<noteq> None" using facts(3) by fastforce
  from verified_rows_effect [OF facts(2) this, of "finished s"] obtain fs where
    fs: "finished t = finished s @ fs" "\<forall>f\<in>set fs. \<exists>rp\<in>set rps. \<exists>a. active s (sc_request (fst rp)) = Some a
       \<and> ends (verify_step rp a) \<and> f = as_finished (sc_request (fst rp)) (verify_step rp a)"
    using b(4) by (elim exE conjE) (metis prod.inject)
  have "\<exists>g made new. fg_generated f = made @ new \<and> new \<noteq> [] \<and> contents s (fg_request f) = Some (g, fg_prompt f, made)
      \<and> well_ended g f" if f: "f \<in> set fs" for f
  proof -
    obtain rp a where rp: "rp \<in> set rps" "active s (sc_request (fst rp)) = Some a" "ends (verify_step rp a)"
      "f = as_finished (sc_request (fst rp)) (verify_step rp a)" using fs(2) f by blast
    then obtain cap where "request_ok cap a" "length (snd rp) = Suc (length (tl (sc_tokens (fst rp))))"
      using facts(3) [OF rp(1)] by auto
    note w = verify_step_well_ended [OF this rp(3)]
    show ?thesis
      using contents_active [OF rp(2)] w rp(4)
      by (intro exI [of _ "ac_gen a"] exI [of _ "ac_generated a"] exI [of _ "verify_result (fst rp) (snd rp) a"])
        (simp add: as_finished_def verify_step_def)
  qed
  then show ?thesis using fs(1) by blast
qed

text \<open>
  C10: Whatever command is given, whatever it returns, the finished queue only grows at its end
  (or is popped at its front), and every generation that joins it is well ended. A request that
  \<open>complete_batch\<close> or \<open>complete_verify_batch\<close> finishes keeps its prompt and its earlier output,
  followed by the new tokens; its output is not longer than \<open>max_new_tokens\<close>, contains no end
  token before its last one, is reported as stopped on an end token exactly when it ends with
  one, and otherwise has exactly \<open>max_new_tokens\<close> tokens. The only other way in is the
  submission of a request for no tokens.
\<close>

theorem finished_well_ended:
  assumes "sched_inv s" and "sched_pre c s" and "sched_step chain c s = (r, t)"
  shows "if c = BPop then finished t = tl (finished s)
    else \<exists>fs. finished t = finished s @ fs \<and> (\<forall>f\<in>set fs.
        (\<exists>g made new. fg_generated f = made @ new \<and> new \<noteq> []
           \<and> contents s (fg_request f) = Some (g, fg_prompt f, made) \<and> well_ended g f)
      \<or> (\<exists>g smp. c = BSubmit (fg_prompt f) g smp \<and> max_new_tokens g = 0 \<and> fg_generated f = [] \<and> \<not> fg_eos f))"
proof -
  have same: ?thesis if "finished t = finished s" "c \<noteq> BPop" using that by simp
  have quiet: "finished t = finished s"
    if "c \<in> {BSchedule, BFail bid, BLookahead n, BPrefix flag, BSpeculative spec, BLimit n}" for bid n flag spec
    using quiet_command [OF assms(1,2) that, of chain] assms(3) by simp
  show ?thesis
  proof (cases c)
    case (BSubmit prompt g smp)
    have "finished t = finished s \<or> max_new_tokens g = 0 \<and> finished t = finished s @
        [\<lparr>fg_request = next_request s, fg_prompt = prompt, fg_generated = [], fg_eos = False\<rparr>]"
      using assms(3) BSubmit
      by (auto simp: ignore_def bind_op_def submit_with_sampler_def Let_def split: if_splits option.splits)
    then show ?thesis using BSubmit by auto
  next
    case (BComplete bid toks)
    have "\<forall>b. in_flight s = Some b \<longrightarrow> sb_kind b \<noteq> Verify" using assms(2) BComplete by simp
    note ok = complete_batch_cases [OF assms(1) this, of chain bid toks] complete_batch_finishes [OF assms(1) this]
    have run: "complete_batch chain bid toks s = (r, t)" using assms(3) BComplete by simp
    from ok(1) show ?thesis
    proof (elim disjE exE conjE)
      fix e assume "complete_batch chain bid toks s = (Err e, s)"
      then show ?thesis using run by (intro same) (simp_all add: BComplete)
    next
      fix u assume "complete_batch chain bid toks s = (Ok (), u)"
      then have "complete_batch chain bid toks s = (Ok (), t)" using run by simp
      from ok(2) [OF this] show ?thesis unfolding BComplete by fastforce
    qed
  next
    case (BVerify bid argmax)
    have run: "ignore (complete_verify_batch chain bid argmax) s = (r, t)" using assms(3) BVerify by simp
    from complete_verify_cases [OF assms(1), of chain bid argmax] show ?thesis
    proof (elim disjE exE conjE)
      fix e assume "complete_verify_batch chain bid argmax s = (Err e, s)"
      then show ?thesis using run by (intro same) (simp_all add: BVerify)
    next
      fix outs u assume "complete_verify_batch chain bid argmax s = (Ok outs, u)"
      then have "complete_verify_batch chain bid argmax s = (Ok outs, t)" using run by simp
      from complete_verify_finishes [OF assms(1) this] show ?thesis unfolding BVerify by fastforce
    qed
  next
    case (BCancel rid)
    have "wp (cancel rid) (\<lambda>_ t. finished t = finished s) (\<lambda>_ t. finished t = finished s) s"
      by (rule wp_conseq [OF cancel_ok [OF assms(1)]]) (simp_all add: cancelled_def)
    from wp_ignore [OF this] show ?thesis
      using assms(3) BCancel by (intro same) (auto simp: wp_def split: res.splits)
  next
    case BPop
    then show ?thesis using assms(3) by (auto simp: pop_finished_def split: list.splits)
  qed (use quiet in \<open>auto intro!: same\<close>)
qed

lemma finished_well_ended_witness:
  "\<exists>t fs. complete_batch demo_chain 7 [5] demo_prefill = (Ok (), t) \<and> finished t = finished demo_prefill @ fs
     \<and> list_all (\<lambda>f. \<exists>g made new. fg_generated f = made @ new
         \<and> contents demo_prefill (fg_request f) = Some (g, fg_prompt f, made) \<and> well_ended g f) fs"
proof -
  obtain t where t: "complete_batch demo_chain 7 [5] demo_prefill = (Ok (), t)"
    using complete_batch_exact [OF demo_prefill_inv demo_prefill_kind, of 7 "[5]" demo_chain] demo_prefill_completes
    by auto
  have "sched_step demo_chain (BComplete 7 [5]) demo_prefill = (Ok (), t)" using t by simp
  moreover have "sched_pre (BComplete 7 [5]) demo_prefill" using demo_prefill_kind by simp
  ultimately show ?thesis
    using finished_well_ended [OF demo_prefill_inv, of "BComplete 7 [5]" demo_chain "Ok ()" t] t
    by (auto simp: list_all_iff) blast
qed

section \<open>Speculative decoding\<close>

text \<open>
  C11: Speculative decoding is greedy decoding: if the device returns, for every row of a
  verification batch, the greedy prediction after each prefix of the row's input, then the
  batch completes and appends to every request of the batch exactly the tokens plain greedy
  decoding produces from the request's history (as many, up to the end of the request). A
  request that ends with them leaves with its prompt and all its output for the finished queue,
  any other one stays active with them at the end of its output and of its history and its last
  token awaiting the next decode. Nothing else joins the queue, and no other request changes.
\<close>

theorem speculative_is_greedy:
  assumes "sched_inv s" and "in_flight s = Some b" and "sb_kind b = Verify"
    and "length argmax = batch_size b * next_n b"
    and "\<forall>(r, ps)\<in>set (zip (sb_rows b) (chunks (next_n b) (batch_size b) argmax)).
      predicts model (ac_history (the (active s (sc_request r)))) (tl (sc_tokens r)) ps"
  shows "\<exists>outs t fs. complete_verify_batch chain (sb_id b) argmax s = (Ok outs, t) \<and> idle_inv t
    \<and> map fst outs = map sc_request (sb_rows b) \<and> finished t = finished s @ fs \<and> pending t = pending s
    \<and> (\<forall>(rid, out)\<in>set outs. \<exists>a. active s rid = Some a \<and> out \<noteq> []
        \<and> out = greedy_decode model (set (eos_token_ids (ac_gen a)))
                  (max_new_tokens (ac_gen a) - length (ac_generated a)) (ac_prompt a @ ac_generated a) (length out)
        \<and> (if last out \<in> set (eos_token_ids (ac_gen a)) \<or> max_new_tokens (ac_gen a) \<le> length (ac_generated a @ out)
           then active t rid = None
             \<and> \<lparr>fg_request = rid, fg_prompt = ac_prompt a, fg_generated = ac_generated a @ out,
                  fg_eos = (last out \<in> set (eos_token_ids (ac_gen a)))\<rparr> \<in> set fs
           else active t rid = Some (a\<lparr>ac_generated := ac_generated a @ out, ac_history := ac_history a @ out,
                  ac_phase := AwaitingDecode (last out)\<rparr>)))
    \<and> (\<forall>f\<in>set fs. fg_request f \<in> fst ` set outs)
    \<and> (\<forall>rid. rid \<notin> fst ` set outs \<longrightarrow> active t rid = active s rid)"
proof -
  define rps where "rps = zip (sb_rows b) (chunks (next_n b) (batch_size b) argmax)"
  have "verifies (sb_id b) argmax s" using assms(2-4) by (simp add: verifies_def)
  then obtain outs t where run: "complete_verify_batch chain (sb_id b) argmax s = (Ok outs, t)" "idle_inv t"
    and outs: "outs = map (\<lambda>(r, ps). (sc_request r, verify_result r ps (the (active s (sc_request r))))) rps"
    and res: "(active t, finished t) = verified_rows rps (active s, finished s)"
    and t: "t = s\<lparr>in_flight := None, active := active t, kv := kv t, finished := finished t,
           drafted := drafted t, accepted := accepted t\<rparr>"
    using complete_verify_exact [OF assms(1), of "sb_id b" argmax chain] assms(2) by (auto simp: verified_def rps_def)
  have f: "flight_inv s b" using assms(1,2) by (simp add: sched_inv_def)
  note facts = verify_rows_facts [OF f assms(4) rps_def]
  have ids: "map fst outs = map sc_request (map fst rps)" by (simp add: outs split_def)
  then have rows: "map fst outs = map sc_request (sb_rows b)" by (simp add: facts(1))
  have touched: "fst ` set outs = (sc_request \<circ> fst) ` set rps"
    using arg_cong [OF ids, of set] by (simp add: image_image)
  have "\<forall>rp\<in>set rps. active s (sc_request (fst rp)) \<noteq> None" using facts(3) by fastforce
  from verified_rows_effect [OF facts(2) this, of "finished s"] res obtain fs where
    fin: "finished t = finished s @ fs"
    and other: "\<forall>rid. rid \<notin> (sc_request \<circ> fst) ` set rps \<longrightarrow> active t rid = active s rid"
    and row: "\<forall>rp\<in>set rps. \<forall>a. active s (sc_request (fst rp)) = Some a \<longrightarrow>
         (if ends (verify_step rp a)
          then active t (sc_request (fst rp)) = None \<and> as_finished (sc_request (fst rp)) (verify_step rp a) \<in> set fs
          else active t (sc_request (fst rp)) = Some ((verify_step rp a)
                 \<lparr>ac_phase := AwaitingDecode (last (verify_result (fst rp) (snd rp) a))\<rparr>))"
    and new: "\<forall>f\<in>set fs. \<exists>rp\<in>set rps. \<exists>a. active s (sc_request (fst rp)) = Some a \<and> ends (verify_step rp a)
         \<and> f = as_finished (sc_request (fst rp)) (verify_step rp a)"
    by (elim exE conjE) (metis prod.inject)
  have "\<exists>a. active s rid = Some a \<and> out \<noteq> []
        \<and> out = greedy_decode model (set (eos_token_ids (ac_gen a)))
                  (max_new_tokens (ac_gen a) - length (ac_generated a)) (ac_prompt a @ ac_generated a) (length out)
        \<and> (if last out \<in> set (eos_token_ids (ac_gen a)) \<or> max_new_tokens (ac_gen a) \<le> length (ac_generated a @ out)
           then active t rid = None
             \<and> \<lparr>fg_request = rid, fg_prompt = ac_prompt a, fg_generated = ac_generated a @ out,
                  fg_eos = (last out \<in> set (eos_token_ids (ac_gen a)))\<rparr> \<in> set fs
           else active t rid = Some (a\<lparr>ac_generated := ac_generated a @ out, ac_history := ac_history a @ out,
                  ac_phase := AwaitingDecode (last out)\<rparr>))"
    if mem: "(rid, out) \<in> set outs" for rid out
  proof -
    obtain rp where rp: "rp \<in> set rps" "rid = sc_request (fst rp)"
      "out = verify_result (fst rp) (snd rp) (the (active s rid))" using mem unfolding outs by auto
    obtain a where a: "active s rid = Some a" "request_ok (kv_cap (kv s)) a" using facts(3) [OF rp(1)] rp(2) by auto
    have out: "out = verify_result (fst rp) (snd rp) a" using rp(3) a(1) by simp
    have p: "predicts model (ac_history a) (tl (sc_tokens (fst rp))) (snd rp)"
      using assms(5) rp(1,2) a(1) unfolding rps_def [symmetric] by fastforce
    have lim: "0 < max_new_tokens (ac_gen a) - length (ac_generated a)" using a(2) by (simp add: request_ok_def)
    have h: "ac_history a = ac_prompt a @ ac_generated a" "ac_eos a = set (eos_token_ids (ac_gen a))"
      using a(2) unfolding request_ok_def by blast+
    have greedy: "out \<noteq> []" "out = greedy_decode model (set (eos_token_ids (ac_gen a)))
        (max_new_tokens (ac_gen a) - length (ac_generated a)) (ac_prompt a @ ac_generated a) (length out)"
      using verify_row_greedy [OF p lim, of "ac_eos a"] by (auto simp: out verify_result_def h)
    have ends: "ends (verify_step rp a) \<longleftrightarrow> last out \<in> set (eos_token_ids (ac_gen a))
        \<or> max_new_tokens (ac_gen a) \<le> length (ac_generated a @ out)"
      using greedy(1) by (simp add: ends_def verify_step_def out h(2))
    have fe: "as_finished rid (verify_step rp a) = \<lparr>fg_request = rid, fg_prompt = ac_prompt a,
        fg_generated = ac_generated a @ out, fg_eos = (last out \<in> set (eos_token_ids (ac_gen a)))\<rparr>"
      using greedy(1) by (simp add: as_finished_def verify_step_def out h(2))
    have se: "(verify_step rp a)\<lparr>ac_phase := AwaitingDecode (last (verify_result (fst rp) (snd rp) a))\<rparr>
        = a\<lparr>ac_generated := ac_generated a @ out, ac_history := ac_history a @ out, ac_phase := AwaitingDecode (last out)\<rparr>"
      by (simp add: verify_step_def extended_def out)
    have "active s (sc_request (fst rp)) = Some a" using a(1) rp(2) by simp
    note settled_row = row [rule_format, OF rp(1) this, folded rp(2), unfolded ends fe se]
    show ?thesis by (rule exI [of _ a], intro conjI) (rule a(1), rule greedy, rule greedy, rule settled_row)
  qed
  note each_row = this
  have "fg_request f \<in> fst ` set outs" if f: "f \<in> set fs" for f
  proof -
    obtain rp a where "rp \<in> set rps" "active s (sc_request (fst rp)) = Some a" "f = as_finished (sc_request (fst rp)) (verify_step rp a)" using bspec [OF new f] by blast
    then show ?thesis unfolding touched by (simp add: as_finished_def)
  qed
  moreover have "pending t = pending s" by (subst t) simp
  ultimately show ?thesis
    using run rows fin other each_row unfolding touched [symmetric]
    by (intro exI [of _ outs] exI [of _ t] exI [of _ fs] conjI ballI) (assumption | clarify)+
qed

text \<open>A model that always answers 13: the draft 12 is rejected at once.\<close>

lemma speculative_is_greedy_witness:
  "\<exists>outs t. complete_verify_batch demo_chain 7 [13, 13, 13, 13] demo_verify = (Ok outs, t) \<and> map fst outs = [1]
    \<and> list_all (\<lambda>(rid, out). out = greedy_decode (\<lambda>_. 13) {99} 4 [12, 11, 12, 13] (length out)) outs"
proof -
  let ?b = "\<lparr>sb_id = 7, sb_kind = Verify, sb_rows = [demo_row [13, 12, 13, 12]]\<rparr>"
  have b: "in_flight demo_verify = Some ?b" by (simp add: demo_verify_def)
  have len: "length [13, 13, 13, 13 :: token] = batch_size ?b * next_n ?b"
    by (simp add: batch_size_def next_n_def demo_row_def)
  have all: "\<forall>i<length [13, 13, 13, 13 :: token]. [13, 13, 13, 13] ! i = (13 :: token)"
    by (simp add: less_Suc_eq)
  have "predicts (\<lambda>_. 13) h [12, 13, 12] [13, 13, 13, 13]" for h
    using all by (simp add: predicts_def)
  then have p: "\<forall>(r, ps)\<in>set (zip (sb_rows ?b) (chunks (next_n ?b) (batch_size ?b) [13, 13, 13, 13])).
      predicts (\<lambda>_. 13) (ac_history (the (active demo_verify (sc_request r)))) (tl (sc_tokens r)) ps"
    by (simp add: batch_size_def next_n_def demo_row_def)
  from speculative_is_greedy [OF demo_verify_inv b _ len p, of demo_chain] show ?thesis
    by (auto simp: list_all_iff demo_verify_def demo_request_def demo_row_def)
qed

section \<open>Failing and cancelling\<close>

text \<open>
  C12: Failing the batch in flight undoes it: its reservations are cancelled, the KV cache
  keeps the committed length of every request, each request of the batch is back in the
  phase it was scheduled from (a prefill chunk waits for prefill again, a decode or
  verification row for its own token), nothing else changes, and the scheduler is idle. Any
  other batch identifier is refused without effect.
\<close>

theorem fail_batch_restores:
  assumes "sched_inv s"
  shows "if map_option sb_id (in_flight s) = Some bid
    then \<exists>t b. fail_batch bid s = (Ok (), t) \<and> in_flight s = Some b \<and> idle_inv t \<and> reservations (kv t) = Map.empty
       \<and> fst (kv_ledger (kv t)) = fst (kv_ledger (kv s)) \<and> contents t = contents s \<and> finished t = finished s
       \<and> (\<forall>rid. rid \<notin> sc_request ` set (sb_rows b) \<longrightarrow> active t rid = active s rid)
       \<and> (\<forall>r\<in>set (sb_rows b). active t (sc_request r) = map_option (\<lambda>a. a\<lparr>ac_phase :=
            (if sb_kind b = Prefill then NeedsPrefill else AwaitingDecode (hd (sc_tokens r)))\<rparr>) (active s (sc_request r)))
    else \<exists>e. fail_batch bid s = (Err e, s)"
proof (cases "map_option sb_id (in_flight s) = Some bid")
  case True
  then obtain t where run: "fail_batch bid s = (Ok (), t)" and fl: "failed bid s t"
    using fail_batch_exact [OF assms, of bid] by auto
  have "reservations (kv t) i = None" for i
  proof -
    have "open_of t i = None" using fl by (simp add: failed_def idle_inv_def)
    then show ?thesis by (simp add: kv_ledger_lookup)
  qed
  then have "reservations (kv t) = Map.empty" by (simp add: fun_eq_iff)
  then show ?thesis using True run fl unfolding failed_def same_work_def restored_def by auto
next
  case False
  then show ?thesis using fail_batch_exact [OF assms, of bid] by (simp only: if_False)
qed

lemma fail_batch_restores_witness:
  "\<exists>t. fail_batch 7 demo_verify = (Ok (), t) \<and> idle_inv t \<and> reservations (kv t) = Map.empty
     \<and> map_option ac_phase (active t 1) = Some (AwaitingDecode 13)"
  using fail_batch_restores [OF demo_verify_inv, of 7]
  by (auto simp: demo_verify_def demo_row_def)

text \<open>
  Cancelling a queued or idle request removes exactly it, returns its prompt and the
  tokens made so far, and keeps every other request and the batch in flight; an unknown
  request gives nothing; a request owned by the batch in flight is refused and the
  scheduler stays as it was.
\<close>

theorem cancel_exact:
  assumes "sched_inv s"
  shows "case cancel rid s of
      (Ok c, t) \<Rightarrow> sched_inv t \<and> finished t = finished s \<and> in_flight t = in_flight s
        \<and> contents t = (contents s)(rid := None)
        \<and> c = map_option (\<lambda>(g, p, ts). \<lparr>cg_request = rid, cg_prompt = p, cg_generated = ts\<rparr>) (contents s rid)
    | (Err e, t) \<Rightarrow> t = s
    | (Panic, t) \<Rightarrow> False"
  using cancel_ok [OF assms, of rid] by (auto simp: wp_def cancelled_def split: prod.splits res.splits)

lemma cancel_exact_witness:
  "case cancel 1 demo_verify of
      (Ok c, t) \<Rightarrow> contents t = (contents demo_verify)(1 := None)
    | (Err e, t) \<Rightarrow> t = demo_verify
    | (Panic, t) \<Rightarrow> False"
  using cancel_exact [OF demo_verify_inv, of 1] by (auto split: prod.splits res.splits)

text \<open>
  A submission is accepted under a fresh identifier with its prompt and configuration
  unchanged and no token made, behind every request already queued; one that asks for no
  tokens is finished at once; a refused one changes nothing, and no submission disturbs
  another request or a batch in flight.
\<close>

theorem submit_exact:
  assumes "sched_inv s"
  shows "case submit_with_sampler prompt g smp s of
      (Ok rid, t) \<Rightarrow> sched_inv t \<and> rid = next_request s \<and> contents s rid = None
        \<and> (if max_new_tokens g = 0
           then contents t = contents s \<and> finished t = finished s @ [\<lparr>fg_request = rid, fg_prompt = prompt,
                  fg_generated = [], fg_eos = False\<rparr>]
           else contents t = (contents s)(rid \<mapsto> (g, prompt, [])) \<and> finished t = finished s)
    | (Err e, t) \<Rightarrow> t = s
    | (Panic, t) \<Rightarrow> False"
proof -
  have base: "base_inv s" by (rule sched_base [OF assms])
  have "active s (next_request s) = None" using base by (cases "active s (next_request s)") (auto simp: base_inv_def)
  moreover have "next_request s \<notin> pr_id ` set (pending s)" using base by (auto simp: base_inv_def pending_ok_def)
  ultimately have "contents s (next_request s) = None" using not_queued by (auto simp: contents_at)
  then show ?thesis using submit_inv [OF assms, of prompt g smp]
    by (auto simp: wp_def split: prod.splits res.splits if_splits)
qed

lemma submit_exact_witness:
  "case submit_with_sampler [1, 2] \<lparr>max_new_tokens = 3, eos_token_ids = []\<rparr> None demo_verify of
      (Ok rid, t) \<Rightarrow> rid = 2 \<and> contents demo_verify rid = None
    | (Err e, t) \<Rightarrow> t = demo_verify
    | (Panic, t) \<Rightarrow> False"
proof -
  have "next_request demo_verify = 2" by (simp add: demo_verify_def demo_flight_def)
  then show ?thesis
    using submit_exact [OF demo_verify_inv, where prompt = "[1, 2]" and g = "\<lparr>max_new_tokens = 3, eos_token_ids = []\<rparr>" and smp = None]
    by (auto split: prod.splits res.splits)
qed

section \<open>Data of a batch\<close>

text \<open>
  The flattened block table is the rows' page tables, each padded with zeros to the
  longest of them, one after the other; it is refused only for a batch without a page or
  one whose size overflows, and no write of its loops is out of bounds.
\<close>

theorem flattened_table_exact:
  "flattened_block_table b =
     (let stride = table_stride b in
      if stride = 0 \<and> sb_rows b \<noteq> [] then Err NoPhysicalPage
      else if usize_max < batch_size b * stride then Err TableOverflow
      else Ok (concat (map (\<lambda>r. sc_table r @ replicate (stride - length (sc_table r)) 0) (sb_rows b)), stride))"
proof -
  have "\<forall>r\<in>set (sb_rows b). length (sc_table r) \<le> table_stride b" using stride_bound by blast
  from write_rows_eq [OF this, of "[]" 0] show ?thesis
    by (auto simp: flattened_block_table_def checked_mul_def batch_size_def Let_def padded_def comp_def)
qed

text \<open>
  The greedy token of a row of logits is the first index whose value is the greatest of
  those that are not NaN; a row of NaN values only, and an index that does not fit an
  \<open>i32\<close>, are errors.
\<close>

theorem greedy_token_first_max:
  "case greedy_token vs row of
      Ok t \<Rightarrow> \<exists>i x. t = int i \<and> i \<le> i32_max \<and> i < length vs \<and> vs ! i = Some x
        \<and> list_all (\<lambda>j. case vs ! j of None \<Rightarrow> True | Some y \<Rightarrow> if j < i then y < x else y \<le> x) [0..<length vs]
    | Err e \<Rightarrow> if list_all (\<lambda>v. v = None) vs then e = AllNaN row else e = IndexAboveI32 \<and> i32_max < length vs
    | Panic \<Rightarrow> False"
proof -
  have best: "best_of vs (greedy_scan 0 vs None)" using greedy_scan_best [of "[]" None vs] by (simp add: best_of_def)
  show ?thesis
  proof (cases "greedy_scan 0 vs None")
    case None
    then show ?thesis using best by (simp add: greedy_token_def best_of_def list_all_iff)
  next
    case (Some p)
    obtain i x where p: "p = (i, x)" by (cases p)
    have i: "i < length vs" "vs ! i = Some x" and all: "\<And>j y. j < length vs \<Longrightarrow> vs ! j = Some y \<Longrightarrow> y \<le> x \<and> (j < i \<longrightarrow> y < x)"
      using best Some p by (auto simp: best_of_def)
    show ?thesis
    proof (cases "i > i32_max")
      case True
      have "vs ! i \<in> set vs" using i(1) by simp
      then have "\<not> list_all (\<lambda>v. v = None) vs" using i(2) by (auto simp: list_all_iff)
      then show ?thesis using Some p True i(1) by (simp add: greedy_token_def)
    next
      case False
      then show ?thesis using Some p i all by (auto simp: greedy_token_def list_all_iff split: option.splits)
    qed
  qed
qed

text \<open>
  The draft is what followed an earlier occurrence of the end of the history: of the
  longest end (of at most \<open>n\<close> tokens) that occurs earlier, and of its occurrences the most
  recent one, at most \<open>d\<close> tokens; it is empty exactly when no end recurs.
\<close>

theorem ngram_draft_exact:
  assumes "0 < d" and "length h + d \<le> usize_max"
  shows "if \<exists>p. recurs h n p
    then \<exists>m st. recurs h n (m, st) \<and> (\<forall>p. recurs h n p \<longrightarrow> p = (m, st) \<or> before (m, st) p)
       \<and> ngram_draft h n d = Ok (take d (drop (st + m) h)) \<and> ngram_draft h n d \<noteq> Ok []
    else ngram_draft h n d = Ok []"
proof (cases "\<exists>p. recurs h n p")
  case True
  let ?S = "{p. recurs h n p}"
  have "finite ?S" by (rule finite_subset [of _ "{..n} \<times> {..length h}"]) (auto simp: recurs_def)
  then obtain q where q: "recurs h n q" "\<forall>p. recurs h n p \<longrightarrow> p = q \<or> before q p"
    using greatest_before [of ?S] True by auto
  obtain m st where mst: "q = (m, st)" by (cases q)
  have "ngram_draft h n d \<noteq> Ok []" using ngram_search(1) [OF assms, of n] True by blast
  then show ?thesis using True q ngram_search(2) [OF assms, of n m st] mst by auto
next
  case False
  then show ?thesis using ngram_search(1) [OF assms, of n] by auto
qed

lemma ngram_draft_exact_witness:
  "recurs [5, 6, 7, 5, 6] 2 (2, 0) \<and> ngram_draft [5, 6, 7, 5, 6] 2 2 = Ok [7, 5]"
proof -
  have r: "recurs [5, 6, 7, 5, 6] 2 (2, 0)" by (simp add: recurs_def)
  moreover have "(m, st) = (2, 0)" if p: "recurs [5, 6, 7, 5, 6] 2 (m, st)" "(2, 0) = (m, st) \<or> before (m, st) (2, 0)" for m st
  proof -
    have "m \<le> 2" "st + m < 5" using p(1) by (auto simp: recurs_def)
    then have "m = 2 \<and> (st = 0 \<or> st = 1 \<or> st = 2)" using p(2) by (auto simp: before_def)
    then show ?thesis using p(1) by (auto simp: recurs_def)
  qed
  moreover obtain m st where "recurs [5, 6, 7, 5, 6] 2 (m, st)"
    "\<forall>p. recurs [5, 6, 7, 5, 6] 2 p \<longrightarrow> p = (m, st) \<or> before (m, st) p"
    "ngram_draft [5, 6, 7, 5, 6] 2 2 = Ok (take 2 (drop (st + m) [5, 6, 7, 5, 6]))"
    using ngram_draft_exact [of 2 "[5, 6, 7, 5, 6]" 2] r by (auto simp: usize_max_def split: if_splits)
  ultimately have "(m, st) = (2, 0)" by blast
  then show ?thesis using r \<open>ngram_draft _ 2 2 = _\<close> by simp
qed

end
