(* ===== verification/Runtime.thy ===== *)
theory Runtime
  imports PagedKv
begin

text \<open>
  The runtime contracts of \<open>src/src/runtime\<close>: error kinds and the recovery policy
  (\<open>error.rs\<close>), tensor layouts (\<open>shape.rs\<close>), dense KV memory and the shared budget
  (\<open>memory.rs\<close>), device capabilities (\<open>capabilities.rs\<close>), the performance guard
  (\<open>performance.rs\<close>), and the sizing of the KV cache (\<open>paged_kv.rs\<close>).

  An error is its kind, its message is dropped. \<open>u64\<close>, \<open>usize\<close> and \<open>u32\<close> are natural
  numbers with the checks of the code; \<open>usize\<close> has 64 bits, so that its conversion to \<open>u64\<close>
  never fails. Operations on \<open>f64\<close> values that the guard compares are parameters.
\<close>

section \<open>Errors and recovery\<close>

datatype runtime_error_kind =
    InvalidInput
  | Unsupported
  | DriverIncompatible
  | OutOfMemory
  | QueueFull
  | Cancelled
  | Numerical
  | DeviceLost
  | Synchronization
  | WorkerPanicked
  | Closed
  | Internal

type_synonym 'a runtime_res = "(runtime_error_kind, 'a) res"

datatype work_state = NotSubmitted | Quiescent | UnknownWork

datatype recovery_action =
    FailRequest
  | RetryWithTokenLimit nat
  | RetryPortable
  | QuarantineDevice

record recovery_policy =
  max_retries :: nat
  allow_portable :: bool

definition default_recovery :: recovery_policy where
  "default_recovery = \<lparr>max_retries = 2, allow_portable = True\<rparr>"

text \<open>The \<open>matches!\<close> of \<open>decide\<close>, which \<open>worker.rs\<close> repeats as \<open>fatal\<close>.\<close>

definition fatal :: "runtime_error_kind \<Rightarrow> bool" where
  "fatal e \<longleftrightarrow> e \<in> {DeviceLost, Synchronization, WorkerPanicked, Internal}"

definition decide ::
  "recovery_policy \<Rightarrow> runtime_error_kind \<Rightarrow> work_state \<Rightarrow> bool \<Rightarrow> nat \<Rightarrow> nat \<Rightarrow> nat \<Rightarrow> bool \<Rightarrow> recovery_action" where
  "decide p e work cache_intact attempts token_limit minimum_tokens already_portable =
     (if work = UnknownWork \<or> \<not> cache_intact \<or> fatal e then QuarantineDevice
      else if attempts \<ge> max_retries p then FailRequest
      else if e = OutOfMemory \<and> minimum_tokens > 0 \<and> token_limit > minimum_tokens
        then RetryWithTokenLimit (max (token_limit div 2) minimum_tokens)
      else if e = Unsupported \<and> allow_portable p \<and> \<not> already_portable then RetryPortable
      else FailRequest)"

section \<open>Tensor layouts\<close>

datatype tensor_dtype = F16 | BF16 | F32 | F64 | I8 | I4

fun dtype_bits :: "tensor_dtype \<Rightarrow> nat" where
  "dtype_bits F16 = 16" | "dtype_bits BF16 = 16" | "dtype_bits F32 = 32"
| "dtype_bits F64 = 64" | "dtype_bits I8 = 8" | "dtype_bits I4 = 4"

definition dtype_storage_bytes :: "tensor_dtype \<Rightarrow> nat \<Rightarrow> nat runtime_res" where
  "dtype_storage_bytes t elements =
     (case checked_mul elements (dtype_bits t) of
        None \<Rightarrow> Err InvalidInput
      | Some bits \<Rightarrow> Ok (bits div 8 + (if bits mod 8 \<noteq> 0 then 1 else 0)))"

definition is_float :: "tensor_dtype \<Rightarrow> bool" where
  "is_float t \<longleftrightarrow> t \<in> {F16, BF16, F32, F64}"

record tensor_layout =
  shape :: "nat list"
  strides :: "nat list"
  offset_elements :: nat

fun mul_all :: "nat \<Rightarrow> nat list \<Rightarrow> nat option" where
  "mul_all n [] = Some n"
| "mul_all n (d # ds) = (case checked_mul n d of None \<Rightarrow> None | Some m \<Rightarrow> mul_all m ds)"

definition elements :: "tensor_layout \<Rightarrow> nat runtime_res" where
  "elements l =
     (if 0 \<in> set (shape l) then Ok 0
      else case mul_all 1 (shape l) of None \<Rightarrow> Err InvalidInput | Some n \<Rightarrow> Ok n)"

text \<open>The offset of the last element: \<open>(d - 1) * s\<close> for every dimension.\<close>

fun last_offset :: "nat \<Rightarrow> (nat \<times> nat) list \<Rightarrow> nat option" where
  "last_offset n [] = Some n"
| "last_offset n ((d, s) # rest) =
     (case checked_mul (d - 1) s of None \<Rightarrow> None
      | Some span \<Rightarrow> (case checked_add n span of None \<Rightarrow> None | Some m \<Rightarrow> last_offset m rest))"

definition storage_span_elements :: "tensor_layout \<Rightarrow> nat runtime_res" where
  "storage_span_elements l =
     (if 0 \<in> set (shape l) then Ok 0
      else case last_offset (offset_elements l) (zip (shape l) (strides l)) of
        None \<Rightarrow> Err InvalidInput
      | Some m \<Rightarrow> (case checked_add m 1 of None \<Rightarrow> Err InvalidInput | Some n \<Rightarrow> Ok n))"

definition layout_new :: "nat list \<Rightarrow> nat list \<Rightarrow> nat \<Rightarrow> tensor_layout runtime_res" where
  "layout_new sh st off =
     (if length sh \<noteq> length st then Err InvalidInput
      else let l = \<lparr>shape = sh, strides = st, offset_elements = off\<rparr> in
        case elements l of Err e \<Rightarrow> Err e | Panic \<Rightarrow> Panic | Ok _ \<Rightarrow>
        case storage_span_elements l of Err e \<Rightarrow> Err e | Panic \<Rightarrow> Panic | Ok _ \<Rightarrow> Ok l)"

text \<open>The strides from the last dimension to the first, with the stride left over.\<close>

fun contiguous_strides :: "nat list \<Rightarrow> (nat list \<times> nat) option" where
  "contiguous_strides [] = Some ([], 1)"
| "contiguous_strides (d # ds) =
     (case contiguous_strides ds of None \<Rightarrow> None
      | Some (ss, stride) \<Rightarrow> (case checked_mul stride d of None \<Rightarrow> None | Some n \<Rightarrow> Some (stride # ss, n)))"

definition contiguous :: "nat list \<Rightarrow> tensor_layout runtime_res" where
  "contiguous sh =
     (if 0 \<in> set sh then layout_new sh (replicate (length sh) 0) 0
      else case contiguous_strides sh of None \<Rightarrow> Err InvalidInput | Some (ss, _) \<Rightarrow> layout_new sh ss 0)"

definition layout_storage_bytes :: "tensor_layout \<Rightarrow> tensor_dtype \<Rightarrow> nat runtime_res" where
  "layout_storage_bytes l t =
     (case storage_span_elements l of
        Ok n \<Rightarrow> dtype_storage_bytes t n | Err e \<Rightarrow> Err e | Panic \<Rightarrow> Panic)"

fun contiguous_from :: "nat \<Rightarrow> (nat \<times> nat) list \<Rightarrow> bool" where
  "contiguous_from expected [] = True"
| "contiguous_from expected ((d, s) # rest) =
     (if d > 1 \<and> s \<noteq> expected then False
      else case checked_mul expected d of None \<Rightarrow> False | Some nxt \<Rightarrow> contiguous_from nxt rest)"

definition is_contiguous :: "tensor_layout \<Rightarrow> bool" where
  "is_contiguous l \<longleftrightarrow> 0 \<in> set (shape l) \<or> contiguous_from 1 (rev (zip (shape l) (strides l)))"

definition validate_storage :: "tensor_layout \<Rightarrow> tensor_dtype \<Rightarrow> nat \<Rightarrow> unit runtime_res" where
  "validate_storage l t available =
     (case layout_storage_bytes l t of
        Ok n \<Rightarrow> if n > available then Err InvalidInput else Ok () | Err e \<Rightarrow> Err e | Panic \<Rightarrow> Panic)"

record attention_shape =
  at_batch :: nat
  query_heads :: nat
  kv_heads :: nat
  query_tokens :: nat
  cached_tokens :: nat
  head_dimension :: nat

definition attention_validate :: "attention_shape \<Rightarrow> unit runtime_res" where
  "attention_validate a =
     (if 0 \<in> {at_batch a, query_heads a, kv_heads a, query_tokens a, cached_tokens a, head_dimension a}
         \<or> query_heads a mod kv_heads a \<noteq> 0 \<or> query_tokens a > cached_tokens a
      then Err InvalidInput
      else case contiguous [at_batch a, query_heads a, query_tokens a, head_dimension a] of
        Err e \<Rightarrow> Err e | Panic \<Rightarrow> Panic | Ok _ \<Rightarrow>
        case contiguous [at_batch a, kv_heads a, cached_tokens a, head_dimension a] of
        Err e \<Rightarrow> Err e | Panic \<Rightarrow> Panic | Ok _ \<Rightarrow> Ok ())"

section \<open>KV memory and the budget\<close>

record kv_geometry =
  ge_layers :: nat
  ge_kv_heads :: nat
  ge_head_dimension :: nat
  ge_tokens_per_page :: nat
  ge_dtype :: tensor_dtype

definition bytes_per_page :: "kv_geometry \<Rightarrow> nat runtime_res" where
  "bytes_per_page g =
     (let dims = [ge_layers g, ge_kv_heads g, ge_head_dimension g, ge_tokens_per_page g]
      in if 0 \<in> set dims \<or> \<not> is_float (ge_dtype g) then Err InvalidInput
         else case mul_all 2 dims of None \<Rightarrow> Err InvalidInput | Some n \<Rightarrow> dtype_storage_bytes (ge_dtype g) n)"

definition page_capacity :: "kv_geometry \<Rightarrow> nat \<Rightarrow> nat \<Rightarrow> nat \<Rightarrow> nat runtime_res" where
  "page_capacity g available workspace headroom =
     (case bytes_per_page g of Err e \<Rightarrow> Err e | Panic \<Rightarrow> Panic | Ok page \<Rightarrow>
        (case checked_sub available workspace of None \<Rightarrow> Err OutOfMemory | Some n \<Rightarrow>
         case checked_sub n headroom of None \<Rightarrow> Err OutOfMemory | Some usable \<Rightarrow>
           if page = 0 then Panic
           else if usable div page = 0 then Err OutOfMemory
           else Ok (min (usable div page) u32_max)))"

text \<open>\<open>PagedKvCacheConfig::from_memory_budget\<close> turns a runtime error into its own message.\<close>

datatype sizing_error = SizingRuntime runtime_error_kind | SizingKv kv_error

definition from_memory_budget :: "kv_geometry \<Rightarrow> nat \<Rightarrow> nat \<Rightarrow> nat \<Rightarrow> nat \<Rightarrow> (sizing_error, kv_config) res" where
  "from_memory_budget g available workspace headroom max_len =
     (case page_capacity g available workspace headroom of
        Err e \<Rightarrow> Err (SizingRuntime e) | Panic \<Rightarrow> Panic
      | Ok n \<Rightarrow>
          let c = \<lparr>block_size = ge_tokens_per_page g, num_pages = n, max_sequence_length = max_len\<rparr>
          in (case config_validate c of Err e \<Rightarrow> Err (SizingKv e) | Panic \<Rightarrow> Panic | Ok _ \<Rightarrow> Ok c))"

text \<open>
  The budget behind its lock; \<open>outstanding\<close> lists the bytes of the reservations that have
  not been dropped, which the code keeps in the reservations themselves.
\<close>

record memory_budget =
  mb_limit :: nat
  mb_reserved :: nat
  mb_peak :: nat

definition budget_new :: "nat \<Rightarrow> nat \<Rightarrow> memory_budget runtime_res" where
  "budget_new capacity headroom =
     (case checked_sub capacity headroom of
        None \<Rightarrow> Err InvalidInput
      | Some n \<Rightarrow> if n > 0 then Ok \<lparr>mb_limit = n, mb_reserved = 0, mb_peak = 0\<rparr> else Err InvalidInput)"

definition try_reserve :: "nat \<Rightarrow> memory_budget \<Rightarrow> nat runtime_res \<times> memory_budget" where
  "try_reserve bytes b =
     (if bytes = 0 then (Err InvalidInput, b)
      else case checked_add (mb_reserved b) bytes of
        None \<Rightarrow> (Err OutOfMemory, b)
      | Some r \<Rightarrow>
          if r \<le> mb_limit b then (Ok bytes, b\<lparr>mb_reserved := r, mb_peak := max (mb_peak b) r\<rparr>)
          else (Err OutOfMemory, b))"

text \<open>\<open>Drop\<close> for a reservation of \<open>bytes\<close>.\<close>

definition release :: "nat \<Rightarrow> memory_budget \<Rightarrow> memory_budget" where
  "release bytes b = b\<lparr>mb_reserved := mb_reserved b - bytes\<rparr>"

section \<open>Device capabilities\<close>

datatype cuda_version = CudaVersion (encoded: nat)

instantiation cuda_version :: linorder
begin

definition less_eq_cuda_version :: "cuda_version \<Rightarrow> cuda_version \<Rightarrow> bool" where
  "less_eq_cuda_version v w \<longleftrightarrow> encoded v \<le> encoded w"

definition less_cuda_version :: "cuda_version \<Rightarrow> cuda_version \<Rightarrow> bool" where
  "less_cuda_version v w \<longleftrightarrow> encoded v < encoded w"

instance
  by standard (auto simp: less_eq_cuda_version_def less_cuda_version_def cuda_version.expand)

end

definition from_encoded :: "nat \<Rightarrow> cuda_version runtime_res" where
  "from_encoded v = (if v < 1000 \<or> v mod 10 \<noteq> 0 then Err InvalidInput else Ok (CudaVersion v))"

definition cuda_major :: "cuda_version \<Rightarrow> nat" where
  "cuda_major v = encoded v div 1000"

definition cuda_minor :: "cuda_version \<Rightarrow> nat" where
  "cuda_minor v = (encoded v mod 1000) div 10"

record cuda_requirements =
  minimum_api :: cuda_version
  minimum_ptx_api :: "cuda_version option"
  uses_ptx :: bool

definition cuda_check :: "cuda_requirements \<Rightarrow> cuda_version \<Rightarrow> unit runtime_res" where
  "cuda_check r driver =
     (if driver < minimum_api r then Err DriverIncompatible
      else if uses_ptx r then
        (case minimum_ptx_api r of
           None \<Rightarrow> Err DriverIncompatible
         | Some m \<Rightarrow> if driver < m then Err DriverIncompatible else Ok ())
      else Ok ())"

fun is_power_of_two :: "nat \<Rightarrow> bool" where
  "is_power_of_two n = (if n < 2 then n = 1 else even n \<and> is_power_of_two (n div 2))"

declare is_power_of_two.simps [simp del]

definition fixed_reduction_width :: "nat \<Rightarrow> nat \<Rightarrow> bool \<Rightarrow> bool \<Rightarrow> nat \<Rightarrow> nat \<Rightarrow> nat option" where
  "fixed_reduction_width minimum maximum reductions packed threads_x threads_block =
     (if minimum \<noteq> 0 \<and> minimum = maximum \<and> is_power_of_two minimum \<and> reductions \<and> packed
         \<and> minimum \<le> threads_x \<and> minimum \<le> threads_block
      then Some minimum else None)"

definition supports_two_lane_decode :: "nat option \<Rightarrow> nat \<Rightarrow> nat \<Rightarrow> bool" where
  "supports_two_lane_decode subgroup head_dim query_sequence \<longleftrightarrow> query_sequence = 1 \<and>
     (case subgroup of None \<Rightarrow> False | Some n \<Rightarrow> n * 2 \<le> u32_max \<and> head_dim = n * 2)"

section \<open>The performance guard\<close>

datatype kernel_mode = Automatic | Portable

record 'f guard_config =
  gc_capacity :: nat
  warmup_pairs :: nat
  measurement_pairs :: nat
  slowdown_ratio :: 'f

record 'f measurements =
  ms_seen :: nat
  ms_ratios :: "'f list"
  ms_portable :: bool

record ('k, 'f) perf_guard =
  gu_config :: "'f guard_config"
  gu_entries :: "'k \<rightharpoonup> 'f measurements"
  gu_order :: "'k list"

text \<open>\<open>usable\<close> says that the ratio is finite and above 1.\<close>

definition guard_new :: "('f \<Rightarrow> bool) \<Rightarrow> 'f guard_config \<Rightarrow> ('k, 'f) perf_guard runtime_res" where
  "guard_new usable c =
     (if gc_capacity c = 0 \<or> measurement_pairs c < 3 \<or> \<not> usable (slowdown_ratio c) then Err InvalidInput
      else Ok \<lparr>gu_config = c, gu_entries = Map.empty, gu_order = []\<rparr>)"

definition guard_mode :: "('k, 'f) perf_guard \<Rightarrow> 'k \<Rightarrow> kernel_mode" where
  "guard_mode g key =
     (case gu_entries g key of
        None \<Rightarrow> Automatic | Some e \<Rightarrow> if ms_portable e then Portable else Automatic)"

definition make_room :: "'k \<Rightarrow> ('k, 'f) perf_guard \<Rightarrow> ('k, 'f) perf_guard" where
  "make_room key g =
     (if gu_entries g key \<noteq> None then g
      else
        let g1 = (if card (dom (gu_entries g)) = gc_capacity (gu_config g)
                  then (case gu_order g of
                          [] \<Rightarrow> g
                        | old # rest \<Rightarrow> g\<lparr>gu_order := rest, gu_entries := (gu_entries g)(old := None)\<rparr>)
                  else g)
        in g1\<lparr>gu_order := gu_order g1 @ [key],
              gu_entries := (gu_entries g1)(key \<mapsto> \<lparr>ms_seen = 0, ms_ratios = [], ms_portable = False\<rparr>)\<rparr>)"

definition median :: "('f \<Rightarrow> 'f \<Rightarrow> 'f) \<Rightarrow> ('f::linorder) list \<Rightarrow> 'f" where
  "median average xs =
     (let sorted = sort xs; middle = length sorted div 2
      in if length sorted mod 2 = 0 then average (sorted ! (middle - 1)) (sorted ! middle) else sorted ! middle)"

definition add_ratio :: "('f \<Rightarrow> 'f \<Rightarrow> 'f) \<Rightarrow> 'f guard_config \<Rightarrow> 'f \<Rightarrow> ('f::linorder) measurements \<Rightarrow> 'f measurements" where
  "add_ratio average c r m =
     (let kept = (if length (ms_ratios m) = measurement_pairs c then tl (ms_ratios m) else ms_ratios m) @ [r]
      in m\<lparr>ms_ratios := kept,
           ms_portable := ms_portable m \<or> length kept = measurement_pairs c \<and> median average kept > slowdown_ratio c\<rparr>)"

text \<open>\<open>ratio optimized portable\<close> is the quotient of the durations, \<open>average\<close> the mean of two.\<close>

definition record_pair ::
  "(nat \<Rightarrow> nat \<Rightarrow> 'f) \<Rightarrow> ('f \<Rightarrow> 'f \<Rightarrow> 'f) \<Rightarrow> 'k \<Rightarrow> nat \<Rightarrow> nat \<Rightarrow> ('k, 'f::linorder) perf_guard \<Rightarrow>
     kernel_mode runtime_res \<times> ('k, 'f) perf_guard" where
  "record_pair ratio average key portable optimized g =
     (if portable = 0 \<or> optimized = 0 then (Err InvalidInput, g)
      else
        let g1 = make_room key g in
        case gu_entries g1 key of
          None \<Rightarrow> (Panic, g1)
        | Some m \<Rightarrow>
            let m1 = (if ms_seen m < warmup_pairs (gu_config g1) then m\<lparr>ms_seen := ms_seen m + 1\<rparr>
                      else add_ratio average (gu_config g1) (ratio optimized portable) m);
                g2 = g1\<lparr>gu_entries := (gu_entries g1)(key \<mapsto> m1)\<rparr>
            in (Ok (guard_mode g2 key), g2))"

definition guard_reset :: "('k, 'f) perf_guard \<Rightarrow> ('k, 'f) perf_guard" where
  "guard_reset g = g\<lparr>gu_entries := Map.empty, gu_order := []\<rparr>"

end
