(* ===== verification/RuntimeProps.thy ===== *)
theory RuntimeProps
  imports Runtime
begin

text \<open>
  What the runtime contracts promise: a validated view never reads outside its storage,
  contiguous layouts enumerate their storage, the page count of a cache fits the memory that
  is left, the logical budget is never oversubscribed, retries shrink, and the performance
  guard stays bounded.
\<close>

section \<open>Layouts\<close>

text \<open>The storage element of an index, and the indices of a shape.\<close>

definition element_at :: "tensor_layout \<Rightarrow> nat list \<Rightarrow> nat" where
  "element_at l ix = offset_elements l + sum_list (map2 (*) ix (strides l))"

definition in_shape :: "nat list \<Rightarrow> nat list \<Rightarrow> bool" where
  "in_shape ix sh \<longleftrightarrow> list_all2 (<) ix sh"

lemma mul_all_Some: "mul_all n ds = Some m \<Longrightarrow> m = n * prod_list ds"
  by (induction n ds arbitrary: m rule: mul_all.induct) (auto split: option.splits)

lemma mul_all_ok: "n * prod_list ds \<le> usize_max \<Longrightarrow> 0 \<notin> set ds \<Longrightarrow> mul_all n ds = Some (n * prod_list ds)"
proof (induction n ds rule: mul_all.induct)
  case (2 n d ds)
  then have "n * d * prod_list ds \<le> usize_max" "0 < prod_list ds"
    by (auto simp: mult.assoc prod_list_zero_iff intro: gr0I)
  then have "n * d \<le> usize_max"
    by (metis le_trans mult.right_neutral mult_le_mono2 Suc_leI One_nat_def)
  with 2 show ?case by (simp add: checked_mul_def mult.assoc)
qed simp

lemma last_offset_Some:
  "last_offset n ds = Some m \<Longrightarrow> m = n + sum_list (map (\<lambda>(d, s). (d - 1) * s) ds)"
  by (induction n ds arbitrary: m rule: last_offset.induct) (fastforce split: option.splits)+

lemma last_offset_ok:
  "n + sum_list (map (\<lambda>(d, s). (d - 1) * s) ds) \<le> usize_max \<Longrightarrow>
   last_offset n ds = Some (n + sum_list (map (\<lambda>(d, s). (d - 1) * s) ds))"
  by (induction n ds rule: last_offset.induct) (auto simp: checked_mul_def checked_add_def add.assoc)

lemma index_sum_le:
  "in_shape ix sh \<Longrightarrow> sum_list (map2 (*) ix st) \<le> sum_list (map (\<lambda>(d, s). (d - 1) * s) (zip sh st))"
  unfolding in_shape_def
proof (induction ix sh arbitrary: st rule: list_all2_induct)
  case (Cons i ix d sh)
  show ?case
  proof (cases st)
    case (Cons s ss)
    then show ?thesis using Cons.IH [of ss] Cons.hyps
      by (auto intro!: add_mono mult_le_mono1)
  qed simp
qed simp

lemma in_shape_pos: "in_shape ix sh \<Longrightarrow> 0 \<notin> set sh"
  by (auto simp: in_shape_def list_all2_conv_all_nth in_set_conv_nth)

lemma element_at_less_span:
  assumes "storage_span_elements l = Ok n" and "in_shape ix (shape l)"
  shows "element_at l ix < n"
proof -
  have "n = offset_elements l + sum_list (map (\<lambda>(d, s). (d - 1) * s) (zip (shape l) (strides l))) + 1"
    using assms(1) in_shape_pos [OF assms(2)]
    by (auto simp: storage_span_elements_def dest!: last_offset_Some split: option.splits if_splits)
  then show ?thesis
    using index_sum_le [OF assms(2), of "strides l"] by (simp add: element_at_def)
qed

lemma storage_bytes_bits: "dtype_storage_bytes t n = Ok b \<Longrightarrow> n * dtype_bits t \<le> 8 * b"
proof -
  assume "dtype_storage_bytes t n = Ok b"
  then have "b = n * dtype_bits t div 8 + (if n * dtype_bits t mod 8 \<noteq> 0 then 1 else 0)"
    by (auto simp: dtype_storage_bytes_def split: option.splits)
  then show ?thesis by (cases "n * dtype_bits t mod 8 = 0") (simp_all, presburger)
qed

text \<open>
  C26: a tensor view that \<open>validate_storage\<close> accepts stays inside its allocation: for every
  index of its shape, with any strides (holes and broadcasts included), the bits of the element
  that the index addresses end at or before the last bit that is available.
\<close>

theorem validated_view_in_bounds:
  assumes "layout_new sh st off = Ok l"
    and "validate_storage l t available = Ok ()"
    and "length ix = length sh" and "\<forall>k < length sh. ix ! k < sh ! k"
  shows "(element_at l ix + 1) * dtype_bits t \<le> 8 * available"
proof -
  have shape: "shape l = sh"
    using assms(1) by (auto simp: layout_new_def Let_def split: if_splits res.splits)
  have inside: "in_shape ix (shape l)"
    using assms(3,4) by (simp add: in_shape_def list_all2_conv_all_nth shape)
  obtain n b where n: "storage_span_elements l = Ok n" and b: "dtype_storage_bytes t n = Ok b" and le: "b \<le> available"
    using assms(2)
    by (auto simp: validate_storage_def layout_storage_bytes_def split: res.splits if_splits)
  have "(element_at l ix + 1) * dtype_bits t \<le> n * dtype_bits t"
    using element_at_less_span [OF n inside] by (intro mult_le_mono1) simp
  also have "\<dots> \<le> 8 * available" using storage_bytes_bits [OF b] le by simp
  finally show ?thesis .
qed

theorem validated_view_in_bounds_witness:
  "(element_at \<lparr>shape = [2, 3], strides = [8, 2], offset_elements = 5\<rparr> [1, 2] + 1) * dtype_bits I4 \<le> 8 * 9"
  by (rule validated_view_in_bounds [where sh = "[2, 3]" and st = "[8, 2]" and off = 5])
    (auto simp: layout_new_def elements_def storage_span_elements_def validate_storage_def Let_def
      layout_storage_bytes_def dtype_storage_bytes_def checked_mul_def checked_add_def usize_max_def less_Suc_eq)

subsection \<open>Contiguous layouts\<close>

lemma prod_list_pos: "0 \<notin> set ds \<Longrightarrow> 0 < prod_list (ds :: nat list)"
  by (auto simp: prod_list_zero_iff intro: gr0I)

lemma contiguous_strides_Some:
  "contiguous_strides ds = Some (ss, n) \<Longrightarrow>
     n = prod_list ds \<and> length ss = length ds \<and> (\<forall>k < length ds. ss ! k = prod_list (drop (Suc k) ds))"
proof (induction ds arbitrary: ss n)
  case (Cons d ds)
  then obtain ss' n' where "contiguous_strides ds = Some (ss', n')" "ss = n' # ss'" "n = n' * d"
    by (auto split: option.splits)
  with Cons.IH [of ss' n'] show ?case
    by (auto simp: nth_Cons' split: if_splits)
qed simp

lemma contiguous_span:
  "contiguous_strides ds = Some (ss, n) \<Longrightarrow> 0 \<notin> set ds \<Longrightarrow>
     sum_list (map (\<lambda>(d, s). (d - 1) * s) (zip ds ss)) + 1 = prod_list ds"
proof (induction ds arbitrary: ss n)
  case (Cons d ds)
  then obtain ss' n' where step: "contiguous_strides ds = Some (ss', n')" "ss = n' # ss'"
    by (auto split: option.splits)
  have n': "n' = prod_list ds" using contiguous_strides_Some [OF step(1)] by simp
  have "(d - 1) * n' + prod_list ds = d * prod_list ds"
    using Cons.prems(2) n' by (cases d) auto
  with Cons.IH [OF step(1)] Cons.prems(2) step(2) show ?case by simp
qed simp

lemma contiguous_from_rev:
  "contiguous_strides ds = Some (ss, n) \<Longrightarrow> contiguous_from n rest \<Longrightarrow>
     contiguous_from 1 (rev (zip ds ss) @ rest)"
proof (induction ds arbitrary: ss n rest)
  case (Cons d ds)
  then obtain ss' n' where step: "contiguous_strides ds = Some (ss', n')" "ss = n' # ss'"
      "n = n' * d" "n' * d \<le> usize_max"
    by (auto split: option.splits)
  have "contiguous_from n' ((d, n') # rest)"
    using Cons.prems(2) step by (simp add: checked_mul_def)
  from Cons.IH [OF step(1) this] show ?case using step(2) by simp
qed simp

text \<open>The index of an element in row-major order.\<close>

fun row_major :: "nat list \<Rightarrow> nat list \<Rightarrow> nat" where
  "row_major (i # ix) (d # ds) = i * prod_list ds + row_major ix ds"
| "row_major ix ds = 0"

lemma row_major_less: "in_shape ix ds \<Longrightarrow> row_major ix ds < prod_list ds"
  unfolding in_shape_def
proof (induction ix ds rule: list_all2_induct)
  case (Cons i ix d ds)
  then have "i * prod_list ds + row_major ix ds < (i + 1) * prod_list ds" by simp
  also have "\<dots> \<le> d * prod_list ds" using Cons.hyps by (intro mult_le_mono1) simp
  finally show ?case by simp
qed simp

lemma row_major_inj: "in_shape ix ds \<Longrightarrow> in_shape jx ds \<Longrightarrow> row_major ix ds = row_major jx ds \<Longrightarrow> ix = jx"
proof (induction ds arbitrary: ix jx)
  case (Cons d ds)
  then obtain i ix' j jx' where eq: "ix = i # ix'" "jx = j # jx'" and inside: "in_shape ix' ds" "in_shape jx' ds"
    by (auto simp: in_shape_def list_all2_Cons2)
  have sum: "i * prod_list ds + row_major ix' ds = j * prod_list ds + row_major jx' ds"
    using Cons.prems(3) eq by simp
  have pos: "0 < prod_list ds" using in_shape_pos [OF inside(1)] by (rule prod_list_pos)
  have "i = (i * prod_list ds + row_major ix' ds) div prod_list ds"
    using row_major_less [OF inside(1)] pos by simp
  also have "\<dots> = j" unfolding sum using row_major_less [OF inside(2)] pos by simp
  finally have "i = j" .
  with sum Cons.IH [OF inside] eq show ?case by simp
qed (simp add: in_shape_def)

lemma contiguous_element:
  "contiguous_strides ds = Some (ss, n) \<Longrightarrow> length ix = length ds \<Longrightarrow> sum_list (map2 (*) ix ss) = row_major ix ds"
proof (induction ds arbitrary: ss n ix)
  case (Cons d ds)
  then obtain ss' n' i ix' where "contiguous_strides ds = Some (ss', n')" "ss = n' # ss'" "ix = i # ix'"
    by (cases ix) (auto split: option.splits)
  with Cons.IH [of ss' n' ix'] Cons.prems contiguous_strides_Some [of ds ss' n'] show ?case by simp
qed simp

lemma contiguous_ok:
  assumes "0 \<notin> set sh" and "contiguous sh = Ok l"
  obtains ss where "contiguous_strides sh = Some (ss, prod_list sh)"
    and "l = \<lparr>shape = sh, strides = ss, offset_elements = 0\<rparr>"
  using assms contiguous_strides_Some
  by (fastforce simp: contiguous_def layout_new_def Let_def split: option.splits if_splits res.splits)

text \<open>
  \<open>contiguous\<close> builds the dense row-major layout of a shape without empty dimensions: the
  layout is recognised by \<open>is_contiguous\<close>, its storage span is its number of elements, and the
  indices of the shape address distinct elements, all of them inside the span.
\<close>

theorem contiguous_is_dense:
  assumes "contiguous sh = Ok l" and "0 \<notin> set sh"
  shows "is_contiguous l
    \<and> elements l = Ok (prod_list sh) \<and> storage_span_elements l = Ok (prod_list sh)
    \<and> inj_on (element_at l) {ix. in_shape ix sh}
    \<and> element_at l ` {ix. in_shape ix sh} \<subseteq> {..<prod_list sh}"
proof -
  obtain ss where ss: "contiguous_strides sh = Some (ss, prod_list sh)"
    and l: "l = \<lparr>shape = sh, strides = ss, offset_elements = 0\<rparr>"
    using contiguous_ok [OF assms(2,1)] .
  have at: "element_at l ix = row_major ix sh" if "in_shape ix sh" for ix
    using contiguous_element [OF ss] that l by (simp add: element_at_def in_shape_def list_all2_lengthD)
  obtain n m where okn: "elements l = Ok n" and okm: "storage_span_elements l = Ok m"
    using assms l by (auto simp: contiguous_def layout_new_def Let_def ss split: if_splits res.splits)
  have n: "n = prod_list sh"
    using okn assms(2) l by (auto simp: elements_def dest!: mul_all_Some split: option.splits)
  have m: "m = prod_list sh"
    using okm assms(2) l contiguous_span [OF ss assms(2)]
    by (auto simp: storage_span_elements_def dest!: last_offset_Some split: option.splits)
  have "is_contiguous l"
    using contiguous_from_rev [OF ss, of "[]"] l by (simp add: is_contiguous_def)
  moreover have "inj_on (element_at l) {ix. in_shape ix sh}"
    by (auto simp: inj_on_def at dest: row_major_inj)
  ultimately show ?thesis using okn okm n m row_major_less at by auto
qed

theorem contiguous_is_dense_witness:
  "is_contiguous \<lparr>shape = [2, 3, 4], strides = [12, 4, 1], offset_elements = 0\<rparr>
   \<and> element_at \<lparr>shape = [2, 3, 4], strides = [12, 4, 1], offset_elements = 0\<rparr> [1, 2, 3] = 23"
  using contiguous_is_dense [of "[2, 3, 4]" "\<lparr>shape = [2, 3, 4], strides = [12, 4, 1], offset_elements = 0\<rparr>"]
  by (simp add: contiguous_def layout_new_def elements_def storage_span_elements_def checked_mul_def
      checked_add_def usize_max_def element_at_def)


section \<open>Memory\<close>

lemma bytes_per_page_pos: "bytes_per_page g = Ok n \<Longrightarrow> 0 < n"
proof -
  assume ok: "bytes_per_page g = Ok n"
  then obtain m where m: "mul_all 2 [ge_layers g, ge_kv_heads g, ge_head_dimension g, ge_tokens_per_page g] = Some m"
    and n: "dtype_storage_bytes (ge_dtype g) m = Ok n"
    by (auto simp: bytes_per_page_def Let_def split: if_splits option.splits)
  have "0 < m" using mul_all_Some [OF m] ok by (auto simp: bytes_per_page_def split: if_splits)
  moreover have "0 < dtype_bits t" for t by (cases t) auto
  ultimately have "0 < m * dtype_bits (ge_dtype g)" by simp
  with storage_bytes_bits [OF n] show "0 < n" by linarith
qed

lemma page_capacity_Ok:
  assumes "page_capacity g available workspace headroom = Ok n"
  obtains page where "bytes_per_page g = Ok page" and "0 < page"
    and "workspace + headroom \<le> available" and "0 < n"
    and "n = min ((available - workspace - headroom) div page) u32_max"
  using assms bytes_per_page_pos [of g]
  by (auto simp: page_capacity_def u32_max_def split: res.splits option.splits if_splits)

text \<open>
  a cache sized from a memory budget is accepted by \<open>PagedKvCacheConfig::validate\<close>, its
  pages together with the workspace and the headroom fit into the available memory, and no page
  more would fit, unless the 32-bit page table is full.
\<close>

theorem sized_cache_fits:
  assumes "from_memory_budget g available workspace headroom max_len = Ok c"
  shows "config_validate c = Ok () \<and> block_size c = ge_tokens_per_page g \<and> max_sequence_length c = max_len
    \<and> (\<exists>page. bytes_per_page g = Ok page
        \<and> num_pages c * page + workspace + headroom \<le> available
        \<and> (num_pages c = u32_max \<or> available < (num_pages c + 1) * page + workspace + headroom))"
proof -
  obtain n where n: "page_capacity g available workspace headroom = Ok n"
    and c: "c = \<lparr>block_size = ge_tokens_per_page g, num_pages = n, max_sequence_length = max_len\<rparr>"
    and ok: "config_validate c = Ok ()"
    using assms by (auto simp: from_memory_budget_def Let_def split: res.splits)
  obtain page where page: "bytes_per_page g = Ok page" "0 < page" and room: "workspace + headroom \<le> available"
    and n_eq: "n = min ((available - workspace - headroom) div page) u32_max"
    using page_capacity_Ok [OF n] by metis
  define usable where "usable = available - workspace - headroom"
  have "n * page \<le> usable div page * page"
    unfolding n_eq usable_def by (intro mult_le_mono1) simp
  also have "\<dots> \<le> usable" by (rule div_times_less_eq_dividend)
  finally have fits: "n * page + workspace + headroom \<le> available" using room by (simp add: usable_def)
  have "usable < (usable div page + 1) * page"
    using page(2) by (simp add: mult.commute dividend_less_times_div)
  then have full: "n = u32_max \<or> available < (n + 1) * page + workspace + headroom"
    using n_eq room by (auto simp: usable_def min_def)
  show ?thesis using ok c page(1) fits full by simp
qed

theorem sized_cache_fits_witness:
  "\<exists>page. bytes_per_page \<lparr>ge_layers = 2, ge_kv_heads = 2, ge_head_dimension = 8, ge_tokens_per_page = 4, ge_dtype = F16\<rparr> = Ok page
     \<and> 7 * page + 100 + 50 \<le> 4000"
proof -
  let ?g = "\<lparr>ge_layers = 2, ge_kv_heads = 2, ge_head_dimension = 8, ge_tokens_per_page = 4, ge_dtype = F16\<rparr>"
  have "from_memory_budget ?g 4000 100 50 64 = Ok \<lparr>block_size = 4, num_pages = 7, max_sequence_length = 64\<rparr>"
    by (simp add: from_memory_budget_def page_capacity_def bytes_per_page_def is_float_def dtype_storage_bytes_def
        checked_mul_def checked_sub_def usize_max_def u32_max_def config_validate_def)
  from sized_cache_fits [OF this] show ?thesis by auto
qed

subsection \<open>The shared budget\<close>

text \<open>
  Clients reserve and drop: the state is the budget and the bytes of the reservations that
  are alive; \<open>Drop_reservation i\<close> drops the \<open>i\<close>-th of them.
\<close>

datatype budget_cmd = Reserve nat | Drop_reservation nat

fun budget_step :: "budget_cmd \<Rightarrow> memory_budget \<times> nat list \<Rightarrow>
    (runtime_error_kind, unit) res \<times> (memory_budget \<times> nat list)" where
  "budget_step (Reserve n) (b, alive) =
     (case try_reserve n b of
        (Ok m, b') \<Rightarrow> (Ok (), b', m # alive) | (Err e, b') \<Rightarrow> (Err e, b', alive) | (Panic, b') \<Rightarrow> (Panic, b', alive))"
| "budget_step (Drop_reservation i) (b, alive) =
     (Ok (), release (alive ! i) b, take i alive @ drop (Suc i) alive)"

fun budget_pre :: "budget_cmd \<Rightarrow> memory_budget \<times> nat list \<Rightarrow> bool" where
  "budget_pre (Reserve n) s = True"
| "budget_pre (Drop_reservation i) (b, alive) = (i < length alive)"

definition budget_ok :: "memory_budget \<times> nat list \<Rightarrow> bool" where
  "budget_ok s = (case s of (b, alive) \<Rightarrow>
     mb_reserved b = sum_list alive \<and> mb_reserved b \<le> mb_limit b \<and> mb_reserved b \<le> mb_peak b \<and> mb_peak b \<le> mb_limit b)"

lemma sum_list_remove:
  "i < length xs \<Longrightarrow> sum_list (take i xs @ drop (Suc i) xs) = sum_list xs - (xs ! i :: nat)"
proof -
  assume i: "i < length xs"
  have "sum_list xs = sum_list (take i xs @ xs ! i # drop (Suc i) xs)"
    using id_take_nth_drop [OF i] by simp
  then show ?thesis by simp
qed

interpretation budget: invariant_machine budget_step budget_ok budget_pre
proof
  fix s :: "memory_budget \<times> nat list" and c
  assume inv: "budget_ok s" and pre: "budget_pre c s"
  obtain b alive where s: "s = (b, alive)" by (cases s)
  show "wp (budget_step c) (\<lambda>_. budget_ok) (\<lambda>_. budget_ok) s"
  proof (cases c)
    case (Reserve n)
    then show ?thesis using inv s
      by (auto simp: wp_def budget_ok_def try_reserve_def add.commute max_def split: option.splits)
  next
    case (Drop_reservation i)
    then show ?thesis using inv pre s
      by (simp add: wp_def budget_ok_def release_def sum_list_remove [simplified]) linarith
  qed
qed

text \<open>
  however clients reserve and drop, the logical budget is never oversubscribed: the
  reserved bytes are the sum of the reservations that are alive, at most the limit (the
  capacity less the headroom), and the peak lies between the two.
\<close>

theorem budget_never_oversubscribed:
  assumes "budget_new capacity headroom = Ok b" and "budget.legal cs (b, [])"
    and "budget.run cs (b, []) = (b', alive)"
  shows "mb_reserved b' = sum_list alive \<and> sum_list alive \<le> mb_peak b' \<and> mb_peak b' \<le> mb_limit b'"
proof -
  have "budget_ok (b, [])"
    using assms(1) by (auto simp: budget_ok_def budget_new_def split: option.splits if_splits)
  from budget.run_inv [OF this assms(2)] show ?thesis by (simp add: assms(3) budget_ok_def)
qed

theorem budget_never_oversubscribed_witness:
  "\<exists>b alive. budget.run [Reserve 30, Reserve 60, Reserve 20, Drop_reservation 1] (\<lparr>mb_limit = 90, mb_reserved = 0, mb_peak = 0\<rparr>, []) = (b, alive)
     \<and> sum_list alive = 60 \<and> mb_reserved b = sum_list alive \<and> mb_peak b = 90"
proof -
  let ?b = "\<lparr>mb_limit = 90, mb_reserved = 0, mb_peak = 0\<rparr>"
  let ?cs = "[Reserve 30, Reserve 60, Reserve 20, Drop_reservation 1]"
  have new: "budget_new 100 10 = Ok ?b" by (simp add: budget_new_def checked_sub_def)
  have legal: "budget.legal ?cs (?b, [])"
    by (simp add: try_reserve_def checked_add_def usize_max_def)
  have run: "budget.run ?cs (?b, []) = (\<lparr>mb_limit = 90, mb_reserved = 60, mb_peak = 90\<rparr>, [60])"
    by (simp add: try_reserve_def checked_add_def usize_max_def release_def)
  show ?thesis using budget_never_oversubscribed [OF new legal run] run by auto
qed

section \<open>Recovery\<close>

text \<open>
  the recovery policy retries only when it is safe and the retries end: after a fatal
  error, with work whose state is unknown or with a damaged cache the device is quarantined,
  always and only then; a retry happens below the retry limit, a retry with a smaller limit
  strictly shrinks it and respects the minimum, and a portable retry is not repeated.
\<close>

theorem decide_is_safe:
  "(decide p e work intact attempts limit minimum portable \<noteq> QuarantineDevice)
     = (work \<in> {NotSubmitted, Quiescent} \<and> intact \<and> e \<notin> {DeviceLost, Synchronization, WorkerPanicked, Internal})
   \<and> (case decide p e work intact attempts limit minimum portable of
        RetryWithTokenLimit n \<Rightarrow> e = OutOfMemory \<and> attempts < max_retries p \<and> 0 < minimum \<and> minimum \<le> n \<and> n < limit
      | RetryPortable \<Rightarrow> e = Unsupported \<and> attempts < max_retries p \<and> allow_portable p \<and> portable = False
      | FailRequest \<Rightarrow> True
      | QuarantineDevice \<Rightarrow> True)"
  by (cases work) (auto simp: decide_def fatal_def max_def)

text \<open>Nothing but the retry limit and the guards stops a retry.\<close>

lemma decide_retries:
  "work \<in> {NotSubmitted, Quiescent} \<Longrightarrow> intact \<Longrightarrow> attempts < max_retries p \<Longrightarrow> 0 < minimum \<Longrightarrow> minimum < limit \<Longrightarrow>
     decide p OutOfMemory work intact attempts limit minimum portable = RetryWithTokenLimit (max (limit div 2) minimum)"
  by (auto simp: decide_def fatal_def)

section \<open>The performance guard\<close>

text \<open>The table and its eviction queue agree and stay within the capacity.\<close>

definition guard_ok :: "('k, 'f) perf_guard \<Rightarrow> bool" where
  "guard_ok g \<longleftrightarrow>
     distinct (gu_order g) \<and> set (gu_order g) = dom (gu_entries g)
   \<and> length (gu_order g) \<le> gc_capacity (gu_config g) \<and> 0 < gc_capacity (gu_config g)
   \<and> 3 \<le> measurement_pairs (gu_config g)
   \<and> (\<forall>m \<in> ran (gu_entries g). ms_seen m \<le> warmup_pairs (gu_config g)
        \<and> length (ms_ratios m) \<le> measurement_pairs (gu_config g))"

lemma guard_ok_card: "guard_ok g \<Longrightarrow> card (dom (gu_entries g)) = length (gu_order g)"
  using distinct_card [of "gu_order g"] by (simp add: guard_ok_def)

lemma ran_upd_subset: "m \<in> ran (f(k \<mapsto> v)) \<Longrightarrow> m = v \<or> m \<in> ran f"
  by (auto simp: ran_def split: if_splits)

lemma make_room_ok:
  assumes "guard_ok g"
  shows "guard_ok (make_room key g) \<and> gu_entries (make_room key g) key \<noteq> None
    \<and> gu_config (make_room key g) = gu_config g"
proof (cases "gu_entries g key = None")
  case False
  then show ?thesis using assms by (simp add: make_room_def)
next
  case new: True
  have full: "card (dom (gu_entries g)) = gc_capacity (gu_config g) \<longleftrightarrow> length (gu_order g) = gc_capacity (gu_config g)"
    by (simp add: guard_ok_card [OF assms])
  show ?thesis
  proof (cases "length (gu_order g) = gc_capacity (gu_config g)")
    case False
    then show ?thesis using assms new
      by (auto simp: make_room_def full Let_def guard_ok_def dest!: ran_upd_subset)
  next
    case True
    with assms obtain old rest where order: "gu_order g = old # rest"
      by (cases "gu_order g") (auto simp: guard_ok_def)
    have "m \<in> ran (gu_entries g)" if "m \<in> ran ((gu_entries g)(old := None))" for m
      using that by (auto simp: ran_def split: if_splits)
    then show ?thesis using assms new True
      by (auto simp: make_room_def full Let_def guard_ok_def order dest!: ran_upd_subset)
  qed
qed

lemma add_ratio_bounds:
  assumes "length (ms_ratios m) \<le> measurement_pairs c" and "0 < measurement_pairs c"
  shows "ms_seen (add_ratio average c r m) = ms_seen m
    \<and> length (ms_ratios (add_ratio average c r m)) \<le> measurement_pairs c
    \<and> (ms_portable m \<longrightarrow> ms_portable (add_ratio average c r m))"
  using assms by (auto simp: add_ratio_def Let_def)

lemma guard_ok_upd:
  assumes "guard_ok g" and "gu_entries g key = Some m"
    and "ms_seen m' \<le> warmup_pairs (gu_config g)" and "length (ms_ratios m') \<le> measurement_pairs (gu_config g)"
  shows "guard_ok (g\<lparr>gu_entries := (gu_entries g)(key \<mapsto> m')\<rparr>)"
  using assms by (auto simp: guard_ok_def insert_absorb domI dest!: ran_upd_subset)

definition keep_portable :: "('k, 'f) perf_guard \<Rightarrow> ('k, 'f) perf_guard \<Rightarrow> bool" where
  "keep_portable g g' \<longleftrightarrow> (\<forall>k. k \<in> dom (gu_entries g') \<longrightarrow> guard_mode g k = Portable \<longrightarrow> guard_mode g' k = Portable)"

lemma make_room_portable: "keep_portable g (make_room key g)"
  by (auto simp: keep_portable_def make_room_def guard_mode_def Let_def split: list.splits option.splits if_splits)

definition guard_run ::
  "(nat \<Rightarrow> nat \<Rightarrow> 'f) \<Rightarrow> ('f \<Rightarrow> 'f \<Rightarrow> 'f) \<Rightarrow> ('k \<times> nat \<times> nat) list \<Rightarrow> ('k, 'f::linorder) perf_guard \<Rightarrow> ('k, 'f) perf_guard" where
  "guard_run ratio average cs g = fold (\<lambda>(k, p, q) g. snd (record_pair ratio average k p q g)) cs g"

lemma record_pair_ok:
  assumes "guard_ok g"
  shows "guard_ok (snd (record_pair ratio average k p q g))
    \<and> fst (record_pair ratio average k p q g) \<noteq> Panic
    \<and> gu_config (snd (record_pair ratio average k p q g)) = gu_config g
    \<and> keep_portable g (snd (record_pair ratio average k p q g))"
proof (cases "p = 0 \<or> q = 0")
  case True
  then show ?thesis using assms by (simp add: record_pair_def keep_portable_def)
next
  case False
  define g1 where "g1 = make_room k g"
  obtain m where ok1: "guard_ok g1" and m: "gu_entries g1 k = Some m" and conf: "gu_config g1 = gu_config g"
    using make_room_ok [OF assms, of k] by (auto simp: g1_def)
  have bound: "ms_seen m \<le> warmup_pairs (gu_config g1)" "length (ms_ratios m) \<le> measurement_pairs (gu_config g1)"
      "0 < measurement_pairs (gu_config g1)"
    using ok1 m by (auto simp: guard_ok_def intro: ranI)
  define m1 where "m1 = (if ms_seen m < warmup_pairs (gu_config g1) then m\<lparr>ms_seen := ms_seen m + 1\<rparr>
                      else add_ratio average (gu_config g1) (ratio q p) m)"
  have m1: "ms_seen m1 \<le> warmup_pairs (gu_config g1)" "length (ms_ratios m1) \<le> measurement_pairs (gu_config g1)"
      "ms_portable m \<Longrightarrow> ms_portable m1"
    using bound add_ratio_bounds [OF bound(2,3), of average "ratio q p"] by (auto simp: m1_def)
  define g2 where "g2 = g1\<lparr>gu_entries := (gu_entries g1)(k \<mapsto> m1)\<rparr>"
  have step: "record_pair ratio average k p q g = (Ok (guard_mode g2 k), g2)"
    using False m by (simp add: record_pair_def g1_def [symmetric] m1_def [symmetric] g2_def Let_def)
  have "keep_portable g1 g2" using m m1(3) by (auto simp: keep_portable_def guard_mode_def g2_def split: if_splits option.splits)
  moreover have "dom (gu_entries g2) = dom (gu_entries g1)" using m by (auto simp: g2_def)
  moreover have "keep_portable g g1" using make_room_portable unfolding g1_def .
  ultimately have "keep_portable g g2" by (auto simp: keep_portable_def)
  with guard_ok_upd [OF ok1 m m1(1,2)] conf step show ?thesis by (simp add: g2_def)
qed

lemma guard_run_ok: "guard_ok g \<Longrightarrow> guard_ok (guard_run ratio average cs g) \<and> gu_config (guard_run ratio average cs g) = gu_config g"
proof (induction cs arbitrary: g)
  case (Cons c cs)
  obtain k p q where c: "c = (k, p, q)" by (cases c)
  from record_pair_ok [OF Cons.prems, of ratio average k p q]
  have "guard_ok (snd (record_pair ratio average k p q g))"
    "gu_config (snd (record_pair ratio average k p q g)) = gu_config g" by auto
  with Cons.IH [of "snd (record_pair ratio average k p q g)"] show ?case by (simp add: guard_run_def c)
qed (simp add: guard_run_def)

text \<open>
  the performance guard is bounded and its decisions stick: after any sequence of
  measurements it tracks at most its capacity of keys, the eviction queue lists exactly the
  tracked keys once each, no entry holds more samples than the window, recording never panics,
  and a key found slow stays portable as long as it is tracked.
\<close>

theorem guard_bounded_and_sticky:
  assumes "guard_new usable c = Ok g0" and "g = guard_run ratio average cs g0"
    and "record_pair ratio average k p q g = (r, g')"
  shows "card (dom (gu_entries g')) \<le> gc_capacity c
    \<and> distinct (gu_order g') \<and> set (gu_order g') = dom (gu_entries g')
    \<and> (\<forall>m \<in> ran (gu_entries g'). length (ms_ratios m) \<le> measurement_pairs c)
    \<and> r \<noteq> Panic
    \<and> (\<forall>j \<in> dom (gu_entries g'). guard_mode g j = Portable \<longrightarrow> guard_mode g' j = Portable)"
proof -
  have g0: "guard_ok g0" "gu_config g0 = c"
    using assms(1) by (auto simp: guard_ok_def guard_new_def split: if_splits)
  have g: "guard_ok g" "gu_config g = c" using guard_run_ok [OF g0(1)] g0(2) assms(2) by auto
  have g': "guard_ok g'" "gu_config g' = c" "r \<noteq> Panic" "keep_portable g g'"
    using record_pair_ok [OF g(1), of ratio average k p q] assms(3) g(2) by auto
  then show ?thesis using guard_ok_card [OF g'(1)] by (auto simp: guard_ok_def keep_portable_def)
qed

theorem guard_bounded_and_sticky_witness:
  "\<exists>g' :: (string, nat) perf_guard. guard_mode g' ''a'' = Portable \<and> card (dom (gu_entries g')) \<le> 1"
proof -
  let ?c = "\<lparr>gc_capacity = 1, warmup_pairs = 0, measurement_pairs = 3, slowdown_ratio = 2\<rparr> :: nat guard_config"
  let ?start = "\<lparr>gu_config = ?c, gu_entries = Map.empty, gu_order = []\<rparr> :: (string, nat) perf_guard"
  let ?ratio = "\<lambda>a b. a div b :: nat" and ?avg = "\<lambda>a b. (a + b) div 2 :: nat"
  let ?cs = "[(''b'', 1, 1), (''a'', 1, 4), (''a'', 1, 5), (''a'', 1, 6)]"
  let ?m = "\<lparr>ms_seen = 0, ms_ratios = [4, 5, 6], ms_portable = True\<rparr> :: nat measurements"
  let ?g = "?start\<lparr>gu_entries := [''a'' \<mapsto> ?m], gu_order := [''a'']\<rparr>"
  let ?g' = "?start\<lparr>gu_entries := [''a'' \<mapsto> ?m\<lparr>ms_ratios := [5, 6, 1]\<rparr>], gu_order := [''a'']\<rparr>"
  have new: "guard_new (\<lambda>x. x > 1) ?c = Ok ?start" by (simp add: guard_new_def)
  have run: "guard_run ?ratio ?avg ?cs ?start = ?g"
    by (simp add: guard_run_def record_pair_def make_room_def add_ratio_def median_def Let_def guard_mode_def)
  have step: "record_pair ?ratio ?avg ''a'' 1 1 ?g = (Ok Portable, ?g')"
    by (simp add: record_pair_def make_room_def add_ratio_def median_def Let_def guard_mode_def)
  from guard_bounded_and_sticky [OF new run [symmetric] step]
  have "card (dom (gu_entries ?g')) \<le> 1 \<and> (guard_mode ?g ''a'' = Portable \<longrightarrow> guard_mode ?g' ''a'' = Portable)"
    by simp
  then have "guard_mode ?g' ''a'' = Portable \<and> card (dom (gu_entries ?g')) \<le> 1" by (simp add: guard_mode_def)
  then show ?thesis by - (rule exI [of _ ?g'])
qed

end
