(* ===== verification/Worker.thy ===== *)
theory Worker
  imports Runtime
begin

text \<open>
  The bounded worker and the replica pool of \<open>src/src/runtime/worker.rs\<close>.

  One state holds what the threads share: the atomics, the channel, the phase of the worker
  thread and the result cells. A client that passed the checks of \<open>reserve_slot\<close> but has not
  yet incremented the counter is counted in \<open>wk_checked\<close>, one that holds a \<open>SlotPermit\<close> in
  \<open>wk_permits\<close>, so that every interleaving of these atomic actions is a sequence of steps.
  Accepted jobs are numbered; the number names the result cell and the cancellation flag.
  The thread is as fine as the code between two accesses to what it shares: the load of
  \<open>stopping\<close>, the load of the job's cancellation flag, the call, every look of the operation at
  that flag, the publication of the result and the report of a failure are steps of their own,
  so a job can be cancelled or the worker stopped between its checks and its call, and an
  operation sees a cancellation that arrives while it runs. \<open>wk_executed\<close> logs the operations
  that were called and \<open>wk_woken\<close> the wakers that were called.
\<close>

section \<open>Result cells\<close>

record 'v result_cell =
  ce_value :: "'v runtime_res option"
  ce_completed :: bool
  ce_waker :: "nat option"

definition cell_new :: "'v result_cell" where
  "cell_new = \<lparr>ce_value = None, ce_completed = False, ce_waker = None\<rparr>"

text \<open>\<open>complete\<close>, with the waker that it wakes.\<close>

definition cell_complete :: "'v runtime_res \<Rightarrow> 'v result_cell \<Rightarrow> nat option \<times> 'v result_cell" where
  "cell_complete r c =
     (if ce_completed c then (None, c)
      else (ce_waker c, \<lparr>ce_value = Some r, ce_completed = True, ce_waker = None\<rparr>))"

definition cell_take :: "'v result_cell \<Rightarrow> 'v runtime_res \<times> 'v result_cell" where
  "cell_take c = ((case ce_value c of Some r \<Rightarrow> r | None \<Rightarrow> Err Internal), c\<lparr>ce_value := None\<rparr>)"

text \<open>\<open>wait\<close> blocks (\<open>None\<close>) until the cell is completed; \<open>poll\<close> registers its waker instead.\<close>

definition cell_wait :: "'v result_cell \<Rightarrow> ('v runtime_res \<times> 'v result_cell) option" where
  "cell_wait c = (if ce_completed c then Some (cell_take c) else None)"

definition cell_poll :: "nat \<Rightarrow> 'v result_cell \<Rightarrow> 'v runtime_res option \<times> 'v result_cell" where
  "cell_poll w c =
     (if ce_completed c then (let (r, c') = cell_take c in (Some r, c'))
      else (None, if ce_waker c = Some w then c else c\<lparr>ce_waker := Some w\<rparr>))"

section \<open>The worker\<close>

text \<open>
  An operation that is running has finished with its result and the new replica state, or looks
  at its cancellation flag and goes on with the answer. It may look for ever; looking and
  ignoring the answer is waiting for something else. \<open>Panic\<close> is a panic it raises.
\<close>

codatatype ('s, 'v) op_run =
    Finished "'v runtime_res" 's
  | Look "bool \<Rightarrow> ('s, 'v) op_run"

type_synonym ('s, 'v) operation = "'s \<Rightarrow> ('s, 'v) op_run"

record ('s, 'v) job =
  jb_id :: nat
  jb_operation :: "('s, 'v) operation"

text \<open>
  Where the thread is in its loop: \<open>StopChecked\<close> and \<open>CancelChecked\<close> between the loads of the
  two flags and the call, \<open>Rejecting\<close> before the refusal of a cancelled job is published,
  \<open>Returned\<close> before the result of the operation is, \<open>PanicFenced\<close> between the quarantine and
  the publication of a panic, \<open>Releasing\<close> before the job and its permit are dropped.
\<close>

datatype ('s, 'v) thread_phase =
    Starting
  | Waiting
  | Received "('s, 'v) job"
  | StopChecked "('s, 'v) job"
  | CancelChecked "('s, 'v) job"
  | Rejecting "('s, 'v) job"
  | Running "('s, 'v) job" "('s, 'v) op_run"
  | Returned "('s, 'v) job" "'v runtime_res"
  | Ran "('s, 'v) job" "runtime_error_kind option"
  | OperationPanicked "('s, 'v) job"
  | PanicFenced "('s, 'v) job"
  | Releasing "('s, 'v) job"
  | Exited

record ('d, 's, 'v) worker =
  wk_device :: 'd
  wk_capacity :: nat
  wk_sender :: bool
  wk_queue :: "('s, 'v) job list"
  wk_outstanding :: nat
  wk_quarantined :: bool
  wk_stopping :: bool
  wk_phase :: "('s, 'v) thread_phase"
  wk_initialize :: "'s runtime_res"
  wk_state :: "'s option"
  wk_failed :: "runtime_error_kind option"
  wk_cells :: "nat \<rightharpoonup> 'v result_cell"
  wk_cancelled :: "nat set"
  wk_next :: nat
  wk_checked :: nat
  wk_permits :: nat
  wk_executed :: "nat list"
  wk_woken :: "nat list"

definition worker_spawn :: "'d \<Rightarrow> nat \<Rightarrow> 's runtime_res \<Rightarrow> ('d, 's, 'v) worker runtime_res" where
  "worker_spawn device max_outstanding init =
     (if max_outstanding = 0 then Err InvalidInput
      else Ok \<lparr>wk_device = device, wk_capacity = max_outstanding, wk_sender = True, wk_queue = [],
        wk_outstanding = 0, wk_quarantined = False, wk_stopping = False, wk_phase = Starting,
        wk_initialize = init, wk_state = None, wk_failed = None, wk_cells = Map.empty, wk_cancelled = {},
        wk_next = 0, wk_checked = 0, wk_permits = 0, wk_executed = [], wk_woken = []\<rparr>)"

subsection \<open>Clients\<close>

text \<open>\<open>reserve_slot\<close>: the checks, then the bounded increment.\<close>

definition check_open :: "('d, 's, 'v) worker \<Rightarrow> unit runtime_res" where
  "check_open w =
     (if wk_quarantined w then Err DeviceLost
      else if wk_stopping w \<or> \<not> wk_sender w then Err Closed
      else Ok ())"

definition take_slot :: "('d, 's, 'v) worker \<Rightarrow> unit runtime_res \<times> ('d, 's, 'v) worker" where
  "take_slot w =
     (if wk_outstanding w < wk_capacity w
      then (Ok (), w\<lparr>wk_outstanding := wk_outstanding w + 1, wk_permits := wk_permits w + 1\<rparr>)
      else (Err QueueFull, w))"

definition reserve_slot :: "('d, 's, 'v) worker \<Rightarrow> unit runtime_res \<times> ('d, 's, 'v) worker" where
  "reserve_slot w = (case check_open w of Ok _ \<Rightarrow> take_slot w | Err e \<Rightarrow> (Err e, w) | Panic \<Rightarrow> (Panic, w))"

definition drop_permit :: "('d, 's, 'v) worker \<Rightarrow> ('d, 's, 'v) worker" where
  "drop_permit w = w\<lparr>wk_outstanding := wk_outstanding w - 1\<rparr>"

definition submit_reserved ::
  "('s, 'v) operation \<Rightarrow> ('d, 's, 'v) worker \<Rightarrow> nat runtime_res \<times> ('d, 's, 'v) worker" where
  "submit_reserved f w =
     (let w1 = w\<lparr>wk_permits := wk_permits w - 1\<rparr>; j = \<lparr>jb_id = wk_next w, jb_operation = f\<rparr>
      in if \<not> wk_sender w \<or> wk_phase w = Exited then (Err Closed, drop_permit w1)
         else if length (wk_queue w) \<ge> wk_capacity w then (Err QueueFull, drop_permit w1)
         else (Ok (wk_next w),
           w1\<lparr>wk_queue := wk_queue w @ [j], wk_next := wk_next w + 1, wk_cells := (wk_cells w)(wk_next w \<mapsto> cell_new)\<rparr>))"

definition try_submit ::
  "('s, 'v) operation \<Rightarrow> ('d, 's, 'v) worker \<Rightarrow> nat runtime_res \<times> ('d, 's, 'v) worker" where
  "try_submit f w =
     (case reserve_slot w of
        (Ok _, w1) \<Rightarrow> submit_reserved f w1 | (Err e, w1) \<Rightarrow> (Err e, w1) | (Panic, w1) \<Rightarrow> (Panic, w1))"

definition cancel_job :: "nat \<Rightarrow> ('d, 's, 'v) worker \<Rightarrow> ('d, 's, 'v) worker" where
  "cancel_job i w = w\<lparr>wk_cancelled := insert i (wk_cancelled w)\<rparr>"

definition poll_job :: "nat \<Rightarrow> nat \<Rightarrow> ('d, 's, 'v) worker \<Rightarrow> 'v runtime_res option \<times> ('d, 's, 'v) worker" where
  "poll_job i waker w =
     (case wk_cells w i of
        None \<Rightarrow> (None, w)
      | Some c \<Rightarrow> (let (r, c') = cell_poll waker c in (r, w\<lparr>wk_cells := (wk_cells w)(i \<mapsto> c')\<rparr>)))"

text \<open>\<open>shutdown\<close> and \<open>drop\<close> up to the join: the flag is set, then the channel is closed.\<close>

definition begin_stop :: "('d, 's, 'v) worker \<Rightarrow> ('d, 's, 'v) worker" where
  "begin_stop w = w\<lparr>wk_stopping := True\<rparr>"

definition close_channel :: "('d, 's, 'v) worker \<Rightarrow> ('d, 's, 'v) worker" where
  "close_channel w = w\<lparr>wk_sender := False\<rparr>"

definition stop_worker :: "('d, 's, 'v) worker \<Rightarrow> ('d, 's, 'v) worker" where
  "stop_worker w = close_channel (begin_stop w)"

subsection \<open>The worker thread\<close>

definition complete_job :: "nat \<Rightarrow> 'v runtime_res \<Rightarrow> ('d, 's, 'v) worker \<Rightarrow> ('d, 's, 'v) worker" where
  "complete_job i r w =
     (case wk_cells w i of
        None \<Rightarrow> w
      | Some c \<Rightarrow> (let (wake, c') = cell_complete r c
                  in w\<lparr>wk_cells := (wk_cells w)(i \<mapsto> c'),
                       wk_woken := wk_woken w @ (case wake of None \<Rightarrow> [] | Some k \<Rightarrow> [k])\<rparr>))"

definition initialize :: "('d, 's, 'v) worker \<Rightarrow> ('d, 's, 'v) worker" where
  "initialize w =
     (case wk_initialize w of
        Ok s \<Rightarrow> w\<lparr>wk_state := Some s, wk_phase := Waiting\<rparr>
      | Err e \<Rightarrow> w\<lparr>wk_failed := Some e, wk_quarantined := True, wk_phase := Waiting\<rparr>
      | Panic \<Rightarrow> w\<lparr>wk_failed := Some WorkerPanicked, wk_quarantined := True, wk_phase := Waiting\<rparr>)"

text \<open>
  The received job: a failure recorded earlier, which only the thread knows, refuses it at once;
  otherwise the stopping flag is loaded, then the job's own flag.
\<close>

definition check_stopping :: "('s, 'v) job \<Rightarrow> ('d, 's, 'v) worker \<Rightarrow> ('d, 's, 'v) worker" where
  "check_stopping j w =
     (case wk_failed w of
        Some e \<Rightarrow> (complete_job (jb_id j) (Err e) w)\<lparr>wk_phase := Releasing j\<rparr>
      | None \<Rightarrow> if wk_stopping w then w\<lparr>wk_phase := Rejecting j\<rparr> else w\<lparr>wk_phase := StopChecked j\<rparr>)"

definition check_cancelled :: "('s, 'v) job \<Rightarrow> ('d, 's, 'v) worker \<Rightarrow> ('d, 's, 'v) worker" where
  "check_cancelled j w =
     (if jb_id j \<in> wk_cancelled w then w\<lparr>wk_phase := Rejecting j\<rparr> else w\<lparr>wk_phase := CancelChecked j\<rparr>)"

text \<open>The call of the operation, inside \<open>catch_unwind\<close>; a missing state is a panic there too.\<close>

definition call_operation :: "('s, 'v) job \<Rightarrow> ('d, 's, 'v) worker \<Rightarrow> ('d, 's, 'v) worker" where
  "call_operation j w =
     (case wk_state w of
        None \<Rightarrow> w\<lparr>wk_phase := OperationPanicked j\<rparr>
      | Some s \<Rightarrow> w\<lparr>wk_executed := wk_executed w @ [jb_id j], wk_phase := Running j (jb_operation j s)\<rparr>)"

definition run_operation :: "('s, 'v) job \<Rightarrow> ('s, 'v) op_run \<Rightarrow> ('d, 's, 'v) worker \<Rightarrow> ('d, 's, 'v) worker" where
  "run_operation j p w =
     (case p of
        Look k \<Rightarrow> w\<lparr>wk_phase := Running j (k (jb_id j \<in> wk_cancelled w))\<rparr>
      | Finished r s \<Rightarrow>
          w\<lparr>wk_state := Some s, wk_phase := (case r of Panic \<Rightarrow> OperationPanicked j | _ \<Rightarrow> Returned j r)\<rparr>)"

text \<open>The end of the boxed operation: the result is published, a fatal error is reported.\<close>

definition publish_result :: "('s, 'v) job \<Rightarrow> 'v runtime_res \<Rightarrow> ('d, 's, 'v) worker \<Rightarrow> ('d, 's, 'v) worker" where
  "publish_result j r w =
     (complete_job (jb_id j) r w)
       \<lparr>wk_phase := Ran j (case r of Err e \<Rightarrow> if fatal e then Some e else None | _ \<Rightarrow> None)\<rparr>"

text \<open>
  One step of the thread; \<open>None\<close> when it blocks in \<open>recv\<close> or has returned. \<open>recv\<close> fails only
  when the channel is closed and empty. The permit goes with the job, at the end of the
  iteration.
\<close>

definition thread_step :: "('d, 's, 'v) worker \<Rightarrow> ('d, 's, 'v) worker option" where
  "thread_step w =
     (case wk_phase w of
        Starting \<Rightarrow> Some (initialize w)
      | Waiting \<Rightarrow>
          (case wk_queue w of
             j # q \<Rightarrow> Some (w\<lparr>wk_queue := q, wk_phase := Received j\<rparr>)
           | [] \<Rightarrow> if wk_sender w then None else Some (w\<lparr>wk_phase := Exited\<rparr>))
      | Received j \<Rightarrow> Some (check_stopping j w)
      | StopChecked j \<Rightarrow> Some (check_cancelled j w)
      | CancelChecked j \<Rightarrow> Some (call_operation j w)
      | Rejecting j \<Rightarrow> Some ((complete_job (jb_id j) (Err Cancelled) w)\<lparr>wk_phase := Releasing j\<rparr>)
      | Running j p \<Rightarrow> Some (run_operation j p w)
      | Returned j r \<Rightarrow> Some (publish_result j r w)
      | Ran j None \<Rightarrow> Some (w\<lparr>wk_phase := Releasing j\<rparr>)
      | Ran j (Some e) \<Rightarrow> Some (w\<lparr>wk_quarantined := True, wk_failed := Some e, wk_phase := Releasing j\<rparr>)
      | OperationPanicked j \<Rightarrow> Some (w\<lparr>wk_quarantined := True, wk_phase := PanicFenced j\<rparr>)
      | PanicFenced j \<Rightarrow>
          Some ((complete_job (jb_id j) (Err WorkerPanicked) w)
                  \<lparr>wk_failed := Some WorkerPanicked, wk_phase := Releasing j\<rparr>)
      | Releasing j \<Rightarrow> Some ((drop_permit w)\<lparr>wk_phase := Waiting\<rparr>)
      | Exited \<Rightarrow> None)"

subsection \<open>Interleavings\<close>

text \<open>
  \<open>shutdown\<close> and \<open>drop\<close> hold the worker exclusively, so they run when no client is
  between its checks and its send.
\<close>

inductive client_step :: "('d, 's, 'v) worker \<Rightarrow> ('d, 's, 'v) worker \<Rightarrow> bool" where
  check: "check_open w = Ok () \<Longrightarrow> client_step w (w\<lparr>wk_checked := wk_checked w + 1\<rparr>)"
| reserve: "0 < wk_checked w \<Longrightarrow> client_step w (snd (take_slot (w\<lparr>wk_checked := wk_checked w - 1\<rparr>)))"
| send: "0 < wk_permits w \<Longrightarrow> client_step w (snd (submit_reserved f w))"
| cancelling: "client_step w (cancel_job i w)"
| polling: "client_step w (snd (poll_job i k w))"
| stopping: "wk_checked w = 0 \<Longrightarrow> wk_permits w = 0 \<Longrightarrow> client_step w (begin_stop w)"
| closing: "wk_stopping w \<Longrightarrow> client_step w (close_channel w)"

inductive worker_step :: "('d, 's, 'v) worker \<Rightarrow> ('d, 's, 'v) worker \<Rightarrow> bool" where
  thread: "thread_step w = Some w' \<Longrightarrow> worker_step w w'"
| client: "client_step w w' \<Longrightarrow> worker_step w w'"

definition worker_reachable :: "('d, 's, 'v) worker \<Rightarrow> bool" where
  "worker_reachable w \<longleftrightarrow> (\<exists>d n init w0. worker_spawn d n init = Ok w0 \<and> worker_step\<^sup>*\<^sup>* w0 w)"

section \<open>The replica pool\<close>

record ('d, 's, 'v) replica_pool =
  rp_workers :: "('d, 's, 'v) worker list"
  rp_cursor :: nat

definition pool_new :: "('d, 's, 'v) worker list \<Rightarrow> ('d, 's, 'v) replica_pool runtime_res" where
  "pool_new ws =
     (if ws = [] then Err InvalidInput
      else if \<not> distinct (map wk_device ws) then Err InvalidInput
      else Ok \<lparr>rp_workers = ws, rp_cursor = 0\<rparr>)"

definition worker_for :: "'d \<Rightarrow> ('d, 's, 'v) replica_pool \<Rightarrow> ('d, 's, 'v) worker option" where
  "worker_for d p = find (\<lambda>w. wk_device w = d) (rp_workers p)"

text \<open>\<open>fetch_add\<close> wraps; the replicas from the cursor on, sorted (stably) by their load.\<close>

definition pool_order :: "nat \<Rightarrow> ('d, 's, 'v) worker list \<Rightarrow> nat list" where
  "pool_order start ws =
     sort_key (\<lambda>i. wk_outstanding (ws ! i)) (map (\<lambda>n. (start + n) mod length ws) [0..<length ws])"

fun submit_first ::
  "('s, 'v) operation \<Rightarrow> nat list \<Rightarrow> runtime_error_kind \<Rightarrow> ('d, 's, 'v) worker list \<Rightarrow>
     ('d \<times> nat) runtime_res \<times> ('d, 's, 'v) worker list" where
  "submit_first f [] e ws = (Err e, ws)"
| "submit_first f (i # is) e ws =
     (case reserve_slot (ws ! i) of
        (Ok _, w1) \<Rightarrow>
          (case submit_reserved f w1 of
             (Ok j, w2) \<Rightarrow> (Ok (wk_device w2, j), ws[i := w2])
           | (Err e', w2) \<Rightarrow> (Err e', ws[i := w2])
           | (Panic, w2) \<Rightarrow> (Panic, ws[i := w2]))
      | (Err e', w1) \<Rightarrow> submit_first f is e' (ws[i := w1])
      | (Panic, w1) \<Rightarrow> (Panic, ws[i := w1]))"

definition pool_try_submit ::
  "('s, 'v) operation \<Rightarrow> ('d, 's, 'v) replica_pool \<Rightarrow>
     ('d \<times> nat) runtime_res \<times> ('d, 's, 'v) replica_pool" where
  "pool_try_submit f p =
     (let start = rp_cursor p mod length (rp_workers p);
          (r, ws) = submit_first f (pool_order start (rp_workers p)) QueueFull (rp_workers p)
      in (r, \<lparr>rp_workers = ws, rp_cursor = (rp_cursor p + 1) mod (usize_max + 1)\<rparr>))"

definition pool_shutdown :: "('d, 's, 'v) replica_pool \<Rightarrow> ('d, 's, 'v) replica_pool" where
  "pool_shutdown p = p\<lparr>rp_workers := map stop_worker (rp_workers p)\<rparr>"

end
