(* ===== verification/WorkerProps.thy ===== *)
theory WorkerProps
  imports Worker
begin

text \<open>
  The invariant of a bounded worker over every interleaving, and what it gives: the bound
  on outstanding jobs, one execution and one result per job in submission order, no work
  after a failure, and a shutdown that drains. Then the choice of the replica pool.
\<close>

section \<open>The invariant\<close>

text \<open>The job the thread holds, and the accepted jobs that have no result yet.\<close>

fun held_job :: "('s, 'v) thread_phase \<Rightarrow> ('s, 'v) job option" where
  "held_job (Received j) = Some j"
| "held_job (StopChecked j) = Some j"
| "held_job (CancelChecked j) = Some j"
| "held_job (Rejecting j) = Some j"
| "held_job (Running j p) = Some j"
| "held_job (Returned j r) = Some j"
| "held_job (Ran j e) = Some j"
| "held_job (OperationPanicked j) = Some j"
| "held_job (PanicFenced j) = Some j"
| "held_job (Releasing j) = Some j"
| "held_job p = None"

fun unanswered_job :: "('s, 'v) thread_phase \<Rightarrow> nat list" where
  "unanswered_job (Ran j e) = []"
| "unanswered_job (Releasing j) = []"
| "unanswered_job p = (case held_job p of None \<Rightarrow> [] | Some j \<Rightarrow> [jb_id j])"

fun unstarted_job :: "('s, 'v) thread_phase \<Rightarrow> nat list" where
  "unstarted_job (Received j) = [jb_id j]"
| "unstarted_job (StopChecked j) = [jb_id j]"
| "unstarted_job (CancelChecked j) = [jb_id j]"
| "unstarted_job (Rejecting j) = [jb_id j]"
| "unstarted_job p = []"

text \<open>The phases that only a worker without a recorded failure reaches.\<close>

fun healthy_phase :: "('s, 'v) thread_phase \<Rightarrow> bool" where
  "healthy_phase (Waiting) = False"
| "healthy_phase (Received j) = False"
| "healthy_phase (Releasing j) = False"
| "healthy_phase Exited = False"
| "healthy_phase p = True"

lemma unstarted_unanswered: "set (unstarted_job p) \<subseteq> set (unanswered_job p)"
  by (cases p) auto

definition queued_ids :: "('d, 's, 'v) worker \<Rightarrow> nat list" where
  "queued_ids w = map jb_id (wk_queue w)"

definition unanswered :: "('d, 's, 'v) worker \<Rightarrow> nat set" where
  "unanswered w = set (unanswered_job (wk_phase w)) \<union> set (queued_ids w)"

definition cell_ok :: "'v result_cell \<Rightarrow> bool" where
  "cell_ok c \<longleftrightarrow> (ce_value c \<noteq> None \<longrightarrow> ce_completed c) \<and> (ce_waker c \<noteq> None \<longrightarrow> \<not> ce_completed c)"

definition counters_ok :: "('d, 's, 'v) worker \<Rightarrow> bool" where
  "counters_ok w \<longleftrightarrow> 0 < wk_capacity w \<and> wk_outstanding w \<le> wk_capacity w \<and>
     wk_outstanding w = wk_permits w + length (wk_queue w) + (if held_job (wk_phase w) = None then 0 else 1)"

definition health_ok :: "('d, 's, 'v) worker \<Rightarrow> bool" where
  "health_ok w \<longleftrightarrow>
     (wk_phase w \<noteq> Starting \<longrightarrow> wk_failed w = None \<longrightarrow> wk_state w \<noteq> None)
   \<and> (wk_failed w \<noteq> None \<longrightarrow> wk_quarantined w \<and> \<not> healthy_phase (wk_phase w))
   \<and> (\<forall>j. wk_phase w = PanicFenced j \<longrightarrow> wk_quarantined w)
   \<and> (\<not> wk_sender w \<longrightarrow> wk_stopping w)
   \<and> (wk_phase w = Exited \<longrightarrow> wk_queue w = [] \<and> \<not> wk_sender w)
   \<and> (wk_stopping w \<longrightarrow> wk_permits w = 0 \<and> wk_checked w = 0)"

definition jobs_ok :: "('d, 's, 'v) worker \<Rightarrow> bool" where
  "jobs_ok w \<longleftrightarrow>
     sorted_wrt (<) (wk_executed w @ unstarted_job (wk_phase w) @ queued_ids w)
   \<and> (\<forall>i \<in> set (wk_executed w @ unanswered_job (wk_phase w) @ queued_ids w). i < wk_next w)
   \<and> distinct (unanswered_job (wk_phase w) @ queued_ids w)
   \<and> dom (wk_cells w) = {..<wk_next w}
   \<and> (\<forall>i c. wk_cells w i = Some c \<longrightarrow> cell_ok c \<and> (ce_completed c \<longleftrightarrow> i \<notin> unanswered w))"

definition worker_ok :: "('d, 's, 'v) worker \<Rightarrow> bool" where
  "worker_ok w \<longleftrightarrow> counters_ok w \<and> health_ok w \<and> jobs_ok w"

lemma spawn_ok: "worker_spawn d n init = Ok w \<Longrightarrow> worker_ok w"
  by (auto simp: worker_spawn_def worker_ok_def counters_ok_def health_ok_def jobs_ok_def queued_ids_def split: if_splits)

subsection \<open>Cells\<close>

lemma cell_new_ok [simp]: "cell_ok cell_new" "\<not> ce_completed cell_new"
  by (simp_all add: cell_new_def cell_ok_def)

lemma cell_complete_ok: "cell_ok c \<Longrightarrow> cell_ok (snd (cell_complete r c)) \<and> ce_completed (snd (cell_complete r c))"
  by (auto simp: cell_complete_def cell_ok_def)

lemma cell_poll_ok: "cell_ok c \<Longrightarrow> cell_ok (snd (cell_poll k c)) \<and> ce_completed (snd (cell_poll k c)) = ce_completed c"
  by (auto simp: cell_poll_def cell_take_def cell_ok_def)

lemma complete_job_simps [simp]:
  "wk_capacity (complete_job i r w) = wk_capacity w" "wk_outstanding (complete_job i r w) = wk_outstanding w"
  "wk_permits (complete_job i r w) = wk_permits w" "wk_queue (complete_job i r w) = wk_queue w"
  "wk_phase (complete_job i r w) = wk_phase w" "wk_failed (complete_job i r w) = wk_failed w"
  "wk_state (complete_job i r w) = wk_state w" "wk_quarantined (complete_job i r w) = wk_quarantined w"
  "wk_stopping (complete_job i r w) = wk_stopping w" "wk_sender (complete_job i r w) = wk_sender w"
  "wk_checked (complete_job i r w) = wk_checked w" "wk_executed (complete_job i r w) = wk_executed w"
  "wk_next (complete_job i r w) = wk_next w" "wk_cancelled (complete_job i r w) = wk_cancelled w"
  by (simp_all add: complete_job_def Let_def split: option.splits prod.splits)

lemma complete_job_cells:
  "wk_cells (complete_job i r w) =
     (case wk_cells w i of None \<Rightarrow> wk_cells w | Some c \<Rightarrow> (wk_cells w)(i \<mapsto> snd (cell_complete r c)))"
  by (simp add: complete_job_def Let_def split: option.splits prod.splits)

text \<open>Answering the job that is taken out of \<open>unanswered\<close>.\<close>

lemma complete_job_jobs:
  assumes "jobs_ok w" and "i \<in> unanswered w" and "wk_cells w' = wk_cells (complete_job i r w)"
    and "unanswered w' = unanswered w - {i}" and "wk_next w' = wk_next w"
  shows "dom (wk_cells w') = {..<wk_next w'}
    \<and> (\<forall>j c. wk_cells w' j = Some c \<longrightarrow> cell_ok c \<and> (ce_completed c \<longleftrightarrow> j \<notin> unanswered w'))"
proof -
  have "dom (wk_cells w) = {..<wk_next w}" "i < wk_next w"
    using assms(1,2) unfolding jobs_ok_def unanswered_def by auto
  then have "i \<in> dom (wk_cells w)" by simp
  then obtain c where c: "wk_cells w i = Some c" by blast
  then have cells: "wk_cells w' = (wk_cells w)(i \<mapsto> snd (cell_complete r c))"
    using assms(3) by (simp add: complete_job_cells)
  have "cell_ok c" using assms(1) c by (simp add: jobs_ok_def)
  note fresh = cell_complete_ok [OF this]
  have old: "cell_ok d \<and> (ce_completed d \<longleftrightarrow> j \<notin> unanswered w)" if "wk_cells w j = Some d" for j d
    using assms(1) that by (simp add: jobs_ok_def)
  have "dom (wk_cells w') = dom (wk_cells w)" using c by (auto simp: cells)
  also have "\<dots> = {..<wk_next w'}" using assms(1,5) by (simp add: jobs_ok_def)
  finally show ?thesis using old fresh [of r] by (auto simp: cells assms(4) split: if_splits)
qed

subsection \<open>Every step keeps it\<close>

lemma jobs_ok_frame:
  assumes "jobs_ok w" and "wk_executed w' = wk_executed w" and "wk_next w' = wk_next w" and "wk_cells w' = wk_cells w"
    and "unanswered_job (wk_phase w') @ queued_ids w' = unanswered_job (wk_phase w) @ queued_ids w"
    and "unstarted_job (wk_phase w') @ queued_ids w' = unstarted_job (wk_phase w) @ queued_ids w"
  shows "jobs_ok w'"
proof -
  have "unanswered w' = unanswered w"
    using arg_cong [OF assms(5), of set] by (simp add: unanswered_def)
  then show ?thesis using assms unfolding jobs_ok_def by simp
qed

lemma worker_okI: "counters_ok w \<Longrightarrow> health_ok w \<Longrightarrow> jobs_ok w \<Longrightarrow> worker_ok w"
  by (simp add: worker_ok_def)

lemma worker_okD: "worker_ok w \<Longrightarrow> counters_ok w" "worker_ok w \<Longrightarrow> health_ok w" "worker_ok w \<Longrightarrow> jobs_ok w"
  by (simp_all add: worker_ok_def)

text \<open>A change of phase that neither starts nor answers a job.\<close>

lemma phase_ok:
  assumes "worker_ok w" and "counters_ok w'" and "health_ok w'"
    and "wk_executed w' = wk_executed w" and "wk_next w' = wk_next w" and "wk_cells w' = wk_cells w"
    and "unanswered_job (wk_phase w') @ queued_ids w' = unanswered_job (wk_phase w) @ queued_ids w"
    and "unstarted_job (wk_phase w') @ queued_ids w' = unstarted_job (wk_phase w) @ queued_ids w"
  shows "worker_ok w'"
  using assms jobs_ok_frame [OF worker_okD(3) [OF assms(1)]] by (simp add: worker_ok_def)

lemma client_steps_ok:
  assumes "worker_ok w"
  shows "check_open w = Ok () \<Longrightarrow> worker_ok (w\<lparr>wk_checked := Suc (wk_checked w)\<rparr>)"
    and "0 < wk_checked w \<Longrightarrow> worker_ok (snd (take_slot (w\<lparr>wk_checked := wk_checked w - Suc 0\<rparr>)))"
    and "worker_ok (cancel_job i w)"
    and "wk_checked w = 0 \<Longrightarrow> wk_permits w = 0 \<Longrightarrow> worker_ok (begin_stop w)"
    and "wk_stopping w \<Longrightarrow> worker_ok (close_channel w)"
proof -
  note ok = worker_okD(1,2) [OF assms]
  show "worker_ok (w\<lparr>wk_checked := Suc (wk_checked w)\<rparr>)" if "check_open w = Ok ()"
    by (rule phase_ok [OF assms]; insert ok that)
      (simp_all add: counters_ok_def health_ok_def queued_ids_def check_open_def split: if_splits)
  show "worker_ok (snd (take_slot (w\<lparr>wk_checked := wk_checked w - Suc 0\<rparr>)))" if "0 < wk_checked w"
    by (rule phase_ok [OF assms]; insert ok that)
      (auto simp: counters_ok_def health_ok_def queued_ids_def take_slot_def)
  show "worker_ok (cancel_job i w)"
    by (rule phase_ok [OF assms]; insert ok)
      (simp_all add: counters_ok_def health_ok_def queued_ids_def cancel_job_def)
  show "worker_ok (begin_stop w)" if "wk_checked w = 0" "wk_permits w = 0"
    by (rule phase_ok [OF assms]; insert ok that)
      (simp_all add: counters_ok_def health_ok_def queued_ids_def begin_stop_def)
  show "worker_ok (close_channel w)" if "wk_stopping w"
    by (rule phase_ok [OF assms]; insert ok that)
      (simp_all add: counters_ok_def health_ok_def queued_ids_def close_channel_def)
qed

lemma send_ok:
  assumes "worker_ok w" and "0 < wk_permits w"
  shows "worker_ok (snd (submit_reserved f w)) \<and> fst (submit_reserved f w) = Ok (wk_next w)"
proof -
  have live: "wk_sender w" "wk_phase w \<noteq> Exited"
    using assms by (auto simp: worker_ok_def health_ok_def)
  have room: "length (wk_queue w) < wk_capacity w"
    using assms by (auto simp: worker_ok_def counters_ok_def)
  let ?w = "snd (submit_reserved f w)"
  have w: "?w = w\<lparr>wk_permits := wk_permits w - 1, wk_queue := wk_queue w @ [\<lparr>jb_id = wk_next w, jb_operation = f\<rparr>],
      wk_next := wk_next w + 1, wk_cells := (wk_cells w)(wk_next w \<mapsto> cell_new)\<rparr>"
    and ok: "fst (submit_reserved f w) = Ok (wk_next w)"
    using live room by (simp_all add: submit_reserved_def Let_def)
  have jobs: "jobs_ok w" using assms(1) by (simp add: worker_ok_def)
  have "jobs_ok ?w"
    using jobs unstarted_unanswered [of "wk_phase w"] unfolding w
    by (auto simp: jobs_ok_def queued_ids_def unanswered_def sorted_wrt_append less_Suc_eq)
  moreover have "counters_ok ?w" using worker_okD(1) [OF assms(1)] assms(2) live room
    by (simp add: w counters_ok_def)
  moreover have "health_ok ?w" using worker_okD(2) [OF assms(1)] assms(2) live
    by (simp add: w health_ok_def)
  ultimately show ?thesis using ok by (simp add: worker_okI)
qed

lemma poll_ok: "worker_ok w \<Longrightarrow> worker_ok (snd (poll_job i k w))"
proof (cases "wk_cells w i")
  case (Some c)
  assume ok: "worker_ok w"
  have c: "cell_ok c" "ce_completed c \<longleftrightarrow> i \<notin> unanswered w"
    using ok Some by (auto simp: worker_ok_def jobs_ok_def)
  have "snd (poll_job i k w) = w\<lparr>wk_cells := (wk_cells w)(i \<mapsto> snd (cell_poll k c))\<rparr>"
    using Some by (simp add: poll_job_def split: prod.splits)
  with cell_poll_ok [OF c(1), of k] ok Some c(2) show ?thesis
    by (auto simp: worker_ok_def counters_ok_def health_ok_def jobs_ok_def queued_ids_def unanswered_def)
qed (simp add: poll_job_def)

lemma answer_ok:
  assumes "worker_ok w" and "held_job (wk_phase w) = Some j" and "held_job p = Some j"
    and "unanswered_job (wk_phase w) = [jb_id j]" and "unanswered_job p = []" and "unstarted_job p = []"
    and "w' = (complete_job (jb_id j) r w)\<lparr>wk_phase := p\<rparr>"
    and "wk_failed w = None \<or> p = Releasing j"
  shows "worker_ok w'"
proof -
  have ok: "counters_ok w" "health_ok w" "jobs_ok w" using assms(1) by (auto simp: worker_ok_def)
  have live: "wk_phase w \<noteq> Starting" using assms(2) by auto
  have dead: "p \<noteq> Starting" "p \<noteq> Exited" "\<forall>j. p \<noteq> PanicFenced j" using assms(3,5) by auto
  have new: "jb_id j \<in> unanswered w" "jb_id j \<notin> set (queued_ids w)"
    using ok(3) assms(4) by (auto simp: unanswered_def jobs_ok_def)
  have un: "unanswered w' = unanswered w - {jb_id j}"
    using new assms(4,5,7) by (auto simp: unanswered_def queued_ids_def)
  from complete_job_jobs [OF ok(3) new(1) _ un, of r]
  have cells: "dom (wk_cells w') = {..<wk_next w'}
    \<and> (\<forall>j c. wk_cells w' j = Some c \<longrightarrow> cell_ok c \<and> (ce_completed c \<longleftrightarrow> j \<notin> unanswered w'))"
    using assms(7) by simp
  have "sorted_wrt (<) (wk_executed w @ queued_ids w)"
    using ok(3) by (auto simp: jobs_ok_def sorted_wrt_append)
  then have "jobs_ok w'"
    using cells ok(3) assms(4-7) by (auto simp: jobs_ok_def queued_ids_def)
  moreover have "health_ok w'" using ok(2) live dead assms(7,8) by (auto simp: health_ok_def)
  moreover have "counters_ok w'" using ok(1) assms(2,3,7) by (auto simp: counters_ok_def)
  ultimately show ?thesis by (simp add: worker_ok_def)
qed

text \<open>The call logs the job that passed its checks.\<close>

lemma call_ok:
  assumes "worker_ok w" and "wk_phase w = CancelChecked j"
  obtains s where "wk_state w = Some s" and "wk_failed w = None"
    and "call_operation j w = w\<lparr>wk_executed := wk_executed w @ [jb_id j], wk_phase := Running j (jb_operation j s)\<rparr>"
    and "worker_ok (call_operation j w)"
proof -
  note ok = worker_okD [OF assms(1)]
  have failed: "wk_failed w = None" using ok(2) assms(2) by (auto simp: health_ok_def)
  then obtain s where s: "wk_state w = Some s" using ok(2) assms(2) by (auto simp: health_ok_def)
  let ?w = "w\<lparr>wk_executed := wk_executed w @ [jb_id j], wk_phase := Running j (jb_operation j s)\<rparr>"
  have w: "call_operation j w = ?w" by (simp add: call_operation_def s)
  have "unanswered ?w = unanswered w" "queued_ids ?w = queued_ids w"
    by (simp_all add: unanswered_def queued_ids_def assms(2))
  then have "jobs_ok ?w" using ok(3) by (simp add: jobs_ok_def assms(2))
  moreover have "counters_ok ?w" using ok(1) by (simp add: counters_ok_def assms(2))
  moreover have "health_ok ?w" using ok(2) failed by (simp add: health_ok_def assms(2))
  ultimately have "worker_ok ?w" by (intro worker_okI)
  then show thesis by (intro that [OF s failed w]) (simp add: w)
qed

lemma complete_job_phase: "complete_job i r (w\<lparr>wk_phase := p\<rparr>) = (complete_job i r w)\<lparr>wk_phase := p\<rparr>"
  by (simp add: complete_job_def Let_def split: option.splits prod.splits)

lemma thread_step_ok:
  assumes "worker_ok w" and "thread_step w = Some w'"
  shows "worker_ok w'"
proof -
  note ok = worker_okD(1,2) [OF assms(1)]
  note step = assms(2) [unfolded thread_step_def]
  note inv = counters_ok_def health_ok_def queued_ids_def
  have reject: "worker_ok ((complete_job (jb_id j) r w)\<lparr>wk_phase := Releasing j\<rparr>)"
    if "held_job (wk_phase w) = Some j" "unanswered_job (wk_phase w) = [jb_id j]" for j r
    by (rule answer_ok [OF assms(1), of j "Releasing j"]) (simp_all add: that)
  show ?thesis
  proof (cases "wk_phase w")
    case Starting
    show ?thesis
      by (rule phase_ok [OF assms(1)]; insert step ok Starting) (auto simp: initialize_def inv split: res.splits)
  next
    case Waiting
    show ?thesis
      by (rule phase_ok [OF assms(1)]; insert step ok Waiting) (auto simp: inv split: list.splits if_splits)
  next
    case (Received j)
    show ?thesis
    proof (cases "wk_failed w")
      case None
      then have "w' = w\<lparr>wk_phase := Rejecting j\<rparr> \<or> w' = w\<lparr>wk_phase := StopChecked j\<rparr>"
        using step Received by (simp add: check_stopping_def split: if_splits)
      then show ?thesis
        by (elim disjE; intro phase_ok [OF assms(1)]; insert ok Received None) (simp_all add: inv)
    next
      case (Some e)
      then show ?thesis using reject [of j "Err e"] step Received by (simp add: check_stopping_def)
    qed
  next
    case (StopChecked j)
    then have "w' = w\<lparr>wk_phase := Rejecting j\<rparr> \<or> w' = w\<lparr>wk_phase := CancelChecked j\<rparr>"
      using step by (simp add: check_cancelled_def split: if_splits)
    then show ?thesis
      by (elim disjE; intro phase_ok [OF assms(1)]; insert ok StopChecked) (simp_all add: inv)
  next
    case (CancelChecked j)
    then have "w' = call_operation j w" using step by simp
    then show ?thesis using call_ok [OF assms(1) CancelChecked] by metis
  next
    case (Rejecting j)
    then show ?thesis using reject [of j "Err Cancelled"] step by simp
  next
    case (Running j p)
    show ?thesis
      by (rule phase_ok [OF assms(1)]; insert step ok Running)
        (auto simp: run_operation_def inv split: op_run.splits res.splits)
  next
    case (Returned j r)
    then have w': "w' = publish_result j r w" using step by simp
    have "wk_failed w = None" using ok(2) Returned by (auto simp: health_ok_def)
    then have "worker_ok ((complete_job (jb_id j) r w)\<lparr>wk_phase := Ran j e\<rparr>)" for e
      by (intro answer_ok [OF assms(1), of j "Ran j e" _ r]) (simp_all add: Returned)
    then show ?thesis by (simp add: w' publish_result_def)
  next
    case (Ran j e)
    show ?thesis
      by (rule phase_ok [OF assms(1)]; insert step ok Ran) (auto simp: inv split: option.splits)
  next
    case (OperationPanicked j)
    show ?thesis
      by (rule phase_ok [OF assms(1)]; insert step ok OperationPanicked) (auto simp: inv)
  next
    case (PanicFenced j)
    let ?w = "(complete_job (jb_id j) (Err WorkerPanicked) w)\<lparr>wk_phase := Releasing j\<rparr>"
    have r: "worker_ok ?w" by (rule reject) (simp_all add: PanicFenced)
    have w': "w' = ?w\<lparr>wk_failed := Some WorkerPanicked\<rparr>"
      using step PanicFenced by (auto simp: complete_job_def Let_def split: option.splits prod.splits)
    have "wk_quarantined ?w" using ok(2) PanicFenced by (simp add: health_ok_def)
    then show ?thesis
      by (intro phase_ok [OF r]; insert worker_okD(1,2) [OF r]) (simp_all add: w' inv)
  next
    case (Releasing j)
    show ?thesis
      by (rule phase_ok [OF assms(1)]; insert step ok Releasing) (auto simp: drop_permit_def inv)
  next
    case Exited
    then show ?thesis using step by simp
  qed
qed

lemma client_step_ok: "client_step w w' \<Longrightarrow> worker_ok w \<Longrightarrow> worker_ok w'"
  by (induction rule: client_step.induct) (auto simp: client_steps_ok send_ok poll_ok)

lemma worker_step_ok: "worker_step w w' \<Longrightarrow> worker_ok w \<Longrightarrow> worker_ok w'"
  by (induction rule: worker_step.induct) (blast intro: thread_step_ok client_step_ok)+

lemma reachable_ok: "worker_reachable w \<Longrightarrow> worker_ok w"
proof -
  assume "worker_reachable w"
  then obtain d n init w0 where "worker_spawn d n init = Ok w0" and "worker_step\<^sup>*\<^sup>* w0 w"
    by (auto simp: worker_reachable_def)
  from this(2,1) show ?thesis by induction (auto intro: spawn_ok worker_step_ok)
qed


lemma reachable_step: "worker_reachable w \<Longrightarrow> worker_step w w' \<Longrightarrow> worker_reachable w'"
  unfolding worker_reachable_def by (meson rtranclp.rtrancl_into_rtrancl)

section \<open>What the invariant gives\<close>

text \<open>A run of the thread alone, while it is not blocked.\<close>

fun thread_run :: "nat \<Rightarrow> ('d, 's, 'v) worker \<Rightarrow> ('d, 's, 'v) worker" where
  "thread_run 0 w = w"
| "thread_run (Suc n) w = (case thread_step w of None \<Rightarrow> w | Some w' \<Rightarrow> thread_run n w')"

text \<open>
  A worker with one replica state that counts its jobs; two slots, one job sent, whose
  operation looks once whether it was cancelled.
\<close>

definition demo_spawned :: "(nat, nat, nat) worker" where
  "demo_spawned = \<lparr>wk_device = 0, wk_capacity = 2, wk_sender = True, wk_queue = [],
        wk_outstanding = 0, wk_quarantined = False, wk_stopping = False, wk_phase = Starting,
        wk_initialize = Ok 0, wk_state = None, wk_failed = None, wk_cells = Map.empty, wk_cancelled = {},
        wk_next = 0, wk_checked = 0, wk_permits = 0, wk_executed = [], wk_woken = []\<rparr>"

definition demo_operation :: "(nat, nat) operation" where
  "demo_operation s = Look (\<lambda>flag. if flag then Finished (Err Cancelled) s else Finished (Ok (10 + s)) (s + 1))"

definition demo_permit :: "(nat, nat, nat) worker" where
  "demo_permit = demo_spawned\<lparr>wk_outstanding := 1, wk_permits := 1\<rparr>"

definition demo_sent :: "(nat, nat, nat) worker" where
  "demo_sent = demo_spawned\<lparr>wk_outstanding := 1, wk_next := 1, wk_cells := [0 \<mapsto> cell_new],
     wk_queue := [\<lparr>jb_id = 0, jb_operation = demo_operation\<rparr>]\<rparr>"

lemma demo_permit_reachable: "worker_reachable demo_permit"
proof -
  have "worker_spawn 0 2 (Ok 0) = Ok demo_spawned" by (simp add: worker_spawn_def demo_spawned_def)
  then have start: "worker_reachable demo_spawned" unfolding worker_reachable_def by blast
  have "worker_reachable (demo_spawned\<lparr>wk_checked := wk_checked demo_spawned + 1\<rparr>)"
    by (rule reachable_step [OF start worker_step.client [OF client_step.check]]) (simp add: demo_spawned_def check_open_def)
  from reachable_step [OF this worker_step.client [OF client_step.reserve]] show ?thesis
    by (simp add: demo_permit_def demo_spawned_def take_slot_def)
qed

lemma demo_sent_reachable: "worker_reachable demo_sent"
  using reachable_step [OF demo_permit_reachable worker_step.client [OF client_step.send [where f = demo_operation]]]
  by (simp add: demo_permit_def demo_sent_def demo_spawned_def submit_reserved_def)

text \<open>
  C16: the outstanding jobs of a worker are bounded: in every reachable state the counter is
  exactly the number of permits, queued jobs and the job the thread holds, it never exceeds the
  capacity, and a client that holds a permit is never told that the queue is full or closed.
\<close>

theorem worker_never_overfull:
  assumes "worker_reachable w"
  shows "wk_outstanding w = wk_permits w + length (wk_queue w) + (if held_job (wk_phase w) = None then 0 else 1)
    \<and> wk_outstanding w \<le> wk_capacity w
    \<and> (0 < wk_permits w \<longrightarrow> fst (submit_reserved f w) = Ok (wk_next w))"
  using worker_okD(1) [OF reachable_ok [OF assms]] send_ok [OF reachable_ok [OF assms]]
  by (simp add: counters_ok_def)

theorem worker_never_overfull_witness: "fst (submit_reserved demo_operation demo_permit) = Ok 0"
  using worker_never_overfull [OF demo_permit_reachable, of demo_operation]
  by (simp add: demo_permit_def demo_spawned_def)

subsection \<open>One execution, one result\<close>

lemma client_frame:
  assumes "client_step w w'"
  shows "wk_executed w' = wk_executed w" and "wk_state w' = wk_state w" and "wk_failed w' = wk_failed w"
    and "wk_phase w' = wk_phase w" and "wk_cancelled w \<subseteq> wk_cancelled w'" and "wk_stopping w \<longrightarrow> wk_stopping w'"
  using assms
  by (cases; auto simp: take_slot_def submit_reserved_def drop_permit_def Let_def cancel_job_def begin_stop_def
      close_channel_def poll_job_def split: option.splits prod.splits)+

lemma thread_flags:
  assumes "thread_step w = Some w'"
  shows "wk_cancelled w' = wk_cancelled w" and "wk_stopping w' = wk_stopping w" and "wk_sender w' = wk_sender w"
    and "wk_next w' = wk_next w"
  using assms
  by (auto simp: thread_step_def initialize_def check_stopping_def check_cancelled_def call_operation_def run_operation_def
      publish_result_def drop_permit_def split: thread_phase.splits option.splits list.splits if_splits res.splits
      op_run.splits)

lemma thread_past:
  assumes "thread_step w = Some w'"
  shows "wk_phase w' = CancelChecked j \<Longrightarrow> wk_phase w = StopChecked j \<and> jb_id j \<notin> wk_cancelled w"
    and "wk_phase w' = StopChecked j \<Longrightarrow> wk_phase w = Received j \<and> \<not> wk_stopping w"
  using assms
  by (auto simp: thread_step_def initialize_def check_stopping_def check_cancelled_def call_operation_def run_operation_def
      publish_result_def drop_permit_def split: thread_phase.splits option.splits list.splits if_splits res.splits
      op_run.splits)

lemma thread_executes:
  assumes "worker_ok w" and "thread_step w = Some w'"
  shows "wk_executed w' = wk_executed w \<or>
    (\<exists>j s. wk_phase w = CancelChecked j \<and> wk_executed w' = wk_executed w @ [jb_id j]
       \<and> wk_phase w' = Running j (jb_operation j s))"
proof (cases "\<exists>j. wk_phase w = CancelChecked j")
  case True
  then obtain j where j: "wk_phase w = CancelChecked j" by blast
  obtain s where call: "call_operation j w = w\<lparr>wk_executed := wk_executed w @ [jb_id j], wk_phase := Running j (jb_operation j s)\<rparr>"
    by (rule call_ok [OF assms(1) j])
  have "w' = call_operation j w" using assms(2) j by (simp add: thread_step_def)
  with call j show ?thesis by auto
next
  case False
  then show ?thesis using assms(2)
    by (auto simp: thread_step_def initialize_def check_stopping_def check_cancelled_def run_operation_def
      publish_result_def drop_permit_def split: thread_phase.splits option.splits list.splits if_splits res.splits
      op_run.splits)
qed

text \<open>A completed cell is never completed again: its value stays or has been consumed.\<close>

definition keeps_results :: "('d, 's, 'v) worker \<Rightarrow> ('d, 's, 'v) worker \<Rightarrow> bool" where
  "keeps_results w w' \<longleftrightarrow> (\<forall>i c. wk_cells w i = Some c \<longrightarrow> ce_completed c \<longrightarrow>
     (\<exists>c'. wk_cells w' i = Some c' \<and> ce_completed c' \<and> ce_value c' \<in> {ce_value c, None}))"

lemma keeps_results_same [simp]: "wk_cells w' = wk_cells w \<Longrightarrow> keeps_results w w'"
  by (simp add: keeps_results_def)

lemma keeps_results_trans: "keeps_results u v \<Longrightarrow> keeps_results v w \<Longrightarrow> keeps_results u w"
  unfolding keeps_results_def by (metis insert_iff singletonD)

lemma complete_keeps: "wk_cells w' = wk_cells (complete_job i r w) \<Longrightarrow> keeps_results w w'"
  by (auto simp: keeps_results_def complete_job_cells cell_complete_def split: option.splits)

lemma complete_keeps_phase [simp]:
  "keeps_results w ((complete_job i r w)\<lparr>wk_phase := p\<rparr>)"
  "keeps_results w ((complete_job i r w)\<lparr>wk_failed := e, wk_phase := p\<rparr>)"
  by (rule complete_keeps [of _ i r]; simp)+

lemma thread_keeps: "thread_step w = Some w' \<Longrightarrow> keeps_results w w'"
  by (auto simp: thread_step_def initialize_def check_stopping_def check_cancelled_def call_operation_def
      run_operation_def publish_result_def drop_permit_def split: thread_phase.splits option.splits list.splits
      if_splits res.splits op_run.splits)

lemma step_keeps: "worker_ok w \<Longrightarrow> worker_step w w' \<Longrightarrow> keeps_results w w'"
proof -
  assume ok: "worker_ok w" and "worker_step w w'"
  from this(2) show ?thesis
  proof cases
    case thread
    then show ?thesis by (rule thread_keeps)
  next
    case client
    then show ?thesis
    proof cases
      case (send f)
      have "wk_next w \<notin> dom (wk_cells w)" using worker_okD(3) [OF ok] by (simp add: jobs_ok_def)
      then show ?thesis using send by (auto simp: keeps_results_def submit_reserved_def Let_def drop_permit_def)
    next
      case (polling i k)
      then show ?thesis
        by (auto simp: keeps_results_def poll_job_def cell_poll_def cell_take_def Let_def split: option.splits)
    qed (simp_all add: take_slot_def cancel_job_def begin_stop_def close_channel_def)
  qed
qed

text \<open>The job that has passed the load of the stopping flag and has not been called.\<close>

fun past_stop :: "('s, 'v) thread_phase \<Rightarrow> ('s, 'v) job option" where
  "past_stop (StopChecked j) = Some j"
| "past_stop (CancelChecked j) = Some j"
| "past_stop p = None"

lemma past_stop_iff: "past_stop p = Some j \<longleftrightarrow> p = StopChecked j \<or> p = CancelChecked j"
  by (cases p) auto

text \<open>
  What a run from \<open>w\<close> may have called: nothing that \<open>w\<close> had answered; of what \<open>w\<close> had cancelled,
  or had accepted when it was stopping, only the job already past the check in question.
\<close>

definition calls_from :: "('d, 's, 'v) worker \<Rightarrow> nat list \<Rightarrow> bool" where
  "calls_from w log \<longleftrightarrow>
     (\<forall>i \<in> set log. (\<forall>c. wk_cells w i = Some c \<longrightarrow> \<not> ce_completed c)
        \<and> (i \<in> wk_cancelled w \<longrightarrow> (\<exists>j. wk_phase w = CancelChecked j \<and> jb_id j = i)))
     \<and> (wk_stopping w \<longrightarrow> log = [] \<or> (\<exists>j. past_stop (wk_phase w) = Some j \<and> log = [jb_id j]))"

definition run_from :: "('d, 's, 'v) worker \<Rightarrow> ('d, 's, 'v) worker \<Rightarrow> bool" where
  "run_from w u \<longleftrightarrow> worker_ok u \<and> keeps_results w u \<and> wk_cancelled w \<subseteq> wk_cancelled u
     \<and> (wk_stopping w \<longrightarrow> wk_stopping u)
     \<and> (\<exists>log. wk_executed u = wk_executed w @ log \<and> calls_from w log)
     \<and> (\<forall>j. wk_phase u = CancelChecked j \<and> jb_id j \<in> wk_cancelled w \<longrightarrow> wk_phase w = CancelChecked j)
     \<and> (\<forall>j. wk_stopping w \<and> past_stop (wk_phase u) = Some j \<longrightarrow>
          past_stop (wk_phase w) = Some j \<and> wk_executed u = wk_executed w)"

lemma run_from_call:
  assumes "run_from w u" and "wk_phase u = CancelChecked j" and "wk_executed v = wk_executed u @ [jb_id j]"
  shows "\<exists>log. wk_executed v = wk_executed w @ log \<and> calls_from w log"
proof -
  obtain log where log: "wk_executed u = wk_executed w @ log" "calls_from w log"
    using assms(1) by (auto simp: run_from_def)
  have fresh: "\<not> ce_completed c" if c: "wk_cells w (jb_id j) = Some c" for c
  proof
    assume "ce_completed c"
    moreover have "keeps_results w u" using assms(1) by (simp add: run_from_def)
    ultimately obtain c' where "wk_cells u (jb_id j) = Some c'" "ce_completed c'"
      using c unfolding keeps_results_def by blast
    moreover have "jb_id j \<in> unanswered u" by (simp add: unanswered_def assms(2))
    moreover have "jobs_ok u" using assms(1) by (simp add: run_from_def worker_ok_def)
    ultimately show False unfolding jobs_ok_def by blast
  qed
  have cancelled: "\<exists>j'. wk_phase w = CancelChecked j' \<and> jb_id j' = jb_id j" if "jb_id j \<in> wk_cancelled w"
    using assms(1,2) that by (auto simp: run_from_def)
  have stopping: "past_stop (wk_phase w) = Some j \<and> log = []" if "wk_stopping w"
    using assms(1,2) that log(1) by (auto simp: run_from_def)
  have "calls_from w (log @ [jb_id j])"
    using log(2) fresh cancelled stopping unfolding calls_from_def by (auto simp: ball_Un)
  then show ?thesis using log(1) assms(3) by (intro exI [of _ "log @ [jb_id j]"]) simp
qed

lemma run_from_thread:
  assumes "run_from w u" and "thread_step u = Some v"
  shows "run_from w v"
proof -
  have ok: "worker_ok u" using assms(1) by (simp add: run_from_def)
  note flags = thread_flags [OF assms(2)] and past = thread_past [OF assms(2)]
  have kept: "worker_ok v" "keeps_results w v" "wk_cancelled w \<subseteq> wk_cancelled v" "wk_stopping w \<longrightarrow> wk_stopping v"
    using assms(1) thread_step_ok [OF ok assms(2)] thread_keeps [OF assms(2)] flags
    by (auto simp: run_from_def intro: keeps_results_trans)
  have stop: "wk_executed v = wk_executed u" if "past_stop (wk_phase v) = Some j" for j
    using thread_executes [OF ok assms(2)] that by auto
  have "\<exists>log. wk_executed v = wk_executed w @ log \<and> calls_from w log"
    using thread_executes [OF ok assms(2)]
  proof
    assume "wk_executed v = wk_executed u"
    then show ?thesis using assms(1) by (simp add: run_from_def)
  next
    assume "\<exists>j s. wk_phase u = CancelChecked j \<and> wk_executed v = wk_executed u @ [jb_id j]
       \<and> wk_phase v = Running j (jb_operation j s)"
    then show ?thesis using run_from_call [OF assms(1)] by blast
  qed
  moreover have "wk_phase w = CancelChecked j" if "wk_phase v = CancelChecked j" "jb_id j \<in> wk_cancelled w" for j
    using past(1) [OF that(1)] that(2) assms(1) by (auto simp: run_from_def)
  moreover have "past_stop (wk_phase w) = Some j \<and> wk_executed v = wk_executed w"
    if s: "wk_stopping w" "past_stop (wk_phase v) = Some j" for j
  proof -
    have "wk_stopping u" using s(1) assms(1) by (simp add: run_from_def)
    then have "past_stop (wk_phase u) = Some j" using s(2) past [of j] by (auto simp: past_stop_iff)
    then show ?thesis using assms(1) s(1) stop [OF s(2)] by (simp add: run_from_def)
  qed
  ultimately show ?thesis using kept unfolding run_from_def by blast
qed

lemma run_from_client:
  assumes "run_from w u" and "client_step u v"
  shows "run_from w v"
proof -
  have ok: "worker_ok u" using assms(1) by (simp add: run_from_def)
  note frame = client_frame [OF assms(2)]
  have "keeps_results w v"
    using assms(1) step_keeps [OF ok worker_step.client [OF assms(2)]] by (auto simp: run_from_def intro: keeps_results_trans)
  then show ?thesis
    using assms(1) client_step_ok [OF assms(2) ok] frame(5,6) unfolding run_from_def frame(1,4) by blast
qed

lemma run_from_steps: "worker_step\<^sup>*\<^sup>* w u \<Longrightarrow> worker_ok w \<Longrightarrow> run_from w u"
proof (induction rule: rtranclp_induct)
  case base
  then show ?case by (auto simp: run_from_def calls_from_def)
next
  case (step u v)
  from step.hyps(2) show ?case
    by cases (use step.IH step.prems in \<open>auto intro: run_from_thread run_from_client\<close>)
qed

text \<open>A job is in hand, its checks passed, and not called yet; and the same job running.\<close>

definition demo_job :: "(nat, nat) job" where
  "demo_job = \<lparr>jb_id = 0, jb_operation = demo_operation\<rparr>"

definition demo_checked :: "(nat, nat, nat) worker" where
  "demo_checked = demo_sent\<lparr>wk_state := Some 0, wk_queue := [], wk_phase := CancelChecked demo_job\<rparr>"

definition demo_running :: "(nat, nat, nat) worker" where
  "demo_running = demo_checked\<lparr>wk_executed := [0], wk_phase := Running demo_job (demo_operation 0)\<rparr>"

lemma reachable_thread: "worker_reachable w \<Longrightarrow> thread_step w = Some w' \<Longrightarrow> worker_reachable w'"
  by (rule reachable_step [OF _ worker_step.thread])

lemma reachable_client: "worker_reachable w \<Longrightarrow> client_step w w' \<Longrightarrow> worker_reachable w'"
  by (rule reachable_step [OF _ worker_step.client])

lemma demo_checked_reachable: "worker_reachable demo_checked"
proof -
  let ?w = "demo_sent\<lparr>wk_state := Some 0, wk_phase := Waiting\<rparr>"
  let ?r = "demo_sent\<lparr>wk_state := Some 0, wk_queue := [], wk_phase := Received demo_job\<rparr>"
  have "worker_reachable ?w"
    by (rule reachable_thread [OF demo_sent_reachable])
      (simp add: thread_step_def initialize_def demo_sent_def demo_spawned_def)
  then have "worker_reachable ?r"
    by (rule reachable_thread) (simp add: thread_step_def demo_sent_def demo_job_def)
  then have "worker_reachable (?r\<lparr>wk_phase := StopChecked demo_job\<rparr>)"
    by (rule reachable_thread) (simp add: thread_step_def check_stopping_def demo_sent_def demo_spawned_def)
  then show ?thesis
    by (rule reachable_thread)
      (simp add: thread_step_def check_cancelled_def demo_checked_def demo_sent_def demo_spawned_def)
qed

lemma demo_call: "thread_step demo_checked = Some demo_running"
  by (simp add: thread_step_def call_operation_def demo_running_def demo_checked_def demo_sent_def demo_spawned_def
      demo_job_def)

text \<open>
  C17: every accepted job runs at most once, in the order of submission, and its result is never
  replaced. Along any interleaving from a reachable state, the log of calls only grows, and by
  no job that was already answered; a job that is cancelled by then is called only if the thread
  is between the load of its flag and the call, and once the worker is stopping at most one more
  job is called, the one past the load of the stopping flag.
\<close>

theorem jobs_run_at_most_once:
  assumes "worker_reachable w" and "worker_step\<^sup>*\<^sup>* w w'"
  shows "sorted_wrt (<) (wk_executed w') \<and> keeps_results w w'
    \<and> (\<exists>log. wk_executed w' = wk_executed w @ log
        \<and> (\<forall>i \<in> set log. (\<forall>c. wk_cells w i = Some c \<longrightarrow> \<not> ce_completed c)
             \<and> (i \<in> wk_cancelled w \<longrightarrow> (\<exists>j. wk_phase w = CancelChecked j \<and> jb_id j = i)))
        \<and> (wk_stopping w \<longrightarrow> log = [] \<or> (\<exists>j. past_stop (wk_phase w) = Some j \<and> log = [jb_id j])))"
proof -
  note run = run_from_steps [OF assms(2) reachable_ok [OF assms(1)]]
  then have "sorted_wrt (<) (wk_executed w')" by (simp add: run_from_def worker_ok_def jobs_ok_def sorted_wrt_append)
  then show ?thesis using run unfolding run_from_def calls_from_def by blast
qed

theorem jobs_run_at_most_once_witness:
  "\<exists>w :: (nat, nat, nat) worker. worker_reachable w \<and> 0 \<in> wk_cancelled w \<and> wk_stopping w
     \<and> (\<exists>w'. worker_step\<^sup>*\<^sup>* w w' \<and> wk_executed w' = [0] \<and> keeps_results w w')"
proof -
  let ?w = "begin_stop (cancel_job 0 demo_checked)"
  have reach: "worker_reachable ?w"
    by (intro reachable_client [OF reachable_client [OF demo_checked_reachable client_step.cancelling] client_step.stopping])
      (simp_all add: cancel_job_def demo_checked_def demo_sent_def demo_spawned_def)
  have "thread_step ?w = Some (begin_stop (cancel_job 0 demo_running))"
    by (simp add: thread_step_def call_operation_def demo_running_def demo_checked_def demo_sent_def demo_spawned_def
        demo_job_def begin_stop_def cancel_job_def)
  then have step: "worker_step\<^sup>*\<^sup>* ?w (begin_stop (cancel_job 0 demo_running))"
    by (blast intro: worker_step.thread)
  have "keeps_results ?w (begin_stop (cancel_job 0 demo_running))"
    using jobs_run_at_most_once [OF reach step] by blast
  moreover have "0 \<in> wk_cancelled ?w" "wk_stopping ?w" by (simp_all add: begin_stop_def cancel_job_def)
  moreover have "wk_executed (begin_stop (cancel_job 0 demo_running)) = [0]"
    by (simp add: begin_stop_def cancel_job_def demo_running_def)
  ultimately show ?thesis using reach step by blast
qed

text \<open>A cancellation that arrives while the operation runs is what the operation sees.\<close>

lemma running_cancellation_is_cooperative:
  "map_option ce_value (wk_cells (thread_run 3 (cancel_job 0 demo_running)) 0) = Some (Some (Err Cancelled))"
  "map_option ce_value (wk_cells (thread_run 3 demo_running) 0) = Some (Some (Ok 10))"
  by (simp_all add: numeral_eq_Suc thread_step_def demo_running_def demo_checked_def demo_sent_def demo_spawned_def
      demo_job_def demo_operation_def cancel_job_def run_operation_def publish_result_def fatal_def complete_job_def
      cell_complete_def cell_new_def)

subsection \<open>After a failure\<close>

lemma failed_step:
  assumes "worker_ok u" and "wk_failed u = Some e" and "worker_step u v"
  shows "wk_failed v = Some e" and "wk_state v = wk_state u" and "wk_executed v = wk_executed u"
proof -
  have "\<not> healthy_phase (wk_phase u)" using worker_okD(2) [OF assms(1)] assms(2) by (simp add: health_ok_def)
  with assms(3) have "wk_failed v = Some e \<and> wk_state v = wk_state u \<and> wk_executed v = wk_executed u"
  proof cases
    case thread
    with \<open>\<not> healthy_phase (wk_phase u)\<close> assms(2) show ?thesis
      by (cases "wk_phase u") (auto simp: thread_step_def check_stopping_def drop_permit_def split: list.splits if_splits)
  next
    case client
    with assms(2) client_frame [of u v] show ?thesis by simp
  qed
  then show "wk_failed v = Some e" "wk_state v = wk_state u" "wk_executed v = wk_executed u" by simp_all
qed

text \<open>
  C18: a failed worker is fenced off: once the thread has recorded a failure (of the
  initializer, of an operation with a fatal error, or a panic), whatever happens next, the
  failure and the replica state stay as they are, no operation runs any more, and no new client
  gets past the checks.
\<close>

theorem failed_worker_is_fenced:
  assumes "worker_reachable w" and "wk_failed w = Some e" and "worker_step\<^sup>*\<^sup>* w w'"
  shows "wk_failed w' = Some e \<and> wk_state w' = wk_state w \<and> wk_executed w' = wk_executed w
    \<and> reserve_slot w' = (Err DeviceLost, w')"
proof -
  have "worker_reachable w' \<and> wk_failed w' = Some e \<and> wk_state w' = wk_state w \<and> wk_executed w' = wk_executed w"
    using assms(3)
  proof induction
    case (step u v)
    have "worker_ok u" using reachable_ok step.IH by blast
    from failed_step [OF this _ step.hyps(2)] step.IH reachable_step step.hyps(2) show ?case by metis
  qed (use assms(1,2) in simp)
  moreover from this have "wk_quarantined w'" using worker_okD(2) [OF reachable_ok] by (auto simp: health_ok_def)
  ultimately show ?thesis by (simp add: reserve_slot_def check_open_def)
qed

theorem failed_worker_is_fenced_witness:
  "\<exists>w :: (nat, nat, nat) worker. wk_failed w = Some DeviceLost \<and> reserve_slot w = (Err DeviceLost, w)"
proof -
  let ?s = "demo_spawned\<lparr>wk_initialize := Err DeviceLost\<rparr>"
  let ?w = "?s\<lparr>wk_failed := Some DeviceLost, wk_quarantined := True, wk_phase := Waiting\<rparr>"
  have "worker_spawn 0 2 (Err DeviceLost) = Ok ?s" by (simp add: worker_spawn_def demo_spawned_def)
  then have "worker_reachable ?s" unfolding worker_reachable_def by blast
  moreover have "thread_step ?s = Some ?w" by (simp add: thread_step_def initialize_def demo_spawned_def)
  ultimately have reach: "worker_reachable ?w" by (rule reachable_thread)
  have failed: "wk_failed ?w = Some DeviceLost" by simp
  from failed_worker_is_fenced [OF reach failed rtranclp.rtrancl_refl] failed show ?thesis by blast
qed

subsection \<open>Shutdown\<close>

text \<open>
  A run in which the thread took a given number of steps and the clients any number. An
  operation returns within \<open>n\<close> looks when it does so whatever the looks answer; the operation
  in hand is the one that runs, or will once its checks are passed.
\<close>

inductive counted_run :: "nat \<Rightarrow> ('d, 's, 'v) worker \<Rightarrow> ('d, 's, 'v) worker \<Rightarrow> bool" where
  start: "counted_run 0 w w"
| thread: "counted_run n w u \<Longrightarrow> thread_step u = Some v \<Longrightarrow> counted_run (Suc n) w v"
| client: "counted_run n w u \<Longrightarrow> client_step u v \<Longrightarrow> counted_run n w v"

primrec op_within :: "nat \<Rightarrow> ('s, 'v) op_run \<Rightarrow> bool" where
  "op_within 0 p = (case p of Finished r s \<Rightarrow> True | Look k \<Rightarrow> False)"
| "op_within (Suc n) p = (case p of Finished r s \<Rightarrow> True | Look k \<Rightarrow> op_within n (k True) \<and> op_within n (k False))"

fun phase_within :: "nat \<Rightarrow> 's option \<Rightarrow> ('s, 'v) thread_phase \<Rightarrow> bool" where
  "phase_within n s (Running j p) = op_within n p"
| "phase_within n s (StopChecked j) = (case s of None \<Rightarrow> True | Some s \<Rightarrow> op_within n (jb_operation j s))"
| "phase_within n s (CancelChecked j) = (case s of None \<Rightarrow> True | Some s \<Rightarrow> op_within n (jb_operation j s))"
| "phase_within n s p = True"

definition in_hand_within :: "nat \<Rightarrow> ('d, 's, 'v) worker \<Rightarrow> bool" where
  "in_hand_within n w = phase_within n (wk_state w) (wk_phase w)"

text \<open>The steps the thread still needs once the channel is closed.\<close>

fun phase_steps :: "nat \<Rightarrow> ('s, 'v) thread_phase \<Rightarrow> nat" where
  "phase_steps n Starting = 2"
| "phase_steps n Waiting = 1"
| "phase_steps n (Received j) = 4"
| "phase_steps n (StopChecked j) = 7 + n"
| "phase_steps n (CancelChecked j) = 6 + n"
| "phase_steps n (Rejecting j) = 3"
| "phase_steps n (Running j p) = 5 + n"
| "phase_steps n (Returned j r) = 4"
| "phase_steps n (Ran j e) = 3"
| "phase_steps n (OperationPanicked j) = 4"
| "phase_steps n (PanicFenced j) = 3"
| "phase_steps n (Releasing j) = 2"
| "phase_steps n Exited = 0"

definition drain_steps :: "nat \<Rightarrow> ('d, 's, 'v) worker \<Rightarrow> nat" where
  "drain_steps n w = 4 * length (wk_queue w) + phase_steps n (wk_phase w)"

lemma drain_bound: "drain_steps n w \<le> 4 * length (wk_queue w) + n + 7"
  by (cases "wk_phase w") (simp_all add: drain_steps_def)

lemma run_drains:
  assumes "op_within n p" and "wk_phase w = Running j p"
  shows "\<exists>m. in_hand_within m (run_operation j p w) \<and> drain_steps m (run_operation j p w) < drain_steps n w"
proof (cases p)
  case (Finished r s)
  then show ?thesis by (cases r) (auto simp: run_operation_def in_hand_within_def drain_steps_def assms(2))
next
  case (Look k)
  then obtain m where m: "n = Suc m" using assms(1) by (cases n) auto
  then have "op_within m (k b)" for b using assms(1) Look by (cases b) simp_all
  then show ?thesis
    by (intro exI [of _ m]) (simp add: run_operation_def Look in_hand_within_def drain_steps_def assms(2) m)
qed

lemma thread_step_drains:
  assumes "worker_ok w" and "wk_stopping w" and "in_hand_within n w" and "thread_step w = Some w'"
  shows "\<exists>m. in_hand_within m w' \<and> drain_steps m w' < drain_steps n w"
proof (cases "wk_phase w")
  case (Running j p)
  then show ?thesis using assms(3,4) run_drains [of n p w j] by (simp add: thread_step_def in_hand_within_def)
next
  case (CancelChecked j)
  obtain s where "wk_state w = Some s" and call: "call_operation j w =
      w\<lparr>wk_executed := wk_executed w @ [jb_id j], wk_phase := Running j (jb_operation j s)\<rparr>"
    by (rule call_ok [OF assms(1) CancelChecked])
  moreover have "w' = call_operation j w" using assms(4) CancelChecked by (simp add: thread_step_def)
  ultimately show ?thesis using assms(3) CancelChecked
    by (intro exI [of _ n]) (simp add: in_hand_within_def drain_steps_def)
next
  case (Ran j e)
  then show ?thesis using assms(4) by (cases e) (auto simp: thread_step_def in_hand_within_def drain_steps_def)
qed (use assms(2-4) in \<open>force simp: thread_step_def in_hand_within_def drain_steps_def initialize_def check_stopping_def
      check_cancelled_def publish_result_def drop_permit_def split: option.splits list.splits if_splits res.splits\<close>)+

text \<open>Once the worker is stopping, no client gets a job in.\<close>

lemma client_stopped:
  assumes "worker_ok w" and "wk_stopping w" and "client_step w w'"
  shows "wk_queue w' = wk_queue w" and "wk_next w' = wk_next w" and "\<not> wk_sender w \<longrightarrow> \<not> wk_sender w'"
  using assms(3,2) worker_okD(2) [OF assms(1)]
  by (cases; auto simp: health_ok_def check_open_def cancel_job_def begin_stop_def close_channel_def poll_job_def
      split: option.splits prod.splits)+

lemma counted_steps: "counted_run k w u \<Longrightarrow> worker_step\<^sup>*\<^sup>* w u"
  by (induction rule: counted_run.induct) (auto intro: worker_step.intros rtranclp.rtrancl_into_rtrancl)

lemma counted_drains:
  assumes "counted_run k w u" and "worker_ok w" and "wk_stopping w" and "\<not> wk_sender w" and "in_hand_within n w"
  shows "worker_ok u \<and> wk_stopping u \<and> \<not> wk_sender u \<and> wk_next u = wk_next w
    \<and> (\<exists>m. in_hand_within m u \<and> drain_steps m u + k \<le> drain_steps n w)"
  using assms
proof (induction rule: counted_run.induct)
  case (thread k w u v)
  then obtain m where u: "worker_ok u" "wk_stopping u" "\<not> wk_sender u" "wk_next u = wk_next w"
    "in_hand_within m u" "drain_steps m u + k \<le> drain_steps n w" by blast
  from thread_step_drains [OF u(1,2,5) thread.hyps(2)] obtain m' where
    "in_hand_within m' v" "drain_steps m' v < drain_steps m u" by blast
  then have "in_hand_within m' v \<and> drain_steps m' v + Suc k \<le> drain_steps n w" using u(6) by simp
  then show ?case
    using u(2-4) thread_step_ok [OF u(1) thread.hyps(2)] thread_flags [OF thread.hyps(2)] by auto
next
  case (client k w u v)
  then have u: "worker_ok u" "wk_stopping u" "\<not> wk_sender u" "wk_next u = wk_next w" by blast+
  note same = client_stopped [OF u(1,2) client.hyps(2)] and frame = client_frame [OF client.hyps(2)]
  have "in_hand_within m v = in_hand_within m u" "drain_steps m v = drain_steps m u" for m
    by (simp_all add: in_hand_within_def drain_steps_def same(1) frame(2,4))
  then show ?case
    using client.IH client.prems client_step_ok [OF client.hyps(2) u(1)] u same(2,3) frame(6) by simp
qed auto

lemma stopped_blocks:
  "wk_phase w \<noteq> Exited \<Longrightarrow> \<not> wk_sender w \<Longrightarrow> \<exists>v. thread_step w = Some v"
  by (auto simp: thread_step_def split: thread_phase.splits option.splits list.splits)

lemma exited_answers:
  assumes "worker_ok w" and "wk_phase w = Exited"
  shows "wk_outstanding w = 0 \<and> (\<forall>i < wk_next w. \<exists>c. wk_cells w i = Some c \<and> ce_completed c)"
proof -
  have ok: "counters_ok w" "health_ok w" "jobs_ok w" using assms(1) by (auto simp: worker_ok_def)
  have empty: "wk_queue w = []" "wk_permits w = 0" using ok(2) assms(2) by (auto simp: health_ok_def)
  then have "unanswered w = {}" using assms(2) by (simp add: unanswered_def queued_ids_def)
  then have cells: "dom (wk_cells w) = {..<wk_next w}" "\<forall>i c. wk_cells w i = Some c \<longrightarrow> ce_completed c"
    using ok(3) by (simp_all add: jobs_ok_def)
  have "\<exists>c. wk_cells w i = Some c \<and> ce_completed c" if "i < wk_next w" for i
  proof -
    have "i \<in> dom (wk_cells w)" using that by (simp add: cells(1))
    then show ?thesis using cells(2) by blast
  qed
  moreover have "wk_outstanding w = 0" using ok(1) assms(2) empty by (simp add: counters_ok_def)
  ultimately show ?thesis by blast
qed

text \<open>
  C19: shutdown drains: once the stopping flag is set and the channel closed, and if the
  operation in hand, running or past the load of the stopping flag, returns within \<open>n\<close> looks at
  its cancellation flag whatever they answer, then in every interleaving with the clients the
  thread takes at most four steps per queued job and \<open>n + 7\<close> more, and is never blocked before it
  returns. At most the job in hand is still called. When the thread has returned, every job that
  was ever accepted has its result and no slot is held.
\<close>

theorem shutdown_drains:
  assumes "worker_reachable w" and "wk_stopping w" and "\<not> wk_sender w" and "in_hand_within n w"
    and "counted_run k w w'"
  shows "k \<le> 4 * length (wk_queue w) + n + 7
    \<and> (wk_phase w' \<noteq> Exited \<longrightarrow> (\<exists>v. thread_step w' = Some v))
    \<and> (wk_executed w' = wk_executed w \<or>
         (\<exists>j. past_stop (wk_phase w) = Some j \<and> wk_executed w' = wk_executed w @ [jb_id j]))
    \<and> wk_next w' = wk_next w
    \<and> (wk_phase w' = Exited \<longrightarrow> wk_outstanding w' = 0 \<and>
         (\<forall>i < wk_next w. \<exists>c. wk_cells w' i = Some c \<and> ce_completed c))"
proof -
  note ok = reachable_ok [OF assms(1)]
  note run = counted_drains [OF assms(5) ok assms(2-4)]
  then have "k \<le> 4 * length (wk_queue w) + n + 7" using drain_bound [of n w] by auto
  moreover have "wk_executed w' = wk_executed w \<or>
      (\<exists>j. past_stop (wk_phase w) = Some j \<and> wk_executed w' = wk_executed w @ [jb_id j])"
    using run_from_steps [OF counted_steps [OF assms(5)] ok] assms(2) unfolding run_from_def calls_from_def by auto
  ultimately show ?thesis using run stopped_blocks [of w'] exited_answers [of w'] by simp
qed

lemma thread_run_counted: "counted_run k w u \<Longrightarrow> \<exists>m. counted_run m w (thread_run n u)"
  by (induction n arbitrary: k u) (auto intro: counted_run.intros split: option.split)

theorem shutdown_drains_witness:
  "\<exists>w w' :: (nat, nat, nat) worker. worker_reachable w \<and> wk_stopping w \<and> \<not> wk_sender w \<and> wk_executed w = []
     \<and> (\<exists>k \<le> 8. counted_run k w w') \<and> wk_phase w' = Exited \<and> wk_executed w' = [0] \<and> wk_outstanding w' = 0
     \<and> map_option ce_value (wk_cells w' 0) = Some (Some (Ok 10))"
proof -
  let ?w = "stop_worker demo_checked"
  let ?v = "thread_run 8 ?w"
  have "worker_reachable (begin_stop demo_checked)"
    by (rule reachable_client [OF demo_checked_reachable client_step.stopping])
      (simp_all add: demo_checked_def demo_sent_def demo_spawned_def)
  then have reach: "worker_reachable ?w"
    unfolding stop_worker_def by (rule reachable_client [OF _ client_step.closing]) (simp add: begin_stop_def)
  have w: "wk_stopping ?w" "\<not> wk_sender ?w" "wk_executed ?w = []" "wk_queue ?w = []" "in_hand_within 1 ?w"
    by (simp_all add: stop_worker_def begin_stop_def close_channel_def demo_checked_def demo_sent_def demo_spawned_def
        in_hand_within_def demo_job_def demo_operation_def)
  obtain k where run: "counted_run k ?w ?v" using thread_run_counted [OF counted_run.start] by blast
  note claim = shutdown_drains [OF reach w(1,2,5) run]
  have v: "wk_phase ?v = Exited" "wk_executed ?v = [0]" "map_option ce_value (wk_cells ?v 0) = Some (Some (Ok 10))"
    by (simp_all add: numeral_eq_Suc thread_step_def stop_worker_def begin_stop_def close_channel_def demo_checked_def
        demo_sent_def demo_spawned_def demo_job_def demo_operation_def call_operation_def run_operation_def
        publish_result_def fatal_def complete_job_def cell_complete_def cell_new_def drop_permit_def)
  have "k \<le> 8" "wk_outstanding ?v = 0" using claim v(1) w(4) by simp_all
  then show ?thesis using reach w(1-3) run v by blast
qed

section \<open>The replica pool\<close>

definition accepts :: "('d, 's, 'v) worker \<Rightarrow> bool" where
  "accepts w \<longleftrightarrow> check_open w = Ok () \<and> wk_outstanding w < wk_capacity w"

lemma reserve_slot_accepts: "accepts w \<Longrightarrow> reserve_slot w = take_slot w"
  by (simp add: accepts_def reserve_slot_def)

lemma reserve_slot_refuses: "\<not> accepts w \<Longrightarrow> \<exists>e. reserve_slot w = (Err e, w)"
  by (auto simp: accepts_def reserve_slot_def take_slot_def check_open_def)

lemma accepted_submit:
  assumes "worker_ok w" and "accepts w"
  shows "try_submit f w = (Ok (wk_next w), snd (try_submit f w))
    \<and> try_submit f w = submit_reserved f (snd (take_slot w)) \<and> wk_device (snd (try_submit f w)) = wk_device w
    \<and> fst (take_slot w) = Ok ()"
proof -
  have ok: "worker_ok (snd (take_slot w))"
    by (rule phase_ok [OF assms(1)]; insert worker_okD [OF assms(1)] assms(2))
      (auto simp: counters_ok_def health_ok_def queued_ids_def accepts_def check_open_def take_slot_def split: if_splits)
  have eq: "try_submit f w = submit_reserved f (snd (take_slot w))" and fst: "fst (take_slot w) = Ok ()"
    using assms(2) by (simp_all add: try_submit_def reserve_slot_accepts) (simp_all add: accepts_def take_slot_def)
  have "0 < wk_permits (snd (take_slot w))" using assms(2) by (simp add: accepts_def take_slot_def)
  from send_ok [OF ok this, of f] have "fst (try_submit f w) = Ok (wk_next w)"
    using eq by (simp add: take_slot_def split: if_splits)
  moreover have "wk_device (snd (try_submit f w)) = wk_device w"
    unfolding eq by (simp add: submit_reserved_def take_slot_def drop_permit_def Let_def)
  ultimately show ?thesis using eq fst by (metis prod.collapse)
qed

lemma submit_first_find:
  "list_all worker_ok ws \<Longrightarrow> list_all (\<lambda>i. i < length ws) is \<Longrightarrow>
   (case find (\<lambda>i. accepts (ws ! i)) is of
      None \<Rightarrow> \<exists>e'. submit_first f is e ws = (Err e', ws)
    | Some i \<Rightarrow> submit_first f is e ws =
        (Ok (wk_device (ws ! i), wk_next (ws ! i)), ws[i := snd (try_submit f (ws ! i))]))"
proof (induction "is" arbitrary: e)
  case (Cons i "is")
  show ?case
  proof (cases "accepts (ws ! i)")
    case True
    have "i < length ws" using Cons.prems(2) by simp
    then have "worker_ok (ws ! i)" using Cons.prems(1) by (simp add: list_all_length)
    note sub = accepted_submit [OF this True, of f]
    have take: "reserve_slot (ws ! i) = (Ok (), snd (take_slot (ws ! i)))"
      using sub reserve_slot_accepts [OF True] by (metis prod.collapse)
    obtain w2 where send: "submit_reserved f (snd (take_slot (ws ! i))) = (Ok (wk_next (ws ! i)), w2)"
        "snd (try_submit f (ws ! i)) = w2" "wk_device w2 = wk_device (ws ! i)"
      using sub by metis
    show ?thesis using True by (simp add: take send)
  next
    case False
    with reserve_slot_refuses [OF False] Cons show ?thesis by (auto split: option.splits)
  qed
qed simp

lemma find_sorted_least:
  "sorted (map key xs) \<Longrightarrow> find P xs = Some x \<Longrightarrow> y \<in> set xs \<Longrightarrow> P y \<Longrightarrow> key x \<le> (key y :: nat)"
  by (induction xs) (auto split: if_splits)

lemma pool_order_set: "ws \<noteq> [] \<Longrightarrow> set (pool_order start ws) = {..<length ws}"
proof -
  assume "ws \<noteq> []"
  then have n: "0 < length ws" by simp
  have "i \<in> (\<lambda>k. (start + k) mod length ws) ` {..<length ws}" if "i < length ws" for i
  proof
    let ?k = "(i + (length ws - start mod length ws)) mod length ws"
    have "(start + ?k) mod length ws = (start mod length ws + (i + (length ws - start mod length ws))) mod length ws"
      by (simp add: mod_simps)
    also have "\<dots> = (i + length ws) mod length ws"
      using mod_less_divisor [OF n, of start] by (simp add: add.commute add.left_commute)
    finally show "i = (start + ?k) mod length ws" using that by simp
  qed (use n in simp)
  then show ?thesis using n by (auto simp: pool_order_def lessThan_atLeast0)
qed

text \<open>
  the pool sends a job to a least loaded replica that accepts it: no replica that is open
  with a free slot has fewer outstanding jobs, only that replica changes, and exactly as its own
  \<open>try_submit\<close> would change it; the pool refuses a job only when every replica refuses, and
  then no replica changes.
\<close>

theorem pool_picks_least_loaded:
  assumes "rp_workers p = ws" and "ws \<noteq> []" and "list_all worker_ok ws"
  shows "case pool_try_submit f p of
      (Ok (d, j), p') \<Rightarrow> \<exists>i < length ws. accepts (ws ! i) \<and> d = wk_device (ws ! i) \<and> j = wk_next (ws ! i)
          \<and> (\<forall>k < length ws. accepts (ws ! k) \<longrightarrow> wk_outstanding (ws ! i) \<le> wk_outstanding (ws ! k))
          \<and> rp_workers p' = ws[i := snd (try_submit f (ws ! i))]
    | (Err e, p') \<Rightarrow> (\<forall>k < length ws. \<not> accepts (ws ! k)) \<and> rp_workers p' = ws
    | (Panic, p') \<Rightarrow> False"
proof -
  let ?is = "pool_order (rp_cursor p mod length ws) ws"
  have set: "set ?is = {..<length ws}" by (rule pool_order_set [OF assms(2)])
  have sorted: "sorted (map (\<lambda>i. wk_outstanding (ws ! i)) ?is)" by (simp add: pool_order_def)
  have "list_all (\<lambda>i. i < length ws) ?is" using set by (simp add: list_all_iff)
  note first = submit_first_find [OF assms(3) this, of f QueueFull]
  show ?thesis
  proof (cases "find (\<lambda>i. accepts (ws ! i)) ?is")
    case None
    then have "\<forall>k < length ws. \<not> accepts (ws ! k)" using set by (auto simp: find_None_iff)
    then show ?thesis using first None assms(1) by (auto simp: pool_try_submit_def Let_def)
  next
    case (Some i)
    then have i: "accepts (ws ! i)" "i < length ws" using set by (auto simp: find_Some_iff set_conv_nth)
    have "wk_outstanding (ws ! i) \<le> wk_outstanding (ws ! k)" if "k < length ws" "accepts (ws ! k)" for k
      using find_sorted_least [OF sorted Some, of k] that set by simp
    then show ?thesis using first Some i assms(1) by (auto simp: pool_try_submit_def Let_def)
  qed
qed

theorem pool_picks_least_loaded_witness:
  "\<exists>p'. pool_try_submit demo_operation \<lparr>rp_workers = [demo_sent, demo_spawned\<lparr>wk_device := 1\<rparr>], rp_cursor = 4\<rparr> = (Ok (1, 0), p')"
proof -
  let ?ws = "[demo_sent, demo_spawned\<lparr>wk_device := 1\<rparr>]"
  let ?p = "\<lparr>rp_workers = ?ws, rp_cursor = 4\<rparr>"
  have "worker_spawn 1 2 (Ok 0) = Ok (demo_spawned\<lparr>wk_device := 1\<rparr>)" by (simp add: worker_spawn_def demo_spawned_def)
  then have ok: "list_all worker_ok ?ws" using reachable_ok [OF demo_sent_reachable] spawn_ok by simp
  have acc: "accepts (?ws ! 1)" by (simp add: accepts_def check_open_def demo_spawned_def)
  have load: "wk_outstanding (?ws ! 0) = 1" "wk_outstanding (?ws ! 1) = 0" "wk_next (?ws ! 1) = 0" "wk_device (?ws ! 1) = 1"
    by (simp_all add: demo_sent_def demo_spawned_def)
  obtain r p' where r: "pool_try_submit demo_operation ?p = (r, p')" by fastforce
  note claim = pool_picks_least_loaded [of ?p ?ws demo_operation, OF _ _ ok, unfolded r, simplified]
  have "r = Ok (1, 0)"
  proof (cases r)
    case (Ok dj)
    obtain d j where dj: "dj = (d, j)" by fastforce
    from claim Ok dj obtain i where "i < 2" "d = wk_device (?ws ! i)" "j = wk_next (?ws ! i)"
        "wk_outstanding (?ws ! i) \<le> wk_outstanding (?ws ! 1)"
      using acc by (fastforce simp: numeral_2_eq_2)
    with load have "i = 1" by (cases i) (auto simp: less_Suc_eq numeral_2_eq_2)
    with \<open>d = _\<close> \<open>j = _\<close> load Ok dj show ?thesis by simp
  qed (use claim acc in \<open>force+\<close>)
  then show ?thesis using r by blast
qed

end
