(* ===== verification/Fenced.thy ===== *)
theory Fenced
  imports BatchMachine Runtime
begin

text \<open>
  The synchronization gate of \<open>src/src/continuous_batch/fenced.rs\<close> around the scheduler, and
  the strict validation of logits it uses (\<open>checked_argmax\<close> of \<open>src/src/runtime/numerics.rs\<close>).

  A fence belongs to the adapter: \<open>poll\<close>, a parameter, returns what \<open>poll_complete\<close> returns
  and the fence afterwards. What the adapter does with a batch, the argument of \<open>launch\<close>, is a
  function from the batch to its outcome. Both may panic.
\<close>

section \<open>Logit validation\<close>

text \<open>
  A logit is \<open>None\<close> for NaN, otherwise a value of an ordered type; \<open>is_finite\<close> and \<open>is_top\<close>
  (positive infinity) are the predicates of \<open>f32\<close>.
\<close>

fun argmax_scan ::
  "('f \<Rightarrow> bool) \<Rightarrow> ('f \<Rightarrow> bool) \<Rightarrow> nat \<Rightarrow> ('f::linorder) logit list \<Rightarrow> (nat \<times> 'f) option \<Rightarrow> (nat \<times> 'f) option runtime_res" where
  "argmax_scan is_finite is_top i [] best = Ok best"
| "argmax_scan is_finite is_top i (None # vs) best = Err Numerical"
| "argmax_scan is_finite is_top i (Some x # vs) best =
     (if is_top x then Err Numerical
      else argmax_scan is_finite is_top (Suc i) vs
             (if is_finite x \<and> (case best of None \<Rightarrow> True | Some (_, y) \<Rightarrow> x > y) then Some (i, x) else best))"

definition checked_argmax :: "('f \<Rightarrow> bool) \<Rightarrow> ('f \<Rightarrow> bool) \<Rightarrow> ('f::linorder) logit list \<Rightarrow> nat runtime_res" where
  "checked_argmax is_finite is_top vs =
     (case argmax_scan is_finite is_top 0 vs None of
        Ok (Some (i, _)) \<Rightarrow> Ok i | Ok None \<Rightarrow> Err Numerical | Err e \<Rightarrow> Err e | Panic \<Rightarrow> Panic)"

fun check_rows :: "('f \<Rightarrow> bool) \<Rightarrow> ('f \<Rightarrow> bool) \<Rightarrow> ('f::linorder) logit list list \<Rightarrow> unit runtime_res" where
  "check_rows is_finite is_top [] = Ok ()"
| "check_rows is_finite is_top (r # rs) =
     (case checked_argmax is_finite is_top r of
        Ok _ \<Rightarrow> check_rows is_finite is_top rs | Err e \<Rightarrow> Err e | Panic \<Rightarrow> Panic)"

section \<open>The gate\<close>

datatype fence_poll = FencePending | FenceReady | FenceFailed runtime_error_kind | FencePanicked

datatype 'a poll = PollPending | PollReady 'a

datatype 'f launch_outcome =
    Launched 'f
  | LaunchFailed runtime_error_kind work_state bool
  | LaunchPanicked

record ('smp, 'f) fenced =
  gt_scheduler :: "'smp scheduler"
  gt_fence :: "(nat \<times> 'f \<times> bool) option"
  gt_quarantined :: bool

type_synonym ('smp, 'f, 'a) gate_op = "(('smp, 'f) fenced, runtime_error_kind, 'a) op"

definition fenced_new :: "'smp scheduler \<Rightarrow> ('smp, 'f) fenced runtime_res" where
  "fenced_new s =
     (if in_flight s \<noteq> None then Err InvalidInput
      else Ok \<lparr>gt_scheduler = s, gt_fence = None, gt_quarantined = False\<rparr>)"

definition ensure_healthy :: "('smp, 'f, unit) gate_op" where
  "ensure_healthy g = (if gt_quarantined g then (Err DeviceLost, g) else (Ok (), g))"

text \<open>A call of the scheduler; \<open>map_error\<close> makes every error an invalid input.\<close>

definition on_scheduler :: "('smp, 'a) sched_op \<Rightarrow> ('smp, 'f, 'a) gate_op" where
  "on_scheduler m g =
     (case m (gt_scheduler g) of
        (Ok a, s) \<Rightarrow> (Ok a, g\<lparr>gt_scheduler := s\<rparr>)
      | (Err e, s) \<Rightarrow> (Err InvalidInput, g\<lparr>gt_scheduler := s\<rparr>)
      | (Panic, s) \<Rightarrow> (Panic, g\<lparr>gt_scheduler := s\<rparr>))"

definition fenced_submit :: "token list \<Rightarrow> generation_config \<Rightarrow> ('smp, 'f, nat) gate_op" where
  "fenced_submit prompt g = bind_op ensure_healthy (\<lambda>_. on_scheduler (submit prompt g))"

definition fenced_submit_sampled ::
  "('c \<Rightarrow> 'smp option) \<Rightarrow> token list \<Rightarrow> generation_config \<Rightarrow> 'c \<Rightarrow> ('smp, 'f, nat) gate_op" where
  "fenced_submit_sampled new_sampler prompt g c =
     bind_op ensure_healthy (\<lambda>_. on_scheduler (submit_sampled new_sampler prompt g c))"

definition rollback_safe :: "runtime_error_kind \<Rightarrow> work_state \<Rightarrow> bool \<Rightarrow> bool" where
  "rollback_safe e work intact \<longleftrightarrow> work \<noteq> UnknownWork \<and> intact \<and> \<not> fatal e"

text \<open>The outcome of the adapter, with the gate quarantined while it runs.\<close>

definition settle_launch :: "sched_batch \<Rightarrow> 'f launch_outcome \<Rightarrow> ('smp, 'f, sched_batch option) gate_op" where
  "settle_launch batch r g =
     (let g1 = g\<lparr>gt_quarantined := True\<rparr>
      in case r of
           Launched f \<Rightarrow> (Ok (Some batch), g1\<lparr>gt_fence := Some (sb_id batch, f, False), gt_quarantined := False\<rparr>)
         | LaunchFailed e work intact \<Rightarrow>
             if rollback_safe e work intact
             then bind_op (on_scheduler (fail_batch (sb_id batch)))
                    (\<lambda>_ g. (Err e, g\<lparr>gt_quarantined := False\<rparr>)) g1
             else (Err e, g1)
         | LaunchPanicked \<Rightarrow> (Panic, g1))"

definition launch ::
  "chain_fun \<Rightarrow> (sched_batch \<Rightarrow> 'f launch_outcome) \<Rightarrow> ('smp, 'f, sched_batch option) gate_op" where
  "launch chain adapter =
     bind_op ensure_healthy (\<lambda>_. bind_op (on_scheduler (schedule chain)) (\<lambda>b.
       case b of None \<Rightarrow> ret_op None | Some batch \<Rightarrow> settle_launch batch (adapter batch)))"

definition poll_fence :: "('f \<Rightarrow> fence_poll \<times> 'f) \<Rightarrow> nat \<Rightarrow> ('smp, 'f, unit poll) gate_op" where
  "poll_fence poll bid =
     bind_op ensure_healthy (\<lambda>_ g.
       case gt_fence g of
         None \<Rightarrow> (Err InvalidInput, g)
       | Some (i, f, over) \<Rightarrow>
           if i \<noteq> bid then (Err InvalidInput, g)
           else if over then (Ok (PollReady ()), g)
           else
             (case poll f of
                (FencePending, f') \<Rightarrow> (Ok PollPending, g\<lparr>gt_fence := Some (i, f', False)\<rparr>)
              | (FenceReady, f') \<Rightarrow> (Ok (PollReady ()), g\<lparr>gt_fence := Some (i, f', True)\<rparr>)
              | (FenceFailed e, f') \<Rightarrow> (Err e, g\<lparr>gt_fence := Some (i, f', False), gt_quarantined := True\<rparr>)
              | (FencePanicked, f') \<Rightarrow> (Panic, g\<lparr>gt_fence := Some (i, f', False), gt_quarantined := True\<rparr>)))"

text \<open>The host part of \<open>try_complete_logits\<close>, once the fence is complete.\<close>

definition commit_logits ::
  "('f \<Rightarrow> bool) \<Rightarrow> ('f \<Rightarrow> bool) \<Rightarrow>
     ('smp \<Rightarrow> ('f::linorder) logit list \<Rightarrow> token list \<Rightarrow> token list \<Rightarrow> (sched_error, token) res \<times> 'smp) \<Rightarrow>
     ('smp \<Rightarrow> 'smp) \<Rightarrow> chain_fun \<Rightarrow> nat \<Rightarrow> 'f logit list \<Rightarrow> nat \<Rightarrow> ('smp, 'g, token list poll) gate_op" where
  "commit_logits is_finite is_top sample clear chain bid logits vocabulary g =
     (case in_flight (gt_scheduler g) of
        None \<Rightarrow> (Panic, g)
      | Some b \<Rightarrow>
          if vocabulary = 0 \<or> checked_mul (batch_size b) vocabulary \<noteq> Some (length logits) then (Err InvalidInput, g)
          else
            (case check_rows is_finite is_top (chunks vocabulary (batch_size b) logits) of
               Err e \<Rightarrow> (Err e, g) | Panic \<Rightarrow> (Panic, g)
             | Ok _ \<Rightarrow>
                 (case select_batch_tokens sample clear bid logits vocabulary (gt_scheduler g) of
                    Err e \<Rightarrow> (Err InvalidInput, g) | Panic \<Rightarrow> (Panic, g)
                  | Ok selected \<Rightarrow>
                      bind_op (on_scheduler (complete_selected_batch chain selected))
                        (\<lambda>toks g. (Ok (PollReady toks), g\<lparr>gt_fence := None\<rparr>)) g)))"

definition try_complete_logits ::
  "('g \<Rightarrow> fence_poll \<times> 'g) \<Rightarrow> ('f \<Rightarrow> bool) \<Rightarrow> ('f \<Rightarrow> bool) \<Rightarrow>
     ('smp \<Rightarrow> ('f::linorder) logit list \<Rightarrow> token list \<Rightarrow> token list \<Rightarrow> (sched_error, token) res \<times> 'smp) \<Rightarrow>
     ('smp \<Rightarrow> 'smp) \<Rightarrow> chain_fun \<Rightarrow> nat \<Rightarrow> 'f logit list \<Rightarrow> nat \<Rightarrow> ('smp, 'g, token list poll) gate_op" where
  "try_complete_logits poll is_finite is_top sample clear chain bid logits vocabulary =
     bind_op (poll_fence poll bid) (\<lambda>p.
       case p of
         PollPending \<Rightarrow> ret_op PollPending
       | PollReady _ \<Rightarrow> commit_logits is_finite is_top sample clear chain bid logits vocabulary)"

definition try_rollback :: "('f \<Rightarrow> fence_poll \<times> 'f) \<Rightarrow> nat \<Rightarrow> ('smp, 'f, unit poll) gate_op" where
  "try_rollback poll bid =
     bind_op (poll_fence poll bid) (\<lambda>p.
       case p of
         PollPending \<Rightarrow> ret_op PollPending
       | PollReady _ \<Rightarrow>
           bind_op (on_scheduler (fail_batch bid)) (\<lambda>_ g. (Ok (PollReady ()), g\<lparr>gt_fence := None\<rparr>)))"

definition fenced_cancel :: "nat \<Rightarrow> ('smp, 'f, cancelled_generation option) gate_op" where
  "fenced_cancel rid = bind_op ensure_healthy (\<lambda>_. on_scheduler (cancel rid))"

definition fenced_set_limit :: "nat \<Rightarrow> ('smp, 'f, unit) gate_op" where
  "fenced_set_limit n = bind_op ensure_healthy (\<lambda>_. on_scheduler (set_batch_token_limit n))"

definition fenced_pop :: "('smp, 'f) fenced \<Rightarrow> finished_generation option \<times> ('smp, 'f) fenced" where
  "fenced_pop g = (let (r, s) = pop_finished (gt_scheduler g) in (r, g\<lparr>gt_scheduler := s\<rparr>))"

text \<open>\<open>Drop\<close> forgets a fence that is not complete; the fence that is leaked, if any.\<close>

definition fenced_drop :: "('smp, 'f) fenced \<Rightarrow> 'f option" where
  "fenced_drop g = (case gt_fence g of Some (_, f, over) \<Rightarrow> if over then None else Some f | None \<Rightarrow> None)"

end
