(* ===== verification/FencedProps.thy ===== *)
theory FencedProps
  imports Fenced BatchProps
begin

text \<open>
  The gate keeps the invariant of the scheduler and the agreement of fence and batch; it
  commits or rolls back only after its fence completed; a quarantined gate does nothing.
\<close>

section \<open>Logit validation\<close>

text \<open>
  On logits that pass the strict validation the greedy choice is the validated one: a value
  that is neither finite nor positive infinity is below every finite one.
\<close>

lemma argmax_scan_agrees:
  assumes "\<And>x y. \<not> fin x \<Longrightarrow> \<not> tp x \<Longrightarrow> fin y \<Longrightarrow> x < y"
    and "case best of None \<Rightarrow> True | Some (_, y) \<Rightarrow> fin y"
    and "best' = best \<or> best = None \<and> (case best' of None \<Rightarrow> True | Some (_, y) \<Rightarrow> \<not> fin y \<and> \<not> tp y)"
    and "argmax_scan fin tp i vs best = Ok (Some p)"
  shows "greedy_scan i vs best' = Some p"
  using assms
proof (induction fin tp i vs best arbitrary: best' rule: argmax_scan.induct)
  case (3 fin tp i x vs best)
  note below = "3.prems"(1)
  have up: "\<not> fin a \<Longrightarrow> \<not> tp a \<Longrightarrow> fin b \<Longrightarrow> \<not> b < a" for a b using below [of a b] by auto
  have x: "\<not> tp x" using "3.prems"(4) by (simp split: if_splits)
  let ?new = "if fin x \<and> (case best of None \<Rightarrow> True | Some (_, y) \<Rightarrow> x > y) then Some (i, x) else best"
  let ?new' = "case best' of None \<Rightarrow> Some (i, x) | Some (j, y) \<Rightarrow> if x > y then Some (i, x) else best'"
  have "case ?new of None \<Rightarrow> True | Some (_, y) \<Rightarrow> fin y" using "3.prems"(2) by (auto split: option.splits)
  moreover have "?new' = ?new \<or> ?new = None \<and> (case ?new' of None \<Rightarrow> True | Some (_, y) \<Rightarrow> \<not> fin y \<and> \<not> tp y)"
    using "3.prems"(2,3) x by (auto simp: below up split: option.splits)
  ultimately show ?case using "3.IH" [OF x below, of ?new'] "3.prems"(4) x by simp
qed auto

lemma checked_argmax_greedy:
  assumes "\<And>x y. \<not> fin x \<Longrightarrow> \<not> tp x \<Longrightarrow> fin y \<Longrightarrow> x < y"
    and "checked_argmax fin tp vs = Ok i" and "i \<le> i32_max"
  shows "greedy_token vs row = Ok (int i)"
proof -
  obtain y where "argmax_scan fin tp 0 vs None = Ok (Some (i, y))"
    using assms(2) by (auto simp: checked_argmax_def split: res.splits option.splits)
  from argmax_scan_agrees [OF assms(1) _ _ this, of None] assms(3) show ?thesis by (simp add: greedy_token_def)
qed

section \<open>Token selection\<close>

lemma greedy_token_no_panic: "greedy_token vs row \<noteq> Panic"
  by (simp add: greedy_token_def split: option.splits prod.splits)

lemma select_rows_no_panic:
  assumes "\<And>rid vs smp. active s rid \<noteq> None \<Longrightarrow> fst (select rid vs smp) \<noteq> Panic"
  shows "select_rows select clear bid s rows st \<noteq> Panic"
proof (induction rows arbitrary: st)
  case (Cons row rows)
  obtain r vs where row: "row = (r, vs)" by (cases row)
  show ?case
  proof (cases "active s (sc_request r)")
    case (Some a)
    have "select (sc_request r) vs smp \<noteq> (Panic, y)" for smp y
      using assms [of "sc_request r" vs smp] by (auto simp: Some)
    then show ?thesis using Cons.IH Some
      by (auto simp: row split: option.splits res.splits prod.splits)
  qed (simp add: row)
qed simp

lemma collect_samplers_no_panic: "collect_samplers s rows \<noteq> Panic"
  by (induction rows) (auto split: option.splits res.splits)

lemma select_batch_no_panic:
  assumes "\<And>x vs p h. fst (sample x vs p h) \<noteq> Panic"
  shows "select_batch_tokens sample clear bid logits vocabulary s \<noteq> Panic"
proof -
  let ?sel = "\<lambda>rid values smp. case smp of
               Some x \<Rightarrow>
                 (case active s rid of
                    None \<Rightarrow> (Panic, smp)
                  | Some a \<Rightarrow> (let (t, y) = sample x values (ac_prompt a) (ac_generated a) in (t, Some y)))
             | None \<Rightarrow> (greedy_token values 0, None)"
  have "fst (?sel rid vs smp) \<noteq> Panic" if "active s rid \<noteq> None" for rid vs smp
    using that assms by (cases smp) (auto simp: greedy_token_no_panic case_prod_beta)
  then have "select_rows ?sel clear bid s rows st \<noteq> Panic" for rows st
    by (rule select_rows_no_panic)
  then show ?thesis using collect_samplers_no_panic [of s]
    by (auto simp: select_batch_tokens_def select_batch_tokens_with_def batch_sampling_state_def in_flight_batch_def
        split: res.splits option.splits if_splits)
qed

section \<open>Committing a selection\<close>

lemma sampler_idle:
  assumes "idle_inv s" and "active s rid = Some a"
  shows "idle_inv (s\<lparr>active := (active s)(rid \<mapsto> a\<lparr>ac_sampler := smp\<rparr>)\<rparr>)"
proof -
  have base: "base_inv s" using assms(1) by (simp add: idle_inv_def)
  have "request_ok (kv_cap (kv s)) (a\<lparr>ac_sampler := smp\<rparr>)"
    using base_request [OF base assms(2)] by (auto simp: request_ok_def)
  moreover have "phase_ok L rid (a\<lparr>ac_sampler := smp\<rparr>) = phase_ok L rid a" for L rid
    by (simp add: phase_ok_def split: phase.split)
  ultimately show ?thesis using base_inv_active [OF base assms(2)] assms by (simp add: idle_inv_def)
qed

lemma store_samplers_idle: "idle_inv s \<Longrightarrow> idle_inv (store_samplers ss s)"
proof (induction ss arbitrary: s)
  case (Cons p ss)
  obtain rid smp where p: "p = (rid, smp)" by (cases p)
  show ?case
  proof (cases "active s rid")
    case None
    then show ?thesis using Cons p by simp
  next
    case (Some a)
    then show ?thesis using Cons.IH [OF sampler_idle [OF Cons.prems Some, of "Some smp"]] p by simp
  qed
qed simp

lemma complete_selected_cases:
  assumes "sched_inv s" and "\<forall>b. in_flight s = Some b \<longrightarrow> sb_kind b \<noteq> Verify"
  shows "(\<exists>e. complete_selected_batch chain sel s = (Err e, s)) \<or>
     (\<exists>t. complete_selected_batch chain sel s = (Ok (sel_tokens sel), t) \<and> idle_inv t)"
  using complete_batch_cases [OF assms, of chain "sel_batch sel" "sel_tokens sel"]
  by (auto simp: complete_selected_batch_def bind_op_def completed_def intro: store_samplers_idle)

section \<open>The invariant of the gate\<close>

text \<open>A healthy gate tracks exactly the batch in flight.\<close>

definition gate_inv :: "('smp, 'f) fenced \<Rightarrow> bool" where
  "gate_inv g \<longleftrightarrow> sched_inv (gt_scheduler g)
     \<and> (\<not> gt_quarantined g \<longrightarrow>
          map_option fst (gt_fence g) = map_option sb_id (in_flight (gt_scheduler g)))"

lemma wp_on_scheduler:
  "wp m (\<lambda>a s. Q a (g\<lparr>gt_scheduler := s\<rparr>)) (\<lambda>e s. E InvalidInput (g\<lparr>gt_scheduler := s\<rparr>)) (gt_scheduler g) \<Longrightarrow>
     wp (on_scheduler m) Q E g"
  by (auto simp: wp_def on_scheduler_def split: prod.splits res.splits)

lemma wp_healthy:
  assumes "gt_quarantined g \<Longrightarrow> E DeviceLost g" and "\<not> gt_quarantined g \<Longrightarrow> wp m Q E g"
  shows "wp (bind_op ensure_healthy (\<lambda>_. m)) Q E g"
  using assms by (auto simp: wp_def bind_op_def ensure_healthy_def)

lemma wp_scheduler_call:
  assumes "gate_inv g"
    and "wp m (\<lambda>_ t. sched_inv t \<and> in_flight t = in_flight (gt_scheduler g))
              (\<lambda>_ t. sched_inv t \<and> in_flight t = in_flight (gt_scheduler g)) (gt_scheduler g)"
  shows "wp (bind_op ensure_healthy (\<lambda>_. on_scheduler m)) (\<lambda>_. gate_inv) (\<lambda>_. gate_inv) g"
proof (rule wp_healthy)
  show "wp (on_scheduler m) (\<lambda>_. gate_inv) (\<lambda>_. gate_inv) g"
    by (rule wp_on_scheduler, rule wp_conseq [OF assms(2)]) (use assms(1) in \<open>simp_all add: gate_inv_def\<close>)
qed (use assms in simp)

lemma submit_in_flight: "in_flight (snd (submit_with_sampler prompt g smp s)) = in_flight s"
  by (simp add: submit_with_sampler_def Let_def split: option.splits)

lemma submit_call:
  assumes "sched_inv s"
  shows "wp (submit_with_sampler prompt g smp) (\<lambda>_ t. sched_inv t \<and> in_flight t = in_flight s)
      (\<lambda>_ t. sched_inv t \<and> in_flight t = in_flight s) s"
proof (rule wpI)
  note w = submit_inv [OF assms, of prompt g smp]
  note fl = submit_in_flight [of prompt g smp s]
  show "fst (submit_with_sampler prompt g smp s) \<noteq> Panic" by (rule wp_no_panic [OF w])
  fix x t assume "submit_with_sampler prompt g smp s = (Ok x, t)"
  with wp_OkD [OF w this] fl show "sched_inv t \<and> in_flight t = in_flight s" by simp
next
  note w = submit_inv [OF assms, of prompt g smp]
  fix e t assume "submit_with_sampler prompt g smp s = (Err e, t)"
  from wp_ErrD [OF w this] assms show "sched_inv t \<and> in_flight t = in_flight s" by simp
qed

text \<open>What the adapter may do: neither its launch nor its fence panics.\<close>

datatype ('smp, 'f, 'c, 'l) gate_cmd =
    GSubmit "token list" generation_config
  | GSubmitSampled "token list" generation_config 'c
  | GLaunch "sched_batch \<Rightarrow> 'f launch_outcome"
  | GComplete nat "'l logit list" nat
  | GRollback nat
  | GCancel nat
  | GLimit nat
  | GPop

record ('smp, 'f, 'c, 'l) gate_env =
  en_poll :: "'f \<Rightarrow> fence_poll \<times> 'f"
  en_finite :: "'l \<Rightarrow> bool"
  en_top :: "'l \<Rightarrow> bool"
  en_sample :: "'smp \<Rightarrow> 'l logit list \<Rightarrow> token list \<Rightarrow> token list \<Rightarrow> (sched_error, token) res \<times> 'smp"
  en_clear :: "'smp \<Rightarrow> 'smp"
  en_chain :: chain_fun
  en_sampler :: "'c \<Rightarrow> 'smp option"

fun gate_step :: "('smp, 'f, 'c, 'l::linorder) gate_env \<Rightarrow> ('smp, 'f, 'c, 'l) gate_cmd \<Rightarrow> ('smp, 'f, unit) gate_op" where
  "gate_step v (GSubmit prompt c) g = ignore (fenced_submit prompt c) g"
| "gate_step v (GSubmitSampled prompt c x) g = ignore (fenced_submit_sampled (en_sampler v) prompt c x) g"
| "gate_step v (GLaunch adapter) g = ignore (launch (en_chain v) adapter) g"
| "gate_step v (GComplete bid logits n) g =
     ignore (try_complete_logits (en_poll v) (en_finite v) (en_top v) (en_sample v) (en_clear v) (en_chain v) bid logits n) g"
| "gate_step v (GRollback bid) g = ignore (try_rollback (en_poll v) bid) g"
| "gate_step v (GCancel rid) g = ignore (fenced_cancel rid) g"
| "gate_step v (GLimit n) g = fenced_set_limit n g"
| "gate_step v GPop g = (Ok (), snd (fenced_pop g))"

text \<open>
  The environment: polling and sampling do not panic; with speculation on, reservation
  identifiers are left for a whole batch and the draft length does not overflow the width of a
  row (\<open>id_room\<close>), and the gate is not used for verification batches.
\<close>

definition calm :: "('smp, 'f, 'c, 'l) gate_env \<Rightarrow> bool" where
  "calm v \<longleftrightarrow> (\<forall>f. fst (en_poll v f) \<noteq> FencePanicked) \<and> (\<forall>x vs p h. fst (en_sample v x vs p h) \<noteq> Panic)"

fun gate_pre :: "('smp, 'f, 'c, 'l) gate_env \<Rightarrow> ('smp, 'f, 'c, 'l) gate_cmd \<Rightarrow> ('smp, 'f) fenced \<Rightarrow> bool" where
  "gate_pre v (GLaunch adapter) g \<longleftrightarrow> calm v \<and> (\<forall>b. adapter b \<noteq> LaunchPanicked) \<and> id_room (gt_scheduler g)"
| "gate_pre v (GComplete bid logits n) g \<longleftrightarrow>
     calm v \<and> (\<forall>b. in_flight (gt_scheduler g) = Some b \<longrightarrow> sb_kind b \<noteq> Verify)"
| "gate_pre v c g \<longleftrightarrow> calm v"

text \<open>The fence after a poll; the scheduler is not touched.\<close>

lemma poll_fence_cases:
  assumes "\<forall>f. fst (poll f) \<noteq> FencePanicked"
  obtains (refused) e h where "poll_fence poll bid g = (Err e, h)" and "gt_scheduler h = gt_scheduler g"
      and "h = g \<or> gt_quarantined h"
  | (pending) f h where "\<not> gt_quarantined g" and "gt_fence g = Some (bid, f, False)" and "fst (poll f) = FencePending"
      and "poll_fence poll bid g = (Ok PollPending, h)" and "h = g\<lparr>gt_fence := Some (bid, snd (poll f), False)\<rparr>"
  | (ready) f c f' h where "\<not> gt_quarantined g" and "gt_fence g = Some (bid, f, c)"
      and "c \<or> fst (poll f) = FenceReady" and "poll_fence poll bid g = (Ok (PollReady ()), h)"
      and "h = g\<lparr>gt_fence := Some (bid, f', True)\<rparr>"
proof (cases "gt_quarantined g")
  case True
  then show ?thesis using refused by (simp add: poll_fence_def ensure_healthy_def)
next
  case False
  then have step: "poll_fence poll bid g = (case gt_fence g of
         None \<Rightarrow> (Err InvalidInput, g)
       | Some (i, f, over) \<Rightarrow>
           if i \<noteq> bid then (Err InvalidInput, g)
           else if over then (Ok (PollReady ()), g)
           else
             (case poll f of
                (FencePending, f') \<Rightarrow> (Ok PollPending, g\<lparr>gt_fence := Some (i, f', False)\<rparr>)
              | (FenceReady, f') \<Rightarrow> (Ok (PollReady ()), g\<lparr>gt_fence := Some (i, f', True)\<rparr>)
              | (FenceFailed e, f') \<Rightarrow> (Err e, g\<lparr>gt_fence := Some (i, f', False), gt_quarantined := True\<rparr>)
              | (FencePanicked, f') \<Rightarrow> (Panic, g\<lparr>gt_fence := Some (i, f', False), gt_quarantined := True\<rparr>)))"
    by (simp add: poll_fence_def ensure_healthy_def)
  show ?thesis
  proof (cases "gt_fence g")
    case None
    then show ?thesis using refused by (simp add: step)
  next
    case (Some x)
    obtain i f c where x: "x = (i, f, c)" by (cases x) auto
    obtain r f' where p: "poll f = (r, f')" by fastforce
    have r: "r \<noteq> FencePanicked" using assms p by (metis fst_conv)
    consider "i \<noteq> bid" | "i = bid" "c" | "i = bid" "\<not> c" by blast
    then show ?thesis
    proof cases
      case 1
      then show ?thesis using refused by (simp add: step Some x)
    next
      case 2
      have same: "g = g\<lparr>gt_fence := Some (bid, f, True)\<rparr>" using 2 Some x by (cases g) simp
      have "poll_fence poll bid g = (Ok (PollReady ()), g)" using 2 by (simp add: step Some x)
      then show ?thesis using ready 2 Some x False same by blast
    next
      case 3
      note fence = Some [unfolded x] and at_bid = 3
      show ?thesis
      proof (cases r)
        case FencePending
        then show ?thesis using p at_bid False by (intro pending [of f]) (simp_all add: step fence)
      next
        case FenceReady
        then show ?thesis using p at_bid False by (intro ready [of f c _ f']) (simp_all add: step fence)
      next
        case (FenceFailed e)
        then show ?thesis using p at_bid False by (intro refused [of e "g\<lparr>gt_fence := Some (i, f', False), gt_quarantined := True\<rparr>"]) (simp_all add: step fence)
      qed (use r in simp)
    qed
  qed
qed


lemma check_rows_no_panic: "check_rows fin tp rows \<noteq> Panic"
proof (induction rows)
  case (Cons r rows)
  have "argmax_scan fin tp i vs best \<noteq> Panic" for i vs best
    by (induction fin tp i vs best rule: argmax_scan.induct) auto
  then have "checked_argmax fin tp r \<noteq> Panic" by (auto simp: checked_argmax_def split: res.splits option.splits)
  with Cons show ?case by (auto split: res.splits)
qed simp

lemma gate_same_scheduler [simp]: "g\<lparr>gt_scheduler := gt_scheduler g\<rparr> = g"
  by simp

lemma commit_logits_cases:
  assumes "sched_inv (gt_scheduler g)" and "in_flight (gt_scheduler g) = Some b" and "sb_kind b \<noteq> Verify"
    and "\<And>x vs p h. fst (sample x vs p h) \<noteq> Panic"
  shows "(\<exists>e. commit_logits fin tp sample clear chain bid logits n g = (Err e, g)) \<or>
    (\<exists>toks t. commit_logits fin tp sample clear chain bid logits n g =
        (Ok (PollReady toks), g\<lparr>gt_scheduler := t, gt_fence := None\<rparr>) \<and> idle_inv t
      \<and> check_rows fin tp (chunks n (batch_size b) logits) = Ok ())"
proof -
  have commit: "(\<exists>e. complete_selected_batch chain sel (gt_scheduler g) = (Err e, gt_scheduler g)) \<or>
     (\<exists>t. complete_selected_batch chain sel (gt_scheduler g) = (Ok (sel_tokens sel), t) \<and> idle_inv t)" for sel
    by (rule complete_selected_cases [OF assms(1)]) (simp add: assms(2,3))
  show ?thesis
  proof (cases "n = 0 \<or> checked_mul (batch_size b) n \<noteq> Some (length logits)")
    case True
    then show ?thesis by (auto simp: commit_logits_def assms(2))
  next
    case shape: False
    show ?thesis
    proof (cases "check_rows fin tp (chunks n (batch_size b) logits)")
      case (Ok u)
      show ?thesis
      proof (cases "select_batch_tokens sample clear bid logits n (gt_scheduler g)")
        case (Ok sel)
        with shape \<open>check_rows _ _ _ = Ok u\<close>
        have step: "commit_logits fin tp sample clear chain bid logits n g =
            bind_op (on_scheduler (complete_selected_batch chain sel))
              (\<lambda>toks g. (Ok (PollReady toks), g\<lparr>gt_fence := None\<rparr>)) g"
          by (auto simp: commit_logits_def assms(2))
        from commit [of sel] \<open>check_rows _ _ _ = Ok u\<close> show ?thesis
          unfolding step by (auto simp: on_scheduler_def bind_op_def)
      next
        case (Err e)
        with shape \<open>check_rows _ _ _ = Ok u\<close> show ?thesis by (auto simp: commit_logits_def assms(2))
      next
        case Panic
        then show ?thesis using select_batch_no_panic [of sample] assms(4) by metis
      qed
    next
      case (Err e)
      with shape show ?thesis by (auto simp: commit_logits_def assms(2))
    next
      case Panic
      then show ?thesis using check_rows_no_panic by metis
    qed
  qed
qed

section \<open>Every command keeps it\<close>

lemma gate_inv_flight:
  assumes "gate_inv g" and "\<not> gt_quarantined g" and "gt_fence g = Some (bid, f, c)"
  obtains b where "in_flight (gt_scheduler g) = Some b" and "sb_id b = bid"
  using assms by (cases "in_flight (gt_scheduler g)") (auto simp: gate_inv_def)

lemma complete_gate:
  assumes inv: "gate_inv g" and calm: "\<forall>f. fst (poll f) \<noteq> FencePanicked" "\<And>x vs p h. fst (sample x vs p h) \<noteq> Panic"
    and kind: "\<forall>b. in_flight (gt_scheduler g) = Some b \<longrightarrow> sb_kind b \<noteq> Verify"
    and run: "try_complete_logits poll fin tp sample clear chain bid logits n g = (r, g')"
  shows "gate_inv g' \<and> (case r of
      Ok (PollReady toks) \<Rightarrow> idle_inv (gt_scheduler g') \<and> gt_fence g' = None \<and> \<not> gt_quarantined g
        \<and> (\<exists>f c. gt_fence g = Some (bid, f, c) \<and> (c \<or> fst (poll f) = FenceReady))
        \<and> (\<exists>b. in_flight (gt_scheduler g) = Some b \<and> check_rows fin tp (chunks n (batch_size b) logits) = Ok ())
    | Panic \<Rightarrow> False | _ \<Rightarrow> gt_scheduler g' = gt_scheduler g)"
proof (cases rule: poll_fence_cases [OF calm(1), where bid = bid and g = g])
  case (1 e h)
  then show ?thesis using run inv by (auto simp: try_complete_logits_def gate_inv_def)
next
  case (2 f h)
  then show ?thesis using run inv by (auto simp: try_complete_logits_def gate_inv_def)
next
  case (3 f c f' h)
  note healthy = 3(1) and fence = 3(2) and over = 3(3) and p = 3(4) and h = 3(5)
  obtain b where b: "in_flight (gt_scheduler g) = Some b" by (rule gate_inv_flight [OF inv healthy fence])
  have step: "commit_logits fin tp sample clear chain bid logits n h = (r, g')"
    using run p by (simp add: try_complete_logits_def)
  have "sched_inv (gt_scheduler h)" "in_flight (gt_scheduler h) = Some b" "sb_kind b \<noteq> Verify"
    using inv b kind by (simp_all add: h gate_inv_def)
  from commit_logits_cases [OF this, of sample fin tp clear chain bid logits n, OF calm(2)]
  show ?thesis
  proof (elim disjE exE conjE)
    fix e assume "commit_logits fin tp sample clear chain bid logits n h = (Err e, h)"
    then show ?thesis using step inv fence h by (auto simp: gate_inv_def)
  next
    fix toks t assume "commit_logits fin tp sample clear chain bid logits n h =
        (Ok (PollReady toks), h\<lparr>gt_scheduler := t, gt_fence := None\<rparr>)" "idle_inv t"
      "check_rows fin tp (chunks n (batch_size b) logits) = Ok ()"
    then show ?thesis using step healthy fence over h b idle_sched [of t] by (auto simp: gate_inv_def idle_inv_def)
  qed
qed

lemma rollback_gate:
  assumes inv: "gate_inv g" and calm: "\<forall>f. fst (poll f) \<noteq> FencePanicked" and run: "try_rollback poll bid g = (r, g')"
  shows "gate_inv g' \<and> (case r of
      Ok (PollReady u) \<Rightarrow> failed bid (gt_scheduler g) (gt_scheduler g') \<and> gt_fence g' = None \<and> \<not> gt_quarantined g
        \<and> (\<exists>f c. gt_fence g = Some (bid, f, c) \<and> (c \<or> fst (poll f) = FenceReady))
    | Panic \<Rightarrow> False | _ \<Rightarrow> gt_scheduler g' = gt_scheduler g)"
proof (cases rule: poll_fence_cases [OF calm, where bid = bid and g = g])
  case (1 e h)
  then show ?thesis using run inv by (auto simp: try_rollback_def gate_inv_def)
next
  case (2 f h)
  then show ?thesis using run inv by (auto simp: try_rollback_def gate_inv_def)
next
  case (3 f c f' h)
  note healthy = 3(1) and fence = 3(2) and over = 3(3) and p = 3(4) and h = 3(5)
  have s: "sched_inv (gt_scheduler g)" using inv by (simp add: gate_inv_def)
  obtain b where b: "in_flight (gt_scheduler g) = Some b" "sb_id b = bid" by (rule gate_inv_flight [OF inv healthy fence])
  then obtain t where t: "fail_batch bid (gt_scheduler g) = (Ok (), t)" "failed bid (gt_scheduler g) t"
    using fail_batch_exact [OF s, of bid] by auto
  then have "(r, g') = (Ok (PollReady ()), h\<lparr>gt_scheduler := t, gt_fence := None\<rparr>)"
    using run p by (simp add: try_rollback_def bind_op_def on_scheduler_def h)
  moreover have "idle_inv t" using t(2) by (simp add: failed_def)
  ultimately show ?thesis using t(2) healthy fence over h idle_sched [of t] by (auto simp: gate_inv_def idle_inv_def)
qed

lemma launch_gate:
  assumes inv: "gate_inv g" and room: "id_room (gt_scheduler g)" and run: "launch chain adapter g = (r, g')"
  shows "gate_inv g' \<and> ((\<exists>b. adapter b = LaunchPanicked) \<or> r \<noteq> Panic)"
proof (cases "gt_quarantined g")
  case True
  then show ?thesis using run inv by (auto simp: launch_def ensure_healthy_def)
next
  case healthy: False
  have s: "sched_inv (gt_scheduler g)" using inv by (simp add: gate_inv_def)
  note w = schedule_ok [OF s room, of chain]
  have start: "launch chain adapter g = bind_op (on_scheduler (schedule chain)) (\<lambda>b.
       case b of None \<Rightarrow> ret_op None | Some batch \<Rightarrow> settle_launch batch (adapter batch)) g"
    using healthy by (simp add: launch_def ensure_healthy_def)
  obtain res t where sch: "schedule chain (gt_scheduler g) = (res, t)" by fastforce
  show ?thesis
  proof (cases res)
    case Panic
    then show ?thesis using wp_no_panic [OF w] sch by simp
  next
    case (Err e)
    then have "sched_inv t \<and> in_flight t = in_flight (gt_scheduler g)" using wp_ErrD [OF w] sch by simp
    then show ?thesis using run inv Err sch healthy by (auto simp: start on_scheduler_def bind_op_def gate_inv_def)
  next
    case (Ok b)
    have post: "scheduled (gt_scheduler g) b t" using wp_OkD [OF w] sch Ok by simp
    have none: "in_flight (gt_scheduler g) = None"
      using sch Ok by (auto simp: schedule_def split: option.splits)
    then have fence: "gt_fence g = None" using inv healthy by (simp add: gate_inv_def)
    show ?thesis
    proof (cases b)
      case None
      then show ?thesis using run post Ok sch fence idle_sched [of t]
        by (auto simp: start on_scheduler_def bind_op_def gate_inv_def scheduled_def idle_inv_def)
    next
      case (Some batch)
      have t: "sched_inv t" "in_flight t = Some batch" using post Some by (auto simp: scheduled_def sched_inv_def)
      have step: "settle_launch batch (adapter batch) (g\<lparr>gt_scheduler := t\<rparr>) = (r, g')"
        using run Ok Some sch by (simp add: start on_scheduler_def bind_op_def)
      show ?thesis
      proof (cases "adapter batch")
        case (Launched f)
        then show ?thesis using step t by (auto simp: settle_launch_def gate_inv_def)
      next
        case (LaunchFailed e work intact)
        obtain u where u: "fail_batch (sb_id batch) t = (Ok (), u)" "failed (sb_id batch) t u"
          using fail_batch_exact [OF t(1), of "sb_id batch"] t(2) by auto
        then have "idle_inv u" by (simp add: failed_def)
        then show ?thesis using LaunchFailed step t u fence idle_sched [of u]
          by (auto simp: settle_launch_def gate_inv_def bind_op_def on_scheduler_def idle_inv_def Let_def split: if_splits)
      next
        case LaunchPanicked
        then show ?thesis using step t by (auto simp: settle_launch_def gate_inv_def)
      qed
    qed
  qed
qed

interpretation gate: invariant_machine "gate_step v" gate_inv "gate_pre v"
  for v :: "('smp, 'f, 'c, 'l::linorder) gate_env"
proof
  fix g :: "('smp, 'f) fenced" and c :: "('smp, 'f, 'c, 'l) gate_cmd"
  assume inv: "gate_inv g" and pre: "gate_pre v c g"
  have s: "sched_inv (gt_scheduler g)" using inv by (simp add: gate_inv_def)
  let ?ok = "\<lambda>_. gate_inv :: ('smp, 'f) fenced \<Rightarrow> bool"
  show "wp (gate_step v c) ?ok ?ok g"
  proof (cases c)
    case (GSubmit prompt cf)
    have "wp (fenced_submit prompt cf) ?ok ?ok g"
      unfolding fenced_submit_def submit_def by (rule wp_scheduler_call [OF inv submit_call [OF s]])
    from wp_eq [OF _ wp_ignore [OF this]] show ?thesis using GSubmit by simp
  next
    case (GSubmitSampled prompt cf x)
    have "wp (submit_sampled (en_sampler v) prompt cf x) (\<lambda>_ t. sched_inv t \<and> in_flight t = in_flight (gt_scheduler g))
        (\<lambda>_ t. sched_inv t \<and> in_flight t = in_flight (gt_scheduler g)) (gt_scheduler g)"
    proof (cases "en_sampler v x")
      case None
      then show ?thesis using s by (simp add: submit_sampled_def wp_def)
    next
      case (Some smp)
      show ?thesis by (rule wp_eq [OF _ submit_call [OF s]]) (simp add: submit_sampled_def Some)
    qed
    from wp_scheduler_call [OF inv this] have "wp (fenced_submit_sampled (en_sampler v) prompt cf x) ?ok ?ok g"
      unfolding fenced_submit_sampled_def .
    from wp_eq [OF _ wp_ignore [OF this]] show ?thesis using GSubmitSampled by simp
  next
    case (GLaunch adapter)
    have "wp (launch (en_chain v) adapter) ?ok ?ok g"
      by (rule wpI) (use launch_gate [OF inv] pre GLaunch in \<open>auto, metis prod.collapse\<close>)
    from wp_eq [OF _ wp_ignore [OF this]] show ?thesis using GLaunch by simp
  next
    case (GComplete bid logits n)
    let ?m = "try_complete_logits (en_poll v) (en_finite v) (en_top v) (en_sample v) (en_clear v) (en_chain v) bid logits n"
    have "gate_inv (snd (?m g)) \<and> fst (?m g) \<noteq> Panic"
      using complete_gate [OF inv, of "en_poll v" "en_sample v" "en_finite v" "en_top v" "en_clear v" "en_chain v" bid
          logits n "fst (?m g)" "snd (?m g)"] pre GComplete
      by (auto simp: calm_def)
    then have "wp ?m ?ok ?ok g" by (intro wpI) auto
    from wp_eq [OF _ wp_ignore [OF this]] show ?thesis using GComplete by simp
  next
    case (GRollback bid)
    have "gate_inv (snd (try_rollback (en_poll v) bid g)) \<and> fst (try_rollback (en_poll v) bid g) \<noteq> Panic"
      using rollback_gate [OF inv, of "en_poll v" bid "fst (try_rollback (en_poll v) bid g)"
          "snd (try_rollback (en_poll v) bid g)"] pre GRollback
      by (auto simp: calm_def)
    then have "wp (try_rollback (en_poll v) bid) ?ok ?ok g" by (intro wpI) auto
    from wp_eq [OF _ wp_ignore [OF this]] show ?thesis using GRollback by simp
  next
    case (GCancel rid)
    have "wp (cancel rid) (\<lambda>_ t. sched_inv t \<and> in_flight t = in_flight (gt_scheduler g))
        (\<lambda>_ t. sched_inv t \<and> in_flight t = in_flight (gt_scheduler g)) (gt_scheduler g)"
      by (rule wp_conseq [OF cancel_ok [OF s]]) (use s in \<open>auto simp: cancelled_def\<close>)
    from wp_scheduler_call [OF inv this] have "wp (fenced_cancel rid) ?ok ?ok g" unfolding fenced_cancel_def .
    from wp_eq [OF _ wp_ignore [OF this]] show ?thesis using GCancel by simp
  next
    case (GLimit n)
    have fl: "in_flight (snd (set_batch_token_limit n u)) = in_flight u" for u :: "'smp scheduler"
      by (simp add: set_batch_token_limit_def)
    have "wp (set_batch_token_limit n) (\<lambda>_ t. sched_inv t \<and> in_flight t = in_flight (gt_scheduler g))
        (\<lambda>_ t. sched_inv t \<and> in_flight t = in_flight (gt_scheduler g)) (gt_scheduler g)"
      using set_limit_inv [OF s, of n] s fl [of "gt_scheduler g"] by (auto simp: wp_def split: prod.splits res.splits)
    from wp_scheduler_call [OF inv this] have "wp (fenced_set_limit n) ?ok ?ok g" unfolding fenced_set_limit_def .
    from wp_eq [OF _ this] show ?thesis using GLimit by simp
  next
    case GPop
    have "in_flight (snd (pop_finished (gt_scheduler g))) = in_flight (gt_scheduler g)"
      by (simp add: pop_finished_def split: list.splits)
    then show ?thesis using GPop inv pop_inv [OF s]
      by (auto simp: wp_def fenced_pop_def gate_inv_def split: prod.splits)
  qed
qed


section \<open>Runs\<close>

fun gate_run ::
  "('smp, 'f, 'c, 'l::linorder) gate_env \<Rightarrow> ('smp, 'f, 'c, 'l) gate_cmd list \<Rightarrow> ('smp, 'f) fenced \<Rightarrow> ('smp, 'f) fenced" where
  "gate_run v [] g = g"
| "gate_run v (c # cs) g = gate_run v cs (snd (gate_step v c g))"

fun gate_legal ::
  "('smp, 'f, 'c, 'l::linorder) gate_env \<Rightarrow> ('smp, 'f, 'c, 'l) gate_cmd list \<Rightarrow> ('smp, 'f) fenced \<Rightarrow> bool" where
  "gate_legal v [] g = True"
| "gate_legal v (c # cs) g = (gate_pre v c g \<and> gate_legal v cs (snd (gate_step v c g)))"

lemma gate_machine: "gate_run v cs g = gate.run v cs g" "gate_legal v cs g = gate.legal v cs g"
  by (induction cs arbitrary: g) simp_all

definition demo_env :: "(unit, nat, unit, nat) gate_env" where
  "demo_env = \<lparr>en_poll = (\<lambda>n. if n = 0 then (FenceReady, 0) else (FencePending, n - 1)), en_finite = (\<lambda>_. True),
     en_top = (\<lambda>_. False), en_sample = (\<lambda>x vs p h. (Ok 0, x)), en_clear = id, en_chain = demo_chain, en_sampler = Some\<rparr>"

lemma demo_env_calm: "calm demo_env"
  by (simp add: calm_def demo_env_def)

text \<open>
  C13: the gate is safe: from a scheduler without untracked work, whatever the client and the
  device do (launches that fail in any way, fences that stay pending or fail, invalid logits,
  cancellations), the scheduler invariant holds, a healthy gate tracks exactly the batch in
  flight, and no call panics (its own \<open>expect\<close> included). With speculation on, launches are
  assumed to happen while \<open>id_room\<close> holds.
\<close>

theorem fenced_runs_safe:
  assumes "sched_inv s" and "fenced_new s = Ok g" and "gate_legal v (cs @ [d]) g"
  shows "gate_inv (gate_run v cs g) \<and> fst (gate_step v d (gate_run v cs g)) \<noteq> Panic"
proof -
  have i: "gate_inv g" using assms(1,2) by (auto simp: fenced_new_def gate_inv_def split: if_splits)
  have l: "gate.legal v (cs @ [d]) g" using assms(3) by (simp add: gate_machine)
  then have "gate.legal v cs g" by (simp add: gate.legal_append)
  from gate.run_inv [OF i this] gate.run_no_panic [OF i l] show ?thesis by (simp add: gate_machine)
qed

theorem fenced_runs_safe_witness:
  "\<exists>g. fenced_new demo_sched = Ok g
    \<and> gate_inv (gate_run demo_env [GSubmit [1, 2, 3] \<lparr>max_new_tokens = 2, eos_token_ids = [9]\<rparr>] g)
    \<and> fst (gate_step demo_env (GLaunch (\<lambda>b. Launched 3))
        (gate_run demo_env [GSubmit [1, 2, 3] \<lparr>max_new_tokens = 2, eos_token_ids = [9]\<rparr>] g)) \<noteq> Panic"
proof -
  let ?g = "\<lparr>gt_scheduler = demo_sched, gt_fence = None, gt_quarantined = False\<rparr> :: (unit, nat) fenced"
  have new: "fenced_new demo_sched = Ok ?g" by (simp add: fenced_new_def demo_sched_def)
  have "gate_legal demo_env ([GSubmit [1, 2, 3] \<lparr>max_new_tokens = 2, eos_token_ids = [9]\<rparr>] @ [GLaunch (\<lambda>b. Launched 3)]) ?g"
    by (simp add: demo_env_calm fenced_submit_def ensure_healthy_def on_scheduler_def submit_def submit_with_sampler_def
        demo_sched_def demo_batch_conf_def default_options_def demo_fresh_def demo_conf_def checked_add_def
        usize_max_def id_room_def ignore_def bind_op_def Let_def div_ceil_def)
  from fenced_runs_safe [OF demo_sched_inv new this] new show ?thesis by blast
qed

section \<open>Commits and rollbacks\<close>

definition fence_passed :: "('smp, 'f, 'c, 'l) gate_env \<Rightarrow> nat \<Rightarrow> ('smp, 'f) fenced \<Rightarrow> bool" where
  "fence_passed v bid g \<longleftrightarrow> \<not> gt_quarantined g
     \<and> (\<exists>f c. gt_fence g = Some (bid, f, c) \<and> (c \<or> fst (en_poll v f) = FenceReady))"

text \<open>
  C14: nothing is committed or rolled back before the device is done: a completion or a rollback
  changes the scheduler only when the gate is healthy and the fence of exactly that batch has
  completed, and a completion only when no logit of the batch is NaN or positive infinity and no
  row is entirely masked; then the scheduler is idle and the fence is released. A pending or
  failed fence, a stale batch number, a wrong shape or invalid logits leave the scheduler, its
  samplers and its cache as they were.
\<close>

theorem commits_only_after_fence:
  assumes "gate_inv g" and "gate_pre v c g" and "c \<in> {GComplete bid logits n, GRollback bid}"
    and "gate_step v c g = (r, g')"
  shows "gt_scheduler g' = gt_scheduler g \<or>
     r = Ok () \<and> fence_passed v bid g \<and> idle_inv (gt_scheduler g') \<and> gt_fence g' = None
     \<and> (\<exists>b. in_flight (gt_scheduler g) = Some b
         \<and> (c = GComplete bid logits n \<longrightarrow> check_rows (en_finite v) (en_top v) (chunks n (batch_size b) logits) = Ok ()))"
proof (cases "c = GRollback bid")
  case True
  let ?m = "try_rollback (en_poll v) bid"
  have calm: "\<forall>f. fst (en_poll v f) \<noteq> FencePanicked" using assms(2) True by (simp add: calm_def)
  note gate = rollback_gate [OF assms(1) calm, of bid "fst (?m g)" "snd (?m g)", simplified]
  have step: "ignore ?m g = (r, g')" using assms(4) True by simp
  then show ?thesis using gate True
    by (cases "?m g") (auto simp: ignore_def bind_op_def fence_passed_def failed_def split: res.splits poll.splits)
next
  case False
  then have c: "c = GComplete bid logits n" using assms(3) by simp
  let ?m = "try_complete_logits (en_poll v) (en_finite v) (en_top v) (en_sample v) (en_clear v) (en_chain v) bid logits n"
  have calm: "\<forall>f. fst (en_poll v f) \<noteq> FencePanicked" "\<And>x vs p h. fst (en_sample v x vs p h) \<noteq> Panic"
    and kind: "\<forall>b. in_flight (gt_scheduler g) = Some b \<longrightarrow> sb_kind b \<noteq> Verify"
    using assms(2) c by (simp_all add: calm_def)
  note gate = complete_gate [where poll = "en_poll v" and sample = "en_sample v" and fin = "en_finite v" and tp = "en_top v"
      and clear = "en_clear v" and chain = "en_chain v" and bid = bid and logits = logits and n = n and r = "fst (?m g)"
      and g' = "snd (?m g)", OF assms(1) calm kind, simplified]
  have step: "ignore ?m g = (r, g')" using assms(4) c by simp
  then show ?thesis using gate c
    by (cases "?m g") (auto simp: ignore_def bind_op_def fence_passed_def split: res.splits poll.splits)
qed

definition demo_gate :: "(unit, nat) fenced" where
  "demo_gate = \<lparr>gt_scheduler = demo_prefill, gt_fence = Some (7, 0, False), gt_quarantined = False\<rparr>"

lemma demo_gate_inv: "gate_inv demo_gate"
  using demo_prefill_inv by (simp add: gate_inv_def demo_gate_def demo_prefill_def)

theorem commits_only_after_fence_witness:
  "\<exists>r g'. gate_step demo_env (GRollback 7) demo_gate = (r, g')
    \<and> (if gt_scheduler g' = demo_prefill then True else fence_passed demo_env 7 demo_gate \<and> gt_fence g' = None)"
proof -
  obtain r g' where step: "gate_step demo_env (GRollback 7) demo_gate = (r, g')" by fastforce
  have pre: "gate_pre demo_env (GRollback 7) demo_gate" by (simp add: demo_env_calm)
  from commits_only_after_fence [OF demo_gate_inv pre, of 7 "[]" 0 r g'] step show ?thesis
    by (auto simp: demo_gate_def)
qed

section \<open>Quarantine\<close>

lemma quarantined_step:
  "gt_quarantined g \<Longrightarrow> gt_quarantined (snd (gate_step v c g))
     \<and> kv (gt_scheduler (snd (gate_step v c g))) = kv (gt_scheduler g)
     \<and> in_flight (gt_scheduler (snd (gate_step v c g))) = in_flight (gt_scheduler g)
     \<and> (c = GPop \<or> fst (gate_step v c g) = Err DeviceLost)"
  by (cases c) (simp_all add: fenced_submit_def fenced_submit_sampled_def launch_def try_complete_logits_def
      try_rollback_def poll_fence_def fenced_cancel_def fenced_set_limit_def ensure_healthy_def ignore_def bind_op_def
      fenced_pop_def pop_finished_def split: prod.splits list.splits)

lemma quarantined_run:
  "gt_quarantined g \<Longrightarrow> gt_quarantined (gate_run v cs g)
     \<and> kv (gt_scheduler (gate_run v cs g)) = kv (gt_scheduler g)
     \<and> in_flight (gt_scheduler (gate_run v cs g)) = in_flight (gt_scheduler g)"
proof (induction cs arbitrary: g)
  case (Cons c cs)
  from quarantined_step [OF Cons.prems, of v c] Cons.IH [of "snd (gate_step v c g)"] show ?case by simp
qed simp

text \<open>
  C15: a failed launch is rolled back only when that is safe: after a launch failure the gate
  fails the batch, with its pages returned and the requests restored, exactly when the device
  state is known, the committed cache is intact and the error is not fatal; otherwise, and after
  a panic of the adapter, it is quarantined, the batch stays in flight, and from then on no call
  changes the KV manager or the batch again.
\<close>

theorem launch_failure_quarantines:
  assumes "gate_inv g" and "gt_quarantined g = False" and "id_room (gt_scheduler g)"
    and "schedule chain (gt_scheduler g) = (Ok (Some b), t)" and "launch chain adapter g = (r, g')"
  shows "(case adapter b of
      Launched f \<Rightarrow> r = Ok (Some b) \<and> gt_scheduler g' = t \<and> gt_fence g' = Some (sb_id b, f, False) \<and> \<not> gt_quarantined g'
    | LaunchFailed e work intact \<Rightarrow> r = Err e \<and> gt_quarantined g' = (\<not> rollback_safe e work intact)
        \<and> (if rollback_safe e work intact then failed (sb_id b) t (gt_scheduler g') else gt_scheduler g' = t)
    | LaunchPanicked \<Rightarrow> r = Panic \<and> gt_quarantined g' \<and> gt_scheduler g' = t)
   \<and> (gt_quarantined g' \<longrightarrow>
        kv (gt_scheduler (gate_run v cs g')) = kv t \<and> in_flight (gt_scheduler (gate_run v cs g')) = Some b)"
proof -
  have w: "scheduled (gt_scheduler g) (Some b) t"
    using wp_OkD [OF schedule_ok [OF _ assms(3)] assms(4)] assms(1) by (simp add: gate_inv_def)
  then have t: "sched_inv t" "in_flight t = Some b" by (auto simp: scheduled_def sched_inv_def)
  obtain u where u: "fail_batch (sb_id b) t = (Ok (), u)" "failed (sb_id b) t u"
    using fail_batch_exact [OF t(1), of "sb_id b"] t(2) by auto
  have step: "settle_launch b (adapter b) (g\<lparr>gt_scheduler := t\<rparr>) = (r, g')"
    using assms(2,4,5) by (simp add: launch_def ensure_healthy_def on_scheduler_def bind_op_def)
  have first: "(case adapter b of
      Launched f \<Rightarrow> r = Ok (Some b) \<and> gt_scheduler g' = t \<and> gt_fence g' = Some (sb_id b, f, False) \<and> \<not> gt_quarantined g'
    | LaunchFailed e work intact \<Rightarrow> r = Err e \<and> gt_quarantined g' = (\<not> rollback_safe e work intact)
        \<and> (if rollback_safe e work intact then failed (sb_id b) t (gt_scheduler g') else gt_scheduler g' = t)
    | LaunchPanicked \<Rightarrow> r = Panic \<and> gt_quarantined g' \<and> gt_scheduler g' = t)"
    using step u by (auto simp: settle_launch_def Let_def bind_op_def on_scheduler_def split: launch_outcome.splits)
  then have "gt_quarantined g' \<longrightarrow> gt_scheduler g' = t" by (auto split: launch_outcome.splits if_splits)
  then show ?thesis using first quarantined_run [of g' v cs] t(2) by simp
qed


theorem launch_failure_quarantines_witness:
  "\<exists>r g'. launch demo_chain (\<lambda>b. LaunchFailed OutOfMemory UnknownWork True)
        (\<lparr>gt_scheduler = demo_waiting, gt_fence = None, gt_quarantined = False\<rparr> :: (unit, nat) fenced) = (r, g')
     \<and> r = Err OutOfMemory \<and> gt_quarantined g'
     \<and> kv (gt_scheduler (gate_run demo_env [GCancel 1, GRollback 1] g')) = begun_kv"
proof -
  let ?g = "\<lparr>gt_scheduler = demo_waiting, gt_fence = None, gt_quarantined = False\<rparr> :: (unit, nat) fenced"
  let ?adapter = "\<lambda>b. LaunchFailed OutOfMemory UnknownWork True"
  obtain r g' where run: "launch demo_chain ?adapter ?g = (r, g')" by fastforce
  have inv: "gate_inv ?g" using demo_waiting_inv by (simp add: gate_inv_def)
  have room: "id_room (gt_scheduler ?g)" by (simp add: id_room_def demo_waiting_def demo_sched_def)
  have sched: "schedule demo_chain (gt_scheduler ?g) = (Ok (Some waiting_batch), demo_scheduled)"
    using demo_schedules by simp
  from launch_failure_quarantines [OF inv _ room sched run, of demo_env "[GCancel 1, GRollback 1]"] run
  show ?thesis by (auto simp: rollback_safe_def demo_scheduled_def)
qed

end
