(* ===== verification/TensorLib.thy ===== *)
theory TensorLib
  imports Prelude
begin

text \<open>
  The tensor library behind the caches, a dependency of the program: a record of the
  operations the program calls, and what they are documented to do. A tensor is known by its
  dimensions, its element type and the element \<open>at\<close> each index; \<open>tensor_laws\<close> says what slicing,
  concatenation, moving between devices and conversion from and to row-major bytes do to them.
\<close>

record 'd tensor_data =
  td_bytes :: bytes
  td_shape :: "nat list"
  td_dtype :: 'd

record ('t, 'd) tensor_lib =
  t_dims :: "'t \<Rightarrow> nat list"
  t_dtype :: "'t \<Rightarrow> 'd"
  t_slice :: "(nat \<times> nat) list \<Rightarrow> 't \<Rightarrow> 't"
  t_cat :: "'t list \<Rightarrow> nat \<Rightarrow> 't"
  t_to_device :: "'t \<Rightarrow> 't"
  t_into_data :: "'t \<Rightarrow> (string, 'd tensor_data) res"
  t_from_data :: "'d tensor_data \<Rightarrow> 't"
  d_size :: "'d \<Rightarrow> nat"
  d_float :: "'d \<Rightarrow> bool"

definition head_count :: "('t, 'd) tensor_lib \<Rightarrow> 't \<Rightarrow> nat" where
  "head_count lib t = t_dims lib t ! 1"

text \<open>A tensor of four axes that shows \<open>n\<close> heads of \<open>r\<close> rows and \<open>c\<close> columns of a content.\<close>

definition block ::
  "('t, 'd) tensor_lib \<Rightarrow> ('t \<Rightarrow> nat list \<Rightarrow> 'e) \<Rightarrow> 'd \<Rightarrow> nat \<Rightarrow> nat \<Rightarrow> nat \<Rightarrow> (nat \<Rightarrow> nat \<Rightarrow> nat \<Rightarrow> 'e) \<Rightarrow> 't \<Rightarrow> bool" where
  "block lib at dt n r c g t \<longleftrightarrow> t_dims lib t = [1, n, r, c] \<and> t_dtype lib t = dt
     \<and> (\<forall>h<n. \<forall>i<r. \<forall>j<c. at t [0, h, i, j] = g h i j)"

text \<open>The bytes of the element at a row-major offset.\<close>

definition elem_bytes :: "nat \<Rightarrow> bytes \<Rightarrow> nat \<Rightarrow> bytes" where
  "elem_bytes width bs k = take width (drop (k * width) bs)"

definition slice_law :: "('t, 'd) tensor_lib \<Rightarrow> ('t \<Rightarrow> nat list \<Rightarrow> 'e) \<Rightarrow> bool" where
  "slice_law lib at \<longleftrightarrow>
     (\<forall>t dt lo hi n r c g. block lib at dt n r c g t \<and> lo \<le> hi \<and> hi \<le> n \<longrightarrow>
        block lib at dt (hi - lo) r c (\<lambda>h. g (lo + h)) (t_slice lib [(0, 1), (lo, hi), (0, r), (0, c)] t))"

definition cat_law :: "('t, 'd) tensor_lib \<Rightarrow> ('t \<Rightarrow> nat list \<Rightarrow> 'e) \<Rightarrow> bool" where
  "cat_law lib at \<longleftrightarrow>
     (\<forall>t. t_cat lib [t] 1 = t)
     \<and> (\<forall>ts us. us \<noteq> [] \<and> ts \<noteq> [] \<longrightarrow> t_cat lib (us @ ts) 1 = t_cat lib [t_cat lib us 1, t_cat lib ts 1] 1)
     \<and> (\<forall>t u dt m n r c g. block lib at dt m r c g t \<and> block lib at dt n r c (\<lambda>h. g (m + h)) u \<longrightarrow>
        block lib at dt (m + n) r c g (t_cat lib [t, u] 1))"

definition device_law :: "('t, 'd) tensor_lib \<Rightarrow> ('t \<Rightarrow> nat list \<Rightarrow> 'e) \<Rightarrow> bool" where
  "device_law lib at \<longleftrightarrow> (\<forall>t dt n r c g. block lib at dt n r c g t \<longrightarrow> block lib at dt n r c g (t_to_device lib t))"

definition bytes_hold ::
  "('t, 'd) tensor_lib \<Rightarrow> ('d \<Rightarrow> bytes \<Rightarrow> 'e) \<Rightarrow> nat \<Rightarrow> nat \<Rightarrow> nat \<Rightarrow> (nat \<Rightarrow> nat \<Rightarrow> nat \<Rightarrow> 'e) \<Rightarrow> 'd tensor_data \<Rightarrow> bool" where
  "bytes_hold lib elem n r c g d \<longleftrightarrow>
     td_shape d = [1, n, r, c] \<and> length (td_bytes d) = n * r * c * d_size lib (td_dtype d)
     \<and> (\<forall>h<n. \<forall>i<r. \<forall>j<c.
          elem (td_dtype d) (elem_bytes (d_size lib (td_dtype d)) (td_bytes d) ((h * r + i) * c + j)) = g h i j)"

definition data_law ::
  "('t, 'd) tensor_lib \<Rightarrow> ('t \<Rightarrow> nat list \<Rightarrow> 'e) \<Rightarrow> ('d \<Rightarrow> bytes \<Rightarrow> 'e) \<Rightarrow> bool" where
  "data_law lib at elem \<longleftrightarrow>
     (\<forall>d n r c g. bytes_hold lib elem n r c g d \<longrightarrow> block lib at (td_dtype d) n r c g (t_from_data lib d))
     \<and> (\<forall>t d dt n r c g. t_into_data lib t = Ok d \<and> block lib at dt n r c g t \<longrightarrow>
          td_dtype d = dt \<and> bytes_hold lib elem n r c g d)"

definition tensor_laws ::
  "('t, 'd) tensor_lib \<Rightarrow> ('t \<Rightarrow> nat list \<Rightarrow> 'e) \<Rightarrow> ('d \<Rightarrow> bytes \<Rightarrow> 'e) \<Rightarrow> bool" where
  "tensor_laws lib at elem \<longleftrightarrow> slice_law lib at \<and> cat_law lib at \<and> device_law lib at \<and> data_law lib at elem"

lemma block_dims: "block lib at dt n r c g t \<Longrightarrow> t_dims lib t = [1, n, r, c] \<and> t_dtype lib t = dt"
  by (simp add: block_def)

lemma block_slice:
  assumes "tensor_laws lib at elem" and "block lib at dt n r c g t" and "lo \<le> hi" and "hi \<le> n"
  shows "block lib at dt (hi - lo) r c (\<lambda>h. g (lo + h)) (t_slice lib [(0, 1), (lo, hi), (0, r), (0, c)] t)"
  using assms unfolding tensor_laws_def slice_law_def by blast

lemma block_device:
  "tensor_laws lib at elem \<Longrightarrow> block lib at dt n r c g t \<Longrightarrow> block lib at dt n r c g (t_to_device lib t)"
  unfolding tensor_laws_def device_law_def by blast

lemma block_from_data:
  "tensor_laws lib at elem \<Longrightarrow> bytes_hold lib elem n r c g d \<Longrightarrow> block lib at (td_dtype d) n r c g (t_from_data lib d)"
  unfolding tensor_laws_def data_law_def by blast

lemma block_into_data:
  "tensor_laws lib at elem \<Longrightarrow> block lib at dt n r c g t \<Longrightarrow> t_into_data lib t = Ok d
    \<Longrightarrow> td_dtype d = dt \<and> bytes_hold lib elem n r c g d"
  unfolding tensor_laws_def data_law_def by blast

lemma cat_lawD:
  assumes "tensor_laws lib at elem"
  shows "t_cat lib [t] 1 = t"
    and "us \<noteq> [] \<Longrightarrow> ts \<noteq> [] \<Longrightarrow> t_cat lib (us @ ts) 1 = t_cat lib [t_cat lib us 1, t_cat lib ts 1] 1"
    and "block lib at dt m r c g t \<Longrightarrow> block lib at dt n r c (\<lambda>h. g (m + h)) u \<Longrightarrow>
      block lib at dt (m + n) r c g (t_cat lib [t, u] 1)"
proof -
  have c: "cat_law lib at" using assms by (simp add: tensor_laws_def)
  show "t_cat lib [t] 1 = t" by (rule c [unfolded cat_law_def, THEN conjunct1, rule_format])
  show "t_cat lib (us @ ts) 1 = t_cat lib [t_cat lib us 1, t_cat lib ts 1] 1" if "us \<noteq> []" "ts \<noteq> []"
    by (rule c [unfolded cat_law_def, THEN conjunct2, THEN conjunct1, rule_format]) (intro conjI that)
  show "block lib at dt (m + n) r c g (t_cat lib [t, u] 1)"
    if "block lib at dt m r c g t" "block lib at dt n r c (\<lambda>h. g (m + h)) u"
    by (rule c [unfolded cat_law_def, THEN conjunct2, THEN conjunct2, rule_format]) (intro conjI that)
qed

lemma block_cat:
  assumes "tensor_laws lib at elem" and "us \<noteq> []" and "block lib at dt m r c g (t_cat lib us 1)"
    and "block lib at dt n r c (\<lambda>h. g (m + h)) t"
  shows "block lib at dt (m + n) r c g (t_cat lib (us @ [t]) 1)"
  using cat_lawD(3) [OF assms(1,3,4)] assms(2)
  by (simp only: cat_lawD(2) [OF assms(1)] cat_lawD(1) [OF assms(1)] not_Cons_self2 not_False_eq_True simp_thms)

text \<open>A run of heads of a row-major payload.\<close>

lemma bytes_slice:
  assumes "bytes_hold lib elem n r c g d" and "lo \<le> hi" and "hi \<le> n"
    and "stride = r * c * d_size lib (td_dtype d)"
  shows "hi * stride \<le> length (td_bytes d)"
    and "bytes_hold lib elem (hi - lo) r c (\<lambda>h. g (lo + h))
      \<lparr>td_bytes = take ((hi - lo) * stride) (drop (lo * stride) (td_bytes d)),
       td_shape = [1, hi - lo, r, c], td_dtype = td_dtype d\<rparr>"
proof -
  let ?s = "d_size lib (td_dtype d)" and ?bs = "td_bytes d"
  have len: "length ?bs = n * stride" using assms(1,4) by (simp add: bytes_hold_def mult.assoc)
  then show "hi * stride \<le> length ?bs" using assms(3) by simp
  have room: "(hi - lo) * stride + lo * stride \<le> length ?bs"
    using assms(2,3) len by (simp add: add_mult_distrib [symmetric])
  have elem: "elem_bytes ?s (take ((hi - lo) * stride) (drop (lo * stride) ?bs)) ((h * r + i) * c + j)
      = elem_bytes ?s ?bs (((lo + h) * r + i) * c + j)" if "h < hi - lo" "i < r" "j < c" for h i j
  proof -
    have "(h * r + i) * c + j + 1 \<le> (hi - lo) * (r * c)"
    proof -
      have "(h * r + i) * c + j + 1 \<le> (h * r + i + 1) * c" using that(3) by (simp add: add_mult_distrib)
      also have "\<dots> \<le> ((h + 1) * r) * c" using that(2) by (intro mult_right_mono) (simp_all add: add_mult_distrib)
      also have "\<dots> \<le> ((hi - lo) * r) * c" using that(1) by (intro mult_right_mono) simp_all
      finally show ?thesis by (simp add: mult.assoc)
    qed
    then have "((h * r + i) * c + j + 1) * ?s \<le> (hi - lo) * (r * c) * ?s" by (rule mult_right_mono) simp
    then have fits: "((h * r + i) * c + j) * ?s + ?s \<le> (hi - lo) * stride"
      unfolding assms(4) by (simp add: add_mult_distrib mult.assoc)
    have "lo * stride + ((h * r + i) * c + j) * ?s = (((lo + h) * r + i) * c + j) * ?s"
      unfolding assms(4) by (simp add: algebra_simps)
    then show ?thesis
      using fits by (simp add: elem_bytes_def drop_take min_def add.commute)
  qed
  have cut: "length (take ((hi - lo) * stride) (drop (lo * stride) ?bs)) = (hi - lo) * r * c * ?s"
    using room assms(4) by (simp add: mult.assoc)
  show "bytes_hold lib elem (hi - lo) r c (\<lambda>h. g (lo + h))
      \<lparr>td_bytes = take ((hi - lo) * stride) (drop (lo * stride) ?bs), td_shape = [1, hi - lo, r, c],
       td_dtype = td_dtype d\<rparr>"
    unfolding bytes_hold_def tensor_data.simps cut
    using assms(1-3) elem by (simp add: bytes_hold_def)
qed

end
