(* ===== verification/SortedMap.thy ===== *)
theory SortedMap
  imports Main "HOL-Library.List_Lexorder"
begin

text \<open>
  A \<open>BTreeMap\<close> as the list of its entries in the order of their keys, which is the order it
  iterates in: insertion, removal, and what lookups see of them.
\<close>

abbreviation keys :: "('k \<times> 'v) list \<Rightarrow> 'k list" where
  "keys es \<equiv> map fst es"

definition ordered :: "('k::linorder \<times> 'v) list \<Rightarrow> bool" where
  "ordered es \<longleftrightarrow> sorted_wrt (<) (keys es)"

fun put :: "'k::linorder \<Rightarrow> 'v \<Rightarrow> ('k \<times> 'v) list \<Rightarrow> ('k \<times> 'v) list" where
  "put k v [] = [(k, v)]"
| "put k v ((k', v') # rest) =
     (if k < k' then (k, v) # (k', v') # rest
      else if k = k' then (k, v) # rest
      else (k', v') # put k v rest)"

definition without :: "'k \<Rightarrow> ('k \<times> 'v) list \<Rightarrow> ('k \<times> 'v) list" where
  "without k es = filter (\<lambda>e. fst e \<noteq> k) es"

lemma ordered_distinct: "ordered es \<Longrightarrow> distinct (keys es)"
  unfolding ordered_def using strict_sorted_iff by blast

lemma keys_put: "set (keys (put k v es)) = Set.insert k (set (keys es))"
  by (induction k v es rule: put.induct) auto

lemma ordered_put: "ordered es \<Longrightarrow> ordered (put k v es)"
  unfolding ordered_def
proof (induction k v es rule: put.induct)
  case (2 k v k' v' rest)
  then show ?case using keys_put [of k v rest] by auto
qed simp

lemma ordered_without: "ordered es \<Longrightarrow> ordered (without k es)"
  unfolding ordered_def without_def by (induction es) auto

lemma map_of_put: "ordered es \<Longrightarrow> map_of (put k v es) = (map_of es)(k \<mapsto> v)"
  unfolding ordered_def by (induction k v es rule: put.induct) (auto simp: fun_eq_iff)

lemma map_of_without: "map_of (without k es) = (map_of es)(k := None)"
  unfolding without_def by (induction es) (auto simp: fun_eq_iff)

lemma keys_without: "set (keys (without k es)) = set (keys es) - {k}"
  unfolding without_def by auto

lemma set_put: "e \<in> set (put k v es) \<Longrightarrow> e = (k, v) \<or> e \<in> set es"
  by (induction k v es rule: put.induct) (auto split: if_splits)

lemma set_without: "e \<in> set (without k es) \<Longrightarrow> e \<in> set es"
  by (simp add: without_def)

lemma in_map_of: "ordered es \<Longrightarrow> (k, e) \<in> set es \<Longrightarrow> map_of es k = Some e"
  using ordered_distinct by (metis map_of_is_SomeI)

end
