(* ===== verification/StopMatcher.thy ===== *)
theory StopMatcher
  imports Prelude "HOL-Library.Sublist"
begin

text \<open>
  \<^verbatim>\<open>src/src/generation/control.rs\<close>: the generated-only stop sequences.

  \<^item> \<open>control_validate\<close> is \<open>GenerationControl::validate\<close>;
  \<^item> \<open>matcher\<close>, \<open>matcher_new\<close> and \<open>push\<close> are \<open>StopSequenceMatcher\<close>: one prefix-function
    matcher per pattern, with the two \<open>while\<close> loops that fall back along the table.
    \<open>None\<close> stands for a loop that does not return or an index out of range;
  \<^item> \<open>first_stop\<close> is the contract: the first pattern that is a suffix of all tokens pushed.

  The lemmas show that the tables hold the longest proper borders, that the state of a
  matcher is the longest live prefix, and that \<open>push\<close> implements \<open>first_stop\<close>.
\<close>

section \<open>The code\<close>

datatype generation_error =
    EmptyStopSequence nat
  | StopTokenOutsideVocabulary nat int nat
  | NoVocabulary
  | EmptyPrompt
  | PromptTokenOutsideVocabulary int nat
  | LengthOverflow
  | CapacityExceeded nat nat
  | EosOutsideVocabulary int nat
  | BadLogits "nat \<times> nat \<times> nat"
  | SelectedOutsideVocabulary int nat
  | NoNextLogits
  | InputCountOverflow
  | BadSpeculation
  | BadBlockLogits "nat \<times> nat \<times> nat"
  | AllLogitsNaN
  | Incomplete string
  | ModelFailure string

text \<open>The check of one pattern, token by token, and the loop over the patterns.\<close>

fun validate_stop_tokens :: "nat \<Rightarrow> nat \<Rightarrow> int list \<Rightarrow> (generation_error, unit) res" where
  "validate_stop_tokens vocab index [] = Ok ()"
| "validate_stop_tokens vocab index (token # rest) =
     (if token < 0 \<or> nat token \<ge> vocab then Err (StopTokenOutsideVocabulary index token vocab)
      else validate_stop_tokens vocab index rest)"

fun validate_stops :: "nat \<Rightarrow> (nat \<times> int list) list \<Rightarrow> (generation_error, unit) res" where
  "validate_stops vocab [] = Ok ()"
| "validate_stops vocab ((index, pattern) # rest) =
     (if pattern = [] then Err (EmptyStopSequence index)
      else case validate_stop_tokens vocab index pattern of
             Ok _ \<Rightarrow> validate_stops vocab rest
           | Err e \<Rightarrow> Err e
           | Panic \<Rightarrow> Panic)"

definition control_validate :: "int list list \<Rightarrow> nat \<Rightarrow> (generation_error, unit) res" where
  "control_validate patterns vocab = validate_stops vocab (enumerate 0 patterns)"

text \<open>The loop \<open>while length > 0 && pattern[length] != token\<close>.\<close>

partial_function (option) fall_back :: "'a list \<Rightarrow> nat list \<Rightarrow> 'a \<Rightarrow> nat \<Rightarrow> nat option" where
  "fall_back pat pre token len =
     (if len = 0 then Some len
      else if \<not> len < length pat then None
      else if pat ! len = token then Some len
      else if \<not> len - 1 < length pre then None
      else fall_back pat pre token (pre ! (len - 1)))"

definition advance :: "'a list \<Rightarrow> nat list \<Rightarrow> 'a \<Rightarrow> nat \<Rightarrow> nat option" where
  "advance pat pre token len =
     (case fall_back pat pre token len of
        None \<Rightarrow> None
      | Some l \<Rightarrow>
          if \<not> l < length pat then None
          else Some (if pat ! l = token then l + 1 else l))"

fun fill_prefix :: "'a list \<Rightarrow> nat list \<Rightarrow> nat list \<Rightarrow> nat list option" where
  "fill_prefix pat [] pre = Some pre"
| "fill_prefix pat (index # rest) pre =
     (if \<not> index < length pat then None
      else case advance pat pre (pat ! index) (pre ! (index - 1)) of
             None \<Rightarrow> None
           | Some l \<Rightarrow> fill_prefix pat rest (pre[index := l]))"

definition prefix_table :: "'a list \<Rightarrow> nat list option" where
  "prefix_table pat = fill_prefix pat [1..<length pat] (replicate (length pat) 0)"

record 'a matcher =
  patterns :: "'a list list"
  prefixes :: "nat list list"
  matched :: "nat list"

definition matcher_new :: "'a list list \<Rightarrow> 'a matcher option" where
  "matcher_new pats =
     (case those (map prefix_table pats) of
        None \<Rightarrow> None
      | Some pres \<Rightarrow>
          Some \<lparr>patterns = pats, prefixes = pres, matched = replicate (length pats) 0\<rparr>)"

text \<open>The body of the loop of \<open>push\<close> for the pattern at \<open>index\<close>.\<close>

definition push_pattern ::
  "'a \<Rightarrow> nat \<Rightarrow> 'a matcher \<times> nat option \<Rightarrow> ('a matcher \<times> nat option) option" where
  "push_pattern token index mf =
     (case mf of (m, first_match) \<Rightarrow>
        if \<not> (index < length (patterns m) \<and> index < length (prefixes m) \<and> index < length (matched m))
        then None
        else
          let pat = patterns m ! index; pre = prefixes m ! index in
          case advance pat pre token (matched m ! index) of
            None \<Rightarrow> None
          | Some len \<Rightarrow>
              if len = length pat then
                if \<not> len - 1 < length pre then None
                else Some (m\<lparr>matched := (matched m)[index := pre ! (len - 1)]\<rparr>,
                           case first_match of None \<Rightarrow> Some index | Some j \<Rightarrow> Some j)
              else Some (m\<lparr>matched := (matched m)[index := len]\<rparr>, first_match))"

fun push_loop ::
  "'a \<Rightarrow> nat list \<Rightarrow> 'a matcher \<times> nat option \<Rightarrow> ('a matcher \<times> nat option) option" where
  "push_loop token [] mf = Some mf"
| "push_loop token (index # rest) mf =
     (case push_pattern token index mf of
        None \<Rightarrow> None
      | Some mf' \<Rightarrow> push_loop token rest mf')"

definition push :: "'a matcher \<Rightarrow> 'a \<Rightarrow> ('a matcher \<times> nat option) option" where
  "push m token = push_loop token [0..<length (patterns m)] (m, None)"

text \<open>A matcher fed with a list of tokens, as the decoders do it token by token.\<close>

fun push_all :: "'a matcher \<Rightarrow> 'a list \<Rightarrow> ('a matcher \<times> nat option list) option" where
  "push_all m [] = Some (m, [])"
| "push_all m (token # rest) =
     (case push m token of
        None \<Rightarrow> None
      | Some (m', r) \<Rightarrow> map_option (\<lambda>(m'', rs). (m'', r # rs)) (push_all m' rest))"

section \<open>The contract\<close>

declare suffix_snoc [simp del]

definition first_stop :: "'a list list \<Rightarrow> 'a list \<Rightarrow> nat option" where
  "first_stop pats ts =
     (case filter (\<lambda>i. suffix (pats ! i) ts) [0..<length pats] of
        [] \<Rightarrow> None
      | i # _ \<Rightarrow> Some i)"

text \<open>\<open>over pat ts k\<close>: the first \<open>k\<close> tokens of the pattern end \<open>ts\<close>.\<close>

definition over :: "'a list \<Rightarrow> 'a list \<Rightarrow> nat \<Rightarrow> bool" where
  "over pat ts k \<longleftrightarrow> k \<le> length pat \<and> suffix (take k pat) ts"

lemma over_0 [simp]: "over pat ts 0"
  by (simp add: over_def)

lemma over_Nil [simp]: "over pat [] k \<longleftrightarrow> k = 0"
  by (auto simp: over_def)

lemma over_le: "over pat ts k \<Longrightarrow> k \<le> length pat"
  by (simp add: over_def)

lemma over_length: "over pat ts (length pat) \<longleftrightarrow> suffix pat ts"
  by (simp add: over_def)

lemma over_le_text: "over pat ts k \<Longrightarrow> k \<le> length ts"
  unfolding over_def using suffix_length_le [of "take k pat" ts] by auto

text \<open>One more token extends an overlap by one or ends it.\<close>

lemma over_snoc: "over pat (ts @ [t]) (Suc k) \<longleftrightarrow> k < length pat \<and> pat ! k = t \<and> over pat ts k"
  by (auto simp: over_def take_Suc_conv_app_nth)

text \<open>Of two overlaps of one text the shorter ends the longer, without its first token.\<close>

lemma over_nested:
  assumes "over pat ts k" and "over pat ts l" and "k < l"
  shows "over pat (tl (take l pat)) k"
proof -
  have l: "l \<le> length pat" using assms(2) by (rule over_le)
  have "suffix (take k pat) (take l pat)"
    using assms suffix_length_suffix [of "take k pat" ts "take l pat"] by (simp add: over_def)
  then obtain ys where ys: "take l pat = ys @ take k pat" by (auto simp: suffix_def)
  moreover have "length (take l pat) = l" "length (take k pat) = k" using l assms(3) by simp_all
  ultimately have "ys \<noteq> []" using assms(3) by auto
  then have "tl (take l pat) = tl ys @ take k pat" using ys by simp
  then show ?thesis using l assms(3) by (simp add: over_def suffix_def)
qed

lemma over_trans:
  assumes "over pat (tl (take l pat)) k" and "over pat ts l"
  shows "over pat ts k"
proof -
  have "suffix (tl (take l pat)) (take l pat)" by (rule suffix_tl)
  then show ?thesis using assms unfolding over_def by (meson suffix_order.trans)
qed

section \<open>Tables and live prefixes\<close>

definition longest :: "'a list \<Rightarrow> 'a list \<Rightarrow> nat \<Rightarrow> bool" where
  "longest pat ts k \<longleftrightarrow> over pat ts k \<and> (\<forall>j. over pat ts j \<longrightarrow> j \<le> k)"

text \<open>The longest overlap that still waits for a token of the pattern.\<close>

definition live :: "'a list \<Rightarrow> 'a list \<Rightarrow> nat \<Rightarrow> bool" where
  "live pat ts k \<longleftrightarrow> k < length pat \<and> over pat ts k \<and> (\<forall>j<length pat. over pat ts j \<longrightarrow> j \<le> k)"

text \<open>The first \<open>n\<close> entries of the table are longest proper borders.\<close>

definition table_ok :: "'a list \<Rightarrow> nat list \<Rightarrow> nat \<Rightarrow> bool" where
  "table_ok pat pre n \<longleftrightarrow>
     length pre = length pat \<and> (\<forall>j<n. longest pat (tl (take (Suc j) pat)) (pre ! j))"

lemma longest_unique: "longest pat ts k \<Longrightarrow> longest pat ts l \<Longrightarrow> k = l"
  by (simp add: longest_def le_antisym)

lemma live_unique: "live pat ts k \<Longrightarrow> live pat ts l \<Longrightarrow> k = l"
  by (simp add: live_def le_antisym)

lemma live_Nil: "pat \<noteq> [] \<Longrightarrow> live pat [] 0"
  by (simp add: live_def)

lemma longest_live: "longest pat ts k \<Longrightarrow> k < length pat \<Longrightarrow> live pat ts k"
  by (simp add: longest_def live_def)

lemma table_entry:
  "table_ok pat pre n \<Longrightarrow> 0 < l \<Longrightarrow> l \<le> n \<Longrightarrow> longest pat (tl (take l pat)) (pre ! (l - 1))"
  unfolding table_ok_def by (metis Suc_diff_1 Suc_le_lessD)

lemma table_entry_less:
  assumes "table_ok pat pre n" and "0 < l" and "l \<le> n" and "l \<le> length pat"
  shows "pre ! (l - 1) < l"
proof -
  have "pre ! (l - 1) \<le> length (tl (take l pat))"
    using table_entry [OF assms(1-3)] by (intro over_le_text [of pat]) (simp add: longest_def)
  then show ?thesis using assms(2,4) by simp
qed

text \<open>
  The fall-back loop returns, with the longest overlap that the token can extend, or 0.
\<close>

lemma fall_back_longest:
  assumes "table_ok pat pre n" and "len \<le> n" and "len < length pat" and "over pat ts len"
    and "\<And>k. k < length pat \<Longrightarrow> over pat ts k \<Longrightarrow> pat ! k = t \<Longrightarrow> k \<le> len"
  shows "\<exists>l. fall_back pat pre t len = Some l \<and> l < length pat \<and> over pat ts l
     \<and> (l = 0 \<or> pat ! l = t) \<and> (\<forall>k<length pat. over pat ts k \<and> pat ! k = t \<longrightarrow> k \<le> l)"
  using assms(2-)
proof (induction len rule: less_induct)
  case (less len)
  show ?case
  proof (cases "len = 0 \<or> pat ! len = t")
    case True
    then have "fall_back pat pre t len = Some len"
      using less.prems(2) by (subst fall_back.simps) auto
    then show ?thesis using True less.prems by auto
  next
    case False
    let ?l = "pre ! (len - 1)"
    have border: "longest pat (tl (take len pat)) ?l"
      using False less.prems by (intro table_entry [OF assms(1)]) auto
    have small: "?l < len"
      using False less.prems by (intro table_entry_less [OF assms(1)]) auto
    have eq: "fall_back pat pre t len = fall_back pat pre t ?l"
      using False less.prems(2) assms(1) by (subst fall_back.simps) (auto simp: table_ok_def)
    have "over pat ts ?l"
      using border less.prems(3) by (auto simp: longest_def intro: over_trans)
    moreover have "k \<le> ?l" if k: "k < length pat" "over pat ts k" "pat ! k = t" for k
    proof -
      have "k \<le> len" by (rule less.prems(4) [OF k])
      then have "k < len" using k(3) False by (cases "k = len") auto
      then have "over pat (tl (take len pat)) k" using k(2) less.prems(3) by (intro over_nested)
      then show ?thesis using border by (simp add: longest_def)
    qed
    ultimately show ?thesis
      using less.IH [OF small] small less.prems(1,2) by (simp add: eq)
  qed
qed

lemma advance_longest:
  assumes "table_ok pat pre n" and "len \<le> n" and "len < length pat" and "over pat ts len"
    and "\<And>k. k < length pat \<Longrightarrow> over pat ts k \<Longrightarrow> pat ! k = t \<Longrightarrow> k \<le> len"
  shows "\<exists>r. advance pat pre t len = Some r \<and> longest pat (ts @ [t]) r"
proof -
  obtain l where l: "fall_back pat pre t len = Some l" "l < length pat" "over pat ts l"
    "l = 0 \<or> pat ! l = t" "\<forall>k<length pat. over pat ts k \<and> pat ! k = t \<longrightarrow> k \<le> l"
    using fall_back_longest [OF assms] by blast
  let ?r = "if pat ! l = t then l + 1 else l"
  have "over pat (ts @ [t]) ?r"
    using l(2-4) by (auto simp: over_snoc)
  moreover have "j \<le> ?r" if "over pat (ts @ [t]) j" for j
  proof (cases j)
    case (Suc k)
    then have k: "k < length pat" "pat ! k = t" "over pat ts k" using that by (auto simp: over_snoc)
    then have "k \<le> l" using l(5) by blast
    then show ?thesis using k(2) l(4) Suc by auto
  qed simp
  ultimately have "longest pat (ts @ [t]) ?r" by (auto simp: longest_def)
  then show ?thesis using l(1,2) by (simp add: advance_def)
qed

lemma fill_prefix_ok:
  assumes "table_ok pat pre n" and "0 < n" and "n \<le> length pat"
  shows "\<exists>pre'. fill_prefix pat [n..<length pat] pre = Some pre' \<and> table_ok pat pre' (length pat)"
  using assms
proof (induction "length pat - n" arbitrary: n pre)
  case 0
  then have "n = length pat" by simp
  then show ?case using 0 by simp
next
  case (Suc d)
  then have n: "n < length pat" by simp
  then have upt: "[n..<length pat] = n # [Suc n..<length pat]" by (simp add: upt_conv_Cons)
  let ?ts = "tl (take n pat)"
  have shift: "?ts @ [pat ! n] = tl (take (Suc n) pat)"
    using Suc.prems(2) n by (cases pat; cases n) (auto simp: take_Suc_conv_app_nth)
  have len: "longest pat ?ts (pre ! (n - 1))"
    using Suc.prems(2,3) by (intro table_entry [OF Suc.prems(1)]) auto
  have "pre ! (n - 1) < n"
    using Suc.prems(2,3) by (intro table_entry_less [OF Suc.prems(1)]) auto
  then obtain r where r: "advance pat pre (pat ! n) (pre ! (n - 1)) = Some r"
      "longest pat (tl (take (Suc n) pat)) r"
    using advance_longest [OF Suc.prems(1), of "pre ! (n - 1)" ?ts "pat ! n"] len n
    unfolding shift by (auto simp: longest_def)
  have "table_ok pat (pre[n := r]) (Suc n)"
    using Suc.prems(1) r(2) n by (auto simp: table_ok_def nth_list_update less_Suc_eq)
  then show ?case
    using Suc.hyps(1) [of "Suc n" "pre[n := r]"] Suc.hyps(2) n r(1) by (simp add: upt)
qed

lemma prefix_table_ok:
  assumes "pat \<noteq> []"
  shows "\<exists>pre. prefix_table pat = Some pre \<and> table_ok pat pre (length pat)"
proof -
  have "tl (take (Suc 0) pat) = []" by (cases pat) auto
  then have "table_ok pat (replicate (length pat) 0) 1"
    using assms by (simp add: table_ok_def longest_def)
  then show ?thesis
    using fill_prefix_ok [of pat _ 1] assms by (simp add: prefix_table_def Suc_le_eq)
qed

section \<open>Matchers\<close>

text \<open>
  \<open>matcher_at pats ts m\<close>: the state of the matcher after the tokens \<open>ts\<close>. It is
  determined by the patterns and the tokens.
\<close>

definition tables_for :: "'a list list \<Rightarrow> 'a matcher \<Rightarrow> bool" where
  "tables_for pats m \<longleftrightarrow>
     patterns m = pats \<and> length (prefixes m) = length pats \<and> length (matched m) = length pats
     \<and> (\<forall>i<length pats. table_ok (pats ! i) (prefixes m ! i) (length (pats ! i)))"

definition matcher_at :: "'a list list \<Rightarrow> 'a list \<Rightarrow> 'a matcher \<Rightarrow> bool" where
  "matcher_at pats ts m \<longleftrightarrow>
     tables_for pats m \<and> (\<forall>i<length pats. live (pats ! i) ts (matched m ! i))"

lemma table_ok_unique:
  assumes "table_ok pat a (length pat)" and "table_ok pat b (length pat)"
  shows "a = b"
proof (rule nth_equalityI)
  show "length a = length b" using assms by (simp add: table_ok_def)
  show "a ! i = b ! i" if "i < length a" for i
    using assms that unfolding table_ok_def by (metis longest_unique)
qed

lemma matcher_at_unique:
  fixes m m' :: "'a matcher"
  assumes "matcher_at pats ts m" and "matcher_at pats ts m'"
  shows "m = m'"
proof -
  have "prefixes m = prefixes m'"
  proof (rule nth_equalityI)
    show "length (prefixes m) = length (prefixes m')"
      using assms by (simp add: matcher_at_def tables_for_def)
    show "prefixes m ! i = prefixes m' ! i" if "i < length (prefixes m)" for i
      using assms that unfolding matcher_at_def tables_for_def by (metis table_ok_unique)
  qed
  moreover have "matched m = matched m'"
  proof (rule nth_equalityI)
    show "length (matched m) = length (matched m')"
      using assms by (simp add: matcher_at_def tables_for_def)
    show "matched m ! i = matched m' ! i" if "i < length (matched m)" for i
      using assms that unfolding matcher_at_def tables_for_def by (metis live_unique)
  qed
  ultimately show ?thesis using assms by (simp add: matcher_at_def tables_for_def)
qed

lemma those_map_Some:
  "(\<And>x. x \<in> set xs \<Longrightarrow> \<exists>y. f x = Some y \<and> P x y)
   \<Longrightarrow> \<exists>ys. those (map f xs) = Some ys \<and> length ys = length xs \<and> (\<forall>i<length xs. P (xs ! i) (ys ! i))"
proof (induction xs)
  case (Cons x xs)
  from Cons.IH obtain ys where ys: "those (map f xs) = Some ys" "length ys = length xs"
    "\<forall>i<length xs. P (xs ! i) (ys ! i)"
    using Cons.prems by auto
  from Cons.prems obtain y where y: "f x = Some y" "P x y" by auto
  have "those (map f (x # xs)) = Some (y # ys)" using y ys by simp
  then show ?case
    using y ys by (intro exI [of _ "y # ys"]) (auto simp: nth_Cons split: nat.split)
qed simp

lemma matcher_new_at:
  assumes "[] \<notin> set pats"
  shows "\<exists>m. matcher_new pats = Some m \<and> matcher_at pats [] m"
proof -
  obtain pres where pres: "those (map prefix_table pats) = Some pres" "length pres = length pats"
    "\<forall>i<length pats. table_ok (pats ! i) (pres ! i) (length (pats ! i))"
    using those_map_Some [of pats prefix_table "\<lambda>p t. table_ok p t (length p)"] assms prefix_table_ok
    by metis
  have "pats ! i \<noteq> []" if "i < length pats" for i
    using assms that nth_mem [OF that] by metis
  then show ?thesis
    using pres by (auto simp: matcher_new_def matcher_at_def tables_for_def live_Nil)
qed

lemma push_pattern_at:
  fixes m :: "'a matcher"
  assumes "tables_for pats m" and "i < length pats" and "live (pats ! i) ts (matched m ! i)"
  shows "\<exists>k. push_pattern t i (m, fm) = Some (m\<lparr>matched := (matched m)[i := k]\<rparr>,
           if suffix (pats ! i) (ts @ [t]) then (case fm of None \<Rightarrow> Some i | Some j \<Rightarrow> Some j) else fm)
         \<and> live (pats ! i) (ts @ [t]) k"
proof -
  let ?pat = "pats ! i" and ?pre = "prefixes m ! i" and ?len = "matched m ! i"
  have tab: "table_ok ?pat ?pre (length ?pat)" using assms(1,2) by (simp add: tables_for_def)
  have "?len < length ?pat" "over ?pat ts ?len" "\<And>k. k < length ?pat \<Longrightarrow> over ?pat ts k \<Longrightarrow> k \<le> ?len"
    using assms(3) by (auto simp: live_def)
  then obtain r where r: "advance ?pat ?pre t ?len = Some r" "longest ?pat (ts @ [t]) r"
    using advance_longest [OF tab, of ?len ts t] by auto
  have ind: "i < length (patterns m)" "i < length (prefixes m)" "i < length (matched m)" "patterns m = pats"
    using assms(1,2) by (auto simp: tables_for_def)
  show ?thesis
  proof (cases "r = length ?pat")
    case False
    moreover have "r \<le> length ?pat" using r(2) by (auto simp: longest_def dest: over_le)
    ultimately have "\<not> suffix ?pat (ts @ [t])" "r < length ?pat"
      using r(2) unfolding longest_def over_length [symmetric] by auto
    then show ?thesis
      using r ind False by (intro exI [of _ r]) (simp add: push_pattern_def Let_def longest_live)
  next
    case True
    let ?k = "?pre ! (r - 1)"
    have pos: "0 < r" using True \<open>?len < length ?pat\<close> by linarith
    have full: "over ?pat (ts @ [t]) r" using r(2) by (simp add: longest_def)
    then have suf: "suffix ?pat (ts @ [t])" using True by (simp add: over_length)
    have border: "longest ?pat (tl (take r ?pat)) ?k"
      using True pos by (intro table_entry [OF tab]) auto
    have small: "?k < r" using True pos by (intro table_entry_less [OF tab]) auto
    have "j \<le> ?k" if "j < length ?pat" "over ?pat (ts @ [t]) j" for j
      using border over_nested [OF that(2) full] that(1) True by (simp add: longest_def)
    moreover have "over ?pat (ts @ [t]) ?k"
      using border full by (auto simp: longest_def intro: over_trans)
    ultimately have "live ?pat (ts @ [t]) ?k" using small True by (simp add: live_def)
    moreover have "r - 1 < length ?pre" using tab True pos by (simp add: table_ok_def)
    ultimately show ?thesis
      using r(1) ind True suf by (intro exI [of _ ?k]) (simp add: push_pattern_def Let_def)
  qed
qed

abbreviation first_of :: "'b list \<Rightarrow> 'b option" where
  "first_of xs \<equiv> (case xs of [] \<Rightarrow> None | x # _ \<Rightarrow> Some x)"

lemma first_of_snoc: "first_of (xs @ [x]) = (case first_of xs of None \<Rightarrow> Some x | Some y \<Rightarrow> Some y)"
  by (cases xs) auto

lemma push_loop_at:
  fixes m :: "'a matcher"
  assumes "tables_for pats m" and "i \<le> length pats"
    and "\<forall>j<i. live (pats ! j) (ts @ [t]) (matched m ! j)"
    and "\<forall>j<length pats. i \<le> j \<longrightarrow> live (pats ! j) ts (matched m ! j)"
  shows "\<exists>m'. push_loop t [i..<length pats]
           (m, first_of (filter (\<lambda>j. suffix (pats ! j) (ts @ [t])) [0..<i]))
         = Some (m', first_stop pats (ts @ [t])) \<and> matcher_at pats (ts @ [t]) m'"
  using assms
proof (induction "length pats - i" arbitrary: i m)
  case 0
  then show ?case by (simp add: first_stop_def matcher_at_def)
next
  case (Suc d)
  let ?P = "\<lambda>j. suffix (pats ! j) (ts @ [t])"
  have i: "i < length pats" using Suc.hyps(2) by simp
  then have upt: "[i..<length pats] = i # [Suc i..<length pats]" by (simp add: upt_conv_Cons)
  obtain k where k: "push_pattern t i (m, first_of (filter ?P [0..<i])) =
      Some (m\<lparr>matched := (matched m)[i := k]\<rparr>,
        if ?P i then (case first_of (filter ?P [0..<i]) of None \<Rightarrow> Some i | Some j \<Rightarrow> Some j)
        else first_of (filter ?P [0..<i]))"
      "live (pats ! i) (ts @ [t]) k"
    using push_pattern_at [OF Suc.prems(1) i, of ts t "first_of (filter ?P [0..<i])"] Suc.prems(4) i
    by blast
  let ?m = "m\<lparr>matched := (matched m)[i := k]\<rparr>"
  have step: "push_pattern t i (m, first_of (filter ?P [0..<i]))
      = Some (?m, first_of (filter ?P [0..<Suc i]))"
    using k(1) by (simp add: first_of_snoc)
  have tabs: "tables_for pats ?m" using Suc.prems(1) by (simp add: tables_for_def)
  have len: "i < length (matched m)" using Suc.prems(1) i by (simp add: tables_for_def)
  have below: "\<forall>j<Suc i. live (pats ! j) (ts @ [t]) (matched ?m ! j)"
    using Suc.prems(3) k(2) len by (auto simp: nth_list_update less_Suc_eq)
  have above: "\<forall>j<length pats. Suc i \<le> j \<longrightarrow> live (pats ! j) ts (matched ?m ! j)"
    using Suc.prems(4) by auto
  have "d = length pats - Suc i" "Suc i \<le> length pats" using Suc.hyps(2) by simp_all
  from Suc.hyps(1) [OF this(1) tabs this(2) below above] show ?case
    unfolding upt push_loop.simps step by simp
qed

lemma push_at:
  assumes "matcher_at pats ts m"
  shows "\<exists>m'. push m t = Some (m', first_stop pats (ts @ [t])) \<and> matcher_at pats (ts @ [t]) m'"
  using push_loop_at [of pats m 0 ts t] assms by (simp add: push_def matcher_at_def tables_for_def)

lemma push_all_at:
  assumes "matcher_at pats ts m"
  shows "\<exists>m'. push_all m us
           = Some (m', map (\<lambda>n. first_stop pats (ts @ take n us)) [1..<Suc (length us)])
         \<and> matcher_at pats (ts @ us) m'"
  using assms
proof (induction us arbitrary: ts m)
  case (Cons u us)
  obtain m' where m': "push m u = Some (m', first_stop pats (ts @ [u]))" "matcher_at pats (ts @ [u]) m'"
    using push_at [OF Cons.prems] by blast
  obtain n where n: "push_all m' us
      = Some (n, map (\<lambda>n. first_stop pats ((ts @ [u]) @ take n us)) [1..<Suc (length us)])"
      "matcher_at pats (ts @ u # us) n"
    using Cons.IH [OF m'(2)] by auto
  have "[1..<Suc (Suc (length us))] = 1 # map Suc [1..<Suc (length us)]"
    by (simp add: map_Suc_upt upt_conv_Cons del: upt_Suc)
  then show ?case using m'(1) n by (auto simp del: upt_Suc)
qed simp

lemma first_stop_NoneD: "first_stop pats ts = None \<Longrightarrow> p \<in> set pats \<Longrightarrow> \<not> suffix p ts"
  unfolding first_stop_def by (auto simp: filter_empty_conv in_set_conv_nth split: list.splits)

lemma first_stop_SomeD:
  assumes "first_stop pats ts = Some i"
  shows "i < length pats" and "suffix (pats ! i) ts" and "j < i \<Longrightarrow> \<not> suffix (pats ! j) ts"
proof -
  let ?P = "\<lambda>i. suffix (pats ! i) ts"
  obtain rest where rest: "filter ?P [0..<length pats] = i # rest"
    using assms by (auto simp: first_stop_def split: list.splits)
  then have "i \<in> set (filter ?P [0..<length pats])" by simp
  then show "i < length pats" "suffix (pats ! i) ts" by auto
  show "\<not> suffix (pats ! j) ts" if "j < i"
  proof
    assume "suffix (pats ! j) ts"
    then have "j \<in> set (i # rest)" using that \<open>i < length pats\<close> unfolding rest [symmetric] by auto
    moreover have "sorted (i # rest)" unfolding rest [symmetric] by (intro sorted_wrt_filter) simp
    ultimately show False using that by auto
  qed
qed

end
