(* ===== verification/Generation.thy ===== *)
theory Generation
  imports StopMatcher
begin

text \<open>
  \<^verbatim>\<open>src/src/generation.rs\<close>: one cached request decoded token by token.

  \<^item> \<open>validate_generation\<close>, \<open>stream_loop\<close>, \<open>generate_stream\<close> and the wrappers around them
    are the functions of the same names (\<open>generate_with_selector_stream\<close> is
    \<open>generate_stream\<close>);
  \<^item> a model is a record of its operations: a fresh cache, a fallible forward that may
    change the cache, the shape of logits and the greedy choice. Tensors, kernels and
    weights are behind these operations;
  \<^item> the world \<open>'w\<close> is everything outside the call: the cancellation flag, read through
    \<open>poll\<close>, the callback \<open>on_token\<close> and the device that is synchronised at the end;
  \<^item> \<open>decode\<close> and \<open>stop_reason\<close> say what greedy decoding is, without a cache.
\<close>

section \<open>Data\<close>

record causal_limits =
  vocab_size :: nat
  max_sequence_length :: nat

record greedy_generation =
  max_new_tokens :: nat
  eos_token_ids :: "int list"

record token_output =
  token_ids :: "int list"
  generated_token_ids :: "int list"
  stopped_on_eos :: bool

datatype finish_reason = MaxNewTokens | EosToken int | StopSequence nat | Cancelled

record event =
  event_token :: int
  event_generated :: "int list"
  event_reason :: "finish_reason option"

text \<open>\<open>ControlFlow<()>\<close>, the answer of the callback.\<close>

datatype flow = Continue | Break

record ('c, 'l) causal_model =
  fresh_cache :: 'c
  try_forward :: "int list \<Rightarrow> 'c \<Rightarrow> (generation_error, 'l) res \<times> 'c"
  dims :: "'l \<Rightarrow> nat \<times> nat \<times> nat"
  same_device :: "'l \<Rightarrow> bool"
  greedy_token :: "'l \<Rightarrow> (generation_error, int) res"

record 'w control =
  stop_token_sequences :: "int list list"
  poll :: "'w \<Rightarrow> bool \<times> 'w"

type_synonym 'w callback = "event \<Rightarrow> 'w \<Rightarrow> flow \<times> 'w"
type_synonym ('l, 'w) selector = "'l \<Rightarrow> ('w, generation_error, int) op"
type_synonym ('w, 'a) generation_op = "('w, generation_error, 'a) op"

section \<open>Validation\<close>

definition outside :: "nat \<Rightarrow> int \<Rightarrow> bool" where
  "outside vocab token \<longleftrightarrow> token < 0 \<or> nat token \<ge> vocab"

text \<open>The end tokens are collected in a \<open>BTreeSet\<close>: a sorted list without repetitions.\<close>

definition validate_generation ::
  "causal_limits \<Rightarrow> int list \<Rightarrow> greedy_generation \<Rightarrow> (generation_error, int list) res" where
  "validate_generation limits prompt generation =
     (if vocab_size limits = 0 \<or> vocab_size limits - 1 > i32_max then Err NoVocabulary
      else if prompt = [] then Err EmptyPrompt
      else case find (outside (vocab_size limits)) prompt of
        Some token \<Rightarrow> Err (PromptTokenOutsideVocabulary token (vocab_size limits))
      | None \<Rightarrow>
          (case checked_add (length prompt) (max_new_tokens generation) of
             None \<Rightarrow> Err LengthOverflow
           | Some requested \<Rightarrow>
               if requested > max_sequence_length limits
               then Err (CapacityExceeded requested (max_sequence_length limits))
               else
                 let eos = sort (remdups (eos_token_ids generation)) in
                 case find (outside (vocab_size limits)) eos of
                   Some invalid \<Rightarrow> Err (EosOutsideVocabulary invalid (vocab_size limits))
                 | None \<Rightarrow> Ok eos))"

section \<open>The decode loop\<close>

text \<open>End token, then stop sequence, then length; \<open>made\<close> is the number of tokens so far.\<close>

definition natural_stop ::
  "int list \<Rightarrow> nat \<Rightarrow> int \<Rightarrow> nat option \<Rightarrow> nat \<Rightarrow> finish_reason option" where
  "natural_stop eos limit token hit made =
     (if token \<in> set eos then Some (EosToken token)
      else case hit of
        Some index \<Rightarrow> Some (StopSequence index)
      | None \<Rightarrow> if made = limit then Some MaxNewTokens else None)"

definition append_token :: "int list \<Rightarrow> int \<Rightarrow> token_output \<Rightarrow> token_output" where
  "append_token eos token out =
     out\<lparr>token_ids := token_ids out @ [token],
         generated_token_ids := generated_token_ids out @ [token],
         stopped_on_eos := token \<in> set eos \<or> stopped_on_eos out\<rparr>"

fun stream_loop ::
  "('c, 'l) causal_model \<Rightarrow> 'w control \<Rightarrow> ('l, 'w) selector \<Rightarrow> 'w callback \<Rightarrow> nat \<Rightarrow> nat \<Rightarrow> int list
   \<Rightarrow> nat list \<Rightarrow> 'c \<Rightarrow> 'l \<Rightarrow> int matcher \<Rightarrow> token_output
   \<Rightarrow> ('w, token_output \<times> finish_reason) generation_op" where
  "stream_loop mdl ctl select on_token vocab limit eos [] cache logits m out w =
     (Ok (out, MaxNewTokens), w)"
| "stream_loop mdl ctl select on_token vocab limit eos (step # steps) cache logits m out w =
     (case poll ctl w of
        (True, w) \<Rightarrow> (Ok (out, Cancelled), w)
      | (False, w) \<Rightarrow>
     (case dims mdl logits of (batch, sequence, vocabulary) \<Rightarrow>
      if batch \<noteq> 1 \<or> sequence = 0 \<or> vocabulary \<noteq> vocab
      then (Err (BadLogits (batch, sequence, vocabulary)), w)
      else case select logits w of
        (Err e, w) \<Rightarrow> (Err e, w)
      | (Panic, w) \<Rightarrow> (Panic, w)
      | (Ok token, w) \<Rightarrow>
      if outside vocab token then (Err (SelectedOutsideVocabulary token vocab), w)
      else let out = append_token eos token out in
      case push m token of
        None \<Rightarrow> (Panic, w)
      | Some (m, hit) \<Rightarrow>
      let stop = natural_stop eos limit token hit (step + 1) in
      case on_token \<lparr>event_token = token, event_generated = generated_token_ids out,
                     event_reason = stop\<rparr> w of
        (response, w) \<Rightarrow>
      (case stop of
         Some reason \<Rightarrow> (Ok (out, reason), w)
       | None \<Rightarrow>
           if response = Break then (Ok (out, Cancelled), w)
           else case poll ctl w of
             (True, w) \<Rightarrow> (Ok (out, Cancelled), w)
           | (False, w) \<Rightarrow>
               (case try_forward mdl [token] cache of
                  (Ok logits, cache) \<Rightarrow>
                    stream_loop mdl ctl select on_token vocab limit eos steps cache logits m out w
                | (Err e, _) \<Rightarrow> (Err e, w)
                | (Panic, _) \<Rightarrow> (Panic, w)))))"

definition generate_stream ::
  "('c, 'l) causal_model \<Rightarrow> causal_limits \<Rightarrow> int list \<Rightarrow> greedy_generation \<Rightarrow> 'w control
   \<Rightarrow> ('w, unit) generation_op \<Rightarrow> ('l, 'w) selector \<Rightarrow> 'w callback
   \<Rightarrow> ('w, token_output \<times> finish_reason) generation_op" where
  "generate_stream mdl limits prompt generation ctl sync select on_token w =
     (case validate_generation limits prompt generation of
        Err e \<Rightarrow> (Err e, w)
      | Panic \<Rightarrow> (Panic, w)
      | Ok eos \<Rightarrow>
     (case control_validate (stop_token_sequences ctl) (vocab_size limits) of
        Err e \<Rightarrow> (Err e, w)
      | Panic \<Rightarrow> (Panic, w)
      | Ok _ \<Rightarrow>
      let out = \<lparr>token_ids = prompt, generated_token_ids = [], stopped_on_eos = False\<rparr>;
          early = (\<lambda>w. case poll ctl w of
            (b, w) \<Rightarrow> (Ok (out, if b then Cancelled else MaxNewTokens), w)) in
      if max_new_tokens generation = 0 then early w
      else case poll ctl w of
        (True, w) \<Rightarrow> early w
      | (False, w) \<Rightarrow>
      (case matcher_new (stop_token_sequences ctl) of
         None \<Rightarrow> (Panic, w)
       | Some m \<Rightarrow>
       case try_forward mdl prompt (fresh_cache mdl) of
         (Err e, _) \<Rightarrow> (Err e, w)
       | (Panic, _) \<Rightarrow> (Panic, w)
       | (Ok logits, cache) \<Rightarrow>
           bind_op
             (stream_loop mdl ctl select on_token (vocab_size limits) (max_new_tokens generation)
                eos [0..<max_new_tokens generation] cache logits m out)
             (\<lambda>result. bind_op sync (\<lambda>_. ret_op result)) w)))"

text \<open>The greedy selector reads the logits and leaves the world alone.\<close>

definition greedy_select :: "('c, 'l) causal_model \<Rightarrow> ('l, 'w) selector" where
  "greedy_select mdl logits w = (greedy_token mdl logits, w)"

definition generate_causal_greedy_stream ::
  "('c, 'l) causal_model \<Rightarrow> causal_limits \<Rightarrow> int list \<Rightarrow> greedy_generation \<Rightarrow> 'w control
   \<Rightarrow> ('w, unit) generation_op \<Rightarrow> 'w callback \<Rightarrow> ('w, token_output \<times> finish_reason) generation_op" where
  "generate_causal_greedy_stream mdl limits prompt generation ctl sync on_token =
     generate_stream mdl limits prompt generation ctl sync (greedy_select mdl) on_token"

text \<open>\<open>GenerationControl::default()\<close> and the callback that always continues.\<close>

definition default_control :: "'w control" where
  "default_control = \<lparr>stop_token_sequences = [], poll = (\<lambda>w. (False, w))\<rparr>"

definition generate_with_selector ::
  "('c, 'l) causal_model \<Rightarrow> causal_limits \<Rightarrow> int list \<Rightarrow> greedy_generation
   \<Rightarrow> ('w, unit) generation_op \<Rightarrow> ('l, 'w) selector \<Rightarrow> ('w, token_output) generation_op" where
  "generate_with_selector mdl limits prompt generation sync select =
     bind_op
       (generate_stream mdl limits prompt generation default_control sync select
          (\<lambda>_ w. (Continue, w)))
       (\<lambda>result. ret_op (fst result))"

definition generate_causal_greedy ::
  "('c, 'l) causal_model \<Rightarrow> causal_limits \<Rightarrow> int list \<Rightarrow> greedy_generation
   \<Rightarrow> ('w, unit) generation_op \<Rightarrow> ('w, token_output) generation_op" where
  "generate_causal_greedy mdl limits prompt generation sync =
     generate_with_selector mdl limits prompt generation sync (greedy_select mdl)"

end
