(* ===== verification/PrefixTransfer.thy ===== *)
theory PrefixTransfer
  imports TensorLib SortedMap Generation "HOL-Library.Char_ord"
begin

text \<open>
  \<^verbatim>\<open>src/src/prefix_transfer.rs\<close> and the dense prefixes of \<^verbatim>\<open>src/src/batch_kv.rs\<close>: a cached prefix as
  named tensors that are split over heads. Every rank of a model exports the heads it owns, the
  exports are merged, kept on the device, as bytes or by reference to another process, and every
  rank of a possibly different number of ranks takes the heads it needs.

  A \<open>BTreeMap\<close> is a sorted list of entries. The tensor library is \<open>tensor_lib\<close>; \<open>receive\<close> is the
  receiver of remote payloads, an operation of the world.
\<close>

section \<open>Shards\<close>

record prefix_shard =
  ps_rank :: nat
  ps_world :: nat
  ps_kv_heads :: "nat option"
  ps_linear_key_heads :: "nat option"
  ps_linear_value_heads :: "nat option"

definition default_shard :: prefix_shard where
  "default_shard = \<lparr>ps_rank = 0, ps_world = 1, ps_kv_heads = None, ps_linear_key_heads = None,
     ps_linear_value_heads = None\<rparr>"

type_synonym span = "nat \<times> nat \<times> nat"

definition heads :: "prefix_shard \<Rightarrow> nat option \<Rightarrow> nat \<Rightarrow> (generation_error, span) res" where
  "heads sh glob local =
     (case glob of
        None \<Rightarrow> Ok (local, 0, local)
      | Some g \<Rightarrow>
          if ps_world sh = 0 \<or> ps_world sh \<le> ps_rank sh \<or> g = 0 \<or> local = 0
          then Err (ModelFailure ''invalid prefix shard topology'')
          else
            (case (if ps_world sh \<le> g \<and> g mod ps_world sh = 0
                   then Some (let n = g div ps_world sh in (ps_rank sh * n, (ps_rank sh + 1) * n))
                   else if g < ps_world sh \<and> ps_world sh mod g = 0
                   then Some (let start = ps_rank sh div (ps_world sh div g) in (start, start + 1))
                   else None) of
               None \<Rightarrow> Err (ModelFailure ''prefix heads do not partition or replicate across TP ranks'')
             | Some (a, b) \<Rightarrow>
                 if b - a \<noteq> local
                 then Err (ModelFailure ''local prefix head count differs from global topology'')
                 else Ok (g, a, b)))"

section \<open>Tensors of a prefix\<close>

datatype ('t, 'd) payload = OnDevice 't | OnHost "'d tensor_data" | Remote nat int

record ('t, 'd) fragment =
  fr_total :: nat
  fr_start :: nat
  fr_shape :: "nat list"
  fr_dtype :: 'd
  fr_payload :: "('t, 'd) payload"

datatype ('t, 'd) prefix_tensors = PrefixTensors
  (pt_position: nat)
  (pt_schema: string)
  (pt_tensors: "(string \<times> ('t, 'd) fragment list) list")
  (pt_children: "(string \<times> ('t, 'd) prefix_tensors) list")
  (pt_scalars: "(string \<times> nat) list")

type_synonym ('t, 'd, 'a) prefix_op = "(('t, 'd) prefix_tensors, generation_error, 'a) op"

definition new_tensors :: "string \<Rightarrow> nat \<Rightarrow> ('t, 'd) prefix_tensors" where
  "new_tensors schema pos = PrefixTensors pos schema [] [] []"

fun set_scalar :: "string \<Rightarrow> nat \<Rightarrow> ('t, 'd, unit) prefix_op" where
  "set_scalar name v (PrefixTensors pos schema ts cs sc) =
     (if name = [] \<or> map_of sc name \<noteq> None
      then (Err (ModelFailure ''invalid or duplicate prefix scalar''), PrefixTensors pos schema ts cs sc)
      else (Ok (), PrefixTensors pos schema ts cs (put name v sc)))"

fun add_child :: "string \<Rightarrow> ('t, 'd) prefix_tensors \<Rightarrow> ('t, 'd, unit) prefix_op" where
  "add_child name child (PrefixTensors pos schema ts cs sc) =
     (if map_of cs name \<noteq> None
      then (Err (ModelFailure ''duplicate prefix child''), PrefixTensors pos schema ts cs sc)
      else (Ok (), PrefixTensors pos schema ts (put name child cs) sc))"

definition validate_tensors :: "string \<Rightarrow> nat \<Rightarrow> nat \<Rightarrow> ('t, 'd) prefix_tensors \<Rightarrow> (generation_error, unit) res" where
  "validate_tensors schema limit names p =
     (if pt_schema p \<noteq> schema \<or> pt_position p = 0 \<or> limit < pt_position p \<or> length (pt_tensors p) \<noteq> names
      then Err (ModelFailure ''prefix tensor schema/position/component count differs'') else Ok ())"

text \<open>Insertion: \<open>Ok True\<close> of the loop is a replica of a fragment that is there.\<close>

fun compare_fragments :: "('t, 'd) fragment \<Rightarrow> ('t, 'd) fragment list \<Rightarrow> (generation_error, bool) res" where
  "compare_fragments f [] = Ok False"
| "compare_fragments f (old # rest) =
     (if fr_total old \<noteq> fr_total f \<or> fr_dtype old \<noteq> fr_dtype f \<or> fr_shape old ! 0 \<noteq> fr_shape f ! 0
         \<or> fr_shape old ! 2 \<noteq> fr_shape f ! 2 \<or> fr_shape old ! 3 \<noteq> fr_shape f ! 3
      then Err (ModelFailure ''prefix tensor fragments disagree on global geometry or dtype'')
      else if fr_start old = fr_start f \<and> fr_shape old ! 1 = fr_shape f ! 1 then Ok True
      else if fr_start old < fr_start f + fr_shape f ! 1 \<and> fr_start f < fr_start old + fr_shape old ! 1
      then Err (ModelFailure ''partially overlapping prefix tensor shards'')
      else compare_fragments f rest)"

definition fragments_of :: "string \<Rightarrow> ('t, 'd) prefix_tensors \<Rightarrow> ('t, 'd) fragment list" where
  "fragments_of name p = (case map_of (pt_tensors p) name of Some fs \<Rightarrow> fs | None \<Rightarrow> [])"

fun set_fragments :: "string \<Rightarrow> ('t, 'd) fragment list \<Rightarrow> ('t, 'd) prefix_tensors \<Rightarrow> ('t, 'd) prefix_tensors" where
  "set_fragments name fs (PrefixTensors pos schema ts cs sc) = PrefixTensors pos schema (put name fs ts) cs sc"

definition insert_fragment :: "string \<Rightarrow> ('t, 'd) fragment \<Rightarrow> ('t, 'd, unit) prefix_op" where
  "insert_fragment name f p =
     (if name = [] \<or> fr_shape f ! 0 \<noteq> 1 \<or> fr_shape f ! 1 = 0 \<or> fr_shape f ! 2 = 0 \<or> fr_shape f ! 3 = 0
         \<or> (case checked_add (fr_start f) (fr_shape f ! 1) of None \<Rightarrow> True | Some stop \<Rightarrow> fr_total f < stop)
      then (Err (ModelFailure ''invalid prefix tensor fragment geometry''), p)
      else
        case compare_fragments f (fragments_of name p) of
          Err e \<Rightarrow> (Err e, p)
        | Panic \<Rightarrow> (Panic, p)
        | Ok True \<Rightarrow> (Ok (), p)
        | Ok False \<Rightarrow> (Ok (), set_fragments name (sort_key fr_start (fragments_of name p @ [f])) p))"

definition push_tensor :: "('t, 'd) tensor_lib \<Rightarrow> string \<Rightarrow> 't \<Rightarrow> span \<Rightarrow> ('t, 'd, unit) prefix_op" where
  "push_tensor lib name t sp p =
     (case sp of (glob, a, b) \<Rightarrow>
        if t_dims lib t ! 1 \<noteq> b - a then (Err (ModelFailure ''prefix tensor head span differs''), p)
        else insert_fragment name \<lparr>fr_total = glob, fr_start = a, fr_shape = t_dims lib t,
               fr_dtype = t_dtype lib t, fr_payload = OnDevice t\<rparr> p)"

text \<open>Merging the export of another rank.\<close>

fun set_children ::
  "(string \<times> ('t, 'd) prefix_tensors) list \<Rightarrow> ('t, 'd) prefix_tensors \<Rightarrow> ('t, 'd) prefix_tensors" where
  "set_children cs (PrefixTensors pos schema ts _ sc) = PrefixTensors pos schema ts cs sc"

fun merge_tensors :: "('t, 'd) prefix_tensors \<Rightarrow> ('t, 'd, unit) prefix_op"
  and merge_children :: "(string \<times> ('t, 'd) prefix_tensors) list \<Rightarrow> ('t, 'd, unit) prefix_op" where
  "merge_tensors (PrefixTensors pos schema ts cs sc) p =
     (if pt_position p \<noteq> pos \<or> pt_schema p \<noteq> schema \<or> pt_scalars p \<noteq> sc
      then (Err (ModelFailure ''prefix rank schema/position/scalar state differs''), p)
      else bind_op (for_op (\<lambda>(name, fs). for_op (insert_fragment name) fs) ts) (\<lambda>_. merge_children cs) p)"
| "merge_children [] p = (Ok (), p)"
| "merge_children ((name, child) # cs) p =
     (case map_of (pt_children p) name of
        None \<Rightarrow> merge_children cs (set_children (put name child (pt_children p)) p)
      | Some existing \<Rightarrow>
          (case merge_tensors child existing of
             (Ok _, existing') \<Rightarrow> merge_children cs (set_children (put name existing' (pt_children p)) p)
           | (Err e, existing') \<Rightarrow> (Err e, set_children (put name existing' (pt_children p)) p)
           | (Panic, existing') \<Rightarrow> (Panic, set_children (put name existing' (pt_children p)) p)))"

section \<open>Taking heads\<close>

type_synonym ('t, 'd, 'w) receiver =
  "nat \<Rightarrow> int \<Rightarrow> nat \<times> nat \<Rightarrow> nat list \<Rightarrow> 'd \<Rightarrow> ('w, generation_error, 't) op"

text \<open>The heads \<open>lo..hi\<close> of one fragment.\<close>

definition take_heads ::
  "('t, 'd) tensor_lib \<Rightarrow> ('t, 'd, 'w) receiver \<Rightarrow> nat list \<Rightarrow> 'd \<Rightarrow> ('t, 'd) fragment \<Rightarrow> nat \<Rightarrow> nat
   \<Rightarrow> ('w, generation_error, 't) op" where
  "take_heads lib receive shape dt f lo hi w =
     (case fr_payload f of
        OnDevice t \<Rightarrow>
          (Ok (t_to_device lib (t_slice lib [(0, 1), (lo, hi), (0, shape ! 2), (0, shape ! 3)] t)), w)
      | OnHost d \<Rightarrow>
          (case Option.bind (checked_mul (shape ! 2) (shape ! 3)) (\<lambda>n. checked_mul n (d_size lib dt)) of
             None \<Rightarrow> (Err (ModelFailure ''prefix tensor byte stride overflow''), w)
           | Some stride \<Rightarrow>
               if length (td_bytes d) < hi * stride then (Panic, w)
               else (Ok (t_from_data lib \<lparr>td_bytes = take ((hi - lo) * stride) (drop (lo * stride) (td_bytes d)),
                       td_shape = [1, hi - lo, shape ! 2, shape ! 3], td_dtype = dt\<rparr>), w))
      | Remote i producer \<Rightarrow> receive i producer (lo, hi) [1, hi - lo, shape ! 2, shape ! 3] dt w)"

text \<open>The loop over the fragments: the pieces so far and the next head that is missing.\<close>

fun gather ::
  "('t, 'd) tensor_lib \<Rightarrow> ('t, 'd, 'w) receiver \<Rightarrow> nat list \<Rightarrow> 'd \<Rightarrow> span \<Rightarrow> 't list \<Rightarrow> nat \<Rightarrow> ('t, 'd) fragment list
   \<Rightarrow> ('w, generation_error, 't list \<times> nat) op" where
  "gather lib receive shape dt sp pieces cursor [] w = (Ok (pieces, cursor), w)"
| "gather lib receive shape dt sp pieces cursor (f # fs) w =
     (case sp of (glob, a, b) \<Rightarrow>
        if fr_total f \<noteq> glob \<or> fr_dtype f \<noteq> dt \<or> drop 2 (fr_shape f) \<noteq> drop 2 shape
        then (Err (ModelFailure ''prefix tensor geometry/dtype differs''), w)
        else
          let start = max (fr_start f) a; stop = min (fr_start f + fr_shape f ! 1) b in
          if stop \<le> start then gather lib receive shape dt sp pieces cursor fs w
          else if start \<noteq> cursor then (Err (ModelFailure ''missing head span in prefix tensor''), w)
          else bind_op (take_heads lib receive shape dt f (start - fr_start f) (stop - fr_start f))
                 (\<lambda>t. gather lib receive shape dt sp (pieces @ [t]) stop fs) w)"

definition tensor_of ::
  "('t, 'd) tensor_lib \<Rightarrow> ('t, 'd, 'w) receiver \<Rightarrow> ('t, 'd) prefix_tensors \<Rightarrow> string \<Rightarrow> nat list \<Rightarrow> 'd \<Rightarrow> span
   \<Rightarrow> ('w, generation_error, 't) op" where
  "tensor_of lib receive p name shape dt sp w =
     (case map_of (pt_tensors p) name of
        None \<Rightarrow> (Err (ModelFailure ''missing prefix tensor''), w)
      | Some fs \<Rightarrow>
          (case sp of (glob, a, b) \<Rightarrow>
             if shape ! 0 \<noteq> 1 \<or> b - a \<noteq> shape ! 1 \<or> glob < b
             then (Err (ModelFailure ''invalid destination prefix shard''), w)
             else bind_op (gather lib receive shape dt sp [] a fs) (\<lambda>(pieces, cursor).
               if cursor \<noteq> b \<or> pieces = [] then err_op (ModelFailure ''incomplete prefix tensor'')
               else case pieces of [t] \<Rightarrow> ret_op t | _ \<Rightarrow> ret_op (t_cat lib pieces 1)) w))"

section \<open>Host records\<close>

definition bind_res :: "('e, 'a) res \<Rightarrow> ('a \<Rightarrow> ('e, 'b) res) \<Rightarrow> ('e, 'b) res" where
  "bind_res m f = (case m of Ok a \<Rightarrow> f a | Err e \<Rightarrow> Err e | Panic \<Rightarrow> Panic)"

fun try_map :: "('x \<Rightarrow> ('e, 'a) res) \<Rightarrow> 'x list \<Rightarrow> ('e, 'a list) res" where
  "try_map f [] = Ok []"
| "try_map f (x # xs) = bind_res (f x) (\<lambda>a. bind_res (try_map f xs) (\<lambda>as. Ok (a # as)))"

text \<open>Run an operation on a value that is built up and dropped on an error.\<close>

definition build :: "('s, 'e, unit) op \<Rightarrow> 's \<Rightarrow> ('e, 's) res" where
  "build m s = (case m s of (Ok _, s') \<Rightarrow> Ok s' | (Err e, _) \<Rightarrow> Err e | (Panic, _) \<Rightarrow> Panic)"

record 'd host_fragment =
  hf_name :: string
  hf_total :: nat
  hf_start :: nat
  hf_data :: "'d tensor_data"

datatype 'd host_prefix = HostPrefix
  (hp_version: nat)
  (hp_model: string)
  (hp_schema: string)
  (hp_position: nat)
  (hp_fragments: "'d host_fragment list")
  (hp_children: "(string \<times> 'd host_prefix) list")
  (hp_scalars: "(string \<times> nat) list")

definition host_fragment_of ::
  "('t, 'd) tensor_lib \<Rightarrow> string \<times> ('t, 'd) fragment \<Rightarrow> (generation_error, 'd host_fragment) res" where
  "host_fragment_of lib nf =
     (case nf of (name, f) \<Rightarrow>
        bind_res
          (case fr_payload f of
             OnDevice t \<Rightarrow>
               (case t_into_data lib t of Ok d \<Rightarrow> Ok d | Err e \<Rightarrow> Err (ModelFailure e) | Panic \<Rightarrow> Panic)
           | OnHost d \<Rightarrow> Ok d
           | Remote _ _ \<Rightarrow>
               Err (ModelFailure ''remote prefix payload must be received before host serialization''))
          (\<lambda>d. Ok \<lparr>hf_name = name, hf_total = fr_total f, hf_start = fr_start f, hf_data = d\<rparr>))"

definition named_fragments :: "(string \<times> ('t, 'd) fragment list) list \<Rightarrow> (string \<times> ('t, 'd) fragment) list" where
  "named_fragments ts = concat (map (\<lambda>(name, fs). map (Pair name) fs) ts)"

fun host_record :: "('t, 'd) tensor_lib \<Rightarrow> string \<Rightarrow> ('t, 'd) prefix_tensors \<Rightarrow> (generation_error, 'd host_prefix) res"
  and host_children ::
    "('t, 'd) tensor_lib \<Rightarrow> string \<Rightarrow> (string \<times> ('t, 'd) prefix_tensors) list
     \<Rightarrow> (generation_error, (string \<times> 'd host_prefix) list) res" where
  "host_record lib mid (PrefixTensors pos schema ts cs sc) =
     bind_res (try_map (host_fragment_of lib) (named_fragments ts)) (\<lambda>frs.
     bind_res (host_children lib mid cs) (\<lambda>hcs.
       Ok (HostPrefix (if sc = [] then 1 else 2) mid schema pos frs hcs sc)))"
| "host_children lib mid [] = Ok []"
| "host_children lib mid ((name, child) # cs) =
     bind_res (host_record lib mid child) (\<lambda>h.
     bind_res (host_children lib mid cs) (\<lambda>hs. Ok ((name, h) # hs)))"

definition checked_bytes :: "nat \<Rightarrow> nat list \<Rightarrow> nat option" where
  "checked_bytes width shape = foldl (\<lambda>acc d. Option.bind acc (\<lambda>n. checked_mul n d)) (Some width) shape"

definition insert_host :: "('t, 'd) tensor_lib \<Rightarrow> 'd host_fragment \<Rightarrow> ('t, 'd, unit) prefix_op" where
  "insert_host lib hf p =
     (let d = hf_data hf in
      if length (td_shape d) \<noteq> 4 then (Err (ModelFailure ''could not convert slice to array''), p)
      else if \<not> d_float lib (td_dtype d)
        \<or> checked_bytes (d_size lib (td_dtype d)) (td_shape d) \<noteq> Some (length (td_bytes d))
      then (Err (ModelFailure ''prefix transfer tensor byte length or dtype differs''), p)
      else insert_fragment (hf_name hf) \<lparr>fr_total = hf_total hf, fr_start = hf_start hf, fr_shape = td_shape d,
             fr_dtype = td_dtype d, fr_payload = OnHost d\<rparr> p)"

fun from_host_record :: "('t, 'd) tensor_lib \<Rightarrow> string \<Rightarrow> 'd host_prefix \<Rightarrow> (generation_error, ('t, 'd) prefix_tensors) res"
  and from_host_children ::
    "('t, 'd) tensor_lib \<Rightarrow> string \<Rightarrow> (string \<times> 'd host_prefix) list \<Rightarrow> ('t, 'd) prefix_tensors
     \<Rightarrow> (generation_error, ('t, 'd) prefix_tensors) res" where
  "from_host_record lib mid (HostPrefix version ident schema pos frs cs sc) =
     (if version \<notin> {1, 2} \<or> (version = 1 \<and> sc \<noteq> []) \<or> ident \<noteq> mid \<or> mid = []
      then Err (ModelFailure ''prefix transfer identity/version differs'')
      else
        bind_res (build (for_op (\<lambda>(name, v). set_scalar name v) sc) (new_tensors schema pos)) (\<lambda>p.
        bind_res (from_host_children lib mid cs p) (\<lambda>p.
          build (for_op (insert_host lib) frs) p)))"
| "from_host_children lib mid [] p = Ok p"
| "from_host_children lib mid ((name, h) # hs) p =
     bind_res (from_host_record lib mid h) (\<lambda>child.
     bind_res (build (add_child name child) p) (\<lambda>p. from_host_children lib mid hs p))"

definition encode_host ::
  "('t, 'd) tensor_lib \<Rightarrow> ('d host_prefix \<Rightarrow> (string, bytes) res) \<Rightarrow> string \<Rightarrow> ('t, 'd) prefix_tensors
   \<Rightarrow> (generation_error, bytes) res" where
  "encode_host lib enc mid p =
     bind_res (host_record lib mid p) (\<lambda>h.
       case enc h of Ok bs \<Rightarrow> Ok bs | Err e \<Rightarrow> Err (ModelFailure e) | Panic \<Rightarrow> Panic)"

definition decode_host ::
  "('t, 'd) tensor_lib \<Rightarrow> (bytes \<Rightarrow> (string, 'd host_prefix) res) \<Rightarrow> string \<Rightarrow> bytes
   \<Rightarrow> (generation_error, ('t, 'd) prefix_tensors) res" where
  "decode_host lib decode mid bs =
     bind_res (case decode bs of Ok h \<Rightarrow> Ok h | Err e \<Rightarrow> Err (ModelFailure e) | Panic \<Rightarrow> Panic)
       (from_host_record lib mid)"

section \<open>Manifests\<close>

text \<open>The description of device tensors that another process can fetch; the tensors themselves
  are collected in a list, their position is their identity.\<close>

record 'd manifest_fragment =
  mf_name :: string
  mf_id :: nat
  mf_producer :: int
  mf_total :: nat
  mf_start :: nat
  mf_shape :: "nat list"
  mf_dtype :: 'd

datatype 'd prefix_manifest = PrefixManifest
  (pm_schema: string)
  (pm_position: nat)
  (pm_fragments: "'d manifest_fragment list")
  (pm_children: "(string \<times> 'd prefix_manifest) list")
  (pm_scalars: "(string \<times> nat) list")

fun manifest_fragments ::
  "('t, 'd) tensor_lib \<Rightarrow> ('t \<Rightarrow> (generation_error, int) res) \<Rightarrow> (string \<times> ('t, 'd) fragment) list
   \<Rightarrow> ('t list, generation_error, 'd manifest_fragment list) op" where
  "manifest_fragments lib ordinal [] tensors = (Ok [], tensors)"
| "manifest_fragments lib ordinal ((name, f) # rest) tensors =
     (case fr_payload f of
        OnDevice t \<Rightarrow>
          (case ordinal t of
             Ok producer \<Rightarrow>
               bind_op (manifest_fragments lib ordinal rest)
                 (\<lambda>ms. ret_op (\<lparr>mf_name = name, mf_id = length tensors, mf_producer = producer,
                    mf_total = fr_total f, mf_start = fr_start f, mf_shape = fr_shape f,
                    mf_dtype = fr_dtype f\<rparr> # ms)) (tensors @ [t])
           | Err e \<Rightarrow> (Err e, tensors)
           | Panic \<Rightarrow> (Panic, tensors))
      | _ \<Rightarrow> (Err (ModelFailure ''GPU handoff requires resident device tensors''), tensors))"

fun device_manifest ::
  "('t, 'd) tensor_lib \<Rightarrow> ('t \<Rightarrow> (generation_error, int) res) \<Rightarrow> ('t, 'd) prefix_tensors
   \<Rightarrow> ('t list, generation_error, 'd prefix_manifest) op"
  and manifest_children ::
  "('t, 'd) tensor_lib \<Rightarrow> ('t \<Rightarrow> (generation_error, int) res) \<Rightarrow> (string \<times> ('t, 'd) prefix_tensors) list
   \<Rightarrow> ('t list, generation_error, (string \<times> 'd prefix_manifest) list) op" where
  "device_manifest lib ordinal (PrefixTensors pos schema ts cs sc) tensors =
     bind_op (manifest_fragments lib ordinal (named_fragments ts)) (\<lambda>ms.
     bind_op (manifest_children lib ordinal cs) (\<lambda>mcs. ret_op (PrefixManifest schema pos ms mcs sc))) tensors"
| "manifest_children lib ordinal [] tensors = (Ok [], tensors)"
| "manifest_children lib ordinal ((name, child) # cs) tensors =
     bind_op (device_manifest lib ordinal child) (\<lambda>m.
     bind_op (manifest_children lib ordinal cs) (\<lambda>ms. ret_op ((name, m) # ms))) tensors"

definition insert_remote :: "('t, 'd) tensor_lib \<Rightarrow> 'd manifest_fragment \<Rightarrow> ('t, 'd, unit) prefix_op" where
  "insert_remote lib m p =
     (if \<not> d_float lib (mf_dtype m) \<or> checked_bytes (d_size lib (mf_dtype m)) (mf_shape m) = None
      then (Err (ModelFailure ''GPU prefix manifest dtype/size differs''), p)
      else insert_fragment (mf_name m) \<lparr>fr_total = mf_total m, fr_start = mf_start m, fr_shape = mf_shape m,
             fr_dtype = mf_dtype m, fr_payload = Remote (mf_id m) (mf_producer m)\<rparr> p)"

fun from_manifest :: "('t, 'd) tensor_lib \<Rightarrow> 'd prefix_manifest \<Rightarrow> (generation_error, ('t, 'd) prefix_tensors) res"
  and from_manifest_children ::
    "('t, 'd) tensor_lib \<Rightarrow> (string \<times> 'd prefix_manifest) list \<Rightarrow> ('t, 'd) prefix_tensors
     \<Rightarrow> (generation_error, ('t, 'd) prefix_tensors) res" where
  "from_manifest lib (PrefixManifest schema pos ms cs sc) =
     bind_res (build (for_op (\<lambda>(name, v). set_scalar name v) sc) (new_tensors schema pos)) (\<lambda>p.
     bind_res (build (for_op (insert_remote lib) ms) p) (\<lambda>p. from_manifest_children lib cs p))"
| "from_manifest_children lib [] p = Ok p"
| "from_manifest_children lib ((name, m) # rest) p =
     bind_res (from_manifest lib m) (\<lambda>child.
     bind_res (build (add_child name child) p) (\<lambda>p. from_manifest_children lib rest p))"

end
