(* ===== verification/RotaryHistory.thy ===== *)
theory RotaryHistory
  imports Generation
begin

text \<open>
  \<^verbatim>\<open>src/src/llama/rope.rs\<close>: the sequence length behind a dynamic rotary embedding. The state of
  an embedding remembers the longest sequence it was stretched to; a history remembers, run-length
  encoded, the length that held at every position of a cache, so that a cache can be rolled back
  and continued. A stored length 0 stands for a run in which the length of every position was
  the position itself.

  The frequencies are parameters: \<open>inverse_frequencies\<close> and \<open>inverse_long\<close> are values of any type,
  and \<open>stretched\<close> computes those of a longer sequence. The mutex around the remembered length is
  the state of \<open>frequencies\<close>; the table builders, which only fill tensors, are left out.
\<close>

section \<open>Histories\<close>

record rotary_history =
  rh_initial :: nat
  rh_spans :: "(nat \<times> nat) list"

definition empty_history :: rotary_history where
  "empty_history = \<lparr>rh_initial = 0, rh_spans = []\<rparr>"

record rotary_delta =
  rd_initial :: nat
  rd_lengths :: "nat list"

definition is_dynamic :: "rotary_history \<Rightarrow> bool" where
  "is_dynamic h \<longleftrightarrow> rh_initial h \<noteq> 0"

fun check_spans :: "nat \<Rightarrow> nat \<Rightarrow> (nat \<times> nat) list \<Rightarrow> (generation_error, nat) res" where
  "check_spans i start [] = Ok start"
| "check_spans i start ((stop, len) # rest) =
     (if i = 0 \<or> stop \<le> start \<or> (len \<noteq> 0 \<and> (len < i \<or> len < stop)) \<or> (len = 0 \<and> start < i)
      then Err (ModelFailure ''invalid rotary history interval'')
      else check_spans i stop rest)"

definition validate_history :: "rotary_history \<Rightarrow> nat \<Rightarrow> (generation_error, unit) res" where
  "validate_history h pos =
     (case check_spans (rh_initial h) 0 (rh_spans h) of
        Err e \<Rightarrow> Err e
      | Panic \<Rightarrow> Panic
      | Ok start \<Rightarrow>
          if rh_initial h = 0 \<and> rh_spans h \<noteq> [] \<or> rh_initial h \<noteq> 0 \<and> start \<noteq> pos
          then Err (ModelFailure ''rotary history and completed token position differ'') else Ok ())"

definition length_at :: "rotary_history \<Rightarrow> nat \<Rightarrow> nat option" where
  "length_at h pos =
     (if rh_initial h = 0 then Some 0
      else if pos = 0 then Some (rh_initial h)
      else map_option (\<lambda>(_, len). if len = 0 then pos else len) (find (\<lambda>(stop, _). pos \<le> stop) (rh_spans h)))"

definition last_end :: "(nat \<times> nat) list \<Rightarrow> nat" where
  "last_end spans = (case spans of [] \<Rightarrow> 0 | _ \<Rightarrow> fst (last spans))"

definition push_span :: "(nat \<times> nat) list \<Rightarrow> nat \<Rightarrow> nat \<Rightarrow> (nat \<times> nat) list" where
  "push_span spans stop stored =
     (if spans \<noteq> [] \<and> snd (last spans) = stored then butlast spans @ [(stop, stored)]
      else spans @ [(stop, stored)])"

definition append_length ::
  "rotary_history \<Rightarrow> nat \<Rightarrow> nat \<Rightarrow> nat \<Rightarrow> (generation_error, rotary_history) res" where
  "append_length h initial stop len =
     (if initial = 0
      then if rh_initial h \<noteq> 0 \<or> len \<noteq> 0 then Err (ModelFailure ''rotary cache policy differs'') else Ok h
      else
        let start = last_end (rh_spans h) in
        if (rh_initial h \<noteq> 0 \<and> rh_initial h \<noteq> initial) \<or> stop \<le> start \<or> len < initial \<or> len < stop
        then Err (ModelFailure ''rotary history append is inconsistent'')
        else
          let stored = (if initial \<le> start \<and> stop = start + 1 \<and> len = stop then 0 else len) in
          Ok \<lparr>rh_initial = initial, rh_spans = push_span (rh_spans h) stop stored\<rparr>)"

definition truncate_history :: "rotary_history \<Rightarrow> nat \<Rightarrow> (generation_error, rotary_history) res" where
  "truncate_history h pos =
     (if rh_initial h = 0 then Ok h
      else if pos = 0 then Ok (h\<lparr>rh_spans := []\<rparr>)
      else
        let keep = length (takeWhile (\<lambda>(stop, _). stop < pos) (rh_spans h)) in
        if keep = length (rh_spans h) then Err (ModelFailure ''rotary rollback exceeds retained history'')
        else Ok (h\<lparr>rh_spans := take keep (rh_spans h) @ [(pos, snd (rh_spans h ! keep))]\<rparr>))"

fun lengths_at :: "rotary_history \<Rightarrow> nat list \<Rightarrow> (generation_error, nat list) res" where
  "lengths_at h [] = Ok []"
| "lengths_at h (p # ps) =
     (case length_at h p of
        None \<Rightarrow> Err (ModelFailure ''rotary delta exceeds retained history'')
      | Some len \<Rightarrow>
          (case lengths_at h ps of Ok ls \<Rightarrow> Ok (len # ls) | Err e \<Rightarrow> Err e | Panic \<Rightarrow> Panic))"

definition history_delta :: "rotary_history \<Rightarrow> nat \<Rightarrow> nat \<Rightarrow> (generation_error, rotary_delta) res" where
  "history_delta h start stop =
     (case lengths_at h [start + 1..<stop + 1] of
        Ok ls \<Rightarrow> Ok \<lparr>rd_initial = rh_initial h, rd_lengths = ls\<rparr>
      | Err e \<Rightarrow> Err e
      | Panic \<Rightarrow> Panic)"

definition append_delta_length ::
  "rotary_delta \<Rightarrow> rotary_history \<Rightarrow> nat \<Rightarrow> nat \<Rightarrow> (generation_error, rotary_history) res" where
  "append_delta_length d h pos offset =
     (if length (rd_lengths d) \<le> offset then Err (ModelFailure ''missing rotary delta token'')
      else
        case validate_history h pos of
          Err e \<Rightarrow> Err e
        | Panic \<Rightarrow> Panic
        | Ok _ \<Rightarrow>
            if pos \<noteq> 0 \<and> rh_initial h \<noteq> rd_initial d
            then Err (ModelFailure ''rotary delta destination policy differs'')
            else append_length h (rd_initial d) (pos + 1) (rd_lengths d ! offset))"

section \<open>States\<close>

datatype ('x, 'v) rope_scaling =
    Static
  | Dynamic (dyn_factor: 'x) (dyn_original: nat)
  | LongScaling (long_original: nat) (inverse_long: 'v)

record ('x, 'v) rope_parameters =
  inverse_frequencies :: 'v
  scaling :: "('x, 'v) rope_scaling"

record ('x, 'v) rotary_state =
  rs_parameters :: "('x, 'v) rope_parameters"
  cached_length :: nat

definition initial_cached_length :: "('x, 'v) rope_parameters \<Rightarrow> nat" where
  "initial_cached_length p = (case scaling p of Dynamic _ original \<Rightarrow> original | _ \<Rightarrow> 0)"

definition state_at :: "('x, 'v) rope_parameters \<Rightarrow> nat \<Rightarrow> ('x, 'v) rotary_state option" where
  "state_at p cached =
     (if (case scaling p of Dynamic _ original \<Rightarrow> original \<le> cached | _ \<Rightarrow> cached = 0)
      then Some \<lparr>rs_parameters = p, cached_length = cached\<rparr> else None)"

definition initial_state :: "('x, 'v) rope_parameters \<Rightarrow> ('e, ('x, 'v) rotary_state) res" where
  "initial_state p = (case state_at p (initial_cached_length p) of Some st \<Rightarrow> Ok st | None \<Rightarrow> Panic)"

text \<open>The frequencies for a sequence, and the length remembered afterwards.\<close>

definition frequencies ::
  "(('x, 'v) rope_parameters \<Rightarrow> nat \<Rightarrow> 'v) \<Rightarrow> nat \<Rightarrow> ('x, 'v) rotary_state \<Rightarrow> 'v \<times> ('x, 'v) rotary_state" where
  "frequencies stretched n st =
     (let p = rs_parameters st in
      case scaling p of
        Static \<Rightarrow> (inverse_frequencies p, st)
      | LongScaling original long \<Rightarrow> (if original < n then long else inverse_frequencies p, st)
      | Dynamic _ original \<Rightarrow>
          let c1 = (if cached_length st < n then n else cached_length st);
              c2 = (if n < original \<and> original < c1 then original else c1);
              st' = st\<lparr>cached_length := c2\<rparr>
          in (if c2 = original then inverse_frequencies p else stretched p c2, st'))"

definition commit_history ::
  "rotary_history \<Rightarrow> ('x, 'v) rotary_state \<Rightarrow> nat \<Rightarrow> (generation_error, rotary_history) res" where
  "commit_history h st stop = append_length h (initial_cached_length (rs_parameters st)) stop (cached_length st)"

definition for_cache ::
  "('x, 'v) rotary_state \<Rightarrow> rotary_history \<Rightarrow> nat \<Rightarrow> (generation_error, ('x, 'v) rotary_state) res" where
  "for_cache template h pos =
     (case validate_history h pos of
        Err e \<Rightarrow> Err e
      | Panic \<Rightarrow> Panic
      | Ok _ \<Rightarrow>
          let p = rs_parameters template; initial = initial_cached_length p in
          if initial = 0 \<and> rh_initial h = 0 \<or> pos = 0 \<and> rh_initial h = 0 then initial_state p
          else if rh_initial h \<noteq> initial
          then Err (ModelFailure ''cache rotary history is missing or belongs to another policy'')
          else case Option.bind (length_at h pos) (state_at p) of
            Some st \<Rightarrow> Ok st
          | None \<Rightarrow> Err (ModelFailure ''invalid rotary continuation length''))"

definition paged_context ::
  "(('x, 'v) rope_parameters \<Rightarrow> nat \<Rightarrow> 'v) \<Rightarrow> ('x, 'v) rotary_state \<Rightarrow> nat option \<Rightarrow> nat \<Rightarrow> ('e, nat) res" where
  "paged_context stretched st previous stop =
     (let p = rs_parameters st;
          start = (case scaling p of
             Dynamic _ _ \<Rightarrow>
               (case state_at p (case previous of Some n \<Rightarrow> n | None \<Rightarrow> initial_cached_length p) of
                  Some s \<Rightarrow> Ok s | None \<Rightarrow> Panic)
           | _ \<Rightarrow> initial_state p)
      in case start of
           Ok s \<Rightarrow>
             let s' = snd (frequencies stretched stop s) in
             Ok (case scaling p of Dynamic _ _ \<Rightarrow> cached_length s' | _ \<Rightarrow> stop)
         | Err e \<Rightarrow> Err e
         | Panic \<Rightarrow> Panic)"

text \<open>One layer of a forward pass of a request: the state for its cache, the frequencies of
  queries and keys up to the new end, and the length committed.\<close>

definition rotary_forward ::
  "(('x, 'v) rope_parameters \<Rightarrow> nat \<Rightarrow> 'v) \<Rightarrow> ('x, 'v) rotary_state \<Rightarrow> rotary_history \<Rightarrow> nat \<Rightarrow> nat
   \<Rightarrow> (generation_error, 'v \<times> 'v \<times> rotary_history) res" where
  "rotary_forward stretched template h pos stop =
     (case for_cache template h pos of
        Err e \<Rightarrow> Err e
      | Panic \<Rightarrow> Panic
      | Ok st \<Rightarrow>
          (case frequencies stretched stop st of (fq, st) \<Rightarrow>
           case frequencies stretched stop st of (fk, st) \<Rightarrow>
             if cached_length st = 0 then Ok (fq, fk, h)
             else case commit_history h st stop of
                Ok h' \<Rightarrow> Ok (fq, fk, h')
              | Err e \<Rightarrow> Err e
              | Panic \<Rightarrow> Panic))"

end
