(* ===== verification/DensePrefix.thy ===== *)
theory DensePrefix
  imports PrefixTransfer RotaryHistory
begin

text \<open>
  The dense prefixes of \<^verbatim>\<open>src/src/batch_kv.rs\<close> and the metadata of their rotary histories
  (\<^verbatim>\<open>src/src/llama/rope.rs\<close>): one key and one value tensor per layer, exported by a rank as named
  tensors, imported by a rank from them, encoded as one record.
\<close>

section \<open>Names\<close>

text \<open>Decimal numerals, as \<open>format!\<close> prints them.\<close>

fun dec :: "nat \<Rightarrow> string" where
  "dec n = (if n < 10 then [char_of (48 + n)] else dec (n div 10) @ [char_of (48 + n mod 10)])"

declare dec.simps [simp del]

definition key_name :: "nat \<Rightarrow> string" where
  "key_name i = dec i @ ''/key''"

definition value_name :: "nat \<Rightarrow> string" where
  "value_name i = dec i @ ''/value''"

definition rotary_name :: "nat \<Rightarrow> string \<Rightarrow> string" where
  "rotary_name layer part = ''rotary/'' @ dec layer @ ''/'' @ part"

section \<open>Rotary metadata\<close>

definition export_history :: "rotary_history \<Rightarrow> nat \<Rightarrow> ('t, 'd, unit) prefix_op" where
  "export_history h layer =
     bind_op (set_scalar (rotary_name layer ''initial'') (rh_initial h)) (\<lambda>_.
     bind_op (set_scalar (rotary_name layer ''spans'') (length (rh_spans h))) (\<lambda>_.
       for_op (\<lambda>(i, (stop, len)).
         bind_op (set_scalar (rotary_name layer (dec i @ ''/end'')) stop) (\<lambda>_.
           set_scalar (rotary_name layer (dec i @ ''/length'')) len))
         (enumerate 0 (rh_spans h))))"

definition rotary_scalar :: "('t, 'd) prefix_tensors \<Rightarrow> nat \<Rightarrow> string \<Rightarrow> (generation_error, nat) res" where
  "rotary_scalar p layer part =
     (case map_of (pt_scalars p) (rotary_name layer part) of
        Some v \<Rightarrow> Ok v | None \<Rightarrow> Err (ModelFailure ''missing transferred rotary metadata''))"

definition import_history :: "('t, 'd) prefix_tensors \<Rightarrow> nat \<Rightarrow> (generation_error, rotary_history \<times> nat) res" where
  "import_history p layer =
     bind_res (rotary_scalar p layer ''initial'') (\<lambda>initial.
     bind_res (rotary_scalar p layer ''spans'') (\<lambda>n.
       if pt_position p < n \<or> length (pt_scalars p) div 2 < n
       then Err (ModelFailure ''transferred rotary interval count differs'')
       else
         bind_res (try_map (\<lambda>i.
             bind_res (rotary_scalar p layer (dec i @ ''/end'')) (\<lambda>stop.
             bind_res (rotary_scalar p layer (dec i @ ''/length'')) (\<lambda>len. Ok (stop, len)))) [0..<n]) (\<lambda>spans.
         let h = \<lparr>rh_initial = initial, rh_spans = spans\<rparr> in
         bind_res (validate_history h (pt_position p)) (\<lambda>_. Ok (h, 2 + 2 * n)))))"

section \<open>Dense prefixes\<close>

record 't dense_prefix =
  dp_position :: nat
  dp_layers :: "('t \<times> 't) list"
  dp_rotary :: "rotary_history list"

type_synonym 'd geometry = "(nat \<times> nat \<times> nat \<times> 'd) list"

definition export_layer ::
  "('t, 'd) tensor_lib \<Rightarrow> prefix_shard \<Rightarrow> nat \<times> 't \<times> 't \<Rightarrow> ('t, 'd, unit) prefix_op" where
  "export_layer lib sh layer p =
     (case layer of (i, k, v) \<Rightarrow>
        case heads sh (ps_kv_heads sh) (t_dims lib k ! 1) of
          Err e \<Rightarrow> (Err e, p)
        | Panic \<Rightarrow> (Panic, p)
        | Ok sp \<Rightarrow> bind_op (push_tensor lib (key_name i) k sp) (\<lambda>_. push_tensor lib (value_name i) v sp) p)"

definition export_dense ::
  "('t, 'd) tensor_lib \<Rightarrow> prefix_shard \<Rightarrow> 't dense_prefix \<Rightarrow> (generation_error, ('t, 'd) prefix_tensors) res" where
  "export_dense lib sh dp =
     build (bind_op (for_op (\<lambda>(i, h). export_history h i) (enumerate 0 (dp_rotary dp))) (\<lambda>_.
       for_op (export_layer lib sh) (enumerate 0 (dp_layers dp))))
       (new_tensors (if dp_rotary dp = [] then ''dense-kv-v1'' else ''dense-kv-v2'') (dp_position dp))"

definition import_rotary ::
  "('t, 'd) prefix_tensors \<Rightarrow> 'd geometry \<Rightarrow> nat \<Rightarrow> (generation_error, rotary_history list) res" where
  "import_rotary p geometry limit =
     (if pt_scalars p = []
      then bind_res (validate_tensors ''dense-kv-v1'' limit (2 * length geometry) p) (\<lambda>_. Ok [])
      else
        bind_res (validate_tensors ''dense-kv-v2'' limit (2 * length geometry) p) (\<lambda>_.
        bind_res (try_map (import_history p) [0..<length geometry]) (\<lambda>hs.
          if sum_list (map snd hs) \<noteq> length (pt_scalars p)
          then Err (ModelFailure ''unexpected dense prefix rotary metadata'') else Ok (map fst hs))))"

definition import_layer ::
  "('t, 'd) tensor_lib \<Rightarrow> ('t, 'd, 'w) receiver \<Rightarrow> prefix_shard \<Rightarrow> ('t, 'd) prefix_tensors
   \<Rightarrow> nat \<times> nat \<times> nat \<times> nat \<times> 'd \<Rightarrow> ('w, generation_error, 't \<times> 't) op" where
  "import_layer lib receive sh p layer w =
     (case layer of (i, n, kd, vd, dt) \<Rightarrow>
        case heads sh (ps_kv_heads sh) n of
          Err e \<Rightarrow> (Err e, w)
        | Panic \<Rightarrow> (Panic, w)
        | Ok sp \<Rightarrow>
            bind_op (tensor_of lib receive p (key_name i) [1, n, pt_position p, kd] dt sp) (\<lambda>k.
            bind_op (tensor_of lib receive p (value_name i) [1, n, pt_position p, vd] dt sp) (\<lambda>v.
              ret_op (k, v))) w)"

definition import_dense ::
  "('t, 'd) tensor_lib \<Rightarrow> ('t, 'd, 'w) receiver \<Rightarrow> ('t, 'd) prefix_tensors \<Rightarrow> 'd geometry \<Rightarrow> nat \<Rightarrow> prefix_shard
   \<Rightarrow> ('w, generation_error, 't dense_prefix) op" where
  "import_dense lib receive p geometry limit sh w =
     (case import_rotary p geometry limit of
        Err e \<Rightarrow> (Err e, w)
      | Panic \<Rightarrow> (Panic, w)
      | Ok rotary \<Rightarrow>
          if pt_children p \<noteq> []
          then (Err (ModelFailure ''dense prefix has unexpected child state''), w)
          else
            bind_op (map_op (import_layer lib receive sh p) (enumerate 0 geometry)) (\<lambda>layers.
              ret_op \<lparr>dp_position = pt_position p, dp_layers = layers, dp_rotary = rotary\<rparr>) w)"

definition saturating_mul_all :: "nat list \<Rightarrow> nat \<Rightarrow> nat" where
  "saturating_mul_all shape width = min (prod_list shape * width) usize_max"

definition dense_bytes :: "('t, 'd) tensor_lib \<Rightarrow> 't dense_prefix \<Rightarrow> nat" where
  "dense_bytes lib dp =
     foldl (\<lambda>bytes t. min (bytes + saturating_mul_all (t_dims lib t) (d_size lib (t_dtype lib t))) usize_max) 0
       (concat (map (\<lambda>(k, v). [k, v]) (dp_layers dp)))"

fun validate_histories :: "rotary_history list \<Rightarrow> nat \<Rightarrow> (generation_error, unit) res" where
  "validate_histories [] pos = Ok ()"
| "validate_histories (h # hs) pos = bind_res (validate_history h pos) (\<lambda>_. validate_histories hs pos)"

definition layer_fits :: "('t, 'd) tensor_lib \<Rightarrow> ('t \<Rightarrow> 't \<Rightarrow> bool) \<Rightarrow> nat \<Rightarrow> ('t \<times> 't) \<times> nat \<times> nat \<times> nat \<times> 'd \<Rightarrow> bool" where
  "layer_fits lib together pos lg \<longleftrightarrow>
     (case lg of ((k, v), n, kd, vd, dt) \<Rightarrow>
        t_dims lib k = [1, n, pos, kd] \<and> t_dims lib v = [1, n, pos, vd] \<and> t_dtype lib k = dt \<and> t_dtype lib v = dt
        \<and> together k v)"

definition validate_dense ::
  "('t, 'd) tensor_lib \<Rightarrow> ('t \<Rightarrow> 't \<Rightarrow> bool) \<Rightarrow> 't dense_prefix \<Rightarrow> 'd geometry \<Rightarrow> nat \<Rightarrow> (generation_error, unit) res" where
  "validate_dense lib together dp geometry limit =
     (if dp_position dp = 0 \<or> limit < dp_position dp \<or> length (dp_layers dp) \<noteq> length geometry
      then Err (ModelFailure ''dense prefix layer count/position differs'')
      else if dp_rotary dp \<noteq> [] \<and> length (dp_rotary dp) \<noteq> length geometry
      then Err (ModelFailure ''dense prefix rotary layer count differs'')
      else
        bind_res (validate_histories (dp_rotary dp) (dp_position dp)) (\<lambda>_.
          if list_all (layer_fits lib together (dp_position dp)) (zip (dp_layers dp) geometry) then Ok ()
          else Err (ModelFailure ''dense prefix projection geometry or dtype differs'')))"

record 'd dense_record =
  dr_version :: nat
  dr_position :: nat
  dr_layers :: "('d tensor_data \<times> 'd tensor_data) list"
  dr_rotary :: "rotary_history list"

definition into_data_res :: "('t, 'd) tensor_lib \<Rightarrow> 't \<Rightarrow> (generation_error, 'd tensor_data) res" where
  "into_data_res lib t =
     (case t_into_data lib t of Ok d \<Rightarrow> Ok d | Err e \<Rightarrow> Err (ModelFailure e) | Panic \<Rightarrow> Panic)"

definition dense_record_of ::
  "('t, 'd) tensor_lib \<Rightarrow> 't dense_prefix \<Rightarrow> (generation_error, 'd dense_record) res" where
  "dense_record_of lib dp =
     bind_res (try_map (\<lambda>(k, v).
         bind_res (into_data_res lib k) (\<lambda>dk. bind_res (into_data_res lib v) (\<lambda>dv. Ok (dk, dv)))) (dp_layers dp)) (\<lambda>layers.
       Ok \<lparr>dr_version = (if dp_rotary dp = [] then 1 else 2), dr_position = dp_position dp, dr_layers = layers,
           dr_rotary = dp_rotary dp\<rparr>)"

definition data_fits :: "('t, 'd) tensor_lib \<Rightarrow> nat \<Rightarrow> nat \<Rightarrow> 'd \<Rightarrow> nat \<Rightarrow> 'd tensor_data \<Rightarrow> bool" where
  "data_fits lib n pos dt width d \<longleftrightarrow>
     td_shape d = [1, n, pos, width] \<and> td_dtype d = dt
     \<and> Option.bind (Option.bind (checked_mul n pos) (\<lambda>m. checked_mul m width)) (\<lambda>m. checked_mul m (d_size lib dt))
       = Some (length (td_bytes d))"

definition dense_of_record ::
  "('t, 'd) tensor_lib \<Rightarrow> 'd dense_record \<Rightarrow> 'd geometry \<Rightarrow> nat \<Rightarrow> (generation_error, 't dense_prefix) res" where
  "dense_of_record lib rec geometry limit =
     (if dr_version rec \<notin> {1, 2} \<or> (dr_version rec = 1 \<and> dr_rotary rec \<noteq> [])
         \<or> (dr_version rec = 2 \<and> length (dr_rotary rec) \<noteq> length geometry)
         \<or> dr_position rec = 0 \<or> limit < dr_position rec \<or> length (dr_layers rec) \<noteq> length geometry
      then Err (ModelFailure ''invalid dense prefix record geometry'')
      else
        bind_res (validate_histories (dr_rotary rec) (dr_position rec)) (\<lambda>_.
          if list_all (\<lambda>((k, v), n, kd, vd, dt).
               data_fits lib n (dr_position rec) dt kd k \<and> data_fits lib n (dr_position rec) dt vd v)
               (zip (dr_layers rec) geometry)
          then Ok \<lparr>dp_position = dr_position rec,
                 dp_layers = map (\<lambda>(k, v). (t_from_data lib k, t_from_data lib v)) (dr_layers rec),
                 dp_rotary = dr_rotary rec\<rparr>
          else Err (ModelFailure ''invalid dense prefix native tensor payload'')))"

end
