(* ===== verification/ParallelPrefix.thy ===== *)
theory ParallelPrefix
  imports DensePrefix
begin

text \<open>
  The prefix transfer of a group of ranks (\<^verbatim>\<open>src/src/parallel_batch.rs\<close>) over the dense prefixes
  of its ranks: every rank exports its shard and the exports are merged; every rank imports its
  shard. The comparisons of device lists are flags, the synchronisation of a rank is an operation
  of the world.
\<close>

record 't parallel_prefix =
  pp_ranks :: "'t dense_prefix list"
  pp_position :: nat

definition rank_shard :: "prefix_shard \<Rightarrow> nat \<Rightarrow> nat \<Rightarrow> prefix_shard" where
  "rank_shard layout world rank = layout\<lparr>ps_rank := rank, ps_world := world\<rparr>"

fun export_ranks ::
  "('t, 'd) tensor_lib \<Rightarrow> prefix_shard \<Rightarrow> nat \<Rightarrow> (nat \<Rightarrow> ('w, generation_error, unit) op)
   \<Rightarrow> ('t, 'd) prefix_tensors option \<Rightarrow> (nat \<times> 't dense_prefix) list
   \<Rightarrow> ('w, generation_error, ('t, 'd) prefix_tensors option) op" where
  "export_ranks lib layout world sync acc [] w = (Ok acc, w)"
| "export_ranks lib layout world sync acc ((rank, dp) # rest) w =
     (case export_dense lib (rank_shard layout world rank) dp of
        Err e \<Rightarrow> (Err e, w)
      | Panic \<Rightarrow> (Panic, w)
      | Ok part \<Rightarrow>
          bind_op (sync rank) (\<lambda>_ w.
            case acc of
              None \<Rightarrow> export_ranks lib layout world sync (Some part) rest w
            | Some p \<Rightarrow>
                (case merge_tensors part p of
                   (Ok _, p') \<Rightarrow> export_ranks lib layout world sync (Some p') rest w
                 | (Err e, _) \<Rightarrow> (Err e, w)
                 | (Panic, _) \<Rightarrow> (Panic, w))) w)"

definition export_parallel ::
  "('t, 'd) tensor_lib \<Rightarrow> prefix_shard \<Rightarrow> nat \<Rightarrow> (nat \<Rightarrow> ('w, generation_error, unit) op) \<Rightarrow> bool \<Rightarrow> prefix_shard
   \<Rightarrow> 't parallel_prefix \<Rightarrow> ('w, generation_error, ('t, 'd) prefix_tensors) op" where
  "export_parallel lib layout world sync same_devices shard pp =
     (if shard \<noteq> default_shard \<or> length (pp_ranks pp) \<noteq> world \<or> \<not> same_devices
      then err_op (ModelFailure ''parallel tensor prefix source topology differs'')
      else
        bind_op (export_ranks lib layout world sync None (enumerate 0 (pp_ranks pp))) (\<lambda>r.
          case r of Some p \<Rightarrow> ret_op p | None \<Rightarrow> err_op (ModelFailure ''parallel tensor prefix has no ranks'')))"

definition import_rank ::
  "('t, 'd) tensor_lib \<Rightarrow> ('t, 'd, 'w) receiver \<Rightarrow> prefix_shard \<Rightarrow> nat \<Rightarrow> (nat \<Rightarrow> 'd geometry) \<Rightarrow> nat
   \<Rightarrow> (nat \<Rightarrow> ('w, generation_error, unit) op) \<Rightarrow> ('t, 'd) prefix_tensors \<Rightarrow> nat
   \<Rightarrow> ('w, generation_error, 't dense_prefix) op" where
  "import_rank lib receive layout world geometry limit sync p rank =
     bind_op (import_dense lib receive p (geometry rank) limit (rank_shard layout world rank)) (\<lambda>dp.
       if dp_position dp \<noteq> pt_position p
       then err_op (ModelFailure ''parallel tensor prefix position differs'')
       else bind_op (sync rank) (\<lambda>_. ret_op dp))"

definition import_parallel ::
  "('t, 'd) tensor_lib \<Rightarrow> ('t, 'd, 'w) receiver \<Rightarrow> prefix_shard \<Rightarrow> nat \<Rightarrow> (nat \<Rightarrow> 'd geometry) \<Rightarrow> nat
   \<Rightarrow> (nat \<Rightarrow> ('w, generation_error, unit) op) \<Rightarrow> bool \<Rightarrow> prefix_shard \<Rightarrow> ('t, 'd) prefix_tensors
   \<Rightarrow> ('w, generation_error, 't parallel_prefix) op" where
  "import_parallel lib receive layout world geometry limit sync same_root shard p =
     (if shard \<noteq> default_shard \<or> \<not> same_root
      then err_op (ModelFailure ''parallel tensor prefix destination topology differs'')
      else
        bind_op (map_op (import_rank lib receive layout world geometry limit sync p) [0..<world]) (\<lambda>ranks.
          ret_op \<lparr>pp_ranks = ranks, pp_position = pt_position p\<rparr>))"

end
