(* ===== verification/PrefixTransferInv.thy ===== *)
theory PrefixTransferInv
  imports PrefixTransfer
begin

text \<open>
  Prefixes that show parts of one content: every fragment serves the heads it claims, fragments
  of a name are sorted and disjoint, and their spans come from an spans_aligned family. Inserting and
  merging keep this and never fail; taking heads that are covered succeeds and shows them.
\<close>

section \<open>Contents and fragments\<close>

record ('d, 'e) content =
  c_heads :: nat
  c_rows :: nat
  c_cols :: nat
  c_dtype :: 'd
  c_elem :: "nat \<Rightarrow> nat \<Rightarrow> nat \<Rightarrow> 'e"

abbreviation fr_heads :: "('t, 'd) fragment \<Rightarrow> nat" where
  "fr_heads f \<equiv> fr_shape f ! 1"

definition serves ::
  "('t, 'd) tensor_lib \<Rightarrow> ('t, 'd, 'w) receiver \<Rightarrow> ('t \<Rightarrow> nat list \<Rightarrow> 'e) \<Rightarrow> nat \<Rightarrow> nat
   \<Rightarrow> (nat \<Rightarrow> nat \<Rightarrow> nat \<Rightarrow> 'e) \<Rightarrow> ('t, 'd) fragment \<Rightarrow> bool" where
  "serves lib receive at r c g f \<longleftrightarrow>
     (\<forall>x y lo hi w. lo < hi \<and> hi \<le> fr_heads f \<longrightarrow>
        (\<exists>t w'. take_heads lib receive [x, y, r, c] (fr_dtype f) f lo hi w = (Ok t, w')
           \<and> block lib at (fr_dtype f) (hi - lo) r c (\<lambda>h. g (lo + h)) t))"

text \<open>What is here already shows the content; a remote payload is asked for it.\<close>

definition resident ::
  "('t, 'd) tensor_lib \<Rightarrow> ('t \<Rightarrow> nat list \<Rightarrow> 'e) \<Rightarrow> ('d \<Rightarrow> bytes \<Rightarrow> 'e) \<Rightarrow> ('d, 'e) content \<Rightarrow> ('t, 'd) fragment \<Rightarrow> bool" where
  "resident lib at elem ct f \<longleftrightarrow>
     (case fr_payload f of
        OnDevice t \<Rightarrow> block lib at (c_dtype ct) (fr_heads f) (c_rows ct) (c_cols ct) (\<lambda>h. c_elem ct (fr_start f + h)) t
      | OnHost d \<Rightarrow> td_dtype d = c_dtype ct
          \<and> bytes_hold lib elem (fr_heads f) (c_rows ct) (c_cols ct) (\<lambda>h. c_elem ct (fr_start f + h)) d
      | Remote _ _ \<Rightarrow> True)"

definition belongs_to ::
  "('t, 'd) tensor_lib \<Rightarrow> ('t, 'd, 'w) receiver \<Rightarrow> ('t \<Rightarrow> nat list \<Rightarrow> 'e) \<Rightarrow> ('d \<Rightarrow> bytes \<Rightarrow> 'e) \<Rightarrow> ('d, 'e) content
   \<Rightarrow> ('t, 'd) fragment \<Rightarrow> bool" where
  "belongs_to lib receive at elem ct f \<longleftrightarrow> resident lib at elem ct f \<and>
     fr_total f = c_heads ct \<and> fr_dtype f = c_dtype ct \<and> (\<exists>n. fr_shape f = [1, n, c_rows ct, c_cols ct])
     \<and> 0 < fr_heads f \<and> 0 < c_rows ct \<and> 0 < c_cols ct
     \<and> fr_start f + fr_heads f \<le> c_heads ct \<and> c_heads ct \<le> usize_max
     \<and> serves lib receive at (c_rows ct) (c_cols ct) (\<lambda>h. c_elem ct (fr_start f + h)) f"

lemma belongs_toD:
  assumes "belongs_to lib receive at elem ct f"
  shows "fr_total f = c_heads ct" "fr_dtype f = c_dtype ct" "fr_shape f = [1, fr_heads f, c_rows ct, c_cols ct]"
    "0 < fr_heads f" "0 < c_rows ct" "0 < c_cols ct" "fr_start f + fr_heads f \<le> c_heads ct" "c_heads ct \<le> usize_max"
    "serves lib receive at (c_rows ct) (c_cols ct) (\<lambda>h. c_elem ct (fr_start f + h)) f"
    "resident lib at elem ct f"
  using assms by (auto simp: belongs_to_def)

lemma serves_device:
  assumes "tensor_laws lib at elem" and "block lib at (fr_dtype f) (fr_heads f) r c g t"
    and "fr_payload f = OnDevice t"
  shows "serves lib receive at r c g f"
  using assms block_device [OF assms(1) block_slice [OF assms(1,2)]]
  by (auto simp: serves_def take_heads_def)

lemma serves_host:
  assumes "tensor_laws lib at elem" and "bytes_hold lib elem (fr_heads f) r c g d"
    and "fr_payload f = OnHost d" and "td_dtype d = fr_dtype f"
    and "r * c * d_size lib (fr_dtype f) \<le> usize_max" and "r * c \<le> usize_max"
  shows "serves lib receive at r c g f"
proof -
  have "\<exists>t w'. take_heads lib receive [x, y, r, c] (fr_dtype f) f lo hi w = (Ok t, w')
           \<and> block lib at (fr_dtype f) (hi - lo) r c (\<lambda>h. g (lo + h)) t"
    if "lo < hi" "hi \<le> fr_heads f" for x y lo hi w
  proof -
    note cut = bytes_slice [OF assms(2) less_imp_le [OF that(1)] that(2) refl]
    have stride: "Option.bind (checked_mul r c) (\<lambda>n. checked_mul n (d_size lib (fr_dtype f)))
        = Some (r * c * d_size lib (td_dtype d))"
      using assms(4-6) by (simp add: checked_mul_def)
    show ?thesis
      using cut(1) block_from_data [OF assms(1) cut(2)] assms(3,4)
      by (simp add: take_heads_def stride)
  qed
  then show ?thesis by (simp add: serves_def)
qed

section \<open>Fragments of one name\<close>

definition apart :: "nat \<times> nat \<Rightarrow> nat \<times> nat \<Rightarrow> bool" where
  "apart x y \<longleftrightarrow> fst x + snd x \<le> fst y \<or> fst y + snd y \<le> fst x"

definition spans_aligned :: "(nat \<times> nat) set \<Rightarrow> bool" where
  "spans_aligned R \<longleftrightarrow> (\<forall>x\<in>R. \<forall>y\<in>R. x = y \<or> apart x y)"

definition span_of :: "('t, 'd) fragment \<Rightarrow> nat \<times> nat" where
  "span_of f = (fr_start f, fr_heads f)"

definition spans :: "('t, 'd) fragment list \<Rightarrow> (nat \<times> nat) set" where
  "spans fs = span_of ` set fs"

definition lined_up ::
  "('t, 'd) tensor_lib \<Rightarrow> ('t, 'd, 'w) receiver \<Rightarrow> ('t \<Rightarrow> nat list \<Rightarrow> 'e) \<Rightarrow> ('d \<Rightarrow> bytes \<Rightarrow> 'e) \<Rightarrow> ('d, 'e) content \<Rightarrow> ('t, 'd) fragment list \<Rightarrow> bool" where
  "lined_up lib receive at elem ct fs \<longleftrightarrow>
     sorted (map fr_start fs) \<and> distinct (map fr_start fs) \<and> (\<forall>f\<in>set fs. belongs_to lib receive at elem ct f)"

lemma compare_aligned:
  assumes "\<forall>old\<in>set fs. belongs_to lib receive at elem ct old" and "belongs_to lib receive at elem ct f"
    and "spans_aligned (insert (span_of f) (spans fs))"
  shows "compare_fragments f fs = Ok (span_of f \<in> spans fs)"
  using assms
proof (induction fs)
  case (Cons old fs)
  have old: "belongs_to lib receive at elem ct old" and rest: "\<forall>old\<in>set fs. belongs_to lib receive at elem ct old"
    using Cons.prems(1) by auto
  have al: "spans_aligned (insert (span_of f) (spans fs))" using Cons.prems(3) by (auto simp: spans_aligned_def spans_def)
  have geo: "\<not> (fr_total old \<noteq> fr_total f \<or> fr_dtype old \<noteq> fr_dtype f \<or> fr_shape old ! 0 \<noteq> fr_shape f ! 0
         \<or> fr_shape old ! 2 \<noteq> fr_shape f ! 2 \<or> fr_shape old ! 3 \<noteq> fr_shape f ! 3)"
    using belongs_toD(1-3) [OF old] belongs_toD(1-3) [OF Cons.prems(2)] by (metis nth_Cons_0 nth_Cons_numeral diff_Suc_1 numeral_2_eq_2 numeral_3_eq_3 nth_Cons_Suc)
  have "span_of old = span_of f \<or> apart (span_of old) (span_of f)"
    using Cons.prems(3) by (auto simp: spans_aligned_def spans_def)
  then show ?case
  proof
    assume "span_of old = span_of f"
    then show ?thesis using geo by (simp add: span_of_def spans_def)
  next
    assume ap: "apart (span_of old) (span_of f)"
    then have ne: "span_of f \<noteq> span_of old"
      using belongs_toD(4) [OF old] by (auto simp: apart_def span_of_def)
    have "span_of f \<in> spans (old # fs) \<longleftrightarrow> span_of f \<in> spans fs" using ne by (auto simp: spans_def)
    then show ?thesis
      using geo ap ne Cons.IH [OF rest Cons.prems(2) al] by (auto simp: apart_def span_of_def)
  qed
qed (simp add: spans_def)

lemma aligned_start:
  assumes "spans_aligned R" and "x \<in> R" and "y \<in> R" and "fst x = fst y" and "0 < snd x" and "0 < snd y"
  shows "x = y"
proof -
  have "x = y \<or> apart x y" using assms(1-3) unfolding spans_aligned_def by blast
  then show ?thesis using assms(4-6) by (auto simp: apart_def)
qed

lemma lined_up_insert:
  assumes "lined_up lib receive at elem ct fs" and "belongs_to lib receive at elem ct f"
    and "spans_aligned (insert (span_of f) (spans fs))" and "span_of f \<notin> spans fs"
  shows "lined_up lib receive at elem ct (sort_key fr_start (fs @ [f]))"
    and "spans (sort_key fr_start (fs @ [f])) = insert (span_of f) (spans fs)"
proof -
  have "fr_start f \<notin> fr_start ` set fs"
  proof
    assume "fr_start f \<in> fr_start ` set fs"
    then obtain old where old: "old \<in> set fs" "fr_start old = fr_start f" by force
    have "belongs_to lib receive at elem ct old" using assms(1) old(1) by (simp add: lined_up_def)
    then have "0 < snd (span_of old)" "0 < snd (span_of f)"
      using belongs_toD(4) assms(2) by (auto simp: span_of_def)
    moreover have "span_of old \<in> insert (span_of f) (spans fs)" using old(1) by (simp add: spans_def)
    moreover have "fst (span_of old) = fst (span_of f)" using old(2) by (simp add: span_of_def)
    ultimately have "span_of old = span_of f" using aligned_start [OF assms(3)] by blast
    then show False using assms(4) imageI [OF old(1), of span_of] by (simp add: spans_def)
  qed
  then have "distinct (map fr_start (fs @ [f]))" using assms(1) by (auto simp: lined_up_def)
  moreover have "mset (map fr_start (sort_key fr_start (fs @ [f]))) = mset (map fr_start (fs @ [f]))"
    by (simp only: mset_map mset_sort)
  ultimately have "distinct (map fr_start (sort_key fr_start (fs @ [f])))"
    using mset_eq_imp_distinct_iff by blast
  then show "lined_up lib receive at elem ct (sort_key fr_start (fs @ [f]))"
    using assms(1,2) by (auto simp: lined_up_def)
  show "spans (sort_key fr_start (fs @ [f])) = insert (span_of f) (spans fs)"
    by (simp add: spans_def)
qed

section \<open>Taking heads\<close>

definition covered :: "(nat \<times> nat) set \<Rightarrow> nat \<Rightarrow> nat \<Rightarrow> bool" where
  "covered R a b \<longleftrightarrow> (\<forall>h. a \<le> h \<and> h < b \<longrightarrow> (\<exists>x\<in>R. fst x \<le> h \<and> h < fst x + snd x))"

lemma gather_covered:
  assumes "tensor_laws lib at elem"
    and "\<forall>f\<in>set fs. belongs_to lib receive at elem ct f"
    and "sorted_wrt (\<lambda>f f'. fr_start f + fr_heads f \<le> fr_start f') fs"
    and "covered (spans fs) cursor b" and "a \<le> cursor" and "cursor \<le> b"
    and "cursor = a \<or> (\<forall>f\<in>set fs. cursor \<le> fr_start f)"
    and "pieces = [] \<and> cursor = a
      \<or> pieces \<noteq> [] \<and> block lib at (c_dtype ct) (cursor - a) (c_rows ct) (c_cols ct) (\<lambda>h. c_elem ct (a + h)) (t_cat lib pieces 1)"
    and "shape = [x, y, c_rows ct, c_cols ct]"
  shows "\<exists>ps w'. gather lib receive shape (c_dtype ct) (c_heads ct, a, b) pieces cursor fs w = (Ok (ps, b), w')
    \<and> (ps = [] \<and> b = a
      \<or> ps \<noteq> [] \<and> block lib at (c_dtype ct) (b - a) (c_rows ct) (c_cols ct) (\<lambda>h. c_elem ct (a + h)) (t_cat lib ps 1))"
  using assms(2-8)
proof (induction fs arbitrary: pieces cursor w)
  case Nil
  then have "cursor = b" by (auto simp: covered_def spans_def)
  then show ?case using Nil by auto
next
  case (Cons f fs)
  note f = belongs_toD [OF Cons.prems(1) [rule_format, of f, simplified]]
  let ?start = "max (fr_start f) a" and ?stop = "min (fr_start f + fr_heads f) b"
  have geo: "\<not> (fr_total f \<noteq> c_heads ct \<or> fr_dtype f \<noteq> c_dtype ct \<or> drop 2 (fr_shape f) \<noteq> drop 2 shape)"
    by (subst f(3)) (use f(1,2) assms(9) in simp)
  have rest: "\<forall>f\<in>set fs. belongs_to lib receive at elem ct f"
    "sorted_wrt (\<lambda>f f'. fr_start f + fr_heads f \<le> fr_start f') fs"
    "\<forall>f'\<in>set fs. fr_start f + fr_heads f \<le> fr_start f'"
    using Cons.prems(1,2) by auto
  show ?case
  proof (cases "?stop \<le> ?start")
    case True
    have "covered (spans fs) cursor b"
      unfolding covered_def
    proof (intro allI impI)
      fix h assume h: "cursor \<le> h \<and> h < b"
      then obtain x where x: "x \<in> spans (f # fs)" "fst x \<le> h" "h < fst x + snd x"
        using Cons.prems(3) by (auto simp: covered_def)
      have "x \<noteq> span_of f" using True x h Cons.prems(4) by (auto simp: span_of_def)
      then show "\<exists>x\<in>spans fs. fst x \<le> h \<and> h < fst x + snd x" using x by (auto simp: spans_def)
    qed
    from Cons.IH [OF rest(1,2) this Cons.prems(4,5) _ Cons.prems(7)] Cons.prems(6) True geo
    show ?thesis by (auto simp: Let_def)
  next
    case False
    have cur: "?start = cursor"
    proof (rule ccontr)
      assume ne: "?start \<noteq> cursor"
      have "cursor \<le> ?start" using Cons.prems(6) by auto
      then have less: "cursor < ?start" using ne by simp
      then have "cursor < b" "cursor < fr_start f" using False Cons.prems(4) by auto
      then obtain x where "x \<in> spans (f # fs)" "fst x \<le> cursor" "cursor < fst x + snd x"
        using Cons.prems(3) by (auto simp: covered_def)
      then show False using \<open>cursor < fr_start f\<close> rest(3) by (fastforce simp: spans_def span_of_def)
    qed
    let ?lo = "?start - fr_start f" and ?hi = "?stop - fr_start f"
    have lohi: "?lo < ?hi" "?hi \<le> fr_heads f" using False by auto
    obtain t w1 where t: "take_heads lib receive shape (c_dtype ct) f ?lo ?hi w = (Ok t, w1)"
      "block lib at (c_dtype ct) (?hi - ?lo) (c_rows ct) (c_cols ct) (\<lambda>h. c_elem ct (fr_start f + (?lo + h))) t"
      using f(9) [unfolded serves_def, rule_format, OF conjI [OF lohi], of x y w] f(2) assms(9) by auto
    have shift: "fr_start f + (?lo + h) = cursor + h" for h using cur by (auto simp: max_def split: if_splits)
    have width: "?hi - ?lo = ?stop - cursor" using cur False by (auto simp: max_def split: if_splits)
    have t2: "block lib at (c_dtype ct) (?stop - cursor) (c_rows ct) (c_cols ct) (\<lambda>h. c_elem ct (cursor + h)) t"
      using t(2) by (simp only: shift width)
    have more: "block lib at (c_dtype ct) (?stop - a) (c_rows ct) (c_cols ct) (\<lambda>h. c_elem ct (a + h)) (t_cat lib (pieces @ [t]) 1)"
    proof (cases "pieces = []")
      case True
      then show ?thesis
        using Cons.prems(7) t2 by (simp only: append_Nil cat_lawD(1) [OF assms(1)] simp_thms)
    next
      case ne: False
      have "block lib at (c_dtype ct) ((cursor - a) + (?stop - cursor)) (c_rows ct) (c_cols ct)
          (\<lambda>h. c_elem ct (a + h)) (t_cat lib (pieces @ [t]) 1)"
      proof (rule block_cat [OF assms(1) ne])
        show "block lib at (c_dtype ct) (cursor - a) (c_rows ct) (c_cols ct) (\<lambda>h. c_elem ct (a + h)) (t_cat lib pieces 1)"
          using Cons.prems(7) ne by simp
        show "block lib at (c_dtype ct) (?stop - cursor) (c_rows ct) (c_cols ct)
            (\<lambda>h. c_elem ct (a + (cursor - a + h))) t"
          using t2 Cons.prems(4) by simp
      qed
      moreover have "(cursor - a) + (?stop - cursor) = ?stop - a" using cur False Cons.prems(4) by auto
      ultimately show ?thesis by simp
    qed
    have "covered (spans fs) ?stop b"
      unfolding covered_def
    proof (intro allI impI)
      fix h assume h: "?stop \<le> h \<and> h < b"
      then have "cursor \<le> h" using cur False by auto
      then obtain x where x: "x \<in> spans (f # fs)" "fst x \<le> h" "h < fst x + snd x"
        using Cons.prems(3) h by (auto simp: covered_def)
      have "x \<noteq> span_of f" using h x by (auto simp: span_of_def)
      then show "\<exists>x\<in>spans fs. fst x \<le> h \<and> h < fst x + snd x" using x by (auto simp: spans_def)
    qed
    moreover have "a \<le> ?stop" "?stop \<le> b" using cur False Cons.prems(4) by auto
    moreover have "?stop = a \<or> (\<forall>f'\<in>set fs. ?stop \<le> fr_start f')" using rest(3) by auto
    ultimately have "\<exists>ps w'. gather lib receive shape (c_dtype ct) (c_heads ct, a, b) (pieces @ [t]) ?stop fs w1
        = (Ok (ps, b), w')
      \<and> (ps = [] \<and> b = a
        \<or> ps \<noteq> [] \<and> block lib at (c_dtype ct) (b - a) (c_rows ct) (c_cols ct) (\<lambda>h. c_elem ct (a + h)) (t_cat lib ps 1))"
      using Cons.IH [OF rest(1,2)] more by blast
    then show ?thesis using geo False cur t(1) by (simp add: Let_def)
  qed
qed

lemma lined_up_sorted:
  assumes "lined_up lib receive at elem ct fs" and "spans_aligned (spans fs)"
  shows "sorted_wrt (\<lambda>f f'. fr_start f + fr_heads f \<le> fr_start f') fs"
  unfolding sorted_wrt_iff_nth_less
proof (intro allI impI)
  fix i j assume ij: "i < j" "j < length fs"
  have s: "sorted (map fr_start fs)" and d: "distinct (map fr_start fs)"
    and b: "\<forall>f\<in>set fs. belongs_to lib receive at elem ct f" using assms(1) by (simp_all add: lined_up_def)
  have "fr_start (fs ! i) \<le> fr_start (fs ! j)" using sorted_nth_mono [OF s, of i j] ij by simp
  moreover have "fr_start (fs ! i) \<noteq> fr_start (fs ! j)"
    using nth_eq_iff_index_eq [OF d, of i j] ij by simp
  moreover have "span_of (fs ! i) = span_of (fs ! j) \<or> apart (span_of (fs ! i)) (span_of (fs ! j))"
    using assms(2) ij by (simp add: spans_aligned_def spans_def)
  moreover have "0 < fr_heads (fs ! j)" using b ij belongs_toD(4) nth_mem by blast
  ultimately show "fr_start (fs ! i) + fr_heads (fs ! i) \<le> fr_start (fs ! j)"
    by (auto simp: span_of_def apart_def)
qed

lemma tensor_of_covered:
  assumes "tensor_laws lib at elem" and "map_of (pt_tensors p) name = Some fs"
    and "lined_up lib receive at elem ct fs" and "spans_aligned (spans fs)" and "covered (spans fs) a b" and "a < b"
    and "b \<le> c_heads ct"
  shows "\<exists>t w'. tensor_of lib receive p name [1, b - a, c_rows ct, c_cols ct] (c_dtype ct) (c_heads ct, a, b) w = (Ok t, w')
    \<and> block lib at (c_dtype ct) (b - a) (c_rows ct) (c_cols ct) (\<lambda>h. c_elem ct (a + h)) t"
proof -
  have b: "\<forall>f\<in>set fs. belongs_to lib receive at elem ct f" using assms(3) by (simp add: lined_up_def)
  obtain ps w' where g: "gather lib receive [1, b - a, c_rows ct, c_cols ct] (c_dtype ct) (c_heads ct, a, b) [] a fs w
      = (Ok (ps, b), w')" "ps \<noteq> []"
    "block lib at (c_dtype ct) (b - a) (c_rows ct) (c_cols ct) (\<lambda>h. c_elem ct (a + h)) (t_cat lib ps 1)"
    using gather_covered [OF assms(1) b lined_up_sorted [OF assms(3,4)] assms(5) order.refl less_imp_le [OF assms(6)],
        of "[]" "[1, b - a, c_rows ct, c_cols ct]" 1 "b - a" w] assms(6) by auto
  have "tensor_of lib receive p name [1, b - a, c_rows ct, c_cols ct] (c_dtype ct) (c_heads ct, a, b) w
      = (Ok (t_cat lib ps 1), w')"
    using g(1,2) assms(2,6,7) cat_lawD(1) [OF assms(1)] by (auto simp: tensor_of_def split: list.split)
  with g(3) show ?thesis by blast
qed

section \<open>Prefixes\<close>

text \<open>\<open>cts\<close> names the contents; \<open>R\<close> the spans the ranks own of each.\<close>

definition head_sharded ::
  "('t, 'd) tensor_lib \<Rightarrow> ('t, 'd, 'w) receiver \<Rightarrow> ('t \<Rightarrow> nat list \<Rightarrow> 'e) \<Rightarrow> ('d \<Rightarrow> bytes \<Rightarrow> 'e) \<Rightarrow> (string \<Rightarrow> ('d, 'e) content option)
   \<Rightarrow> (string \<Rightarrow> (nat \<times> nat) set) \<Rightarrow> ('t, 'd) prefix_tensors \<Rightarrow> bool" where
  "head_sharded lib receive at elem cts R p \<longleftrightarrow> ordered (pt_tensors p)
     \<and> (\<forall>name. spans_aligned (R name))
     \<and> (\<forall>name fs. map_of (pt_tensors p) name = Some fs \<longrightarrow> name \<noteq> [] \<and> fs \<noteq> [] \<and> spans fs \<subseteq> R name
          \<and> (\<exists>ct. cts name = Some ct \<and> lined_up lib receive at elem ct fs))"

definition spans_at :: "('t, 'd) prefix_tensors \<Rightarrow> string \<Rightarrow> (nat \<times> nat) set" where
  "spans_at p name = spans (fragments_of name p)"

text \<open>What insertions and merges of leaves keep.\<close>

definition same_frame :: "('t, 'd) prefix_tensors \<Rightarrow> ('t, 'd) prefix_tensors \<Rightarrow> bool" where
  "same_frame p q \<longleftrightarrow> pt_position q = pt_position p \<and> pt_schema q = pt_schema p \<and> pt_scalars q = pt_scalars p
     \<and> pt_children q = pt_children p"

lemma same_frame_refl [simp]: "same_frame p p"
  by (simp add: same_frame_def)

lemma same_frame_trans: "same_frame p q \<Longrightarrow> same_frame q r \<Longrightarrow> same_frame p r"
  by (simp add: same_frame_def)

lemma set_fragments_frame: "same_frame p (set_fragments name fs p)"
  "pt_tensors (set_fragments name fs p) = put name fs (pt_tensors p)"
  by (cases p; simp add: same_frame_def)+

lemma fragments_of_set:
  "ordered (pt_tensors p) \<Longrightarrow> fragments_of n (set_fragments name fs p) = (if n = name then fs else fragments_of n p)"
  by (simp add: fragments_of_def set_fragments_frame map_of_put)

lemma fragments_of_Some: "map_of (pt_tensors p) name = Some fs \<Longrightarrow> fragments_of name p = fs"
  by (simp add: fragments_of_def)

lemma sharded_name:
  assumes "head_sharded lib receive at elem cts R p" and "map_of (pt_tensors p) name = Some fs"
  shows "name \<noteq> []" "fs \<noteq> []" "spans fs \<subseteq> R name" "cts name = Some ct \<Longrightarrow> lined_up lib receive at elem ct fs"
    "\<exists>ct. cts name = Some ct"
proof -
  have "name \<noteq> [] \<and> fs \<noteq> [] \<and> spans fs \<subseteq> R name \<and> (\<exists>ct. cts name = Some ct \<and> lined_up lib receive at elem ct fs)"
    using assms unfolding head_sharded_def by blast
  then show "name \<noteq> []" "fs \<noteq> []" "spans fs \<subseteq> R name" "cts name = Some ct \<Longrightarrow> lined_up lib receive at elem ct fs"
    "\<exists>ct. cts name = Some ct"
    by auto
qed

lemma sharded_update:
  assumes "head_sharded lib receive at elem cts R p" and "name \<noteq> []" and "fs \<noteq> []" and "spans fs \<subseteq> R name"
    and "cts name = Some ct" and "lined_up lib receive at elem ct fs" and "pt_tensors q = put name fs (pt_tensors p)"
  shows "head_sharded lib receive at elem cts R q"
proof -
  have ord: "ordered (pt_tensors p)" and al: "\<forall>name. spans_aligned (R name)" using assms(1) by (simp_all add: head_sharded_def)
  have "n \<noteq> [] \<and> gs \<noteq> [] \<and> spans gs \<subseteq> R n \<and> (\<exists>ct. cts n = Some ct \<and> lined_up lib receive at elem ct gs)"
    if "map_of (pt_tensors q) n = Some gs" for n gs
  proof (cases "n = name")
    case True
    then show ?thesis using that assms(2-7) by (simp add: map_of_put [OF ord])
  next
    case False
    then have "map_of (pt_tensors p) n = Some gs" using that assms(7) by (simp add: map_of_put [OF ord])
    note old = sharded_name [OF assms(1) this]
    then show ?thesis by auto
  qed
  then show ?thesis using al ordered_put [OF ord] assms(7) by (simp add: head_sharded_def)
qed

lemma sharded_fragments:
  assumes "head_sharded lib receive at elem cts R p" and "cts name = Some ct"
  shows "lined_up lib receive at elem ct (fragments_of name p)" and "spans_at p name \<subseteq> R name"
  using sharded_name [OF assms(1)] assms(2)
  by (cases "map_of (pt_tensors p) name"; simp add: fragments_of_def lined_up_def spans_def spans_at_def)+

lemma insert_sharded:
  assumes "head_sharded lib receive at elem cts R p" and "cts name = Some ct" and "name \<noteq> []"
    and "belongs_to lib receive at elem ct f" and "span_of f \<in> R name"
  obtains p' where "insert_fragment name f p = (Ok (), p')" "head_sharded lib receive at elem cts R p'" "same_frame p p'"
    "spans_at p' = (spans_at p)(name := insert (span_of f) (spans_at p name))"
proof -
  note b = belongs_toD [OF assms(4)]
  let ?fs = "fragments_of name p"
  have al: "spans_aligned (R name)" using assms(1) by (simp add: head_sharded_def)
  have fs: "lined_up lib receive at elem ct ?fs" "spans ?fs \<subseteq> R name"
    using sharded_fragments [OF assms(1,2)] by (simp_all add: spans_at_def)
  have sub: "spans_aligned (insert (span_of f) (spans ?fs))"
    using al assms(5) fs(2) unfolding spans_aligned_def by blast
  have geo: "\<not> (name = [] \<or> fr_shape f ! 0 \<noteq> 1 \<or> fr_shape f ! 1 = 0 \<or> fr_shape f ! 2 = 0 \<or> fr_shape f ! 3 = 0
         \<or> (case checked_add (fr_start f) (fr_shape f ! 1) of None \<Rightarrow> True | Some stop \<Rightarrow> fr_total f < stop))"
  proof -
    have "fr_shape f ! 0 = 1" "fr_shape f ! 2 = c_rows ct" "fr_shape f ! 3 = c_cols ct"
      by (subst b(3), simp)+
    then show ?thesis using assms(3) b(1,4-8) by (simp add: checked_add_def)
  qed
  have cmp: "compare_fragments f ?fs = Ok (span_of f \<in> spans ?fs)"
    using compare_aligned [OF _ assms(4) sub] fs(1) by (simp add: lined_up_def)
  show ?thesis
  proof (cases "span_of f \<in> spans ?fs")
    case True
    have "spans_at p = (spans_at p)(name := insert (span_of f) (spans_at p name))"
      by (simp only: spans_at_def insert_absorb [OF True] fun_upd_idem)
    moreover have "insert_fragment name f p = (Ok (), p)" unfolding insert_fragment_def cmp using geo True by simp
    ultimately show ?thesis using that assms(1) by simp
  next
    case False
    let ?new = "sort_key fr_start (?fs @ [f])"
    note new = lined_up_insert [OF fs(1) assms(4) sub False]
    have p': "insert_fragment name f p = (Ok (), set_fragments name ?new p)"
      unfolding insert_fragment_def cmp using geo False by simp
    have ord: "ordered (pt_tensors p)" using assms(1) by (simp add: head_sharded_def)
    have "?new \<noteq> []" by (metis append_is_Nil_conv length_0_conv length_sort not_Cons_self2)
    moreover have "spans ?new \<subseteq> R name" using new(2) fs(2) assms(5) by simp
    ultimately have "head_sharded lib receive at elem cts R (set_fragments name ?new p)"
      by (rule sharded_update [OF assms(1,3) _ _ assms(2) new(1) set_fragments_frame(2)])
    moreover have "spans_at (set_fragments name ?new p) = (spans_at p)(name := insert (span_of f) (spans_at p name))"
    proof (rule ext)
      fix n
      show "spans_at (set_fragments name ?new p) n
          = ((spans_at p)(name := insert (span_of f) (spans_at p name))) n"
        by (simp only: spans_at_def fun_upd_apply new(2) fragments_of_set [OF ord] split: if_split) simp
    qed
    ultimately show ?thesis by (intro that [OF p']) (simp_all add: set_fragments_frame(1))
  qed
qed

lemma insert_all_sharded:
  assumes "head_sharded lib receive at elem cts R p" and "cts name = Some ct" and "name \<noteq> []"
    and "\<forall>f\<in>set fs. belongs_to lib receive at elem ct f \<and> span_of f \<in> R name"
  shows "\<exists>p'. for_op (insert_fragment name) fs p = (Ok (), p') \<and> head_sharded lib receive at elem cts R p' \<and> same_frame p p'
    \<and> spans_at p' = (spans_at p)(name := spans fs \<union> spans_at p name)"
  using assms(1,4)
proof (induction fs arbitrary: p)
  case (Cons f fs)
  obtain p1 where p1: "insert_fragment name f p = (Ok (), p1)" "head_sharded lib receive at elem cts R p1" "same_frame p p1"
    "spans_at p1 = (spans_at p)(name := insert (span_of f) (spans_at p name))"
    by (rule insert_sharded [OF Cons.prems(1) assms(2,3), of f]) (use Cons.prems(2) in auto)
  have "\<exists>p'. for_op (insert_fragment name) fs p1 = (Ok (), p') \<and> head_sharded lib receive at elem cts R p' \<and> same_frame p1 p'
      \<and> spans_at p' = (spans_at p1)(name := spans fs \<union> spans_at p1 name)"
    by (rule Cons.IH [OF p1(2)]) (use Cons.prems(2) in auto)
  then obtain p2 where p2: "for_op (insert_fragment name) fs p1 = (Ok (), p2)" "head_sharded lib receive at elem cts R p2"
    "same_frame p1 p2" "spans_at p2 = (spans_at p1)(name := spans fs \<union> spans_at p1 name)"
    by blast
  have "spans_at p2 = (spans_at p)(name := spans (f # fs) \<union> spans_at p name)"
    using p1(4) p2(4) by (auto simp: spans_def fun_eq_iff)
  then show ?case using p1(1) p2(1,2) same_frame_trans [OF p1(3) p2(3)] by auto
qed (simp add: spans_def)

lemma insert_names_sharded:
  assumes "head_sharded lib receive at elem cts R p"
    and "\<forall>(name, fs)\<in>set ts. name \<noteq> [] \<and> (\<exists>ct. cts name = Some ct
          \<and> (\<forall>f\<in>set fs. belongs_to lib receive at elem ct f \<and> span_of f \<in> R name))"
    and "distinct (keys ts)"
  shows "\<exists>p'. for_op (\<lambda>(name, fs). for_op (insert_fragment name) fs) ts p = (Ok (), p')
    \<and> head_sharded lib receive at elem cts R p' \<and> same_frame p p'
    \<and> (\<forall>name. spans_at p' name = (case map_of ts name of Some fs \<Rightarrow> spans fs | None \<Rightarrow> {}) \<union> spans_at p name)"
  using assms
proof (induction ts arbitrary: p)
  case (Cons x ts)
  obtain name fs where x: "x = (name, fs)" by (cases x)
  from Cons.prems(2) obtain ct where ct: "name \<noteq> []" "cts name = Some ct"
    "\<forall>f\<in>set fs. belongs_to lib receive at elem ct f \<and> span_of f \<in> R name"
    by (auto simp: x)
  obtain p1 where p1: "for_op (insert_fragment name) fs p = (Ok (), p1)" "head_sharded lib receive at elem cts R p1" "same_frame p p1"
    "spans_at p1 = (spans_at p)(name := spans fs \<union> spans_at p name)"
    using insert_all_sharded [OF Cons.prems(1) ct(2,1,3)] by auto
  obtain p2 where p2: "for_op (\<lambda>(name, fs). for_op (insert_fragment name) fs) ts p1 = (Ok (), p2)"
    "head_sharded lib receive at elem cts R p2" "same_frame p1 p2"
    "\<forall>name. spans_at p2 name = (case map_of ts name of Some fs \<Rightarrow> spans fs | None \<Rightarrow> {}) \<union> spans_at p1 name"
    using Cons.IH [OF p1(2)] Cons.prems(2,3) by auto
  have "map_of ts name = None" using Cons.prems(3) by (auto simp: x map_of_eq_None_iff)
  then have "spans_at p2 n = (case map_of (x # ts) n of Some fs \<Rightarrow> spans fs | None \<Rightarrow> {}) \<union> spans_at p n" for n
    using p2(4) p1(4) by (auto simp: x split: option.split)
  then show ?case using p1(1) p2(1,2) same_frame_trans [OF p1(3) p2(3)] by (auto simp: x)
qed simp

lemma merge_sharded:
  assumes "head_sharded lib receive at elem cts R p" and "head_sharded lib receive at elem cts R q"
    and "same_frame p q" and "pt_children q = []"
  shows "\<exists>p'. merge_tensors q p = (Ok (), p') \<and> head_sharded lib receive at elem cts R p' \<and> same_frame p p'
    \<and> (\<forall>name. spans_at p' name = spans_at q name \<union> spans_at p name)"
proof -
  obtain pos schema ts sc where q: "q = PrefixTensors pos schema ts [] sc" using assms(4) by (cases q) auto
  have ord: "ordered ts" using assms(2) by (simp add: head_sharded_def q)
  have "\<forall>(name, fs)\<in>set ts. name \<noteq> [] \<and> (\<exists>ct. cts name = Some ct
          \<and> (\<forall>f\<in>set fs. belongs_to lib receive at elem ct f \<and> span_of f \<in> R name))"
  proof clarify
    fix name fs assume "(name, fs) \<in> set ts"
    then have "map_of ts name = Some fs" using in_map_of [OF ord] by blast
    then have "name \<noteq> []" "spans fs \<subseteq> R name" "\<exists>ct. cts name = Some ct \<and> lined_up lib receive at elem ct fs"
      using assms(2) by (simp_all add: head_sharded_def q)
    then show "name \<noteq> [] \<and> (\<exists>ct. cts name = Some ct \<and> (\<forall>f\<in>set fs. belongs_to lib receive at elem ct f \<and> span_of f \<in> R name))"
      by (auto simp: lined_up_def spans_def)
  qed
  from insert_names_sharded [OF assms(1) this ordered_distinct [OF ord]] obtain p' where
    p': "for_op (\<lambda>(name, fs). for_op (insert_fragment name) fs) ts p = (Ok (), p')"
    "head_sharded lib receive at elem cts R p'" "same_frame p p'"
    "\<forall>name. spans_at p' name = (case map_of ts name of Some fs \<Rightarrow> spans fs | None \<Rightarrow> {}) \<union> spans_at p name"
    by auto
  have "spans_at p' name = spans_at q name \<union> spans_at p name" for name
    using p'(4) by (auto simp: spans_at_def fragments_of_def q spans_def split: option.split)
  moreover have "merge_tensors q p = (Ok (), p')" using p'(1) assms(3) by (auto simp: q same_frame_def)
  ultimately show ?thesis using p'(2,3) by blast
qed

lemma tensor_sharded:
  assumes "tensor_laws lib at elem" and "head_sharded lib receive at elem cts R p" and "cts name = Some ct"
    and "covered (spans_at p name) a b" and "a < b" and "b \<le> c_heads ct"
  shows "\<exists>t w'. tensor_of lib receive p name [1, b - a, c_rows ct, c_cols ct] (c_dtype ct) (c_heads ct, a, b) w = (Ok t, w')
    \<and> block lib at (c_dtype ct) (b - a) (c_rows ct) (c_cols ct) (\<lambda>h. c_elem ct (a + h)) t"
proof -
  have "spans_at p name \<noteq> {}" using assms(4,5) by (auto simp: covered_def)
  then obtain fs where fs: "map_of (pt_tensors p) name = Some fs"
    by (cases "map_of (pt_tensors p) name") (simp_all add: spans_at_def fragments_of_def spans_def)
  have "spans fs \<subseteq> R name" "lined_up lib receive at elem ct fs" "spans_aligned (R name)"
    using sharded_name [OF assms(2) fs] assms(2,3) by (simp_all add: head_sharded_def)
  then have "spans_aligned (spans fs)" unfolding spans_aligned_def by blast
  then show ?thesis
    using tensor_of_covered [OF assms(1) fs \<open>lined_up lib receive at elem ct fs\<close>] assms(4-6)
    by (simp add: spans_at_def fragments_of_Some [OF fs])
qed

section \<open>Shards\<close>

definition shard_span :: "nat \<Rightarrow> nat \<Rightarrow> nat \<Rightarrow> nat \<times> nat" where
  "shard_span g world rank =
     (if world \<le> g then (rank * (g div world), g div world) else (rank div (world div g), 1))"

definition splits :: "nat \<Rightarrow> nat \<Rightarrow> bool" where
  "splits g world \<longleftrightarrow> 0 < world \<and> 0 < g \<and> (world \<le> g \<and> g mod world = 0 \<or> g < world \<and> world mod g = 0)"

lemma heads_Ok:
  "heads sh (Some g) local = Ok sp \<longleftrightarrow> splits g (ps_world sh) \<and> ps_rank sh < ps_world sh \<and> 0 < local
     \<and> snd (shard_span g (ps_world sh) (ps_rank sh)) = local
     \<and> sp = (g, fst (shard_span g (ps_world sh) (ps_rank sh)), fst (shard_span g (ps_world sh) (ps_rank sh)) + local)"
  by (auto simp: heads_def splits_def shard_span_def Let_def)

lemma shard_span_bound:
  assumes "splits g world" and "rank < world"
  shows "fst (shard_span g world rank) + snd (shard_span g world rank) \<le> g" and "0 < snd (shard_span g world rank)"
proof -
  consider "world \<le> g" "g mod world = 0" | "g < world" "world mod g = 0" using assms(1) by (auto simp: splits_def)
  then have "fst (shard_span g world rank) + snd (shard_span g world rank) \<le> g \<and> 0 < snd (shard_span g world rank)"
  proof cases
    case 1
    have "(rank + 1) * (g div world) \<le> world * (g div world)" using assms(2) by (intro mult_right_mono) simp_all
    also have "\<dots> = g" using 1(2) by (simp add: mult_div_mod_eq dvd_eq_mod_eq_0)
    finally show ?thesis using 1 assms(1) by (simp add: shard_span_def splits_def div_greater_zero_iff)
  next
    case 2
    then have "world div g * g = world" by (simp add: dvd_eq_mod_eq_0)
    then have "rank div (world div g) < g" using assms(2) by (simp add: less_mult_imp_div_less mult.commute)
    then show ?thesis using 2 by (simp add: shard_span_def)
  qed
  then show "fst (shard_span g world rank) + snd (shard_span g world rank) \<le> g" "0 < snd (shard_span g world rank)"
    by simp_all
qed

lemma shard_spans_aligned: "spans_aligned (shard_span g world ` {..<world})"
proof -
  have "shard_span g world i = shard_span g world j \<or> apart (shard_span g world i) (shard_span g world j)" for i j
  proof (cases "world \<le> g")
    case True
    have "Suc i * n \<le> j * n \<or> Suc j * n \<le> i * n" if "i \<noteq> j" for n
      using that by (cases "i < j") (auto intro!: disjI1 disjI2 mult_right_mono simp del: mult_Suc)
    from this [of "g div world"] show ?thesis using True by (cases "i = j") (auto simp: shard_span_def apart_def)
  qed (auto simp: shard_span_def apart_def)
  then show ?thesis by (auto simp: spans_aligned_def)
qed

lemma shard_spans_cover:
  assumes "splits g world" and "h < g"
  shows "\<exists>rank<world. fst (shard_span g world rank) \<le> h \<and> h < fst (shard_span g world rank) + snd (shard_span g world rank)"
proof -
  consider "world \<le> g" "g mod world = 0" | "g < world" "world mod g = 0" using assms(1) by (auto simp: splits_def)
  then show ?thesis
  proof cases
    case 1
    let ?n = "g div world"
    have n: "0 < ?n" "world * ?n = g"
      using 1 assms(1) by (simp_all add: splits_def div_greater_zero_iff dvd_eq_mod_eq_0)
    have "h div ?n < world" using assms(2) n by (simp add: less_mult_imp_div_less)
    moreover have "h div ?n * ?n \<le> h" "h < h div ?n * ?n + ?n" using n(1) by (simp_all add: dividend_less_div_times add.commute)
    ultimately show ?thesis using 1 by (intro exI [of _ "h div ?n"]) (simp add: shard_span_def)
  next
    case 2
    let ?k = "world div g"
    have k: "0 < ?k" "g * ?k = world" using 2 assms(1) by (simp_all add: splits_def div_greater_zero_iff dvd_eq_mod_eq_0)
    have "h * ?k < g * ?k" using assms(2) k(1) by simp
    then have "h * ?k < world" using k(2) by simp
    then show ?thesis using 2 k(1) by (intro exI [of _ "h * ?k"]) (simp add: shard_span_def)
  qed
qed

end
