(* ===== verification/RotaryHistoryProps.thy ===== *)
theory RotaryHistoryProps
  imports RotaryHistory
begin

text \<open>
  The run-length encoding of rotary histories stands for one length per position, \<open>length_at\<close>;
  appending, rolling back and replaying a delta do to it what they say, and a forward pass from
  a valid history always commits.
\<close>

section \<open>Spans\<close>

definition look :: "(nat \<times> nat) list \<Rightarrow> nat \<Rightarrow> nat option" where
  "look spans pos = map_option (\<lambda>(_, len). if len = 0 then pos else len) (find (\<lambda>(stop, _). pos \<le> stop) spans)"

lemma look_simps [simp]:
  "look [] p = None"
  "look ((stop, len) # rest) p = (if p \<le> stop then Some (if len = 0 then p else len) else look rest p)"
  by (simp_all add: look_def)

lemma length_at_look: "rh_initial h \<noteq> 0 \<Longrightarrow> p \<noteq> 0 \<Longrightarrow> length_at h p = look (rh_spans h) p"
  by (simp add: length_at_def look_def)

lemma check_append:
  "check_spans i b (xs @ ys) = (case check_spans i b xs of Ok m \<Rightarrow> check_spans i m ys | Err e \<Rightarrow> Err e | Panic \<Rightarrow> Panic)"
  by (induction xs arbitrary: b) auto

lemma check_bounds:
  assumes "check_spans i b spans = Ok e"
  shows "b \<le> e" and "e = (if spans = [] then b else fst (last spans))" and "p > e \<Longrightarrow> look spans p = None"
    and "b < p \<Longrightarrow> p \<le> e \<Longrightarrow> \<exists>len. look spans p = Some len \<and> i \<le> len \<and> p \<le> len"
proof -
  have "b \<le> e \<and> e = (if spans = [] then b else fst (last spans)) \<and> (p > e \<longrightarrow> look spans p = None)
      \<and> (b < p \<and> p \<le> e \<longrightarrow> (\<exists>len. look spans p = Some len \<and> i \<le> len \<and> p \<le> len))"
    using assms
  proof (induction spans arbitrary: b)
    case (Cons x rest)
    obtain stop len where x: "x = (stop, len)" by (cases x)
    have c: "b < stop" "len \<noteq> 0 \<longrightarrow> i \<le> len \<and> stop \<le> len" "len = 0 \<longrightarrow> i \<le> b" "check_spans i stop rest = Ok e"
      using Cons.prems by (auto simp: x split: if_splits)
    from Cons.IH [OF c(4)] c(1-3) show ?case by (auto simp: x)
  qed simp
  then show "b \<le> e" "e = (if spans = [] then b else fst (last spans))" "p > e \<Longrightarrow> look spans p = None"
    "b < p \<Longrightarrow> p \<le> e \<Longrightarrow> \<exists>len. look spans p = Some len \<and> i \<le> len \<and> p \<le> len"
    by blast+
qed

lemma look_append:
  assumes "check_spans i b xs = Ok m" and "b < p"
  shows "look (xs @ ys) p = (if p \<le> m then look xs p else look ys p)"
  using assms
proof (induction xs arbitrary: b)
  case (Cons x rest)
  obtain stop len where x: "x = (stop, len)" by (cases x)
  have c: "check_spans i stop rest = Ok m" using Cons.prems(1) by (auto simp: x split: if_splits)
  show ?case
  proof (cases "p \<le> stop")
    case True
    then show ?thesis using check_bounds(1) [OF c] by (simp add: x)
  next
    case False
    then show ?thesis using Cons.IH [OF c] by (simp add: x)
  qed
qed simp

lemma push_span_at:
  assumes "check_spans i 0 spans = Ok e" and "i \<noteq> 0" and "e < stop" and "i \<le> len" and "stop \<le> len"
    and "stored = (if i \<le> e \<and> stop = e + 1 \<and> len = stop then 0 else len)"
  shows "check_spans i 0 (push_span spans stop stored) = Ok stop"
    and "0 < p \<Longrightarrow> p \<le> stop \<Longrightarrow> look (push_span spans stop stored) p = (if p \<le> e then look spans p else Some len)"
proof -
  have "check_spans i 0 (push_span spans stop stored) = Ok stop
      \<and> (0 < p \<and> p \<le> stop \<longrightarrow> look (push_span spans stop stored) p = (if p \<le> e then look spans p else Some len))"
  proof (cases "spans \<noteq> [] \<and> snd (last spans) = stored")
    case True
    then obtain xs where xs: "spans = xs @ [(e, stored)]"
      using check_bounds(2) [OF assms(1)] by (cases spans rule: rev_cases) auto
    obtain m where m: "check_spans i 0 xs = Ok m" "check_spans i m [(e, stored)] = Ok e"
      using assms(1) by (auto simp: xs check_append split: res.splits)
    have push: "push_span spans stop stored = xs @ [(stop, stored)]" using True by (simp add: push_span_def xs)
    have "look (xs @ [(stop, stored)]) p = (if p \<le> e then look spans p else Some len)" if "0 < p" "p \<le> stop"
      using look_append [OF m(1) that(1), of "[(stop, stored)]"] look_append [OF m(1) that(1), of "[(e, stored)]"]
        that assms(2-6) m(2) by (auto simp: xs split: if_splits)
    moreover have "check_spans i m [(stop, stored)] = Ok stop"
      using m(2) assms(2-6) by (auto split: if_splits)
    ultimately show ?thesis using m by (simp add: push check_append)
  next
    case False
    then have push: "push_span spans stop stored = spans @ [(stop, stored)]" by (auto simp: push_span_def)
    have "look (spans @ [(stop, stored)]) p = (if p \<le> e then look spans p else Some len)" if "0 < p" "p \<le> stop"
      using look_append [OF assms(1) that(1), of "[(stop, stored)]"] that assms(2-6) by (auto split: if_splits)
    moreover have "check_spans i e [(stop, stored)] = Ok stop" using assms(2-6) by auto
    ultimately show ?thesis using assms(1) by (simp add: push check_append)
  qed
  then show "check_spans i 0 (push_span spans stop stored) = Ok stop"
    "0 < p \<Longrightarrow> p \<le> stop \<Longrightarrow> look (push_span spans stop stored) p = (if p \<le> e then look spans p else Some len)"
    by blast+
qed

section \<open>Histories\<close>

text \<open>A dynamic history that stands for the first \<open>n\<close> positions.\<close>

definition covers :: "rotary_history \<Rightarrow> nat \<Rightarrow> nat \<Rightarrow> bool" where
  "covers h i n \<longleftrightarrow> i \<noteq> 0 \<and> rh_initial h = i \<and> validate_history h n = Ok ()"

lemma covers_iff: "covers h i n \<longleftrightarrow> i \<noteq> 0 \<and> rh_initial h = i \<and> check_spans i 0 (rh_spans h) = Ok n"
  by (auto simp: covers_def validate_history_def split: res.splits if_splits)

lemma covers_length:
  assumes "covers h i n" and "p \<le> n"
  shows "\<exists>len. length_at h p = Some len \<and> i \<le> len \<and> p \<le> len"
proof (cases "p = 0")
  case False
  then show ?thesis
    using check_bounds(4) [of i 0 "rh_spans h" n p] assms by (auto simp: covers_iff length_at_look)
qed (use assms in \<open>simp add: covers_iff length_at_def\<close>)

lemma append_length_covers:
  assumes "covers h i n \<or> rh_initial h = 0 \<and> rh_spans h = [] \<and> n = 0 \<and> i \<noteq> 0"
    and "n < stop" and "i \<le> len" and "stop \<le> len"
  obtains h' where "append_length h i stop len = Ok h'" "covers h' i stop"
    "\<forall>p. 0 < p \<and> p \<le> stop \<longrightarrow> length_at h' p = (if p \<le> n then length_at h p else Some len)"
proof -
  have i: "i \<noteq> 0" "rh_initial h = 0 \<or> rh_initial h = i" and c: "check_spans i 0 (rh_spans h) = Ok n"
    using assms(1) by (auto simp: covers_iff)
  have last: "last_end (rh_spans h) = n"
    using check_bounds(2) [OF c] by (cases "rh_spans h") (auto simp: last_end_def)
  let ?stored = "if i \<le> n \<and> stop = n + 1 \<and> len = stop then 0 else len"
  let ?h = "\<lparr>rh_initial = i, rh_spans = push_span (rh_spans h) stop ?stored\<rparr>"
  note push = push_span_at [OF c i(1) assms(2-4) refl]
  have "append_length h i stop len = Ok ?h"
    using i assms(2-4) by (auto simp: append_length_def last Let_def)
  moreover have "covers ?h i stop" using i push(1) by (simp add: covers_iff)
  moreover have "\<forall>p. 0 < p \<and> p \<le> stop \<longrightarrow> length_at ?h p = (if p \<le> n then length_at h p else Some len)"
    using push(2) i assms(1) by (auto simp: length_at_look covers_iff)
  ultimately show ?thesis by (rule that)
qed

lemma truncate_covers:
  assumes "covers h i n" and "k \<le> n"
  obtains h' where "truncate_history h k = Ok h'" "covers h' i k"
    "\<forall>p\<le>k. length_at h' p = length_at h p"
proof (cases "k = 0")
  case True
  then show ?thesis
    using assms that [of "h\<lparr>rh_spans := []\<rparr>"] by (auto simp: covers_iff truncate_history_def length_at_def)
next
  case False
  have i: "i \<noteq> 0" "rh_initial h = i" and c: "check_spans i 0 (rh_spans h) = Ok n"
    using assms(1) by (simp_all add: covers_iff)
  let ?pre = "takeWhile (\<lambda>(stop, _). stop < k) (rh_spans h)"
  have "look (rh_spans h) k \<noteq> None" using check_bounds(4) [OF c, of k] False assms(2) by auto
  then obtain x where "x \<in> set (rh_spans h)" "\<not> fst x < k" by (auto simp: look_def find_None_iff not_less)
  then have "?pre \<noteq> rh_spans h" by (metis (no_types, lifting) case_prod_unfold takeWhile_eq_all_conv)
  then obtain y post where y: "dropWhile (\<lambda>(stop, _). stop < k) (rh_spans h) = y # post"
    using takeWhile_dropWhile_id [of "\<lambda>(stop, _). stop < k" "rh_spans h"]
    by (cases "dropWhile (\<lambda>(stop, _). stop < k) (rh_spans h)") auto
  obtain stop len where sl: "y = (stop, len)" by (cases y)
  have split: "rh_spans h = ?pre @ (stop, len) # post"
    using takeWhile_dropWhile_id [of "\<lambda>(stop, _). stop < k" "rh_spans h"] y sl by simp
  have stop: "k \<le> stop"
    using dropWhile_eq_Cons_conv [THEN iffD1, OF y] sl by auto
  obtain m where m: "check_spans i 0 ?pre = Ok m" "check_spans i m ((stop, len) # post) = Ok n"
    using c check_append [of i 0 ?pre "(stop, len) # post"] split by (auto split: res.splits)
  have "m < k"
    using check_bounds(2) [OF m(1)] last_in_set [of ?pre] set_takeWhileD [of "last ?pre"] False
    by (fastforce split: if_splits)
  let ?h = "h\<lparr>rh_spans := ?pre @ [(k, len)]\<rparr>"
  have "truncate_history h k = Ok ?h"
  proof -
    have "length ?pre < length (rh_spans h)" by (subst (2) split) simp
    moreover have "take (length ?pre) (rh_spans h) = ?pre" by (subst (2) split) simp
    moreover have "rh_spans h ! length ?pre = (stop, len)" by (subst split) simp
    ultimately show ?thesis using i False by (simp add: truncate_history_def)
  qed
  moreover have "covers ?h i k"
    using i m \<open>m < k\<close> stop by (auto simp: covers_iff check_append split: if_splits)
  moreover have same: "length_at ?h p = length_at h p" if "p \<le> k" for p
  proof (cases "p = 0")
    case False
    then show ?thesis
      using look_append [OF m(1), of p "[(k, len)]"] look_append [OF m(1), of p "(stop, len) # post"] that stop i
      by (simp add: length_at_look flip: split)
  qed (simp add: length_at_def)
  ultimately show ?thesis using that by blast
qed

lemma lengths_at_Ok:
  "\<forall>p\<in>set ps. length_at h p = Some (f p) \<Longrightarrow> lengths_at h ps = Ok (map f ps)"
  by (induction ps) auto

section \<open>Rolling back and replaying\<close>

text \<open>The first \<open>k\<close> tokens of a delta appended one by one, as a rejected block is replayed.\<close>

fun replay_lengths :: "rotary_delta \<Rightarrow> nat \<Rightarrow> rotary_history \<Rightarrow> nat \<Rightarrow> (generation_error, rotary_history) res" where
  "replay_lengths d start h 0 = Ok h"
| "replay_lengths d start h (Suc k) =
     (case replay_lengths d start h k of
        Ok h' \<Rightarrow> append_delta_length d h' (start + k) k
      | Err e \<Rightarrow> Err e
      | Panic \<Rightarrow> Panic)"

lemma replay_lengths_covers:
  assumes "covers h i n" and "covers h0 i a" and "\<And>p. p \<le> a \<Longrightarrow> length_at h0 p = length_at h p"
    and "rd_initial d = i" and "length (rd_lengths d) = n - a"
    and "\<And>k. k < n - a \<Longrightarrow> length_at h (a + k + 1) = Some (rd_lengths d ! k)" and "a + k \<le> n"
  shows "\<exists>h1. replay_lengths d a h0 k = Ok h1 \<and> covers h1 i (a + k) \<and> (\<forall>p\<le>a + k. length_at h1 p = length_at h p)"
  using assms(7)
proof (induction k)
  case (Suc k)
  then obtain h1 where h1: "replay_lengths d a h0 k = Ok h1" "covers h1 i (a + k)"
    "\<forall>p\<le>a + k. length_at h1 p = length_at h p" by auto
  have k: "k < n - a" using Suc.prems by simp
  note len = covers_length [OF assms(1), of "a + k + 1"] assms(6) [OF k]
  obtain h2 where h2: "append_length h1 i (a + k + 1) (rd_lengths d ! k) = Ok h2" "covers h2 i (a + k + 1)"
    "\<forall>p. 0 < p \<and> p \<le> a + k + 1 \<longrightarrow> length_at h2 p
       = (if p \<le> a + k then length_at h1 p else Some (rd_lengths d ! k))"
    by (rule append_length_covers [of h1 i "a + k" "a + k + 1" "rd_lengths d ! k"])
      (use h1(2) len Suc.prems in auto)
  have "length_at h2 p = length_at h p" if "p \<le> a + Suc k" for p
  proof (cases "p = 0")
    case True
    then show ?thesis using h2(2) assms(1) by (simp add: covers_iff length_at_def)
  next
    case False
    then have "p \<le> a + k \<or> p = a + k + 1" using that by linarith
    then show ?thesis using h2(3) h1(3) len(2) False by auto
  qed
  moreover have "append_delta_length d h1 (a + k) k = Ok h2"
    using h1(2) h2(1) k assms(4,5) by (simp add: append_delta_length_def covers_def)
  ultimately show ?case using h1(1) h2(2) by auto
qed (use assms(2,3) in simp)

text \<open>C33: A rotary history can be rolled back and replayed: from a valid dynamic history of \<open>n\<close>
  positions, the delta after position \<open>a\<close> can be taken, the history truncated to \<open>a\<close> and the
  first tokens of the delta appended again one by one, up to any position \<open>b\<close>; the history
  that results is valid at \<open>b\<close> and gives every position up to \<open>b\<close> the length it had before.\<close>

theorem rotary_rollback_replays:
  assumes "rh_initial h \<noteq> 0" and "validate_history h n = Ok ()" and "a \<le> b" and "b \<le> n"
  shows "\<exists>d h0 h1. history_delta h a n = Ok d \<and> truncate_history h a = Ok h0 \<and> replay_lengths d a h0 (b - a) = Ok h1
    \<and> validate_history h1 b = Ok () \<and> (\<forall>p\<le>b. length_at h1 p = length_at h p)"
proof -
  let ?i = "rh_initial h"
  have c: "covers h ?i n" using assms(1,2) by (simp add: covers_def)
  have some: "length_at h p = Some (the (length_at h p))" if "p \<le> n" for p
    using covers_length [OF c that] by auto
  let ?d = "\<lparr>rd_initial = ?i, rd_lengths = map (\<lambda>p. the (length_at h p)) [a + 1..<n + 1]\<rparr>"
  have "lengths_at h [a + 1..<n + 1] = Ok (map (\<lambda>p. the (length_at h p)) [a + 1..<n + 1])"
    by (rule lengths_at_Ok) (use some in auto)
  then have d: "history_delta h a n = Ok ?d" by (simp add: history_delta_def)
  obtain h0 where h0: "truncate_history h a = Ok h0" "covers h0 ?i a"
    "\<forall>p\<le>a. length_at h0 p = length_at h p"
    using truncate_covers [OF c, of a] assms(3,4) by (metis order.trans)
  have "length_at h (a + k + 1) = Some (rd_lengths ?d ! k)" if "k < n - a" for k
    using some [of "a + k + 1"] that by (simp add: nth_upt del: upt_Suc)
  from replay_lengths_covers [OF c h0(2), of ?d, OF h0(3) [rule_format] _ _ this, of "b - a"]
  obtain h1 where "replay_lengths ?d a h0 (b - a) = Ok h1" "covers h1 ?i b" "\<forall>p\<le>b. length_at h1 p = length_at h p"
    using assms(3,4) by (auto simp del: upt_Suc)
  then show ?thesis using d h0(1) by (auto simp: covers_def)
qed

lemma rotary_rollback_replays_witness:
  "\<exists>d h0 h1. history_delta \<lparr>rh_initial = 4, rh_spans = [(6, 6), (8, 0)]\<rparr> 5 8 = Ok d
    \<and> truncate_history \<lparr>rh_initial = 4, rh_spans = [(6, 6), (8, 0)]\<rparr> 5 = Ok h0 \<and> replay_lengths d 5 h0 2 = Ok h1
    \<and> length_at h1 6 = Some 6 \<and> length_at h1 7 = Some 7"
proof -
  have "validate_history \<lparr>rh_initial = 4, rh_spans = [(6, 6), (8, 0)]\<rparr> 8 = Ok ()"
    by (simp add: validate_history_def)
  from rotary_rollback_replays [OF _ this, of 5 7] obtain d h0 h1 where
    h: "history_delta \<lparr>rh_initial = 4, rh_spans = [(6, 6), (8, 0)]\<rparr> 5 8 = Ok d"
      "truncate_history \<lparr>rh_initial = 4, rh_spans = [(6, 6), (8, 0)]\<rparr> 5 = Ok h0" "replay_lengths d 5 h0 2 = Ok h1"
    and at: "\<forall>p\<le>7. length_at h1 p = length_at \<lparr>rh_initial = 4, rh_spans = [(6, 6), (8, 0)]\<rparr> p"
    by auto
  have "length_at h1 6 = Some 6" "length_at h1 7 = Some 7"
    using at [rule_format, of 6] at [rule_format, of 7] by (simp_all add: length_at_def)
  with h show ?thesis by blast
qed

section \<open>Forward passes\<close>

text \<open>The same passes with a state that is never interrupted.\<close>

fun straight ::
  "(('x, 'v) rope_parameters \<Rightarrow> nat \<Rightarrow> 'v) \<Rightarrow> ('x, 'v) rotary_state \<Rightarrow> nat list \<Rightarrow> 'v list" where
  "straight stretched st [] = []"
| "straight stretched st (n # ns) =
     (case frequencies stretched n st of (fs, st') \<Rightarrow> fs # straight stretched st' ns)"

fun continued ::
  "(('x, 'v) rope_parameters \<Rightarrow> nat \<Rightarrow> 'v) \<Rightarrow> ('x, 'v) rotary_state \<Rightarrow> rotary_history \<Rightarrow> nat \<Rightarrow> nat list
   \<Rightarrow> (generation_error, ('v \<times> 'v) list \<times> rotary_history) res" where
  "continued stretched template h pos [] = Ok ([], h)"
| "continued stretched template h pos (n # ns) =
     (case rotary_forward stretched template h pos n of
        Ok (fq, fk, h') \<Rightarrow>
          (case continued stretched template h' n ns of
             Ok (fs, h'') \<Rightarrow> Ok ((fq, fk) # fs, h'')
           | Err e \<Rightarrow> Err e
           | Panic \<Rightarrow> Panic)
      | Err e \<Rightarrow> Err e
      | Panic \<Rightarrow> Panic)"

text \<open>The history of a cache at a position belongs to the state that is running.\<close>

definition in_step :: "('x, 'v) rotary_state \<Rightarrow> rotary_history \<Rightarrow> nat \<Rightarrow> bool" where
  "in_step st h pos \<longleftrightarrow>
     (case scaling (rs_parameters st) of
        Dynamic _ original \<Rightarrow> original \<noteq> 0 \<and> original \<le> cached_length st
          \<and> (pos = 0 \<and> h = empty_history \<and> cached_length st = original
             \<or> covers h original pos \<and> length_at h pos = Some (cached_length st))
      | _ \<Rightarrow> h = empty_history \<and> cached_length st = 0)"

lemma frequencies_parameters [simp]: "rs_parameters (snd (frequencies stretched n st)) = rs_parameters st"
  by (simp add: frequencies_def Let_def split: rope_scaling.split)

lemma in_step_for_cache:
  assumes "in_step st h pos" and "rs_parameters template = rs_parameters st"
  shows "for_cache template h pos = Ok st"
proof (cases "scaling (rs_parameters st)")
  case (Dynamic f original)
  then consider "pos = 0" "h = empty_history" "cached_length st = original" "original \<noteq> 0"
    | "covers h original pos" "length_at h pos = Some (cached_length st)" "original \<le> cached_length st" "original \<noteq> 0"
    using assms(1) by (auto simp: in_step_def)
  then show ?thesis
    using Dynamic assms(2)
    by cases (auto simp: for_cache_def validate_history_def empty_history_def initial_state_def state_at_def
        initial_cached_length_def covers_def Let_def)
qed (use assms in \<open>auto simp: in_step_def for_cache_def validate_history_def empty_history_def initial_state_def
    state_at_def initial_cached_length_def Let_def\<close>)

lemma in_step_forward:
  assumes "in_step st h pos" and "rs_parameters template = rs_parameters st" and "pos < n"
  obtains h' where "rotary_forward stretched template h pos n
      = Ok (fst (frequencies stretched n st), fst (frequencies stretched n st), h')"
    "in_step (snd (frequencies stretched n st)) h' n"
proof (cases "scaling (rs_parameters st)")
  case (Dynamic f original)
  let ?st = "snd (frequencies stretched n st)"
  have o: "original \<noteq> 0" "original \<le> cached_length st" using assms(1) Dynamic by (simp_all add: in_step_def)
  have len: "original \<le> cached_length ?st" "n \<le> cached_length ?st"
    using o(2) Dynamic by (auto simp: frequencies_def Let_def)
  have idem: "frequencies stretched n ?st = (fst (frequencies stretched n st), ?st)"
    using Dynamic o by (auto simp: frequencies_def Let_def)
  have c: "covers h original pos \<or> rh_initial h = 0 \<and> rh_spans h = [] \<and> pos = 0 \<and> original \<noteq> 0"
    using assms(1) Dynamic o by (auto simp: in_step_def empty_history_def)
  obtain h' where h': "append_length h original n (cached_length ?st) = Ok h'" "covers h' original n"
    "\<forall>p. 0 < p \<and> p \<le> n \<longrightarrow> length_at h' p = (if p \<le> pos then length_at h p else Some (cached_length ?st))"
    by (rule append_length_covers [OF c assms(3) len])
  have "rotary_forward stretched template h pos n
      = Ok (fst (frequencies stretched n st), fst (frequencies stretched n st), h')"
    using in_step_for_cache [OF assms(1,2)] idem h'(1) len(1) o(1) Dynamic
    by (simp add: rotary_forward_def commit_history_def initial_cached_length_def case_prod_unfold)
  moreover have "in_step ?st h' n" using h'(2,3) assms(3) len o Dynamic by (simp add: in_step_def)
  ultimately show ?thesis by (rule that)
next
  case Static
  then show ?thesis
    using that [of h] in_step_for_cache [OF assms(1,2)] assms(1)
    by (simp add: rotary_forward_def in_step_def frequencies_def Let_def)
next
  case (LongScaling original long)
  then show ?thesis
    using that [of h] in_step_for_cache [OF assms(1,2)] assms(1)
    by (simp add: rotary_forward_def in_step_def frequencies_def Let_def)
qed

text \<open>C32: Continuing a cache from its rotary history is the same as never having stopped: for any
  scaling with a nonzero original length and any increasing ends, the passes that rebuild the
  state from the history before each of them all succeed and use, for queries and keys, the
  frequencies of one state running through; the last history is valid for the position reached.\<close>

theorem rotary_continues:
  assumes "\<forall>f. scaling p \<noteq> Dynamic f 0" and "rs_parameters template = p" and "initial_state p = (Ok st :: (generation_error, _) res)"
    and "sorted_wrt (<) (0 # ends)"
  shows "\<exists>h. continued stretched template empty_history 0 ends
      = Ok (map (\<lambda>f. (f, f)) (straight stretched st ends), h)
    \<and> validate_history h (last (0 # ends)) = Ok ()"
proof -
  have start: "in_step st empty_history 0" "rs_parameters st = p"
    using assms(1,3)
    by (auto simp: in_step_def initial_state_def state_at_def initial_cached_length_def
        split: rope_scaling.splits if_splits option.splits)
  have valid: "in_step st h pos \<Longrightarrow> validate_history h pos = Ok ()" for st :: "('x, 'v) rotary_state" and h pos
    by (auto simp: in_step_def covers_def validate_history_def empty_history_def split: rope_scaling.splits)
  have "\<exists>h'. continued stretched template h pos ends = Ok (map (\<lambda>f. (f, f)) (straight stretched st ends), h')
      \<and> validate_history h' (last (pos # ends)) = Ok ()"
    if "in_step st h pos" "rs_parameters st = p" "sorted_wrt (<) (pos # ends)" for st h pos
    using that
  proof (induction ends arbitrary: st h pos)
    case (Cons n ns)
    obtain h1 where h1: "rotary_forward stretched template h pos n
        = Ok (fst (frequencies stretched n st), fst (frequencies stretched n st), h1)"
      "in_step (snd (frequencies stretched n st)) h1 n"
      by (rule in_step_forward [OF Cons.prems(1), of template n stretched]) (use Cons.prems assms(2) in auto)
    from Cons.IH [OF h1(2)] Cons.prems show ?case
      using h1(1) by (auto simp: case_prod_unfold)
  qed (use valid in simp)
  from this [OF start assms(4)] show ?thesis .
qed

lemma rotary_continues_witness:
  "\<exists>h. continued (\<lambda>p n. n) \<lparr>rs_parameters = \<lparr>inverse_frequencies = 0, scaling = Dynamic () 4\<rparr>, cached_length = 4\<rparr>
      empty_history 0 [3, 6, 7] = Ok ([(0, 0), (6, 6), (7, 7)], h)
    \<and> validate_history h 7 = Ok ()"
  using rotary_continues [of "\<lparr>inverse_frequencies = 0, scaling = Dynamic () 4\<rparr>"
      "\<lparr>rs_parameters = \<lparr>inverse_frequencies = 0, scaling = Dynamic () 4\<rparr>, cached_length = 4\<rparr>"
      "\<lparr>rs_parameters = \<lparr>inverse_frequencies = 0, scaling = Dynamic () 4\<rparr>, cached_length = 4\<rparr>"
      "[3, 6, 7]" "\<lambda>p n. n"]
  by (simp add: initial_state_def state_at_def initial_cached_length_def frequencies_def)

end
