(* ===== verification/DensePrefixInv.thy ===== *)
theory DensePrefixInv
  imports DensePrefix PrefixTransferInv RotaryHistoryProps
begin

text \<open>
  Names and rotary metadata of transferred prefixes come back as they were exported, and the
  export of a rank shows the heads the rank owns.
\<close>

section \<open>Names\<close>

definition undec :: "string \<Rightarrow> nat" where
  "undec s = foldl (\<lambda>a ch. a * 10 + (of_char ch - 48)) 0 s"

lemma undec_dec: "undec (dec n) = n"
proof (induction n rule: dec.induct)
  case (1 n)
  then show ?case by (subst dec.simps) (simp add: undec_def)
qed

lemma dec_inj [simp]: "dec i = dec j \<longleftrightarrow> i = j"
  using undec_dec by metis

lemma dec_digits: "ch \<in> set (dec n) \<Longrightarrow> (of_char ch :: nat) \<in> {48..57}"
proof (induction n arbitrary: ch rule: dec.induct)
  case (1 n)
  then show ?case by (subst (asm) (2) dec.simps) (auto split: if_splits)
qed

lemma dec_no_slash: "CHR ''/'' \<notin> set (dec n)"
  using dec_digits [of "CHR ''/''" n] by auto

lemma slash_cancel:
  assumes "xs @ CHR ''/'' # ys = xs' @ CHR ''/'' # ys'" and "CHR ''/'' \<notin> set xs" and "CHR ''/'' \<notin> set xs'"
  shows "xs = xs' \<and> ys = ys'"
proof -
  have t: "takeWhile (\<lambda>ch. ch \<noteq> CHR ''/'') (zs @ CHR ''/'' # us) = zs" if "CHR ''/'' \<notin> set zs" for zs us
    using that by (induction zs) auto
  have "xs = xs'" using assms t by metis
  then show ?thesis using assms(1) by simp
qed

lemma layer_names [simp]:
  "key_name i = key_name j \<longleftrightarrow> i = j" "value_name i = value_name j \<longleftrightarrow> i = j"
  "key_name i \<noteq> value_name j" "value_name j \<noteq> key_name i" "key_name i \<noteq> []" "value_name i \<noteq> []"
proof -
  show "key_name i = key_name j \<longleftrightarrow> i = j" "value_name i = value_name j \<longleftrightarrow> i = j"
    by (auto simp: key_name_def value_name_def)
  have "key_name i \<noteq> value_name j"
    using slash_cancel [of "dec i" "''key''" "dec j" "''value''"] dec_no_slash
    by (auto simp: key_name_def value_name_def)
  then show "key_name i \<noteq> value_name j" "value_name j \<noteq> key_name i" by auto
qed (simp_all add: key_name_def value_name_def)

lemma rotary_name_inj [simp]: "rotary_name l s = rotary_name l' s' \<longleftrightarrow> l = l' \<and> s = s'"
  using slash_cancel [of "dec l" s "dec l'" s'] dec_no_slash by (auto simp: rotary_name_def)

lemma span_names [simp]:
  "dec i @ ''/end'' = dec j @ ''/end'' \<longleftrightarrow> i = j" "dec i @ ''/length'' = dec j @ ''/length'' \<longleftrightarrow> i = j"
  "dec i @ ''/end'' \<noteq> dec j @ ''/length''" "dec j @ ''/length'' \<noteq> dec i @ ''/end''"
  "''initial'' \<noteq> dec i @ ''/end''" "''initial'' \<noteq> dec i @ ''/length''"
  "''spans'' \<noteq> dec i @ ''/end''" "''spans'' \<noteq> dec i @ ''/length''"
  "dec i @ ''/end'' \<noteq> ''initial''" "dec i @ ''/length'' \<noteq> ''initial''"
  "dec i @ ''/end'' \<noteq> ''spans''" "dec i @ ''/length'' \<noteq> ''spans''"
proof -
  have e: "dec i @ ''/end'' \<noteq> dec j @ ''/length''"
    using slash_cancel [of "dec i" "''end''" "dec j" "''length''"] dec_no_slash by auto
  then show "dec i @ ''/end'' \<noteq> dec j @ ''/length''" "dec j @ ''/length'' \<noteq> dec i @ ''/end''" by auto
  have ne: "xs \<noteq> ys \<and> ys \<noteq> xs" if "CHR ''/'' \<in> set xs" "CHR ''/'' \<notin> set ys" for xs ys :: string
    using that by auto
  have slash: "CHR ''/'' \<in> set (dec i @ ''/end'')" "CHR ''/'' \<in> set (dec i @ ''/length'')" by simp_all
  have plain: "CHR ''/'' \<notin> set ''initial''" "CHR ''/'' \<notin> set ''spans''" by simp_all
  show "''initial'' \<noteq> dec i @ ''/end''" "dec i @ ''/end'' \<noteq> ''initial''"
    using ne [OF slash(1) plain(1)] by blast+
  show "''initial'' \<noteq> dec i @ ''/length''" "dec i @ ''/length'' \<noteq> ''initial''"
    using ne [OF slash(2) plain(1)] by blast+
  show "''spans'' \<noteq> dec i @ ''/end''" "dec i @ ''/end'' \<noteq> ''spans''"
    using ne [OF slash(1) plain(2)] by blast+
  show "''spans'' \<noteq> dec i @ ''/length''" "dec i @ ''/length'' \<noteq> ''spans''"
    using ne [OF slash(2) plain(2)] by blast+
qed simp_all

section \<open>Rotary metadata\<close>

lemma for_op_append: "for_op f (xs @ ys) = bind_op (for_op f xs) (\<lambda>_. for_op f ys)"
proof
  fix s show "for_op f (xs @ ys) s = bind_op (for_op f xs) (\<lambda>_. for_op f ys) s"
    by (induction xs arbitrary: s) (auto simp: bind_op_def split: prod.splits res.splits)
qed

lemma for_op_concat: "for_op f (concat xss) s = for_op (for_op f) xss s"
  by (induction xss arbitrary: s) (auto simp: for_op_append bind_op_def split: prod.splits res.splits)

lemma for_op_map: "for_op f (map g xs) s = for_op (f \<circ> g) xs s"
  by (induction xs arbitrary: s) (auto simp: bind_op_def split: prod.splits res.splits)

lemma for_op_cong: "(\<And>x s. x \<in> set xs \<Longrightarrow> f x s = g x s) \<Longrightarrow> for_op f xs s = for_op g xs s"
  by (induction xs arbitrary: s) (auto simp: bind_op_def split: prod.splits res.splits)

definition span_scalars :: "nat \<Rightarrow> nat \<times> nat \<times> nat \<Rightarrow> (string \<times> nat) list" where
  "span_scalars layer is =
     (case is of (i, stop, len) \<Rightarrow>
        [(rotary_name layer (dec i @ ''/end''), stop), (rotary_name layer (dec i @ ''/length''), len)])"

definition history_scalars :: "nat \<times> rotary_history \<Rightarrow> (string \<times> nat) list" where
  "history_scalars lh =
     (case lh of (layer, h) \<Rightarrow>
        [(rotary_name layer ''initial'', rh_initial h), (rotary_name layer ''spans'', length (rh_spans h))]
        @ concat (map (span_scalars layer) (enumerate 0 (rh_spans h))))"

definition all_scalars :: "rotary_history list \<Rightarrow> (string \<times> nat) list" where
  "all_scalars hs = concat (map history_scalars (enumerate 0 hs))"

abbreviation put_scalar :: "string \<times> nat \<Rightarrow> ('t, 'd, unit) prefix_op" where
  "put_scalar \<equiv> \<lambda>(name, v). set_scalar name v"

lemma export_history_scalars: "export_history h layer s = for_op put_scalar (history_scalars (layer, h)) s"
proof -
  have spans: "for_op put_scalar (concat (map (span_scalars layer) xs)) s
      = for_op (\<lambda>(i, (stop, len)).
         bind_op (set_scalar (rotary_name layer (dec i @ ''/end'')) stop) (\<lambda>_.
           set_scalar (rotary_name layer (dec i @ ''/length'')) len)) xs s" for xs and s :: "('t, 'd) prefix_tensors"
    unfolding for_op_concat for_op_map comp_def
    by (rule for_op_cong) (auto simp: span_scalars_def bind_op_def split: prod.splits res.splits)
  show ?thesis
    by (simp only: export_history_def history_scalars_def prod.case for_op_append)
      (auto simp: spans bind_op_def split: prod.splits res.splits)
qed

lemma distinct_history_scalars: "distinct (keys (history_scalars (layer, h)))"
proof -
  have "distinct (keys (concat (map (span_scalars layer) (enumerate k xs))))
      \<and> (\<forall>name\<in>set (keys (concat (map (span_scalars layer) (enumerate k xs)))). \<exists>i\<ge>k.
           name = rotary_name layer (dec i @ ''/end'') \<or> name = rotary_name layer (dec i @ ''/length''))" for k xs
  proof (induction xs arbitrary: k)
    case (Cons x xs)
    obtain stop len where x: "x = (stop, len)" by (cases x)
    from Cons.IH [of "Suc k"] show ?case
      by (fastforce simp: x span_scalars_def)
  qed simp
  from this [of 0 "rh_spans h"] show ?thesis by (fastforce simp: history_scalars_def)
qed

lemma history_scalars_layer:
  "name \<in> set (keys (history_scalars (layer, h))) \<Longrightarrow> \<exists>part. name = rotary_name layer part"
  by (auto simp: history_scalars_def span_scalars_def)

lemma distinct_all_scalars: "distinct (keys (all_scalars hs))"
proof -
  have "distinct (keys (concat (map history_scalars (enumerate k hs))))
      \<and> (\<forall>name\<in>set (keys (concat (map history_scalars (enumerate k hs)))). \<exists>l\<ge>k. \<exists>part. name = rotary_name l part)" for k
  proof (induction hs arbitrary: k)
    case (Cons h hs)
    from Cons.IH [of "Suc k"] show ?case
      using distinct_history_scalars [of k h] history_scalars_layer [of _ k h]
      by (fastforce simp: image_iff)
  qed simp
  from this [of 0] show ?thesis by (simp add: all_scalars_def)
qed

lemma all_scalars_named: "(name, v) \<in> set (all_scalars hs) \<Longrightarrow> name \<noteq> []"
  by (auto simp: all_scalars_def history_scalars_def span_scalars_def rotary_name_def)

lemma length_all_scalars: "length (all_scalars hs) = sum_list (map (\<lambda>h. 2 + 2 * length (rh_spans h)) hs)"
proof -
  have spans: "length (concat (map (span_scalars layer) (enumerate k xs))) = 2 * length xs" for layer k xs
    by (induction xs arbitrary: k) (auto simp: span_scalars_def)
  have "length (concat (map history_scalars (enumerate k hs))) = sum_list (map (\<lambda>h. 2 + 2 * length (rh_spans h)) hs)" for k
    by (induction hs arbitrary: k) (simp_all add: history_scalars_def spans)
  then show ?thesis by (simp add: all_scalars_def)
qed

text \<open>Setting fresh scalars.\<close>

fun with_scalars :: "(string \<times> nat) list \<Rightarrow> ('t, 'd) prefix_tensors \<Rightarrow> ('t, 'd) prefix_tensors" where
  "with_scalars sc (PrefixTensors pos schema ts cs _) = PrefixTensors pos schema ts cs sc"

lemma with_scalars_simps [simp]:
  "pt_position (with_scalars sc p) = pt_position p" "pt_schema (with_scalars sc p) = pt_schema p"
  "pt_tensors (with_scalars sc p) = pt_tensors p" "pt_children (with_scalars sc p) = pt_children p"
  "pt_scalars (with_scalars sc p) = sc" "with_scalars sc (with_scalars sc' p) = with_scalars sc p"
  "with_scalars (pt_scalars p) p = p"
  by (cases p; simp)+

definition put_all :: "(string \<times> nat) list \<Rightarrow> (string \<times> nat) list \<Rightarrow> (string \<times> nat) list" where
  "put_all xs sc = foldl (\<lambda>sc (name, v). put name v sc) sc xs"

lemma set_scalars:
  assumes "distinct (keys xs)" and "\<forall>(name, v)\<in>set xs. name \<noteq> []" and "ordered (pt_scalars p)"
    and "set (keys xs) \<inter> set (keys (pt_scalars p)) = {}"
  shows "for_op put_scalar xs p = (Ok (), with_scalars (put_all xs (pt_scalars p)) p)
    \<and> ordered (put_all xs (pt_scalars p))
    \<and> (\<forall>name. map_of (put_all xs (pt_scalars p)) name
        = (case map_of xs name of Some v \<Rightarrow> Some v | None \<Rightarrow> map_of (pt_scalars p) name))
    \<and> length (put_all xs (pt_scalars p)) = length xs + length (pt_scalars p)"
  using assms
proof (induction xs arbitrary: p)
  case (Cons x xs)
  obtain name v where x: "x = (name, v)" by (cases x)
  let ?p = "with_scalars (put name v (pt_scalars p)) p"
  have fresh: "map_of (pt_scalars p) name = None" using Cons.prems(4) by (simp add: x map_of_eq_None_iff)
  have step: "set_scalar name v p = (Ok (), ?p)" using fresh Cons.prems(2) by (cases p) (simp add: x)
  have len: "length (put name v sc) = Suc (length sc)" if "name \<notin> set (keys sc)" for sc
    using that by (induction name v sc rule: put.induct) auto
  have "for_op put_scalar xs ?p = (Ok (), with_scalars (put_all xs (pt_scalars ?p)) ?p)
    \<and> ordered (put_all xs (pt_scalars ?p))
    \<and> (\<forall>name. map_of (put_all xs (pt_scalars ?p)) name
        = (case map_of xs name of Some v \<Rightarrow> Some v | None \<Rightarrow> map_of (pt_scalars ?p) name))
    \<and> length (put_all xs (pt_scalars ?p)) = length xs + length (pt_scalars ?p)"
  proof (rule Cons.IH)
    show "set (keys xs) \<inter> set (keys (pt_scalars ?p)) = {}"
      using Cons.prems(1,4) keys_put [of name v "pt_scalars p"] by (simp add: x disjoint_iff)
  qed (use Cons.prems ordered_put in \<open>auto simp: x\<close>)
  moreover have "map_of xs name = None" using Cons.prems(1) by (simp add: x map_of_eq_None_iff)
  moreover have "put_all (x # xs) (pt_scalars p) = put_all xs (put name v (pt_scalars p))"
    by (simp add: put_all_def x)
  ultimately show ?case
    using step len [of "pt_scalars p"] Cons.prems(4)
    by (auto simp: x map_of_put [OF Cons.prems(3)] split: option.split)
qed (simp add: put_all_def)

lemma put_all_scalars:
  fixes p :: "('t, 'd) prefix_tensors"
  assumes "pt_scalars p = []"
  shows "for_op put_scalar (all_scalars hs) p = (Ok (), with_scalars (put_all (all_scalars hs) []) p)"
    and "map_of (put_all (all_scalars hs) []) name = map_of (all_scalars hs) name"
    and "length (put_all (all_scalars hs) []) = length (all_scalars hs)"
    and "ordered (put_all (all_scalars hs) [])"
proof -
  have named: "\<forall>(name, v)\<in>set (all_scalars hs). name \<noteq> []" using all_scalars_named by blast
  have none: "ordered (pt_scalars p)" "set (keys (all_scalars hs)) \<inter> set (keys (pt_scalars p)) = {}"
    by (simp_all add: assms ordered_def)
  note all = set_scalars [OF distinct_all_scalars named none, unfolded assms]
  show "for_op put_scalar (all_scalars hs) p = (Ok (), with_scalars (put_all (all_scalars hs) []) p)"
    "length (put_all (all_scalars hs) []) = length (all_scalars hs)" "ordered (put_all (all_scalars hs) [])"
    using all by simp_all
  show "map_of (put_all (all_scalars hs) []) name = map_of (all_scalars hs) name"
    using all by (simp split: option.split)
qed

lemma try_map_Ok: "(\<And>x. x \<in> set xs \<Longrightarrow> f x = Ok (g x)) \<Longrightarrow> try_map f xs = Ok (map g xs)"
  by (induction xs) (simp_all add: bind_res_def)

lemma check_spans_length: "check_spans i b xs = Ok e \<Longrightarrow> b + length xs \<le> e"
  by (induction xs arbitrary: b) (fastforce split: if_splits)+

lemma import_exported:
  assumes "\<forall>name. map_of (pt_scalars p) name = map_of (all_scalars hs) name"
    and "length (pt_scalars p) = length (all_scalars hs)" and "l < length hs"
    and "validate_history (hs ! l) (pt_position p) = Ok ()"
  shows "import_history p l = Ok (hs ! l, 2 + 2 * length (rh_spans (hs ! l)))"
proof -
  let ?h = "hs ! l" and ?n = "length (rh_spans (hs ! l))"
  have found: "map_of (pt_scalars p) name = Some v" if "(name, v) \<in> set (history_scalars (l, ?h))" for name v
  proof -
    have "(l, ?h) \<in> set (enumerate 0 hs)" using assms(3) by (auto simp: in_set_enumerate_eq)
    then have "(name, v) \<in> set (all_scalars hs)" using that by (auto simp: all_scalars_def)
    then show ?thesis using assms(1) distinct_all_scalars by simp
  qed
  have span: "(rotary_name l (dec i @ ''/end''), fst (rh_spans ?h ! i)) \<in> set (history_scalars (l, ?h))"
    "(rotary_name l (dec i @ ''/length''), snd (rh_spans ?h ! i)) \<in> set (history_scalars (l, ?h))" if "i < ?n" for i
  proof -
    have "(i, rh_spans ?h ! i) \<in> set (enumerate 0 (rh_spans ?h))" using that by (auto simp: in_set_enumerate_eq)
    then have sub: "set (span_scalars l (i, rh_spans ?h ! i)) \<subseteq> set (history_scalars (l, ?h))"
      unfolding history_scalars_def prod.case set_append set_concat set_map by blast
    show "(rotary_name l (dec i @ ''/end''), fst (rh_spans ?h ! i)) \<in> set (history_scalars (l, ?h))"
      "(rotary_name l (dec i @ ''/length''), snd (rh_spans ?h ! i)) \<in> set (history_scalars (l, ?h))"
      by (rule subsetD [OF sub], simp add: span_scalars_def split_beta)+
  qed
  have front: "(rotary_name l ''initial'', rh_initial ?h) \<in> set (history_scalars (l, ?h))"
    "(rotary_name l ''spans'', ?n) \<in> set (history_scalars (l, ?h))"
    by (simp_all add: history_scalars_def)
  have initial: "rotary_scalar p l ''initial'' = Ok (rh_initial ?h)" "rotary_scalar p l ''spans'' = Ok ?n"
    by (simp_all add: rotary_scalar_def found [OF front(1)] found [OF front(2)])
  have "?n \<le> pt_position p"
    using assms(4) check_spans_length [of "rh_initial ?h" 0 "rh_spans ?h"]
    by (cases "rh_initial ?h = 0") (auto simp: validate_history_def split: res.splits if_splits)
  moreover have "?n \<le> length (pt_scalars p) div 2"
  proof -
    have "2 + 2 * ?n \<le> sum_list (map (\<lambda>h. 2 + 2 * length (rh_spans h)) hs)"
      using assms(3) by (intro member_le_sum_list) auto
    then show ?thesis using assms(2) by (simp add: length_all_scalars)
  qed
  moreover have "try_map (\<lambda>i.
      bind_res (rotary_scalar p l (dec i @ ''/end'')) (\<lambda>stop.
      bind_res (rotary_scalar p l (dec i @ ''/length'')) (\<lambda>len. Ok (stop, len)))) [0..<?n]
      = Ok (map (\<lambda>i. rh_spans ?h ! i) [0..<?n])"
    by (rule try_map_Ok) (simp add: rotary_scalar_def found [OF span(1)] found [OF span(2)] bind_res_def)
  moreover have "validate_history \<lparr>rh_initial = rh_initial ?h, rh_spans = rh_spans ?h\<rparr> (pt_position p) = Ok ()"
    using assms(4) by (cases "?h") simp
  ultimately show ?thesis
    using initial assms(4) by (simp add: import_history_def bind_res_def map_nth Let_def)
qed


section \<open>The export of a rank\<close>

text \<open>The layers of a prefix as contents, and the names they are exported under.\<close>

definition layer_contents :: "nat \<Rightarrow> (('d, 'e) content \<times> ('d, 'e) content) list \<Rightarrow> (string \<times> ('d, 'e) content) list" where
  "layer_contents k cs = concat (map (\<lambda>(i, (key, val)). [(key_name i, key), (value_name i, val)]) (enumerate k cs))"

abbreviation contents_of :: "(('d, 'e) content \<times> ('d, 'e) content) list \<Rightarrow> string \<Rightarrow> ('d, 'e) content option" where
  "contents_of cs \<equiv> map_of (layer_contents 0 cs)"

lemma layer_contents_Cons:
  "layer_contents k ((key, val) # cs) = (key_name k, key) # (value_name k, val) # layer_contents (Suc k) cs"
  by (simp add: layer_contents_def)

lemma keys_layer_contents:
  "set (keys (layer_contents k cs)) = key_name ` {k..<k + length cs} \<union> value_name ` {k..<k + length cs}"
proof (induction cs arbitrary: k)
  case (Cons c cs)
  obtain key val where c: "c = (key, val)" by (cases c)
  have "{k..<k + length (c # cs)} = insert k {Suc k..<Suc k + length cs}" by auto
  then show ?case using Cons.IH [of "Suc k"] by (simp add: c layer_contents_Cons)  blast
qed (simp add: layer_contents_def)

lemma distinct_layer_contents: "distinct (keys (layer_contents k cs))"
proof (induction cs arbitrary: k)
  case (Cons c cs)
  obtain key val where c: "c = (key, val)" by (cases c)
  show ?case using Cons.IH [of "Suc k"] keys_layer_contents [of "Suc k" cs] by (auto simp: c layer_contents_Cons)
qed (simp add: layer_contents_def)

lemma contents_of_layer:
  assumes "i < length cs"
  shows "contents_of cs (key_name i) = Some (fst (cs ! i))" "contents_of cs (value_name i) = Some (snd (cs ! i))"
proof -
  have m: "(i, cs ! i) \<in> set (enumerate 0 cs)" using assms by (auto simp: in_set_enumerate_eq)
  have "(key_name i, fst (cs ! i)) \<in> set (layer_contents 0 cs)" "(value_name i, snd (cs ! i)) \<in> set (layer_contents 0 cs)"
    unfolding layer_contents_def set_concat set_map using m by (force simp: split_beta)+
  then show "contents_of cs (key_name i) = Some (fst (cs ! i))" "contents_of cs (value_name i) = Some (snd (cs ! i))"
    using distinct_layer_contents [of 0 cs] by simp_all
qed

lemma length_layer_contents: "length (layer_contents k cs) = 2 * length cs"
  by (induction cs arbitrary: k) (auto simp: layer_contents_def)

text \<open>A content split over \<open>g\<close> heads at a position, and the prefix of a rank that holds its share.\<close>

definition content_ok :: "nat \<Rightarrow> nat \<Rightarrow> ('d, 'e) content \<Rightarrow> bool" where
  "content_ok g pos ct \<longleftrightarrow> c_heads ct = g \<and> g \<le> usize_max \<and> c_rows ct = pos \<and> 0 < pos \<and> 0 < c_cols ct"

definition shows_heads ::
  "('t, 'd) tensor_lib \<Rightarrow> ('t \<Rightarrow> nat list \<Rightarrow> 'e) \<Rightarrow> ('d, 'e) content \<Rightarrow> nat \<times> nat \<Rightarrow> 't \<Rightarrow> bool" where
  "shows_heads lib at ct s t \<longleftrightarrow>
     block lib at (c_dtype ct) (snd s) (c_rows ct) (c_cols ct) (\<lambda>h. c_elem ct (fst s + h)) t"

definition holds_share ::
  "('t, 'd) tensor_lib \<Rightarrow> ('t \<Rightarrow> nat list \<Rightarrow> 'e) \<Rightarrow> nat \<Rightarrow> (('d, 'e) content \<times> ('d, 'e) content) list \<Rightarrow> nat
   \<Rightarrow> rotary_history list \<Rightarrow> nat \<Rightarrow> nat \<Rightarrow> 't dense_prefix \<Rightarrow> bool" where
  "holds_share lib at g cs pos hs world rank dp \<longleftrightarrow>
     dp_position dp = pos \<and> dp_rotary dp = hs \<and> length (dp_layers dp) = length cs
     \<and> (\<forall>i<length cs. shows_heads lib at (fst (cs ! i)) (shard_span g world rank) (fst (dp_layers dp ! i))
          \<and> shows_heads lib at (snd (cs ! i)) (shard_span g world rank) (snd (dp_layers dp ! i)))"

lemma push_share:
  assumes "tensor_laws lib at elem" and "head_sharded lib receive at elem cts R p" and "cts name = Some ct" and "name \<noteq> []"
    and "content_ok g pos ct" and "splits g world" and "rank < world" and "shard_span g world rank \<in> R name"
    and "shows_heads lib at ct (shard_span g world rank) t"
  obtains p' where "push_tensor lib name t (g, fst (shard_span g world rank),
      fst (shard_span g world rank) + snd (shard_span g world rank)) p = (Ok (), p')"
    "head_sharded lib receive at elem cts R p'" "same_frame p p'"
    "spans_at p' = (spans_at p)(name := insert (shard_span g world rank) (spans_at p name))"
proof -
  let ?s = "shard_span g world rank"
  let ?f = "\<lparr>fr_total = g, fr_start = fst ?s, fr_shape = t_dims lib t, fr_dtype = t_dtype lib t,
      fr_payload = OnDevice t\<rparr> :: ('a, 'b) fragment"
  note b = shard_span_bound [OF assms(6,7)]
  have d: "t_dims lib t = [1, snd ?s, c_rows ct, c_cols ct]" "t_dtype lib t = c_dtype ct"
    using assms(9) by (simp_all add: shows_heads_def block_def)
  have "serves lib receive at (c_rows ct) (c_cols ct) (\<lambda>h. c_elem ct (fst ?s + h)) ?f"
    by (rule serves_device [OF assms(1), where t = t]) (use assms(9) d in \<open>simp_all add: shows_heads_def\<close>)
  moreover have "resident lib at elem ct ?f" using assms(9) d by (simp add: resident_def shows_heads_def)
  ultimately have "belongs_to lib receive at elem ct ?f"
    using assms(5) b d by (simp add: belongs_to_def content_ok_def)
  moreover have "span_of ?f = ?s" using d by (simp add: span_of_def)
  ultimately obtain p' where "insert_fragment name ?f p = (Ok (), p')" "head_sharded lib receive at elem cts R p'"
    "same_frame p p'" "spans_at p' = (spans_at p)(name := insert ?s (spans_at p name))"
    using insert_sharded [OF assms(2-4), of ?f] assms(8) by metis
  moreover have "push_tensor lib name t (g, fst ?s, fst ?s + snd ?s) p = insert_fragment name ?f p"
    using d(1) by (simp add: push_tensor_def)
  ultimately show ?thesis using that by simp
qed

lemma export_layers:
  assumes "tensor_laws lib at elem" and "ps_kv_heads sh = Some g" and "splits g (ps_world sh)" and "ps_rank sh < ps_world sh"
    and "\<forall>name. spans_aligned (R name)"
    and "\<forall>(key, val)\<in>set cs. content_ok g pos key \<and> content_ok g pos val"
    and "length layers = length cs"
    and "\<forall>i<length cs. shows_heads lib at (fst (cs ! i)) (shard_span g (ps_world sh) (ps_rank sh)) (fst (layers ! i))
          \<and> shows_heads lib at (snd (cs ! i)) (shard_span g (ps_world sh) (ps_rank sh)) (snd (layers ! i))"
    and "\<forall>name\<in>set (keys (layer_contents k cs)). cts name = map_of (layer_contents k cs) name
          \<and> shard_span g (ps_world sh) (ps_rank sh) \<in> R name"
    and "head_sharded lib receive at elem cts R p"
  shows "\<exists>p'. for_op (export_layer lib sh) (enumerate k layers) p = (Ok (), p')
    \<and> head_sharded lib receive at elem cts R p' \<and> same_frame p p'
    \<and> (\<forall>name. spans_at p' name = (if name \<in> set (keys (layer_contents k cs))
         then {shard_span g (ps_world sh) (ps_rank sh)} else {}) \<union> spans_at p name)"
  using assms(6-)
proof (induction cs arbitrary: k layers p)
  case Nil
  then show ?case by (auto simp: layer_contents_def)
next
  case (Cons c cs)
  let ?s = "shard_span g (ps_world sh) (ps_rank sh)"
  obtain key val where c: "c = (key, val)" by (cases c)
  obtain tk tv ls where l: "layers = (tk, tv) # ls" using Cons.prems(2) by (cases layers) auto
  have ok: "content_ok g pos key" "content_ok g pos val" using Cons.prems(1) by (simp_all add: c)
  have sh: "shows_heads lib at key ?s tk" "shows_heads lib at val ?s tv" using Cons.prems(3) by (auto simp: c l)
  have name: "cts (key_name k) = Some key" "?s \<in> R (key_name k)" "cts (value_name k) = Some val" "?s \<in> R (value_name k)"
    using Cons.prems(4) by (simp_all add: c layer_contents_Cons)
  note push = push_share [OF assms(1) _ _ _ _ assms(3,4)]
  obtain p1 where p1: "push_tensor lib (key_name k) tk (g, fst ?s, fst ?s + snd ?s) p = (Ok (), p1)"
    "head_sharded lib receive at elem cts R p1" "same_frame p p1"
    "spans_at p1 = (spans_at p)(key_name k := insert ?s (spans_at p (key_name k)))"
    by (rule push [OF Cons.prems(5) name(1) _ ok(1) name(2) sh(1)]) simp_all
  obtain p2 where p2: "push_tensor lib (value_name k) tv (g, fst ?s, fst ?s + snd ?s) p1 = (Ok (), p2)"
    "head_sharded lib receive at elem cts R p2" "same_frame p1 p2"
    "spans_at p2 = (spans_at p1)(value_name k := insert ?s (spans_at p1 (value_name k)))"
    by (rule push [OF p1(2) name(3) _ ok(2) name(4) sh(2)]) simp_all
  have dims: "t_dims lib tk ! 1 = snd ?s" using sh(1) by (simp add: shows_heads_def block_def)
  have "heads sh (Some g) (snd ?s) = Ok (g, fst ?s, fst ?s + snd ?s)"
    using assms(3,4) shard_span_bound [OF assms(3,4)] by (simp add: heads_Ok)
  then have step: "export_layer lib sh (k, tk, tv) p = (Ok (), p2)"
    using p1(1) p2(1) dims assms(2) by (simp add: export_layer_def)
  have sub: "\<forall>name\<in>set (keys (layer_contents (Suc k) cs)). cts name = map_of (layer_contents (Suc k) cs) name \<and> ?s \<in> R name"
  proof
    fix name assume n: "name \<in> set (keys (layer_contents (Suc k) cs))"
    have "key_name k \<notin> set (keys (layer_contents (Suc k) cs))" "value_name k \<notin> set (keys (layer_contents (Suc k) cs))"
      using distinct_layer_contents [of k "c # cs"] by (simp_all add: c layer_contents_Cons)
    with n have "name \<noteq> key_name k" "name \<noteq> value_name k" by metis+
    moreover have m: "name \<in> set (keys (layer_contents k (c # cs)))" using n by (simp add: c layer_contents_Cons)
    ultimately show "cts name = map_of (layer_contents (Suc k) cs) name \<and> ?s \<in> R name"
      using bspec [OF Cons.prems(4) m] by (simp add: c layer_contents_Cons)
  qed
  have each: "\<forall>i<length cs. shows_heads lib at (fst (cs ! i)) ?s (fst (ls ! i))
      \<and> shows_heads lib at (snd (cs ! i)) ?s (snd (ls ! i))"
  proof (intro allI impI)
    fix i assume "i < length cs"
    then show "shows_heads lib at (fst (cs ! i)) ?s (fst (ls ! i)) \<and> shows_heads lib at (snd (cs ! i)) ?s (snd (ls ! i))"
      using Cons.prems(3) [rule_format, of "Suc i"] by (simp add: c l)
  qed
  have rest: "\<forall>(key, val)\<in>set cs. content_ok g pos key \<and> content_ok g pos val" using Cons.prems(1) by simp
  have "length ls = length cs" using Cons.prems(2) by (simp add: l)
  from Cons.IH [OF rest this each sub p2(2)] obtain p3 where
    p3: "for_op (export_layer lib sh) (enumerate (Suc k) ls) p2 = (Ok (), p3)"
    "head_sharded lib receive at elem cts R p3" "same_frame p2 p3"
    "\<forall>name. spans_at p3 name = (if name \<in> set (keys (layer_contents (Suc k) cs)) then {?s} else {}) \<union> spans_at p2 name"
    by (elim exE conjE) (rule that)
  have "spans_at p3 name = (if name \<in> set (keys (layer_contents k (c # cs))) then {?s} else {}) \<union> spans_at p name" for name
    using p3(4) p2(4) p1(4) by (auto simp: c layer_contents_Cons)
  then show ?case
    using step p3(1,2) same_frame_trans [OF same_frame_trans [OF p1(3) p2(3)] p3(3)] by (auto simp: l)
qed

end
