(* ===== verification/DensePrefixProps.thy ===== *)
theory DensePrefixProps
  imports ParallelPrefix DensePrefixInv
begin

text \<open>
  The properties of transferred prefixes: a prefix exported by one group of ranks and imported by
  another, of any size, directly or through host bytes, gives every rank its heads.
\<close>

section \<open>A complete prefix\<close>

definition all_shards :: "nat \<Rightarrow> nat \<Rightarrow> (nat \<times> nat) set" where
  "all_shards g world = shard_span g world ` {..<world}"

text \<open>What the merged export of all ranks is: every name shows all its heads.\<close>

definition complete ::
  "('t, 'd) tensor_lib \<Rightarrow> ('t, 'd, 'w) receiver \<Rightarrow> ('t \<Rightarrow> nat list \<Rightarrow> 'e) \<Rightarrow> ('d \<Rightarrow> bytes \<Rightarrow> 'e)
   \<Rightarrow> (('d, 'e) content \<times> ('d, 'e) content) list \<Rightarrow> nat \<Rightarrow> rotary_history list \<Rightarrow> (nat \<times> nat) set \<Rightarrow> (nat \<times> nat) set
   \<Rightarrow> ('t, 'd) prefix_tensors \<Rightarrow> bool" where
  "complete lib receive at elem cs pos hs R S p \<longleftrightarrow>
     head_sharded lib receive at elem (contents_of cs) (\<lambda>_. R) p
     \<and> pt_position p = pos \<and> pt_schema p = (if hs = [] then ''dense-kv-v1'' else ''dense-kv-v2'')
     \<and> pt_scalars p = put_all (all_scalars hs) [] \<and> pt_children p = []
     \<and> (\<forall>name. spans_at p name = (if name \<in> set (keys (layer_contents 0 cs)) then S else {}))"

lemma export_dense_complete:
  assumes "tensor_laws lib at elem" and "ps_kv_heads sh = Some g" and "splits g (ps_world sh)" and "ps_rank sh < ps_world sh"
    and "\<forall>(key, val)\<in>set cs. content_ok g pos key \<and> content_ok g pos val"
    and "holds_share lib at g cs pos hs (ps_world sh) (ps_rank sh) dp"
  shows "\<exists>p. export_dense lib sh dp = Ok p
    \<and> complete lib receive at elem cs pos hs (all_shards g (ps_world sh)) {shard_span g (ps_world sh) (ps_rank sh)} p"
proof -
  let ?R = "\<lambda>name :: string. all_shards g (ps_world sh)" and ?s = "shard_span g (ps_world sh) (ps_rank sh)"
  let ?schema = "if hs = [] then ''dense-kv-v1'' else ''dense-kv-v2''"
  have dp: "dp_position dp = pos" "dp_rotary dp = hs" "length (dp_layers dp) = length cs"
    "\<forall>i<length cs. shows_heads lib at (fst (cs ! i)) ?s (fst (dp_layers dp ! i))
          \<and> shows_heads lib at (snd (cs ! i)) ?s (snd (dp_layers dp ! i))"
    using assms(6) by (simp_all add: holds_share_def)
  let ?p0 = "new_tensors ?schema pos :: ('a, 'b) prefix_tensors"
  let ?p1 = "with_scalars (put_all (all_scalars hs) []) ?p0"
  have "for_op (\<lambda>(i, h). export_history h i) (enumerate 0 hs) ?p0 = for_op put_scalar (all_scalars hs) ?p0"
    unfolding all_scalars_def for_op_concat for_op_map comp_def
    by (rule for_op_cong) (auto simp: export_history_scalars)
  also have "\<dots> = (Ok (), ?p1)"
    by (rule put_all_scalars(1)) (simp add: new_tensors_def)
  finally have scalars: "for_op (\<lambda>(i, h). export_history h i) (enumerate 0 hs) ?p0 = (Ok (), ?p1)" .
  have al: "\<forall>name. spans_aligned (?R name)" by (simp add: all_shards_def shard_spans_aligned)
  have start: "head_sharded lib receive at elem (contents_of cs) ?R ?p1"
    using al by (simp add: head_sharded_def new_tensors_def ordered_def)
  have mem: "?s \<in> all_shards g (ps_world sh)" using assms(4) by (simp add: all_shards_def)
  have names: "\<forall>name\<in>set (keys (layer_contents 0 cs)). contents_of cs name = map_of (layer_contents 0 cs) name \<and> ?s \<in> ?R name"
    using mem by simp
  from export_layers [OF assms(1-4) al assms(5) dp(3,4) names start] obtain p where
    p: "for_op (export_layer lib sh) (enumerate 0 (dp_layers dp)) ?p1 = (Ok (), p)"
    "head_sharded lib receive at elem (contents_of cs) ?R p" "same_frame ?p1 p"
    "\<forall>name. spans_at p name = (if name \<in> set (keys (layer_contents 0 cs)) then {?s} else {}) \<union> spans_at ?p1 name"
    by (elim exE conjE) (rule that)
  have none: "spans_at ?p1 name = {}" for name
    by (simp add: spans_at_def fragments_of_def new_tensors_def spans_def)
  have "export_dense lib sh dp = Ok p"
    using scalars p(1) dp(1,2) by (simp add: export_dense_def build_def)
  moreover have "complete lib receive at elem cs pos hs (all_shards g (ps_world sh)) {?s} p"
    using p(2-4) none by (simp add: complete_def same_frame_def new_tensors_def)
  ultimately show ?thesis by blast
qed

lemma merge_complete:
  assumes "complete lib receive at elem cs pos hs R S p" and "complete lib receive at elem cs pos hs R T q"
  shows "\<exists>p'. merge_tensors q p = (Ok (), p') \<and> complete lib receive at elem cs pos hs R (S \<union> T) p'"
proof -
  have frame: "same_frame p q" "pt_children q = []" using assms by (simp_all add: complete_def same_frame_def)
  have sh: "head_sharded lib receive at elem (contents_of cs) (\<lambda>_. R) p" "head_sharded lib receive at elem (contents_of cs) (\<lambda>_. R) q"
    using assms by (simp_all add: complete_def)
  obtain p' where p': "merge_tensors q p = (Ok (), p')" "head_sharded lib receive at elem (contents_of cs) (\<lambda>_. R) p'"
    "same_frame p p'" "\<forall>name. spans_at p' name = spans_at q name \<union> spans_at p name"
    using merge_sharded [OF sh frame] by blast
  have "spans_at p' name = (if name \<in> set (keys (layer_contents 0 cs)) then S \<union> T else {})" for name
    using p'(4) assms by (auto simp: complete_def)
  then have "complete lib receive at elem cs pos hs R (S \<union> T) p'"
    using p'(2,3) assms(1) by (simp add: complete_def same_frame_def)
  with p'(1) show ?thesis by blast
qed

lemma export_ranks_complete:
  assumes "tensor_laws lib at elem" and "ps_kv_heads layout = Some g" and "splits g world"
    and "\<forall>(key, val)\<in>set cs. content_ok g pos key \<and> content_ok g pos val"
    and "\<And>rank w. rank < world \<Longrightarrow> \<exists>w'. sync rank w = (Ok (), w')"
    and "\<forall>i<length dps. holds_share lib at g cs pos hs world (k + i) (dps ! i)" and "k + length dps = world"
    and "case acc of None \<Rightarrow> k = 0
         | Some p \<Rightarrow> complete lib receive at elem cs pos hs (all_shards g world) (shard_span g world ` {..<k}) p"
  shows "\<exists>acc' w'. export_ranks lib layout world sync acc (enumerate k dps) w = (Ok acc', w')
    \<and> (case acc' of None \<Rightarrow> world = 0
       | Some p \<Rightarrow> complete lib receive at elem cs pos hs (all_shards g world) (all_shards g world) p)"
  using assms(6-)
proof (induction dps arbitrary: k acc w)
  case Nil
  then show ?case by (auto simp: all_shards_def split: option.splits)
next
  case (Cons dp dps)
  let ?sh = "rank_shard layout world k"
  have sh: "ps_kv_heads ?sh = Some g" "ps_world ?sh = world" "ps_rank ?sh = k" "k < world"
    using assms(2) Cons.prems(2) by (simp_all add: rank_shard_def)
  have hold: "holds_share lib at g cs pos hs world k dp"
    using Cons.prems(1) [rule_format, of 0] by simp
  obtain part where part: "export_dense lib ?sh dp = Ok part"
    "complete lib receive at elem cs pos hs (all_shards g world) {shard_span g world k} part"
    using export_dense_complete [OF assms(1) sh(1), of cs pos hs dp receive] assms(3,4) hold sh(2-4) by auto
  obtain w1 where w1: "sync k w = (Ok (), w1)" using assms(5) sh(4) by blast
  have rest: "\<forall>i<length dps. holds_share lib at g cs pos hs world (Suc k + i) (dps ! i)"
  proof (intro allI impI)
    fix i assume "i < length dps"
    then show "holds_share lib at g cs pos hs world (Suc k + i) (dps ! i)"
      using Cons.prems(1) [rule_format, of "Suc i"] by simp
  qed
  have len: "Suc k + length dps = world" using Cons.prems(2) by simp
  have upto: "shard_span g world ` {..<k} \<union> {shard_span g world k} = shard_span g world ` {..<Suc k}"
    by (auto simp: lessThan_Suc)
  show ?case
  proof (cases acc)
    case None
    have "complete lib receive at elem cs pos hs (all_shards g world) (shard_span g world ` {..<Suc k}) part"
      using part(2) Cons.prems(3) upto None by simp
    with Cons.IH [OF rest len, of "Some part" w1] part(1) w1 None show ?thesis by simp
  next
    case (Some p)
    have "complete lib receive at elem cs pos hs (all_shards g world) (shard_span g world ` {..<k}) p"
      using Cons.prems(3) Some by simp
    from merge_complete [OF this part(2)] obtain p' where
      p': "merge_tensors part p = (Ok (), p')"
      "complete lib receive at elem cs pos hs (all_shards g world) (shard_span g world ` {..<Suc k}) p'"
      unfolding upto by blast
    with Cons.IH [OF rest len, of "Some p'" w1] part(1) w1 Some show ?thesis by simp
  qed
qed

section \<open>Importing\<close>

text \<open>The geometry of the layers on a rank.\<close>

definition share_geometry :: "nat \<Rightarrow> (('d, 'e) content \<times> ('d, 'e) content) list \<Rightarrow> nat \<Rightarrow> nat \<Rightarrow> 'd geometry" where
  "share_geometry g cs world rank =
     map (\<lambda>(key, val). (snd (shard_span g world rank), c_cols key, c_cols val, c_dtype key)) cs"

lemma import_layers:
  assumes "tensor_laws lib at elem" and "complete lib receive at elem cs pos hs R S p"
    and "ps_kv_heads sh = Some g" and "splits g (ps_world sh)" and "ps_rank sh < ps_world sh"
    and "\<forall>(key, val)\<in>set cs. content_ok g pos key \<and> content_ok g pos val \<and> c_dtype val = c_dtype key"
    and "covered S 0 g" and "k + length ds = length cs" and "\<forall>i<length ds. ds ! i = cs ! (k + i)"
  shows "\<exists>layers w'. map_op (import_layer lib receive sh p)
        (enumerate k (map (\<lambda>(key, val). (snd (shard_span g (ps_world sh) (ps_rank sh)), c_cols key, c_cols val, c_dtype key)) ds)) w
      = (Ok layers, w') \<and> length layers = length ds
    \<and> (\<forall>i<length ds. shows_heads lib at (fst (ds ! i)) (shard_span g (ps_world sh) (ps_rank sh)) (fst (layers ! i))
          \<and> shows_heads lib at (snd (ds ! i)) (shard_span g (ps_world sh) (ps_rank sh)) (snd (layers ! i)))"
  using assms(8-)
proof (induction ds arbitrary: k w)
  case (Cons d ds)
  let ?s = "shard_span g (ps_world sh) (ps_rank sh)"
  let ?geo = "\<lambda>ds. map (\<lambda>(key, val). (snd ?s, c_cols key, c_cols val, c_dtype key)) ds"
  have k: "k < length cs" "cs ! k = d" using Cons.prems by (auto dest: spec [of _ 0])
  obtain key val where d: "d = (key, val)" by (cases d)
  have "(key, val) \<in> set cs" using k d nth_mem by metis
  then have ok: "content_ok g pos key" "content_ok g pos val" "c_dtype val = c_dtype key" using assms(6) by auto
  have sh: "head_sharded lib receive at elem (contents_of cs) (\<lambda>_. R) p" and pos: "pt_position p = pos"
    using assms(2) by (simp_all add: complete_def)
  note b = shard_span_bound [OF assms(4,5)]
  have cov: "covered (spans_at p name) (fst ?s) (fst ?s + snd ?s)" if "name \<in> set (keys (layer_contents 0 cs))" for name
    using assms(2,7) b(1) that unfolding complete_def covered_def by auto
  have names: "key_name k \<in> set (keys (layer_contents 0 cs))" "value_name k \<in> set (keys (layer_contents 0 cs))"
    unfolding keys_layer_contents using k(1) by auto
  note look = contents_of_layer [OF k(1), unfolded k(2) d fst_conv snd_conv]
  obtain tk w1 where tk: "tensor_of lib receive p (key_name k) [1, snd ?s, c_rows key, c_cols key] (c_dtype key)
      (c_heads key, fst ?s, fst ?s + snd ?s) w = (Ok tk, w1)"
    "block lib at (c_dtype key) (snd ?s) (c_rows key) (c_cols key) (\<lambda>h. c_elem key (fst ?s + h)) tk"
    using tensor_sharded [OF assms(1) sh look(1) cov [OF names(1)], of w] b ok(1) by (auto simp: content_ok_def)
  obtain tv w2 where tv: "tensor_of lib receive p (value_name k) [1, snd ?s, c_rows val, c_cols val] (c_dtype val)
      (c_heads val, fst ?s, fst ?s + snd ?s) w1 = (Ok tv, w2)"
    "block lib at (c_dtype val) (snd ?s) (c_rows val) (c_cols val) (\<lambda>h. c_elem val (fst ?s + h)) tv"
    using tensor_sharded [OF assms(1) sh look(2) cov [OF names(2)], of w1] b ok(2) by (auto simp: content_ok_def)
  have "heads sh (Some g) (snd ?s) = Ok (g, fst ?s, fst ?s + snd ?s)"
    using assms(4,5) b by (simp add: heads_Ok)
  then have step: "import_layer lib receive sh p (k, snd ?s, c_cols key, c_cols val, c_dtype key) w = (Ok (tk, tv), w2)"
    using tk(1) tv(1) ok pos assms(3) by (simp add: import_layer_def content_ok_def)
  have "\<forall>i<length ds. ds ! i = cs ! (Suc k + i)"
  proof (intro allI impI)
    fix i assume "i < length ds"
    then show "ds ! i = cs ! (Suc k + i)" using Cons.prems(2) [rule_format, of "Suc i"] by simp
  qed
  moreover have "Suc k + length ds = length cs" using Cons.prems(1) by simp
  ultimately obtain layers w3 where rest: "map_op (import_layer lib receive sh p) (enumerate (Suc k) (?geo ds)) w2 = (Ok layers, w3)"
    "length layers = length ds"
    "\<forall>i<length ds. shows_heads lib at (fst (ds ! i)) ?s (fst (layers ! i)) \<and> shows_heads lib at (snd (ds ! i)) ?s (snd (layers ! i))"
    using Cons.IH [of "Suc k" w2] by blast
  have "shows_heads lib at (fst ((d # ds) ! i)) ?s (fst (((tk, tv) # layers) ! i))
      \<and> shows_heads lib at (snd ((d # ds) ! i)) ?s (snd (((tk, tv) # layers) ! i))" if "i < length (d # ds)" for i
    using that rest(3) tk(2) tv(2) by (cases i) (auto simp: d shows_heads_def)
  moreover have "map_op (import_layer lib receive sh p) (enumerate k (?geo (d # ds))) w = (Ok ((tk, tv) # layers), w3)"
    using step rest(1) by (simp add: d)
  ultimately show ?case using rest(2) by (intro exI [of _ "(tk, tv) # layers"] exI [of _ w3]) simp
qed simp

lemma complete_names:
  assumes "complete lib receive at elem cs pos hs R S p" and "S \<noteq> {}"
  shows "length (pt_tensors p) = 2 * length cs"
proof -
  have sh: "head_sharded lib receive at elem (contents_of cs) (\<lambda>_. R) p" using assms(1) by (simp add: complete_def)
  then have ord: "ordered (pt_tensors p)" by (simp add: head_sharded_def)
  have shown: "name \<in> set (keys (pt_tensors p)) \<longleftrightarrow> spans_at p name \<noteq> {}" for name
  proof (cases "map_of (pt_tensors p) name")
    case None
    then have "name \<notin> set (keys (pt_tensors p))" by (simp add: map_of_eq_None_iff)
    moreover have "spans_at p name = {}" using None by (simp add: spans_at_def fragments_of_def spans_def)
    ultimately show ?thesis by simp
  next
    case (Some fs)
    then have "name \<in> set (keys (pt_tensors p))" by (force dest: map_of_SomeD)
    then show ?thesis using sharded_name(2) [OF sh Some] Some by (simp add: spans_at_def fragments_of_def spans_def)
  qed
  have "set (keys (pt_tensors p)) = set (keys (layer_contents 0 cs))"
  proof (rule set_eqI)
    fix name
    have "spans_at p name = (if name \<in> set (keys (layer_contents 0 cs)) then S else {})"
      using assms(1) unfolding complete_def by blast
    then show "name \<in> set (keys (pt_tensors p)) \<longleftrightarrow> name \<in> set (keys (layer_contents 0 cs))"
      unfolding shown using assms(2) by simp
  qed
  then have "length (keys (pt_tensors p)) = length (keys (layer_contents 0 cs))"
    using ordered_distinct [OF ord] distinct_layer_contents [of 0 cs] distinct_card by metis
  then show ?thesis by (simp add: length_layer_contents)
qed

lemma import_dense_complete:
  assumes "tensor_laws lib at elem" and "complete lib receive at elem cs pos hs R S p"
    and "ps_kv_heads sh = Some g" and "splits g (ps_world sh)" and "ps_rank sh < ps_world sh"
    and "\<forall>(key, val)\<in>set cs. content_ok g pos key \<and> content_ok g pos val \<and> c_dtype val = c_dtype key"
    and "covered S 0 g" and "0 < pos" and "pos \<le> limit"
    and "hs \<noteq> [] \<longrightarrow> length hs = length cs" and "\<forall>h\<in>set hs. validate_history h pos = Ok ()"
  shows "\<exists>dp w'. import_dense lib receive p (share_geometry g cs (ps_world sh) (ps_rank sh)) limit sh w = (Ok dp, w')
    \<and> holds_share lib at g cs pos hs (ps_world sh) (ps_rank sh) dp"
proof -
  let ?geo = "share_geometry g cs (ps_world sh) (ps_rank sh)"
  have "0 < g" using assms(4) by (simp add: splits_def)
  then have "S \<noteq> {}" using assms(7) by (auto simp: covered_def)
  note names = complete_names [OF assms(2) this]
  have frame: "pt_position p = pos" "pt_schema p = (if hs = [] then ''dense-kv-v1'' else ''dense-kv-v2'')"
    "pt_scalars p = put_all (all_scalars hs) []" "pt_children p = []"
    using assms(2) by (simp_all add: complete_def)
  have len: "length ?geo = length cs" by (simp add: share_geometry_def)
  have sc: "(\<forall>name. map_of (pt_scalars p) name = map_of (all_scalars hs) name)
      \<and> length (pt_scalars p) = length (all_scalars hs)"
    using put_all_scalars(2,3) [of "new_tensors [] 0"] by (simp add: frame(3) new_tensors_def)
  have rotary: "import_rotary p ?geo limit = Ok hs"
  proof (cases "hs = []")
    case True
    then have "pt_scalars p = []" using sc by (simp add: all_scalars_def)
    then show ?thesis
      using True frame names len assms(8,9) by (simp add: import_rotary_def validate_tensors_def bind_res_def)
  next
    case False
    have "try_map (import_history p) [0..<length ?geo]
        = Ok (map (\<lambda>l. (hs ! l, 2 + 2 * length (rh_spans (hs ! l)))) [0..<length ?geo])"
    proof (rule try_map_Ok)
      fix l assume "l \<in> set [0..<length ?geo]"
      then have "l < length hs" using assms(10) False len by simp
      then show "import_history p l = Ok (hs ! l, 2 + 2 * length (rh_spans (hs ! l)))"
        using import_exported [of p hs l] sc assms(11) frame(1) nth_mem by blast
    qed
    moreover have "map (\<lambda>l. hs ! l) [0..<length cs] = hs" using assms(10) False map_nth [of hs] by simp
    moreover have "sum_list (map (\<lambda>l. 2 + 2 * length (rh_spans (hs ! l))) [0..<length cs]) = length (pt_scalars p)"
    proof -
      have "map (\<lambda>l. 2 + 2 * length (rh_spans (hs ! l))) [0..<length cs] = map (\<lambda>h. 2 + 2 * length (rh_spans h)) hs"
        using assms(10) False map_nth [of hs] by (metis (no_types, lifting) list.map_comp comp_apply map_eq_conv)
      then show ?thesis using sc by (simp add: length_all_scalars)
    qed
    moreover have "pt_scalars p \<noteq> []"
    proof
      assume "pt_scalars p = []"
      then have "length (all_scalars hs) = 0" using sc by simp
      then show False using False by (cases hs) (simp_all add: length_all_scalars)
    qed
    ultimately show ?thesis
      using False frame names len assms(8,9)
      by (simp add: import_rotary_def validate_tensors_def bind_res_def comp_def)
  qed
  obtain layers w' where layers: "map_op (import_layer lib receive sh p) (enumerate 0 ?geo) w = (Ok layers, w')"
    "length layers = length cs"
    "\<forall>i<length cs. shows_heads lib at (fst (cs ! i)) (shard_span g (ps_world sh) (ps_rank sh)) (fst (layers ! i))
          \<and> shows_heads lib at (snd (cs ! i)) (shard_span g (ps_world sh) (ps_rank sh)) (snd (layers ! i))"
    using import_layers [OF assms(1-7), of 0 cs w] unfolding share_geometry_def by auto
  then show ?thesis
    using rotary frame by (intro exI [of _ "\<lparr>dp_position = pos, dp_layers = layers, dp_rotary = hs\<rparr>"] exI [of _ w'])
      (simp add: import_dense_def holds_share_def)
qed

end
