(* ===== verification/ByteTensors.thy ===== *)
theory ByteTensors
  imports PrefixTransferInv
begin

text \<open>
  A tensor library that keeps its laws: tensors of one batch whose elements are bytes, as a list of
  heads. The concrete inputs of the transfer properties use it.
\<close>

type_synonym byte_tensor = "nat \<times> nat \<times> (nat \<Rightarrow> nat \<Rightarrow> 8 word) list"

definition byte_data :: "byte_tensor \<Rightarrow> unit tensor_data" where
  "byte_data t = (case t of (r, c, hs) \<Rightarrow>
     \<lparr>td_bytes = map (\<lambda>k. (hs ! (k div c div r)) (k div c mod r) (k mod c)) [0..<length hs * r * c],
      td_shape = [1, length hs, r, c], td_dtype = ()\<rparr>)"

definition tensor_of_bytes :: "unit tensor_data \<Rightarrow> byte_tensor" where
  "tensor_of_bytes d = (let n = td_shape d ! 1; r = td_shape d ! 2; c = td_shape d ! 3 in
     (r, c, map (\<lambda>h i j. td_bytes d ! ((h * r + i) * c + j)) [0..<n]))"

definition byte_lib :: "(byte_tensor, unit) tensor_lib" where
  "byte_lib = \<lparr>
     t_dims = \<lambda>(r, c, hs). [1, length hs, r, c],
     t_dtype = \<lambda>_. (),
     t_slice = \<lambda>ranges (r, c, hs). (r, c, take (snd (ranges ! 1) - fst (ranges ! 1)) (drop (fst (ranges ! 1)) hs)),
     t_cat = \<lambda>ts _. (fst (hd ts), fst (snd (hd ts)), concat (map (\<lambda>t. snd (snd t)) ts)),
     t_to_device = \<lambda>t. t,
     t_into_data = \<lambda>t. Ok (byte_data t),
     t_from_data = tensor_of_bytes,
     d_size = \<lambda>_. 1,
     d_float = \<lambda>_. True\<rparr>"

definition byte_at :: "byte_tensor \<Rightarrow> nat list \<Rightarrow> 8 word" where
  "byte_at t idx = (snd (snd t) ! (idx ! 1)) (idx ! 2) (idx ! 3)"

definition byte_elem :: "unit \<Rightarrow> bytes \<Rightarrow> 8 word" where
  "byte_elem dt bs = hd bs"

lemma byte_size [simp]: "d_size byte_lib dt = 1"
  by (simp add: byte_lib_def)

lemma byte_block:
  "block byte_lib byte_at dt n r c g (r', c', hs) \<longleftrightarrow>
     r' = r \<and> c' = c \<and> length hs = n \<and> (\<forall>h<n. \<forall>i<r. \<forall>j<c. (hs ! h) i j = g h i j)"
  by (auto simp: block_def byte_lib_def byte_at_def)

lemma byte_slice: "slice_law byte_lib byte_at"
  unfolding slice_law_def
proof (intro allI impI, elim conjE)
  fix t :: byte_tensor and dt :: unit and lo hi n r c :: nat and g
  assume "block byte_lib byte_at dt n r c g t" and lohi: "lo \<le> hi" "hi \<le> n"
  moreover obtain r' c' hs where t: "t = (r', c', hs)" by (cases t)
  ultimately have b: "r' = r" "c' = c" "length hs = n" "\<forall>h<n. \<forall>i<r. \<forall>j<c. (hs ! h) i j = g h i j"
    by (simp_all add: byte_block)
  have "t_slice byte_lib [(0, 1), (lo, hi), (0, r), (0, c)] t = (r, c, take (hi - lo) (drop lo hs))"
    by (simp add: byte_lib_def t b(1,2))
  then show "block byte_lib byte_at dt (hi - lo) r c (\<lambda>h. g (lo + h)) (t_slice byte_lib [(0, 1), (lo, hi), (0, r), (0, c)] t)"
    using b(3,4) lohi by (simp add: byte_block)
qed

lemma byte_cat: "cat_law byte_lib byte_at"
  unfolding cat_law_def
proof (intro conjI allI impI)
  fix t show "t_cat byte_lib [t] 1 = t" by (simp add: byte_lib_def)
next
  fix ts us :: "byte_tensor list" assume "us \<noteq> [] \<and> ts \<noteq> []"
  then show "t_cat byte_lib (us @ ts) 1 = t_cat byte_lib [t_cat byte_lib us 1, t_cat byte_lib ts 1] 1"
    by (simp add: byte_lib_def)
next
  fix t u :: byte_tensor and dt :: unit and m n r c :: nat and g
  assume a: "block byte_lib byte_at dt m r c g t \<and> block byte_lib byte_at dt n r c (\<lambda>h. g (m + h)) u"
  obtain ht hu where t: "t = (r, c, ht)" "length ht = m" "\<forall>h<m. \<forall>i<r. \<forall>j<c. (ht ! h) i j = g h i j"
    and u: "u = (r, c, hu)" "length hu = n" "\<forall>h<n. \<forall>i<r. \<forall>j<c. (hu ! h) i j = g (m + h) i j"
    using a by (cases t, cases u) (auto simp: byte_block)
  have joined: "t_cat byte_lib [t, u] 1 = (r, c, ht @ hu)" using t(1) u(1) by (simp add: byte_lib_def)
  have "((ht @ hu) ! h) i j = g h i j" if "h < m + n" "i < r" "j < c" for h i j
    using that t(2,3) u(2) u(3) [rule_format, of "h - m" i j] by (auto simp: nth_append)
  then show "block byte_lib byte_at dt (m + n) r c g (t_cat byte_lib [t, u] 1)"
    unfolding joined using t(2) u(2) by (simp add: byte_block)
qed

lemma row_major:
  assumes "h < n" and "i < r" and "j < (c::nat)"
  shows "(h * r + i) * c + j < n * r * c" "((h * r + i) * c + j) div c div r = h"
    "((h * r + i) * c + j) div c mod r = i" "((h * r + i) * c + j) mod c = j"
proof -
  have "(h * r + i) * c + j < (h * r + i + 1) * c" using assms(3) by simp
  also have "\<dots> \<le> ((h + 1) * r) * c" using assms(2) by (intro mult_right_mono) simp_all
  also have "\<dots> \<le> (n * r) * c" using assms(1) by (intro mult_right_mono) simp_all
  finally show "(h * r + i) * c + j < n * r * c" .
  have "((h * r + i) * c + j) div c = h * r + i" using assms(3) by simp
  then show "((h * r + i) * c + j) div c div r = h" "((h * r + i) * c + j) div c mod r = i"
    using assms(2) by simp_all
  show "((h * r + i) * c + j) mod c = j" using assms(3) by simp
qed

lemma byte_data_law: "data_law byte_lib byte_at byte_elem"
  unfolding data_law_def
proof (intro conjI allI impI)
  fix d :: "unit tensor_data" and n r c :: nat and g
  assume d: "bytes_hold byte_lib byte_elem n r c g d"
  have "td_bytes d ! ((h * r + i) * c + j) = g h i j" if "h < n" "i < r" "j < c" for h i j
  proof -
    have "(h * r + i) * c + j < length (td_bytes d)" using d row_major(1) [OF that] by (simp add: bytes_hold_def)
    moreover have "byte_elem (td_dtype d) (elem_bytes 1 (td_bytes d) ((h * r + i) * c + j)) = g h i j"
      using d that by (simp add: bytes_hold_def)
    ultimately show ?thesis by (simp add: byte_elem_def elem_bytes_def hd_drop_conv_nth take_Suc)
  qed
  moreover have "t_from_data byte_lib d = tensor_of_bytes d" by (simp add: byte_lib_def)
  ultimately show "block byte_lib byte_at (td_dtype d) n r c g (t_from_data byte_lib d)"
    using d by (simp add: tensor_of_bytes_def Let_def byte_block bytes_hold_def)
next
  fix t :: byte_tensor and d :: "unit tensor_data" and dt :: unit and n r c :: nat and g
  assume a: "t_into_data byte_lib t = Ok d \<and> block byte_lib byte_at dt n r c g t"
  then obtain hs where t: "t = (r, c, hs)" "length hs = n" "\<forall>h<n. \<forall>i<r. \<forall>j<c. (hs ! h) i j = g h i j"
    by (cases t) (auto simp: byte_block)
  have d: "d = byte_data t" using a by (simp add: byte_lib_def)
  have "byte_elem () (elem_bytes 1 (td_bytes d) ((h * r + i) * c + j)) = g h i j" if "h < n" "i < r" "j < c" for h i j
  proof -
    note rm = row_major [OF that]
    have "td_bytes d ! ((h * r + i) * c + j) = g h i j"
      using rm t(2,3) that by (simp add: d byte_data_def t(1))
    moreover have "(h * r + i) * c + j < length (td_bytes d)" using rm(1) t(2) by (simp add: d byte_data_def t(1))
    ultimately show ?thesis by (simp add: byte_elem_def elem_bytes_def hd_drop_conv_nth take_Suc)
  qed
  then show "bytes_hold byte_lib byte_elem n r c g d"
    using t(2) by (simp add: bytes_hold_def) (simp add: d byte_data_def t(1))
qed simp

lemma byte_laws: "tensor_laws byte_lib byte_at byte_elem"
  using byte_slice byte_cat byte_data_law by (simp add: tensor_laws_def device_law_def) (simp add: byte_lib_def)

end
