(* ===== verification/ReshardProps.thy ===== *)
theory ReshardProps
  imports DensePrefixProps ByteTensors
begin

text \<open>
  The properties of a cached prefix that moves between groups of ranks of different sizes, on the
  device or as host bytes.
\<close>

section \<open>Groups of ranks\<close>

definition holds_group ::
  "('t, 'd) tensor_lib \<Rightarrow> ('t \<Rightarrow> nat list \<Rightarrow> 'e) \<Rightarrow> nat \<Rightarrow> (('d, 'e) content \<times> ('d, 'e) content) list \<Rightarrow> nat
   \<Rightarrow> rotary_history list \<Rightarrow> nat \<Rightarrow> 't parallel_prefix \<Rightarrow> bool" where
  "holds_group lib at g cs pos hs world pp \<longleftrightarrow> pp_position pp = pos \<and> length (pp_ranks pp) = world
     \<and> (\<forall>i<world. holds_share lib at g cs pos hs world i (pp_ranks pp ! i))"

text \<open>What a prefix of \<open>pos\<close> positions with \<open>g\<close> key and value heads per layer consists of.\<close>

definition dense_contents ::
  "nat \<Rightarrow> nat \<Rightarrow> (('d, 'e) content \<times> ('d, 'e) content) list \<Rightarrow> rotary_history list \<Rightarrow> bool" where
  "dense_contents g pos cs hs \<longleftrightarrow> 0 < pos
     \<and> (\<forall>(key, val)\<in>set cs. content_ok g pos key \<and> content_ok g pos val \<and> c_dtype val = c_dtype key)
     \<and> (hs \<noteq> [] \<longrightarrow> length hs = length cs) \<and> (\<forall>h\<in>set hs. validate_history h pos = Ok ())"

definition succeeds :: "nat \<Rightarrow> (nat \<Rightarrow> ('w, 'e, unit) op) \<Rightarrow> bool" where
  "succeeds world sync \<longleftrightarrow> (\<forall>rank<world. \<forall>w. \<exists>w'. sync rank w = (Ok (), w'))"

lemma succeedsD: "succeeds world sync \<Longrightarrow> rank < world \<Longrightarrow> \<exists>w'. sync rank w = (Ok (), w')"
  by (simp add: succeeds_def)

lemma map_op_all:
  assumes "\<And>x w. x \<in> set xs \<Longrightarrow> \<exists>a w'. f x w = (Ok a, w') \<and> P x a"
  shows "\<exists>as w'. map_op f xs w = (Ok as, w') \<and> length as = length xs \<and> (\<forall>i<length xs. P (xs ! i) (as ! i))"
  using assms
proof (induction xs arbitrary: w)
  case (Cons x xs)
  obtain a w1 where a: "f x w = (Ok a, w1)" "P x a" using Cons.prems [of x w] by auto
  obtain as w2 where as: "map_op f xs w1 = (Ok as, w2)" "length as = length xs"
    "\<forall>i<length xs. P (xs ! i) (as ! i)"
    using Cons.IH [of w1] Cons.prems by auto
  have "P ((x # xs) ! i) ((a # as) ! i)" if "i < length (x # xs)" for i
    using that a(2) as(3) by (cases i) simp_all
  then show ?case using a(1) as(1,2) by (intro exI [of _ "a # as"] exI [of _ w2]) simp
qed simp

lemma all_shards_cover: "splits g world \<Longrightarrow> covered (all_shards g world) 0 g"
  using shard_spans_cover [of g world] unfolding covered_def all_shards_def by fastforce

lemma export_group:
  assumes "tensor_laws lib at elem" and "dense_contents g pos cs hs" and "ps_kv_heads layout = Some g"
    and "splits g world" and "succeeds world sync" and "holds_group lib at g cs pos hs world pp"
  shows "\<exists>p w'. export_parallel lib layout world sync True default_shard pp w = (Ok p, w')
    \<and> complete lib receive at elem cs pos hs (all_shards g world) (all_shards g world) p"
proof -
  have ok: "\<forall>(key, val)\<in>set cs. content_ok g pos key \<and> content_ok g pos val"
    using assms(2) by (auto simp: dense_contents_def)
  have len: "length (pp_ranks pp) = world" and
    share: "\<forall>i<length (pp_ranks pp). holds_share lib at g cs pos hs world (0 + i) (pp_ranks pp ! i)"
    using assms(6) by (auto simp: holds_group_def)
  have sync: "\<exists>w'. sync rank w = (Ok (), w')" if "rank < world" for rank w
    using assms(5) that by (auto simp: succeeds_def)
  obtain acc w' where acc: "export_ranks lib layout world sync None (enumerate 0 (pp_ranks pp)) w = (Ok acc, w')"
    "case acc of None \<Rightarrow> world = 0
     | Some p \<Rightarrow> complete lib receive at elem cs pos hs (all_shards g world) (all_shards g world) p"
    using export_ranks_complete [where sync = sync and acc = None and receive = receive and w = w,
        OF assms(1,3,4) ok sync share] len by auto
  moreover have "world \<noteq> 0" using assms(4) by (simp add: splits_def)
  ultimately show ?thesis using len by (cases acc) (auto simp: export_parallel_def)
qed

lemma import_group:
  assumes "tensor_laws lib at elem" and "dense_contents g pos cs hs" and "ps_kv_heads layout = Some g"
    and "splits g world" and "succeeds world sync" and "pos \<le> limit"
    and "complete lib receive at elem cs pos hs R S p" and "covered S 0 g"
  shows "\<exists>pp w'. import_parallel lib receive layout world (share_geometry g cs world) limit sync True default_shard p w = (Ok pp, w')
    \<and> holds_group lib at g cs pos hs world pp"
proof -
  have pos: "pt_position p = pos" using assms(7) by (simp add: complete_def)
  have step: "\<exists>dp w'. import_rank lib receive layout world (share_geometry g cs world) limit sync p rank w = (Ok dp, w')
      \<and> holds_share lib at g cs pos hs world rank dp" if "rank \<in> set [0..<world]" for rank w
  proof -
    let ?sh = "rank_shard layout world rank"
    have rank: "rank < world" using that by simp
    have sh: "ps_kv_heads ?sh = Some g" "ps_world ?sh = world" "ps_rank ?sh = rank"
      using assms(3) by (simp_all add: rank_shard_def)
    have split: "splits g (ps_world ?sh)" "ps_rank ?sh < ps_world ?sh" using assms(4) rank sh by simp_all
    obtain dp w1 where dp: "import_dense lib receive p (share_geometry g cs world rank) limit ?sh w = (Ok dp, w1)"
      "holds_share lib at g cs pos hs world rank dp"
      using import_dense_complete [OF assms(1,7) sh(1) split _ assms(8) _ assms(6), of w] assms(2) sh(2,3)
      by (auto simp: dense_contents_def)
    moreover obtain w2 where "sync rank w1 = (Ok (), w2)"
      using succeedsD [OF assms(5), of rank w1] rank by auto
    moreover have "dp_position dp = pos" using dp(2) by (simp add: holds_share_def)
    ultimately show ?thesis using pos by (simp add: import_rank_def)
  qed
  obtain ranks w' where "map_op (import_rank lib receive layout world (share_geometry g cs world) limit sync p) [0..<world] w = (Ok ranks, w')"
    "length ranks = world" "\<forall>i<world. holds_share lib at g cs pos hs world i (ranks ! i)"
    using map_op_all [where xs = "[0..<world]" and f = "import_rank lib receive layout world (share_geometry g cs world) limit sync p"
        and P = "\<lambda>rank. holds_share lib at g cs pos hs world rank"
        and w = w, OF step] by auto
  then show ?thesis
    using pos by (intro exI [of _ "\<lparr>pp_ranks = ranks, pp_position = pos\<rparr>"] exI [of _ w'])
      (simp add: import_parallel_def holds_group_def)
qed

section \<open>Host records\<close>

lemma entries_of_keys: "distinct (keys xs) \<Longrightarrow> map (\<lambda>k. (k, the (map_of xs k))) (keys xs) = xs"
  unfolding map_map by (rule map_idI) auto

lemma ordered_map_of_eq:
  assumes "ordered xs" and "ordered ys" and "map_of xs = map_of ys"
  shows "xs = ys"
proof -
  have "set (keys xs) = set (keys ys)" using assms(3) by (metis dom_map_of_conv_image_fst list.set_map)
  then have "keys xs = keys ys"
    using strict_sorted_equal [OF assms(1,2) [unfolded ordered_def]] by simp
  then show ?thesis
    using entries_of_keys [OF ordered_distinct [OF assms(1)]] entries_of_keys [OF ordered_distinct [OF assms(2)]] assms(3)
    by metis
qed

text \<open>The bytes of all heads of a content fit a machine word and its elements are floats.\<close>

definition host_sized :: "('t, 'd) tensor_lib \<Rightarrow> ('d, 'e) content \<Rightarrow> bool" where
  "host_sized lib ct \<longleftrightarrow> d_float lib (c_dtype ct) \<and> 0 < d_size lib (c_dtype ct)
     \<and> c_heads ct * c_rows ct * c_cols ct * d_size lib (c_dtype ct) \<le> usize_max"

lemma host_fragment:
  assumes "tensor_laws lib at elem" and "belongs_to lib receive at elem ct f" and "host_sized lib ct"
    and "host_fragment_of lib (name, f) = Ok hf"
  shows "\<exists>f'. (\<forall>p. insert_host lib hf p = insert_fragment name f' p) \<and> belongs_to lib receive' at elem ct f'
    \<and> span_of f' = span_of f"
proof -
  note b = belongs_toD [OF assms(2)]
  obtain d where d: "hf = \<lparr>hf_name = name, hf_total = fr_total f, hf_start = fr_start f, hf_data = d\<rparr>"
    "td_dtype d = c_dtype ct"
    "bytes_hold lib elem (fr_heads f) (c_rows ct) (c_cols ct) (\<lambda>h. c_elem ct (fr_start f + h)) d"
    using assms(4) b(10) block_into_data [OF assms(1)]
    by (fastforce simp: host_fragment_of_def bind_res_def resident_def split: payload.splits res.splits)
  let ?n = "fr_heads f" and ?r = "c_rows ct" and ?c = "c_cols ct" and ?s = "d_size lib (c_dtype ct)"
  have shape: "td_shape d = [1, ?n, ?r, ?c]" and len: "length (td_bytes d) = ?n * ?r * ?c * ?s"
    using d(2,3) by (simp_all add: bytes_hold_def)
  have "?n * ?r * ?c * ?s \<le> c_heads ct * ?r * ?c * ?s" using b(7) by (intro mult_right_mono) simp_all
  then have all: "?n * ?r * ?c * ?s \<le> usize_max" using assms(3) unfolding host_sized_def by linarith
  have sub: "?s \<le> usize_max" "?s * ?n \<le> usize_max" "?s * ?n * ?r \<le> usize_max" "?s * ?n * ?r * ?c \<le> usize_max"
    "?r * ?c * ?s \<le> usize_max" "?r * ?c \<le> usize_max"
    by (rule order_trans [OF _ all], use b(4-6) assms(3) in \<open>simp add: host_sized_def mult.commute mult.left_commute\<close>)+
  have bytes: "checked_bytes ?s [1, ?n, ?r, ?c] = Some (?n * ?r * ?c * ?s)"
    using sub by (simp add: checked_bytes_def checked_mul_def mult.commute mult.left_commute)
  let ?f = "\<lparr>fr_total = fr_total f, fr_start = fr_start f, fr_shape = [1, ?n, ?r, ?c], fr_dtype = c_dtype ct,
      fr_payload = OnHost d\<rparr> :: ('a, 'b) fragment"
  have "insert_host lib hf p = insert_fragment name ?f p" for p
    using bytes shape len d(2) assms(3) by (simp add: insert_host_def d(1) host_sized_def Let_def)
  moreover have "belongs_to lib receive' at elem ct ?f"
  proof -
    have "serves lib receive' at ?r ?c (\<lambda>h. c_elem ct (fr_start f + h)) ?f"
      by (rule serves_host [OF assms(1), where d = d]) (use d(2,3) sub in simp_all)
    then show ?thesis using d(2,3) b(1,4-8) by (simp add: belongs_to_def resident_def)
  qed
  ultimately show ?thesis by (intro exI [of _ ?f]) (simp add: span_of_def)
qed


lemma host_fragments:
  assumes "tensor_laws lib at elem" and "try_map (host_fragment_of lib) nfs = Ok frs"
    and "\<forall>(name, f)\<in>set nfs. name \<noteq> [] \<and> span_of f \<in> R name
          \<and> (\<exists>ct. cts name = Some ct \<and> host_sized lib ct \<and> belongs_to lib receive at elem ct f)"
    and "head_sharded lib receive' at elem cts R p"
  shows "\<exists>p'. for_op (insert_host lib) frs p = (Ok (), p') \<and> head_sharded lib receive' at elem cts R p' \<and> same_frame p p'
    \<and> (\<forall>name. spans_at p' name = span_of ` {f. (name, f) \<in> set nfs} \<union> spans_at p name)"
  using assms(2-)
proof (induction nfs arbitrary: frs p)
  case (Cons nf nfs)
  obtain name f where nf: "nf = (name, f)" by (cases nf)
  obtain hf rest where r: "host_fragment_of lib (name, f) = Ok hf" "try_map (host_fragment_of lib) nfs = Ok rest"
    "frs = hf # rest"
    using Cons.prems(1) by (auto simp: nf bind_res_def split: res.splits)
  obtain ct where ct: "name \<noteq> []" "span_of f \<in> R name" "cts name = Some ct" "host_sized lib ct"
    "belongs_to lib receive at elem ct f"
    using Cons.prems(2) by (auto simp: nf)
  obtain f' where f': "\<forall>p. insert_host lib hf p = insert_fragment name f' p" "belongs_to lib receive' at elem ct f'"
    "span_of f' = span_of f"
    using host_fragment [OF assms(1) ct(5,4) r(1)] by blast
  obtain p1 where p1: "insert_fragment name f' p = (Ok (), p1)" "head_sharded lib receive' at elem cts R p1" "same_frame p p1"
    "spans_at p1 = (spans_at p)(name := insert (span_of f') (spans_at p name))"
    by (rule insert_sharded [OF Cons.prems(3) ct(3,1) f'(2)]) (use ct(2) f'(3) in simp)
  obtain p2 where p2: "for_op (insert_host lib) rest p1 = (Ok (), p2)" "head_sharded lib receive' at elem cts R p2"
    "same_frame p1 p2" "\<forall>name. spans_at p2 name = span_of ` {f. (name, f) \<in> set nfs} \<union> spans_at p1 name"
    using Cons.IH [OF r(2) _ p1(2)] Cons.prems(2) by auto
  have "spans_at p2 n = span_of ` {f. (n, f) \<in> set (nf # nfs)} \<union> spans_at p n" for n
    using p2(4) p1(4) f'(3) by (auto simp: nf)
  then show ?case
    using f'(1) p1(1) p2(1,2) same_frame_trans [OF p1(3) p2(3)] by (auto simp: r(3))
qed simp


lemma in_named_fragments: "(name, f) \<in> set (named_fragments ts) \<longleftrightarrow> (\<exists>fs. (name, fs) \<in> set ts \<and> f \<in> set fs)"
  by (force simp: named_fragments_def)

lemma named_fragments_at:
  assumes "ordered ts"
  shows "{f. (name, f) \<in> set (named_fragments ts)} = set (case map_of ts name of Some fs \<Rightarrow> fs | None \<Rightarrow> [])"
proof -
  have "(name, fs) \<in> set ts \<longleftrightarrow> map_of ts name = Some fs" for fs
    using in_map_of [OF assms] map_of_SomeD by metis
  then show ?thesis unfolding in_named_fragments by (cases "map_of ts name") simp_all
qed

lemma layer_contents_all:
  "(name, ct) \<in> set (layer_contents k cs) \<Longrightarrow> \<forall>(key, val)\<in>set cs. P key \<and> P val \<Longrightarrow> P ct"
  by (induction cs arbitrary: k) (auto simp: layer_contents_Cons layer_contents_def [of _ "[]"])

lemma scalars_again:
  fixes p :: "('t, 'd) prefix_tensors"
  assumes "pt_scalars p = []"
  shows "for_op put_scalar (put_all (all_scalars hs) []) p = (Ok (), with_scalars (put_all (put_all (all_scalars hs) []) []) p)
    \<and> put_all (put_all (all_scalars hs) []) [] = put_all (all_scalars hs) []"
proof -
  let ?sc = "put_all (all_scalars hs) []"
  note sc = put_all_scalars(2,4) [of p, OF assms, where hs = hs]
  have named: "\<forall>(name, v)\<in>set ?sc. name \<noteq> []"
    using in_map_of [OF sc(2)] sc(1) all_scalars_named map_of_SomeD by fastforce
  have none: "ordered (pt_scalars p)" "set (keys ?sc) \<inter> set (keys (pt_scalars p)) = {}"
    by (simp_all add: assms ordered_def)
  note all = set_scalars [OF ordered_distinct [OF sc(2)] named none, unfolded assms]
  have "map_of (put_all ?sc []) = map_of ?sc" using all by (auto simp: fun_eq_iff split: option.splits)
  then have "put_all ?sc [] = ?sc" using all sc(2) by (intro ordered_map_of_eq) simp_all
  then show ?thesis using all by simp
qed

lemma decode_complete:
  assumes "tensor_laws lib at elem" and "complete lib receive at elem cs pos hs R S p"
    and "\<forall>(key, val)\<in>set cs. host_sized lib key \<and> host_sized lib val"
    and "host_record lib mid p = Ok h" and "mid \<noteq> []"
  shows "\<exists>p'. from_host_record lib mid h = Ok p' \<and> complete lib receive' at elem cs pos hs R S p'"
proof -
  let ?schema = "if hs = [] then ''dense-kv-v1'' else ''dense-kv-v2''" and ?sc = "put_all (all_scalars hs) []"
  obtain ts where p: "p = PrefixTensors pos ?schema ts [] ?sc"
    using assms(2) by (cases p) (simp add: complete_def)
  have sh: "head_sharded lib receive at elem (contents_of cs) (\<lambda>_. R) p"
    and shown: "\<forall>name. spans_at p name = (if name \<in> set (keys (layer_contents 0 cs)) then S else {})"
    using assms(2) by (simp_all add: complete_def)
  have ord: "ordered ts" using sh by (simp add: head_sharded_def p)
  obtain frs where frs: "try_map (host_fragment_of lib) (named_fragments ts) = Ok frs"
    "h = HostPrefix (if ?sc = [] then 1 else 2) mid ?schema pos frs [] ?sc"
    using assms(4) by (auto simp: p bind_res_def split: res.splits)
  let ?p0 = "new_tensors ?schema pos :: ('a, 'b) prefix_tensors"
  let ?p1 = "with_scalars ?sc ?p0"
  have "for_op put_scalar ?sc ?p0 = (Ok (), with_scalars (put_all ?sc []) ?p0) \<and> put_all ?sc [] = ?sc"
    by (rule scalars_again) (simp add: new_tensors_def)
  then have scalars: "build (for_op put_scalar ?sc) ?p0 = Ok ?p1" by (simp add: build_def)
  have start: "head_sharded lib receive' at elem (contents_of cs) (\<lambda>_. R) ?p1"
    using sh by (simp add: head_sharded_def new_tensors_def ordered_def)
  have each: "\<forall>(name, f)\<in>set (named_fragments ts). name \<noteq> [] \<and> span_of f \<in> R
      \<and> (\<exists>ct. contents_of cs name = Some ct \<and> host_sized lib ct \<and> belongs_to lib receive at elem ct f)"
  proof clarify
    fix name f assume "(name, f) \<in> set (named_fragments ts)"
    then obtain fs where fs: "map_of (pt_tensors p) name = Some fs" "f \<in> set fs"
      using in_map_of [OF ord] by (auto simp: named_fragments_def p)
    note n = sharded_name [OF sh fs(1)]
    then obtain ct where ct: "contents_of cs name = Some ct" by blast
    have "host_sized lib ct" by (rule layer_contents_all [OF map_of_SomeD [OF ct] assms(3)])
    moreover have "belongs_to lib receive at elem ct f" using n(4) [OF ct] fs(2) by (simp add: lined_up_def)
    moreover have "span_of f \<in> R" using n(3) fs(2) by (auto simp: spans_def)
    ultimately show "name \<noteq> [] \<and> span_of f \<in> R
      \<and> (\<exists>ct. contents_of cs name = Some ct \<and> host_sized lib ct \<and> belongs_to lib receive at elem ct f)"
      using n(1) ct by blast
  qed
  obtain p' where p': "for_op (insert_host lib) frs ?p1 = (Ok (), p')"
    "head_sharded lib receive' at elem (contents_of cs) (\<lambda>_. R) p'" "same_frame ?p1 p'"
    "\<forall>name. spans_at p' name = span_of ` {f. (name, f) \<in> set (named_fragments ts)} \<union> spans_at ?p1 name"
    using host_fragments [OF assms(1) frs(1) each start] by blast
  have "spans_at p' name = spans_at p name" for name
    using p'(4) by (simp add: named_fragments_at [OF ord] p spans_at_def spans_def fragments_of_def new_tensors_def)
  then have "complete lib receive' at elem cs pos hs R S p'"
    using p'(2,3) shown by (simp add: complete_def same_frame_def new_tensors_def)
  moreover have "from_host_record lib mid h = Ok p'"
    using scalars p'(1) assms(5) by (simp add: frs(2) bind_res_def build_def)
  ultimately show ?thesis by blast
qed


lemma host_record_model: "host_record lib mid p = Ok h \<Longrightarrow> hp_model h = mid"
  by (cases p) (auto simp: bind_res_def split: res.splits)

text \<open>A prefix that is complete without a receiver has no remote payload, so its record exists.\<close>

lemma try_map_total: "\<forall>x\<in>set xs. \<exists>y. f x = Ok y \<Longrightarrow> \<exists>ys. try_map f xs = Ok ys"
  by (induction xs) (auto simp: bind_res_def)

lemma host_record_exists:
  fixes receive :: "('t, 'd, 'w) receiver"
  assumes "complete lib receive at elem cs pos hs R S p" and "receive = (\<lambda>_ _ _ _ _. panic_op)"
    and "\<forall>t. \<exists>d. t_into_data lib t = Ok d"
  shows "\<exists>h. host_record lib mid p = Ok h"
proof -
  obtain pos' schema ts sc where p: "p = PrefixTensors pos' schema ts [] sc"
    using assms(1) by (cases p) (simp add: complete_def)
  have sh: "head_sharded lib receive at elem (contents_of cs) (\<lambda>_. R) p" using assms(1) by (simp add: complete_def)
  then have ord: "ordered ts" by (simp add: head_sharded_def p)
  have "\<exists>hf. host_fragment_of lib (name, f) = Ok hf" if f: "(name, f) \<in> set (named_fragments ts)" for name f
  proof -
    obtain fs where fs: "map_of (pt_tensors p) name = Some fs" "f \<in> set fs"
      using f in_map_of [OF ord] by (auto simp: in_named_fragments p)
    then obtain ct where "belongs_to lib receive at elem ct f"
      using sharded_name(4,5) [OF sh fs(1)] by (auto simp: lined_up_def)
    note b = belongs_toD(4,9) [OF this]
    have "\<not> (\<exists>i producer. fr_payload f = Remote i producer)"
      using b(2) [unfolded serves_def, rule_format, of 0 "fr_heads f" 0 0 undefined] b(1) assms(2)
      by (auto simp: take_heads_def panic_op_def)
    moreover obtain into where "\<And>t. t_into_data lib t = Ok (into t)" using assms(3) by metis
    ultimately show ?thesis by (cases "fr_payload f") (auto simp: host_fragment_of_def bind_res_def)
  qed
  then have "\<exists>frs. try_map (host_fragment_of lib) (named_fragments ts) = Ok frs"
    by (intro try_map_total) auto
  then show ?thesis by (auto simp: p bind_res_def)
qed

section \<open>Properties\<close>

text \<open>
  C34: A cached prefix survives a change of the tensor parallel size: the prefix that a group of
  \<open>W\<close> ranks exports, every rank holding the heads it owns (several per rank, or one replicated on
  several ranks), can be imported by a group of any other size that splits the heads. Export, merge
  and import succeed, and every rank of the new group holds exactly the heads it owns of every key
  and value tensor, element by element, with the position and the rotary histories of the source.
\<close>

theorem resharding_keeps_heads:
  assumes "tensor_laws lib at elem" and "dense_contents g pos cs hs"
    and "ps_kv_heads source = Some g" and "splits g W" and "succeeds W sync"
    and "ps_kv_heads dest = Some g" and "splits g W'" and "succeeds W' sync'"
    and "pos \<le> limit" and "holds_group lib at g cs pos hs W pp"
  shows "\<exists>p w' pp' v'. export_parallel lib source W sync True default_shard pp w = (Ok p, w')
    \<and> import_parallel lib receive dest W' (share_geometry g cs W') limit sync' True default_shard p v = (Ok pp', v')
    \<and> holds_group lib at g cs pos hs W' pp'"
  using export_group [OF assms(1-5,10), where w = w and receive = receive]
    import_group [OF assms(1,2,6-9) _ all_shards_cover [OF assms(4)], where w = v and receive = receive]
  by blast

definition demo_content :: "nat \<Rightarrow> (unit, 8 word) content" where
  "demo_content k = \<lparr>c_heads = 2, c_rows = 1, c_cols = 1, c_dtype = (), c_elem = \<lambda>h _ _. word_of_nat (k + h)\<rparr>"

definition demo_history :: rotary_history where
  "demo_history = \<lparr>rh_initial = 1, rh_spans = [(1, 1)]\<rparr>"

definition demo_rank :: "nat \<Rightarrow> byte_tensor dense_prefix" where
  "demo_rank i = \<lparr>dp_position = 1,
     dp_layers = [((1, 1, [\<lambda>_ _. word_of_nat (10 + i)]), (1, 1, [\<lambda>_ _. word_of_nat (20 + i)]))],
     dp_rotary = [demo_history]\<rparr>"

definition demo_group :: "byte_tensor parallel_prefix" where
  "demo_group = \<lparr>pp_ranks = [demo_rank 0, demo_rank 1], pp_position = 1\<rparr>"

definition demo_layout :: prefix_shard where
  "demo_layout = default_shard\<lparr>ps_kv_heads := Some 2\<rparr>"

abbreviation no_receiver :: "(byte_tensor, unit, unit) receiver" where
  "no_receiver \<equiv> \<lambda>_ _ _ _ _. panic_op"

lemma all_less_two: "(\<forall>i<2. P i) \<longleftrightarrow> P 0 \<and> P (1::nat)"
  using less_2_cases_iff by auto

lemma demo_transfer:
  "dense_contents 2 1 [(demo_content 10, demo_content 20)] [demo_history]"
  "ps_kv_heads demo_layout = Some 2" "splits 2 2" "splits 2 1" "succeeds n (\<lambda>_. ret_op ())"
  "holds_group byte_lib byte_at 2 [(demo_content 10, demo_content 20)] 1 [demo_history] 2 demo_group"
  "host_sized byte_lib (demo_content 10)" "host_sized byte_lib (demo_content 20)"
proof -
  show "dense_contents 2 1 [(demo_content 10, demo_content 20)] [demo_history]"
    by (simp add: dense_contents_def content_ok_def demo_content_def demo_history_def validate_history_def usize_max_def)
  show "ps_kv_heads demo_layout = Some 2" "splits 2 2" "splits 2 1" "succeeds n (\<lambda>_. ret_op ())"
    by (simp_all add: demo_layout_def splits_def succeeds_def ret_op_def)
  show "host_sized byte_lib (demo_content 10)" "host_sized byte_lib (demo_content 20)"
    by (simp_all add: host_sized_def demo_content_def usize_max_def) (simp_all add: byte_lib_def)
  show "holds_group byte_lib byte_at 2 [(demo_content 10, demo_content 20)] 1 [demo_history] 2 demo_group"
    by (simp add: holds_group_def holds_share_def shows_heads_def byte_block shard_span_def demo_group_def demo_rank_def
        demo_content_def all_less_two)
qed

lemma resharding_keeps_heads_witness:
  "\<exists>p w' pp' v'. export_parallel byte_lib demo_layout 2 (\<lambda>_. ret_op ()) True default_shard demo_group () = (Ok p, w')
    \<and> import_parallel byte_lib no_receiver demo_layout 1
        (share_geometry 2 [(demo_content 10, demo_content 20)] 1) 8 (\<lambda>_. ret_op ()) True default_shard p () = (Ok pp', v')
    \<and> holds_group byte_lib byte_at 2 [(demo_content 10, demo_content 20)] 1 [demo_history] 1 pp'"
  by (rule resharding_keeps_heads [OF byte_laws demo_transfer(1-3,5,2,4,5) _ demo_transfer(6)]) simp

text \<open>
  C35: A cached prefix survives the way through host bytes: what a group of ranks exports and encodes
  under the identity of its model decodes under that identity, whatever its position, its rotary
  histories and its number of ranks, and a group of any other size imports from it the heads its
  ranks own, element by element. Under any other identity the bytes are refused.
\<close>

theorem host_transfer_keeps_heads:
  assumes "tensor_laws lib at elem" and "dense_contents g pos cs hs"
    and "ps_kv_heads source = Some g" and "splits g W" and "succeeds W sync"
    and "ps_kv_heads dest = Some g" and "splits g W'" and "succeeds W' sync'"
    and "pos \<le> limit" and "holds_group lib at g cs pos hs W pp"
    and "\<forall>(key, val)\<in>set cs. host_sized lib key \<and> host_sized lib val" and "mid \<noteq> []"
    and "\<And>h bs. enc h = Ok bs \<Longrightarrow> decoded bs = Ok h"
    and "export_parallel lib source W sync True default_shard pp w = (Ok p, w')"
    and "encode_host lib enc mid p = Ok bs"
  shows "\<exists>p' pp' v'. decode_host lib decoded mid bs = Ok p'
    \<and> import_parallel lib receive dest W' (share_geometry g cs W') limit sync' True default_shard p' v = (Ok pp', v')
    \<and> holds_group lib at g cs pos hs W' pp'
    \<and> (\<forall>other. other \<noteq> mid \<longrightarrow>
         decode_host lib decoded other bs = Err (ModelFailure ''prefix transfer identity/version differs''))"
proof -
  have exported: "complete lib receive at elem cs pos hs (all_shards g W) (all_shards g W) p"
    using export_group [OF assms(1-5,10), where w = w and receive = receive] assms(14) by auto
  obtain h where h: "host_record lib mid p = Ok h" "decoded bs = Ok h"
    using assms(13,15) by (auto simp: encode_host_def bind_res_def split: res.splits)
  obtain p' where p': "from_host_record lib mid h = Ok p'"
    "complete lib receive at elem cs pos hs (all_shards g W) (all_shards g W) p'"
    using decode_complete [OF assms(1) exported assms(11) h(1) assms(12), where receive' = receive] by blast
  have "decode_host lib decoded mid bs = Ok p'" using h(2) p'(1) by (simp add: decode_host_def bind_res_def)
  moreover have "decode_host lib decoded other bs = Err (ModelFailure ''prefix transfer identity/version differs'')"
    if "other \<noteq> mid" for other
    using h that host_record_model [OF h(1)] by (cases h) (auto simp: decode_host_def bind_res_def)
  ultimately show ?thesis
    using import_group [OF assms(1,2,6-9) p'(2) all_shards_cover [OF assms(4)], where w = v] by blast
qed


lemma host_transfer_keeps_heads_witness:
  "\<exists>enc decoded p bs p' pp' v'.
      fst (export_parallel byte_lib demo_layout 2 (\<lambda>_. ret_op ()) True default_shard demo_group ()) = Ok p
    \<and> encode_host byte_lib enc ''model'' p = Ok bs \<and> decode_host byte_lib decoded ''model'' bs = Ok p'
    \<and> import_parallel byte_lib no_receiver demo_layout 1
        (share_geometry 2 [(demo_content 10, demo_content 20)] 1) 8 (\<lambda>_. ret_op ()) True default_shard p' () = (Ok pp', v')
    \<and> holds_group byte_lib byte_at 2 [(demo_content 10, demo_content 20)] 1 [demo_history] 1 pp'"
proof -
  let ?cs = "[(demo_content 10, demo_content 20)]"
  obtain p w' where p: "export_parallel byte_lib demo_layout 2 (\<lambda>_. ret_op ()) True default_shard demo_group () = (Ok p, w')"
    "complete byte_lib no_receiver byte_at byte_elem ?cs 1 [demo_history] (all_shards 2 2) (all_shards 2 2) p"
    using export_group [OF byte_laws demo_transfer(1-3,5,6), where receive = no_receiver and w = "()"] by blast
  obtain h where h: "host_record byte_lib ''model'' p = Ok h"
    using host_record_exists [OF p(2) refl, of "''model''"] by (auto simp: byte_lib_def)
  let ?enc = "\<lambda>h'. if h' = h then Ok [1] else Err ''unknown''" and ?dec = "\<lambda>_. Ok h :: (string, unit host_prefix) res"
  have limit: "(1::nat) \<le> 8" by simp
  have sized: "\<forall>(key, val)\<in>set ?cs. host_sized byte_lib key \<and> host_sized byte_lib val"
    by (simp add: demo_transfer(7,8))
  have codec: "?enc h' = Ok bs \<Longrightarrow> ?dec bs = Ok h'" for h' bs by (simp split: if_splits)
  have e: "encode_host byte_lib ?enc ''model'' p = Ok [1]" using h by (simp add: encode_host_def bind_res_def)
  have moved: "\<exists>p' pp' v'. decode_host byte_lib ?dec ''model'' [1] = Ok p'
    \<and> import_parallel byte_lib no_receiver demo_layout 1 (share_geometry 2 ?cs 1) 8 (\<lambda>_. ret_op ()) True default_shard p' ()
        = (Ok pp', v')
    \<and> holds_group byte_lib byte_at 2 ?cs 1 [demo_history] 1 pp'
    \<and> (\<forall>other. other \<noteq> ''model'' \<longrightarrow>
         decode_host byte_lib ?dec other [1] = Err (ModelFailure ''prefix transfer identity/version differs''))"
    by (rule host_transfer_keeps_heads [where enc = ?enc and decoded = ?dec, OF byte_laws demo_transfer(1-3,5,2,4,5) limit
        demo_transfer(6) sized _ codec p(1) e]) simp
  from moved obtain p' pp' v' where "decode_host byte_lib ?dec ''model'' [1] = Ok p'"
    "import_parallel byte_lib no_receiver demo_layout 1 (share_geometry 2 ?cs 1) 8 (\<lambda>_. ret_op ()) True default_shard p' ()
        = (Ok pp', v')"
    "holds_group byte_lib byte_at 2 ?cs 1 [demo_history] 1 pp'"
    by (elim exE conjE) (rule that)
  moreover have "fst (export_parallel byte_lib demo_layout 2 (\<lambda>_. ret_op ()) True default_shard demo_group ()) = Ok p"
    using p(1) by (simp only: fst_conv)
  ultimately show ?thesis using e by (intro exI conjI)
qed

end
