(* ===== verification/Session.thy ===== *)
theory Session
  imports Generation
begin

text \<open>
  \<^verbatim>\<open>src/src/generation/session.rs\<close> and the hand-over record \<open>PrefilledPrompt\<close> of
  \<^verbatim>\<open>src/src/prefix_cache.rs\<close>: a request that the caller drives step by step.

  The state of an operation is the session and the world. \<open>step_inner\<close> leaves the session
  as the code leaves it when it returns early: a failed forward keeps the cache it changed,
  an error after it keeps the logits and the consumed input. \<open>run_stream\<close> is the \<open>while let\<close>
  loop, an option that is \<open>None\<close> when the loop does not return. The sampler is a parameter
  \<open>sample\<close>, a function of its state, the logits and the history.
\<close>

section \<open>Data\<close>

record ('c, 'l) prefilled =
  pre_model_id :: string
  pre_limits :: causal_limits
  pre_tokens :: "int list"
  pre_cache :: 'c
  pre_logits :: 'l

record generation_step =
  step_token :: int
  step_generated :: nat
  step_reason :: "finish_reason option"

record ('c, 'l, 's) session =
  limits :: causal_limits
  generation :: greedy_generation
  matcher :: "int matcher"
  eos :: "int list"
  cache :: 'c
  logits :: "'l option"
  pending_input :: "int option"
  sampler :: "'s option"
  prompt_length :: nat
  processed_tokens :: nat
  out :: token_output
  finish_reason :: "finish_reason option"
  fault :: "generation_error option"

type_synonym ('c, 'l, 's, 'w, 'a) session_op =
  "(('c, 'l, 's) session \<times> 'w, generation_error, 'a) op"

text \<open>A sampler: its state, the logits, the prompt and the generated tokens.\<close>

type_synonym ('s, 'l) sampler_fun =
  "'s \<Rightarrow> 'l \<Rightarrow> int list \<Rightarrow> int list \<Rightarrow> (generation_error, int) res \<times> 's"

type_synonym ('l, 'w) processor = "'l \<Rightarrow> ('w, generation_error, 'l) op"

definition session_generated :: "('c, 'l, 's) session \<Rightarrow> nat" where
  "session_generated s = length (generated_token_ids (out s))"

section \<open>Starting a session\<close>

definition prefilled_ok ::
  "('c, 'l) causal_model \<Rightarrow> string \<Rightarrow> causal_limits \<Rightarrow> int list \<Rightarrow> ('c, 'l) prefilled \<Rightarrow> bool" where
  "prefilled_ok mdl model_id lim prompt p \<longleftrightarrow>
     (case dims mdl (pre_logits p) of (batch, sequence, vocabulary) \<Rightarrow>
        model_id \<noteq> [] \<and> pre_model_id p = model_id \<and> pre_limits p = lim \<and> pre_tokens p \<noteq> []
        \<and> take (length (pre_tokens p)) prompt = pre_tokens p
        \<and> batch = 1 \<and> sequence = 1 \<and> vocabulary = vocab_size lim)
     \<and> same_device mdl (pre_logits p)"

definition check_logits ::
  "('c, 'l) causal_model \<Rightarrow> causal_limits \<Rightarrow> 'l \<Rightarrow> (generation_error, unit) res" where
  "check_logits mdl lim l =
     (case dims mdl l of (batch, sequence, vocabulary) \<Rightarrow>
        if batch \<noteq> 1 \<or> sequence = 0 \<or> vocabulary \<noteq> vocab_size lim \<or> \<not> same_device mdl l
        then Err (BadLogits (batch, sequence, vocabulary)) else Ok ())"

definition empty_session ::
  "('c, 'l) causal_model \<Rightarrow> causal_limits \<Rightarrow> int list \<Rightarrow> greedy_generation \<Rightarrow> 's option
   \<Rightarrow> int list \<Rightarrow> int matcher \<Rightarrow> finish_reason option \<Rightarrow> ('c, 'l, 's) session" where
  "empty_session mdl lim prompt gen smp ends m reason =
     \<lparr>limits = lim, generation = gen, matcher = m, eos = ends, cache = fresh_cache mdl,
      logits = None, pending_input = None, sampler = smp, prompt_length = length prompt,
      processed_tokens = 0,
      out = \<lparr>token_ids = prompt, generated_token_ids = [], stopped_on_eos = False\<rparr>,
      finish_reason = reason, fault = None\<rparr>"

text \<open>
  The prefill of \<open>new_with_prefix\<close>: from the cache of the prefix, where there is one. The
  slice of the prompt panics when the prefix is longer; the callers have checked it.
\<close>

definition prefill_session ::
  "('c, 'l) causal_model \<Rightarrow> int list \<Rightarrow> ('c, 'l) prefilled option \<Rightarrow> ('c, 'l, 's) session
   \<Rightarrow> (generation_error, ('c, 'l, 's) session) res" where
  "prefill_session mdl prompt pfx s =
     (let (start, c, pending) =
        (case pfx of
           Some p \<Rightarrow> (length (pre_tokens p), pre_cache p, Some (pre_logits p))
         | None \<Rightarrow> (0, cache s, logits s)) in
      case
        (if start = length prompt
         then (case pending of Some l \<Rightarrow> (Ok l, c) | None \<Rightarrow> (Err NoNextLogits, c))
         else if start > length prompt then (Panic, c)
         else try_forward mdl (drop start prompt) c) of
        (Err e, _) \<Rightarrow> Err e
      | (Panic, _) \<Rightarrow> Panic
      | (Ok l, c) \<Rightarrow>
          (case check_logits mdl (limits s) l of
             Err e \<Rightarrow> Err e
           | Panic \<Rightarrow> Panic
           | Ok _ \<Rightarrow> Ok (s\<lparr>cache := c, logits := Some l, processed_tokens := length prompt\<rparr>)))"

definition new_with_prefix ::
  "('c, 'l) causal_model \<Rightarrow> causal_limits \<Rightarrow> int list \<Rightarrow> greedy_generation \<Rightarrow> 's option \<Rightarrow> 'w control
   \<Rightarrow> ('c, 'l) prefilled option \<Rightarrow> ('w, ('c, 'l, 's) session) generation_op" where
  "new_with_prefix mdl lim prompt gen smp ctl pfx w =
     (case validate_generation lim prompt gen of
        Err e \<Rightarrow> (Err e, w)
      | Panic \<Rightarrow> (Panic, w)
      | Ok ends \<Rightarrow>
     (case control_validate (stop_token_sequences ctl) (vocab_size lim) of
        Err e \<Rightarrow> (Err e, w)
      | Panic \<Rightarrow> (Panic, w)
      | Ok _ \<Rightarrow>
     (case poll ctl w of (b, w) \<Rightarrow>
      let reason = if b then Some Cancelled
                   else if max_new_tokens gen = 0 then Some MaxNewTokens else None in
      case matcher_new (stop_token_sequences ctl) of
        None \<Rightarrow> (Panic, w)
      | Some m \<Rightarrow>
          let s = empty_session mdl lim prompt gen smp ends m reason in
          if reason = None then (prefill_session mdl prompt pfx s, w) else (Ok s, w))))"

definition new_session ::
  "('c, 'l) causal_model \<Rightarrow> causal_limits \<Rightarrow> int list \<Rightarrow> greedy_generation \<Rightarrow> 's option \<Rightarrow> 'w control
   \<Rightarrow> ('w, ('c, 'l, 's) session) generation_op" where
  "new_session mdl lim prompt gen smp ctl = new_with_prefix mdl lim prompt gen smp ctl None"

definition new_greedy ::
  "('c, 'l) causal_model \<Rightarrow> causal_limits \<Rightarrow> int list \<Rightarrow> greedy_generation \<Rightarrow> 'w control
   \<Rightarrow> ('w, ('c, 'l, 's) session) generation_op" where
  "new_greedy mdl lim prompt gen ctl = new_session mdl lim prompt gen None ctl"

definition new_greedy_prefilled ::
  "('c, 'l) causal_model \<Rightarrow> causal_limits \<Rightarrow> int list \<Rightarrow> greedy_generation \<Rightarrow> 'w control \<Rightarrow> string
   \<Rightarrow> ('c, 'l) prefilled \<Rightarrow> ('w, ('c, 'l, 's) session) generation_op" where
  "new_greedy_prefilled mdl lim prompt gen ctl model_id p w =
     (if prefilled_ok mdl model_id lim prompt p
      then new_with_prefix mdl lim prompt gen None ctl (Some p) w
      else (Err (ModelFailure ''prefix identity, tokens, limits or native logits differ''), w))"

section \<open>Steps\<close>

definition finish :: "finish_reason \<Rightarrow> ('c, 'l, 's) session \<Rightarrow> ('c, 'l, 's) session" where
  "finish reason s = s\<lparr>finish_reason := Some reason, pending_input := None, logits := None\<rparr>"

text \<open>Forwarding the token selected by the previous step.\<close>

definition forward_pending :: "('c, 'l) causal_model \<Rightarrow> ('c, 'l, 's, 'w, unit) session_op" where
  "forward_pending mdl sw =
     (case sw of (s, w) \<Rightarrow>
      case pending_input s of
        None \<Rightarrow> (Ok (), (s, w))
      | Some token \<Rightarrow>
      (case try_forward mdl [token] (cache s) of
         (Err e, c) \<Rightarrow> (Err e, (s\<lparr>cache := c\<rparr>, w))
       | (Panic, c) \<Rightarrow> (Panic, (s\<lparr>cache := c\<rparr>, w))
       | (Ok l, c) \<Rightarrow>
       (case check_logits mdl (limits s) l of
          Err e \<Rightarrow> (Err e, (s\<lparr>cache := c\<rparr>, w))
        | Panic \<Rightarrow> (Panic, (s\<lparr>cache := c\<rparr>, w))
        | Ok _ \<Rightarrow>
          let s = s\<lparr>cache := c, logits := Some l, pending_input := None\<rparr> in
          case checked_add (processed_tokens s) 1 of
            None \<Rightarrow> (Err InputCountOverflow, (s, w))
          | Some n \<Rightarrow> (Ok (), (s\<lparr>processed_tokens := n\<rparr>, w)))))"

text \<open>The choice of one token: the processor, the check of its logits, sampler or greedy.\<close>

definition choose_token ::
  "('c, 'l) causal_model \<Rightarrow> ('s, 'l) sampler_fun \<Rightarrow> ('l, 'w) processor option
   \<Rightarrow> ('c, 'l, 's, 'w, int) session_op" where
  "choose_token mdl sample processor sw =
     (case sw of (s, w) \<Rightarrow>
      case logits s of
        None \<Rightarrow> (Err NoNextLogits, (s, w))
      | Some l \<Rightarrow>
      (case (case processor of Some f \<Rightarrow> f l w | None \<Rightarrow> (Ok l, w)) of
         (Err e, w) \<Rightarrow> (Err e, (s, w))
       | (Panic, w) \<Rightarrow> (Panic, (s, w))
       | (Ok l, w) \<Rightarrow>
       (case check_logits mdl (limits s) l of
          Err e \<Rightarrow> (Err e, (s, w))
        | Panic \<Rightarrow> (Panic, (s, w))
        | Ok _ \<Rightarrow>
          (case sampler s of
             Some smp \<Rightarrow>
               (case sample smp l (take (prompt_length s) (token_ids (out s)))
                       (generated_token_ids (out s)) of
                  (r, smp) \<Rightarrow> (r, (s\<lparr>sampler := Some smp\<rparr>, w)))
           | None \<Rightarrow> (greedy_token mdl l, (s, w))))))"

definition accept_token :: "int \<Rightarrow> ('c, 'l, 's, 'w, generation_step option) session_op" where
  "accept_token token sw =
     (case sw of (s, w) \<Rightarrow>
      if outside (vocab_size (limits s)) token
      then (Err (SelectedOutsideVocabulary token (vocab_size (limits s))), (s, w))
      else
        let s = s\<lparr>logits := None, out := append_token (eos s) token (out s)\<rparr> in
        case push (matcher s) token of
          None \<Rightarrow> (Panic, (s, w))
        | Some (m, hit) \<Rightarrow>
            let s = s\<lparr>matcher := m\<rparr>;
                reason = natural_stop (eos s) (max_new_tokens (generation s)) token hit (session_generated s);
                s = (case reason of Some r \<Rightarrow> finish r s | None \<Rightarrow> s\<lparr>pending_input := Some token\<rparr>) in
            (Ok (Some \<lparr>step_token = token, step_generated = session_generated s, step_reason = reason\<rparr>),
             (s, w)))"

definition step_inner ::
  "('c, 'l) causal_model \<Rightarrow> 'w control \<Rightarrow> ('s, 'l) sampler_fun \<Rightarrow> ('l, 'w) processor option
   \<Rightarrow> ('c, 'l, 's, 'w, generation_step option) session_op" where
  "step_inner mdl ctl sample processor sw =
     (case sw of (s, w) \<Rightarrow>
      if finish_reason s \<noteq> None then (Ok None, (s, w))
      else case poll ctl w of
        (True, w) \<Rightarrow> (Ok None, (finish Cancelled s, w))
      | (False, w) \<Rightarrow>
          bind_op (forward_pending mdl)
            (\<lambda>_. bind_op (choose_token mdl sample processor) accept_token) (s, w))"

text \<open>\<open>step\<close> and \<open>step_with_logits_processor\<close>: an error is kept and returned again.\<close>

definition session_step ::
  "('c, 'l) causal_model \<Rightarrow> 'w control \<Rightarrow> ('s, 'l) sampler_fun \<Rightarrow> ('l, 'w) processor option
   \<Rightarrow> ('c, 'l, 's, 'w, generation_step option) session_op" where
  "session_step mdl ctl sample processor sw =
     (case fault (fst sw) of
        Some e \<Rightarrow> (Err e, sw)
      | None \<Rightarrow>
          (case step_inner mdl ctl sample processor sw of
             (Err e, (s, w)) \<Rightarrow> (Err e, (s\<lparr>fault := Some e\<rparr>, w))
           | r \<Rightarrow> r))"

section \<open>Running to the end\<close>

text \<open>
  One turn of the \<open>while let\<close>: a step and, for a token, the callback. \<open>Inl\<close> leaves the
  loop, \<open>Inr\<close> goes on.
\<close>

definition loop_body ::
  "('c, 'l) causal_model \<Rightarrow> 'w control \<Rightarrow> ('s, 'l) sampler_fun \<Rightarrow> 'w callback
   \<Rightarrow> ('c, 'l, 's) session \<times> 'w
   \<Rightarrow> (generation_error, unit) res \<times> (('c, 'l, 's) session \<times> 'w) + ('c, 'l, 's) session \<times> 'w" where
  "loop_body mdl ctl sample on_token sw =
     (case session_step mdl ctl sample None sw of
        (Err e, sw) \<Rightarrow> Inl (Err e, sw)
      | (Panic, sw) \<Rightarrow> Inl (Panic, sw)
      | (Ok None, sw) \<Rightarrow> Inl (Ok (), sw)
      | (Ok (Some st), (s, w)) \<Rightarrow>
          (case on_token \<lparr>event_token = step_token st,
                          event_generated = generated_token_ids (out s),
                          event_reason = step_reason st\<rparr> w of
             (response, w) \<Rightarrow>
               if step_reason st \<noteq> None then Inr (s, w)
               else if response = Break then Inr (finish Cancelled s, w)
               else (case poll ctl w of
                 (True, w) \<Rightarrow> Inr (finish Cancelled s, w)
               | (False, w) \<Rightarrow> Inr (s, w))))"

partial_function (option) step_loop ::
  "('c, 'l) causal_model \<Rightarrow> 'w control \<Rightarrow> ('s, 'l) sampler_fun \<Rightarrow> 'w callback
   \<Rightarrow> ('c, 'l, 's) session \<times> 'w
   \<Rightarrow> ((generation_error, unit) res \<times> (('c, 'l, 's) session \<times> 'w)) option" where
  "step_loop mdl ctl sample on_token sw =
     (case loop_body mdl ctl sample on_token sw of
        Inl r \<Rightarrow> Some r
      | Inr sw' \<Rightarrow> step_loop mdl ctl sample on_token sw')"

definition run_stream ::
  "('c, 'l) causal_model \<Rightarrow> 'w control \<Rightarrow> ('w, unit) generation_op \<Rightarrow> ('s, 'l) sampler_fun \<Rightarrow> 'w callback
   \<Rightarrow> ('c, 'l, 's) session \<times> 'w
   \<Rightarrow> ((generation_error, token_output \<times> finish_reason) res \<times> (('c, 'l, 's) session \<times> 'w)) option" where
  "run_stream mdl ctl sync sample on_token sw =
     (case step_loop mdl ctl sample on_token sw of
        None \<Rightarrow> None
      | Some (Err e, sw) \<Rightarrow> Some (Err e, sw)
      | Some (Panic, sw) \<Rightarrow> Some (Panic, sw)
      | Some (Ok _, (s, w)) \<Rightarrow>
          (case (if processed_tokens s > 0 then sync w else (Ok (), w)) of
             (Err e, w) \<Rightarrow> Some (Err e, (s\<lparr>fault := Some e\<rparr>, w))
           | (Panic, w) \<Rightarrow> Some (Panic, (s, w))
           | (Ok _, w) \<Rightarrow>
               (case finish_reason s of
                  None \<Rightarrow> Some (Panic, (s, w))
                | Some reason \<Rightarrow> Some (Ok (out s, reason), (s, w)))))"

text \<open>A whole greedy request: the session is made and run.\<close>

definition session_generate ::
  "('c, 'l) causal_model \<Rightarrow> causal_limits \<Rightarrow> int list \<Rightarrow> greedy_generation \<Rightarrow> 'w control
   \<Rightarrow> ('w, unit) generation_op \<Rightarrow> ('s, 'l) sampler_fun \<Rightarrow> 'w callback \<Rightarrow> 'w
   \<Rightarrow> ((generation_error, token_output \<times> finish_reason) res \<times> 'w) option" where
  "session_generate mdl lim prompt gen ctl sync sample on_token w =
     (case (new_greedy mdl lim prompt gen ctl :: ('w, ('c, 'l, 's) session) generation_op) w of
        (Err e, w) \<Rightarrow> Some (Err e, w)
      | (Panic, w) \<Rightarrow> Some (Panic, w)
      | (Ok s, w) \<Rightarrow>
          map_option (\<lambda>(r, sw). (r, snd sw)) (run_stream mdl ctl sync sample on_token (s, w)))"

end
