(* ===== verification/GenerationInv.thy ===== *)
theory GenerationInv
  imports Generation
begin

text \<open>
  Greedy decoding without cache, matcher or tensors, and the proof that
  \<open>generate_causal_greedy_stream\<close> implements it.

  \<^item> \<open>decode\<close>, \<open>stop_reason\<close>, \<open>ref_loop\<close>, \<open>ref_generate\<close>: the reference, a function of the
    next-token function \<open>next\<close>, with the same polls and callbacks;
  \<^item> \<open>lawful\<close>: what the decoder relies on from a model, namely that its cache stands for the
    tokens it was fed with and that logits are a function of them;
  \<^item> \<open>ref_outcome\<close>: what every run of the reference returns.
\<close>

section \<open>The reference\<close>

text \<open>The first \<open>n\<close> greedy tokens after the history \<open>h\<close>.\<close>

fun decode :: "(int list \<Rightarrow> int) \<Rightarrow> int list \<Rightarrow> nat \<Rightarrow> int list" where
  "decode nxt h 0 = []"
| "decode nxt h (Suc n) = nxt h # decode nxt (h @ [nxt h]) n"

lemma length_decode [simp]: "length (decode nxt h n) = n"
  by (induction n arbitrary: h) auto

lemma decode_snoc: "decode nxt h (Suc n) = decode nxt h n @ [nxt (h @ decode nxt h n)]"
proof (induction n arbitrary: h)
  case (Suc n)
  show ?case by (subst decode.simps(2), subst Suc.IH) simp
qed simp

definition stop_reason :: "int list \<Rightarrow> int list list \<Rightarrow> nat \<Rightarrow> int list \<Rightarrow> finish_reason option" where
  "stop_reason eos pats limit gs =
     natural_stop eos limit (last gs) (first_stop pats gs) (length gs)"

definition out_of :: "int list \<Rightarrow> int list \<Rightarrow> int list \<Rightarrow> token_output" where
  "out_of eos prompt gs =
     \<lparr>token_ids = prompt @ gs, generated_token_ids = gs,
      stopped_on_eos = list_ex (\<lambda>t. t \<in> set eos) gs\<rparr>"

definition event_of :: "int list \<Rightarrow> int list list \<Rightarrow> nat \<Rightarrow> int list \<Rightarrow> event" where
  "event_of eos pats limit gs =
     \<lparr>event_token = last gs, event_generated = gs, event_reason = stop_reason eos pats limit gs\<rparr>"

fun ref_loop ::
  "(int list \<Rightarrow> int) \<Rightarrow> 'w control \<Rightarrow> 'w callback \<Rightarrow> int list \<Rightarrow> nat \<Rightarrow> int list
   \<Rightarrow> nat \<Rightarrow> int list \<Rightarrow> 'w \<Rightarrow> (int list \<times> finish_reason) \<times> 'w" where
  "ref_loop nxt ctl on_token eos limit prompt 0 gs w = ((gs, MaxNewTokens), w)"
| "ref_loop nxt ctl on_token eos limit prompt (Suc n) gs w =
     (case poll ctl w of
        (True, w) \<Rightarrow> ((gs, Cancelled), w)
      | (False, w) \<Rightarrow>
          let gs = gs @ [nxt (prompt @ gs)]; pats = stop_token_sequences ctl in
          case on_token (event_of eos pats limit gs) w of
            (response, w) \<Rightarrow>
          (case stop_reason eos pats limit gs of
             Some reason \<Rightarrow> ((gs, reason), w)
           | None \<Rightarrow>
               if response = Break then ((gs, Cancelled), w)
               else case poll ctl w of
                 (True, w) \<Rightarrow> ((gs, Cancelled), w)
               | (False, w) \<Rightarrow> ref_loop nxt ctl on_token eos limit prompt n gs w))"

text \<open>The loop behind the early return: nothing runs when the request is cancelled or empty.\<close>

definition ref_generate ::
  "(int list \<Rightarrow> int) \<Rightarrow> 'w control \<Rightarrow> 'w callback \<Rightarrow> int list \<Rightarrow> nat \<Rightarrow> int list
   \<Rightarrow> ('w, unit) generation_op \<Rightarrow> ('w, token_output \<times> finish_reason) generation_op" where
  "ref_generate nxt ctl on_token eos limit prompt sync w =
     (case poll ctl w of
        (b, w') \<Rightarrow>
          if limit = 0 then (Ok (out_of eos prompt [], if b then Cancelled else MaxNewTokens), w')
          else if b then (Ok (out_of eos prompt [], Cancelled), w')
          else case ref_loop nxt ctl on_token eos limit prompt limit [] w' of
            ((gs, reason), w'') \<Rightarrow>
              bind_op sync (\<lambda>_. ret_op (out_of eos prompt gs, reason)) w'')"

section \<open>Hypotheses on models and controls\<close>

definition good_logits :: "('c, 'l) causal_model \<Rightarrow> causal_limits \<Rightarrow> 'l \<Rightarrow> bool" where
  "good_logits mdl limits logits \<longleftrightarrow>
     (case dims mdl logits of (batch, sequence, vocabulary) \<Rightarrow>
        batch = 1 \<and> sequence \<noteq> 0 \<and> vocabulary = vocab_size limits)
     \<and> same_device mdl logits"

text \<open>
  \<open>rep cache h\<close>: the cache stands for the history \<open>h\<close>. A forward within the model's
  capacity appends to it and its logits select \<open>next\<close> of the whole history.
\<close>

definition lawful ::
  "('c, 'l) causal_model \<Rightarrow> causal_limits \<Rightarrow> ('c \<Rightarrow> int list \<Rightarrow> bool) \<Rightarrow> (int list \<Rightarrow> int) \<Rightarrow> bool" where
  "lawful mdl limits rep nxt \<longleftrightarrow>
     rep (fresh_cache mdl) []
     \<and> (\<forall>cache h ts. rep cache h \<and> ts \<noteq> [] \<and> length (h @ ts) \<le> max_sequence_length limits \<longrightarrow>
          (\<exists>logits cache'. try_forward mdl ts cache = (Ok logits, cache') \<and> rep cache' (h @ ts)
             \<and> good_logits mdl limits logits \<and> greedy_token mdl logits = Ok (nxt (h @ ts))))
     \<and> (\<forall>h. \<not> outside (vocab_size limits) (nxt h))"

lemma lawfulE:
  assumes "lawful mdl limits rep nxt" and "rep cache h" and "ts \<noteq> []"
    and "length (h @ ts) \<le> max_sequence_length limits"
  obtains logits cache' where "try_forward mdl ts cache = (Ok logits, cache')"
    "rep cache' (h @ ts)" "good_logits mdl limits logits" "greedy_token mdl logits = Ok (nxt (h @ ts))"
  using assms unfolding lawful_def by blast

lemma lawful_fresh: "lawful mdl limits rep nxt \<Longrightarrow> rep (fresh_cache mdl) []"
  by (simp add: lawful_def)

lemma lawful_inside: "lawful mdl limits rep nxt \<Longrightarrow> \<not> outside (vocab_size limits) (nxt h)"
  by (simp add: lawful_def)

text \<open>A cancellation flag is set once: a poll that saw it sees it again and changes nothing.\<close>

definition one_shot :: "'w control \<Rightarrow> bool" where
  "one_shot ctl \<longleftrightarrow> (\<forall>w w'. poll ctl w = (True, w') \<longrightarrow> poll ctl w' = (True, w'))"

text \<open>The request passes both validations.\<close>

definition accepted ::
  "causal_limits \<Rightarrow> int list \<Rightarrow> greedy_generation \<Rightarrow> 'w control \<Rightarrow> int list \<Rightarrow> bool" where
  "accepted limits prompt generation ctl eos \<longleftrightarrow>
     validate_generation limits prompt generation = Ok eos
     \<and> control_validate (stop_token_sequences ctl) (vocab_size limits) = Ok ()"

section \<open>Validation\<close>

lemma validate_stop_tokens_Ok:
  "validate_stop_tokens vocab i ts = Ok () \<longleftrightarrow> (\<forall>t\<in>set ts. \<not> outside vocab t)"
  by (induction ts) (auto simp: outside_def)

lemma validate_stop_tokens_no_panic: "validate_stop_tokens vocab i ts \<noteq> Panic"
  by (induction ts) auto

lemma validate_stops_Ok:
  "validate_stops vocab ps = Ok () \<longleftrightarrow>
     (\<forall>p\<in>set (map snd ps). p \<noteq> [] \<and> (\<forall>t\<in>set p. \<not> outside vocab t))"
proof (induction ps)
  case (Cons ip ps)
  obtain i p where "ip = (i, p)" by (cases ip)
  then show ?case
    using Cons validate_stop_tokens_Ok [of vocab i p]
    by (cases "validate_stop_tokens vocab i p") auto
qed simp

lemma control_validate_Ok:
  "control_validate pats vocab = Ok () \<longleftrightarrow>
     (\<forall>p\<in>set pats. p \<noteq> [] \<and> (\<forall>t\<in>set p. \<not> outside vocab t))"
  unfolding control_validate_def validate_stops_Ok by simp

lemma find_SomeD: "find P xs = Some x \<Longrightarrow> x \<in> set xs \<and> P x"
  by (auto simp: find_Some_iff)

lemma validate_generation_Ok:
  "validate_generation limits prompt generation = Ok eos \<longleftrightarrow>
     0 < vocab_size limits \<and> vocab_size limits - 1 \<le> i32_max \<and> prompt \<noteq> []
     \<and> (\<forall>t\<in>set prompt. \<not> outside (vocab_size limits) t)
     \<and> length prompt + max_new_tokens generation \<le> usize_max
     \<and> length prompt + max_new_tokens generation \<le> max_sequence_length limits
     \<and> eos = sort (remdups (eos_token_ids generation))
     \<and> (\<forall>t\<in>set eos. \<not> outside (vocab_size limits) t)"
  by (auto simp: validate_generation_def checked_add_def Let_def find_None_iff dest!: find_SomeD
           split: option.splits)

lemma acceptedD:
  assumes "accepted limits prompt generation ctl eos"
  shows "[] \<notin> set (stop_token_sequences ctl)" and "prompt \<noteq> []"
    and "length prompt + max_new_tokens generation \<le> max_sequence_length limits"
    and "length prompt + max_new_tokens generation \<le> usize_max"
  using assms by (auto simp: accepted_def control_validate_Ok validate_generation_Ok)

section \<open>The stream implements the reference\<close>

lemma out_of_append: "append_token eos t (out_of eos prompt gs) = out_of eos prompt (gs @ [t])"
  by (auto simp: append_token_def out_of_def)

lemma stop_reason_snoc:
  "stop_reason eos pats limit (gs @ [t])
   = natural_stop eos limit t (first_stop pats (gs @ [t])) (length gs + 1)"
  by (simp add: stop_reason_def)

lemma stop_reason_limit: "stop_reason eos pats limit gs = None \<Longrightarrow> length gs \<noteq> limit"
  by (auto simp: stop_reason_def natural_stop_def split: if_splits option.splits)

lemma stop_reason_not_cancelled: "stop_reason eos pats limit gs \<noteq> Some Cancelled"
  by (auto simp: stop_reason_def natural_stop_def split: option.splits)

abbreviation with_output ::
  "int list \<Rightarrow> int list \<Rightarrow> (int list \<times> finish_reason) \<times> 'w
   \<Rightarrow> (generation_error, token_output \<times> finish_reason) res \<times> 'w" where
  "with_output eos prompt r \<equiv>
     (case r of ((gs, reason), w) \<Rightarrow> (Ok (out_of eos prompt gs, reason), w))"

lemma stream_loop_ref:
  assumes "lawful mdl limits rep nxt" and "length prompt + limit \<le> max_sequence_length limits"
    and "rep cache (prompt @ gs)" and "good_logits mdl limits logits"
    and "greedy_token mdl logits = Ok (nxt (prompt @ gs))"
    and "matcher_at (stop_token_sequences ctl) gs m" and "length gs + n = limit"
  shows "stream_loop mdl ctl (greedy_select mdl) on_token (vocab_size limits) limit eos
           [length gs..<limit] cache logits m (out_of eos prompt gs) w
       = with_output eos prompt (ref_loop nxt ctl on_token eos limit prompt n gs w)"
  using assms(3-)
proof (induction n arbitrary: cache gs logits m w)
  case 0
  then show ?case by simp
next
  case (Suc n)
  let ?pats = "stop_token_sequences ctl" and ?t = "nxt (prompt @ gs)"
  let ?gs = "gs @ [?t]"
  have upt: "[length gs..<limit] = length gs # [Suc (length gs)..<limit]"
    using Suc.prems(5) by (simp add: upt_conv_Cons)
  obtain m' where m': "push m ?t = Some (m', first_stop ?pats ?gs)" "matcher_at ?pats ?gs m'"
    using push_at [OF Suc.prems(4)] by blast
  obtain logits' cache' where f: "try_forward mdl [?t] cache = (Ok logits', cache')"
    "rep cache' (prompt @ ?gs)" "good_logits mdl limits logits'"
    "greedy_token mdl logits' = Ok (nxt (prompt @ ?gs))"
  proof (rule lawfulE [OF assms(1) Suc.prems(1)])
    show "length ((prompt @ gs) @ [?t]) \<le> max_sequence_length limits"
      using Suc.prems(5) assms(2) by simp
  qed auto
  have rest: "stream_loop mdl ctl (greedy_select mdl) on_token (vocab_size limits) limit eos
      [Suc (length gs)..<limit] cache' logits' m' (out_of eos prompt ?gs) w
    = with_output eos prompt (ref_loop nxt ctl on_token eos limit prompt n ?gs w)" for w
    using Suc.IH [OF f(2-4) m'(2)] Suc.prems(5) by simp
  obtain seq where dims: "dims mdl logits = (1, seq, vocab_size limits)" "seq \<noteq> 0"
    using Suc.prems(2) by (auto simp: good_logits_def)
  obtain b w1 where p1: "poll ctl w = (b, w1)" by force
  obtain response w2 where cb: "on_token (event_of eos ?pats limit ?gs) w1 = (response, w2)" by force
  obtain c w3 where p2: "poll ctl w2 = (c, w3)" by force
  note parts = lawful_inside [OF assms(1)] m'(1) f(1) rest out_of_append
    greedy_select_def dims p1 p2 Suc.prems(3)
  have gen: "generated_token_ids (out_of eos prompt ?gs) = ?gs" by (simp add: out_of_def)
  show ?case
  proof (cases b)
    case True
    then show ?thesis unfolding upt by (simp add: p1)
  next
    case False
    then show ?thesis using cb
      unfolding upt stream_loop.simps ref_loop.simps Let_def
      by (cases "stop_reason eos ?pats limit ?gs"; cases response; cases c)
        (simp_all add: parts gen event_of_def stop_reason_snoc [symmetric] del: One_nat_def)
  qed
qed

lemma out_of_Nil:
  "\<lparr>token_ids = prompt, generated_token_ids = [], stopped_on_eos = False\<rparr> = out_of eos prompt []"
  by (simp add: out_of_def)

theorem generate_greedy_ref:
  assumes "lawful mdl limits rep nxt" and "one_shot ctl" and "accepted limits prompt generation ctl eos"
  shows "generate_causal_greedy_stream mdl limits prompt generation ctl sync on_token w
       = ref_generate nxt ctl on_token eos (max_new_tokens generation) prompt sync w"
proof -
  note acc = acceptedD [OF assms(3)]
  let ?limit = "max_new_tokens generation"
  obtain m where m: "matcher_new (stop_token_sequences ctl) = Some m"
    "matcher_at (stop_token_sequences ctl) [] m"
    using matcher_new_at [OF acc(1)] by blast
  obtain logits cache where f: "try_forward mdl prompt (fresh_cache mdl) = (Ok logits, cache)"
    "rep cache (prompt @ [])" "good_logits mdl limits logits" "greedy_token mdl logits = Ok (nxt (prompt @ []))"
    by (rule lawfulE [OF assms(1) lawful_fresh [OF assms(1)], of prompt])
      (use acc in auto)
  have loop: "stream_loop mdl ctl (greedy_select mdl) on_token (vocab_size limits) ?limit eos
      [0..<?limit] cache logits m (out_of eos prompt []) w
    = with_output eos prompt (ref_loop nxt ctl on_token eos ?limit prompt ?limit [] w)" for w
    using stream_loop_ref [OF assms(1) acc(3) f(2-4) m(2), of ?limit] by simp
  have twice: "poll ctl w' = (True, w')" if "poll ctl w = (True, w')" for w'
    using assms(2) that unfolding one_shot_def by blast
  show ?thesis
    using assms(3) twice
    by (auto simp: generate_causal_greedy_stream_def generate_stream_def ref_generate_def
        accepted_def out_of_Nil [of _ eos] m(1) f(1) loop Let_def bind_op_def
        split: prod.splits bool.splits)
qed

section \<open>What the reference returns\<close>

text \<open>
  The tokens are greedy, none before the last one stops the request, and the reason is
  that of the last token unless the request was cancelled between two tokens.
\<close>

definition greedy_result ::
  "(int list \<Rightarrow> int) \<Rightarrow> int list \<Rightarrow> int list list \<Rightarrow> nat \<Rightarrow> int list \<Rightarrow> int list \<Rightarrow> finish_reason \<Rightarrow> bool" where
  "greedy_result nxt eos pats limit prompt gs reason \<longleftrightarrow>
     gs = decode nxt prompt (length gs) \<and> length gs \<le> limit
     \<and> (\<forall>n<length gs. n \<noteq> 0 \<longrightarrow> stop_reason eos pats limit (take n gs) = None)
     \<and> (if gs = [] then reason = Cancelled \<or> limit = 0 \<and> reason = MaxNewTokens
        else stop_reason eos pats limit gs = (if reason = Cancelled then None else Some reason))"

text \<open>Nobody cancels: no poll sees the flag and the callback never breaks.\<close>

definition quiet :: "'w control \<Rightarrow> 'w callback \<Rightarrow> bool" where
  "quiet ctl on_token \<longleftrightarrow> (\<forall>w. \<not> fst (poll ctl w)) \<and> (\<forall>e w. fst (on_token e w) = Continue)"

lemma ref_loop_outcome:
  assumes "gs = decode nxt prompt (length gs)" and "length gs + n = limit"
    and "\<forall>k\<le>length gs. k \<noteq> 0 \<longrightarrow> stop_reason eos (stop_token_sequences ctl) limit (take k gs) = None"
    and "ref_loop nxt ctl on_token eos limit prompt n gs w = ((gs', reason), w')"
  shows "greedy_result nxt eos (stop_token_sequences ctl) limit prompt gs' reason
    \<and> (quiet ctl on_token \<longrightarrow> reason \<noteq> Cancelled)"
  using assms
proof (induction n arbitrary: gs w)
  case 0
  have "gs = []"
  proof (rule ccontr)
    assume "gs \<noteq> []"
    then have "stop_reason eos (stop_token_sequences ctl) limit gs = None" using 0(3) by auto
    from stop_reason_limit [OF this] show False using 0(2) by simp
  qed
  then show ?case using 0 by (auto simp: greedy_result_def)
next
  case (Suc n)
  let ?pats = "stop_token_sequences ctl"
  let ?gs = "gs @ [nxt (prompt @ gs)]"
  have dec: "?gs = decode nxt prompt (length ?gs)"
    using Suc.prems(1) decode_snoc [of nxt prompt "length gs"] by simp
  have len: "length ?gs + n = limit" using Suc.prems(2) by simp
  have before: "\<forall>k<length ?gs. k \<noteq> 0 \<longrightarrow> stop_reason eos ?pats limit (take k ?gs) = None"
    using Suc.prems(3) by (simp add: less_Suc_eq_le)
  obtain b w1 where p1: "poll ctl w = (b, w1)" by force
  obtain response w2 where cb: "on_token (event_of eos ?pats limit ?gs) w1 = (response, w2)" by force
  obtain c w3 where p2: "poll ctl w2 = (c, w3)" by force
  have q: "quiet ctl on_token \<Longrightarrow> \<not> b \<and> \<not> c \<and> response = Continue"
    using p1 p2 cb unfolding quiet_def by (metis fst_conv)
  show ?case
  proof (cases b)
    case True
    then have "gs' = gs" "reason = Cancelled" using Suc.prems(4) p1 by auto
    then show ?thesis using True q Suc.prems(1-3) by (auto simp: greedy_result_def)
  next
    case False
    note run = Suc.prems(4) [unfolded ref_loop.simps p1 Let_def cb prod.case]
    show ?thesis
    proof (cases "stop_reason eos ?pats limit ?gs")
      case (Some r)
      then have "gs' = ?gs" "reason = r" "r \<noteq> Cancelled"
        using run False stop_reason_not_cancelled by auto
      then show ?thesis using Some dec len before unfolding greedy_result_def by simp
    next
      case None
      show ?thesis
      proof (cases "response = Break \<or> c")
        case True
        then have "gs' = ?gs" "reason = Cancelled" using run False None p2 by (auto split: if_splits)
        then show ?thesis using None dec len before True q unfolding greedy_result_def by auto
      next
        case False': False
        have all: "\<forall>k\<le>length ?gs. k \<noteq> 0 \<longrightarrow> stop_reason eos ?pats limit (take k ?gs) = None"
          using before None by (metis le_neq_implies_less order_refl take_all)
        have "ref_loop nxt ctl on_token eos limit prompt n ?gs w3 = ((gs', reason), w')"
          using run False False' None p2 by simp
        from Suc.IH [OF dec len all this] show ?thesis .
      qed
    qed
  qed
qed

lemma ref_generate_outcome:
  "wp (ref_generate nxt ctl on_token eos limit prompt sync)
     (\<lambda>(out, reason) w'. \<exists>gs. out = out_of eos prompt gs
        \<and> greedy_result nxt eos (stop_token_sequences ctl) limit prompt gs reason
        \<and> (quiet ctl on_token \<longrightarrow> reason \<noteq> Cancelled))
     (\<lambda>e w'. \<exists>w''. sync w'' = (Err e, w')) w \<or> (\<exists>w w'. sync w = (Panic, w'))"
proof (cases "limit = 0 \<or> fst (poll ctl w)")
  case True
  then have "wp (ref_generate nxt ctl on_token eos limit prompt sync)
     (\<lambda>(out, reason) w'. out = out_of eos prompt [] \<and> (fst (poll ctl w) \<longleftrightarrow> reason = Cancelled)
        \<and> (reason = Cancelled \<or> limit = 0 \<and> reason = MaxNewTokens)) (\<lambda>e w'. False) w"
    by (auto simp: wp_def ref_generate_def split: prod.splits)
  then show ?thesis
    by (intro disjI1) (erule wp_conseq, auto simp: greedy_result_def quiet_def)
next
  case False
  then obtain w1 where p1: "poll ctl w = (False, w1)" by (cases "poll ctl w") auto
  obtain gs reason w2 where
    loop: "ref_loop nxt ctl on_token eos limit prompt limit [] w1 = ((gs, reason), w2)"
    by (metis prod.exhaust)
  from ref_loop_outcome [OF _ _ _ loop] have "greedy_result nxt eos (stop_token_sequences ctl) limit prompt gs reason
    \<and> (quiet ctl on_token \<longrightarrow> reason \<noteq> Cancelled)" by simp
  then show ?thesis
    using False p1 loop
    by (auto simp: wp_def ref_generate_def bind_op_def split: prod.splits res.splits)
qed

end
