(* ===== verification/SessionInv.thy ===== *)
theory SessionInv
  imports Session GenerationInv
begin

text \<open>
  Well-formed sessions, for any model, sampler and processor.

  \<^item> \<open>history_wf\<close>: output, matcher and limits belong to one prompt and one list of
    generated tokens, none of which but the last can stop the request;
  \<^item> \<open>session_wf\<close>: and the pending input, the logits, the number of consumed inputs and the
    finish reason are those of a step boundary;
  \<^item> every step that does not fail ends in a well-formed session (\<open>session_step_wf\<close>), and a
    session started from a prompt is one (\<open>new_with_prefix_wf\<close>);
  \<^item> \<open>session_generate_ref\<close>: a greedy session of a lawful model is the reference of
    \<open>GenerationInv\<close>, with the same polls, callbacks and final synchronisation.
\<close>

section \<open>Well-formed sessions\<close>

abbreviation gens :: "('c, 'l, 's) session \<Rightarrow> int list" where
  "gens s \<equiv> generated_token_ids (out s)"

abbreviation prompt_of :: "('c, 'l, 's) session \<Rightarrow> int list" where
  "prompt_of s \<equiv> take (prompt_length s) (token_ids (out s))"

abbreviation limit_of :: "('c, 'l, 's) session \<Rightarrow> nat" where
  "limit_of s \<equiv> max_new_tokens (generation s)"

abbreviation reason_at :: "'w control \<Rightarrow> ('c, 'l, 's) session \<Rightarrow> int list \<Rightarrow> finish_reason option" where
  "reason_at ctl s gs \<equiv> stop_reason (eos s) (stop_token_sequences ctl) (limit_of s) gs"

definition history_wf :: "'w control \<Rightarrow> ('c, 'l, 's) session \<Rightarrow> bool" where
  "history_wf ctl s \<longleftrightarrow>
     length (prompt_of s) = prompt_length s
     \<and> accepted (limits s) (prompt_of s) (generation s) ctl (eos s)
     \<and> out s = out_of (eos s) (prompt_of s) (gens s)
     \<and> matcher_at (stop_token_sequences ctl) (gens s) (matcher s)
     \<and> (\<forall>t\<in>set (gens s). \<not> outside (vocab_size (limits s)) t)
     \<and> (\<forall>n<length (gens s). n \<noteq> 0 \<longrightarrow> reason_at ctl s (take n (gens s)) = None)"

text \<open>A request that goes on: after the prefill, or with a selected token to forward.\<close>

definition open_wf :: "('c, 'l) causal_model \<Rightarrow> 'w control \<Rightarrow> ('c, 'l, 's) session \<Rightarrow> bool" where
  "open_wf mdl ctl s \<longleftrightarrow>
     length (gens s) < limit_of s
     \<and> (if gens s = []
        then pending_input s = None \<and> processed_tokens s = prompt_length s
          \<and> (\<exists>l. logits s = Some l \<and> check_logits mdl (limits s) l = Ok ())
        else pending_input s = Some (last (gens s)) \<and> logits s = None
          \<and> processed_tokens s + 1 = prompt_length s + length (gens s)
          \<and> reason_at ctl s (gens s) = None)"

definition closed_wf :: "'w control \<Rightarrow> ('c, 'l, 's) session \<Rightarrow> finish_reason \<Rightarrow> bool" where
  "closed_wf ctl s r \<longleftrightarrow>
     length (gens s) \<le> limit_of s \<and> pending_input s = None \<and> logits s = None
     \<and> (if gens s = []
        then (if limit_of s = 0 then processed_tokens s = 0
              else r = Cancelled \<and> (processed_tokens s = 0 \<or> processed_tokens s = prompt_length s))
          \<and> (r = Cancelled \<or> r = MaxNewTokens)
        else processed_tokens s + 1 = prompt_length s + length (gens s)
          \<and> reason_at ctl s (gens s) = (if r = Cancelled then None else Some r))"

definition session_wf :: "('c, 'l) causal_model \<Rightarrow> 'w control \<Rightarrow> ('c, 'l, 's) session \<Rightarrow> bool" where
  "session_wf mdl ctl s \<longleftrightarrow>
     history_wf ctl s \<and> fault s = None
     \<and> (case finish_reason s of None \<Rightarrow> open_wf mdl ctl s | Some r \<Rightarrow> closed_wf ctl s r)"

text \<open>Within a step: the logits of the whole history wait for the choice.\<close>

definition primed :: "('c, 'l) causal_model \<Rightarrow> 'w control \<Rightarrow> ('c, 'l, 's) session \<Rightarrow> bool" where
  "primed mdl ctl s \<longleftrightarrow>
     history_wf ctl s \<and> fault s = None \<and> finish_reason s = None
     \<and> length (gens s) < limit_of s \<and> pending_input s = None
     \<and> (\<exists>l. logits s = Some l \<and> check_logits mdl (limits s) l = Ok ())
     \<and> processed_tokens s = prompt_length s + length (gens s)
     \<and> (gens s \<noteq> [] \<longrightarrow> reason_at ctl s (gens s) = None)"

lemma history_wf_cong:
  fixes s t :: "('c, 'l, 's) session"
  assumes "history_wf ctl s" and "limits t = limits s" and "generation t = generation s"
    and "matcher t = matcher s" and "eos t = eos s" and "prompt_length t = prompt_length s"
    and "out t = out s"
  shows "history_wf ctl t"
  using assms by (simp add: history_wf_def)

lemma history_wfD:
  assumes "history_wf ctl s"
  shows "length (prompt_of s) = prompt_length s"
    and "accepted (limits s) (prompt_of s) (generation s) ctl (eos s)"
    and "out s = out_of (eos s) (prompt_of s) (gens s)"
    and "matcher_at (stop_token_sequences ctl) (gens s) (matcher s)"
    and "\<forall>t\<in>set (gens s). \<not> outside (vocab_size (limits s)) t"
    and "\<forall>n<length (gens s). n \<noteq> 0 \<longrightarrow> reason_at ctl s (take n (gens s)) = None"
  using assms unfolding history_wf_def by - (elim conjE, assumption)+

lemma history_wf_token_ids: "history_wf ctl s \<Longrightarrow> token_ids (out s) = prompt_of s @ gens s"
  unfolding history_wf_def out_of_def by (metis token_output.select_convs(1))

lemma history_wf_room:
  "history_wf ctl s \<Longrightarrow> prompt_length s + limit_of s \<le> usize_max \<and> prompt_length s \<noteq> 0"
  unfolding history_wf_def using acceptedD(2,4) by fastforce

lemma open_not_limit: "history_wf ctl s \<Longrightarrow> reason_at ctl s gs = None \<Longrightarrow> length gs \<noteq> limit_of s"
  by (rule stop_reason_limit)

section \<open>Operations keep them\<close>

lemma finish_cancelled_wf:
  fixes s :: "('c, 'l, 's) session"
  assumes "session_wf mdl ctl s" and "finish_reason s = None"
  shows "session_wf mdl ctl (finish Cancelled s)"
proof -
  have "history_wf ctl (finish Cancelled s)"
    using assms(1) by - (rule history_wf_cong [of ctl s], auto simp: session_wf_def finish_def)
  then show ?thesis
    using assms by (auto simp: session_wf_def finish_def open_wf_def closed_wf_def)
qed

lemma forward_pending_primed:
  fixes s :: "('c, 'l, 's) session"
  assumes "session_wf mdl ctl s" and "finish_reason s = None"
    and "forward_pending mdl (s, w) = (Ok (), (t, w'))"
  shows "primed mdl ctl t \<and> w' = w \<and> out t = out s \<and> prompt_length t = prompt_length s \<and> limits t = limits s
    \<and> generation t = generation s \<and> eos t = eos s \<and> sampler t = sampler s"
proof (cases "pending_input s")
  case None
  then show ?thesis
    using assms by (auto simp: forward_pending_def session_wf_def open_wf_def primed_def split: if_splits)
next
  case (Some token)
  have open': "gens s \<noteq> []" "processed_tokens s + 1 = prompt_length s + length (gens s)"
    "reason_at ctl s (gens s) = None" "length (gens s) < limit_of s"
    using assms(1,2) Some by (auto simp: session_wf_def open_wf_def split: if_splits)
  obtain l c where l: "try_forward mdl [token] (cache s) = (Ok l, c)" "check_logits mdl (limits s) l = Ok ()"
    "t = s\<lparr>cache := c, logits := Some l, pending_input := None, processed_tokens := processed_tokens s + 1\<rparr>"
    "w' = w"
    using assms(3) Some
    by (auto simp: forward_pending_def Let_def split: prod.splits res.splits option.splits)
  have "history_wf ctl t"
    using assms(1) by - (rule history_wf_cong [of ctl s], auto simp: session_wf_def l(3))
  then show ?thesis
    using open' l assms(1,2) by (auto simp: primed_def session_wf_def)
qed

lemma choose_token_primed:
  fixes s :: "('c, 'l, 's) session"
  assumes "primed mdl ctl s" and "choose_token mdl sample processor (s, w) = (Ok token, (t, w'))"
  shows "primed mdl ctl t \<and> out t = out s \<and> prompt_length t = prompt_length s \<and> limits t = limits s
    \<and> generation t = generation s \<and> eos t = eos s"
proof -
  obtain smp where t: "t = s \<or> t = s\<lparr>sampler := Some smp\<rparr>"
    using assms by (auto simp: choose_token_def split: prod.splits res.splits option.splits)
  have "history_wf ctl t"
    using assms(1) t by - (rule history_wf_cong [of ctl s], auto simp: primed_def)
  then show ?thesis using t assms(1) by (auto simp: primed_def)
qed

text \<open>The session that the selected token leaves.\<close>

definition after_token ::
  "'w control \<Rightarrow> int \<Rightarrow> int matcher \<Rightarrow> ('c, 'l, 's) session \<Rightarrow> ('c, 'l, 's) session" where
  "after_token ctl token m s =
     (let s' = s\<lparr>logits := None, out := append_token (eos s) token (out s), matcher := m\<rparr> in
      case reason_at ctl s (gens s @ [token]) of
        Some r \<Rightarrow> finish r s'
      | None \<Rightarrow> s'\<lparr>pending_input := Some token\<rparr>)"

lemma gens_append: "generated_token_ids (append_token ends token o') = generated_token_ids o' @ [token]"
  by (simp add: append_token_def)

lemma accept_token_eq:
  fixes s :: "('c, 'l, 's) session"
  assumes "history_wf ctl s" and "\<not> outside (vocab_size (limits s)) token"
  shows "\<exists>m. accept_token token (s, w)
      = (Ok (Some \<lparr>step_token = token, step_generated = length (gens s) + 1,
                   step_reason = reason_at ctl s (gens s @ [token])\<rparr>), (after_token ctl token m s, w))
    \<and> matcher_at (stop_token_sequences ctl) (gens s @ [token]) m"
proof -
  have "matcher_at (stop_token_sequences ctl) (gens s) (matcher s)"
    using assms(1) by (rule history_wfD)
  from push_at [OF this, of token]
  obtain m where m: "push (matcher s) token = Some (m, first_stop (stop_token_sequences ctl) (gens s @ [token]))"
    "matcher_at (stop_token_sequences ctl) (gens s @ [token]) m"
    by blast
  let ?gs = "gens s @ [token]"
  have "natural_stop (eos s) (limit_of s) token (first_stop (stop_token_sequences ctl) ?gs) (Suc (length (gens s)))
      = reason_at ctl s ?gs"
    by (simp add: stop_reason_def)
  then have "accept_token token (s, w)
      = (Ok (Some \<lparr>step_token = token, step_generated = length (gens s) + 1,
                   step_reason = reason_at ctl s ?gs\<rparr>), (after_token ctl token m s, w))"
    using assms(2) m(1)
    by (cases "reason_at ctl s ?gs")
      (simp_all add: accept_token_def Let_def gens_append session_generated_def after_token_def finish_def)
  with m(2) show ?thesis by blast
qed

lemma after_token_sel:
  "gens (after_token ctl token m s) = gens s @ [token]"
  "matcher (after_token ctl token m s) = m"
  "limits (after_token ctl token m s) = limits s"
  "generation (after_token ctl token m s) = generation s"
  "eos (after_token ctl token m s) = eos s"
  "prompt_length (after_token ctl token m s) = prompt_length s"
  "processed_tokens (after_token ctl token m s) = processed_tokens s"
  "sampler (after_token ctl token m s) = sampler s"
  "cache (after_token ctl token m s) = cache s"
  "fault (after_token ctl token m s) = fault s"
  "logits (after_token ctl token m s) = None"
  "pending_input s = None \<Longrightarrow> pending_input (after_token ctl token m s)
     = (if reason_at ctl s (gens s @ [token]) = None then Some token else None)"
  "finish_reason s = None \<Longrightarrow>
     finish_reason (after_token ctl token m s) = reason_at ctl s (gens s @ [token])"
  by (auto simp: after_token_def Let_def finish_def gens_append split: option.split)

lemma after_token_out: "out (after_token ctl token m s) = append_token (eos s) token (out s)"
  by (auto simp: after_token_def Let_def finish_def split: option.split)

lemma prompt_of_after_token:
  assumes "history_wf ctl s"
  shows "prompt_of (after_token ctl token m s) = prompt_of s"
proof -
  have "prompt_length s \<le> length (token_ids (out s))" using assms by (auto simp: history_wf_def)
  then show ?thesis by (simp add: after_token_sel after_token_out append_token_def)
qed

lemma after_token_history:
  assumes "history_wf ctl s" and "gens s \<noteq> [] \<longrightarrow> reason_at ctl s (gens s) = None"
    and "\<not> outside (vocab_size (limits s)) token"
    and "matcher_at (stop_token_sequences ctl) (gens s @ [token]) m"
  shows "history_wf ctl (after_token ctl token m s)"
proof -
  let ?t = "after_token ctl token m s"
  have out: "out ?t = out_of (eos s) (prompt_of s) (gens s @ [token])"
    unfolding after_token_out out_of_append [symmetric]
    by (subst history_wfD(3) [OF assms(1)]) (rule refl)
  have before: "\<forall>n<length (gens s @ [token]). n \<noteq> 0 \<longrightarrow> reason_at ctl s (take n (gens s @ [token])) = None"
    using history_wfD(6) [OF assms(1)] assms(2) by (auto simp: less_Suc_eq)
  have inside: "\<forall>t\<in>set (gens s @ [token]). \<not> outside (vocab_size (limits s)) t"
    using history_wfD(5) [OF assms(1)] assms(3) by auto
  show ?thesis
    unfolding history_wf_def prompt_of_after_token [OF assms(1)] unfolding after_token_sel
    using history_wfD(1,2) [OF assms(1)] assms(4) out before inside by blast
qed

lemma after_token_wf:
  assumes "primed mdl ctl s" and "\<not> outside (vocab_size (limits s)) token"
    and "matcher_at (stop_token_sequences ctl) (gens s @ [token]) m"
  shows "session_wf mdl ctl (after_token ctl token m s)"
proof -
  have "history_wf ctl (after_token ctl token m s)"
    using assms by (intro after_token_history) (auto simp: primed_def)
  moreover have "reason_at ctl s (gens s @ [token]) = None \<Longrightarrow> length (gens s) + 1 \<noteq> limit_of s"
    using stop_reason_limit [of _ _ _ "gens s @ [token]"] by simp
  moreover have "reason_at ctl s (gens s @ [token]) \<noteq> Some Cancelled"
    by (rule stop_reason_not_cancelled)
  ultimately show ?thesis
    using assms(1)
    by (auto simp: session_wf_def primed_def after_token_sel open_wf_def closed_wf_def
        split: option.split)
qed

lemma step_inner_wf:
  fixes s :: "('c, 'l, 's) session"
  assumes "session_wf mdl ctl s" and "step_inner mdl ctl sample processor (s, w) = (Ok r, (t, w'))"
  shows "session_wf mdl ctl t"
proof (cases "finish_reason s = None")
  case False
  then show ?thesis using assms by (auto simp: step_inner_def)
next
  case none: True
  obtain b w1 where p: "poll ctl w = (b, w1)" by force
  show ?thesis
  proof (cases b)
    case True
    then show ?thesis
      using assms none p finish_cancelled_wf by (auto simp: step_inner_def)
  next
    case False
    with assms(2) none p obtain s1 w2 token s2 w3 where run:
      "forward_pending mdl (s, w1) = (Ok (), (s1, w2))"
      "choose_token mdl sample processor (s1, w2) = (Ok token, (s2, w3))"
      "accept_token token (s2, w3) = (Ok r, (t, w'))"
      by (auto simp: step_inner_def bind_op_Ok)
    have p2: "primed mdl ctl s2"
      using forward_pending_primed [OF assms(1) none run(1)] choose_token_primed [OF _ run(2)] by blast
    have inside: "\<not> outside (vocab_size (limits s2)) token"
      using run(3) by (auto simp: accept_token_def split: if_splits)
    from p2 have "history_wf ctl s2" by (simp add: primed_def)
    from accept_token_eq [OF this inside, of w3] obtain m where m:
      "accept_token token (s2, w3) =
         (Ok (Some \<lparr>step_token = token, step_generated = length (gens s2) + 1,
                   step_reason = reason_at ctl s2 (gens s2 @ [token])\<rparr>), (after_token ctl token m s2, w3))"
      "matcher_at (stop_token_sequences ctl) (gens s2 @ [token]) m" by blast
    then have "t = after_token ctl token m s2" using run(3) by simp
    with after_token_wf [OF p2 inside m(2)] show ?thesis by simp
  qed
qed

lemma session_step_wf:
  fixes s :: "('c, 'l, 's) session"
  assumes "session_wf mdl ctl s" and "session_step mdl ctl sample processor (s, w) = (r, (t, w'))"
  shows "(\<exists>a. r = Ok a) \<and> session_wf mdl ctl t \<or> (\<exists>e. r = Err e \<and> fault t = Some e) \<or> r = Panic"
proof -
  have "fault s = None" using assms(1) by (simp add: session_wf_def)
  then show ?thesis
    using assms(2) step_inner_wf [OF assms(1), of sample processor w]
    by (auto simp: session_step_def split: prod.splits res.splits)
qed

lemma session_step_sticky:
  "fault s = Some e \<Longrightarrow> session_step mdl ctl sample processor (s, w) = (Err e, (s, w))"
  by (simp add: session_step_def)

text \<open>
  The calls of a step into code that is not the session's, and that one of them panics: the
  forward of the pending input, the processor on the logits of the history, the sampler (or the
  greedy choice) on what the processor leaves of them.
\<close>

definition next_logits :: "('c, 'l) causal_model \<Rightarrow> ('c, 'l, 's) session \<Rightarrow> 'l \<Rightarrow> bool" where
  "next_logits mdl s l \<longleftrightarrow>
     (case pending_input s of
        None \<Rightarrow> logits s = Some l
      | Some token \<Rightarrow> fst (try_forward mdl [token] (cache s)) = Ok l)"

definition callee_panics ::
  "('c, 'l) causal_model \<Rightarrow> 'w control \<Rightarrow> ('s, 'l) sampler_fun \<Rightarrow> ('l, 'w) processor option
   \<Rightarrow> ('c, 'l, 's) session \<Rightarrow> 'w \<Rightarrow> bool" where
  "callee_panics mdl ctl sample processor s w \<longleftrightarrow>
     (\<exists>token. pending_input s = Some token \<and> fst (try_forward mdl [token] (cache s)) = Panic)
   \<or> (\<exists>f l. processor = Some f \<and> next_logits mdl s l \<and> fst (f l (snd (poll ctl w))) = Panic)
   \<or> (\<exists>l l'. next_logits mdl s l
        \<and> (case processor of None \<Rightarrow> l' = l | Some f \<Rightarrow> fst (f l (snd (poll ctl w))) = Ok l')
        \<and> (case sampler s of None \<Rightarrow> greedy_token mdl l' = Panic
           | Some smp \<Rightarrow> fst (sample smp l' (prompt_of s) (gens s)) = Panic))"

lemma forward_pending_next:
  assumes "forward_pending mdl (s, w) = (Ok (), (t, w'))" and "logits t = Some l"
  shows "next_logits mdl s l"
  using assms
  by (auto simp: forward_pending_def next_logits_def Let_def split: option.splits prod.splits res.splits)

lemma forward_pending_panics:
  assumes "forward_pending mdl (s, w) = (Panic, u)"
  shows "\<exists>token. pending_input s = Some token \<and> fst (try_forward mdl [token] (cache s)) = Panic"
  using assms
  by (auto simp: forward_pending_def check_logits_def Let_def split: option.splits prod.splits res.splits if_splits)

lemma choose_token_panics:
  assumes "choose_token mdl sample processor (s, w) = (Panic, u)"
  shows "\<exists>l. logits s = Some l \<and>
     ((\<exists>f. processor = Some f \<and> fst (f l w) = Panic) \<or>
      (\<exists>l'. (case processor of None \<Rightarrow> l' = l | Some f \<Rightarrow> fst (f l w) = Ok l')
        \<and> (case sampler s of None \<Rightarrow> greedy_token mdl l' = Panic
           | Some smp \<Rightarrow> fst (sample smp l' (prompt_of s) (gens s)) = Panic)))"
proof -
  obtain l where l: "logits s = Some l" using assms by (auto simp: choose_token_def split: option.splits)
  obtain r v where r: "(case processor of Some f \<Rightarrow> f l w | None \<Rightarrow> (Ok l, w)) = (r, v)" by fastforce
  show ?thesis
  proof (cases r)
    case (Ok l')
    have "case processor of None \<Rightarrow> l' = l | Some f \<Rightarrow> fst (f l w) = Ok l'"
      using r Ok by (auto split: option.splits)
    moreover have "case sampler s of None \<Rightarrow> greedy_token mdl l' = Panic
           | Some smp \<Rightarrow> fst (sample smp l' (prompt_of s) (gens s)) = Panic"
      using assms l r Ok
      by (auto simp: choose_token_def check_logits_def split: prod.splits option.splits if_splits)
    ultimately show ?thesis using l by blast
  next
    case Panic
    then show ?thesis using l r by (auto split: option.splits)
  qed (use assms l r in \<open>simp add: choose_token_def\<close>)
qed

lemma accept_token_total:
  assumes "history_wf ctl s"
  shows "fst (accept_token token (s, w)) \<noteq> Panic"
proof (cases "outside (vocab_size (limits s)) token")
  case True
  then show ?thesis by (simp add: accept_token_def)
next
  case False
  from accept_token_eq [OF assms False, of w] obtain m where "accept_token token (s, w) =
      (Ok (Some \<lparr>step_token = token, step_generated = length (gens s) + 1,
                step_reason = reason_at ctl s (gens s @ [token])\<rparr>), (after_token ctl token m s, w))" by blast
  then show ?thesis by simp
qed

text \<open>A step panics only where one of those calls does.\<close>

lemma session_step_panics:
  assumes wf: "session_wf mdl ctl s" and "session_step mdl ctl sample processor (s, w) = (Panic, u)"
  shows "finish_reason s = None \<and> callee_panics mdl ctl sample processor s w"
proof -
  have "fault s = None" using wf by (simp add: session_wf_def)
  then have inner: "step_inner mdl ctl sample processor (s, w) = (Panic, u)"
    using assms(2) by (auto simp: session_step_def split: prod.splits res.splits)
  then have open': "finish_reason s = None" by (auto simp: step_inner_def split: if_splits)
  obtain w1 where p: "poll ctl w = (False, w1)"
    using inner open' by (auto simp: step_inner_def split: prod.splits bool.splits)
  obtain r s1 w2 where f: "forward_pending mdl (s, w1) = (r, (s1, w2))" by (metis prod.exhaust)
  have "callee_panics mdl ctl sample processor s w"
  proof (cases r)
    case (Ok a)
    note fwd = forward_pending_primed [OF wf open' f [unfolded Ok, simplified]]
    then have same: "w2 = w1" "prompt_of s1 = prompt_of s" "gens s1 = gens s" "sampler s1 = sampler s" by simp_all
    obtain q s2 w3 where c: "choose_token mdl sample processor (s1, w2) = (q, (s2, w3))" by (metis prod.exhaust)
    show ?thesis
    proof (cases q)
      case (Ok token)
      have "primed mdl ctl s2" using choose_token_primed [OF fwd [THEN conjunct1] c [unfolded Ok]] by blast
      then have "fst (accept_token token (s2, w3)) \<noteq> Panic" by (intro accept_token_total [of ctl]) (simp add: primed_def)
      then show ?thesis using inner open' p f c \<open>r = Ok a\<close> Ok by (simp add: step_inner_def)
    next
      case Panic
      from choose_token_panics [OF c [unfolded Panic]] obtain l where "logits s1 = Some l" and
        l: "(\<exists>f. processor = Some f \<and> fst (f l w2) = Panic) \<or>
          (\<exists>l'. (case processor of None \<Rightarrow> l' = l | Some f \<Rightarrow> fst (f l w2) = Ok l')
            \<and> (case sampler s1 of None \<Rightarrow> greedy_token mdl l' = Panic
               | Some smp \<Rightarrow> fst (sample smp l' (prompt_of s1) (gens s1)) = Panic))" by blast
      then have "next_logits mdl s l" using forward_pending_next f Ok by simp
      with l show ?thesis unfolding same callee_panics_def p snd_conv by blast
    qed (use inner open' p f c Ok in \<open>simp add: step_inner_def\<close>)
  next
    case Panic
    from forward_pending_panics [OF f [unfolded Panic]] show ?thesis unfolding callee_panics_def by (rule disjI1)
  qed (use inner open' p f in \<open>simp add: step_inner_def\<close>)
  with open' show ?thesis by blast
qed

text \<open>What a step that succeeds did: one token, or none because the request is over.\<close>

lemma session_step_output:
  assumes wf: "session_wf mdl ctl s" and "session_step mdl ctl sample processor (s, w) = (Ok q, (t, w'))"
  shows "case q of
      None \<Rightarrow> gens t = gens s \<and> finish_reason t \<noteq> None
    | Some st \<Rightarrow> gens t = gens s @ [step_token st] \<and> finish_reason t = step_reason st"
proof -
  have "fault s = None" using wf by (simp add: session_wf_def)
  then have inner: "step_inner mdl ctl sample processor (s, w) = (Ok q, (t, w'))"
    using assms(2) by (auto simp: session_step_def split: prod.splits res.splits)
  show ?thesis
  proof (cases "finish_reason s = None \<and> \<not> fst (poll ctl w)")
    case False
    then show ?thesis using inner
      by (auto simp: step_inner_def finish_def split: prod.splits bool.splits if_splits)
  next
    case True
    obtain w1 where p: "poll ctl w = (False, w1)" using True by (metis prod.collapse)
    then obtain s1 w2 token s2 w3 where run:
      "forward_pending mdl (s, w1) = (Ok (), (s1, w2))"
      "choose_token mdl sample processor (s1, w2) = (Ok token, (s2, w3))"
      "accept_token token (s2, w3) = (Ok q, (t, w'))"
      using inner True by (auto simp: step_inner_def bind_op_Ok)
    note fwd = forward_pending_primed [OF wf True [THEN conjunct1] run(1)]
    note cho = choose_token_primed [OF fwd [THEN conjunct1] run(2)]
    have inside: "\<not> outside (vocab_size (limits s2)) token"
      using run(3) by (auto simp: accept_token_def split: if_splits)
    have "history_wf ctl s2" using cho by (simp add: primed_def)
    from accept_token_eq [OF this inside, of w3] obtain m where
      "accept_token token (s2, w3) =
         (Ok (Some \<lparr>step_token = token, step_generated = length (gens s2) + 1,
                   step_reason = reason_at ctl s2 (gens s2 @ [token])\<rparr>), (after_token ctl token m s2, w3))" by blast
    then have t: "t = after_token ctl token m s2" "q = Some \<lparr>step_token = token, step_generated = length (gens s2) + 1,
                   step_reason = reason_at ctl s2 (gens s2 @ [token])\<rparr>"
      using run(3) by simp_all
    have "finish_reason s2 = None" "gens s2 = gens s" using fwd cho by (simp_all add: primed_def)
    then show ?thesis by (simp add: t after_token_sel)
  qed
qed

section \<open>Starting\<close>

lemma check_logits_good: "check_logits mdl lim l = Ok () \<longleftrightarrow> good_logits mdl lim l"
  by (auto simp: check_logits_def good_logits_def split: prod.splits)

lemma history_wf_empty:
  assumes "accepted lim prompt gen ctl ends" and "matcher_at (stop_token_sequences ctl) [] m"
  shows "history_wf ctl (empty_session mdl lim prompt gen smp ends m reason)"
  using assms by (simp add: history_wf_def empty_session_def out_of_def)

lemma prefill_session_Ok:
  assumes "prefill_session mdl prompt pfx s = Ok t"
  obtains l c where "t = s\<lparr>cache := c, logits := Some l, processed_tokens := length prompt\<rparr>"
    "check_logits mdl (limits s) l = Ok ()"
  using assms by (auto simp: prefill_session_def Let_def split: prod.splits res.splits)

lemma new_with_prefix_wf:
  fixes s :: "('c, 'l, 's) session"
  assumes "new_with_prefix mdl lim prompt gen smp ctl pfx w = (Ok s, w')"
  shows "session_wf mdl ctl s \<and> gens s = [] \<and> prompt_of s = prompt \<and> limits s = lim \<and> generation s = gen"
proof -
  obtain ends b m where acc: "accepted lim prompt gen ctl ends" and p: "poll ctl w = (b, w')"
    and m: "matcher_new (stop_token_sequences ctl) = Some m"
    and new: "let reason = if b then Some Cancelled
                   else if max_new_tokens gen = 0 then Some MaxNewTokens else None;
                 e = empty_session mdl lim prompt gen smp ends m reason in
              (if reason = None then prefill_session mdl prompt pfx e else Ok e) = Ok s"
    using assms
    by (auto simp: new_with_prefix_def accepted_def Let_def split: res.splits prod.splits option.splits if_splits)
  have m0: "matcher_at (stop_token_sequences ctl) [] m"
    using matcher_new_at [OF acceptedD(1) [OF acc]] m by auto
  note hist = history_wf_empty [OF acc m0]
  show ?thesis
  proof (cases "b \<or> max_new_tokens gen = 0")
    case True
    then have s: "s = empty_session mdl lim prompt gen smp ends m (Some (if b then Cancelled else MaxNewTokens))"
      using new by (cases b) (simp_all add: Let_def)
    have "history_wf ctl s" unfolding s by (rule hist)
    then show ?thesis using True s by (auto simp: session_wf_def closed_wf_def empty_session_def)
  next
    case False
    let ?e = "empty_session mdl lim prompt gen smp ends m None"
    obtain l c where s: "s = ?e\<lparr>cache := c, logits := Some l, processed_tokens := length prompt\<rparr>"
      "check_logits mdl (limits ?e) l = Ok ()"
      using new False by (auto simp: Let_def elim: prefill_session_Ok)
    have "history_wf ctl s" unfolding s(1) by (rule history_wf_cong [OF hist]) simp_all
    then show ?thesis using False s by (auto simp: session_wf_def open_wf_def empty_session_def)
  qed
qed

section \<open>Greedy sessions of a lawful model\<close>

text \<open>The cache stands for the inputs consumed so far.\<close>

definition linked ::
  "('c, 'l) causal_model \<Rightarrow> ('c \<Rightarrow> int list \<Rightarrow> bool) \<Rightarrow> (int list \<Rightarrow> int) \<Rightarrow> ('c, 'l, 's) session \<Rightarrow> bool" where
  "linked mdl rep nxt s \<longleftrightarrow>
     sampler s = None
     \<and> (if gens s = []
        then rep (cache s) (prompt_of s) \<and> (\<forall>l. logits s = Some l \<longrightarrow> greedy_token mdl l = Ok (nxt (prompt_of s)))
        else rep (cache s) (prompt_of s @ butlast (gens s)))"

lemma forward_pending_linked:
  fixes s :: "('c, 'l, 's) session"
  assumes "lawful mdl (limits s) rep nxt" and "session_wf mdl ctl s" and "finish_reason s = None"
    and "linked mdl rep nxt s"
  shows "\<exists>t l. forward_pending mdl (s, w) = (Ok (), (t, w)) \<and> rep (cache t) (prompt_of s @ gens s)
    \<and> logits t = Some l \<and> greedy_token mdl l = Ok (nxt (prompt_of s @ gens s))"
proof (cases "gens s = []")
  case True
  then show ?thesis
    using assms by (auto simp: forward_pending_def session_wf_def open_wf_def linked_def)
next
  case False
  have hist: "history_wf ctl s" using assms(2) by (simp add: session_wf_def)
  have open': "pending_input s = Some (last (gens s))" "length (gens s) < limit_of s"
    "processed_tokens s + 1 = prompt_length s + length (gens s)"
    using assms(2,3) False by (auto simp: session_wf_def open_wf_def)
  have room: "length (prompt_of s) + limit_of s \<le> max_sequence_length (limits s)"
    by (rule acceptedD(3) [OF history_wfD(2) [OF hist]])
  have gs: "butlast (gens s) @ [last (gens s)] = gens s" using False by simp
  have rep: "rep (cache s) (prompt_of s @ butlast (gens s))" using assms(4) False by (simp add: linked_def)
  have split: "(prompt_of s @ butlast (gens s)) @ [last (gens s)] = prompt_of s @ gens s"
    using gs by simp
  have "length ((prompt_of s @ butlast (gens s)) @ [last (gens s)]) \<le> max_sequence_length (limits s)"
    unfolding split using room open'(2) by simp
  from lawfulE [OF assms(1) rep _ this] obtain l c where
    l: "try_forward mdl [last (gens s)] (cache s) = (Ok l, c)" "rep c (prompt_of s @ gens s)"
      "good_logits mdl (limits s) l" "greedy_token mdl l = Ok (nxt (prompt_of s @ gens s))"
    unfolding split by blast
  have "processed_tokens s + 1 \<le> usize_max"
    using open' history_wf_room [OF hist] by linarith
  then show ?thesis
    using l(1,2,4) open'(1) l(3)
    by (simp add: forward_pending_def check_logits_good [symmetric] Let_def checked_add_def)
qed

lemma session_step_linked:
  fixes s :: "('c, 'l, 's) session"
  assumes "lawful mdl (limits s) rep nxt" and "session_wf mdl ctl s" and "finish_reason s = None"
    and "linked mdl rep nxt s" and "poll ctl w = (False, w1)"
  defines "t \<equiv> nxt (prompt_of s @ gens s)"
  shows "\<exists>s'. session_step mdl ctl sample None (s, w)
      = (Ok (Some \<lparr>step_token = t, step_generated = length (gens s) + 1,
                   step_reason = reason_at ctl s (gens s @ [t])\<rparr>), (s', w1))
    \<and> session_wf mdl ctl s' \<and> linked mdl rep nxt s' \<and> gens s' = gens s @ [t]
    \<and> prompt_of s' = prompt_of s \<and> prompt_length s' = prompt_length s \<and> limits s' = limits s
    \<and> generation s' = generation s \<and> eos s' = eos s
    \<and> finish_reason s' = reason_at ctl s (gens s @ [t])"
proof -
  have fault: "fault s = None" using assms(2) by (simp add: session_wf_def)
  from forward_pending_linked [OF assms(1-4), of w1]
  obtain u l where u: "forward_pending mdl (s, w1) = (Ok (), (u, w1))"
    "rep (cache u) (prompt_of s @ gens s)" "logits u = Some l"
    "greedy_token mdl l = Ok (nxt (prompt_of s @ gens s))"
    by blast
  have pu: "primed mdl ctl u" and same: "out u = out s" "prompt_length u = prompt_length s" "limits u = limits s"
    "generation u = generation s" "eos u = eos s" "sampler u = sampler s"
    using forward_pending_primed [OF assms(2,3) u(1)] by auto
  have hist: "history_wf ctl u" and fin: "finish_reason u = None" and pend: "pending_input u = None"
    and chk: "check_logits mdl (limits u) l = Ok ()"
    using pu u(3) by (auto simp: primed_def)
  have smp: "sampler u = None" using assms(4) same by (simp add: linked_def)
  have pick: "choose_token mdl sample None (u, w1) = (Ok t, (u, w1))"
    using u(3,4) smp chk by (simp add: choose_token_def t_def)
  have inside: "\<not> outside (vocab_size (limits u)) t"
    unfolding t_def same(3) by (rule lawful_inside [OF assms(1)])
  from accept_token_eq [OF hist inside, of w1] obtain m where m:
    "accept_token t (u, w1) =
       (Ok (Some \<lparr>step_token = t, step_generated = length (gens u) + 1,
                 step_reason = reason_at ctl u (gens u @ [t])\<rparr>), (after_token ctl t m u, w1))"
    "matcher_at (stop_token_sequences ctl) (gens u @ [t]) m" by blast
  let ?s' = "after_token ctl t m u"
  have "session_step mdl ctl sample None (s, w)
      = (Ok (Some \<lparr>step_token = t, step_generated = length (gens s) + 1,
                   step_reason = reason_at ctl s (gens s @ [t])\<rparr>), (?s', w1))"
    using assms(3,5) fault u(1) pick m(1) by (simp add: session_step_def step_inner_def same)
  moreover have "linked mdl rep nxt ?s'"
    using u(2) smp
    unfolding linked_def prompt_of_after_token [OF hist] by (simp add: after_token_sel same)
  ultimately show ?thesis
    using after_token_wf [OF pu inside m(2)]
    by (intro exI [of _ ?s'])
      (simp add: prompt_of_after_token [OF hist], simp add: after_token_sel same fin)
qed

section \<open>The loop\<close>

lemma step_loop_finished:
  fixes s :: "('c, 'l, 's) session"
  assumes "session_wf mdl ctl s" and "finish_reason s = Some r"
  shows "step_loop mdl ctl sample on_token (s, w) = Some (Ok (), (s, w))"
  using assms
  by (subst step_loop.simps) (simp add: loop_body_def session_step_def step_inner_def session_wf_def)

lemma session_wf_out:
  "session_wf mdl ctl s \<Longrightarrow> out s = out_of (eos s) (prompt_of s) (gens s)"
  unfolding session_wf_def by (elim conjE, rule history_wfD(3))

lemma session_wf_processed:
  fixes s :: "('c, 'l, 's) session"
  assumes "session_wf mdl ctl s" and "finish_reason s = None \<or> gens s \<noteq> []"
  shows "0 < processed_tokens s"
proof -
  have pos: "0 < prompt_length s"
    using assms(1) history_wf_room unfolding session_wf_def by blast
  show ?thesis
  proof (cases "gens s = []")
    case True
    then show ?thesis using assms pos by (auto simp: session_wf_def open_wf_def)
  next
    case False
    then have "processed_tokens s + 1 = prompt_length s + length (gens s)"
      using assms(1) by (auto simp: session_wf_def open_wf_def closed_wf_def split: option.splits)
    then show ?thesis using pos False by (cases "gens s") auto
  qed
qed

lemma finish_sel [simp]:
  "out (finish r s) = out s" "prompt_length (finish r s) = prompt_length s" "eos (finish r s) = eos s"
  "finish_reason (finish r s) = Some r" "processed_tokens (finish r s) = processed_tokens s"
  by (simp_all add: finish_def)

lemma step_loop_ref:
  fixes s :: "('c, 'l, 's) session"
  assumes "lawful mdl lim rep nxt" and "limits s = lim" and "session_wf mdl ctl s"
    and "finish_reason s = None" and "linked mdl rep nxt s" and "length (gens s) + n = limit_of s"
    and "ref_loop nxt ctl on_token (eos s) (limit_of s) (prompt_of s) n (gens s) w = ((gs', r), w')"
  shows "\<exists>s'. step_loop mdl ctl sample on_token (s, w) = Some (Ok (), (s', w'))
    \<and> out s' = out_of (eos s) (prompt_of s) gs' \<and> finish_reason s' = Some r \<and> 0 < processed_tokens s'"
  using assms(2-)
proof (induction n arbitrary: s w)
  case 0
  then show ?case by (auto simp: session_wf_def open_wf_def)
next
  case (Suc n)
  let ?t = "nxt (prompt_of s @ gens s)"
  let ?gs = "gens s @ [?t]"
  have fault: "fault s = None" using Suc.prems(2) by (simp add: session_wf_def)
  obtain b w1 where p1: "poll ctl w = (b, w1)" by force
  show ?case
  proof (cases b)
    case True
    have "session_step mdl ctl sample None (s, w) = (Ok None, (finish Cancelled s, w1))"
      using True p1 Suc.prems(3) fault by (simp add: session_step_def step_inner_def)
    then have "step_loop mdl ctl sample on_token (s, w) = Some (Ok (), (finish Cancelled s, w1))"
      by (subst step_loop.simps) (simp add: loop_body_def)
    moreover have "gs' = gens s" "r = Cancelled" "w' = w1" using Suc.prems(6) True p1 by auto
    ultimately show ?thesis
      using session_wf_out [OF Suc.prems(2)] session_wf_processed [OF Suc.prems(2)] Suc.prems(3)
      by (intro exI [of _ "finish Cancelled s"]) simp
  next
    case False
    with p1 have p1: "poll ctl w = (False, w1)" by simp
    have law: "lawful mdl (limits s) rep nxt" using assms(1) Suc.prems(1) by simp
    from session_step_linked [OF law Suc.prems(2,3,4) p1, of sample]
    obtain u where u: "session_step mdl ctl sample None (s, w)
        = (Ok (Some \<lparr>step_token = ?t, step_generated = length (gens s) + 1,
                     step_reason = reason_at ctl s ?gs\<rparr>), (u, w1))"
      "session_wf mdl ctl u" "linked mdl rep nxt u" "gens u = ?gs" "prompt_of u = prompt_of s"
      "limits u = limits s" "generation u = generation s" "eos u = eos s"
      "finish_reason u = reason_at ctl s ?gs"
      by blast
    obtain response w2 where
      cb: "on_token (event_of (eos s) (stop_token_sequences ctl) (limit_of s) ?gs) w1 = (response, w2)"
      by force
    obtain c w3 where p2: "poll ctl w2 = (c, w3)" by force
    have body: "loop_body mdl ctl sample on_token (s, w) =
        Inr (if reason_at ctl s ?gs \<noteq> None then (u, w2)
             else if response = Break then (finish Cancelled u, w2)
             else if c then (finish Cancelled u, w3) else (u, w3))"
      using cb p2 u(1,4) by (cases c) (simp_all add: loop_body_def event_of_def)
    note run = Suc.prems(6) [unfolded ref_loop.simps p1 Let_def cb prod.case bool.case]
    have outu: "out u = out_of (eos s) (prompt_of s) ?gs" using session_wf_out [OF u(2)] u(4,5,8) by simp
    have pos: "0 < processed_tokens u" using u(4) by (intro session_wf_processed [OF u(2)]) simp
    show ?thesis
    proof (cases "reason_at ctl s ?gs")
      case (Some r0)
      then have "step_loop mdl ctl sample on_token (s, w) = Some (Ok (), (u, w2))"
        using step_loop_finished [OF u(2)] u(9) by (subst step_loop.simps) (simp add: body)
      moreover have "gs' = ?gs" "r = r0" "w' = w2" using run Some by auto
      ultimately show ?thesis using outu pos u(9) Some by (intro exI [of _ u]) simp
    next
      case None
      then have wfc: "session_wf mdl ctl (finish Cancelled u)" using u(2,9) by (intro finish_cancelled_wf) auto
      show ?thesis
      proof (cases "response = Break \<or> c")
        case True
        let ?w = "if response = Break then w2 else w3"
        have "step_loop mdl ctl sample on_token (s, w) = Some (Ok (), (finish Cancelled u, ?w))"
          using step_loop_finished [OF wfc] True None by (subst step_loop.simps) (auto simp: body)
        moreover have "gs' = ?gs \<and> r = Cancelled \<and> w' = ?w" using run None True p2 by (auto split: if_splits)
        ultimately show ?thesis using outu pos by (intro exI [of _ "finish Cancelled u"]) simp
      next
        case False
        have "step_loop mdl ctl sample on_token (s, w) = step_loop mdl ctl sample on_token (u, w3)"
          using False None by (subst step_loop.simps) (simp add: body)
        moreover have "ref_loop nxt ctl on_token (eos u) (limit_of u) (prompt_of u) n (gens u) w3 = ((gs', r), w')"
          using run False None p2 u(4,5,7,8) by simp
        moreover have "length (gens u) + n = limit_of u" "limits u = lim" "finish_reason u = None"
          using Suc.prems(1,5) u(4,6,7,9) None by simp_all
        ultimately show ?thesis
          using Suc.IH [of u w3] u(2,3,5,8) by simp
      qed
    qed
  qed
qed

text \<open>A fresh greedy session is linked to the model.\<close>

lemma new_greedy_linked:
  fixes mdl :: "('c, 'l) causal_model"
  assumes "lawful mdl lim rep nxt" and "accepted lim prompt gen ctl ends" and "poll ctl w = (b, w1)"
  shows "\<exists>s :: ('c, 'l, 's) session. new_greedy mdl lim prompt gen ctl w = (Ok s, w1) \<and> eos s = ends
    \<and> processed_tokens s = (if b \<or> max_new_tokens gen = 0 then 0 else length prompt)
    \<and> finish_reason s = (if b then Some Cancelled else if max_new_tokens gen = 0 then Some MaxNewTokens else None)
    \<and> (finish_reason s = None \<longrightarrow> linked mdl rep nxt s)"
proof -
  note acc = acceptedD [OF assms(2)]
  obtain m where m: "matcher_new (stop_token_sequences ctl) = Some m"
    using matcher_new_at [OF acc(1)] by blast
  have "length ([] @ prompt) \<le> max_sequence_length lim" using acc(3) by simp
  from lawfulE [OF assms(1) lawful_fresh [OF assms(1)] acc(2) this] obtain l c where
    l: "try_forward mdl prompt (fresh_cache mdl) = (Ok l, c)" "rep c prompt" "good_logits mdl lim l"
      "greedy_token mdl l = Ok (nxt prompt)" by auto
  have chk: "check_logits mdl lim l = Ok ()" using l(3) by (simp add: check_logits_good)
  show ?thesis
    using assms(2,3) m acc(2) l(1,2,4) chk
    by (auto simp: new_greedy_def new_session_def new_with_prefix_def accepted_def prefill_session_def
        Let_def empty_session_def linked_def)
qed

text \<open>So is one that starts from a sound prefix of the prompt, cache and logits.\<close>

definition sound_prefix ::
  "('c, 'l) causal_model \<Rightarrow> ('c \<Rightarrow> int list \<Rightarrow> bool) \<Rightarrow> (int list \<Rightarrow> int) \<Rightarrow> ('c, 'l) prefilled \<Rightarrow> bool" where
  "sound_prefix mdl rep nxt p \<longleftrightarrow>
     rep (pre_cache p) (pre_tokens p) \<and> greedy_token mdl (pre_logits p) = Ok (nxt (pre_tokens p))"

lemma new_prefilled_linked:
  fixes mdl :: "('c, 'l) causal_model"
  assumes "lawful mdl lim rep nxt" and "accepted lim prompt gen ctl ends" and "poll ctl w = (b, w1)"
    and "prefilled_ok mdl mid lim prompt p" and "sound_prefix mdl rep nxt p"
  shows "\<exists>s :: ('c, 'l, 's) session. new_greedy_prefilled mdl lim prompt gen ctl mid p w = (Ok s, w1) \<and> eos s = ends
    \<and> processed_tokens s = (if b \<or> max_new_tokens gen = 0 then 0 else length prompt)
    \<and> finish_reason s = (if b then Some Cancelled else if max_new_tokens gen = 0 then Some MaxNewTokens else None)
    \<and> (finish_reason s = None \<longrightarrow> linked mdl rep nxt s)"
proof -
  note acc = acceptedD [OF assms(2)]
  obtain m where m: "matcher_new (stop_token_sequences ctl) = Some m"
    using matcher_new_at [OF acc(1)] by blast
  let ?k = "pre_tokens p"
  have pre: "take (length ?k) prompt = ?k" using assms(4) by (auto simp: prefilled_ok_def split: prod.splits)
  have shape: "check_logits mdl lim (pre_logits p) = Ok ()"
    using assms(4) by (auto simp: prefilled_ok_def check_logits_def split: prod.splits)
  have room: "length prompt \<le> max_sequence_length lim" using acc(3) by simp
  have all: "?k @ drop (length ?k) prompt = prompt" using append_take_drop_id [of "length ?k" prompt] pre by simp
  have "\<exists>l c. (if length ?k = length prompt then (Ok (pre_logits p), pre_cache p)
        else if length ?k > length prompt then (Panic, pre_cache p)
        else try_forward mdl (drop (length ?k) prompt) (pre_cache p)) = (Ok l, c)
      \<and> rep c prompt \<and> check_logits mdl lim l = Ok () \<and> greedy_token mdl l = Ok (nxt prompt)"
  proof (cases "length ?k = length prompt")
    case True
    then have "?k = prompt" using pre by simp
    then show ?thesis using assms(5) shape by (simp add: sound_prefix_def)
  next
    case False
    then have less: "length ?k < length prompt" using arg_cong [OF pre, of length] by simp
    then have ne: "drop (length ?k) prompt \<noteq> []" by simp
    have rep: "rep (pre_cache p) ?k" using assms(5) by (simp add: sound_prefix_def)
    from lawfulE [OF assms(1) rep ne] obtain l c where
      "try_forward mdl (drop (length ?k) prompt) (pre_cache p) = (Ok l, c)" "rep c prompt"
      "good_logits mdl lim l" "greedy_token mdl l = Ok (nxt prompt)"
      unfolding all using room by metis
    then show ?thesis using less by (simp add: check_logits_good)
  qed
  then obtain l c where l: "(if length ?k = length prompt then (Ok (pre_logits p), pre_cache p)
        else if length ?k > length prompt then (Panic, pre_cache p)
        else try_forward mdl (drop (length ?k) prompt) (pre_cache p)) = (Ok l, c)"
      "rep c prompt" "check_logits mdl lim l = Ok ()" "greedy_token mdl l = Ok (nxt prompt)" by blast
  have fill: "prefill_session mdl prompt (Some p) e = Ok (e\<lparr>cache := c, logits := Some l, processed_tokens := length prompt\<rparr>)"
    if "limits e = lim" for e :: "('c, 'l, 's) session"
    using l(1,3) that by (auto simp: prefill_session_def split: if_splits)
  show ?thesis
    using assms(2,3,4) m l(2,4)
    by (auto simp: new_greedy_prefilled_def new_with_prefix_def accepted_def fill
        Let_def empty_session_def linked_def)
qed

lemma run_stream_ref:
  fixes s :: "('c, 'l, 's) session"
  assumes "lawful mdl lim rep nxt" and "poll ctl w = (b, w1)"
    and "session_wf mdl ctl s" "gens s = []" "prompt_of s = prompt" "limits s = lim" "generation s = gen"
    and "eos s = ends" "processed_tokens s = (if b \<or> max_new_tokens gen = 0 then 0 else length prompt)"
    and "finish_reason s = (if b then Some Cancelled else if max_new_tokens gen = 0 then Some MaxNewTokens else None)"
    and "finish_reason s = None \<longrightarrow> linked mdl rep nxt s"
  shows "map_option (\<lambda>(r, sw). (r, snd sw)) (run_stream mdl ctl sync sample on_token (s, w1))
    = Some (ref_generate nxt ctl on_token ends (max_new_tokens gen) prompt sync w)"
proof -
  note wf = assms(3-7)
  have outs: "out s = out_of ends prompt []" using session_wf_out [OF wf(1)] wf(2,3) assms(8) by simp
  show ?thesis
  proof (cases "b \<or> max_new_tokens gen = 0")
    case True
    then have "run_stream mdl ctl sync sample on_token (s, w1)
        = Some (Ok (out_of ends prompt [], if b then Cancelled else MaxNewTokens), (s, w1))"
      using step_loop_finished [OF wf(1)] assms(9,10) outs by (auto simp: run_stream_def)
    then show ?thesis using True assms(2) by (auto simp: ref_generate_def)
  next
    case False
    obtain gs r w2 where ref: "ref_loop nxt ctl on_token ends (max_new_tokens gen) prompt (max_new_tokens gen) [] w1
        = ((gs, r), w2)" by (metis prod.exhaust)
    have "\<exists>s'. step_loop mdl ctl sample on_token (s, w1) = Some (Ok (), (s', w2))
      \<and> out s' = out_of (eos s) (prompt_of s) gs \<and> finish_reason s' = Some r \<and> 0 < processed_tokens s'"
      using False assms(8,10,11) ref wf(2-5)
      by (intro step_loop_ref [OF assms(1) wf(4,1)]) simp_all
    then obtain s' where s': "step_loop mdl ctl sample on_token (s, w1) = Some (Ok (), (s', w2))"
      "out s' = out_of ends prompt gs" "finish_reason s' = Some r" "0 < processed_tokens s'"
      using wf(3) assms(8) by auto
    then show ?thesis
      using False assms(2) ref
      by (simp add: run_stream_def ref_generate_def bind_op_def split: prod.splits res.splits)
  qed
qed

theorem session_generate_ref:
  fixes mdl :: "('c, 'l) causal_model"
  assumes "lawful mdl lim rep nxt" and "accepted lim prompt gen ctl ends"
  shows "session_generate mdl lim prompt gen ctl sync (sample :: ('s, 'l) sampler_fun) on_token w
       = Some (ref_generate nxt ctl on_token ends (max_new_tokens gen) prompt sync w)"
proof -
  obtain b w1 where p: "poll ctl w = (b, w1)" by force
  from new_greedy_linked [OF assms p] obtain s :: "('c, 'l, 's) session" where
    s: "new_greedy mdl lim prompt gen ctl w = (Ok s, w1)" "eos s = ends"
      "processed_tokens s = (if b \<or> max_new_tokens gen = 0 then 0 else length prompt)"
      "finish_reason s = (if b then Some Cancelled else if max_new_tokens gen = 0 then Some MaxNewTokens else None)"
      "finish_reason s = None \<longrightarrow> linked mdl rep nxt s"
    by (elim exE conjE) (rule that)
  have wf: "session_wf mdl ctl s" "gens s = []" "prompt_of s = prompt" "limits s = lim" "generation s = gen"
    using new_with_prefix_wf [OF s(1) [unfolded new_greedy_def new_session_def]] by simp_all
  show ?thesis using run_stream_ref [OF assms(1) p wf s(2-5)] by (simp add: session_generate_def s(1))
qed

text \<open>The same request from a prefilled prompt.\<close>

theorem prefilled_generate_ref:
  fixes mdl :: "('c, 'l) causal_model"
  assumes "lawful mdl lim rep nxt" and "accepted lim prompt gen ctl ends"
    and "prefilled_ok mdl mid lim prompt p" and "sound_prefix mdl rep nxt p"
  shows "\<exists>s :: ('c, 'l, 's) session. \<exists>w1. new_greedy_prefilled mdl lim prompt gen ctl mid p w = (Ok s, w1)
    \<and> map_option (\<lambda>(r, sw). (r, snd sw)) (run_stream mdl ctl sync sample on_token (s, w1))
      = Some (ref_generate nxt ctl on_token ends (max_new_tokens gen) prompt sync w)"
proof -
  obtain b w1 where p: "poll ctl w = (b, w1)" by force
  from new_prefilled_linked [OF assms(1,2) p assms(3,4)] obtain s :: "('c, 'l, 's) session" where
    s: "new_greedy_prefilled mdl lim prompt gen ctl mid p w = (Ok s, w1)" "eos s = ends"
      "processed_tokens s = (if b \<or> max_new_tokens gen = 0 then 0 else length prompt)"
      "finish_reason s = (if b then Some Cancelled else if max_new_tokens gen = 0 then Some MaxNewTokens else None)"
      "finish_reason s = None \<longrightarrow> linked mdl rep nxt s"
    by (elim exE conjE) (rule that)
  have wf: "session_wf mdl ctl s" "gens s = []" "prompt_of s = prompt" "limits s = lim" "generation s = gen"
    using new_with_prefix_wf [of mdl lim prompt gen None ctl "Some p" w s w1] s(1) assms(3)
    by (simp_all add: new_greedy_prefilled_def)
  show ?thesis using run_stream_ref [OF assms(1) p wf s(2-5)] s(1) by blast
qed

end
