(* ===== verification/SessionRecord.thy ===== *)
theory SessionRecord
  imports SessionInv
begin

text \<open>
  \<^verbatim>\<open>src/src/generation/session/record.rs\<close>: a session saved between two steps and
  restored later, and the proof that nothing is lost.

  The recorder, the native cache records, the tensor data and the sampler record are behind
  \<open>codec\<close>, a record of the operations the code calls. The stop matcher is not saved:
  \<open>replay\<close> feeds a new one with the saved generated tokens.
\<close>

section \<open>Data\<close>

record ('c, 'l, 's, 'r, 'd, 'q) codec =
  generation_position :: "'c \<Rightarrow> nat"
  capture_generation :: "'c \<Rightarrow> string \<Rightarrow> (string, 'r) res"
  restore_generation :: "'r \<Rightarrow> string \<Rightarrow> 'c \<Rightarrow> nat \<Rightarrow> (string, 'c) res"
  into_data :: "'l \<Rightarrow> (string, 'd) res"
  from_data :: "'d \<Rightarrow> 'l"
  data_shape :: "'d \<Rightarrow> nat list"
  data_float :: "'d \<Rightarrow> bool"
  data_dtype_size :: "'d \<Rightarrow> nat"
  data_bytes :: "'d \<Rightarrow> nat"
  to_state :: "'s \<Rightarrow> 'q"
  from_state :: "'q \<Rightarrow> (string, 's) res"

record 'q session_state =
  saved_limits :: causal_limits
  saved_generation :: greedy_generation
  saved_stops :: "int list list"
  saved_prompt_length :: nat
  saved_processed :: nat
  saved_out :: token_output
  saved_pending :: "int option"
  saved_sampler :: "'q option"
  saved_reason :: "Generation.finish_reason option"

record ('r, 'd, 'q) session_record =
  version :: nat
  record_model_id :: string
  record_state :: "'q session_state"
  record_cache :: 'r
  record_logits :: "'d option"

section \<open>Saving\<close>

text \<open>The byte count, a \<open>try_fold\<close> of checked multiplications.\<close>

fun checked_product :: "nat \<Rightarrow> nat list \<Rightarrow> nat option" where
  "checked_product acc [] = Some acc"
| "checked_product acc (d # ds) =
     (case checked_mul acc d of None \<Rightarrow> None | Some n \<Rightarrow> checked_product n ds)"

definition check_data ::
  "('c, 'l, 's, 'r, 'd, 'q) codec \<Rightarrow> nat \<Rightarrow> 'd \<Rightarrow> (string, unit) res" where
  "check_data cd vocabulary d =
     (if length (data_shape cd d) \<noteq> 3 \<or> data_shape cd d ! 0 \<noteq> 1 \<or> data_shape cd d ! 1 = 0
         \<or> data_shape cd d ! 2 \<noteq> vocabulary \<or> \<not> data_float cd d
      then Err ''pending logits do not have original native batch-one vocabulary geometry''
      else case Option.bind (checked_product 1 (data_shape cd d)) (\<lambda>n. checked_mul n (data_dtype_size cd d)) of
        None \<Rightarrow> Err ''pending logits byte count overflow''
      | Some bytes \<Rightarrow>
          if data_bytes cd d \<noteq> bytes then Err ''pending logits byte count differs from native storage''
          else Ok ())"

definition record_session ::
  "('c, 'l, 's, 'r, 'd, 'q) codec \<Rightarrow> ('w, unit) generation_op \<Rightarrow> 'w control \<Rightarrow> string
   \<Rightarrow> (('c, 'l, 's) session \<times> 'w, string, ('r, 'd, 'q) session_record) op" where
  "record_session cd sync ctl model_id sw =
     (case sw of (s, w) \<Rightarrow>
      if model_id = [] \<or> fault s \<noteq> None
      then (Err ''exact identity and a nonfaulted token boundary are required'', (s, w))
      else if generation_position cd (cache s) \<noteq> processed_tokens s
      then (Err ''cache is not at the request's completed input position'', (s, w))
      else case (if processed_tokens s > 0 then sync w else (Ok (), w)) of
        (Err e, w) \<Rightarrow> (Err ''generation checkpoint did not complete'', (s\<lparr>fault := Some e\<rparr>, w))
      | (Panic, w) \<Rightarrow> (Panic, (s, w))
      | (Ok _, w) \<Rightarrow>
      (case (case logits s of
               None \<Rightarrow> Ok None
             | Some l \<Rightarrow>
                 (case into_data cd l of
                    Err e \<Rightarrow> Err e
                  | Panic \<Rightarrow> Panic
                  | Ok d \<Rightarrow>
                      (case check_data cd (vocab_size (limits s)) d of
                         Err e \<Rightarrow> Err e
                       | Panic \<Rightarrow> Panic
                       | Ok _ \<Rightarrow> Ok (Some d)))) of
         Err e \<Rightarrow> (Err e, (s, w))
       | Panic \<Rightarrow> (Panic, (s, w))
       | Ok data \<Rightarrow>
       (case capture_generation cd (cache s) model_id of
          Err e \<Rightarrow> (Err e, (s, w))
        | Panic \<Rightarrow> (Panic, (s, w))
        | Ok r \<Rightarrow>
            (Ok \<lparr>version = 1, record_model_id = model_id,
                 record_state =
                   \<lparr>saved_limits = limits s, saved_generation = generation s,
                    saved_stops = stop_token_sequences ctl, saved_prompt_length = prompt_length s,
                    saved_processed = processed_tokens s, saved_out = out s,
                    saved_pending = pending_input s,
                    saved_sampler = map_option (to_state cd) (sampler s),
                    saved_reason = finish_reason s\<rparr>,
                 record_cache = r, record_logits = data\<rparr>, (s, w)))))"

section \<open>Restoring\<close>

text \<open>The loop over the saved tokens: the matcher and the natural stop of the last token.\<close>

fun replay ::
  "int list \<Rightarrow> nat \<Rightarrow> nat \<Rightarrow> nat \<Rightarrow> int list \<Rightarrow> int matcher \<Rightarrow> Generation.finish_reason option
   \<Rightarrow> (string, int matcher \<times> Generation.finish_reason option) res" where
  "replay ends limit vocab index [] m natural = Ok (m, natural)"
| "replay ends limit vocab index (token # rest) m natural =
     (if natural \<noteq> None \<or> outside vocab token
      then Err ''suffix contains invalid tokens or tokens after natural termination''
      else case push m token of
        None \<Rightarrow> Panic
      | Some (m, hit) \<Rightarrow>
          replay ends limit vocab (index + 1) rest m (natural_stop ends limit token hit (index + 1)))"

definition reason_valid :: "nat \<Rightarrow> nat \<Rightarrow> Generation.finish_reason option
   \<Rightarrow> Generation.finish_reason option \<Rightarrow> bool" where
  "reason_valid made limit natural reason =
     (case reason of
        Some Cancelled \<Rightarrow> natural = None
      | r \<Rightarrow> if r = Some MaxNewTokens \<and> made = 0 then limit = 0
             else r = natural \<and> (made > 0 \<or> limit > 0))"

text \<open>The positions of pending input, pending logits and consumed inputs.\<close>

definition boundary_ok :: "'q session_state \<Rightarrow> bool \<Rightarrow> (string, unit) res" where
  "boundary_ok st has_logits =
     (let made = length (generated_token_ids (saved_out st));
          consumed = (if made = 0 then saved_prompt_length st else saved_prompt_length st + made - 1) in
      if saved_reason st = None \<and> made = 0
         \<and> (saved_processed st \<noteq> consumed \<or> saved_pending st \<noteq> None \<or> \<not> has_logits)
      then Err ''prefilled request is missing exact pending logits''
      else if saved_reason st = None \<and> made \<noteq> 0
         \<and> (saved_processed st \<noteq> consumed
            \<or> saved_pending st \<noteq> Some (last (generated_token_ids (saved_out st))) \<or> has_logits)
      then Err ''decode input and actual consumed prefix differ''
      else if saved_reason st \<noteq> None
         \<and> (saved_pending st \<noteq> None \<or> has_logits
            \<or> saved_processed st \<noteq> consumed \<and> \<not> (made = 0 \<and> saved_processed st = 0))
      then Err ''terminal request contains uncommitted inputs or inconsistent consumed history''
      else if made = 0 \<and> max_new_tokens (saved_generation st) = 0 \<and> saved_processed st \<noteq> 0
      then Err ''zero-limit request cannot contain a forwarded prompt''
      else Ok ())"

definition is_eos_reason :: "Generation.finish_reason option \<Rightarrow> bool" where
  "is_eos_reason r = (case r of Some (EosToken _) \<Rightarrow> True | _ \<Rightarrow> False)"

text \<open>The second half of \<open>restore\<close>: the sampler, the cache and the pending logits.\<close>

definition rebuild ::
  "('c, 'l) causal_model \<Rightarrow> ('c, 'l, 's, 'r, 'd, 'q) codec \<Rightarrow> string \<Rightarrow> ('r, 'd, 'q) session_record
   \<Rightarrow> int list \<Rightarrow> int matcher \<Rightarrow> (string, ('c, 'l, 's) session) res" where
  "rebuild mdl cd model_id rc ends m =
     (let st = record_state rc in
      case (case saved_sampler st of
              None \<Rightarrow> Ok None
            | Some q \<Rightarrow> (case from_state cd q of Ok smp \<Rightarrow> Ok (Some smp) | Err e \<Rightarrow> Err e | Panic \<Rightarrow> Panic)) of
        Err e \<Rightarrow> Err e
      | Panic \<Rightarrow> Panic
      | Ok smp \<Rightarrow>
          if generation_position cd (fresh_cache mdl) \<noteq> 0
          then Err ''fresh generation cache must start at input position zero''
          else (case restore_generation cd (record_cache rc) model_id (fresh_cache mdl) (saved_processed st) of
             Err e \<Rightarrow> Err e
           | Panic \<Rightarrow> Panic
           | Ok c \<Rightarrow>
               Ok \<lparr>limits = saved_limits st, generation = saved_generation st, matcher = m, eos = ends,
                   cache = c, logits = map_option (from_data cd) (record_logits rc),
                   pending_input = saved_pending st, sampler = smp,
                   prompt_length = saved_prompt_length st, processed_tokens = saved_processed st,
                   out = saved_out st, finish_reason = saved_reason st, fault = None\<rparr>))"

definition restore_session ::
  "('c, 'l) causal_model \<Rightarrow> ('c, 'l, 's, 'r, 'd, 'q) codec \<Rightarrow> causal_limits \<Rightarrow> string \<Rightarrow> 'w control
   \<Rightarrow> ('r, 'd, 'q) session_record \<Rightarrow> (string, ('c, 'l, 's) session) res" where
  "restore_session mdl cd lim model_id ctl rc =
     (let st = record_state rc; o' = saved_out st; gs = generated_token_ids o'; made = length gs;
          limit = max_new_tokens (saved_generation st) in
      if version rc \<noteq> 1 \<or> model_id = [] \<or> record_model_id rc \<noteq> model_id \<or> saved_limits st \<noteq> lim
      then Err ''record version, exact model identity or actual limits differ''
      else if saved_prompt_length st = 0
         \<or> checked_add (saved_prompt_length st) made \<noteq> Some (length (token_ids o'))
         \<or> made > limit \<or> drop (saved_prompt_length st) (token_ids o') \<noteq> gs
      then Err ''saved prompt, suffix or generated count differs''
      else case validate_generation lim (take (saved_prompt_length st) (token_ids o')) (saved_generation st) of
        Err e \<Rightarrow> Err ''generation limits''
      | Panic \<Rightarrow> Panic
      | Ok ends \<Rightarrow>
      (case control_validate (stop_token_sequences ctl) (vocab_size lim) of
        Err e \<Rightarrow> Err ''stop sequences''
      | Panic \<Rightarrow> Panic
      | Ok _ \<Rightarrow>
      if saved_stops st \<noteq> stop_token_sequences ctl then Err ''generated-only stopping patterns differ''
      else case matcher_new (stop_token_sequences ctl) of
        None \<Rightarrow> Panic
      | Some m0 \<Rightarrow>
      (case replay ends limit (vocab_size lim) 0 gs m0 None of
        Err e \<Rightarrow> Err e
      | Panic \<Rightarrow> Panic
      | Ok (m, natural) \<Rightarrow>
      if \<not> reason_valid made limit natural (saved_reason st)
         \<or> stopped_on_eos o' \<noteq> is_eos_reason (saved_reason st)
      then Err ''saved finish reason does not match actual generated history''
      else case boundary_ok st (record_logits rc \<noteq> None) of
        Err e \<Rightarrow> Err e
      | Panic \<Rightarrow> Panic
      | Ok _ \<Rightarrow>
      (case (case record_logits rc of None \<Rightarrow> Ok () | Some d \<Rightarrow> check_data cd (vocab_size lim) d) of
        Err e \<Rightarrow> Err e
      | Panic \<Rightarrow> Panic
      | Ok _ \<Rightarrow> rebuild mdl cd model_id rc ends m))))"

section \<open>Nothing is lost\<close>

lemma replay_ok:
  assumes "matcher_at pats gs m" and "\<forall>t\<in>set ts. \<not> outside vocab t"
    and "\<forall>n<length ts. n \<noteq> 0 \<longrightarrow> stop_reason ends pats limit (gs @ take n ts) = None"
    and "ts \<noteq> [] \<longrightarrow> natural = None"
  shows "\<exists>m'. replay ends limit vocab (length gs) ts m natural
      = Ok (m', if ts = [] then natural else stop_reason ends pats limit (gs @ ts))
    \<and> matcher_at pats (gs @ ts) m'"
  using assms
proof (induction ts arbitrary: gs m natural)
  case (Cons t ts)
  obtain m1 where m1: "push m t = Some (m1, first_stop pats (gs @ [t]))" "matcher_at pats (gs @ [t]) m1"
    using push_at [OF Cons.prems(1), of t] by blast
  have stop: "natural_stop ends limit t (first_stop pats (gs @ [t])) (length gs + 1)
      = stop_reason ends pats limit (gs @ [t])"
    by (simp add: stop_reason_def)
  have first: "ts \<noteq> [] \<longrightarrow> stop_reason ends pats limit (gs @ [t]) = None"
    using Cons.prems(3) [rule_format, of 1] by (cases ts) auto
  have rest: "\<forall>n<length ts. n \<noteq> 0 \<longrightarrow> stop_reason ends pats limit ((gs @ [t]) @ take n ts) = None"
    using Cons.prems(3) [rule_format, of "Suc n" for n] by auto
  have "\<forall>t\<in>set ts. \<not> outside vocab t" using Cons.prems(2) by simp
  from Cons.IH [OF m1(2) this rest first] obtain m' where m':
    "replay ends limit vocab (length (gs @ [t])) ts m1 (stop_reason ends pats limit (gs @ [t]))
     = Ok (m', if ts = [] then stop_reason ends pats limit (gs @ [t])
               else stop_reason ends pats limit ((gs @ [t]) @ ts))"
    "matcher_at pats ((gs @ [t]) @ ts) m'" by blast
  have "replay ends limit vocab (length gs) (t # ts) m natural
      = replay ends limit vocab (length (gs @ [t])) ts m1 (stop_reason ends pats limit (gs @ [t]))"
    using Cons.prems(2,4) m1(1) stop by simp
  then show ?case using m' by (intro exI [of _ m']) auto
qed simp

text \<open>The end tokens among the generated ones: none before the last.\<close>

lemma stop_reason_eos:
  "stop_reason ends pats limit gs = None \<Longrightarrow> gs \<noteq> [] \<Longrightarrow> last gs \<notin> set ends"
  by (auto simp: stop_reason_def natural_stop_def split: if_splits)

lemma no_eos_before:
  assumes "\<forall>n<length gs. n \<noteq> 0 \<longrightarrow> stop_reason ends pats limit (take n gs) = None" and "t \<in> set (butlast gs)"
  shows "t \<notin> set ends"
proof -
  obtain k where k: "k < length (butlast gs)" "butlast gs ! k = t" using assms(2) by (auto simp: in_set_conv_nth)
  then have "last (take (Suc k) gs) = t" by (simp add: take_Suc_conv_app_nth nth_butlast)
  moreover have "stop_reason ends pats limit (take (Suc k) gs) = None" using assms(1) k(1) by auto
  moreover have "take (Suc k) gs \<noteq> []" using k(1) by (cases gs) auto
  ultimately show ?thesis using stop_reason_eos by metis
qed

lemma stopped_iff_eos_reason:
  assumes "\<forall>n<length gs. n \<noteq> 0 \<longrightarrow> stop_reason ends pats limit (take n gs) = None"
    and "gs \<noteq> []"
  shows "list_ex (\<lambda>t. t \<in> set ends) gs \<longleftrightarrow> is_eos_reason (stop_reason ends pats limit gs)"
proof -
  have "list_ex (\<lambda>t. t \<in> set ends) (butlast gs @ [last gs]) \<longleftrightarrow> last gs \<in> set ends"
    using no_eos_before [OF assms(1)] by (auto simp: list_ex_iff)
  then show ?thesis
    using assms(2) by (auto simp: stop_reason_def natural_stop_def is_eos_reason_def split: option.split)
qed

text \<open>What the round trip relies on from the native records of one session.\<close>

definition codec_ok ::
  "('c, 'l) causal_model \<Rightarrow> ('c, 'l, 's, 'r, 'd, 'q) codec \<Rightarrow> string \<Rightarrow> ('c, 'l, 's) session \<Rightarrow> bool" where
  "codec_ok mdl cd model_id s \<longleftrightarrow>
     generation_position cd (fresh_cache mdl) = 0
     \<and> generation_position cd (cache s) = processed_tokens s
     \<and> (\<exists>r. capture_generation cd (cache s) model_id = Ok r
          \<and> restore_generation cd r model_id (fresh_cache mdl) (processed_tokens s) = Ok (cache s))
     \<and> (\<forall>l. logits s = Some l \<longrightarrow>
          (\<exists>d. into_data cd l = Ok d \<and> from_data cd d = l \<and> check_data cd (vocab_size (limits s)) d = Ok ()))
     \<and> (\<forall>smp. sampler s = Some smp \<longrightarrow> from_state cd (to_state cd smp) = Ok smp)"

lemma record_session_Ok:
  fixes s :: "('c, 'l, 's) session"
  assumes "codec_ok mdl cd model_id s" and "model_id \<noteq> []" and "fault s = None"
    and "(if processed_tokens s > 0 then sync w else (Ok (), w)) = (Ok (), w')"
  obtains rc where "record_session cd sync ctl model_id (s, w) = (Ok rc, (s, w'))"
    "version rc = 1" "record_model_id rc = model_id"
    "record_state rc =
       \<lparr>saved_limits = limits s, saved_generation = generation s,
        saved_stops = stop_token_sequences ctl, saved_prompt_length = prompt_length s,
        saved_processed = processed_tokens s, saved_out = out s,
        saved_pending = pending_input s, saved_sampler = map_option (to_state cd) (sampler s),
        saved_reason = finish_reason s\<rparr>"
    "restore_generation cd (record_cache rc) model_id (fresh_cache mdl) (processed_tokens s) = Ok (cache s)"
    "map_option (from_data cd) (record_logits rc) = logits s"
    "\<forall>d. record_logits rc = Some d \<longrightarrow> check_data cd (vocab_size (limits s)) d = Ok ()"
    "record_logits rc = None \<longleftrightarrow> logits s = None"
proof -
  obtain r where r: "capture_generation cd (cache s) model_id = Ok r"
    "restore_generation cd r model_id (fresh_cache mdl) (processed_tokens s) = Ok (cache s)"
    and pos: "generation_position cd (cache s) = processed_tokens s"
    using assms(1) by (auto simp: codec_ok_def)
  show ?thesis
  proof (cases "logits s")
    case None
    show ?thesis
      by (rule that) (use None r pos assms(2-4) in \<open>auto simp: record_session_def\<close>)
  next
    case (Some l)
    then obtain d where d: "into_data cd l = Ok d" "from_data cd d = l"
      "check_data cd (vocab_size (limits s)) d = Ok ()"
      using assms(1) by (auto simp: codec_ok_def)
    show ?thesis
      by (rule that) (use Some d r pos assms(2-4) in \<open>auto simp: record_session_def\<close>)
  qed
qed

text \<open>The stop reason that \<open>replay\<close> ends with fits the saved one.\<close>

abbreviation replayed :: "'w control \<Rightarrow> ('c, 'l, 's) session \<Rightarrow> Generation.finish_reason option" where
  "replayed ctl s \<equiv> (if gens s = [] then None else reason_at ctl s (gens s))"

lemma reason_valid_wf:
  assumes "session_wf mdl ctl s"
  shows "reason_valid (length (gens s)) (limit_of s) (replayed ctl s) (finish_reason s)"
proof (cases "finish_reason s")
  case None
  then show ?thesis
    using assms by (auto simp: session_wf_def open_wf_def reason_valid_def split: if_splits)
next
  case (Some r)
  then have "closed_wf ctl s r" using assms by (simp add: session_wf_def)
  moreover have "gens s \<noteq> [] \<Longrightarrow> reason_at ctl s (gens s) \<noteq> Some Cancelled"
    by (rule stop_reason_not_cancelled)
  ultimately show ?thesis using Some
    by (cases r) (auto simp: closed_wf_def reason_valid_def split: if_splits)
qed

lemma stopped_wf:
  assumes "session_wf mdl ctl s"
  shows "stopped_on_eos (out s) \<longleftrightarrow> is_eos_reason (finish_reason s)"
proof -
  have hist: "history_wf ctl s" using assms by (simp add: session_wf_def)
  have stopped: "stopped_on_eos (out s) \<longleftrightarrow> list_ex (\<lambda>t. t \<in> set (eos s)) (gens s)"
    by (subst history_wfD(3) [OF hist]) (simp add: out_of_def)
  show ?thesis
  proof (cases "gens s = []")
    case True
    then show ?thesis
      using assms unfolding stopped
      by (auto simp: session_wf_def closed_wf_def is_eos_reason_def split: option.splits)
  next
    case False
    have "list_ex (\<lambda>t. t \<in> set (eos s)) (gens s) \<longleftrightarrow> is_eos_reason (reason_at ctl s (gens s))"
      by (rule stopped_iff_eos_reason [OF history_wfD(6) [OF hist] False])
    moreover have "is_eos_reason (reason_at ctl s (gens s)) \<longleftrightarrow> is_eos_reason (finish_reason s)"
      using assms False
      by (cases "finish_reason s")
        (auto simp: session_wf_def open_wf_def closed_wf_def is_eos_reason_def split: if_splits option.splits)
    ultimately show ?thesis unfolding stopped by simp
  qed
qed

lemma boundary_wf:
  assumes "session_wf mdl ctl s" and "saved_out st = out s" and "saved_reason st = finish_reason s"
    and "saved_prompt_length st = prompt_length s" and "saved_processed st = processed_tokens s"
    and "saved_pending st = pending_input s" and "saved_generation st = generation s"
  shows "boundary_ok st (logits s \<noteq> None) = Ok ()"
proof (cases "finish_reason s")
  case None
  then have "open_wf mdl ctl s" using assms(1) by (simp add: session_wf_def)
  then show ?thesis
    using assms(2-) None by (auto simp: boundary_ok_def open_wf_def Let_def split: if_splits)
next
  case (Some r)
  then have "closed_wf ctl s r" using assms(1) by (simp add: session_wf_def)
  then show ?thesis
    using assms(2-) Some by (auto simp: boundary_ok_def closed_wf_def Let_def split: if_splits)
qed

lemma restore_saved:
  fixes s :: "('c, 'l, 's) session"
  assumes wf: "session_wf mdl ctl s" and codec: "codec_ok mdl cd model_id s" and id: "model_id \<noteq> []"
    and rc: "version rc = 1" "record_model_id rc = model_id"
      "record_state rc =
         \<lparr>saved_limits = limits s, saved_generation = generation s,
          saved_stops = stop_token_sequences ctl, saved_prompt_length = prompt_length s,
          saved_processed = processed_tokens s, saved_out = out s,
          saved_pending = pending_input s, saved_sampler = map_option (to_state cd) (sampler s),
          saved_reason = finish_reason s\<rparr>"
      "restore_generation cd (record_cache rc) model_id (fresh_cache mdl) (processed_tokens s) = Ok (cache s)"
      "map_option (from_data cd) (record_logits rc) = logits s"
      "\<forall>d. record_logits rc = Some d \<longrightarrow> check_data cd (vocab_size (limits s)) d = Ok ()"
      "record_logits rc = None \<longleftrightarrow> logits s = None"
  shows "restore_session mdl cd (limits s) model_id ctl rc = Ok s"
proof -
  have hist: "history_wf ctl s" and fault: "fault s = None" using wf by (simp_all add: session_wf_def)
  note acc = history_wfD(2) [OF hist]
  have toks: "token_ids (out s) = prompt_of s @ gens s" by (rule history_wf_token_ids [OF hist])
  have len: "length (token_ids (out s)) = prompt_length s + length (gens s)"
    using history_wfD(1) [OF hist] by (subst toks) simp
  have suffix: "drop (prompt_length s) (token_ids (out s)) = gens s"
    using history_wfD(1) [OF hist] by (subst toks) simp
  have le: "length (gens s) \<le> limit_of s"
    using wf by (auto simp: session_wf_def open_wf_def closed_wf_def split: option.splits)
  have room: "prompt_length s + length (gens s) \<le> usize_max" "prompt_length s \<noteq> 0"
    using history_wf_room [OF hist] le by auto
  obtain m0 where m0: "matcher_new (stop_token_sequences ctl) = Some m0"
    "matcher_at (stop_token_sequences ctl) [] m0"
    using matcher_new_at [OF acceptedD(1) [OF acc]] by blast
  have "\<forall>n<length (gens s). n \<noteq> 0 \<longrightarrow> reason_at ctl s ([] @ take n (gens s)) = None"
    using history_wfD(6) [OF hist] by simp
  from replay_ok [OF m0(2) history_wfD(5) [OF hist] this, of None] obtain m where
    m: "replay (eos s) (limit_of s) (vocab_size (limits s)) 0 (gens s) m0 None = Ok (m, replayed ctl s)"
      "matcher_at (stop_token_sequences ctl) (gens s) m" by auto
  have same: "m = matcher s" by (rule matcher_at_unique [OF m(2) history_wfD(4) [OF hist]])
  have valid: "validate_generation (limits s) (prompt_of s) (generation s) = Ok (eos s)"
    "control_validate (stop_token_sequences ctl) (vocab_size (limits s)) = Ok ()"
    using acc by (simp_all add: accepted_def)
  have smp: "(case map_option (to_state cd) (sampler s) of
       None \<Rightarrow> Ok None
     | Some q \<Rightarrow> (case from_state cd q of Ok smp \<Rightarrow> Ok (Some smp) | Err e \<Rightarrow> Err e | Panic \<Rightarrow> Panic))
     = Ok (sampler s)"
    using codec by (cases "sampler s") (auto simp: codec_ok_def)
  have build: "rebuild mdl cd model_id rc (eos s) m = Ok s"
    using codec smp rc(4,5) fault unfolding rebuild_def rc(3) Let_def session_state.simps
    by (simp add: codec_ok_def same)
  have bound: "boundary_ok (record_state rc) (record_logits rc \<noteq> None) = Ok ()"
    unfolding rc(7) by (rule boundary_wf [OF wf]) (simp_all add: rc(3))
  have data: "(case record_logits rc of None \<Rightarrow> Ok () | Some d \<Rightarrow> check_data cd (vocab_size (limits s)) d) = Ok ()"
    using rc(6) by (simp split: option.split)
  show ?thesis
    using id rc(1,2) room len suffix le valid m0(1) m(1) reason_valid_wf [OF wf] stopped_wf [OF wf] bound data build
    by (simp add: restore_session_def rc(3) checked_add_def)
qed

end
