(* ===== verification/PrefixCache.thy ===== *)
theory PrefixCache
  imports SessionRecord SortedMap
begin

text \<open>
  \<^verbatim>\<open>src/src/prefix_cache.rs\<close>: prefilled prompts kept in three tiers, on the device, as
  bytes in host memory and as files.

  The state is the cache and the world, in which the files and the device live. File
  operations, the wire format and the directory listing are behind \<open>store\<close>, the native
  records behind the \<open>codec\<close> of \<open>SessionRecord\<close>. The \<open>BTreeMap\<close> of entries is a list
  sorted by key (lexicographic, as \<open>Vec<i32>\<close> is ordered); ticks and statistics are
  unbounded, their decrements panic below zero. The loop that looks for a free file name
  is an option, \<open>None\<close> when every name is taken.
\<close>

section \<open>Data\<close>

datatype ('c, 'l, 'p) tier = Device "('c, 'l) prefilled" | Host bytes | Disk 'p nat

record ('c, 'l, 'p) entry =
  tier :: "('c, 'l, 'p) tier"
  used :: nat

record cache_config =
  block_tokens :: nat
  max_device_entries :: nat
  max_host_bytes :: nat
  has_disk_directory :: bool
  max_disk_bytes :: nat

record cache_stats =
  lookups :: nat
  hits :: nat
  reused_tokens :: nat
  device_entries :: nat
  host_bytes :: nat
  disk_bytes :: nat

record ('c, 'l, 'p) tiered =
  cache_model_id :: string
  cache_limits :: causal_limits
  config :: cache_config
  entries :: "(int list \<times> ('c, 'l, 'p) entry) list"
  tick :: nat
  cstats :: cache_stats

text \<open>The serialised tuple: version, identity, limits, tokens, cache record, logits.\<close>

type_synonym ('r, 'd) wire = "nat \<times> string \<times> causal_limits \<times> int list \<times> 'r \<times> 'd"

datatype create_outcome = Created | AlreadyExists | CreateFailed string

text \<open>One item of the directory listing, as far as \<open>reopen_disk\<close> looks at it.\<close>

record 'p dir_entry =
  dir_path :: 'p
  dir_payload :: bool
  dir_size :: nat
  dir_header :: "(string, (nat \<times> string \<times> causal_limits \<times> int list) option) res"

record ('r, 'd, 'p, 'w) store =
  encode :: "('r, 'd) wire \<Rightarrow> (string, bytes) res"
  decode_bytes :: "bytes \<Rightarrow> (string, ('r, 'd) wire) res"
  remove_file :: "'p \<Rightarrow> ('w, string, unit) op"
  read_file :: "'p \<Rightarrow> ('w, string, bytes) op"
  create_new :: "'p \<Rightarrow> 'w \<Rightarrow> create_outcome \<times> 'w"
  write_sync :: "'p \<Rightarrow> bytes \<Rightarrow> ('w, string, unit) op"
  path_at :: "nat \<Rightarrow> 'p"
  create_dir :: "('w, string, unit) op"
  read_dir :: "('w, string, (string, 'p dir_entry) res list) op"
  device_sync :: "('w, string, unit) op"

type_synonym ('c, 'l, 'p, 'w, 'a) cache_op =
  "(('c, 'l, 'p) tiered \<times> 'w, generation_error, 'a) op"

text \<open>An operation of the world, its error converted by \<open>error\<close>.\<close>

definition on_world :: "('w, string, 'a) op \<Rightarrow> ('s \<times> 'w, generation_error, 'a) op" where
  "on_world m sw =
     (case sw of (s, w) \<Rightarrow>
      case m w of
        (Ok a, w) \<Rightarrow> (Ok a, (s, w))
      | (Err e, w) \<Rightarrow> (Err (ModelFailure e), (s, w))
      | (Panic, w) \<Rightarrow> (Panic, (s, w)))"

section \<open>Choosing entries\<close>

text \<open>\<open>min_by_key\<close> takes the first of the least, \<open>max_by_key\<close> the last of the greatest.\<close>

fun min_used :: "(int list \<times> ('c, 'l, 'p) entry) list \<Rightarrow> int list option" where
  "min_used [] = None"
| "min_used [(k, e)] = Some k"
| "min_used ((k, e) # (k', e') # rest) =
     (if used e' < used e then min_used ((k', e') # rest) else min_used ((k, e) # rest))"

fun longest_key :: "int list list \<Rightarrow> int list option" where
  "longest_key [] = None"
| "longest_key (k # ks) =
     (case longest_key ks of
        None \<Rightarrow> Some k
      | Some k' \<Rightarrow> if length k' < length k then Some k else Some k')"

definition is_device :: "('c, 'l, 'p) entry \<Rightarrow> bool" where
  "is_device e = (case tier e of Device _ \<Rightarrow> True | _ \<Rightarrow> False)"

definition is_host :: "('c, 'l, 'p) entry \<Rightarrow> bool" where
  "is_host e = (case tier e of Host _ \<Rightarrow> True | _ \<Rightarrow> False)"

definition is_disk :: "('c, 'l, 'p) entry \<Rightarrow> bool" where
  "is_disk e = (case tier e of Disk _ _ \<Rightarrow> True | _ \<Rightarrow> False)"

definition no_tiers :: "cache_config \<Rightarrow> bool" where
  "no_tiers cf \<longleftrightarrow> max_device_entries cf = 0 \<and> max_host_bytes cf = 0 \<and> max_disk_bytes cf = 0"

section \<open>Capture and restore\<close>

definition capture ::
  "('c, 'l, 's, 'r, 'd, 'q) codec \<Rightarrow> ('r, 'd, 'p, 'w) store \<Rightarrow> ('c, 'l) prefilled \<Rightarrow> ('w, string, bytes) op" where
  "capture cd st p =
     bind_op (device_sync st) (\<lambda>_ w.
       case capture_generation cd (pre_cache p) (pre_model_id p) of
         Err e \<Rightarrow> (Err e, w)
       | Panic \<Rightarrow> (Panic, w)
       | Ok r \<Rightarrow>
       (case into_data cd (pre_logits p) of
          Err e \<Rightarrow> (Err e, w)
        | Panic \<Rightarrow> (Panic, w)
        | Ok d \<Rightarrow> (encode st (1, pre_model_id p, pre_limits p, pre_tokens p, r, d), w)))"

definition restore_prefix ::
  "('c, 'l) causal_model \<Rightarrow> ('c, 'l, 's, 'r, 'd, 'q) codec \<Rightarrow> ('r, 'd, 'p, 'w) store \<Rightarrow> string \<Rightarrow> causal_limits
   \<Rightarrow> bytes \<Rightarrow> (generation_error, ('c, 'l) prefilled) res" where
  "restore_prefix mdl cd st model_id lim bs =
     (case decode_bytes st bs of
        Err e \<Rightarrow> Err (ModelFailure e)
      | Panic \<Rightarrow> Panic
      | Ok (ver, ident, saved, tokens, r, d) \<Rightarrow>
          if ver \<noteq> 1 \<or> ident \<noteq> model_id \<or> saved \<noteq> lim \<or> tokens = []
             \<or> length tokens > max_sequence_length lim
             \<or> list_ex (outside (vocab_size lim)) tokens
             \<or> data_shape cd d \<noteq> [1, 1, vocab_size lim] \<or> \<not> data_float cd d
             \<or> checked_mul (vocab_size lim) (data_dtype_size cd d) \<noteq> Some (data_bytes cd d)
          then Err (ModelFailure ''offloaded prefix identity, tokens or logits geometry differs'')
          else case restore_generation cd r model_id (fresh_cache mdl) (length tokens) of
            Err e \<Rightarrow> Err (ModelFailure e)
          | Panic \<Rightarrow> Panic
          | Ok c \<Rightarrow>
              let p = \<lparr>pre_model_id = ident, pre_limits = lim, pre_tokens = tokens, pre_cache = c,
                       pre_logits = from_data cd d\<rparr> in
              if prefilled_ok mdl model_id lim tokens p then Ok p
              else Err (ModelFailure ''prefix identity, tokens, limits or native logits differ''))"

text \<open>The handoff of a prefilled prompt to another process, as bytes.\<close>

definition export_prompt ::
  "('c, 'l) causal_model \<Rightarrow> ('c, 'l, 's, 'r, 'd, 'q) codec \<Rightarrow> ('r, 'd, 'p, 'w) store \<Rightarrow> ('c, 'l) prefilled
   \<Rightarrow> ('w, generation_error, bytes) op" where
  "export_prompt mdl cd st p w =
     (if \<not> prefilled_ok mdl (pre_model_id p) (pre_limits p) (pre_tokens p) p
      then (Err (ModelFailure ''prefix identity, tokens, limits or native logits differ''), w)
      else if generation_position cd (pre_cache p) \<noteq> length (pre_tokens p)
      then (Err (ModelFailure ''prefix cache position differs from exported prompt''), w)
      else map_err_op ModelFailure (capture cd st p) w)"

definition import_prompt ::
  "('c, 'l) causal_model \<Rightarrow> ('c, 'l, 's, 'r, 'd, 'q) codec \<Rightarrow> ('r, 'd, 'p, 'w) store \<Rightarrow> string \<Rightarrow> causal_limits
   \<Rightarrow> int list \<Rightarrow> bytes \<Rightarrow> (generation_error, ('c, 'l) prefilled) res" where
  "import_prompt mdl cd st model_id lim expected bs =
     (case restore_prefix mdl cd st model_id lim bs of
        Err e \<Rightarrow> Err e
      | Panic \<Rightarrow> Panic
      | Ok p \<Rightarrow>
          if pre_tokens p \<noteq> expected
          then Err (ModelFailure ''prefill handoff does not match the requested prompt'') else Ok p)"

section \<open>The disk tier\<close>

definition evict_disk :: "('r, 'd, 'p, 'w) store \<Rightarrow> ('c, 'l, 'p, 'w, unit) cache_op" where
  "evict_disk st sw =
     (case sw of (s, w) \<Rightarrow>
      case min_used (filter (\<lambda>(_, e). is_disk e) (entries s)) of
        None \<Rightarrow> (Err (ModelFailure ''disk budget has no evictable payload''), (s, w))
      | Some old \<Rightarrow>
      (case map_of (entries s) old of
         None \<Rightarrow> (Panic, (s, w))
       | Some e \<Rightarrow>
       (case tier e of
          Disk path len \<Rightarrow>
            bind_op (on_world (remove_file st path)) (\<lambda>_ (s, w).
              if len > disk_bytes (cstats s) then (Panic, (s, w))
              else (Ok (), (s\<lparr>cstats := (cstats s)\<lparr>disk_bytes := disk_bytes (cstats s) - len\<rparr>,
                              entries := without old (entries s)\<rparr>, w))) (s, w)
        | _ \<Rightarrow> (Panic, (s, w)))))"

text \<open>\<open>while disk_bytes.saturating_add(extra) > budget { evict_disk()? }\<close>: every turn
  removes an entry and fails when there is none, so one more than their number is enough fuel.\<close>

fun shrink_disk :: "nat \<Rightarrow> ('r, 'd, 'p, 'w) store \<Rightarrow> nat \<Rightarrow> ('c, 'l, 'p, 'w, unit) cache_op" where
  "shrink_disk fuel st extra (s, w) =
     (if min (disk_bytes (cstats s) + extra) usize_max \<le> max_disk_bytes (config s) then (Ok (), (s, w))
      else case fuel of
        0 \<Rightarrow> (Panic, (s, w))
      | Suc n \<Rightarrow> bind_op (evict_disk st) (\<lambda>_. shrink_disk n st extra) (s, w))"

partial_function (option) create_file ::
  "('r, 'd, 'p, 'w) store \<Rightarrow> nat \<Rightarrow> 'w \<Rightarrow> ((string, 'p) res \<times> 'w) option" where
  "create_file st serial w =
     (case create_new st (path_at st serial) w of (outcome, w) \<Rightarrow>
        if outcome = AlreadyExists then create_file st (serial + 1) w
        else Some (case outcome of CreateFailed e \<Rightarrow> Err e | _ \<Rightarrow> Ok (path_at st serial), w))"

text \<open>A search for a name that never ends is a panic of the model.\<close>

definition new_file :: "('r, 'd, 'p, 'w) store \<Rightarrow> nat \<Rightarrow> ('w, string, 'p) op" where
  "new_file st serial w = (case create_file st serial w of None \<Rightarrow> (Panic, w) | Some r \<Rightarrow> r)"

definition put_disk ::
  "('r, 'd, 'p, 'w) store \<Rightarrow> int list \<Rightarrow> bytes \<Rightarrow> nat \<Rightarrow> ('c, 'l, 'p, 'w, unit) cache_op" where
  "put_disk st key bs at_tick sw =
     (case sw of (s, w) \<Rightarrow>
      if length bs > max_disk_bytes (config s) \<or> max_disk_bytes (config s) = 0 then (Ok (), (s, w))
      else
        bind_op (shrink_disk (Suc (length (entries s))) st (length bs)) (\<lambda>_ (s, w).
          if \<not> has_disk_directory (config s) then (Panic, (s, w))
          else bind_op (on_world (new_file st (tick s))) (\<lambda>path (s, w).
            (case write_sync st path bs w of
               (Err e, w) \<Rightarrow> (Err (ModelFailure e), (s, snd (remove_file st path w)))
             | (Panic, w) \<Rightarrow> (Panic, (s, w))
             | (Ok _, w) \<Rightarrow>
                 (Ok (), (s\<lparr>cstats := (cstats s)\<lparr>disk_bytes := disk_bytes (cstats s) + length bs\<rparr>,
                            entries := put key \<lparr>tier = Disk path (length bs), used = at_tick\<rparr> (entries s)\<rparr>, w))))
          (s, w)) (s, w))"

section \<open>Insertion\<close>

definition add_device :: "('c, 'l, 'p) tiered \<Rightarrow> ('c, 'l, 'p) tiered" where
  "add_device s = s\<lparr>cstats := (cstats s)\<lparr>device_entries := device_entries (cstats s) + 1\<rparr>\<rparr>"

definition sub_device :: "('c, 'l, 'p) tiered \<Rightarrow> ('c, 'l, 'p) tiered" where
  "sub_device s = s\<lparr>cstats := (cstats s)\<lparr>device_entries := device_entries (cstats s) - 1\<rparr>\<rparr>"

text \<open>
  One turn of the first loop of \<open>insert\<close>: the least recently used device entry goes to the
  host, to the disk or away. A failed capture puts it back.
\<close>

definition demote_device ::
  "('c, 'l, 's, 'r, 'd, 'q) codec \<Rightarrow> ('r, 'd, 'p, 'w) store \<Rightarrow> ('c, 'l, 'p, 'w, unit) cache_op" where
  "demote_device cd st sw =
     (case sw of (s, w) \<Rightarrow>
      case min_used (filter (\<lambda>(_, e). is_device e) (entries s)) of
        None \<Rightarrow> (Panic, (s, w))
      | Some key \<Rightarrow>
      (case map_of (entries s) key of
         None \<Rightarrow> (Panic, (s, w))
       | Some e \<Rightarrow>
         let s1 = s\<lparr>entries := without key (entries s)\<rparr> in
         if device_entries (cstats s) = 0 then (Panic, (s1, w))
         else let s2 = sub_device s1 in
         (case tier e of
            Device p \<Rightarrow>
              if max_host_bytes (config s) = 0 \<and> max_disk_bytes (config s) = 0 then (Ok (), (s2, w))
              else (case capture cd st p w of
                (Err msg, w) \<Rightarrow>
                  (Err (ModelFailure msg),
                   (add_device (s2\<lparr>entries := put key \<lparr>tier = Device p, used = used e\<rparr> (entries s2)\<rparr>), w))
              | (Panic, w) \<Rightarrow> (Panic, (s2, w))
              | (Ok bs, w) \<Rightarrow>
                  if length bs \<le> max_host_bytes (config s)
                  then (Ok (), (s2\<lparr>cstats := (cstats s2)\<lparr>host_bytes := host_bytes (cstats s2) + length bs\<rparr>,
                                   entries := put key \<lparr>tier = Host bs, used = used e\<rparr> (entries s2)\<rparr>, w))
                  else put_disk st key bs (used e) (s2, w))
          | _ \<Rightarrow> (Panic, (s2, w)))))"

text \<open>One turn of the second loop: the least recently used host entry goes to the disk.\<close>

definition demote_host :: "('r, 'd, 'p, 'w) store \<Rightarrow> ('c, 'l, 'p, 'w, unit) cache_op" where
  "demote_host st sw =
     (case sw of (s, w) \<Rightarrow>
      case min_used (filter (\<lambda>(_, e). is_host e) (entries s)) of
        None \<Rightarrow> (Panic, (s, w))
      | Some key \<Rightarrow>
      (case map_of (entries s) key of
         None \<Rightarrow> (Panic, (s, w))
       | Some e \<Rightarrow>
         let s1 = s\<lparr>entries := without key (entries s)\<rparr> in
         (case tier e of
            Host bs \<Rightarrow>
              if length bs > host_bytes (cstats s1) then (Panic, (s1, w))
              else put_disk st key bs (used e)
                (s1\<lparr>cstats := (cstats s1)\<lparr>host_bytes := host_bytes (cstats s1) - length bs\<rparr>\<rparr>, w)
          | _ \<Rightarrow> (Panic, (s1, w)))))"

text \<open>The two loops; the device loop lowers its counter, the host loop removes host entries.\<close>

fun device_loop ::
  "nat \<Rightarrow> ('c, 'l, 's, 'r, 'd, 'q) codec \<Rightarrow> ('r, 'd, 'p, 'w) store \<Rightarrow> ('c, 'l, 'p, 'w, unit) cache_op" where
  "device_loop fuel cd st (s, w) =
     (if device_entries (cstats s) \<le> max_device_entries (config s) then (Ok (), (s, w))
      else case fuel of
        0 \<Rightarrow> (Panic, (s, w))
      | Suc n \<Rightarrow> bind_op (demote_device cd st) (\<lambda>_. device_loop n cd st) (s, w))"

fun host_loop :: "nat \<Rightarrow> ('r, 'd, 'p, 'w) store \<Rightarrow> ('c, 'l, 'p, 'w, unit) cache_op" where
  "host_loop fuel st (s, w) =
     (if host_bytes (cstats s) \<le> max_host_bytes (config s) then (Ok (), (s, w))
      else case fuel of
        0 \<Rightarrow> (Panic, (s, w))
      | Suc n \<Rightarrow> bind_op (demote_host st) (\<lambda>_. host_loop n st) (s, w))"

definition insert_prefix ::
  "('c, 'l) causal_model \<Rightarrow> ('c, 'l, 's, 'r, 'd, 'q) codec \<Rightarrow> ('r, 'd, 'p, 'w) store \<Rightarrow> ('c, 'l) prefilled
   \<Rightarrow> ('c, 'l, 'p, 'w, unit) cache_op" where
  "insert_prefix mdl cd st p sw =
     (case sw of (s, w) \<Rightarrow>
      if \<not> prefilled_ok mdl (cache_model_id s) (cache_limits s) (pre_tokens p) p
      then (Err (ModelFailure ''prefix identity, tokens, limits or native logits differ''), (s, w))
      else if generation_position cd (pre_cache p) \<noteq> length (pre_tokens p)
      then (Err (ModelFailure ''incomplete prefix cache''), (s, w))
      else if no_tiers (config s) then (Ok (), (s, w))
      else
        let s = s\<lparr>tick := tick s + 1\<rparr> in
        case map_of (entries s) (pre_tokens p) of
          Some e \<Rightarrow> (Ok (), (s\<lparr>entries := put (pre_tokens p) (e\<lparr>used := tick s\<rparr>) (entries s)\<rparr>, w))
        | None \<Rightarrow>
            let s = add_device (s\<lparr>entries := put (pre_tokens p) \<lparr>tier = Device p, used = tick s\<rparr> (entries s)\<rparr>) in
            bind_op (device_loop (Suc (device_entries (cstats s))) cd st)
              (\<lambda>_ (s, w). host_loop (Suc (length (entries s))) st (s, w)) (s, w))"

section \<open>Lookup\<close>

definition touch_lookup :: "('c, 'l, 'p) tiered \<Rightarrow> ('c, 'l, 'p) tiered" where
  "touch_lookup s = s\<lparr>cstats := (cstats s)\<lparr>lookups := lookups (cstats s) + 1\<rparr>, tick := tick s + 1\<rparr>"

text \<open>The value of one entry, with the checks behind \<open>and_then\<close>.\<close>

definition load_entry ::
  "('c, 'l) causal_model \<Rightarrow> ('c, 'l, 's, 'r, 'd, 'q) codec \<Rightarrow> ('r, 'd, 'p, 'w) store \<Rightarrow> string \<Rightarrow> causal_limits
   \<Rightarrow> int list \<Rightarrow> int list \<Rightarrow> ('c, 'l, 'p) tier \<Rightarrow> ('w, generation_error, ('c, 'l) prefilled) op" where
  "load_entry mdl cd st model_id lim prompt key t w =
     (case (case t of
              Device p \<Rightarrow> (Ok p, w)
            | Host bs \<Rightarrow> (restore_prefix mdl cd st model_id lim bs, w)
            | Disk path _ \<Rightarrow>
                (case read_file st path w of
                   (Err e, w) \<Rightarrow> (Err (ModelFailure e), w)
                 | (Panic, w) \<Rightarrow> (Panic, w)
                 | (Ok bs, w) \<Rightarrow> (restore_prefix mdl cd st model_id lim bs, w))) of
        (Ok p, w) \<Rightarrow>
          if \<not> prefilled_ok mdl model_id lim prompt p
          then (Err (ModelFailure ''prefix identity, tokens, limits or native logits differ''), w)
          else if generation_position cd (pre_cache p) \<noteq> length key
          then (Err (ModelFailure ''prefix cache position differs from token key''), w)
          else (Ok p, w)
      | r \<Rightarrow> r)"

text \<open>What a failed entry leaves: the disk counter is not lowered.\<close>

definition drop_failed :: "int list \<Rightarrow> ('c, 'l, 'p) entry \<Rightarrow> ('c, 'l, 'p, 'w, unit) cache_op" where
  "drop_failed key e sw =
     (case sw of (s, w) \<Rightarrow>
      let s = s\<lparr>entries := without key (entries s)\<rparr> in
      case tier e of
        Device _ \<Rightarrow>
          if device_entries (cstats s) = 0 then (Panic, (s, w)) else (Ok (), (sub_device s, w))
      | Host bs \<Rightarrow>
          if length bs > host_bytes (cstats s) then (Panic, (s, w))
          else (Ok (), (s\<lparr>cstats := (cstats s)\<lparr>host_bytes := host_bytes (cstats s) - length bs\<rparr>\<rparr>, w))
      | Disk _ _ \<Rightarrow> (Ok (), (s, w)))"

definition prefix_keys :: "int list \<Rightarrow> (int list \<times> 'v) list \<Rightarrow> int list list" where
  "prefix_keys prompt es = filter (\<lambda>k. take (length k) prompt = k) (map fst es)"

text \<open>The \<open>loop\<close>: every failed turn removes an entry.\<close>

fun lookup_loop ::
  "nat \<Rightarrow> ('c, 'l) causal_model \<Rightarrow> ('c, 'l, 's, 'r, 'd, 'q) codec \<Rightarrow> ('r, 'd, 'p, 'w) store \<Rightarrow> int list
   \<Rightarrow> ('c, 'l, 'p, 'w, ('c, 'l) prefilled option) cache_op" where
  "lookup_loop 0 mdl cd st prompt sw = (Panic, sw)"
| "lookup_loop (Suc n) mdl cd st prompt (s, w) =
     (case longest_key (prefix_keys prompt (entries s)) of
        None \<Rightarrow> (Ok None, (s, w))
      | Some key \<Rightarrow>
      (case map_of (entries s) key of
         None \<Rightarrow> (Panic, (s, w))
       | Some e \<Rightarrow>
         let s = s\<lparr>entries := put key (e\<lparr>used := tick s\<rparr>) (entries s)\<rparr> in
         (case load_entry mdl cd st (cache_model_id s) (cache_limits s) prompt key (tier e) w of
            (Ok p, w) \<Rightarrow>
              (Ok (Some p),
               (s\<lparr>cstats := (cstats s)\<lparr>hits := hits (cstats s) + 1,
                                      reused_tokens := reused_tokens (cstats s) + length key\<rparr>\<rparr>, w))
          | (Panic, w) \<Rightarrow> (Panic, (s, w))
          | (Err _, w) \<Rightarrow>
              bind_op (drop_failed key e) (\<lambda>_. lookup_loop n mdl cd st prompt) (s, w))))"

definition lookup_prefix ::
  "('c, 'l) causal_model \<Rightarrow> ('c, 'l, 's, 'r, 'd, 'q) codec \<Rightarrow> ('r, 'd, 'p, 'w) store \<Rightarrow> int list
   \<Rightarrow> ('c, 'l, 'p, 'w, ('c, 'l) prefilled option) cache_op" where
  "lookup_prefix mdl cd st prompt sw =
     (case sw of (s, w) \<Rightarrow>
      lookup_loop (Suc (length (entries s))) mdl cd st prompt (touch_lookup s, w))"

section \<open>Prefill\<close>

definition block_end :: "cache_config \<Rightarrow> nat \<Rightarrow> int list \<Rightarrow> nat" where
  "block_end cf start prompt =
     (if no_tiers cf then length prompt
      else min (saturating_mul (start div block_tokens cf + 1) (block_tokens cf)) (length prompt))"

text \<open>One block: the forward, the checks, the insertion whose error is only logged.\<close>

definition prefill_block ::
  "('c, 'l) causal_model \<Rightarrow> ('c, 'l, 's, 'r, 'd, 'q) codec \<Rightarrow> ('r, 'd, 'p, 'w) store \<Rightarrow> int list \<Rightarrow> 'c \<Rightarrow> nat
   \<Rightarrow> ('c, 'l, 'p, 'w, ('c, 'l) prefilled) cache_op" where
  "prefill_block mdl cd st prompt c start sw =
     (case sw of (s, w) \<Rightarrow>
      let stop = block_end (config s) start prompt in
      case try_forward mdl (drop start (take stop prompt)) c of
        (Err e, _) \<Rightarrow> (Err e, (s, w))
      | (Panic, _) \<Rightarrow> (Panic, (s, w))
      | (Ok l, c) \<Rightarrow>
        bind_op (on_world (device_sync st)) (\<lambda>_ (s, w).
          let p = \<lparr>pre_model_id = cache_model_id s, pre_limits = cache_limits s,
                   pre_tokens = take stop prompt, pre_cache = c, pre_logits = l\<rparr> in
          if \<not> prefilled_ok mdl (cache_model_id s) (cache_limits s) prompt p
          then (Err (ModelFailure ''prefix identity, tokens, limits or native logits differ''), (s, w))
          else if generation_position cd c \<noteq> stop
          then (Err (ModelFailure ''prefill did not complete all layer cache state''), (s, w))
          else (case insert_prefix mdl cd st p (s, w) of
                  (Panic, sw) \<Rightarrow> (Panic, sw)
                | (_, sw) \<Rightarrow> (Ok p, sw))) (s, w))"

text \<open>The \<open>while start < prompt.len()\<close> loop; every block advances \<open>start\<close>.\<close>

fun prefill_loop ::
  "nat \<Rightarrow> ('c, 'l) causal_model \<Rightarrow> ('c, 'l, 's, 'r, 'd, 'q) codec \<Rightarrow> ('r, 'd, 'p, 'w) store \<Rightarrow> int list
   \<Rightarrow> 'c \<Rightarrow> nat \<Rightarrow> ('c, 'l) prefilled option \<Rightarrow> ('c, 'l, 'p, 'w, ('c, 'l) prefilled) cache_op" where
  "prefill_loop fuel mdl cd st prompt c start result sw =
     (if \<not> start < length prompt
      then (case result of
              Some p \<Rightarrow> (Ok p, sw)
            | None \<Rightarrow> (Err (ModelFailure ''prefix prefill produced no completed state''), sw))
      else case fuel of
        0 \<Rightarrow> (Panic, sw)
      | Suc n \<Rightarrow>
          bind_op (prefill_block mdl cd st prompt c start)
            (\<lambda>p. prefill_loop n mdl cd st prompt (pre_cache p) (length (pre_tokens p)) (Some p)) sw)"

definition prefill ::
  "('c, 'l) causal_model \<Rightarrow> ('c, 'l, 's, 'r, 'd, 'q) codec \<Rightarrow> ('r, 'd, 'p, 'w) store \<Rightarrow> int list
   \<Rightarrow> ('c, 'l, 'p, 'w, ('c, 'l) prefilled) cache_op" where
  "prefill mdl cd st prompt sw =
     (case sw of (s, w) \<Rightarrow>
      if prompt = [] \<or> length prompt > max_sequence_length (cache_limits s)
         \<or> list_ex (outside (vocab_size (cache_limits s))) prompt
      then (Err (ModelFailure ''invalid prompt tokens for prefix prefill''), (s, w))
      else
        bind_op (lookup_prefix mdl cd st prompt) (\<lambda>existing.
          case existing of
            Some p \<Rightarrow>
              prefill_loop (length prompt) mdl cd st prompt (pre_cache p) (length (pre_tokens p)) (Some p)
          | None \<Rightarrow> prefill_loop (length prompt) mdl cd st prompt (fresh_cache mdl) 0 None) (s, w))"

section \<open>Opening\<close>

text \<open>One item of the listing: skipped, deleted as a duplicate, or an entry of the disk tier.\<close>

definition reopen_item ::
  "('r, 'd, 'p, 'w) store \<Rightarrow> (string, 'p dir_entry) res \<Rightarrow> ('c, 'l, 'p, 'w, unit) cache_op" where
  "reopen_item st item sw =
     (case sw of (s, w) \<Rightarrow>
      case item of
        Err e \<Rightarrow> (Err (ModelFailure e), (s, w))
      | Panic \<Rightarrow> (Panic, (s, w))
      | Ok f \<Rightarrow>
      if \<not> dir_payload f then (Ok (), (s, w))
      else (case dir_header f of
        Err e \<Rightarrow> (Err (ModelFailure e), (s, w))
      | Panic \<Rightarrow> (Panic, (s, w))
      | Ok None \<Rightarrow> (Ok (), (s, w))
      | Ok (Some (ver, ident, lim, tokens)) \<Rightarrow>
          if ver \<noteq> 1 \<or> ident \<noteq> cache_model_id s \<or> lim \<noteq> cache_limits s \<or> tokens = []
             \<or> length tokens > max_sequence_length lim
             \<or> list_ex (outside (vocab_size lim)) tokens
          then (Ok (), (s, w))
          else
            let s = s\<lparr>tick := tick s + 1\<rparr> in
            if map_of (entries s) tokens \<noteq> None
            then on_world (remove_file st (dir_path f)) (s, w)
            else (case checked_add (disk_bytes (cstats s)) (dir_size f) of
              None \<Rightarrow> (Err (ModelFailure ''disk cache byte count overflow''), (s, w))
            | Some total_bytes \<Rightarrow>
                (Ok (), (s\<lparr>cstats := (cstats s)\<lparr>disk_bytes := total_bytes\<rparr>,
                           entries := put tokens \<lparr>tier = Disk (dir_path f) (dir_size f), used = tick s\<rparr> (entries s)\<rparr>,
                         w)))))"

definition reopen_disk :: "('r, 'd, 'p, 'w) store \<Rightarrow> ('c, 'l, 'p, 'w, unit) cache_op" where
  "reopen_disk st sw =
     (case sw of (s, w) \<Rightarrow>
      if \<not> has_disk_directory (config s) \<or> max_disk_bytes (config s) = 0 then (Ok (), (s, w))
      else
        bind_op (on_world (read_dir st)) (\<lambda>items.
          bind_op (for_op (reopen_item st) items)
            (\<lambda>_ (s, w). shrink_disk (Suc (length (entries s))) st 0 (s, w))) (s, w))"

definition empty_cache :: "string \<Rightarrow> causal_limits \<Rightarrow> cache_config \<Rightarrow> ('c, 'l, 'p) tiered" where
  "empty_cache model_id lim cf =
     \<lparr>cache_model_id = model_id, cache_limits = lim, config = cf, entries = [], tick = 0,
      cstats = \<lparr>lookups = 0, hits = 0, reused_tokens = 0, device_entries = 0, host_bytes = 0, disk_bytes = 0\<rparr>\<rparr>"

definition new_cache ::
  "('r, 'd, 'p, 'w) store \<Rightarrow> string \<Rightarrow> causal_limits \<Rightarrow> cache_config
   \<Rightarrow> ('w, generation_error, ('c, 'l, 'p) tiered) op" where
  "new_cache st model_id lim cf w =
     (if model_id = [] then (Err (ModelFailure ''prefix cache requires exact frozen model identity''), w)
      else if block_tokens cf = 0 then (Err (ModelFailure ''prefix block size must be positive''), w)
      else if max_disk_bytes cf > 0 \<and> \<not> has_disk_directory cf
      then (Err (ModelFailure ''disk tier needs an explicit directory''), w)
      else case (if has_disk_directory cf then create_dir st w else (Ok (), w)) of
        (Err e, w) \<Rightarrow> (Err (ModelFailure e), w)
      | (Panic, w) \<Rightarrow> (Panic, w)
      | (Ok _, w) \<Rightarrow>
          (case reopen_disk st (empty_cache model_id lim cf, w) of
             (Ok _, (s, w)) \<Rightarrow> (Ok s, w)
           | (Err e, (s, w)) \<Rightarrow> (Err e, w)
           | (Panic, (s, w)) \<Rightarrow> (Panic, w)))"

end
