(* ===== verification/PrefixCacheInv.thy ===== *)
theory PrefixCacheInv
  imports PrefixCache
begin

text \<open>
  The invariant of the tiered prefix cache and its preservation.

  \<^item> lemmas on the sorted entry list: lookups, sums of weights, the least recently used key;
  \<^item> \<open>kept\<close>: sorted keys, counters that agree with the entries, a disk counter within its
    budget, device prefixes that belong to their keys and satisfy \<open>good\<close>;
  \<^item> every operation keeps it, whatever it returns, and does not panic (\<open>store_total\<close> is
    what is asked of the files and the native records).
\<close>

section \<open>The entry list\<close>

definition weigh :: "('v \<Rightarrow> nat) \<Rightarrow> ('k \<times> 'v) list \<Rightarrow> nat" where
  "weigh f es = sum_list (map (\<lambda>e. f (snd e)) es)"

lemma weigh_put_new: "k \<notin> set (keys es) \<Longrightarrow> weigh f (put k v es) = f v + weigh f es"
  unfolding weigh_def by (induction k v es rule: put.induct) auto

lemma weigh_put_old:
  "ordered es \<Longrightarrow> map_of es k = Some e \<Longrightarrow> weigh f (put k v es) + f e = weigh f es + f v"
  unfolding weigh_def ordered_def
proof (induction k v es rule: put.induct)
  case (2 k v k' v' rest)
  then show ?case
    by (auto split: if_splits dest: map_of_SomeD) (metis fst_conv less_asym map_of_SomeD)
qed simp

lemma without_absent: "k \<notin> set (keys es) \<Longrightarrow> without k es = es"
  by (induction es) (auto simp: without_def)

lemma weigh_without:
  "distinct (keys es) \<Longrightarrow> map_of es k = Some e \<Longrightarrow> weigh f (without k es) + f e = weigh f es"
proof (induction es)
  case (Cons a es)
  show ?case
  proof (cases "fst a = k")
    case True
    then have "without k (a # es) = es" using Cons.prems(1) without_absent by (auto simp: without_def)
    then show ?thesis using Cons.prems(2) True by (cases a) (simp add: weigh_def)
  next
    case False
    then show ?thesis using Cons by (cases a) (auto simp: weigh_def without_def)
  qed
qed simp

lemma length_without: "map_of es k = Some e \<Longrightarrow> length (without k es) < length es"
  unfolding without_def by (rule length_filter_less [of "(k, e)"]) (auto dest: map_of_SomeD)

lemma weigh_member: "map_of es k = Some e \<Longrightarrow> f e \<le> weigh f es"
  unfolding weigh_def by (induction es) (auto split: if_splits)

lemma weigh_0: "weigh f es = 0 \<Longrightarrow> (k, e) \<in> set es \<Longrightarrow> f e = 0"
  unfolding weigh_def by (induction es) auto

lemma min_used_in: "min_used es = Some k \<Longrightarrow> k \<in> set (keys es)"
  by (induction es rule: min_used.induct) (auto split: if_splits)

lemma min_used_None: "min_used es = None \<longleftrightarrow> es = []"
  by (induction es rule: min_used.induct) auto

lemma min_used_filter:
  assumes "ordered es" and "min_used (filter (\<lambda>(_, e). P e) es) = Some k"
  obtains e where "map_of es k = Some e" "P e"
proof -
  obtain e where "(k, e) \<in> set es" "P e" using min_used_in [OF assms(2)] by auto
  then show ?thesis using that in_map_of [OF assms(1)] by blast
qed

lemma longest_key_in: "longest_key ks = Some k \<Longrightarrow> k \<in> set ks"
  by (induction ks arbitrary: k) (auto split: option.splits if_splits)

lemma longest_key_None: "longest_key ks = None \<longleftrightarrow> ks = []"
  by (cases ks) (auto split: option.splits)

lemma longest_key_max: "longest_key ks = Some k \<Longrightarrow> k' \<in> set ks \<Longrightarrow> length k' \<le> length k"
proof (induction ks arbitrary: k)
  case (Cons a ks)
  show ?case
  proof (cases "longest_key ks")
    case None
    then show ?thesis using Cons.prems by (auto simp: longest_key_None)
  next
    case (Some l)
    then show ?thesis using Cons.prems Cons.IH [OF Some] by (fastforce split: if_splits)
  qed
qed simp

section \<open>The invariant\<close>

definition dev_one :: "('c, 'l, 'p) entry \<Rightarrow> nat" where
  "dev_one e = (if is_device e then 1 else 0)"

definition host_one :: "('c, 'l, 'p) entry \<Rightarrow> nat" where
  "host_one e = (if is_host e then 1 else 0)"

definition host_weight :: "('c, 'l, 'p) entry \<Rightarrow> nat" where
  "host_weight e = (case tier e of Host bs \<Rightarrow> length bs | _ \<Rightarrow> 0)"

definition disk_weight :: "('c, 'l, 'p) entry \<Rightarrow> nat" where
  "disk_weight e = (case tier e of Disk _ n \<Rightarrow> n | _ \<Rightarrow> 0)"

lemmas weight_defs = dev_one_def host_one_def host_weight_def disk_weight_def
  is_device_def is_host_def is_disk_def

text \<open>A prefix that belongs to the cache: identity, geometry, position and \<open>good\<close>.\<close>

definition belongs ::
  "('c, 'l) causal_model \<Rightarrow> ('c \<Rightarrow> nat) \<Rightarrow> (('c, 'l) prefilled \<Rightarrow> bool) \<Rightarrow> string \<Rightarrow> causal_limits
   \<Rightarrow> int list \<Rightarrow> ('c, 'l) prefilled \<Rightarrow> bool" where
  "belongs mdl pos good mid lim k p \<longleftrightarrow>
     pre_tokens p = k \<and> prefilled_ok mdl mid lim k p \<and> pos (pre_cache p) = length k \<and> good p"

definition counted ::
  "nat \<Rightarrow> ('c, 'l) causal_model \<Rightarrow> ('c \<Rightarrow> nat) \<Rightarrow> (('c, 'l) prefilled \<Rightarrow> bool) \<Rightarrow> (bytes \<Rightarrow> bool) \<Rightarrow> string
   \<Rightarrow> causal_limits \<Rightarrow> cache_config \<Rightarrow> ('c, 'l, 'p) tiered \<Rightarrow> bool" where
  "counted cap mdl pos good whole mid lim cf s \<longleftrightarrow>
     cache_model_id s = mid \<and> cache_limits s = lim \<and> config s = cf
     \<and> ordered (entries s)
     \<and> device_entries (cstats s) = weigh dev_one (entries s)
     \<and> host_bytes (cstats s) = weigh host_weight (entries s)
     \<and> weigh disk_weight (entries s) \<le> disk_bytes (cstats s)
     \<and> disk_bytes (cstats s) \<le> cap
     \<and> (\<forall>k e p. map_of (entries s) k = Some e \<and> tier e = Device p \<longrightarrow> belongs mdl pos good mid lim k p)
     \<and> (\<forall>k e bs. map_of (entries s) k = Some e \<and> tier e = Host bs \<longrightarrow> whole bs)"

abbreviation kept where
  "kept mdl pos good whole mid lim cf \<equiv> counted (max_disk_bytes cf) mdl pos good whole mid lim cf"

text \<open>The configuration that \<open>new_cache\<close> accepts; budgets are \<open>usize\<close>.\<close>

definition config_ok :: "cache_config \<Rightarrow> bool" where
  "config_ok cf \<longleftrightarrow> block_tokens cf \<noteq> 0 \<and> (max_disk_bytes cf > 0 \<longrightarrow> has_disk_directory cf)
     \<and> max_disk_bytes cf < usize_max"

text \<open>Files and native records fail with an error, and a free file name is found.\<close>

definition store_total :: "('c, 'l, 's, 'r, 'd, 'q) codec \<Rightarrow> ('r, 'd, 'p, 'w) store \<Rightarrow> bool" where
  "store_total cd st \<longleftrightarrow>
     (\<forall>x. encode st x \<noteq> Panic) \<and> (\<forall>x. decode_bytes st x \<noteq> Panic)
     \<and> (\<forall>f w. fst (remove_file st f w) \<noteq> Panic) \<and> (\<forall>f w. fst (read_file st f w) \<noteq> Panic)
     \<and> (\<forall>f bs w. fst (write_sync st f bs w) \<noteq> Panic) \<and> (\<forall>w. fst (device_sync st w) \<noteq> Panic)
     \<and> (\<forall>n w. create_file st n w \<noteq> None \<and> (\<forall>r. create_file st n w = Some r \<longrightarrow> fst r \<noteq> Panic))
     \<and> (\<forall>w. fst (read_dir st w) \<noteq> Panic \<and> (\<forall>items w'. read_dir st w = (Ok items, w') \<longrightarrow>
          (\<forall>i\<in>set items. i \<noteq> Panic \<and> (\<forall>f. i = Ok f \<longrightarrow> dir_header f \<noteq> Panic))))
     \<and> (\<forall>c m. capture_generation cd c m \<noteq> Panic) \<and> (\<forall>r m c n. restore_generation cd r m c n \<noteq> Panic)
     \<and> (\<forall>l. into_data cd l \<noteq> Panic)"

text \<open>
  What is captured is whole, what is read is whole, and whole bytes that restore at all
  restore to a good prefix whose cache is at the end of its tokens.
\<close>

definition store_faithful ::
  "('c, 'l) causal_model \<Rightarrow> ('c, 'l, 's, 'r, 'd, 'q) codec \<Rightarrow> ('r, 'd, 'p, 'w) store
   \<Rightarrow> (('c, 'l) prefilled \<Rightarrow> bool) \<Rightarrow> (bytes \<Rightarrow> bool) \<Rightarrow> string \<Rightarrow> causal_limits \<Rightarrow> bool" where
  "store_faithful mdl cd st good whole mid lim \<longleftrightarrow>
     (\<forall>k p w bs w'. belongs mdl (generation_position cd) good mid lim k p \<and> capture cd st p w = (Ok bs, w')
        \<longrightarrow> whole bs)
     \<and> (\<forall>f w bs w'. read_file st f w = (Ok bs, w') \<longrightarrow> whole bs)
     \<and> (\<forall>bs p. whole bs \<and> restore_prefix mdl cd st mid lim bs = Ok p
        \<longrightarrow> good p \<and> generation_position cd (pre_cache p) = length (pre_tokens p))"

section \<open>The disk tier\<close>

text \<open>What the disk operations leave alone.\<close>

definition level :: "('c, 'l, 'p) tiered \<Rightarrow> ('c, 'l, 'p) tiered \<Rightarrow> bool" where
  "level s s' \<longleftrightarrow>
     device_entries (cstats s') = device_entries (cstats s) \<and> host_bytes (cstats s') = host_bytes (cstats s)
     \<and> weigh host_one (entries s') = weigh host_one (entries s)"

definition steady :: "('c, 'l, 'p) tiered \<Rightarrow> ('c, 'l, 'p) tiered \<Rightarrow> bool" where
  "steady s s' \<longleftrightarrow> level s s' \<and> set (keys (entries s')) \<subseteq> set (keys (entries s))"

lemma steady_refl [simp]: "steady s s"
  by (simp add: steady_def level_def)

lemma level_trans: "level s t \<Longrightarrow> level t u \<Longrightarrow> level s u"
  by (simp add: level_def)

lemma steady_trans: "steady s t \<Longrightarrow> steady t u \<Longrightarrow> steady s u"
  unfolding steady_def by (blast intro: level_trans)

lemma on_world_cases:
  assumes "\<And>w. fst (m w) \<noteq> Panic"
  obtains (ok) a w' where "on_world m (s, w) = (Ok a, (s, w'))" "m w = (Ok a, w')"
  | (err) e w' where "on_world m (s, w) = (Err (ModelFailure e), (s, w'))" "m w = (Err e, w')"
proof (cases "m w")
  case (Pair r w')
  then show thesis using that assms [of w] by (cases r) (auto simp: on_world_def)
qed

lemma keptD:
  assumes "counted cap mdl pos good whole mid lim cf s"
  shows "ordered (entries s)" "config s = cf" "cache_model_id s = mid" "cache_limits s = lim"
    "device_entries (cstats s) = weigh dev_one (entries s)"
    "host_bytes (cstats s) = weigh host_weight (entries s)"
    "weigh disk_weight (entries s) \<le> disk_bytes (cstats s)" "disk_bytes (cstats s) \<le> cap"
    "map_of (entries s) k = Some e \<Longrightarrow> tier e = Device p \<Longrightarrow> belongs mdl pos good mid lim k p"
    "map_of (entries s) k = Some e \<Longrightarrow> tier e = Host bs \<Longrightarrow> whole bs"
  using assms by (auto simp: counted_def)

lemma kept_remove_disk:
  assumes "counted cap mdl pos good whole mid lim cf s" and "map_of (entries s) k = Some e" and "tier e = Disk path n"
  defines "s' \<equiv> s\<lparr>cstats := (cstats s)\<lparr>disk_bytes := disk_bytes (cstats s) - n\<rparr>, entries := without k (entries s)\<rparr>"
  shows "counted cap mdl pos good whole mid lim cf s' \<and> steady s s'"
proof -
  note k = keptD [OF assms(1)]
  have w: "weigh f (without k (entries s)) + f e = weigh f (entries s)" for f
    by (rule weigh_without [OF ordered_distinct [OF k(1)] assms(2)])
  show ?thesis
    using assms(1) w [of dev_one] w [of host_one] w [of host_weight] w [of disk_weight] assms(3)
    by (auto simp: counted_def s'_def steady_def level_def ordered_without map_of_without weight_defs
        dest: set_without)
qed

lemma evict_disk_wp:
  assumes "counted cap mdl pos good whole mid lim cf s" and "store_total cd st"
  shows "wp (evict_disk st)
    (\<lambda>_ (s', _). counted cap mdl pos good whole mid lim cf s' \<and> steady s s'
        \<and> length (entries s') < length (entries s))
    (\<lambda>_ (s', _). s' = s) (s, w)"
proof (cases "min_used (filter (\<lambda>(_, e). is_disk e) (entries s))")
  case None
  then show ?thesis by (simp add: wp_def evict_disk_def)
next
  case (Some old)
  note k = keptD [OF assms(1)]
  obtain e where e: "map_of (entries s) old = Some e" "is_disk e" by (rule min_used_filter [OF k(1) Some])
  then obtain path n where t: "tier e = Disk path n" by (auto simp: is_disk_def split: tier.splits)
  have "n \<le> disk_bytes (cstats s)"
    using weigh_member [OF e(1), of disk_weight] k(7) t by (simp add: disk_weight_def)
  then have le: "\<not> n > disk_bytes (cstats s)" by simp
  have total: "\<And>w. fst (remove_file st path w) \<noteq> Panic" using assms(2) by (simp add: store_total_def)
  show ?thesis
  proof (cases rule: on_world_cases [where m = "remove_file st path" and s = s and w = w, OF total, case_names ok err])
    case (ok a w')
    then show ?thesis
      using Some e t le kept_remove_disk [OF assms(1) e(1) t] keys_without [of old "entries s"]
        length_without [OF e(1)]
      by (auto simp: wp_def evict_disk_def bind_op_def)
  next
    case (err m w')
    then show ?thesis using Some e t by (auto simp: wp_def evict_disk_def bind_op_def)
  qed
qed

lemma shrink_disk_wp:
  fixes st :: "('r, 'd, 'p, 'w) store" and s :: "('c, 'l, 'p) tiered"
  assumes "store_total cd st" and "config_ok cf" and "counted cap mdl pos good whole mid lim cf s" and "length (entries s) < fuel"
  shows "wp (shrink_disk fuel st extra)
    (\<lambda>_ (s', _). counted cap mdl pos good whole mid lim cf s' \<and> steady s s'
        \<and> disk_bytes (cstats s') + extra \<le> max_disk_bytes cf)
    (\<lambda>_ (s', _). counted cap mdl pos good whole mid lim cf s' \<and> steady s s')
    (s, w)"
  using assms(3-)
proof (induction fuel arbitrary: s w)
  case 0
  then show ?case by simp
next
  case (Suc n)
  have cf: "config s = cf" using Suc.prems(1) by (rule keptD)
  show ?case
  proof (cases "min (disk_bytes (cstats s) + extra) usize_max \<le> max_disk_bytes (config s)")
    case True
    then show ?thesis
      using Suc.prems(1) assms(2) cf by (auto simp: wp_def config_ok_def)
  next
    case False
    have step: "shrink_disk (Suc n) st extra (s, w)
        = bind_op (evict_disk st) (\<lambda>_. shrink_disk n st extra) (s, w)"
      using False by simp
    have "wp (evict_disk st)
      (\<lambda>_. wp (shrink_disk n st extra)
        (\<lambda>_ (s', _). counted cap mdl pos good whole mid lim cf s' \<and> steady s s'
          \<and> disk_bytes (cstats s') + extra \<le> max_disk_bytes cf)
        (\<lambda>_ (s', _). counted cap mdl pos good whole mid lim cf s' \<and> steady s s'))
      (\<lambda>_ (s', _). counted cap mdl pos good whole mid lim cf s' \<and> steady s s')
      (s, w)"
    proof (rule wp_conseq [OF evict_disk_wp [OF Suc.prems(1) assms(1)]])
      fix a :: unit and t :: "('c, 'l, 'p) tiered \<times> 'w"
      assume t: "case t of (s', _) \<Rightarrow> counted cap mdl pos good whole mid lim cf s' \<and> steady s s' \<and> length (entries s') < length (entries s)"
      obtain s' w' where st: "t = (s', w')" by (cases t)
      with t have k': "counted cap mdl pos good whole mid lim cf s'" and c: "steady s s'" and "length (entries s') < n"
        using Suc.prems(2) by auto
      from Suc.IH [OF k' this(3), of w']
      show "wp (shrink_disk n st extra)
        (\<lambda>_ (s', _). counted cap mdl pos good whole mid lim cf s' \<and> steady s s'
          \<and> disk_bytes (cstats s') + extra \<le> max_disk_bytes cf)
        (\<lambda>_ (s', _). counted cap mdl pos good whole mid lim cf s' \<and> steady s s') t"
        unfolding st by (rule wp_conseq) (use c in \<open>auto intro: steady_trans\<close>)
    qed (use Suc.prems(1) in auto)
    from wp_bind [OF this] show ?thesis by (simp only: wp_def step)
  qed
qed

lemma new_file_total: "store_total cd st \<Longrightarrow> fst (new_file st n w) \<noteq> Panic"
  unfolding store_total_def new_file_def by (auto split: option.split)

lemma kept_put_other:
  assumes "counted cap mdl pos good whole mid lim cf s" and "k \<notin> set (keys (entries s))" and "\<not> is_device e"
    and "\<forall>bs. tier e = Host bs \<longrightarrow> whole bs"
    and "disk_bytes (cstats s) + disk_weight e \<le> cap"
  defines "s' \<equiv> s\<lparr>cstats := (cstats s)\<lparr>host_bytes := host_bytes (cstats s) + host_weight e,
      disk_bytes := disk_bytes (cstats s) + disk_weight e\<rparr>, entries := put k e (entries s)\<rparr>"
  shows "counted cap mdl pos good whole mid lim cf s'"
proof -
  note k = keptD [OF assms(1)]
  have w: "weigh f (put k e (entries s)) = f e + weigh f (entries s)" for f
    by (rule weigh_put_new [OF assms(2)])
  show ?thesis
    using assms(1,3-5) by (auto simp: counted_def s'_def w ordered_put map_of_put [OF k(1)] dev_one_def is_device_def)
qed

lemma put_disk_wp:
  fixes st :: "('r, 'd, 'p, 'w) store" and s :: "('c, 'l, 'p) tiered"
  assumes "store_total cd st" and "config_ok cf" and "kept mdl pos good whole mid lim cf s"
    and "key \<notin> set (keys (entries s))"
  shows "wp (put_disk st key bs n)
    (\<lambda>_ (s', _). kept mdl pos good whole mid lim cf s' \<and> level s s')
    (\<lambda>_ (s', _). kept mdl pos good whole mid lim cf s' \<and> level s s') (s, w)"
proof -
  have cf: "config s = cf" using assms(3) by (rule keptD)
  show ?thesis
  proof (cases "length bs > max_disk_bytes (config s) \<or> max_disk_bytes (config s) = 0")
    case True
    then show ?thesis using assms(3) by (auto simp: wp_def put_disk_def level_def)
  next
    case False
    let ?K = "\<lambda>_ (s', _). kept mdl pos good whole mid lim cf s' \<and> level s s'"
    let ?rest = "\<lambda>_ (s, w). if \<not> has_disk_directory (config s) then (Panic, (s, w))
          else bind_op (on_world (new_file st (tick s))) (\<lambda>path (s, w).
            (case write_sync st path bs w of
               (Err e, w) \<Rightarrow> (Err (ModelFailure e), (s, snd (remove_file st path w)))
             | (Panic, w) \<Rightarrow> (Panic, (s, w))
             | (Ok _, w) \<Rightarrow>
                 (Ok (), (s\<lparr>cstats := (cstats s)\<lparr>disk_bytes := disk_bytes (cstats s) + length bs\<rparr>,
                            entries := put key \<lparr>tier = Disk path (length bs), used = n\<rparr> (entries s)\<rparr>, w))))
          (s, w)"
    have dir: "has_disk_directory cf" using False assms(2) cf by (simp add: config_ok_def)
    have tail: "wp (?rest u) ?K ?K (s1, w1)"
      if k1: "kept mdl pos good whole mid lim cf s1" and c1: "steady s s1"
        and room: "disk_bytes (cstats s1) + length bs \<le> max_disk_bytes cf" for u :: unit and s1 w1
    proof -
      have cf1: "config s1 = cf" using k1 by (rule keptD)
      have new: "key \<notin> set (keys (entries s1))" using c1 assms(4) unfolding steady_def by blast
      have lev: "level s s1" using c1 by (simp add: steady_def)
      have total: "\<And>w. fst (new_file st (tick s1) w) \<noteq> Panic" using new_file_total [OF assms(1)] by blast
      show ?thesis
      proof (cases rule: on_world_cases [where m = "new_file st (tick s1)" and s = s1 and w = w1, OF total,
            case_names ok err])
        case (ok path w2)
        let ?e = "\<lparr>tier = Disk path (length bs), used = n\<rparr>"
        have "fst (write_sync st path bs w2) \<noteq> Panic" using assms(1) by (simp add: store_total_def)
        moreover have "kept mdl pos good whole mid lim cf (s1\<lparr>cstats := (cstats s1)\<lparr>
            host_bytes := host_bytes (cstats s1) + host_weight ?e,
            disk_bytes := disk_bytes (cstats s1) + disk_weight ?e\<rparr>, entries := put key ?e (entries s1)\<rparr>)"
          using kept_put_other [OF k1 new, of ?e] room by (simp add: weight_defs)
        moreover have "weigh host_one (put key ?e (entries s1)) = weigh host_one (entries s1)"
          using weigh_put_new [OF new, of host_one ?e] by (simp add: weight_defs)
        ultimately show ?thesis
          using ok dir cf1 k1 lev
          by (auto simp: wp_def bind_op_def level_def weight_defs split: prod.splits res.splits)
      next
        case (err e w2)
        then show ?thesis using dir cf1 k1 lev by (simp add: wp_def bind_op_def)
      qed
    qed
    have "wp (shrink_disk (Suc (length (entries s))) st (length bs)) (\<lambda>u. wp (?rest u) ?K ?K) ?K (s, w)"
      by (rule wp_conseq [OF shrink_disk_wp [OF assms(1-3)]])
        (use tail in \<open>auto simp: steady_def\<close>)
    from wp_bind [OF this] have "wp (bind_op (shrink_disk (Suc (length (entries s))) st (length bs)) ?rest) ?K ?K (s, w)" .
    then show ?thesis using False by (simp add: wp_def put_disk_def)
  qed
qed

section \<open>Insertion\<close>

lemma weigh_filter: "weigh f es \<noteq> 0 \<Longrightarrow> (\<And>e. f e \<noteq> 0 \<Longrightarrow> P e) \<Longrightarrow> filter (\<lambda>(_, e). P e) es \<noteq> []"
  unfolding weigh_def by (induction es) auto

lemma kept_remove_device:
  assumes "kept mdl pos good whole mid lim cf s" and "map_of (entries s) k = Some e" and "is_device e"
  defines "s' \<equiv> sub_device (s\<lparr>entries := without k (entries s)\<rparr>)"
  shows "kept mdl pos good whole mid lim cf s' \<and> Suc (device_entries (cstats s')) = device_entries (cstats s)
    \<and> k \<notin> set (keys (entries s'))"
proof -
  note k = keptD [OF assms(1)]
  have w: "weigh f (without k (entries s)) + f e = weigh f (entries s)" for f
    by (rule weigh_without [OF ordered_distinct [OF k(1)] assms(2)])
  have "k \<notin> set (keys (without k (entries s)))" using keys_without [of k "entries s"] by blast
  moreover have "kept mdl pos good whole mid lim cf s' \<and> Suc (device_entries (cstats s')) = device_entries (cstats s)"
    using assms(1) w [of dev_one] w [of host_weight] w [of disk_weight] assms(3)
    by (auto simp: counted_def s'_def sub_device_def ordered_without map_of_without weight_defs
        split: tier.splits)
  ultimately show ?thesis by (simp add: s'_def sub_device_def)
qed

lemma kept_remove_host:
  assumes "kept mdl pos good whole mid lim cf s" and "map_of (entries s) k = Some e" and "tier e = Host bs"
  defines "s' \<equiv> s\<lparr>entries := without k (entries s),
      cstats := (cstats s)\<lparr>host_bytes := host_bytes (cstats s) - length bs\<rparr>\<rparr>"
  shows "kept mdl pos good whole mid lim cf s' \<and> Suc (weigh host_one (entries s')) = weigh host_one (entries s)
    \<and> device_entries (cstats s') = device_entries (cstats s)
    \<and> k \<notin> set (keys (entries s')) \<and> length bs \<le> host_bytes (cstats s)"
proof -
  note k = keptD [OF assms(1)]
  have w: "weigh f (without k (entries s)) + f e = weigh f (entries s)" for f
    by (rule weigh_without [OF ordered_distinct [OF k(1)] assms(2)])
  have "k \<notin> set (keys (without k (entries s)))" using keys_without [of k "entries s"] by blast
  moreover have "kept mdl pos good whole mid lim cf s' \<and> Suc (weigh host_one (entries s')) = weigh host_one (entries s)
      \<and> device_entries (cstats s') = device_entries (cstats s) \<and> length bs \<le> host_bytes (cstats s)"
    using assms(1) w [of dev_one] w [of host_one] w [of host_weight] w [of disk_weight] assms(3)
    by (auto simp: counted_def s'_def ordered_without map_of_without weight_defs)
  ultimately show ?thesis by (simp add: s'_def)
qed

lemma kept_add_device:
  assumes "kept mdl pos good whole mid lim cf s" and "k \<notin> set (keys (entries s))"
    and "belongs mdl pos good mid lim k p"
  shows "kept mdl pos good whole mid lim cf (add_device (s\<lparr>entries := put k \<lparr>tier = Device p, used = u\<rparr> (entries s)\<rparr>))"
proof -
  note k = keptD [OF assms(1)]
  have w: "weigh f (put k v (entries s)) = f v + weigh f (entries s)" for f v
    by (rule weigh_put_new [OF assms(2)])
  show ?thesis
    using assms(1,3) by (auto simp: counted_def add_device_def w ordered_put map_of_put [OF k(1)] weight_defs)
qed

lemma capture_total: "store_total cd st \<Longrightarrow> fst (capture cd st p w) \<noteq> Panic"
  unfolding store_total_def capture_def bind_op_def by (auto split: prod.splits res.splits) (metis fst_conv)+

lemma demote_device_wp:
  fixes st :: "('r, 'd, 'p, 'w) store" and s :: "('c, 'l, 'p) tiered"
  assumes "store_total cd st" and "config_ok cf" and "kept mdl (generation_position cd) good whole mid lim cf s"
    and "device_entries (cstats s) \<noteq> 0" and "store_faithful mdl cd st good whole mid lim"
  shows "wp (demote_device cd st)
    (\<lambda>_ (s', _). kept mdl (generation_position cd) good whole mid lim cf s' \<and> Suc (device_entries (cstats s')) = device_entries (cstats s))
    (\<lambda>_ (s', _). kept mdl (generation_position cd) good whole mid lim cf s') (s, w)"
proof -
  note k = keptD [OF assms(3)]
  have "filter (\<lambda>(_, e). is_device e) (entries s) \<noteq> []"
    by (rule weigh_filter [of dev_one]) (use assms(4) k(5) in \<open>auto simp: dev_one_def split: if_splits\<close>)
  then obtain key where key: "min_used (filter (\<lambda>(_, e). is_device e) (entries s)) = Some key"
    using min_used_None by fastforce
  obtain e where e: "map_of (entries s) key = Some e" "is_device e" by (rule min_used_filter [OF k(1) key])
  then obtain p where p: "tier e = Device p" by (auto simp: is_device_def split: tier.splits)
  let ?s2 = "sub_device (s\<lparr>entries := without key (entries s)\<rparr>)"
  have s2: "kept mdl (generation_position cd) good whole mid lim cf ?s2" "Suc (device_entries (cstats ?s2)) = device_entries (cstats s)"
    "key \<notin> set (keys (entries ?s2))" using kept_remove_device [OF assms(3) e] by auto
  have own: "belongs mdl (generation_position cd) good mid lim key p" by (rule k(9) [OF e(1) p])
  obtain r w1 where cap: "capture cd st p w = (r, w1)" by force
  have np: "r \<noteq> Panic" using capture_total [OF assms(1), of p w] cap by auto
  have disk: "wp (put_disk st key bs (used e))
      (\<lambda>_ (s', _). kept mdl (generation_position cd) good whole mid lim cf s' \<and> Suc (device_entries (cstats s')) = device_entries (cstats s))
      (\<lambda>_ (s', _). kept mdl (generation_position cd) good whole mid lim cf s') (?s2, w1)" for bs
    by (rule wp_conseq [OF put_disk_wp [OF assms(1,2) s2(1,3)]]) (use s2(2) in \<open>auto simp: level_def\<close>)
  have whole: "whole bs" if "r = Ok bs" for bs
    using assms(5) own cap that unfolding store_faithful_def by blast
  have host: "kept mdl (generation_position cd) good whole mid lim cf (?s2\<lparr>cstats := (cstats ?s2)\<lparr>host_bytes := host_bytes (cstats ?s2) + length bs\<rparr>,
      entries := put key \<lparr>tier = Host bs, used = used e\<rparr> (entries ?s2)\<rparr>)" if "r = Ok bs" for bs
    using whole [OF that] kept_put_other [OF s2(1,3), of "\<lparr>tier = Host bs, used = used e\<rparr>"] keptD(8) [OF s2(1)]
    by (simp add: weight_defs)
  show ?thesis
  proof (cases "max_host_bytes (config s) = 0 \<and> max_disk_bytes (config s) = 0")
    case True
    then show ?thesis using key e p assms(4) s2 by (simp add: wp_def demote_device_def Let_def)
  next
    case False
    show ?thesis
    proof (cases r)
      case (Ok bs)
      show ?thesis
      proof (cases "length bs \<le> max_host_bytes (config s)")
        case True
        then show ?thesis
          using key e p assms(4) cap Ok False host [OF Ok] s2(2) by (auto simp: wp_def demote_device_def Let_def)
      next
        case low: False
        have "demote_device cd st (s, w) = put_disk st key bs (used e) (?s2, w1)"
          using key e p assms(4) cap Ok False low by (auto simp: demote_device_def Let_def)
        then show ?thesis using disk [of bs] by (simp only: wp_def)
      qed
    next
      case (Err m)
      then show ?thesis
        using key e p assms(4) cap False kept_add_device [OF s2(1,3) own, of "used e"]
        by (auto simp: wp_def demote_device_def Let_def)
    qed (use np in simp)
  qed
qed

lemma demote_host_wp:
  fixes st :: "('r, 'd, 'p, 'w) store" and s :: "('c, 'l, 'p) tiered"
  assumes "store_total cd st" and "config_ok cf" and "kept mdl pos good whole mid lim cf s"
    and "host_bytes (cstats s) \<noteq> 0"
  shows "wp (demote_host st)
    (\<lambda>_ (s', _). kept mdl pos good whole mid lim cf s' \<and> Suc (weigh host_one (entries s')) = weigh host_one (entries s)
        \<and> device_entries (cstats s') = device_entries (cstats s))
    (\<lambda>_ (s', _). kept mdl pos good whole mid lim cf s') (s, w)"
proof -
  note k = keptD [OF assms(3)]
  have "filter (\<lambda>(_, e). is_host e) (entries s) \<noteq> []"
    by (rule weigh_filter [of host_weight])
      (use assms(4) k(6) in \<open>auto simp: host_weight_def is_host_def split: tier.splits\<close>)
  then obtain key where key: "min_used (filter (\<lambda>(_, e). is_host e) (entries s)) = Some key"
    using min_used_None by fastforce
  obtain e where e: "map_of (entries s) key = Some e" "is_host e" by (rule min_used_filter [OF k(1) key])
  then obtain bs where bs: "tier e = Host bs" by (auto simp: is_host_def split: tier.splits)
  let ?s2 = "s\<lparr>entries := without key (entries s),
      cstats := (cstats s)\<lparr>host_bytes := host_bytes (cstats s) - length bs\<rparr>\<rparr>"
  have s2: "kept mdl pos good whole mid lim cf ?s2" "Suc (weigh host_one (entries ?s2)) = weigh host_one (entries s)"
    "device_entries (cstats ?s2) = device_entries (cstats s)"
    "key \<notin> set (keys (entries ?s2))" "length bs \<le> host_bytes (cstats s)"
    using kept_remove_host [OF assms(3) e(1) bs] by auto
  have "demote_host st (s, w) = put_disk st key bs (used e) (?s2, w)"
    using key e bs s2(5) by (simp add: demote_host_def Let_def)
  moreover have "wp (put_disk st key bs (used e))
      (\<lambda>_ (s', _). kept mdl pos good whole mid lim cf s' \<and> Suc (weigh host_one (entries s')) = weigh host_one (entries s)
        \<and> device_entries (cstats s') = device_entries (cstats s))
      (\<lambda>_ (s', _). kept mdl pos good whole mid lim cf s') (?s2, w)"
    by (rule wp_conseq [OF put_disk_wp [OF assms(1,2) s2(1,4)]]) (use s2(2,3) in \<open>auto simp: level_def\<close>)
  ultimately show ?thesis by (simp only: wp_def)
qed

lemma device_loop_wp:
  fixes st :: "('r, 'd, 'p, 'w) store" and s :: "('c, 'l, 'p) tiered"
  assumes "store_total cd st" and "config_ok cf" and "kept mdl (generation_position cd) good whole mid lim cf s"
    and "device_entries (cstats s) < fuel" and "store_faithful mdl cd st good whole mid lim"
  shows "wp (device_loop fuel cd st)
    (\<lambda>_ (s', _). kept mdl (generation_position cd) good whole mid lim cf s' \<and> device_entries (cstats s') \<le> max_device_entries cf)
    (\<lambda>_ (s', _). kept mdl (generation_position cd) good whole mid lim cf s') (s, w)"
  using assms(3,4)
proof (induction fuel arbitrary: s w)
  case (Suc n)
  have cf: "config s = cf" using Suc.prems(1) by (rule keptD)
  show ?case
  proof (cases "device_entries (cstats s) \<le> max_device_entries (config s)")
    case True
    then show ?thesis using Suc.prems(1) cf by (simp add: wp_def)
  next
    case False
    have step: "device_loop (Suc n) cd st (s, w) = bind_op (demote_device cd st) (\<lambda>_. device_loop n cd st) (s, w)"
      using False by simp
    have "wp (demote_device cd st)
      (\<lambda>_. wp (device_loop n cd st)
        (\<lambda>_ (s', _). kept mdl (generation_position cd) good whole mid lim cf s' \<and> device_entries (cstats s') \<le> max_device_entries cf)
        (\<lambda>_ (s', _). kept mdl (generation_position cd) good whole mid lim cf s'))
      (\<lambda>_ (s', _). kept mdl (generation_position cd) good whole mid lim cf s') (s, w)"
      by (rule wp_conseq [OF demote_device_wp [OF assms(1,2) Suc.prems(1) _ assms(5)]])
        (use False Suc.IH Suc.prems(2) in auto)
    from wp_bind [OF this] show ?thesis by (simp only: wp_def step)
  qed
qed simp

lemma host_one_le: "weigh host_one es \<le> length es"
proof (induction es)
  case (Cons a es)
  then show ?case by (cases "is_host (snd a)") (simp_all add: weigh_def host_one_def)
qed (simp add: weigh_def)

lemma host_loop_wp:
  fixes st :: "('r, 'd, 'p, 'w) store" and s :: "('c, 'l, 'p) tiered"
  assumes "store_total cd st" and "config_ok cf" and "kept mdl pos good whole mid lim cf s"
    and "weigh host_one (entries s) < fuel" and "device_entries (cstats s) \<le> max_device_entries cf"
  shows "wp (host_loop fuel st)
    (\<lambda>_ (s', _). kept mdl pos good whole mid lim cf s' \<and> device_entries (cstats s') \<le> max_device_entries cf
        \<and> host_bytes (cstats s') \<le> max_host_bytes cf)
    (\<lambda>_ (s', _). kept mdl pos good whole mid lim cf s') (s, w)"
  using assms(3-)
proof (induction fuel arbitrary: s w)
  case (Suc n)
  have cf: "config s = cf" using Suc.prems(1) by (rule keptD)
  show ?case
  proof (cases "host_bytes (cstats s) \<le> max_host_bytes (config s)")
    case True
    then show ?thesis using Suc.prems cf by (simp add: wp_def)
  next
    case False
    have step: "host_loop (Suc n) st (s, w) = bind_op (demote_host st) (\<lambda>_. host_loop n st) (s, w)"
      using False by simp
    have "wp (demote_host st)
      (\<lambda>_. wp (host_loop n st)
        (\<lambda>_ (s', _). kept mdl pos good whole mid lim cf s' \<and> device_entries (cstats s') \<le> max_device_entries cf
          \<and> host_bytes (cstats s') \<le> max_host_bytes cf)
        (\<lambda>_ (s', _). kept mdl pos good whole mid lim cf s'))
      (\<lambda>_ (s', _). kept mdl pos good whole mid lim cf s') (s, w)"
      by (rule wp_conseq [OF demote_host_wp [OF assms(1,2) Suc.prems(1)]])
        (use False Suc.IH Suc.prems(2,3) in auto)
    from wp_bind [OF this] show ?thesis by (simp only: wp_def step)
  qed
qed simp

text \<open>Within the budgets of all three tiers.\<close>

definition within_budget :: "('c, 'l, 'p) tiered \<Rightarrow> bool" where
  "within_budget s \<longleftrightarrow>
     device_entries (cstats s) \<le> max_device_entries (config s)
     \<and> host_bytes (cstats s) \<le> max_host_bytes (config s)
     \<and> disk_bytes (cstats s) \<le> max_disk_bytes (config s)"

lemma kept_touch:
  assumes "kept mdl pos good whole mid lim cf s" and "map_of (entries s) k = Some e"
  shows "kept mdl pos good whole mid lim cf (s\<lparr>entries := put k (e\<lparr>used := u\<rparr>) (entries s)\<rparr>)"
proof -
  note k = keptD [OF assms(1)]
  have same: "f (e\<lparr>used := u\<rparr>) = f e \<Longrightarrow> weigh f (put k (e\<lparr>used := u\<rparr>) (entries s)) = weigh f (entries s)" for f
    using weigh_put_old [OF k(1) assms(2), of f "e\<lparr>used := u\<rparr>"] by simp
  show ?thesis
    using assms by (auto simp: counted_def ordered_put map_of_put [OF k(1)] same weight_defs)
qed

lemma kept_tick [simp]:
  "counted cap mdl pos good whole mid lim cf (s\<lparr>tick := u\<rparr>) = counted cap mdl pos good whole mid lim cf s"
  by (simp add: counted_def)

lemma kept_touch_lookup [simp]: "kept mdl pos good whole mid lim cf (touch_lookup s) = kept mdl pos good whole mid lim cf s"
  by (simp add: counted_def touch_lookup_def)

lemma insert_prefix_wp:
  fixes st :: "('r, 'd, 'p, 'w) store" and s :: "('c, 'l, 'p) tiered"
  assumes "store_total cd st" and "config_ok cf" and "kept mdl (generation_position cd) good whole mid lim cf s"
    and "good p" and "store_faithful mdl cd st good whole mid lim"
  shows "wp (insert_prefix mdl cd st p)
    (\<lambda>_ (s', _). kept mdl (generation_position cd) good whole mid lim cf s' \<and> (within_budget s \<longrightarrow> within_budget s'))
    (\<lambda>_ (s', _). kept mdl (generation_position cd) good whole mid lim cf s') (s, w)"
proof -
  note k = keptD [OF assms(3)]
  let ?k = "pre_tokens p" and ?s1 = "s\<lparr>tick := tick s + 1\<rparr>"
  let ?bad = "\<not> prefilled_ok mdl (cache_model_id s) (cache_limits s) ?k p
    \<or> generation_position cd (pre_cache p) \<noteq> length ?k \<or> no_tiers (config s)"
  consider (bad) "?bad" | (old) e where "\<not> ?bad" "map_of (entries s) ?k = Some e"
    | (new) "\<not> ?bad" "map_of (entries s) ?k = None" by fastforce
  then show ?thesis
  proof cases
    case bad
    then show ?thesis using assms(3) by (auto simp: wp_def insert_prefix_def)
  next
    case old
    have "kept mdl (generation_position cd) good whole mid lim cf
        (?s1\<lparr>entries := put ?k (e\<lparr>used := tick ?s1\<rparr>) (entries ?s1)\<rparr>)"
      by (rule kept_touch) (use assms(3) old in simp_all)
    then show ?thesis using old by (simp add: wp_def insert_prefix_def Let_def within_budget_def)
  next
    case new
    let ?s2 = "add_device (?s1\<lparr>entries := put ?k \<lparr>tier = Device p, used = tick ?s1\<rparr> (entries ?s1)\<rparr>)"
    let ?K = "\<lambda>_ (s', _). kept mdl (generation_position cd) good whole mid lim cf s'"
    let ?B = "\<lambda>_ (s', _). kept mdl (generation_position cd) good whole mid lim cf s' \<and> (within_budget s \<longrightarrow> within_budget s')"
    have own: "belongs mdl (generation_position cd) good mid lim ?k p"
      using new(1) assms(4) k(3,4) by (simp add: belongs_def)
    have fresh: "?k \<notin> set (keys (entries ?s1))" using new(2) by (simp add: map_of_eq_None_iff)
    have k1: "kept mdl (generation_position cd) good whole mid lim cf ?s1" using assms(3) by simp
    have k2: "kept mdl (generation_position cd) good whole mid lim cf ?s2"
      by (rule kept_add_device [OF k1 fresh own])
    have tail: "wp (\<lambda>(s, w). host_loop (Suc (length (entries s))) st (s, w)) ?B ?K (s3, w3)"
      if "kept mdl (generation_position cd) good whole mid lim cf s3" "device_entries (cstats s3) \<le> max_device_entries cf"
      for s3 :: "('c, 'l, 'p) tiered" and w3
    proof -
      have "wp (host_loop (Suc (length (entries s3))) st) ?B ?K (s3, w3)"
        by (rule wp_conseq [OF host_loop_wp [OF assms(1,2) that(1) _ that(2)]])
          (auto simp: le_imp_less_Suc host_one_le within_budget_def keptD(2) keptD(8))
      then show ?thesis by (simp add: wp_def)
    qed
    have "wp (device_loop (Suc (device_entries (cstats ?s2))) cd st)
        (\<lambda>_. wp (\<lambda>(s, w). host_loop (Suc (length (entries s))) st (s, w)) ?B ?K) ?K (?s2, w)"
      by (rule wp_conseq [OF device_loop_wp [OF assms(1,2) k2 _ assms(5)]]) (use tail in auto)
    from wp_bind [OF this] show ?thesis
      using new by (simp add: wp_def insert_prefix_def Let_def)
  qed
qed

section \<open>Lookup\<close>

lemma restore_prefix_total: "store_total cd st \<Longrightarrow> restore_prefix mdl cd st mid lim bs \<noteq> Panic"
  unfolding store_total_def restore_prefix_def by (auto simp: Let_def split: res.splits prod.splits)

lemma prefilled_ok_take: "prefilled_ok mdl mid lim prompt p \<Longrightarrow> take (length (pre_tokens p)) prompt = pre_tokens p"
  by (auto simp: prefilled_ok_def split: prod.splits)

lemma load_entry_wp:
  fixes st :: "('r, 'd, 'p, 'w) store" and s :: "('c, 'l, 'p) tiered"
  assumes "store_total cd st" and "store_faithful mdl cd st good whole mid lim"
    and "kept mdl (generation_position cd) good whole mid lim cf s"
    and "map_of (entries s) key = Some e" and "take (length key) prompt = key"
  shows "wp (load_entry mdl cd st mid lim prompt key (tier e))
    (\<lambda>p _. pre_tokens p = key \<and> prefilled_ok mdl mid lim prompt p \<and> good p) (\<lambda>_ _. True) w"
proof -
  note k = keptD [OF assms(3)]
  have restored: "good p \<and> generation_position cd (pre_cache p) = length (pre_tokens p)"
    if "whole bs" "restore_prefix mdl cd st mid lim bs = Ok p" for bs p
    using assms(2) that unfolding store_faithful_def by blast
  have same: "pre_tokens p = key" if "prefilled_ok mdl mid lim prompt p" "length (pre_tokens p) = length key" for p
    using prefilled_ok_take [OF that(1)] that(2) assms(5) by simp
  have bytes: "wp (load_entry mdl cd st mid lim prompt key (tier e))
      (\<lambda>p _. pre_tokens p = key \<and> prefilled_ok mdl mid lim prompt p \<and> good p) (\<lambda>_ _. True) w"
    if eq: "load_entry mdl cd st mid lim prompt key (tier e) w
        = load_entry mdl cd st mid lim prompt key (Host bs :: ('c, 'l, 'p) tier) w1" and w: "whole bs" for bs w1
    using restored [OF w] same restore_prefix_total [OF assms(1), of mdl mid lim bs]
    unfolding wp_def eq by (auto simp: load_entry_def split: res.splits)
  show ?thesis
  proof (cases "tier e")
    case (Device p)
    then show ?thesis using k(9) [OF assms(4) Device] by (auto simp: wp_def load_entry_def belongs_def)
  next
    case (Host bs)
    show ?thesis by (rule bytes [of bs w]) (use Host k(10) [OF assms(4) Host] in auto)
  next
    case (Disk path n)
    obtain r w1 where r: "read_file st path w = (r, w1)" by force
    have np: "r \<noteq> Panic" using assms(1) r unfolding store_total_def by (metis fst_conv)
    show ?thesis
    proof (cases r)
      case (Ok bs)
      have "whole bs" using assms(2) r Ok unfolding store_faithful_def by blast
      then show ?thesis by (intro bytes [of bs w1]) (simp_all add: load_entry_def Disk r Ok)
    qed (use np r Disk in \<open>simp_all add: wp_def load_entry_def\<close>)
  qed
qed

lemma drop_failed_wp:
  fixes s :: "('c, 'l, 'p) tiered"
  assumes "kept mdl pos good whole mid lim cf s" and "map_of (entries s) key = Some e'" and "tier e' = tier e"
  shows "wp (drop_failed key e)
    (\<lambda>_ (s', _). kept mdl pos good whole mid lim cf s' \<and> entries s' = without key (entries s)
      \<and> (within_budget s \<longrightarrow> within_budget s') \<and> lookups (cstats s') = lookups (cstats s)
      \<and> hits (cstats s') = hits (cstats s) \<and> reused_tokens (cstats s') = reused_tokens (cstats s))
    (\<lambda>_ _. False) (s, w)"
proof (cases "tier e")
  case (Device p)
  then have "is_device e'" using assms(3) by (simp add: is_device_def)
  from kept_remove_device [OF assms(1,2) this] show ?thesis
    using Device keptD(2) [OF assms(1)]
    by (auto simp: wp_def drop_failed_def Let_def sub_device_def within_budget_def)
next
  case (Host bs)
  then have "tier e' = Host bs" using assms(3) by simp
  from kept_remove_host [OF assms(1,2) this] show ?thesis
    using Host by (auto simp: wp_def drop_failed_def Let_def within_budget_def)
next
  case (Disk path n)
  note k = keptD [OF assms(1)]
  have w: "weigh f (without key (entries s)) + f e' = weigh f (entries s)" for f
    by (rule weigh_without [OF ordered_distinct [OF k(1)] assms(2)])
  have "kept mdl pos good whole mid lim cf (s\<lparr>entries := without key (entries s)\<rparr>)"
    using assms(1) w [of dev_one] w [of host_weight] w [of disk_weight] Disk assms(3)
    by (auto simp: counted_def ordered_without map_of_without weight_defs)
  then show ?thesis using Disk by (simp add: wp_def drop_failed_def Let_def within_budget_def)
qed

text \<open>What a lookup of \<open>prompt\<close> that started in \<open>s\<close> says about its answer.\<close>

definition found_longest ::
  "('c, 'l) causal_model \<Rightarrow> (('c, 'l) prefilled \<Rightarrow> bool) \<Rightarrow> string \<Rightarrow> causal_limits \<Rightarrow> int list
   \<Rightarrow> ('c, 'l, 'p) tiered \<Rightarrow> ('c, 'l) prefilled option \<Rightarrow> ('c, 'l, 'p) tiered \<Rightarrow> bool" where
  "found_longest mdl good mid lim prompt s r s' \<longleftrightarrow>
     set (keys (entries s')) \<subseteq> set (keys (entries s))
     \<and> lookups (cstats s') = lookups (cstats s)
     \<and> longest_key (prefix_keys prompt (entries s')) = map_option pre_tokens r
     \<and> (case r of
          None \<Rightarrow> hits (cstats s') = hits (cstats s) \<and> reused_tokens (cstats s') = reused_tokens (cstats s)
        | Some p \<Rightarrow> prefilled_ok mdl mid lim prompt p \<and> good p \<and> hits (cstats s') = Suc (hits (cstats s))
            \<and> reused_tokens (cstats s') = reused_tokens (cstats s) + length (pre_tokens p))"

lemma keys_put_old: "ordered es \<Longrightarrow> map_of es k = Some e \<Longrightarrow> keys (put k v es) = keys es"
  unfolding ordered_def
proof (induction k v es rule: put.induct)
  case (2 k v k' v' rest)
  then show ?case by (auto split: if_splits dest: map_of_SomeD) (metis fst_conv less_asym map_of_SomeD)
qed simp

lemma found_longest_from:
  assumes "found_longest mdl good mid lim prompt s2 r s'" and "set (keys (entries s2)) \<subseteq> set (keys (entries s))"
    and "lookups (cstats s2) = lookups (cstats s)" and "hits (cstats s2) = hits (cstats s)"
    and "reused_tokens (cstats s2) = reused_tokens (cstats s)"
  shows "found_longest mdl good mid lim prompt s r s'"
  using assms unfolding found_longest_def by (auto split: option.splits del: subsetI elim: subset_trans)

lemma in_prefix_keys: "k \<in> set (prefix_keys prompt es) \<longleftrightarrow> k \<in> set (keys es) \<and> take (length k) prompt = k"
  by (simp only: prefix_keys_def set_filter mem_Collect_eq)

lemma kept_counts [simp]:
  "kept mdl pos good whole mid lim cf (s\<lparr>cstats := (cstats s)\<lparr>hits := h, reused_tokens := r\<rparr>\<rparr>)
    = kept mdl pos good whole mid lim cf s"
  by (simp add: counted_def)

lemma lookup_loop_wp:
  fixes st :: "('r, 'd, 'p, 'w) store" and s :: "('c, 'l, 'p) tiered"
  assumes "store_total cd st" and "store_faithful mdl cd st good whole mid lim"
    and "kept mdl (generation_position cd) good whole mid lim cf s" and "length (entries s) < fuel"
  shows "wp (lookup_loop fuel mdl cd st prompt)
    (\<lambda>r (s', _). kept mdl (generation_position cd) good whole mid lim cf s'
        \<and> (within_budget s \<longrightarrow> within_budget s') \<and> found_longest mdl good mid lim prompt s r s')
    (\<lambda>_ _. False) (s, w)"
  using assms(3,4)
proof (induction fuel arbitrary: s w)
  case (Suc n)
  note k = keptD [OF Suc.prems(1)]
  show ?case
  proof (cases "longest_key (prefix_keys prompt (entries s))")
    case None
    then show ?thesis using Suc.prems(1) by (simp add: wp_def found_longest_def)
  next
    case (Some key)
    have "key \<in> set (prefix_keys prompt (entries s))" by (rule longest_key_in [OF Some])
    then have key: "take (length key) prompt = key" "key \<in> set (keys (entries s))"
      unfolding in_prefix_keys by blast+
    obtain e where e: "map_of (entries s) key = Some e"
      using key(2) map_of_eq_None_iff [of "entries s" key] by (cases "map_of (entries s) key") auto
    let ?e = "e\<lparr>used := tick s\<rparr>"
    let ?s1 = "s\<lparr>entries := put key ?e (entries s)\<rparr>"
    have k1: "kept mdl (generation_position cd) good whole mid lim cf ?s1" by (rule kept_touch [OF Suc.prems(1) e])
    have e1: "map_of (entries ?s1) key = Some ?e" by (simp add: map_of_put [OF k(1)])
    have keys1: "keys (entries ?s1) = keys (entries s)" using keys_put_old [OF k(1) e] by simp
    have load: "wp (load_entry mdl cd st mid lim prompt key (tier e))
        (\<lambda>p _. pre_tokens p = key \<and> prefilled_ok mdl mid lim prompt p \<and> good p) (\<lambda>_ _. True) w"
      by (rule load_entry_wp [OF assms(1,2) Suc.prems(1) e key(1)])
    obtain r w1 where r: "load_entry mdl cd st mid lim prompt key (tier e) w = (r, w1)" by force
    show ?thesis
    proof (cases r)
      case (Ok p)
      have "kept mdl (generation_position cd) good whole mid lim cf (?s1\<lparr>cstats := (cstats ?s1)\<lparr>hits := hits (cstats ?s1) + 1,
          reused_tokens := reused_tokens (cstats ?s1) + length key\<rparr>\<rparr>)"
        using k1 unfolding kept_counts .
      moreover have "fst ` set (put key ?e (entries s)) = fst ` set (entries s)"
        using arg_cong [OF keys1, of set] by simp
      moreover have "prefix_keys prompt (put key ?e (entries s)) = prefix_keys prompt (entries s)"
        using keys1 by (simp add: prefix_keys_def)
      ultimately show ?thesis
        using Some e r Ok load keys1 k(3,4)
        by (simp add: wp_def found_longest_def within_budget_def Let_def)
    next
      case (Err err)
      have step: "lookup_loop (Suc n) mdl cd st prompt (s, w)
          = bind_op (drop_failed key e) (\<lambda>_. lookup_loop n mdl cd st prompt) (?s1, w1)"
        using Some e r Err k(3,4) by (simp add: Let_def)
      have shorter: "length (without key (put key ?e (entries s))) < n"
        using length_without [OF e1] arg_cong [OF keys1, of length] Suc.prems(2) by simp
      have "wp (drop_failed key e)
        (\<lambda>_. wp (lookup_loop n mdl cd st prompt)
          (\<lambda>r (s', _). kept mdl (generation_position cd) good whole mid lim cf s'
            \<and> (within_budget s \<longrightarrow> within_budget s') \<and> found_longest mdl good mid lim prompt s r s')
          (\<lambda>_ _. False)) (\<lambda>_ _. False) (?s1, w1)"
      proof (rule wp_conseq [OF drop_failed_wp [OF k1 e1, of e]])
        fix a :: unit and t :: "('c, 'l, 'p) tiered \<times> 'w"
        assume t: "case t of (s', _) \<Rightarrow> kept mdl (generation_position cd) good whole mid lim cf s'
          \<and> entries s' = without key (entries ?s1) \<and> (within_budget ?s1 \<longrightarrow> within_budget s')
          \<and> lookups (cstats s') = lookups (cstats ?s1) \<and> hits (cstats s') = hits (cstats ?s1)
          \<and> reused_tokens (cstats s') = reused_tokens (cstats ?s1)"
        obtain s2 w2 where t2: "t = (s2, w2)" by (cases t)
        have k2: "kept mdl (generation_position cd) good whole mid lim cf s2" and len: "length (entries s2) < n"
          and same: "within_budget s \<longrightarrow> within_budget s2" "lookups (cstats s2) = lookups (cstats s)"
            "hits (cstats s2) = hits (cstats s)" "reused_tokens (cstats s2) = reused_tokens (cstats s)"
          using t shorter by (auto simp: t2 within_budget_def)
        have sub: "set (keys (entries s2)) \<subseteq> set (keys (entries s))"
          using t keys_without [of key "entries ?s1"] unfolding keys1 t2 by auto
        show "wp (lookup_loop n mdl cd st prompt)
          (\<lambda>r (s', _). kept mdl (generation_position cd) good whole mid lim cf s'
            \<and> (within_budget s \<longrightarrow> within_budget s') \<and> found_longest mdl good mid lim prompt s r s')
          (\<lambda>_ _. False) t"
          unfolding t2
          by (rule wp_conseq [OF Suc.IH [OF k2 len]])
            (use same(1) found_longest_from [OF _ sub same(2-)] in blast)+
      qed (use e1 in auto)
      from wp_bind [OF this] show ?thesis by (simp only: wp_def step)
    next
      case Panic
      then show ?thesis using load r by (simp add: wp_def)
    qed
  qed
qed simp

lemma lookup_prefix_wp:
  fixes st :: "('r, 'd, 'p, 'w) store" and s :: "('c, 'l, 'p) tiered"
  assumes "store_total cd st" and "store_faithful mdl cd st good whole mid lim"
    and "kept mdl (generation_position cd) good whole mid lim cf s"
  shows "wp (lookup_prefix mdl cd st prompt)
    (\<lambda>r (s', _). kept mdl (generation_position cd) good whole mid lim cf s'
        \<and> (within_budget s \<longrightarrow> within_budget s') \<and> found_longest mdl good mid lim prompt (touch_lookup s) r s')
    (\<lambda>_ _. False) (s, w)"
proof -
  have "kept mdl (generation_position cd) good whole mid lim cf (touch_lookup s)" using assms(3) by simp
  moreover have "length (entries (touch_lookup s)) < Suc (length (entries s))" by (simp add: touch_lookup_def)
  ultimately have "wp (lookup_loop (Suc (length (entries s))) mdl cd st prompt)
    (\<lambda>r (s', _). kept mdl (generation_position cd) good whole mid lim cf s'
        \<and> (within_budget (touch_lookup s) \<longrightarrow> within_budget s')
        \<and> found_longest mdl good mid lim prompt (touch_lookup s) r s')
    (\<lambda>_ _. False) (touch_lookup s, w)"
    by (rule lookup_loop_wp [OF assms(1,2)])
  then show ?thesis by (simp add: wp_def lookup_prefix_def within_budget_def touch_lookup_def)
qed

end
