(* ===== verification/PrefixPrefill.thy ===== *)
theory PrefixPrefill
  imports PrefixCacheInv SessionInv
begin

text \<open>
  Prefill and opening of the tiered prefix cache: every block of the prefill advances and
  stands for a longer prefix of the prompt, and a cache opened from its directory is kept.
\<close>

section \<open>Prefill\<close>

text \<open>The model behind a prefix cache: lawful, with the logits of the last position only and
  a cache that knows its position.\<close>

definition prefix_model ::
  "('c, 'l) causal_model \<Rightarrow> ('c, 'l, 's, 'r, 'd, 'q) codec \<Rightarrow> causal_limits
   \<Rightarrow> ('c \<Rightarrow> int list \<Rightarrow> bool) \<Rightarrow> (int list \<Rightarrow> int) \<Rightarrow> bool" where
  "prefix_model mdl cd lim rep nxt \<longleftrightarrow>
     lawful mdl lim rep nxt \<and> max_sequence_length lim < usize_max
     \<and> (\<forall>c h. rep c h \<longrightarrow> generation_position cd c = length h)
     \<and> (\<forall>ts c l c'. try_forward mdl ts c = (Ok l, c') \<longrightarrow> fst (snd (dims mdl l)) = 1)"

lemma block_end_bounds:
  assumes "config_ok cf" and "start < length prompt" and "length prompt < usize_max"
  shows "start < block_end cf start prompt" "block_end cf start prompt \<le> length prompt"
proof -
  let ?b = "block_tokens cf"
  have "start mod ?b < ?b" using assms(1) by (simp add: config_ok_def)
  then have "start < (start div ?b + 1) * ?b"
    using div_mult_mod_eq [of start ?b] by (simp only: add_mult_distrib mult_1)
  then show "start < block_end cf start prompt" "block_end cf start prompt \<le> length prompt"
    using assms(2,3) by (auto simp: block_end_def saturating_mul_def)
qed

text \<open>What the prefill has reached: a sound, well-shaped prefix of the prompt.\<close>

definition reached ::
  "('c, 'l) causal_model \<Rightarrow> ('c \<Rightarrow> int list \<Rightarrow> bool) \<Rightarrow> (int list \<Rightarrow> int) \<Rightarrow> string \<Rightarrow> causal_limits
   \<Rightarrow> int list \<Rightarrow> ('c, 'l) prefilled \<Rightarrow> bool" where
  "reached mdl rep nxt mid lim prompt p \<longleftrightarrow> prefilled_ok mdl mid lim prompt p \<and> sound_prefix mdl rep nxt p"

text \<open>The only failure left is that of a device synchronisation.\<close>

definition sync_failed :: "('r, 'd, 'p, 'w) store \<Rightarrow> generation_error \<Rightarrow> bool" where
  "sync_failed st e \<longleftrightarrow> (\<exists>m w w'. e = ModelFailure m \<and> device_sync st w = (Err m, w'))"

lemma prefill_block_wp:
  fixes st :: "('r, 'd, 'p, 'w) store" and s :: "('c, 'l, 'p) tiered"
  assumes "store_total cd st" and "config_ok cf"
    and "store_faithful mdl cd st (sound_prefix mdl rep nxt) whole mid lim"
    and "prefix_model mdl cd lim rep nxt" and "mid \<noteq> []"
    and "kept mdl (generation_position cd) (sound_prefix mdl rep nxt) whole mid lim cf s"
    and "start < length prompt" and "length prompt \<le> max_sequence_length lim" and "rep c (take start prompt)"
  shows "wp (prefill_block mdl cd st prompt c start)
    (\<lambda>p (s', _). kept mdl (generation_position cd) (sound_prefix mdl rep nxt) whole mid lim cf s'
        \<and> reached mdl rep nxt mid lim prompt p \<and> start < length (pre_tokens p))
    (\<lambda>e (s', _). kept mdl (generation_position cd) (sound_prefix mdl rep nxt) whole mid lim cf s' \<and> sync_failed st e)
    (s, w)"
proof -
  note k = keptD [OF assms(6)]
  let ?stop = "block_end (config s) start prompt"
  have law: "lawful mdl lim rep nxt" and small: "max_sequence_length lim < usize_max"
    using assms(4) by (simp_all add: prefix_model_def)
  have "length prompt < usize_max" using small assms(8) by simp
  note bounds = block_end_bounds [OF assms(2,7) this, folded k(2)]
  have split: "take start prompt @ drop start (take ?stop prompt) = take ?stop prompt"
    using bounds(1) append_take_drop_id [of start "take ?stop prompt"] by (simp add: min_def)
  have ne: "drop start (take ?stop prompt) \<noteq> []" using bounds by simp
  have room: "length (take start prompt @ drop start (take ?stop prompt)) \<le> max_sequence_length lim"
    using assms(8) bounds(2) unfolding split by simp
  from lawfulE [OF law assms(9) ne room] obtain l c' where
    l: "try_forward mdl (drop start (take ?stop prompt)) c = (Ok l, c')" "rep c' (take ?stop prompt)"
      "good_logits mdl lim l" "greedy_token mdl l = Ok (nxt (take ?stop prompt))"
    unfolding split by blast
  let ?p = "\<lparr>pre_model_id = mid, pre_limits = lim, pre_tokens = take ?stop prompt, pre_cache = c', pre_logits = l\<rparr>"
  have one: "fst (snd (dims mdl l)) = 1" using assms(4) l(1) unfolding prefix_model_def by blast
  have len: "length (take ?stop prompt) = ?stop" using bounds(2) by simp
  have ok: "prefilled_ok mdl mid lim prompt ?p"
    using l(3) one assms(5) bounds len by (auto simp: prefilled_ok_def good_logits_def split: prod.splits)
  have sound: "sound_prefix mdl rep nxt ?p" using l(2,4) by (simp add: sound_prefix_def)
  have pos: "generation_position cd c' = ?stop" using assms(4) l(2) len by (simp add: prefix_model_def)
  have np: "\<And>w. fst (device_sync st w) \<noteq> Panic" using assms(1) by (simp add: store_total_def)
  show ?thesis
  proof (cases rule: on_world_cases [where m = "device_sync st" and s = s and w = w, OF np, case_names ok err])
    case (ok a w')
    have ins: "wp (insert_prefix mdl cd st ?p)
      (\<lambda>_ (s', _). kept mdl (generation_position cd) (sound_prefix mdl rep nxt) whole mid lim cf s')
      (\<lambda>_ (s', _). kept mdl (generation_position cd) (sound_prefix mdl rep nxt) whole mid lim cf s') (s, w')"
      by (rule wp_conseq [OF insert_prefix_wp [OF assms(1,2,6) sound assms(3)]]) auto
    show ?thesis
      using ins ok(1) l(1) ok sound pos bounds \<open>prefilled_ok mdl mid lim prompt ?p\<close>
      by (auto simp: wp_def prefill_block_def Let_def bind_op_def k(3,4) reached_def split: prod.splits res.splits)
  next
    case (err e w')
    then show ?thesis
      using l(1) assms(6) by (auto simp: wp_def prefill_block_def Let_def bind_op_def sync_failed_def)
  qed
qed

lemma reached_take:
  "reached mdl rep nxt mid lim prompt p \<Longrightarrow> take (length (pre_tokens p)) prompt = pre_tokens p"
  unfolding reached_def using prefilled_ok_take by blast

lemma prefill_loop_wp:
  fixes st :: "('r, 'd, 'p, 'w) store" and s :: "('c, 'l, 'p) tiered"
  assumes "store_total cd st" and "config_ok cf"
    and "store_faithful mdl cd st (sound_prefix mdl rep nxt) whole mid lim"
    and "prefix_model mdl cd lim rep nxt" and "mid \<noteq> []"
    and "length prompt \<le> max_sequence_length lim"
    and "kept mdl (generation_position cd) (sound_prefix mdl rep nxt) whole mid lim cf s"
    and "rep c (take start prompt)" and "length prompt \<le> start + fuel"
    and "case result of None \<Rightarrow> start < length prompt
         | Some p \<Rightarrow> reached mdl rep nxt mid lim prompt p \<and> start = length (pre_tokens p)"
  shows "wp (prefill_loop fuel mdl cd st prompt c start result)
    (\<lambda>p (s', _). kept mdl (generation_position cd) (sound_prefix mdl rep nxt) whole mid lim cf s'
        \<and> reached mdl rep nxt mid lim prompt p \<and> pre_tokens p = prompt)
    (\<lambda>e (s', _). kept mdl (generation_position cd) (sound_prefix mdl rep nxt) whole mid lim cf s' \<and> sync_failed st e)
    (s, w)"
  using assms(7-)
proof (induction fuel arbitrary: s w c start result)
  case 0
  then obtain p where p: "result = Some p" "reached mdl rep nxt mid lim prompt p" "start = length (pre_tokens p)"
    by (cases result) auto
  then have "pre_tokens p = prompt" using 0(3) reached_take [OF p(2)] by simp
  then show ?case using 0 p by (simp add: wp_def)
next
  case (Suc n)
  show ?case
  proof (cases "start < length prompt")
    case False
    then obtain p where p: "result = Some p" "reached mdl rep nxt mid lim prompt p" "start = length (pre_tokens p)"
      using Suc.prems(4) by (cases result) auto
    then have "pre_tokens p = prompt" using False reached_take [OF p(2)] by simp
    then show ?thesis using Suc.prems(1) p False by (simp add: wp_def)
  next
    case True
    let ?K = "\<lambda>(s', _). kept mdl (generation_position cd) (sound_prefix mdl rep nxt) whole mid lim cf s'"
    have step: "prefill_loop (Suc n) mdl cd st prompt c start result (s, w)
        = bind_op (prefill_block mdl cd st prompt c start)
            (\<lambda>p. prefill_loop n mdl cd st prompt (pre_cache p) (length (pre_tokens p)) (Some p)) (s, w)"
      using True by simp
    have "wp (prefill_block mdl cd st prompt c start)
      (\<lambda>p. wp (prefill_loop n mdl cd st prompt (pre_cache p) (length (pre_tokens p)) (Some p))
        (\<lambda>p t. ?K t \<and> reached mdl rep nxt mid lim prompt p \<and> pre_tokens p = prompt)
        (\<lambda>e t. ?K t \<and> sync_failed st e))
      (\<lambda>e t. ?K t \<and> sync_failed st e) (s, w)"
    proof (rule wp_conseq [OF prefill_block_wp [OF assms(1-5) Suc.prems(1) True assms(6) Suc.prems(2)]])
      fix p and t :: "('c, 'l, 'p) tiered \<times> 'w"
      assume t: "case t of (s', _) \<Rightarrow> kept mdl (generation_position cd) (sound_prefix mdl rep nxt) whole mid lim cf s'
        \<and> reached mdl rep nxt mid lim prompt p \<and> start < length (pre_tokens p)"
      obtain s2 w2 where t2: "t = (s2, w2)" by (cases t)
      have k2: "kept mdl (generation_position cd) (sound_prefix mdl rep nxt) whole mid lim cf s2"
        and p: "reached mdl rep nxt mid lim prompt p" "start < length (pre_tokens p)"
        using t by (simp_all add: t2)
      have rep: "rep (pre_cache p) (take (length (pre_tokens p)) prompt)"
        using p(1) unfolding reached_take [OF p(1)] by (simp add: reached_def sound_prefix_def)
      have "length prompt \<le> length (pre_tokens p) + n" using p(2) Suc.prems(3) by simp
      from Suc.IH [OF k2 rep this, of "Some p" w2] p(1)
      show "wp (prefill_loop n mdl cd st prompt (pre_cache p) (length (pre_tokens p)) (Some p))
        (\<lambda>p t. ?K t \<and> reached mdl rep nxt mid lim prompt p \<and> pre_tokens p = prompt)
        (\<lambda>e t. ?K t \<and> sync_failed st e) t"
        by (simp add: t2 case_prod_unfold del: prefill_loop.simps)
    qed auto
    from wp_bind [OF this] show ?thesis by (simp only: wp_def step case_prod_unfold)
  qed
qed

lemma prefill_wp:
  fixes st :: "('r, 'd, 'p, 'w) store" and s :: "('c, 'l, 'p) tiered"
  assumes "store_total cd st" and "config_ok cf"
    and "store_faithful mdl cd st (sound_prefix mdl rep nxt) whole mid lim"
    and "prefix_model mdl cd lim rep nxt" and "mid \<noteq> []"
    and "kept mdl (generation_position cd) (sound_prefix mdl rep nxt) whole mid lim cf s"
    and "prompt \<noteq> []" and "length prompt \<le> max_sequence_length lim"
    and "\<not> list_ex (outside (vocab_size lim)) prompt"
  shows "wp (prefill mdl cd st prompt)
    (\<lambda>p (s', _). kept mdl (generation_position cd) (sound_prefix mdl rep nxt) whole mid lim cf s'
        \<and> reached mdl rep nxt mid lim prompt p \<and> pre_tokens p = prompt)
    (\<lambda>e (s', _). kept mdl (generation_position cd) (sound_prefix mdl rep nxt) whole mid lim cf s' \<and> sync_failed st e)
    (s, w)"
proof -
  note k = keptD [OF assms(6)]
  let ?K = "\<lambda>(s', _). kept mdl (generation_position cd) (sound_prefix mdl rep nxt) whole mid lim cf s'"
  let ?rest = "\<lambda>existing. case existing of
      Some p \<Rightarrow> prefill_loop (length prompt) mdl cd st prompt (pre_cache p) (length (pre_tokens p)) (Some p)
    | None \<Rightarrow> prefill_loop (length prompt) mdl cd st prompt (fresh_cache mdl) 0 None"
  have law: "lawful mdl lim rep nxt" using assms(4) by (simp add: prefix_model_def)
  have "wp (lookup_prefix mdl cd st prompt)
    (\<lambda>r. wp (?rest r) (\<lambda>p t. ?K t \<and> reached mdl rep nxt mid lim prompt p \<and> pre_tokens p = prompt)
      (\<lambda>e t. ?K t \<and> sync_failed st e))
    (\<lambda>e t. ?K t \<and> sync_failed st e) (s, w)"
  proof (rule wp_conseq [OF lookup_prefix_wp [OF assms(1,3,6)]])
    fix r and t :: "('c, 'l, 'p) tiered \<times> 'w"
    assume t: "case t of (s', _) \<Rightarrow>
      kept mdl (generation_position cd) (sound_prefix mdl rep nxt) whole mid lim cf s'
      \<and> (within_budget s \<longrightarrow> within_budget s')
      \<and> found_longest mdl (sound_prefix mdl rep nxt) mid lim prompt (touch_lookup s) r s'"
    obtain s2 w2 where t2: "t = (s2, w2)" by (cases t)
    have k2: "kept mdl (generation_position cd) (sound_prefix mdl rep nxt) whole mid lim cf s2"
      and found: "found_longest mdl (sound_prefix mdl rep nxt) mid lim prompt (touch_lookup s) r s2"
      using t by (simp_all add: t2)
    show "wp (?rest r) (\<lambda>p t. ?K t \<and> reached mdl rep nxt mid lim prompt p \<and> pre_tokens p = prompt)
      (\<lambda>e t. ?K t \<and> sync_failed st e) t"
    proof (cases r)
      case None
      have "rep (fresh_cache mdl) (take 0 prompt)" using lawful_fresh [OF law] by simp
      from prefill_loop_wp [OF assms(1-5,8) k2 this, of "length prompt" None w2] assms(7)
      show ?thesis by (simp add: t2 None case_prod_unfold del: prefill_loop.simps)
    next
      case (Some p)
      have p: "reached mdl rep nxt mid lim prompt p"
        using found Some by (simp add: found_longest_def reached_def)
      have rep: "rep (pre_cache p) (take (length (pre_tokens p)) prompt)"
        using p unfolding reached_take [OF p] by (simp add: reached_def sound_prefix_def)
      from prefill_loop_wp [OF assms(1-5,8) k2 rep, of "length prompt" "Some p" w2] p
      show ?thesis by (simp add: t2 Some case_prod_unfold del: prefill_loop.simps)
    qed
  qed auto
  from wp_bind [OF this] show ?thesis
    using assms(7-9) by (simp add: wp_def prefill_def k(4) case_prod_unfold)
qed

section \<open>Opening\<close>

lemma kept_empty: "counted cap mdl pos good whole mid lim cf (empty_cache mid lim cf)"
  by (simp add: counted_def empty_cache_def ordered_def weigh_def)

lemma reopen_item_wp:
  assumes "store_total cd st" and "i \<noteq> Panic" and "\<forall>f. i = Ok f \<longrightarrow> dir_header f \<noteq> Panic"
    and "counted usize_max mdl pos good whole mid lim cf s"
  shows "wp (reopen_item st i)
    (\<lambda>_ (s', _). counted usize_max mdl pos good whole mid lim cf s') (\<lambda>_ _. True) (s, w)"
proof (cases i)
  case (Ok f)
  show ?thesis
  proof (cases "dir_payload f")
    case False
    then show ?thesis using Ok assms(4) by (simp add: wp_def reopen_item_def)
  next
    case payload: True
    show ?thesis
    proof (cases "dir_header f")
      case header: (Ok h)
      show ?thesis
      proof (cases h)
        case None
        then show ?thesis using Ok payload header assms(4) by (simp add: wp_def reopen_item_def)
      next
        case (Some q)
        obtain ver ident l tokens where q: "q = (ver, ident, l, tokens)" by (cases q)
        let ?skip = "ver \<noteq> 1 \<or> ident \<noteq> cache_model_id s \<or> l \<noteq> cache_limits s \<or> tokens = []
             \<or> length tokens > max_sequence_length l \<or> list_ex (outside (vocab_size l)) tokens"
        let ?s = "s\<lparr>tick := tick s + 1\<rparr>"
        have k1: "counted usize_max mdl pos good whole mid lim cf ?s" using assms(4) by simp
        consider (skip) "?skip" | (dup) "\<not> ?skip" "map_of (entries s) tokens \<noteq> None"
          | (new) "\<not> ?skip" "map_of (entries s) tokens = None" by blast
        then show ?thesis
        proof cases
          case skip
          then show ?thesis using Ok payload header Some q assms(4) by (auto simp: wp_def reopen_item_def)
        next
          case dup
          have np: "\<And>w. fst (remove_file st (dir_path f) w) \<noteq> Panic" using assms(1) by (simp add: store_total_def)
          have eq: "reopen_item st i (s, w) = on_world (remove_file st (dir_path f)) (?s, w)"
            using Ok payload header Some q dup by (auto simp: reopen_item_def Let_def)
          show ?thesis
            by (cases rule: on_world_cases [where m = "remove_file st (dir_path f)" and s = ?s and w = w, OF np,
                  case_names ok err]) (use k1 in \<open>simp_all add: wp_def eq\<close>)
        next
          case new
          let ?e = "\<lparr>tier = Disk (dir_path f) (dir_size f), used = tick ?s\<rparr>"
          have fresh: "tokens \<notin> set (keys (entries ?s))" using new(2) by (simp add: map_of_eq_None_iff)
          have "counted usize_max mdl pos good whole mid lim cf (?s\<lparr>cstats := (cstats ?s)\<lparr>
              disk_bytes := disk_bytes (cstats ?s) + dir_size f\<rparr>, entries := put tokens ?e (entries ?s)\<rparr>)"
            if "disk_bytes (cstats s) + dir_size f \<le> usize_max"
            using kept_put_other [OF k1 fresh, of ?e] that by (simp add: weight_defs)
          then show ?thesis
            using Ok payload header Some q new
            by (auto simp: wp_def reopen_item_def Let_def checked_add_def)
        qed
      qed
    qed (use Ok payload assms(3) in \<open>simp_all add: wp_def reopen_item_def\<close>)
  qed
qed (use assms(2) in \<open>simp_all add: wp_def reopen_item_def\<close>)

lemma reopen_disk_wp:
  fixes st :: "('r, 'd, 'p, 'w) store" and s :: "('c, 'l, 'p) tiered"
  assumes "store_total cd st" and "config_ok cf" and "kept mdl pos good whole mid lim cf s"
  shows "wp (reopen_disk st) (\<lambda>_ (s', _). kept mdl pos good whole mid lim cf s') (\<lambda>_ _. True) (s, w)"
proof (cases "\<not> has_disk_directory (config s) \<or> max_disk_bytes (config s) = 0")
  case True
  then show ?thesis using assms(3) by (simp add: wp_def reopen_disk_def)
next
  case False
  let ?C = "\<lambda>(s', _). counted usize_max mdl pos good whole mid lim cf s'"
  let ?K = "\<lambda>(s', _). kept mdl pos good whole mid lim cf s'"
  have c0: "counted usize_max mdl pos good whole mid lim cf s"
    using assms(2,3) by (auto simp: counted_def config_ok_def)
  have np: "\<And>w. fst (read_dir st w) \<noteq> Panic" using assms(1) by (simp add: store_total_def)
  have shrink: "wp (\<lambda>(s, w). shrink_disk (Suc (length (entries s))) st 0 (s, w)) (\<lambda>_. ?K) (\<lambda>_ _. True) t"
    if "?C t" for t :: "('c, 'l, 'p) tiered \<times> 'w"
  proof -
    obtain s1 w1 where t: "t = (s1, w1)" by (cases t)
    have c1: "counted usize_max mdl pos good whole mid lim cf s1" using that by (simp add: t)
    have "wp (shrink_disk (Suc (length (entries s1))) st 0) (\<lambda>_. ?K) (\<lambda>_ _. True) (s1, w1)"
      by (rule wp_conseq [OF shrink_disk_wp [OF assms(1,2) c1]]) (auto simp: counted_def)
    then show ?thesis by (simp add: wp_def t)
  qed
  show ?thesis
  proof (cases rule: on_world_cases [where m = "read_dir st" and s = s and w = w, OF np, case_names ok err])
    case (ok items w1)
    have total: "\<forall>i\<in>set items. i \<noteq> Panic \<and> (\<forall>f. i = Ok f \<longrightarrow> dir_header f \<noteq> Panic)"
      using assms(1) ok(2) unfolding store_total_def by blast
    have "wp (for_op (reopen_item st) items) (\<lambda>_. ?C) (\<lambda>_ _. True) (s, w1)"
    proof (rule wp_for)
      fix i and t :: "('c, 'l, 'p) tiered \<times> 'w"
      assume "i \<in> set items" and "?C t"
      then show "wp (reopen_item st i) (\<lambda>_. ?C) (\<lambda>_ _. True) t"
        using reopen_item_wp [OF assms(1), of i mdl pos good whole mid lim cf "fst t" "snd t"] total by auto
    qed (use c0 in simp)
    then have "wp (for_op (reopen_item st) items)
        (\<lambda>_. wp (\<lambda>(s, w). shrink_disk (Suc (length (entries s))) st 0 (s, w)) (\<lambda>_. ?K) (\<lambda>_ _. True)) (\<lambda>_ _. True) (s, w1)"
      by (rule wp_conseq) (use shrink in blast)+
    from wp_bind [OF this] show ?thesis using False ok(1) by (simp add: wp_def reopen_disk_def bind_op_def)
  next
    case (err e w1)
    then show ?thesis using False by (simp add: wp_def reopen_disk_def bind_op_def)
  qed
qed

lemma new_cache_wp:
  assumes "store_total cd st" and "max_disk_bytes cf < usize_max" and "\<And>w. fst (create_dir st w) \<noteq> Panic"
  shows "wp (new_cache st mid lim cf)
    (\<lambda>s _. mid \<noteq> [] \<and> config_ok cf \<and> kept mdl pos good whole mid lim cf s) (\<lambda>_ _. True) w"
proof (cases "mid = [] \<or> block_tokens cf = 0 \<or> max_disk_bytes cf > 0 \<and> \<not> has_disk_directory cf")
  case True
  then show ?thesis by (auto simp: wp_def new_cache_def)
next
  case False
  then have ok: "config_ok cf" using assms(2) by (auto simp: config_ok_def)
  obtain r w1 where r: "(if has_disk_directory cf then create_dir st w else (Ok (), w)) = (r, w1)" by force
  have np: "r \<noteq> Panic" using r assms(3) [of w] by (auto split: if_splits)
  have "wp (reopen_disk st) (\<lambda>_ (s', _). kept mdl pos good whole mid lim cf s') (\<lambda>_ _. True) (empty_cache mid lim cf, w1)"
    by (rule reopen_disk_wp [OF assms(1) ok kept_empty])
  then show ?thesis
    using False ok r np by (auto simp: wp_def new_cache_def split: res.splits prod.splits)
qed

end
