(* ===== verification/Disaggregated.thy ===== *)
theory Disaggregated
  imports PrefixPrefill
begin

text \<open>
  \<^verbatim>\<open>src/src/disaggregated.rs\<close>: prefill in another process. A client sends a request in a
  frame with a magic number, a length and a digest; the service prefills through its prefix
  cache, exports the prefix and answers in a frame.

  The connection is the state of the network operations \<open>net\<close>; the digest, the allocator
  and the encoding of requests and error texts are parameters. \<open>serve_all\<close> is the accept loop
  over the connections that arrive.
\<close>

section \<open>Frames\<close>

text \<open>Byte streams, as the standard library's \<open>Read\<close> and \<open>Write\<close> offer them.\<close>

record 'n net =
  connect :: "('n, string, unit) op"
  send :: "bytes \<Rightarrow> ('n, string, unit) op"
  flush_net :: "('n, string, unit) op"
  recv :: "nat \<Rightarrow> ('n, string, bytes) op"
  reserve :: "nat \<Rightarrow> (string, unit) res"

definition magic :: bytes where
  "magic = [0x52, 0x55, 0x44, 0x41, 0x4B, 0x56, 0x30, 0x31]"

definition be64 :: "nat \<Rightarrow> bytes" where
  "be64 n = map (\<lambda>i. word_of_nat (n div 256 ^ i)) [7, 6, 5, 4, 3, 2, 1, 0]"

definition from_be64 :: "bytes \<Rightarrow> nat" where
  "from_be64 bs = foldl (\<lambda>a b. a * 256 + unat b) 0 bs"

definition write_frame :: "'n net \<Rightarrow> (bytes \<Rightarrow> bytes) \<Rightarrow> bytes \<Rightarrow> ('n, generation_error, unit) op" where
  "write_frame net dig payload = map_err_op ModelFailure
     (bind_op (send net magic) (\<lambda>_.
      bind_op (send net (be64 (length payload))) (\<lambda>_.
      bind_op (send net (dig payload)) (\<lambda>_.
      bind_op (send net payload) (\<lambda>_.
      flush_net net)))))"

definition read_frame :: "'n net \<Rightarrow> (bytes \<Rightarrow> bytes) \<Rightarrow> ('n, generation_error, bytes) op" where
  "read_frame net dig = map_err_op ModelFailure
     (bind_op (recv net 8) (\<lambda>mg.
        if mg \<noteq> magic then err_op ''incompatible native KV handoff protocol''
        else
      bind_op (recv net 8) (\<lambda>len.
      bind_op (recv net 32) (\<lambda>d.
        case reserve net (from_be64 len) of
          Err e \<Rightarrow> err_op e
        | Panic \<Rightarrow> panic_op
        | Ok _ \<Rightarrow>
      bind_op (recv net (from_be64 len)) (\<lambda>payload.
        if dig payload \<noteq> d then err_op ''native KV handoff payload digest differs''
        else ret_op payload)))))"

section \<open>Requests\<close>

record prefill_request =
  req_version :: nat
  req_model_id :: string
  req_limits :: causal_limits
  req_tokens :: "int list"

record request_codec =
  enc_request :: "prefill_request \<Rightarrow> (string, bytes) res"
  dec_request :: "bytes \<Rightarrow> (string, prefill_request) res"
  error_text :: "generation_error \<Rightarrow> bytes"
  lossy :: "bytes \<Rightarrow> string"

text \<open>The client: what it sends, what it makes of the answer, and the whole call.\<close>

definition send_request ::
  "request_codec \<Rightarrow> 'n net \<Rightarrow> (bytes \<Rightarrow> bytes) \<Rightarrow> string \<Rightarrow> causal_limits \<Rightarrow> int list
   \<Rightarrow> ('n, generation_error, unit) op" where
  "send_request rc net dig mid lim tokens n =
     (case validate_generation lim tokens \<lparr>max_new_tokens = 0, eos_token_ids = []\<rparr> of
        Err e \<Rightarrow> (Err e, n)
      | Panic \<Rightarrow> (Panic, n)
      | Ok _ \<Rightarrow>
      (case enc_request rc \<lparr>req_version = 1, req_model_id = mid, req_limits = lim, req_tokens = tokens\<rparr> of
         Err e \<Rightarrow> (Err (ModelFailure e), n)
       | Panic \<Rightarrow> (Panic, n)
       | Ok request \<Rightarrow>
           bind_op (map_err_op ModelFailure (connect net)) (\<lambda>_. write_frame net dig request) n))"

definition read_response ::
  "('c, 'l) causal_model \<Rightarrow> ('c, 'l, 's, 'r, 'd, 'q) codec \<Rightarrow> ('r, 'd, 'p, 'w) store \<Rightarrow> request_codec
   \<Rightarrow> string \<Rightarrow> causal_limits \<Rightarrow> int list \<Rightarrow> bytes \<Rightarrow> (generation_error, ('c, 'l) prefilled) res" where
  "read_response mdl cd st rc mid lim tokens response =
     (case response of
        tag # payload \<Rightarrow>
          if tag = 0 then import_prompt mdl cd st mid lim tokens payload
          else if tag = 1 then Err (ModelFailure (lossy rc payload))
          else Err (ModelFailure ''invalid native prefill response'')
      | [] \<Rightarrow> Err (ModelFailure ''invalid native prefill response''))"

definition remote_prefill ::
  "('c, 'l) causal_model \<Rightarrow> ('c, 'l, 's, 'r, 'd, 'q) codec \<Rightarrow> ('r, 'd, 'p, 'w) store \<Rightarrow> request_codec
   \<Rightarrow> 'n net \<Rightarrow> (bytes \<Rightarrow> bytes) \<Rightarrow> string \<Rightarrow> causal_limits \<Rightarrow> int list
   \<Rightarrow> ('n, generation_error, ('c, 'l) prefilled) op" where
  "remote_prefill mdl cd st rc net dig mid lim tokens =
     bind_op (send_request rc net dig mid lim tokens) (\<lambda>_.
     bind_op (read_frame net dig) (\<lambda>response n.
       (read_response mdl cd st rc mid lim tokens response, n)))"

section \<open>The service\<close>

text \<open>The closure of one connection: decode, check, prefill, export.\<close>

definition answer_request ::
  "('c, 'l) causal_model \<Rightarrow> ('c, 'l, 's, 'r, 'd, 'q) codec \<Rightarrow> ('r, 'd, 'p, 'w) store \<Rightarrow> request_codec
   \<Rightarrow> string \<Rightarrow> causal_limits \<Rightarrow> bytes \<Rightarrow> ('c, 'l, 'p, 'w, bytes) cache_op" where
  "answer_request mdl cd st rc mid lim payload sw =
     (case dec_request rc payload of
        Err e \<Rightarrow> (Err (ModelFailure e), sw)
      | Panic \<Rightarrow> (Panic, sw)
      | Ok r \<Rightarrow>
          if req_version r \<noteq> 1 \<or> req_model_id r \<noteq> mid \<or> req_limits r \<noteq> lim
          then (Err (ModelFailure ''prefill model identity, version or limits differ''), sw)
          else bind_op (prefill mdl cd st (req_tokens r))
                 (\<lambda>p (s, w). case export_prompt mdl cd st p w of (bs, w) \<Rightarrow> (bs, (s, w))) sw)"

definition response_of :: "request_codec \<Rightarrow> (generation_error, bytes) res \<Rightarrow> (generation_error, bytes) res" where
  "response_of rc result =
     (case result of Ok payload \<Rightarrow> Ok (0 # payload) | Err e \<Rightarrow> Ok (1 # error_text rc e) | Panic \<Rightarrow> Panic)"

text \<open>One turn of the accept loop; a failed write of the answer is only logged.\<close>

definition serve_connection ::
  "('c, 'l) causal_model \<Rightarrow> ('c, 'l, 's, 'r, 'd, 'q) codec \<Rightarrow> ('r, 'd, 'p, 'w) store \<Rightarrow> request_codec
   \<Rightarrow> 'n net \<Rightarrow> (bytes \<Rightarrow> bytes) \<Rightarrow> string \<Rightarrow> causal_limits \<Rightarrow> 'n
   \<Rightarrow> ('c, 'l, 'p, 'w, 'n) cache_op" where
  "serve_connection mdl cd st rc net dig mid lim n sw =
     (case (case read_frame net dig n of
              (Ok payload, n) \<Rightarrow> (case answer_request mdl cd st rc mid lim payload sw of (r, sw) \<Rightarrow> (r, n, sw))
            | (Err e, n) \<Rightarrow> (Err e, n, sw)
            | (Panic, n) \<Rightarrow> (Panic, n, sw)) of
        (result, n, sw) \<Rightarrow>
          (case response_of rc result of
             Ok response \<Rightarrow>
               (case write_frame net dig response n of
                  (Panic, n) \<Rightarrow> (Panic, sw)
                | (_, n) \<Rightarrow> (Ok n, sw))
           | _ \<Rightarrow> (Panic, sw)))"

text \<open>The loop over the connections that arrive; the connections are returned as they were left.\<close>

fun serve_all ::
  "('c, 'l) causal_model \<Rightarrow> ('c, 'l, 's, 'r, 'd, 'q) codec \<Rightarrow> ('r, 'd, 'p, 'w) store \<Rightarrow> request_codec
   \<Rightarrow> 'n net \<Rightarrow> (bytes \<Rightarrow> bytes) \<Rightarrow> string \<Rightarrow> causal_limits \<Rightarrow> (string, 'n) res list
   \<Rightarrow> ('c, 'l, 'p, 'w, 'n list) cache_op" where
  "serve_all mdl cd st rc net dig mid lim [] sw = (Ok [], sw)"
| "serve_all mdl cd st rc net dig mid lim (Ok n # rest) sw =
     bind_op (serve_connection mdl cd st rc net dig mid lim n) (\<lambda>n.
     bind_op (serve_all mdl cd st rc net dig mid lim rest) (\<lambda>ns. ret_op (n # ns))) sw"
| "serve_all mdl cd st rc net dig mid lim (Err e # rest) sw =
     serve_all mdl cd st rc net dig mid lim rest sw"
| "serve_all mdl cd st rc net dig mid lim (Panic # rest) sw = (Panic, sw)"

definition run_prefill_service ::
  "('c, 'l) causal_model \<Rightarrow> ('c, 'l, 's, 'r, 'd, 'q) codec \<Rightarrow> ('r, 'd, 'p, 'w) store \<Rightarrow> request_codec
   \<Rightarrow> 'n net \<Rightarrow> (bytes \<Rightarrow> bytes) \<Rightarrow> string \<Rightarrow> causal_limits \<Rightarrow> cache_config
   \<Rightarrow> (string, (string, 'n) res list) res \<Rightarrow> bool \<Rightarrow> ('w, generation_error, 'n list) op" where
  "run_prefill_service mdl cd st rc net dig mid lim cf listener ready w =
     (case new_cache st mid lim cf w of
        (Err e, w) \<Rightarrow> (Err e, w)
      | (Panic, w) \<Rightarrow> (Panic, w)
      | (Ok tc, w) \<Rightarrow>
      (case listener of
         Err e \<Rightarrow> (Err (ModelFailure e), w)
       | Panic \<Rightarrow> (Panic, w)
       | Ok conns \<Rightarrow>
           if \<not> ready then (Ok [], w)
           else (case serve_all mdl cd st rc net dig mid lim conns (tc, w) of
                   (r, (_, w)) \<Rightarrow> (r, w))))"

section \<open>A reliable connection\<close>

text \<open>
  What the stream of an unbroken connection does: bytes are read in the order they were
  written, none is lost, and a read fails only when too few are there. \<open>inc\<close> and \<open>sent\<close> are
  the bytes still to be read and the bytes written.
\<close>

definition reliable :: "'n net \<Rightarrow> ('n \<Rightarrow> bytes) \<Rightarrow> ('n \<Rightarrow> bytes) \<Rightarrow> bool" where
  "reliable net inc sent \<longleftrightarrow>
     (\<forall>bs n. \<exists>n'. send net bs n = (Ok (), n') \<and> inc n' = inc n \<and> sent n' = sent n @ bs)
     \<and> (\<forall>n. \<exists>n'. flush_net net n = (Ok (), n') \<and> inc n' = inc n \<and> sent n' = sent n)
     \<and> (\<forall>n. \<exists>n'. connect net n = (Ok (), n') \<and> inc n' = inc n \<and> sent n' = sent n)
     \<and> (\<forall>k n. if k \<le> length (inc n)
          then (\<exists>n'. recv net k n = (Ok (take k (inc n)), n') \<and> inc n' = drop k (inc n) \<and> sent n' = sent n)
          else (\<exists>e n'. recv net k n = (Err e, n') \<and> sent n' = sent n))
     \<and> (\<forall>k. reserve net k \<noteq> Panic)"

definition frame :: "(bytes \<Rightarrow> bytes) \<Rightarrow> bytes \<Rightarrow> bytes" where
  "frame dig payload = magic @ be64 (length payload) @ dig payload @ payload"

lemma reliable_send:
  assumes "reliable net inc sent"
  obtains n' where "send net bs n = (Ok (), n')" "inc n' = inc n" "sent n' = sent n @ bs"
  using assms unfolding reliable_def by blast

lemma reliable_flush:
  assumes "reliable net inc sent"
  obtains n' where "flush_net net n = (Ok (), n')" "inc n' = inc n" "sent n' = sent n"
  using assms unfolding reliable_def by blast

lemma reliable_connect:
  assumes "reliable net inc sent"
  obtains n' where "connect net n = (Ok (), n')" "inc n' = inc n" "sent n' = sent n"
  using assms unfolding reliable_def by blast

lemma reliable_recv:
  assumes "reliable net inc sent" and "inc n = bs @ rest" and "length bs = k"
  obtains n' where "recv net k n = (Ok bs, n')" "inc n' = rest" "sent n' = sent n"
proof -
  have "k \<le> length (inc n)" "take k (inc n) = bs" "drop k (inc n) = rest" using assms(2,3) by simp_all
  then show ?thesis using assms(1) that unfolding reliable_def by metis
qed

lemma length_magic [simp]: "length magic = 8"
  by (simp add: magic_def)

lemma length_be64 [simp]: "length (be64 n) = 8"
  by (simp add: be64_def)

lemma be64_roundtrip:
  assumes "n < 2 ^ 64"
  shows "from_be64 (be64 n) = n"
proof -
  have step: "n div 256 ^ Suc i * 256 + unat (word_of_nat (n div 256 ^ i) :: 8 word) = n div 256 ^ i" for i
  proof -
    have "unat (word_of_nat (n div 256 ^ i) :: 8 word) = n div 256 ^ i mod 256"
      by (simp add: unsigned_of_nat take_bit_nat_def)
    moreover have "n div 256 ^ Suc i = n div 256 ^ i div 256" by (simp only: power_Suc2 div_mult2_eq)
    ultimately show ?thesis by simp
  qed
  have "foldl (\<lambda>a b. a * 256 + unat b) (n div 256 ^ k)
      (map (\<lambda>i. word_of_nat (n div 256 ^ i) :: 8 word) (rev [0..<k])) = n" for k
  proof (induction k)
    case (Suc k)
    then show ?case by (simp only: upt_Suc_append zero_order rev_append list.map rev.simps append.simps foldl_Cons step)
  qed simp
  from this [of 8] have "foldl (\<lambda>a b. a * 256 + unat b) 0
      (map (\<lambda>i. word_of_nat (n div 256 ^ i) :: 8 word) (rev [0..<8])) = n"
    using assms by simp
  moreover have "rev [0..<8] = [7, 6, 5, 4, 3, 2, 1, 0 :: nat]" by (simp add: upt_rec)
  ultimately show ?thesis by (simp only: from_be64_def be64_def)
qed

lemma write_frame_sends:
  assumes "reliable net inc sent"
  obtains n' where "write_frame net dig payload n = (Ok (), n')" "inc n' = inc n"
    "sent n' = sent n @ frame dig payload"
proof -
  obtain n1 where n1: "send net magic n = (Ok (), n1)" "inc n1 = inc n" "sent n1 = sent n @ magic"
    by (rule reliable_send [OF assms])
  obtain n2 where n2: "send net (be64 (length payload)) n1 = (Ok (), n2)" "inc n2 = inc n1"
    "sent n2 = sent n1 @ be64 (length payload)" by (rule reliable_send [OF assms])
  obtain n3 where n3: "send net (dig payload) n2 = (Ok (), n3)" "inc n3 = inc n2" "sent n3 = sent n2 @ dig payload"
    by (rule reliable_send [OF assms])
  obtain n4 where n4: "send net payload n3 = (Ok (), n4)" "inc n4 = inc n3" "sent n4 = sent n3 @ payload"
    by (rule reliable_send [OF assms])
  obtain n5 where n5: "flush_net net n4 = (Ok (), n5)" "inc n5 = inc n4" "sent n5 = sent n4"
    by (rule reliable_flush [OF assms])
  show ?thesis
    by (rule that [of n5]) (use n1 n2 n3 n4 n5 in
      \<open>simp_all add: write_frame_def map_err_op_def bind_op_def frame_def\<close>)
qed

lemma read_frame_receives:
  assumes "reliable net inc sent" and "\<And>p. length (dig p) = 32" and "inc n = frame dig payload @ rest"
    and "length payload < 2 ^ 64" and "reserve net (length payload) = Ok ()"
  obtains n' where "read_frame net dig n = (Ok payload, n')" "inc n' = rest" "sent n' = sent n"
proof -
  note len = be64_roundtrip [OF assms(4)]
  obtain n1 where n1: "recv net 8 n = (Ok magic, n1)"
    "inc n1 = be64 (length payload) @ dig payload @ payload @ rest" "sent n1 = sent n"
    by (rule reliable_recv [OF assms(1), of n magic]) (use assms(3) in \<open>simp_all add: frame_def\<close>)
  obtain n2 where n2: "recv net 8 n1 = (Ok (be64 (length payload)), n2)"
    "inc n2 = dig payload @ payload @ rest" "sent n2 = sent n1"
    by (rule reliable_recv [OF assms(1) n1(2)]) simp_all
  obtain n3 where n3: "recv net 32 n2 = (Ok (dig payload), n3)" "inc n3 = payload @ rest" "sent n3 = sent n2"
    by (rule reliable_recv [OF assms(1) n2(2)]) (simp_all add: assms(2))
  obtain n4 where n4: "recv net (length payload) n3 = (Ok payload, n4)" "inc n4 = rest" "sent n4 = sent n3"
    by (rule reliable_recv [OF assms(1) n3(2)]) simp_all
  show ?thesis
    by (rule that [of n4]) (use n1 n2 n3 n4 len assms(5) in
      \<open>simp_all add: read_frame_def map_err_op_def bind_op_def err_op_def ret_op_def\<close>)
qed

end
