(* ===== verification/Speculative.thy ===== *)
theory Speculative
  imports Generation
begin

text \<open>
  \<^verbatim>\<open>src/src/generation/speculative.rs\<close>: a draft model proposes a block, the target model
  verifies it in one forward, a rejected block is undone by forking caches and replaying.

  \<^item> \<open>argmax\<close>, \<open>propose\<close>, \<open>verify\<close>: the private \<open>Selection\<close>. Without sampling it takes the
    first maximum of the logits that are numbers (a logit is an option, \<open>None\<close> for NaN); the
    distributions and draws of the sampled policy are the parameter \<open>policy\<close>;
  \<^item> \<open>next_row\<close>, \<open>emit\<close>, \<open>propose_loop\<close>, \<open>verify_loop\<close>, \<open>replay_loop\<close>: the parts of a round;
  \<^item> \<open>spec_round\<close>, \<open>spec_loop\<close>, \<open>generate_speculative\<close>: the \<open>while\<close> loop, an option that is
    \<open>None\<close> if it does not return.
\<close>

section \<open>Data\<close>

type_synonym 'f row = "'f option list"

record ('c, 'l, 'f) spec_model =
  base :: "('c, 'l) causal_model"
  fork_cache :: "'c \<Rightarrow> 'c"
  try_forward_block :: "int list \<Rightarrow> 'c \<Rightarrow> (generation_error, 'l) res \<times> 'c"
  last_row :: "'l \<Rightarrow> (generation_error, 'f row) res"
  all_rows :: "'l \<Rightarrow> (generation_error, 'f row) res"

record spec_stats =
  rounds :: nat
  proposed_tokens :: nat
  accepted_tokens :: nat
  rejected_blocks :: nat
  bonus_tokens :: nat
  target_block_forwards :: nat
  replayed_prefix_tokens :: nat

record spec_result =
  spec_out :: token_output
  spec_reason :: finish_reason
  stats :: spec_stats

text \<open>The sampled policy: temperature, top-k, top-p and the random draws.\<close>

record ('g, 'f, 'p) policy =
  draw_propose :: "'g \<Rightarrow> 'f row \<Rightarrow> (generation_error, int \<times> 'p list) res \<times> 'g"
  draw_verify :: "'g \<Rightarrow> int \<Rightarrow> 'p list \<Rightarrow> 'f row \<Rightarrow> (generation_error, int \<times> bool) res \<times> 'g"

record ('g, 'f, 'p) spec_config =
  spec_max_new_tokens :: nat
  spec_eos_token_ids :: "int list"
  draft_tokens :: nat
  sampling :: "('g, 'f, 'p) policy option"
  sampling_valid :: "(generation_error, unit) res"

record ('c, 'd, 'f, 'g) spec_state =
  result :: spec_result
  stops :: "int matcher"
  target_cache :: 'c
  draft_cache :: 'd
  target_next :: "'f row"
  draft_next :: "'f row"
  rng :: 'g

text \<open>How a part of a round ends: \<open>break 'generation\<close> or on to the next part.\<close>

datatype ('a, 'b) part_end = Leave 'a | Go 'b

section \<open>Selection\<close>

fun argmax_loop :: "nat \<Rightarrow> (nat \<times> 'f::linorder) option \<Rightarrow> 'f row \<Rightarrow> (nat \<times> 'f) option" where
  "argmax_loop index best [] = best"
| "argmax_loop index best (value # rest) =
     argmax_loop (index + 1)
       (case value of
          None \<Rightarrow> best
        | Some v \<Rightarrow>
            (case best of
               None \<Rightarrow> Some (index, v)
             | Some (i, maximum) \<Rightarrow> if v > maximum then Some (index, v) else Some (i, maximum))) rest"

definition argmax :: "('f::linorder) row \<Rightarrow> (generation_error, int) res" where
  "argmax logits =
     (case argmax_loop 0 None logits of
        None \<Rightarrow> Err AllLogitsNaN
      | Some (index, _) \<Rightarrow> Ok (int index))"

definition propose ::
  "('g, 'f::linorder, 'p) policy option \<Rightarrow> 'g \<Rightarrow> 'f row \<Rightarrow> (generation_error, int \<times> 'p list) res \<times> 'g" where
  "propose policy g logits =
     (case policy of
        Some p \<Rightarrow> draw_propose p g logits
      | None \<Rightarrow>
          (case argmax logits of Ok t \<Rightarrow> (Ok (t, []), g) | Err e \<Rightarrow> (Err e, g) | Panic \<Rightarrow> (Panic, g)))"

definition verify ::
  "('g, 'f::linorder, 'p) policy option \<Rightarrow> 'g \<Rightarrow> int \<Rightarrow> 'p list \<Rightarrow> 'f row
   \<Rightarrow> (generation_error, int \<times> bool) res \<times> 'g" where
  "verify policy g candidate q logits =
     (case policy of
        Some p \<Rightarrow> draw_verify p g candidate q logits
      | None \<Rightarrow>
          (case argmax logits of
             Ok token \<Rightarrow> (Ok (token, token = candidate), g)
           | Err e \<Rightarrow> (Err e, g)
           | Panic \<Rightarrow> (Panic, g)))"

section \<open>Parts of a round\<close>

definition next_row ::
  "('c, 'l, 'f) spec_model \<Rightarrow> nat \<Rightarrow> int list \<Rightarrow> 'c \<Rightarrow> (generation_error, 'f row \<times> 'c) res" where
  "next_row mdl vocabulary tokens cache =
     (case try_forward (base mdl) tokens cache of
        (Err e, _) \<Rightarrow> Err e
      | (Panic, _) \<Rightarrow> Panic
      | (Ok logits, cache) \<Rightarrow>
          if dims (base mdl) logits \<noteq> (1, 1, vocabulary) then Err (BadLogits (dims (base mdl) logits))
          else (case last_row mdl logits of
                  Ok row \<Rightarrow> Ok (row, cache)
                | Err e \<Rightarrow> Err e
                | Panic \<Rightarrow> Panic))"

text \<open>
  One verified token: output, matcher, callback, and whether the generation ends here.
\<close>

definition emit ::
  "'w control \<Rightarrow> 'w callback \<Rightarrow> int list \<Rightarrow> nat \<Rightarrow> int \<Rightarrow> spec_result \<Rightarrow> int matcher
   \<Rightarrow> ('w, bool \<times> spec_result \<times> int matcher) generation_op" where
  "emit ctl on_token eos limit token res m w =
     (let res = res\<lparr>spec_out := append_token eos token (spec_out res)\<rparr> in
      case push m token of
        None \<Rightarrow> (Panic, w)
      | Some (m, hit) \<Rightarrow>
          let generated = generated_token_ids (spec_out res);
              natural = natural_stop eos limit token hit (length generated) in
          case on_token \<lparr>event_token = token, event_generated = generated, event_reason = natural\<rparr> w of
            (response, w) \<Rightarrow>
          (case natural of
             Some reason \<Rightarrow> (Ok (True, res\<lparr>spec_reason := reason\<rparr>, m), w)
           | None \<Rightarrow>
               if response = Break then (Ok (True, res\<lparr>spec_reason := Cancelled\<rparr>, m), w)
               else case poll ctl w of
                 (True, w) \<Rightarrow> (Ok (True, res\<lparr>spec_reason := Cancelled\<rparr>, m), w)
               | (False, w) \<Rightarrow> (Ok (False, res, m), w)))"

text \<open>\<open>for _ in 0..count\<close>: a candidate, its distribution, the draft fed with it.\<close>

fun propose_loop ::
  "('d, 'k, 'f::linorder) spec_model \<Rightarrow> 'w control \<Rightarrow> ('g, 'f, 'p) policy option \<Rightarrow> int list \<Rightarrow> nat
   \<Rightarrow> nat \<Rightarrow> int list \<times> 'p list list \<Rightarrow> 'd \<times> 'f row \<times> 'g
   \<Rightarrow> ('w, (unit, (int list \<times> 'p list list) \<times> 'd \<times> 'f row \<times> 'g) part_end) generation_op" where
  "propose_loop draft ctl policy eos vocabulary 0 proposed d w = (Ok (Go (proposed, d)), w)"
| "propose_loop draft ctl policy eos vocabulary (Suc n) (candidates, qs) (cache, row, g) w =
     (case poll ctl w of
        (True, w) \<Rightarrow> (Ok (Leave ()), w)
      | (False, w) \<Rightarrow>
      (case propose policy g row of
         (Err e, _) \<Rightarrow> (Err e, w)
       | (Panic, _) \<Rightarrow> (Panic, w)
       | (Ok (token, q), g) \<Rightarrow>
       (case next_row draft vocabulary [token] cache of
          Err e \<Rightarrow> (Err e, w)
        | Panic \<Rightarrow> (Panic, w)
        | Ok (row, cache) \<Rightarrow>
            let proposed = (candidates @ [token], qs @ [q]); d = (cache, row, g) in
            if token \<in> set eos then (Ok (Go (proposed, d)), w)
            else propose_loop draft ctl policy eos vocabulary n proposed d w)))"

text \<open>The slice \<open>rows[index * vocabulary..(index + 1) * vocabulary]\<close>, a panic out of range.\<close>

definition row_at :: "nat \<Rightarrow> 'f row \<Rightarrow> nat \<Rightarrow> 'f row option" where
  "row_at vocabulary rows index =
     (if (index + 1) * vocabulary \<le> length rows
      then Some (take vocabulary (drop (index * vocabulary) rows)) else None)"

text \<open>
  The loop over the candidates. It ends with the committed tokens and whether the last of
  them is a correction.
\<close>

fun verify_loop ::
  "'w control \<Rightarrow> 'w callback \<Rightarrow> ('g, 'f::linorder, 'p) policy option \<Rightarrow> int list \<Rightarrow> nat \<Rightarrow> nat
   \<Rightarrow> 'f row \<Rightarrow> 'f row \<Rightarrow> nat \<Rightarrow> (int \<times> 'p list) list \<Rightarrow> int list \<Rightarrow> spec_result \<Rightarrow> int matcher \<Rightarrow> 'g
   \<Rightarrow> ('w, (spec_result, (int list \<times> bool) \<times> spec_result \<times> int matcher \<times> 'g) part_end) generation_op" where
  "verify_loop ctl on_token policy eos limit vocabulary first rows index [] committed res m g w =
     (Ok (Go ((committed, False), res, m, g)), w)"
| "verify_loop ctl on_token policy eos limit vocabulary first rows index ((candidate, q) # rest) committed res m g w =
     (case (if index = 0 then Some first else row_at vocabulary rows (index - 1)) of
        None \<Rightarrow> (Panic, w)
      | Some p \<Rightarrow>
      (case verify policy g candidate q p of
         (Err e, _) \<Rightarrow> (Err e, w)
       | (Panic, _) \<Rightarrow> (Panic, w)
       | (Ok (token, accepted), g) \<Rightarrow>
         let res = (if accepted
                    then res\<lparr>stats := (stats res)\<lparr>accepted_tokens := accepted_tokens (stats res) + 1\<rparr>\<rparr>
                    else res\<lparr>stats := (stats res)\<lparr>rejected_blocks := rejected_blocks (stats res) + 1\<rparr>\<rparr>);
             committed = committed @ [token] in
         (case emit ctl on_token eos limit token res m w of
            (Err e, w) \<Rightarrow> (Err e, w)
          | (Panic, w) \<Rightarrow> (Panic, w)
          | (Ok (True, res, _), w) \<Rightarrow> (Ok (Leave res), w)
          | (Ok (False, res, m), w) \<Rightarrow>
              if \<not> accepted then (Ok (Go ((committed, True), res, m, g)), w)
              else verify_loop ctl on_token policy eos limit vocabulary first rows (index + 1) rest
                     committed res m g w)))"

fun replay_loop ::
  "('c, 'l, 'f) spec_model \<Rightarrow> ('d, 'k, 'f) spec_model \<Rightarrow> nat \<Rightarrow> int list \<Rightarrow> 'c \<times> 'f row \<Rightarrow> 'd \<times> 'f row
   \<Rightarrow> (generation_error, ('c \<times> 'f row) \<times> ('d \<times> 'f row)) res" where
  "replay_loop target draft vocabulary [] t d = Ok (t, d)"
| "replay_loop target draft vocabulary (token # rest) (tc, _) (dc, _) =
     (case next_row target vocabulary [token] tc of
        Err e \<Rightarrow> Err e
      | Panic \<Rightarrow> Panic
      | Ok (trow, tc) \<Rightarrow>
      (case next_row draft vocabulary [token] dc of
         Err e \<Rightarrow> Err e
       | Panic \<Rightarrow> Panic
       | Ok (drow, dc) \<Rightarrow> replay_loop target draft vocabulary rest (tc, trow) (dc, drow)))"

section \<open>The loop\<close>

text \<open>The target's forward of the whole block and the reading of its rows.\<close>

definition block_rows ::
  "('c, 'l, 'f) spec_model \<Rightarrow> nat \<Rightarrow> int list \<Rightarrow> 'c \<Rightarrow> (generation_error, 'f row \<times> 'c) res" where
  "block_rows mdl vocabulary candidates cache =
     (case try_forward_block mdl candidates cache of
        (Err e, _) \<Rightarrow> Err e
      | (Panic, _) \<Rightarrow> Panic
      | (Ok logits, cache) \<Rightarrow>
          if dims (base mdl) logits \<noteq> (1, length candidates, vocabulary)
          then Err (BadBlockLogits (dims (base mdl) logits))
          else (case all_rows mdl logits of
                  Ok rows \<Rightarrow> Ok (rows, cache)
                | Err e \<Rightarrow> Err e
                | Panic \<Rightarrow> Panic))"

definition count_round :: "nat \<Rightarrow> spec_result \<Rightarrow> spec_result" where
  "count_round proposed res =
     res\<lparr>stats := (stats res)\<lparr>rounds := rounds (stats res) + 1,
                             target_block_forwards := target_block_forwards (stats res) + 1,
                             proposed_tokens := proposed_tokens (stats res) + proposed\<rparr>\<rparr>"

text \<open>A block with a rejected candidate: both caches from before it, the committed prefix again.\<close>

definition undo_block ::
  "('c, 'l, 'f) spec_model \<Rightarrow> ('d, 'k, 'f) spec_model \<Rightarrow> nat \<Rightarrow> int list \<Rightarrow> ('c, 'd, 'f, 'g) spec_state
   \<Rightarrow> ('w, ('c, 'd, 'f, 'g) spec_state) generation_op" where
  "undo_block target draft vocabulary committed st w =
     (let res = (result st)\<lparr>stats := (stats (result st))\<lparr>replayed_prefix_tokens :=
           replayed_prefix_tokens (stats (result st)) + length committed\<rparr>\<rparr> in
      case replay_loop target draft vocabulary committed
             (target_cache st, target_next st) (draft_cache st, draft_next st) of
        Err e \<Rightarrow> (Err e, w)
      | Panic \<Rightarrow> (Panic, w)
      | Ok ((tc, trow), (dc, drow)) \<Rightarrow>
          (Ok (st\<lparr>result := res, target_cache := tc, target_next := trow,
                  draft_cache := dc, draft_next := drow\<rparr>), w))"

text \<open>A block accepted as a whole: the bonus token of the last row.\<close>

definition bonus_token ::
  "('c, 'l, 'f::linorder) spec_model \<Rightarrow> ('d, 'k, 'f) spec_model \<Rightarrow> 'w control \<Rightarrow> 'w callback
   \<Rightarrow> ('g, 'f, 'p) policy option \<Rightarrow> int list \<Rightarrow> nat \<Rightarrow> nat \<Rightarrow> 'f row \<Rightarrow> nat \<Rightarrow> ('c, 'd, 'f, 'g) spec_state
   \<Rightarrow> ('w, (spec_result, ('c, 'd, 'f, 'g) spec_state) part_end) generation_op" where
  "bonus_token target draft ctl on_token policy eos limit vocabulary rows block st w =
     (if (block - 1) * vocabulary > length rows then (Panic, w)
      else case propose policy (rng st) (drop ((block - 1) * vocabulary) rows) of
        (Err e, _) \<Rightarrow> (Err e, w)
      | (Panic, _) \<Rightarrow> (Panic, w)
      | (Ok (bonus, _), g) \<Rightarrow>
        let res = (result st)\<lparr>stats := (stats (result st))\<lparr>bonus_tokens := bonus_tokens (stats (result st)) + 1\<rparr>\<rparr> in
        (case emit ctl on_token eos limit bonus res (stops st) w of
           (Err e, w) \<Rightarrow> (Err e, w)
         | (Panic, w) \<Rightarrow> (Panic, w)
         | (Ok (True, res, _), w) \<Rightarrow> (Ok (Leave res), w)
         | (Ok (False, res, m), w) \<Rightarrow>
         (case next_row target vocabulary [bonus] (target_cache st) of
            Err e \<Rightarrow> (Err e, w)
          | Panic \<Rightarrow> (Panic, w)
          | Ok (trow, tc) \<Rightarrow>
          (case next_row draft vocabulary [bonus] (draft_cache st) of
             Err e \<Rightarrow> (Err e, w)
           | Panic \<Rightarrow> (Panic, w)
           | Ok (drow, dc) \<Rightarrow>
               (Ok (Go (st\<lparr>result := res, stops := m, target_cache := tc, target_next := trow,
                           draft_cache := dc, draft_next := drow, rng := g\<rparr>)), w)))))"

text \<open>The body of the \<open>while\<close> loop.\<close>

definition spec_round ::
  "('c, 'l, 'f::linorder) spec_model \<Rightarrow> ('d, 'k, 'f) spec_model \<Rightarrow> 'w control \<Rightarrow> 'w callback
   \<Rightarrow> ('g, 'f, 'p) spec_config \<Rightarrow> int list \<Rightarrow> nat \<Rightarrow> ('c, 'd, 'f, 'g) spec_state
   \<Rightarrow> ('w, (spec_result, ('c, 'd, 'f, 'g) spec_state) part_end) generation_op" where
  "spec_round target draft ctl on_token config eos vocabulary st w =
     (case poll ctl w of
        (True, w) \<Rightarrow> (Ok (Leave ((result st)\<lparr>spec_reason := Cancelled\<rparr>)), w)
      | (False, w) \<Rightarrow>
      let limit = spec_max_new_tokens config;
          block = min (draft_tokens config) (limit - length (generated_token_ids (spec_out (result st))));
          target_before = fork_cache target (target_cache st);
          draft_before = fork_cache draft (draft_cache st) in
      case propose_loop draft ctl (sampling config) eos vocabulary block ([], [])
             (draft_cache st, draft_next st, rng st) w of
        (Err e, w) \<Rightarrow> (Err e, w)
      | (Panic, w) \<Rightarrow> (Panic, w)
      | (Ok (Leave _), w) \<Rightarrow> (Ok (Leave ((result st)\<lparr>spec_reason := Cancelled\<rparr>)), w)
      | (Ok (Go ((candidates, qs), (dc, drow, g))), w) \<Rightarrow>
      (case block_rows target vocabulary candidates (target_cache st) of
         Err e \<Rightarrow> (Err e, w)
       | Panic \<Rightarrow> (Panic, w)
       | Ok (rows, tc) \<Rightarrow>
       let res = count_round (length candidates) (result st) in
       case poll ctl w of
         (True, w) \<Rightarrow> (Ok (Leave (res\<lparr>spec_reason := Cancelled\<rparr>)), w)
       | (False, w) \<Rightarrow>
       (case verify_loop ctl on_token (sampling config) eos limit vocabulary (target_next st) rows 0
               (zip candidates qs) [] res (stops st) g w of
          (Err e, w) \<Rightarrow> (Err e, w)
        | (Panic, w) \<Rightarrow> (Panic, w)
        | (Ok (Leave res), w) \<Rightarrow> (Ok (Leave res), w)
        | (Ok (Go ((committed, rejected), res, m, g)), w) \<Rightarrow>
            if rejected
            then (case undo_block target draft vocabulary committed
                         (st\<lparr>result := res, stops := m, target_cache := target_before,
                             draft_cache := draft_before, draft_next := drow, rng := g\<rparr>) w of
                    (Ok st, w) \<Rightarrow> (Ok (Go st), w)
                  | (Err e, w) \<Rightarrow> (Err e, w)
                  | (Panic, w) \<Rightarrow> (Panic, w))
            else bonus_token target draft ctl on_token (sampling config) eos limit vocabulary rows
                   (length candidates)
                   (st\<lparr>result := res, stops := m, target_cache := tc, draft_cache := dc,
                       draft_next := drow, rng := g\<rparr>) w)))"

text \<open>The turn of the loop: its condition, then the body; \<open>Leave\<close> is the way out.\<close>

definition spec_turn ::
  "('c, 'l, 'f::linorder) spec_model \<Rightarrow> ('d, 'k, 'f) spec_model \<Rightarrow> 'w control \<Rightarrow> 'w callback
   \<Rightarrow> ('g, 'f, 'p) spec_config \<Rightarrow> int list \<Rightarrow> nat \<Rightarrow> ('c, 'd, 'f, 'g) spec_state \<times> 'w
   \<Rightarrow> ((generation_error, spec_result) res \<times> 'w) + ('c, 'd, 'f, 'g) spec_state \<times> 'w" where
  "spec_turn target draft ctl on_token config eos vocabulary sw =
     (case sw of (st, w) \<Rightarrow>
      if \<not> length (generated_token_ids (spec_out (result st))) < spec_max_new_tokens config
      then Inl (Ok (result st), w)
      else case spec_round target draft ctl on_token config eos vocabulary st w of
        (Err e, w) \<Rightarrow> Inl (Err e, w)
      | (Panic, w) \<Rightarrow> Inl (Panic, w)
      | (Ok (Leave res), w) \<Rightarrow> Inl (Ok res, w)
      | (Ok (Go st), w) \<Rightarrow> Inr (st, w))"

partial_function (option) spec_loop ::
  "('c, 'l, 'f::linorder) spec_model \<Rightarrow> ('d, 'k, 'f) spec_model \<Rightarrow> 'w control \<Rightarrow> 'w callback
   \<Rightarrow> ('g, 'f, 'p) spec_config \<Rightarrow> int list \<Rightarrow> nat \<Rightarrow> ('c, 'd, 'f, 'g) spec_state \<times> 'w
   \<Rightarrow> ((generation_error, spec_result) res \<times> 'w) option" where
  "spec_loop target draft ctl on_token config eos vocabulary sw =
     (case spec_turn target draft ctl on_token config eos vocabulary sw of
        Inl r \<Rightarrow> Some r
      | Inr sw' \<Rightarrow> spec_loop target draft ctl on_token config eos vocabulary sw')"

definition no_stats :: spec_stats where
  "no_stats = \<lparr>rounds = 0, proposed_tokens = 0, accepted_tokens = 0, rejected_blocks = 0,
     bonus_tokens = 0, target_block_forwards = 0, replayed_prefix_tokens = 0\<rparr>"

text \<open>The checks before the first forward, in the order of the code.\<close>

definition spec_validate ::
  "causal_limits \<Rightarrow> causal_limits \<Rightarrow> int list \<Rightarrow> ('g, 'f, 'p) spec_config \<Rightarrow> 'w control
   \<Rightarrow> (generation_error, int list) res" where
  "spec_validate target_limits draft_limits prompt config ctl =
     (let ordinary = \<lparr>max_new_tokens = spec_max_new_tokens config,
                      eos_token_ids = spec_eos_token_ids config\<rparr> in
      case validate_generation target_limits prompt ordinary of
        Err e \<Rightarrow> Err e
      | Panic \<Rightarrow> Panic
      | Ok eos \<Rightarrow>
      (case validate_generation draft_limits prompt ordinary of
         Err e \<Rightarrow> Err e
       | Panic \<Rightarrow> Panic
       | Ok _ \<Rightarrow>
       if draft_tokens config = 0 \<or> vocab_size target_limits \<noteq> vocab_size draft_limits
       then Err BadSpeculation
       else case (if sampling config = None then Ok () else sampling_valid config) of
         Err e \<Rightarrow> Err e
       | Panic \<Rightarrow> Panic
       | Ok _ \<Rightarrow>
       (case control_validate (stop_token_sequences ctl) (vocab_size target_limits) of
          Err e \<Rightarrow> Err e
        | Panic \<Rightarrow> Panic
        | Ok _ \<Rightarrow> Ok eos)))"

definition start_speculation ::
  "('c, 'l, 'f) spec_model \<Rightarrow> ('d, 'k, 'f) spec_model \<Rightarrow> nat \<Rightarrow> int list \<Rightarrow> int list list \<Rightarrow> spec_result \<Rightarrow> 'g
   \<Rightarrow> (generation_error, ('c, 'd, 'f, 'g) spec_state) res" where
  "start_speculation target draft vocabulary prompt pats res g =
     (case matcher_new pats of
        None \<Rightarrow> Panic
      | Some m \<Rightarrow>
      (case next_row target vocabulary prompt (fresh_cache (base target)) of
         Err e \<Rightarrow> Err e
       | Panic \<Rightarrow> Panic
       | Ok (trow, tc) \<Rightarrow>
       (case next_row draft vocabulary prompt (fresh_cache (base draft)) of
          Err e \<Rightarrow> Err e
        | Panic \<Rightarrow> Panic
        | Ok (drow, dc) \<Rightarrow>
            Ok \<lparr>result = res, stops = m, target_cache = tc, draft_cache = dc, target_next = trow,
                draft_next = drow, rng = g\<rparr>)))"

definition generate_speculative ::
  "('c, 'l, 'f::linorder) spec_model \<Rightarrow> causal_limits \<Rightarrow> ('d, 'k, 'f) spec_model \<Rightarrow> causal_limits
   \<Rightarrow> int list \<Rightarrow> ('g, 'f, 'p) spec_config \<Rightarrow> 'w control \<Rightarrow> ('w, unit) generation_op \<Rightarrow> 'w callback \<Rightarrow> 'g
   \<Rightarrow> 'w \<Rightarrow> ((generation_error, spec_result) res \<times> 'w) option" where
  "generate_speculative target target_limits draft draft_limits prompt config ctl sync on_token g w =
     (case spec_validate target_limits draft_limits prompt config ctl of
        Err e \<Rightarrow> Some (Err e, w)
      | Panic \<Rightarrow> Some (Panic, w)
      | Ok eos \<Rightarrow>
      (case poll ctl w of (cancelled, w) \<Rightarrow>
       let res = \<lparr>spec_out = \<lparr>token_ids = prompt, generated_token_ids = [], stopped_on_eos = False\<rparr>,
                  spec_reason = (if cancelled then Cancelled else MaxNewTokens), stats = no_stats\<rparr> in
       if spec_max_new_tokens config = 0 then Some (Ok res, w)
       else case poll ctl w of
         (True, w) \<Rightarrow> Some (Ok res, w)
       | (False, w) \<Rightarrow>
       (case start_speculation target draft (vocab_size target_limits) prompt
               (stop_token_sequences ctl) res g of
          Err e \<Rightarrow> Some (Err e, w)
        | Panic \<Rightarrow> Some (Panic, w)
        | Ok st \<Rightarrow>
        (case spec_loop target draft ctl on_token config eos (vocab_size target_limits) (st, w) of
           Some (Ok res, w) \<Rightarrow> Some (bind_op sync (\<lambda>_. ret_op res) w)
         | r \<Rightarrow> r))))"

end
