(* ===== verification/SpeculativeInv.thy ===== *)
theory SpeculativeInv
  imports Speculative GenerationInv
begin

text \<open>
  Greedy speculation is greedy decoding: \<open>spec_generate_ref\<close> shows that the round loop
  returns, and with the tokens, the reason and the callbacks of the reference
  \<open>ref_generate\<close>, for any draft model that answers at all.

  \<open>lawful_rows\<close> states what is relied on: caches stand for histories, a fork stands for the
  same history, a block forward gives the row after each of its tokens. The draft has a
  next-token function of its own, unrelated to the target's.
\<close>

section \<open>Hypotheses\<close>

definition lawful_rows ::
  "('c, 'l, 'f::linorder) spec_model \<Rightarrow> causal_limits \<Rightarrow> ('c \<Rightarrow> int list \<Rightarrow> bool) \<Rightarrow> (int list \<Rightarrow> int) \<Rightarrow> bool" where
  "lawful_rows mdl limits rep nxt \<longleftrightarrow>
     rep (fresh_cache (base mdl)) []
     \<and> (\<forall>c h. rep c h \<longrightarrow> rep (fork_cache mdl c) h)
     \<and> (\<forall>c h ts. rep c h \<and> ts \<noteq> [] \<and> length (h @ ts) \<le> max_sequence_length limits \<longrightarrow>
          (\<exists>l c' row. try_forward (base mdl) ts c = (Ok l, c') \<and> rep c' (h @ ts)
             \<and> dims (base mdl) l = (1, 1, vocab_size limits) \<and> last_row mdl l = Ok row
             \<and> argmax row = Ok (nxt (h @ ts))))
     \<and> (\<forall>c h ts. rep c h \<and> ts \<noteq> [] \<and> length (h @ ts) \<le> max_sequence_length limits \<longrightarrow>
          (\<exists>l c' rows. try_forward_block mdl ts c = (Ok l, c') \<and> rep c' (h @ ts)
             \<and> dims (base mdl) l = (1, length ts, vocab_size limits) \<and> all_rows mdl l = Ok rows
             \<and> length rows = length ts * vocab_size limits
             \<and> (\<forall>i<length ts. argmax (take (vocab_size limits) (drop (i * vocab_size limits) rows))
                              = Ok (nxt (h @ take (i + 1) ts)))))"

text \<open>Only callbacks change the flag: a poll is a read.\<close>

definition poll_reads :: "'w control \<Rightarrow> bool" where
  "poll_reads ctl \<longleftrightarrow> (\<forall>w. snd (poll ctl w) = w)"

lemma poll_reads_one_shot: "poll_reads ctl \<Longrightarrow> one_shot ctl"
  unfolding poll_reads_def one_shot_def by (metis snd_conv)

lemma next_row_ok:
  assumes "lawful_rows mdl limits rep nxt" and "rep c h" and "ts \<noteq> []"
    and "length (h @ ts) \<le> max_sequence_length limits"
  obtains row c' where "next_row mdl (vocab_size limits) ts c = Ok (row, c')" "rep c' (h @ ts)"
    "argmax row = Ok (nxt (h @ ts))"
proof -
  from assms(1) [unfolded lawful_rows_def, THEN conjunct2, THEN conjunct2, THEN conjunct1, rule_format,
      OF conjI [OF assms(2) conjI [OF assms(3,4)]]]
  obtain l c' row where "try_forward (base mdl) ts c = (Ok l, c')" "rep c' (h @ ts)"
    "dims (base mdl) l = (1, 1, vocab_size limits)" "last_row mdl l = Ok row" "argmax row = Ok (nxt (h @ ts))"
    by (elim exE conjE) (rule that)
  then show ?thesis by (intro that [of row c']) (simp_all add: next_row_def)
qed

lemma block_rows_ok:
  assumes "lawful_rows mdl limits rep nxt" and "rep c h" and "ts \<noteq> []"
    and "length (h @ ts) \<le> max_sequence_length limits"
  obtains rows c' where "block_rows mdl (vocab_size limits) ts c = Ok (rows, c')" "rep c' (h @ ts)"
    "length rows = length ts * vocab_size limits"
    "\<And>i. i < length ts \<Longrightarrow> argmax (take (vocab_size limits) (drop (i * vocab_size limits) rows))
       = Ok (nxt (h @ take (i + 1) ts))"
proof -
  from assms(1) [unfolded lawful_rows_def, THEN conjunct2, THEN conjunct2, THEN conjunct2, rule_format,
      OF conjI [OF assms(2) conjI [OF assms(3,4)]]]
  obtain l c' rows where "try_forward_block mdl ts c = (Ok l, c')" "rep c' (h @ ts)"
    "dims (base mdl) l = (1, length ts, vocab_size limits)" "all_rows mdl l = Ok rows"
    "length rows = length ts * vocab_size limits"
    "\<forall>i<length ts. argmax (take (vocab_size limits) (drop (i * vocab_size limits) rows))
       = Ok (nxt (h @ take (i + 1) ts))"
    by (elim exE conjE) (rule that)
  then show ?thesis by (intro that [of rows c']) (simp_all add: block_rows_def)
qed

lemma lawful_fork: "lawful_rows mdl limits rep nxt \<Longrightarrow> rep c h \<Longrightarrow> rep (fork_cache mdl c) h"
  by (simp add: lawful_rows_def)

section \<open>One token\<close>

text \<open>
  \<open>spec_ends\<close>: what a part of the generation leaves, against the reference run from
  \<open>gs\<close> in \<open>w\<close>: the reference has returned the same, or it goes on from the tokens so far.
\<close>

definition reference ::
  "(int list \<Rightarrow> int) \<Rightarrow> 'w control \<Rightarrow> 'w callback \<Rightarrow> int list \<Rightarrow> nat \<Rightarrow> int list \<Rightarrow> int list \<Rightarrow> 'w
   \<Rightarrow> (int list \<times> Generation.finish_reason) \<times> 'w" where
  "reference nxt ctl on_token eos limit prompt gs w =
     ref_loop nxt ctl on_token eos limit prompt (limit - length gs) gs w"

definition left_with ::
  "int list \<Rightarrow> int list \<Rightarrow> spec_result \<Rightarrow> 'w \<Rightarrow> (int list \<times> Generation.finish_reason) \<times> 'w \<Rightarrow> bool" where
  "left_with eos prompt res w r \<longleftrightarrow>
     (case r of ((gs, reason), w') \<Rightarrow> spec_out res = out_of eos prompt gs \<and> spec_reason res = reason \<and> w' = w)"

text \<open>The tokens so far: fewer than the limit, no cancellation in sight.\<close>

definition going ::
  "'w control \<Rightarrow> int list \<Rightarrow> nat \<Rightarrow> int list \<Rightarrow> int list \<Rightarrow> spec_result \<Rightarrow> int matcher \<Rightarrow> 'w \<Rightarrow> bool" where
  "going ctl eos limit prompt gs res m w \<longleftrightarrow>
     length gs < limit \<and> spec_out res = out_of eos prompt gs
     \<and> matcher_at (stop_token_sequences ctl) gs m \<and> poll ctl w = (False, w)"

lemma going_stats: "going ctl eos limit prompt gs (res\<lparr>stats := x\<rparr>) m w = going ctl eos limit prompt gs res m w"
  by (simp add: going_def)

lemma emit_ref:
  fixes nxt :: "int list \<Rightarrow> int" and prompt :: "int list"
  assumes "poll_reads ctl" and "going ctl eos limit prompt gs res m w"
  defines "t \<equiv> nxt (prompt @ gs)"
  obtains (leave) res' m' w' where
      "emit ctl on_token eos limit t res m w = (Ok (True, res', m'), w')"
      "left_with eos prompt res' w' (reference nxt ctl on_token eos limit prompt gs w)"
  | (go) res' m' w' where
      "emit ctl on_token eos limit t res m w = (Ok (False, res', m'), w')"
      "going ctl eos limit prompt (gs @ [t]) res' m' w'"
      "reference nxt ctl on_token eos limit prompt gs w
       = reference nxt ctl on_token eos limit prompt (gs @ [t]) w'"
proof -
  let ?pats = "stop_token_sequences ctl"
  let ?gs = "gs @ [t]"
  have g: "length gs < limit" "spec_out res = out_of eos prompt gs" "matcher_at ?pats gs m" "poll ctl w = (False, w)"
    using assms(2) by (auto simp: going_def)
  obtain m' where m': "push m t = Some (m', first_stop ?pats ?gs)" "matcher_at ?pats ?gs m'"
    using push_at [OF g(3), of t] by blast
  let ?res = "res\<lparr>spec_out := out_of eos prompt ?gs\<rparr>"
  obtain response w2 where cb: "on_token (event_of eos ?pats limit ?gs) w = (response, w2)" by force
  obtain c where p: "poll ctl w2 = (c, w2)" using assms(1) unfolding poll_reads_def by (metis prod.collapse)
  have gen: "generated_token_ids (out_of eos prompt ?gs) = ?gs" by (simp add: out_of_def)
  have natural: "natural_stop eos limit t (first_stop ?pats ?gs) (length ?gs) = stop_reason eos ?pats limit ?gs"
    by (simp add: stop_reason_def)
  have n: "limit - length gs = Suc (limit - length ?gs)" using g(1) by simp
  have run: "reference nxt ctl on_token eos limit prompt gs w =
      (case stop_reason eos ?pats limit ?gs of
         Some reason \<Rightarrow> ((?gs, reason), w2)
       | None \<Rightarrow> if response = Break \<or> c then ((?gs, Cancelled), w2)
                else reference nxt ctl on_token eos limit prompt ?gs w2)"
    unfolding reference_def n ref_loop.simps g(4) Let_def t_def [symmetric]
    by (simp add: cb p del: length_append split: option.split)
  have out: "emit ctl on_token eos limit t res m w =
      (case stop_reason eos ?pats limit ?gs of
         Some reason \<Rightarrow> (Ok (True, ?res\<lparr>spec_reason := reason\<rparr>, m'), w2)
       | None \<Rightarrow> if response = Break \<or> c then (Ok (True, ?res\<lparr>spec_reason := Cancelled\<rparr>, m'), w2)
                else (Ok (False, ?res, m'), w2))"
    using cb p m'(1)
    by (cases "stop_reason eos ?pats limit ?gs"; cases c)
      (simp_all add: emit_def Let_def g(2) out_of_append gen natural event_of_def del: length_append)
  show ?thesis
  proof (cases "stop_reason eos ?pats limit ?gs")
    case (Some reason)
    show ?thesis by (rule leave, simp add: out Some) (simp add: run Some left_with_def)
  next
    case None
    show ?thesis
    proof (cases "response = Break \<or> c")
      case True
      show ?thesis by (rule leave, simp add: out None True) (use True in \<open>simp add: run None left_with_def\<close>)
    next
      case False
      show ?thesis
      proof (rule go)
        show "emit ctl on_token eos limit t res m w = (Ok (False, ?res, m'), w2)" using False by (simp add: out None)
        have "length ?gs \<noteq> limit" by (rule stop_reason_limit [OF None])
        then have "length ?gs < limit" using g(1) by simp
        then show "going ctl eos limit prompt ?gs ?res m' w2" using False p m'(2) by (simp add: going_def)
        show "reference nxt ctl on_token eos limit prompt gs w = reference nxt ctl on_token eos limit prompt ?gs w2"
          using False by (simp add: run None)
      qed
    qed
  qed
qed

section \<open>The draft's block\<close>

lemma propose_greedy: "argmax row = Ok t \<Longrightarrow> propose None g row = (Ok (t, []), g)"
  by (simp add: propose_def)

lemma propose_loop_ok:
  assumes "lawful_rows draft lim drep dnxt" and "vocabulary = vocab_size lim" and "poll ctl w = (False, w)"
    and "drep c (h @ cs)" and "argmax row = Ok (dnxt (h @ cs))" and "length qs = length cs"
    and "length (h @ cs) + n \<le> max_sequence_length lim"
  shows "\<exists>cs' qs' c' row'. propose_loop draft ctl None eos vocabulary n (cs, qs) (c, row, g) w
        = (Ok (Go ((cs', qs'), (c', row', g))), w)
      \<and> length qs' = length cs' \<and> length cs' \<le> length cs + n \<and> (n \<noteq> 0 \<longrightarrow> cs' \<noteq> [])
      \<and> drep c' (h @ cs') \<and> argmax row' = Ok (dnxt (h @ cs'))"
  using assms(4-)
proof (induction n arbitrary: cs qs c row)
  case 0
  then show ?case by simp
next
  case (Suc n)
  let ?t = "dnxt (h @ cs)"
  have "length ((h @ cs) @ [?t]) \<le> max_sequence_length lim" using Suc.prems(4) by simp
  from next_row_ok [OF assms(1) Suc.prems(1) _ this] obtain row' c' where
    row': "next_row draft vocabulary [?t] c = Ok (row', c')" "drep c' (h @ (cs @ [?t]))"
      "argmax row' = Ok (dnxt (h @ (cs @ [?t])))"
    unfolding assms(2) by auto
  have step: "propose_loop draft ctl None eos vocabulary (Suc n) (cs, qs) (c, row, g) w =
      (if ?t \<in> set eos then (Ok (Go ((cs @ [?t], qs @ [[]]), (c', row', g))), w)
       else propose_loop draft ctl None eos vocabulary n (cs @ [?t], qs @ [[]]) (c', row', g) w)"
    using assms(3) row'(1) by (simp add: propose_greedy [OF Suc.prems(2)] Let_def)
  show ?case
  proof (cases "?t \<in> set eos")
    case True
    then show ?thesis
      using step row'(2,3) Suc.prems(3)
      by (intro exI [of _ "cs @ [?t]"] exI [of _ "qs @ [[]]"] exI [of _ c'] exI [of _ row']) simp
  next
    case False
    have "length (qs @ [[]]) = length (cs @ [?t])" "length (h @ (cs @ [?t])) + n \<le> max_sequence_length lim"
      using Suc.prems(3,4) by simp_all
    from Suc.IH [OF row'(2,3) this] obtain cs' qs' c'' row'' where
      "propose_loop draft ctl None eos vocabulary n (cs @ [?t], qs @ [[]]) (c', row', g) w
        = (Ok (Go ((cs', qs'), (c'', row'', g))), w)"
      "length qs' = length cs'" "length cs' \<le> length (cs @ [?t]) + n"
      "drep c'' (h @ cs')" "argmax row'' = Ok (dnxt (h @ cs'))"
      and "n \<noteq> 0 \<longrightarrow> cs' \<noteq> []" by blast
    moreover have "cs' \<noteq> []"
    proof (cases n)
      case 0
      then show ?thesis using calculation(1) by auto
    qed (use calculation(6) in simp)
    ultimately show ?thesis
      using step False by (intro exI [of _ cs'] exI [of _ qs'] exI [of _ c''] exI [of _ row'']) simp
  qed
qed

section \<open>The target's verdict\<close>

lemma verify_greedy: "argmax row = Ok t \<Longrightarrow> verify None g c q row = (Ok (t, t = c), g)"
  by (simp add: verify_def)

text \<open>
  The candidates verified so far are \<open>committed\<close>, all of them greedy; the row for the next
  one selects the token of the reference.
\<close>

lemma verify_loop_ref:
  fixes nxt :: "int list \<Rightarrow> int" and prompt gs :: "int list" and w :: 'w
  assumes "poll_reads ctl" and "argmax first = Ok (nxt (prompt @ gs))"
    and "\<forall>i<length (committed @ map fst rest). \<exists>row. row_at vocabulary rows i = Some row
           \<and> argmax row = Ok (nxt (prompt @ gs @ take (i + 1) (committed @ map fst rest)))"
    and "going ctl eos limit prompt (gs @ committed) res m w"
  obtains (leave) res' w' where
      "verify_loop ctl on_token None eos limit vocabulary first rows (length committed) rest committed res m g w
       = (Ok (Leave res'), w')"
      "left_with eos prompt res' w' (reference nxt ctl on_token eos limit prompt (gs @ committed) w)"
  | (go) committed' rejected res' m' w' where
      "verify_loop ctl on_token None eos limit vocabulary first rows (length committed) rest committed res m g w
       = (Ok (Go ((committed', rejected), res', m', g)), w')"
      "going ctl eos limit prompt (gs @ committed') res' m' w'"
      "reference nxt ctl on_token eos limit prompt (gs @ committed) w
       = reference nxt ctl on_token eos limit prompt (gs @ committed') w'"
      "\<not> rejected \<Longrightarrow> committed' = committed @ map fst rest"
      "length committed \<le> length committed'" "rest \<noteq> [] \<Longrightarrow> committed' \<noteq> []"
proof -
  have "(\<exists>res' w'.
      verify_loop ctl on_token None eos limit vocabulary first rows (length committed) rest committed res m g w
       = (Ok (Leave res'), w')
      \<and> left_with eos prompt res' w' (reference nxt ctl on_token eos limit prompt (gs @ committed) w))
    \<or> (\<exists>committed' rejected res' m' w'.
      verify_loop ctl on_token None eos limit vocabulary first rows (length committed) rest committed res m g w
       = (Ok (Go ((committed', rejected), res', m', g)), w')
      \<and> going ctl eos limit prompt (gs @ committed') res' m' w'
      \<and> reference nxt ctl on_token eos limit prompt (gs @ committed) w
       = reference nxt ctl on_token eos limit prompt (gs @ committed') w'
      \<and> (\<not> rejected \<longrightarrow> committed' = committed @ map fst rest)
      \<and> length committed \<le> length committed' \<and> (rest \<noteq> [] \<longrightarrow> committed' \<noteq> []))"
    using assms(3,4)
  proof (induction rest arbitrary: committed res m w)
    case Nil
    then show ?case by (auto intro: exI [of _ False])
  next
    case (Cons cq rest)
    obtain c q where cq: "cq = (c, q)" by (cases cq)
    let ?t = "nxt (prompt @ gs @ committed)"
    let ?i = "length committed"
    have row: "\<exists>row. (if ?i = 0 then Some first else row_at vocabulary rows (?i - 1)) = Some row
        \<and> argmax row = Ok ?t"
    proof (cases "?i = 0")
      case True
      then show ?thesis using assms(2) by simp
    next
      case False
      then show ?thesis using Cons.prems(1) [rule_format, of "?i - 1"] by (auto simp: Suc_diff_1)
    qed
    then obtain row where row: "(if ?i = 0 then Some first else row_at vocabulary rows (?i - 1)) = Some row"
      "argmax row = Ok ?t" by blast
    let ?res = "if ?t = c
        then res\<lparr>stats := (stats res)\<lparr>accepted_tokens := accepted_tokens (stats res) + 1\<rparr>\<rparr>
        else res\<lparr>stats := (stats res)\<lparr>rejected_blocks := rejected_blocks (stats res) + 1\<rparr>\<rparr>"
    have now: "going ctl eos limit prompt (gs @ committed) ?res m w"
      using Cons.prems(2) by (cases "?t = c") (simp_all add: going_stats)
    have step: "verify_loop ctl on_token None eos limit vocabulary first rows ?i (cq # rest) committed res m g w =
        (case emit ctl on_token eos limit ?t ?res m w of
            (Err e, w) \<Rightarrow> (Err e, w)
          | (Panic, w) \<Rightarrow> (Panic, w)
          | (Ok (True, res, _), w) \<Rightarrow> (Ok (Leave res), w)
          | (Ok (False, res, m), w) \<Rightarrow>
              if \<not> (?t = c) then (Ok (Go ((committed @ [?t], True), res, m, g)), w)
              else verify_loop ctl on_token None eos limit vocabulary first rows (?i + 1) rest
                     (committed @ [?t]) res m g w)"
      unfolding cq verify_loop.simps row(1) option.case verify_greedy [OF row(2)] prod.case res.case Let_def
      by (rule refl)
    have assoc: "(gs @ committed) @ [?t] = gs @ (committed @ [?t])" by simp
    show ?case
    proof (cases rule: emit_ref [OF assms(1) now, of on_token nxt, case_names leave go])
      case (leave res' m' w')
      then show ?thesis unfolding step by auto
    next
      case (go res' m' w')
      show ?thesis
      proof (cases "?t = c")
        case False
        then show ?thesis
          using go(2,3) unfolding step go(1) assoc
          by (intro disjI2 exI [of _ "committed @ [?t]"] exI [of _ True] exI [of _ res'] exI [of _ m'] exI [of _ w'])
            simp
      next
        case True
        have all: "(committed @ [?t]) @ map fst rest = committed @ map fst (cq # rest)"
          using True by (simp add: cq)
        have "verify_loop ctl on_token None eos limit vocabulary first rows ?i (cq # rest) committed res m g w
          = verify_loop ctl on_token None eos limit vocabulary first rows (length (committed @ [?t])) rest
              (committed @ [?t]) res' m' g w'"
          unfolding step go(1) using True by simp
        moreover note Cons.IH [of "committed @ [?t]" res' m' w', unfolded all, OF Cons.prems(1) go(2) [unfolded assoc]]
        ultimately show ?thesis
          using go(3) unfolding assoc by (elim disjE exE conjE) (force, fastforce)
      qed
    qed
  qed
  then show ?thesis using leave go by blast
qed

section \<open>A round\<close>

lemma replay_loop_ok:
  assumes "lawful_rows target tlim trep nxt" and "lawful_rows draft dlim drep dnxt"
    and "vocabulary = vocab_size tlim" and "vocabulary = vocab_size dlim"
    and "trep tc h" and "drep dc h"
    and "length (h @ ts) \<le> max_sequence_length tlim" and "length (h @ ts) \<le> max_sequence_length dlim"
    and "ts \<noteq> [] \<or> argmax trow = Ok (nxt h) \<and> argmax drow = Ok (dnxt h)"
  shows "\<exists>tc' trow' dc' drow'. replay_loop target draft vocabulary ts (tc, trow) (dc, drow)
        = Ok ((tc', trow'), (dc', drow'))
      \<and> trep tc' (h @ ts) \<and> drep dc' (h @ ts)
      \<and> argmax trow' = Ok (nxt (h @ ts)) \<and> argmax drow' = Ok (dnxt (h @ ts))"
  using assms(5-)
proof (induction ts arbitrary: h tc trow dc drow)
  case Nil
  then show ?case by simp
next
  case (Cons t ts)
  have "length (h @ [t]) \<le> max_sequence_length tlim" "length (h @ [t]) \<le> max_sequence_length dlim"
    using Cons.prems(3,4) by simp_all
  note room = this
  from next_row_ok [OF assms(1) Cons.prems(1) _ room(1)] obtain trow' tc' where
    t: "next_row target vocabulary [t] tc = Ok (trow', tc')" "trep tc' (h @ [t])" "argmax trow' = Ok (nxt (h @ [t]))"
    unfolding assms(3) by auto
  from next_row_ok [OF assms(2) Cons.prems(2) _ room(2)] obtain drow' dc' where
    d: "next_row draft vocabulary [t] dc = Ok (drow', dc')" "drep dc' (h @ [t])" "argmax drow' = Ok (dnxt (h @ [t]))"
    unfolding assms(4) by auto
  from Cons.IH [OF t(2) d(2), of trow' drow'] show ?case
    using t d Cons.prems(3,4) by auto
qed

text \<open>The state between two rounds.\<close>

definition between ::
  "('c \<Rightarrow> int list \<Rightarrow> bool) \<Rightarrow> (int list \<Rightarrow> int) \<Rightarrow> ('d \<Rightarrow> int list \<Rightarrow> bool) \<Rightarrow> (int list \<Rightarrow> int)
   \<Rightarrow> 'w control \<Rightarrow> int list \<Rightarrow> nat \<Rightarrow> int list \<Rightarrow> int list
   \<Rightarrow> ('c, 'd, 'f::linorder, 'g) spec_state \<Rightarrow> 'w \<Rightarrow> bool" where
  "between trep nxt drep dnxt ctl eos limit prompt gs st w \<longleftrightarrow>
     going ctl eos limit prompt gs (result st) (stops st) w
     \<and> trep (target_cache st) (prompt @ gs) \<and> argmax (target_next st) = Ok (nxt (prompt @ gs))
     \<and> drep (draft_cache st) (prompt @ gs) \<and> argmax (draft_next st) = Ok (dnxt (prompt @ gs))"

lemma row_at_ok:
  assumes "length rows = n * vocabulary" and "i < n"
  shows "row_at vocabulary rows i = Some (take vocabulary (drop (i * vocabulary) rows))"
proof -
  have "Suc i * vocabulary \<le> n * vocabulary" using assms(2) by (intro mult_le_mono1) simp
  then show ?thesis using assms(1) by (simp add: row_at_def)
qed

text \<open>After a block accepted as a whole.\<close>

lemma bonus_token_ref:
  fixes nxt :: "int list \<Rightarrow> int" and prompt gs :: "int list" and w :: 'w
    and st :: "('c, 'd, 'f::linorder, 'g) spec_state"
  assumes "lawful_rows target tlim trep nxt" and "lawful_rows draft dlim drep dnxt"
    and "vocabulary = vocab_size tlim" and "vocabulary = vocab_size dlim" and "poll_reads ctl"
    and "going ctl eos limit prompt gs (result st) (stops st) w"
    and "trep (target_cache st) (prompt @ gs)" and "drep (draft_cache st) (prompt @ gs)"
    and "length prompt + limit \<le> max_sequence_length tlim" and "length prompt + limit \<le> max_sequence_length dlim"
    and "length rows = block * vocabulary" and "block \<noteq> 0"
    and "argmax (take vocabulary (drop ((block - 1) * vocabulary) rows)) = Ok (nxt (prompt @ gs))"
  obtains (leave) res' w' where
      "bonus_token target draft ctl on_token (None :: ('g, 'f, 'p) policy option) eos limit
         vocabulary rows block st w = (Ok (Leave res'), w')"
      "left_with eos prompt res' w' (reference nxt ctl on_token eos limit prompt gs w)"
  | (go) st' w' where
      "bonus_token target draft ctl on_token (None :: ('g, 'f, 'p) policy option) eos limit
         vocabulary rows block st w = (Ok (Go st'), w')"
      "between trep nxt drep dnxt ctl eos limit prompt (gs @ [nxt (prompt @ gs)]) st' w'"
      "reference nxt ctl on_token eos limit prompt gs w
       = reference nxt ctl on_token eos limit prompt (gs @ [nxt (prompt @ gs)]) w'"
proof -
  let ?t = "nxt (prompt @ gs)"
  obtain k where k: "block = Suc k" using assms(12) by (cases block) auto
  have whole: "drop ((block - 1) * vocabulary) rows = take vocabulary (drop ((block - 1) * vocabulary) rows)"
    using assms(11) k by simp
  have arg: "argmax (drop ((block - 1) * vocabulary) rows) = Ok ?t"
    using assms(13) whole by simp
  have inside: "\<not> (block - 1) * vocabulary > length rows" using assms(11) k by simp
  let ?res = "(result st)\<lparr>stats := (stats (result st))\<lparr>bonus_tokens := bonus_tokens (stats (result st)) + 1\<rparr>\<rparr>"
  have g: "going ctl eos limit prompt gs ?res (stops st) w" unfolding going_stats by (rule assms(6))
  have lt: "length gs < limit" using g by (simp add: going_def)
  have "length ((prompt @ gs) @ [?t]) \<le> max_sequence_length tlim"
    "length ((prompt @ gs) @ [?t]) \<le> max_sequence_length dlim" using assms(9,10) lt by simp_all
  note room = this
  from next_row_ok [OF assms(1,7) _ room(1)] obtain trow tc where
    t: "next_row target vocabulary [?t] (target_cache st) = Ok (trow, tc)" "trep tc (prompt @ gs @ [?t])"
      "argmax trow = Ok (nxt (prompt @ gs @ [?t]))"
    unfolding assms(3) by auto
  from next_row_ok [OF assms(2,8) _ room(2)] obtain drow dc where
    d: "next_row draft vocabulary [?t] (draft_cache st) = Ok (drow, dc)" "drep dc (prompt @ gs @ [?t])"
      "argmax drow = Ok (dnxt (prompt @ gs @ [?t]))"
    unfolding assms(4) by auto
  note parts = bonus_token_def Let_def propose_greedy [OF arg] inside
  show ?thesis
  proof (cases rule: emit_ref [OF assms(5) g, of on_token nxt, case_names Leave Go])
    case (Leave res' m' w')
    show ?thesis
      by (rule leave [OF _ Leave(2)], simp only: parts) (use Leave(1) in simp)
  next
    case (Go res' m' w')
    show ?thesis
    proof (rule go)
      let ?st = "st\<lparr>result := res', stops := m', target_cache := tc, target_next := trow,
          draft_cache := dc, draft_next := drow, rng := rng st\<rparr>"
      show "bonus_token target draft ctl on_token None eos limit vocabulary rows block st w = (Ok (Go ?st), w')"
        by (simp only: parts) (use Go(1) t(1) d(1) in simp)
      show "between trep nxt drep dnxt ctl eos limit prompt (gs @ [?t]) ?st w'"
        using Go(2) t(2,3) d(2,3) by (simp add: between_def)
    qed (rule Go(3))
  qed
qed

text \<open>The two models, their limits and the request.\<close>

definition speculation ::
  "('c, 'l, 'f::linorder) spec_model \<Rightarrow> causal_limits \<Rightarrow> ('c \<Rightarrow> int list \<Rightarrow> bool) \<Rightarrow> (int list \<Rightarrow> int)
   \<Rightarrow> ('d, 'k, 'f) spec_model \<Rightarrow> causal_limits \<Rightarrow> ('d \<Rightarrow> int list \<Rightarrow> bool) \<Rightarrow> (int list \<Rightarrow> int)
   \<Rightarrow> int list \<Rightarrow> ('g, 'f, 'p) spec_config \<Rightarrow> bool" where
  "speculation target tlim trep nxt draft dlim drep dnxt prompt config \<longleftrightarrow>
     lawful_rows target tlim trep nxt \<and> lawful_rows draft dlim drep dnxt
     \<and> vocab_size tlim = vocab_size dlim \<and> sampling config = None \<and> draft_tokens config \<noteq> 0
     \<and> prompt \<noteq> []
     \<and> length prompt + spec_max_new_tokens config \<le> max_sequence_length tlim
     \<and> length prompt + spec_max_new_tokens config \<le> max_sequence_length dlim"

lemma spec_round_ref:
  fixes config :: "('g, 'f::linorder, 'p) spec_config" and w :: 'w and nxt dnxt :: "int list \<Rightarrow> int"
  assumes "speculation target tlim trep nxt draft dlim drep dnxt prompt config" and "poll_reads ctl"
    and "between trep nxt drep dnxt ctl eos (spec_max_new_tokens config) prompt gs st w"
  obtains (leave) res' w' where
      "spec_round target draft ctl on_token config eos (vocab_size tlim) st w = (Ok (Leave res'), w')"
      "left_with eos prompt res' w' (reference nxt ctl on_token eos (spec_max_new_tokens config) prompt gs w)"
  | (go) st' w' gs' where
      "spec_round target draft ctl on_token config eos (vocab_size tlim) st w = (Ok (Go st'), w')"
      "between trep nxt drep dnxt ctl eos (spec_max_new_tokens config) prompt gs' st' w'"
      "length gs < length gs'"
      "reference nxt ctl on_token eos (spec_max_new_tokens config) prompt gs w
       = reference nxt ctl on_token eos (spec_max_new_tokens config) prompt gs' w'"
proof -
  let ?V = "vocab_size tlim" and ?limit = "spec_max_new_tokens config"
  note sp = assms(1) [unfolded speculation_def]
  have lt: "lawful_rows target tlim trep nxt" and ld: "lawful_rows draft dlim drep dnxt"
    and V: "?V = vocab_size dlim" and greedy: "sampling config = None" and some: "draft_tokens config \<noteq> 0"
    and roomt: "length prompt + ?limit \<le> max_sequence_length tlim"
    and roomd: "length prompt + ?limit \<le> max_sequence_length dlim" using sp by auto
  have st: "going ctl eos ?limit prompt gs (result st) (stops st) w" "trep (target_cache st) (prompt @ gs)"
    "argmax (target_next st) = Ok (nxt (prompt @ gs))" "drep (draft_cache st) (prompt @ gs)"
    "argmax (draft_next st) = Ok (dnxt (prompt @ gs))"
    using assms(3) by (auto simp: between_def)
  have len: "length gs < ?limit" and p: "poll ctl w = (False, w)"
    and out: "generated_token_ids (spec_out (result st)) = gs"
    using st(1) by (auto simp: going_def out_of_def)
  define block where "block = min (draft_tokens config) (?limit - length gs)"
  have block: "block \<noteq> 0" "length gs + block \<le> ?limit" using len some by (auto simp: block_def)
  have "length ((prompt @ gs) @ []) + block \<le> max_sequence_length dlim" using block(2) roomd by simp
  from propose_loop_ok [OF ld V p, of "draft_cache st" "prompt @ gs" "[]" "draft_next st" "[] :: 'p list list" block eos "rng st"] this
  obtain cs dc drow and qs :: "'p list list" where
    proposed: "propose_loop draft ctl (None :: ('g, 'f, 'p) policy option) eos ?V block ([], []) (draft_cache st, draft_next st, rng st) w
        = (Ok (Go ((cs, qs), (dc, drow, rng st))), w)"
    and qs: "length qs = length cs" and cs: "length cs \<le> block" "cs \<noteq> []"
    and dc: "drep dc ((prompt @ gs) @ cs)" "argmax drow = Ok (dnxt ((prompt @ gs) @ cs))"
    using st(4,5) block(1) by auto
  have "length ((prompt @ gs) @ cs) \<le> max_sequence_length tlim" using cs(1) block(2) roomt by simp
  from block_rows_ok [OF lt st(2) cs(2) this] obtain rows tc where
    rows: "block_rows target ?V cs (target_cache st) = Ok (rows, tc)" "trep tc ((prompt @ gs) @ cs)"
      "length rows = length cs * ?V"
      "\<And>i. i < length cs \<Longrightarrow> argmax (take ?V (drop (i * ?V) rows)) = Ok (nxt ((prompt @ gs) @ take (i + 1) cs))"
    by blast
  let ?res = "count_round (length cs) (result st)"
  have zip: "map fst (zip cs qs) = cs" using qs by simp
  have now: "going ctl eos ?limit prompt (gs @ []) ?res (stops st) w"
    using st(1) by (simp add: count_round_def going_stats)
  have row: "\<forall>i<length ([] @ map fst (zip cs qs)). \<exists>row. row_at ?V rows i = Some row
      \<and> argmax row = Ok (nxt (prompt @ gs @ take (i + 1) ([] @ map fst (zip cs qs))))"
    using row_at_ok [OF rows(3)] rows(4) by (simp add: zip)
  have head: "spec_round target draft ctl on_token config eos ?V st w =
      (case verify_loop ctl on_token None eos ?limit ?V (target_next st) rows 0 (zip cs qs) [] ?res (stops st) (rng st) w of
          (Err e, w) \<Rightarrow> (Err e, w)
        | (Panic, w) \<Rightarrow> (Panic, w)
        | (Ok (Leave res), w) \<Rightarrow> (Ok (Leave res), w)
        | (Ok (Go ((committed, rejected), res, m, g)), w) \<Rightarrow>
            if rejected
            then (case undo_block target draft ?V committed
                         (st\<lparr>result := res, stops := m, target_cache := fork_cache target (target_cache st),
                             draft_cache := fork_cache draft (draft_cache st), draft_next := drow, rng := g\<rparr>) w of
                    (Ok st, w) \<Rightarrow> (Ok (Go st), w)
                  | (Err e, w) \<Rightarrow> (Err e, w)
                  | (Panic, w) \<Rightarrow> (Panic, w))
            else bonus_token target draft ctl on_token (None :: ('g, 'f, 'p) policy option) eos ?limit ?V
                   rows (length cs)
                   (st\<lparr>result := res, stops := m, target_cache := tc, draft_cache := dc,
                       draft_next := drow, rng := g\<rparr>) w)"
    unfolding spec_round_def Let_def out block_def [symmetric] greedy p prod.case bool.case proposed
    by (simp add: rows(1) p)
  show ?thesis
  proof (cases rule: verify_loop_ref [OF assms(2) st(3) row now, of on_token "rng st", case_names Left Gone])
    case (Left res' w')
    note Leave = Left [unfolded append_Nil2 list.size]
    show ?thesis by (rule leave [OF _ Leave(2)]) (simp add: head Leave(1))
  next
    case (Gone committed rejected res' m' w')
    note Go = Gone(1-3) [unfolded append_Nil2 list.size] and Go' = Gone(4-6) [unfolded append_Nil]
    have cne: "committed \<noteq> []" using Go'(3) cs(2) qs by (cases cs; cases qs) auto
    show ?thesis
    proof (cases rejected)
      case True
      let ?st = "st\<lparr>result := res', stops := m', target_cache := fork_cache target (target_cache st),
          draft_cache := fork_cache draft (draft_cache st), draft_next := drow\<rparr>"
      have "length committed + length gs < ?limit" using Go(2) by (simp add: going_def)
      then have "length ((prompt @ gs) @ committed) \<le> max_sequence_length tlim"
        "length ((prompt @ gs) @ committed) \<le> max_sequence_length dlim" using roomt roomd by simp_all
      note room = this
      from replay_loop_ok [OF lt ld refl V lawful_fork [OF lt st(2)] lawful_fork [OF ld st(4)] room,
          of "target_next ?st" "draft_next ?st"]
      obtain tc' trow' dc' drow' where rep:
        "replay_loop target draft ?V committed (fork_cache target (target_cache st), target_next st)
           (fork_cache draft (draft_cache st), drow) = Ok ((tc', trow'), (dc', drow'))"
        "trep tc' ((prompt @ gs) @ committed)" "drep dc' ((prompt @ gs) @ committed)"
        "argmax trow' = Ok (nxt ((prompt @ gs) @ committed))" "argmax drow' = Ok (dnxt ((prompt @ gs) @ committed))"
        using cne by auto
      let ?fin = "st\<lparr>result := res'\<lparr>stats := (stats res')\<lparr>replayed_prefix_tokens :=
            replayed_prefix_tokens (stats res') + length committed\<rparr>\<rparr>, stops := m',
          target_cache := tc', draft_cache := dc', target_next := trow', draft_next := drow'\<rparr>"
      show ?thesis
      proof (rule go)
        show "spec_round target draft ctl on_token config eos ?V st w = (Ok (Go ?fin), w')"
          using True rep(1) by (simp add: head Go(1) undo_block_def Let_def)
        show "between trep nxt drep dnxt ctl eos ?limit prompt (gs @ committed) ?fin w'"
          using Go(2) rep by (simp add: between_def going_stats)
        show "length gs < length (gs @ committed)" using cne by simp
      qed (rule Go(3))
    next
      case False
      let ?st = "st\<lparr>result := res', stops := m', target_cache := tc, draft_cache := dc, draft_next := drow\<rparr>"
      have all: "committed = cs" using Go'(1) [OF False] zip by simp
      have g: "going ctl eos ?limit prompt (gs @ cs) (result ?st) (stops ?st) w'"
        "trep (target_cache ?st) (prompt @ gs @ cs)" "drep (draft_cache ?st) (prompt @ gs @ cs)"
        using Go(2) all rows(2) dc(1) by simp_all
      have "length cs \<noteq> 0" using cs(2) by simp
      have last: "argmax (take ?V (drop ((length cs - 1) * ?V) rows)) = Ok (nxt (prompt @ gs @ cs))"
        using rows(4) [of "length cs - 1"] cs(2) by (simp add: Suc_diff_1)
      show ?thesis
      proof (cases rule: bonus_token_ref [OF lt ld refl V assms(2) g roomt roomd rows(3) \<open>length cs \<noteq> 0\<close> last,
            where 'p = 'p and on_token = on_token, case_names Left Gone])
        case (Left res'' w'')
        show ?thesis
        proof (rule leave)
          show "spec_round target draft ctl on_token config eos ?V st w = (Ok (Leave res''), w'')"
            using False Left(1) by (simp add: head Go(1))
          show "left_with eos prompt res'' w'' (reference nxt ctl on_token eos ?limit prompt gs w)"
            unfolding Go(3) all by (rule Left(2))
        qed
      next
        case (Gone st'' w'')
        show ?thesis
        proof (rule go)
          show "spec_round target draft ctl on_token config eos ?V st w = (Ok (Go st''), w'')"
            using False Gone(1) by (simp add: head Go(1))
          show "between trep nxt drep dnxt ctl eos ?limit prompt ((gs @ cs) @ [nxt (prompt @ gs @ cs)]) st'' w''"
            by (rule Gone(2))
          show "length gs < length ((gs @ cs) @ [nxt (prompt @ gs @ cs)])" by simp
          show "reference nxt ctl on_token eos ?limit prompt gs w
              = reference nxt ctl on_token eos ?limit prompt ((gs @ cs) @ [nxt (prompt @ gs @ cs)]) w''"
            unfolding Go(3) all by (rule Gone(3))
        qed
      qed
    qed
  qed
qed

section \<open>The loop\<close>

lemma spec_loop_ref:
  fixes config :: "('g, 'f::linorder, 'p) spec_config" and w :: 'w and nxt dnxt :: "int list \<Rightarrow> int"
  assumes "speculation target tlim trep nxt draft dlim drep dnxt prompt config" and "poll_reads ctl"
    and "between trep nxt drep dnxt ctl eos (spec_max_new_tokens config) prompt gs st w"
  shows "\<exists>res' w'. spec_loop target draft ctl on_token config eos (vocab_size tlim) (st, w) = Some (Ok res', w')
    \<and> left_with eos prompt res' w' (reference nxt ctl on_token eos (spec_max_new_tokens config) prompt gs w)"
  using assms(3)
proof (induction "spec_max_new_tokens config - length gs" arbitrary: gs st w rule: less_induct)
  case less
  have cond: "length (generated_token_ids (spec_out (result st))) < spec_max_new_tokens config"
    using less.prems by (simp add: between_def going_def out_of_def)
  show ?case
  proof (cases rule: spec_round_ref [OF assms(1,2) less.prems, of on_token, case_names Left Gone])
    case (Left res' w')
    have "spec_loop target draft ctl on_token config eos (vocab_size tlim) (st, w) = Some (Ok res', w')"
      by (subst spec_loop.simps) (use cond Left(1) in \<open>simp add: spec_turn_def\<close>)
    with Left(2) show ?thesis by blast
  next
    case (Gone st' w' gs')
    have "spec_loop target draft ctl on_token config eos (vocab_size tlim) (st, w)
        = spec_loop target draft ctl on_token config eos (vocab_size tlim) (st', w')"
      by (subst spec_loop.simps) (use cond Gone(1) in \<open>simp add: spec_turn_def\<close>)
    moreover have "length gs' < spec_max_new_tokens config" using Gone(2) by (simp add: between_def going_def)
    then have "spec_max_new_tokens config - length gs' < spec_max_new_tokens config - length gs"
      using Gone(3) by simp
    ultimately show ?thesis using less.hyps [OF _ Gone(2)] Gone(4) by simp
  qed
qed

section \<open>Greedy speculation is greedy decoding\<close>

definition plain_result ::
  "(generation_error, spec_result) res \<times> 'w \<Rightarrow> (generation_error, token_output \<times> Generation.finish_reason) res \<times> 'w" where
  "plain_result r =
     (case r of
        (Ok res, w) \<Rightarrow> (Ok (spec_out res, spec_reason res), w)
      | (Err e, w) \<Rightarrow> (Err e, w)
      | (Panic, w) \<Rightarrow> (Panic, w))"

theorem spec_generate_ref:
  fixes config :: "('g, 'f::linorder, 'p) spec_config" and w :: 'w and nxt dnxt :: "int list \<Rightarrow> int"
  assumes sp: "speculation target tlim trep nxt draft dlim drep dnxt prompt config" and reads: "poll_reads ctl"
    and valid: "spec_validate tlim dlim prompt config ctl = Ok eos"
  shows "map_option plain_result
      (generate_speculative target tlim draft dlim prompt config ctl sync on_token g w)
    = Some (ref_generate nxt ctl on_token eos (spec_max_new_tokens config) prompt sync w)"
proof -
  let ?V = "vocab_size tlim" and ?limit = "spec_max_new_tokens config"
  obtain b where p: "poll ctl w = (b, w)" using reads unfolding poll_reads_def by (metis prod.collapse)
  show ?thesis
  proof (cases "?limit = 0 \<or> b")
    case True
    then show ?thesis
      using p by (auto simp: generate_speculative_def valid Let_def ref_generate_def plain_result_def
          out_of_Nil [of prompt eos])
  next
    case False
    then have p: "poll ctl w = (False, w)" using p by simp
    have lt: "lawful_rows target tlim trep nxt" and ld: "lawful_rows draft dlim drep dnxt" and ne: "prompt \<noteq> []"
      and V: "?V = vocab_size dlim"
      and "length ([] @ prompt) \<le> max_sequence_length tlim" "length ([] @ prompt) \<le> max_sequence_length dlim"
      using sp by (auto simp: speculation_def)
    note room = this(5,6)
    have "control_validate (stop_token_sequences ctl) ?V = Ok ()"
      using valid by (auto simp: spec_validate_def Let_def split: res.splits if_splits)
    then obtain m where m: "matcher_new (stop_token_sequences ctl) = Some m"
      "matcher_at (stop_token_sequences ctl) [] m"
      using matcher_new_at [of "stop_token_sequences ctl"] by (auto simp: control_validate_Ok)
    have fresh: "trep (fresh_cache (base target)) []" "drep (fresh_cache (base draft)) []"
      using lt ld by (simp_all add: lawful_rows_def)
    from next_row_ok [OF lt fresh(1) ne room(1)] obtain trow tc where
      t: "next_row target ?V prompt (fresh_cache (base target)) = Ok (trow, tc)" "trep tc prompt"
        "argmax trow = Ok (nxt prompt)" by auto
    from next_row_ok [OF ld fresh(2) ne room(2)] obtain drow dc where
      d: "next_row draft ?V prompt (fresh_cache (base draft)) = Ok (drow, dc)" "drep dc prompt"
        "argmax drow = Ok (dnxt prompt)" unfolding V by auto
    let ?res = "\<lparr>spec_out = out_of eos prompt [], spec_reason = MaxNewTokens, stats = no_stats\<rparr>"
    let ?st = "\<lparr>result = ?res, stops = m, target_cache = tc, draft_cache = dc, target_next = trow,
        draft_next = drow, rng = g\<rparr>"
    have start: "start_speculation target draft ?V prompt (stop_token_sequences ctl) ?res g = Ok ?st"
      by (simp add: start_speculation_def m(1) t(1) d(1))
    have "between trep nxt drep dnxt ctl eos ?limit prompt [] ?st w"
      using False m(2) p t d by (simp add: between_def going_def)
    from spec_loop_ref [OF sp reads this, of on_token] obtain res' w' where
      loop: "spec_loop target draft ctl on_token config eos ?V (?st, w) = Some (Ok res', w')"
        "left_with eos prompt res' w' (reference nxt ctl on_token eos ?limit prompt [] w)" by blast
    obtain gs r w2 where ref: "ref_loop nxt ctl on_token eos ?limit prompt ?limit [] w = ((gs, r), w2)"
      by (metis prod.exhaust)
    have same: "spec_out res' = out_of eos prompt gs" "spec_reason res' = r" "w' = w2"
      using loop(2) ref by (simp_all add: left_with_def reference_def)
    show ?thesis
      using False p start loop(1) ref same
      by (simp add: generate_speculative_def valid Let_def ref_generate_def out_of_Nil [of prompt eos]
          bind_op_def plain_result_def split: prod.splits res.splits)
  qed
qed

end
