(* ===== verification/GenerationProps.thy ===== *)
theory GenerationProps
  imports SessionRecord SpeculativeInv
begin

text \<open>
  The properties of the decoders: stop sequences, streaming, sessions, saved sessions and
  speculation. Each is applied at a small model whose cache is the list of its tokens.
\<close>

section \<open>A small model\<close>

definition demo_next :: "int list \<Rightarrow> int" where
  "demo_next h = (if even (length h) then 0 else 1)"

definition toy_row :: "int list \<Rightarrow> nat row" where
  "toy_row h = (if even (length h) then [Some 1, Some 0] else [None, Some 1])"

definition demo_causal :: "(int list, nat row list) causal_model" where
  "demo_causal = \<lparr>fresh_cache = [], try_forward = (\<lambda>ts c. (Ok [toy_row (c @ ts)], c @ ts)),
     dims = (\<lambda>l. (1, length l, 2)), same_device = (\<lambda>_. True), greedy_token = (\<lambda>l. argmax (last l))\<rparr>"

definition demo_target :: "(int list, nat row list, nat) spec_model" where
  "demo_target = \<lparr>base = demo_causal, fork_cache = (\<lambda>c. c),
     try_forward_block = (\<lambda>ts c. (Ok (map (\<lambda>i. toy_row (c @ take (i + 1) ts)) [0..<length ts]), c @ ts)),
     last_row = (\<lambda>l. Ok (last l)), all_rows = (\<lambda>l. Ok (concat l))\<rparr>"

definition demo_limits :: causal_limits where
  "demo_limits = \<lparr>vocab_size = 2, max_sequence_length = 16\<rparr>"

definition demo_generation :: greedy_generation where
  "demo_generation = \<lparr>max_new_tokens = 4, eos_token_ids = [0]\<rparr>"

definition demo_control :: "unit control" where
  "demo_control = \<lparr>stop_token_sequences = [[1, 1]], poll = (\<lambda>w. (False, w))\<rparr>"

abbreviation demo_sync :: "(unit, unit) generation_op" where
  "demo_sync \<equiv> \<lambda>w. (Ok (), w)"

abbreviation demo_callback :: "unit callback" where
  "demo_callback \<equiv> \<lambda>_ w. (Continue, w)"

lemma demo_argmax: "argmax (toy_row h) = Ok (demo_next h)"
  by (simp add: toy_row_def demo_next_def argmax_def)

lemma demo_lawful: "lawful demo_causal demo_limits (=) demo_next"
  by (auto simp: lawful_def demo_causal_def demo_limits_def good_logits_def demo_argmax outside_def demo_next_def)

lemma demo_accepted: "accepted demo_limits [1] demo_generation demo_control [0]"
  by (simp add: accepted_def validate_generation_Ok control_validate_Ok demo_limits_def demo_generation_def
      demo_control_def outside_def i32_max_def usize_max_def)

lemma demo_one_shot: "one_shot demo_control"
  by (simp add: one_shot_def demo_control_def)

lemma length_toy_row [simp]: "length (toy_row h) = 2"
  by (simp add: toy_row_def)

lemma concat_rows:
  assumes "i < length ts"
  shows "take 2 (drop (i * 2) (concat (map (\<lambda>i. toy_row (f i)) [0..<length ts]))) = toy_row (f i)"
  using assms
proof (induction ts rule: rev_induct)
  case (snoc t ts)
  have len: "length (concat (map (\<lambda>i. toy_row (f i)) [0..<n])) = n * 2" for n
    by (induction n) simp_all
  show ?case
  proof (cases "i < length ts")
    case True
    then have "i * 2 + 2 \<le> length ts * 2" by simp
    then show ?thesis using snoc.IH [OF True] by (simp add: len)
  next
    case False
    then have "i = length ts" using snoc.prems by simp
    then show ?thesis by (simp add: len)
  qed
qed simp

lemma demo_lawful_rows: "lawful_rows demo_target demo_limits (=) demo_next"
proof -
  have "length (concat (map (\<lambda>i. toy_row (h @ take (i + 1) ts)) [0..<n])) = n * 2" for h ts n
    by (induction n) simp_all
  then show ?thesis
    by (auto simp: lawful_rows_def demo_target_def demo_causal_def demo_limits_def demo_argmax concat_rows)
qed

section \<open>Stop sequences\<close>

text \<open>C20: The stop matcher finds exactly the stop sequences: built from any patterns without an
  empty one and fed with any tokens, neither its tables nor its steps panic or run forever, and
  after each token it answers with the first pattern that ends the tokens fed so far.\<close>

theorem matcher_finds_first_stop:
  assumes "[] \<notin> set pats"
  shows "\<exists>m m'. matcher_new pats = Some m
    \<and> push_all m ts = Some (m', map (\<lambda>n. first_stop pats (take n ts)) [1..<Suc (length ts)])"
  using matcher_new_at [OF assms] push_all_at [of pats "[]" _ ts] by fastforce

lemma matcher_finds_first_stop_witness:
  "\<exists>m m'. matcher_new [[1, 2, 1], [2, 1, 2], [1 :: int]] = Some m
    \<and> push_all m [1, 2, 1, 2] = Some (m', [Some 2, None, Some 0, Some 1])"
proof -
  have "map (\<lambda>n. first_stop [[1, 2, 1], [2, 1, 2], [1 :: int]] (take n [1, 2, 1, 2])) [1..<Suc (length [1, 2, 1, 2 :: int])]
      = [Some 2, None, Some 0, Some 1]"
    by (simp add: first_stop_def upt_rec suffix_def append_eq_Cons_conv)
  moreover have "[] \<notin> set [[1, 2, 1], [2, 1, 2], [1 :: int]]" by simp
  ultimately show ?thesis
    using matcher_finds_first_stop [of "[[1, 2, 1], [2, 1, 2], [1 :: int]]" "[1, 2, 1, 2]"] by simp
qed

section \<open>Streaming\<close>

text \<open>C21: Streaming greedy generation of a lawful model either fails in the final device
  synchronisation or returns the prompt followed by greedy tokens of the whole history: none
  before the last one is an end token, completes a stop sequence or reaches the limit, and the
  reason is that of the last token (end token, then the first stop sequence, then length) or a
  cancellation, which needs a flag or a break of the callback.\<close>

theorem stream_decodes_greedily:
  assumes "lawful mdl lim rep nxt" and "one_shot ctl" and "accepted lim prompt gen ctl ends"
    and "\<forall>w. fst (sync w) \<noteq> Panic"
  shows "wp (generate_causal_greedy_stream mdl lim prompt gen ctl sync on_token)
     (\<lambda>(out, reason) w'. \<exists>gs. out = out_of ends prompt gs
        \<and> greedy_result nxt ends (stop_token_sequences ctl) (max_new_tokens gen) prompt gs reason
        \<and> (quiet ctl on_token \<longrightarrow> reason \<noteq> Cancelled))
     (\<lambda>e w'. \<exists>w''. sync w'' = (Err e, w')) w"
proof -
  have no: "\<not> (\<exists>w w'. sync w = (Panic, w'))" using assms(4) by (metis fst_conv)
  have same: "generate_causal_greedy_stream mdl lim prompt gen ctl sync on_token
      = ref_generate nxt ctl on_token ends (max_new_tokens gen) prompt sync"
    by (rule ext) (rule generate_greedy_ref [OF assms(1-3)])
  show ?thesis
    unfolding same by (rule ref_generate_outcome [THEN disjE]) (assumption | use no in blast)+
qed

lemma stream_decodes_greedily_witness:
  "wp (generate_causal_greedy_stream demo_causal demo_limits [1] demo_generation demo_control demo_sync demo_callback)
     (\<lambda>(out, reason) w'. \<exists>gs. out = out_of [0] [1] gs
        \<and> greedy_result demo_next [0] [[1, 1]] 4 [1] gs reason \<and> reason \<noteq> Cancelled)
     (\<lambda>e w'. False) ()"
  by (rule wp_conseq [OF stream_decodes_greedily [OF demo_lawful demo_one_shot demo_accepted]])
    (auto simp: demo_control_def demo_generation_def quiet_def)

section \<open>Sessions\<close>

text \<open>C22: A session driven to its end is the same computation as streaming generation: for a
  lawful model, an accepted request and a one-shot cancellation flag, the session loop returns,
  with the output, the finish reason, the callbacks, the polls and the final synchronisation of
  \<open>generate_causal_greedy_stream\<close>.\<close>

theorem session_is_stream:
  assumes "lawful mdl lim rep nxt" and "one_shot ctl" and "accepted lim prompt gen ctl ends"
  shows "session_generate mdl lim prompt gen ctl sync sample on_token w
    = Some (generate_causal_greedy_stream mdl lim prompt gen ctl sync on_token w)"
  using session_generate_ref [OF assms(1,3)] generate_greedy_ref [OF assms] by simp

lemma session_is_stream_witness:
  "session_generate demo_causal demo_limits [1] demo_generation demo_control demo_sync
     (\<lambda>s l p g. (Ok 0, s :: unit)) demo_callback ()
    = Some (generate_causal_greedy_stream demo_causal demo_limits [1] demo_generation demo_control
        demo_sync demo_callback ())"
  by (rule session_is_stream [OF demo_lawful demo_one_shot demo_accepted])

text \<open>C23: Sessions stay well-formed, whatever the model, the sampler and the logits processor
  do. A step of a well-formed session that succeeds leaves a well-formed session, in which output,
  matcher, pending input, logits, consumed inputs and finish reason belong to one history: it
  appended the token it reports and ended the request exactly when it says so, or appended nothing
  to a request that is over. An error is kept in the session and returned again by the next step.
  A step panics only if the request is open and one of the calls it makes panics on the very
  arguments it is given: the forward of the pending token, the processor on the logits of the
  history, or the sampler (the greedy choice, without one) on what the processor returned.\<close>

theorem session_steps_wellformed:
  assumes "session_wf mdl ctl s" and "session_step mdl ctl sample processor (s, w) = (r, (t, w'))"
  shows "case r of
      Ok q \<Rightarrow> session_wf mdl ctl t
        \<and> (case q of
             None \<Rightarrow> gens t = gens s \<and> finish_reason t \<noteq> None
           | Some st \<Rightarrow> gens t = gens s @ [step_token st] \<and> finish_reason t = step_reason st)
    | Err e \<Rightarrow> fault t = Some e \<and> session_step mdl ctl sample processor (t, w') = (Err e, (t, w'))
    | Panic \<Rightarrow> finish_reason s = None \<and> callee_panics mdl ctl sample processor s w"
proof (cases r)
  case (Ok q)
  then show ?thesis using session_step_wf [OF assms] session_step_output [OF assms(1)] assms(2) by auto
next
  case (Err e)
  then show ?thesis using session_step_wf [OF assms] by (auto simp: session_step_sticky)
next
  case Panic
  then show ?thesis using session_step_panics [OF assms(1)] assms(2) by simp
qed

definition demo_session :: "(int list, nat row list, unit) session" where
  "demo_session =
     (case new_greedy demo_causal demo_limits [1] demo_generation demo_control () of
        (Ok s, _) \<Rightarrow> s | _ \<Rightarrow> undefined)"

lemma demo_session_new:
  "new_greedy demo_causal demo_limits [1] demo_generation demo_control () = (Ok demo_session, ())
   \<and> finish_reason demo_session = None"
proof -
  obtain s :: "(int list, nat row list, unit) session" where
    "new_greedy demo_causal demo_limits [1] demo_generation demo_control () = (Ok s, ())"
    "finish_reason s = None"
    using new_greedy_linked [OF demo_lawful demo_accepted, of "()" False "()"]
    by (auto simp: demo_control_def demo_generation_def)
  then show ?thesis by (simp add: demo_session_def)
qed

lemma demo_session_wf: "session_wf demo_causal demo_control demo_session"
  by (rule new_with_prefix_wf [THEN conjunct1])
    (rule demo_session_new [THEN conjunct1, unfolded new_greedy_def new_session_def])

lemma demo_session_eq:
  "cache demo_session = [1] \<and> processed_tokens demo_session = 1 \<and> logits demo_session = Some [toy_row [1]]
   \<and> sampler demo_session = None \<and> limits demo_session = demo_limits \<and> pending_input demo_session = None"
proof -
  obtain m where m: "matcher_new [[1, 1 :: int]] = Some m" using matcher_new_at [of "[[1, 1]]"] by auto
  have "new_greedy demo_causal demo_limits [1] demo_generation demo_control ()
      = (Ok ((empty_session demo_causal demo_limits [1] demo_generation None [0] m None)
          \<lparr>cache := [1], logits := Some [toy_row [1]], processed_tokens := 1\<rparr>
          :: (int list, nat row list, unit) session), ())"
    using m demo_accepted
    by (simp add: new_greedy_def new_session_def new_with_prefix_def accepted_def prefill_session_def
        Let_def demo_control_def demo_generation_def)
      (simp add: demo_causal_def check_logits_def demo_limits_def empty_session_def)
  then have eq: "demo_session = (empty_session demo_causal demo_limits [1] demo_generation None [0] m None)
          \<lparr>cache := [1], logits := Some [toy_row [1]], processed_tokens := 1\<rparr>"
    using demo_session_new by simp
  show ?thesis unfolding eq by (simp add: empty_session_def)
qed

lemma session_steps_wellformed_witness:
  "case session_step demo_causal demo_control (\<lambda>s l p g. (Ok 0, s)) None (demo_session, ()) of
     (Ok (Some st), (t, w)) \<Rightarrow> session_wf demo_causal demo_control t \<and> gens t = gens demo_session @ [step_token st]
   | (Ok None, (t, w)) \<Rightarrow> session_wf demo_causal demo_control t \<and> finish_reason t \<noteq> None
   | (Err e, (t, w)) \<Rightarrow> fault t = Some e
   | (Panic, (t, w)) \<Rightarrow> False"
proof -
  obtain r t w where step: "session_step demo_causal demo_control (\<lambda>s l p g. (Ok 0, s)) None (demo_session, ()) = (r, (t, w))"
    by (metis prod.exhaust)
  have "greedy_token demo_causal [toy_row [1]] \<noteq> Panic" by (simp add: demo_causal_def demo_argmax)
  then have "\<not> callee_panics demo_causal demo_control (\<lambda>s l p g. (Ok 0, s)) None demo_session ()"
    using demo_session_eq by (simp add: callee_panics_def next_logits_def)
  with session_steps_wellformed [OF demo_session_wf step] show ?thesis
    unfolding step by (simp split: res.splits option.splits)
qed

text \<open>C24: Saving loses nothing: a well-formed session whose native records round-trip is saved
  without an error, and restoring the record with the same model identity, limits and controls
  gives back that very session, the stop matcher included, which is not saved but rebuilt.\<close>

theorem session_roundtrip:
  assumes "session_wf mdl ctl s" and "codec_ok mdl cd model_id s" and "model_id \<noteq> []"
    and "(if processed_tokens s > 0 then sync w else (Ok (), w)) = (Ok (), w')"
  shows "\<exists>rc. record_session cd sync ctl model_id (s, w) = (Ok rc, (s, w'))
    \<and> restore_session mdl cd (limits s) model_id ctl rc = Ok s"
proof -
  have "fault s = None" using assms(1) by (simp add: session_wf_def)
  show ?thesis
  proof (rule record_session_Ok [where sync = sync and w = w and w' = w' and ctl = ctl,
        OF assms(2,3) \<open>fault s = None\<close> assms(4)])
  qed (intro exI conjI, assumption, rule restore_saved [OF assms(1-3)], assumption+)
qed

definition demo_codec :: "(int list, nat row list, unit, int list, nat row list, unit) codec" where
  "demo_codec = \<lparr>generation_position = length, capture_generation = (\<lambda>c _. Ok c),
     restore_generation = (\<lambda>c _ _ _. Ok c), into_data = (\<lambda>l. Ok l), from_data = (\<lambda>l. l),
     data_shape = (\<lambda>l. [1, length l, 2]), data_float = (\<lambda>_. True), data_dtype_size = (\<lambda>_. 4),
     data_bytes = (\<lambda>l. length l * 2 * 4), to_state = (\<lambda>s. s), from_state = Ok\<rparr>"

lemma demo_codec_ok: "codec_ok demo_causal demo_codec ''m'' demo_session"
  using demo_session_eq
  by (simp add: codec_ok_def demo_codec_def demo_causal_def check_data_def checked_mul_def usize_max_def
      demo_limits_def)

lemma session_roundtrip_witness:
  "\<exists>rc. record_session demo_codec demo_sync demo_control ''m'' (demo_session, ()) = (Ok rc, (demo_session, ()))
    \<and> restore_session demo_causal demo_codec demo_limits ''m'' demo_control rc = Ok demo_session"
  using session_roundtrip [OF demo_session_wf demo_codec_ok, of demo_sync "()" "()"] demo_session_eq
  by simp

section \<open>Speculation\<close>

text \<open>C25: Greedy speculation returns what plain greedy decoding of the target model returns:
  whatever tokens a draft model proposes, the round loop ends, and the tokens, the finish reason,
  the callbacks and the synchronisation are those of \<open>generate_causal_greedy_stream\<close>. Rejected
  candidates never reach the output, the callback or the caches of the next round.\<close>

theorem speculation_is_greedy:
  assumes "speculation target tlim trep nxt draft dlim drep dnxt prompt config"
    and "lawful (base target) tlim trep' nxt" and "poll_reads ctl"
    and "spec_validate tlim dlim prompt config ctl = Ok ends"
  shows "map_option plain_result
      (generate_speculative target tlim draft dlim prompt config ctl sync on_token g w)
    = Some (generate_causal_greedy_stream (base target) tlim prompt
        \<lparr>max_new_tokens = spec_max_new_tokens config, eos_token_ids = spec_eos_token_ids config\<rparr>
        ctl sync on_token w)"
proof -
  let ?gen = "\<lparr>max_new_tokens = spec_max_new_tokens config, eos_token_ids = spec_eos_token_ids config\<rparr>"
  have "accepted tlim prompt ?gen ctl ends"
    using assms(4) by (auto simp: spec_validate_def accepted_def Let_def split: res.splits if_splits)
  from generate_greedy_ref [OF assms(2) poll_reads_one_shot [OF assms(3)] this]
  show ?thesis using spec_generate_ref [OF assms(1,3,4)] by simp
qed

text \<open>A draft that always proposes token 0.\<close>

definition demo_draft :: "(nat, nat, nat) spec_model" where
  "demo_draft = \<lparr>base = \<lparr>fresh_cache = 0, try_forward = (\<lambda>ts c. (Ok 1, c + length ts)),
       dims = (\<lambda>l. (1, l, 2)), same_device = (\<lambda>_. True), greedy_token = (\<lambda>_. Ok 0)\<rparr>,
     fork_cache = (\<lambda>c. c), try_forward_block = (\<lambda>ts c. (Ok (length ts), c + length ts)),
     last_row = (\<lambda>_. Ok [Some 1, Some 0]), all_rows = (\<lambda>n. Ok (concat (replicate n [Some 1, Some 0])))\<rparr>"

definition demo_config :: "(unit, nat, unit) spec_config" where
  "demo_config = \<lparr>spec_max_new_tokens = 4, spec_eos_token_ids = [], draft_tokens = 2, sampling = None,
     sampling_valid = Ok ()\<rparr>"

lemma demo_draft_lawful: "lawful_rows demo_draft demo_limits (\<lambda>n h. n = length h) (\<lambda>_. 0)"
proof -
  have "take 2 (drop (i * 2) (concat (replicate n [Some (1 :: nat), Some 0]))) = [Some 1, Some 0]" if "i < n" for i n
    using that
  proof (induction n arbitrary: i)
    case (Suc n)
    then show ?case by (cases i) auto
  qed simp
  moreover have "length (concat (replicate n [Some (1 :: nat), Some 0])) = n * 2" for n by (induction n) auto
  ultimately show ?thesis
    by (auto simp: lawful_rows_def demo_draft_def demo_limits_def argmax_def)
qed

lemma demo_speculation:
  "speculation demo_target demo_limits (=) demo_next demo_draft demo_limits (\<lambda>n h. n = length h) (\<lambda>_. 0)
     [1] demo_config"
  by (simp add: speculation_def demo_lawful_rows demo_draft_lawful demo_config_def) (simp add: demo_limits_def)

lemma speculation_is_greedy_witness:
  "map_option plain_result
      (generate_speculative demo_target demo_limits demo_draft demo_limits [1] demo_config demo_control
         demo_sync demo_callback () ())
    = Some (generate_causal_greedy_stream demo_causal demo_limits [1]
        \<lparr>max_new_tokens = 4, eos_token_ids = []\<rparr> demo_control demo_sync demo_callback ())"
proof -
  have base: "base demo_target = demo_causal" by (simp add: demo_target_def)
  have valid: "spec_validate demo_limits demo_limits [1] demo_config demo_control = Ok []"
    by (simp add: spec_validate_def Let_def demo_config_def validate_generation_def demo_limits_def
        checked_add_def usize_max_def i32_max_def outside_def demo_control_def control_validate_def)
  have reads: "poll_reads demo_control" by (simp add: poll_reads_def demo_control_def)
  show ?thesis
    using speculation_is_greedy [OF demo_speculation demo_lawful [folded base] reads valid,
        of demo_sync demo_callback "()" "()"]
    by (simp add: base demo_config_def)
qed

end
