(* ===== verification/PrefixCacheProps.thy ===== *)
theory PrefixCacheProps
  imports PrefixPrefill GenerationProps
begin

text \<open>
  The properties of the tiered prefix cache, each applied at the small model of
  \<open>GenerationProps\<close> with a store whose disk is a list of numbered files.
\<close>

section \<open>A small store\<close>

text \<open>The world lists the files written so far; file names are numbers.\<close>

type_synonym disk = "(nat \<times> bytes) list"

definition demo_store :: "(int list, nat row list, nat, disk) store" where
  "demo_store = \<lparr>encode = (\<lambda>(v, m, l, ts, r, d). Ok (map of_int ts)),
     decode_bytes = (\<lambda>bs. Ok (1, ''m'', demo_limits, map uint bs, map uint bs, [toy_row (map uint bs)])),
     remove_file = (\<lambda>f w. (Ok (), filter (\<lambda>e. fst e \<noteq> f) w)),
     read_file = (\<lambda>f w. (case map_of w f of Some bs \<Rightarrow> Ok bs | None \<Rightarrow> Err ''missing'', w)),
     create_new = (\<lambda>f w. (Created, (f, []) # w)),
     write_sync = (\<lambda>f bs w. (Ok (), (f, bs) # w)), path_at = (\<lambda>n. n),
     create_dir = (\<lambda>w. (Ok (), w)), read_dir = (\<lambda>w. (Ok [], w)), device_sync = (\<lambda>w. (Ok (), w))\<rparr>"

definition demo_tiers :: cache_config where
  "demo_tiers = \<lparr>block_tokens = 2, max_device_entries = 1, max_host_bytes = 2, has_disk_directory = True,
     max_disk_bytes = 4\<rparr>"

abbreviation demo_whole :: "bytes \<Rightarrow> bool" where
  "demo_whole \<equiv> \<lambda>_. True"

abbreviation demo_sound :: "(int list, nat row list) prefilled \<Rightarrow> bool" where
  "demo_sound \<equiv> sound_prefix demo_causal (=) demo_next"

lemma demo_create: "create_file demo_store n w = Some (Ok n, (n, []) # w)"
  by (subst create_file.simps) (simp add: demo_store_def)

lemma demo_store_total: "store_total demo_codec demo_store"
  unfolding store_total_def demo_create
  by (auto simp: demo_store_def demo_codec_def split: option.split)

lemma demo_store_faithful: "store_faithful demo_causal demo_codec demo_store demo_sound demo_whole ''m'' demo_limits"
  by (auto simp: store_faithful_def restore_prefix_def demo_store_def demo_codec_def sound_prefix_def Let_def
      demo_causal_def demo_argmax split: if_splits)

lemma demo_tiers_ok: "config_ok demo_tiers"
  by (simp add: config_ok_def demo_tiers_def usize_max_def)

lemma demo_prefix_model: "prefix_model demo_causal demo_codec demo_limits (=) demo_next"
  using demo_lawful by (auto simp: prefix_model_def demo_codec_def demo_causal_def demo_limits_def usize_max_def)

definition demo_prefix :: "int list \<Rightarrow> (int list, nat row list) prefilled" where
  "demo_prefix ts = \<lparr>pre_model_id = ''m'', pre_limits = demo_limits, pre_tokens = ts, pre_cache = ts,
     pre_logits = [toy_row ts]\<rparr>"

lemma demo_prefix_sound: "demo_sound (demo_prefix ts)"
  by (simp add: demo_prefix_def sound_prefix_def demo_causal_def demo_argmax)

abbreviation demo_cache :: "(int list, nat row list, nat) tiered" where
  "demo_cache \<equiv> empty_cache ''m'' demo_limits demo_tiers"

lemma demo_cache_kept:
  "kept demo_causal (generation_position demo_codec) demo_sound demo_whole ''m'' demo_limits demo_tiers demo_cache"
  by (rule kept_empty)

section \<open>Counters and budgets\<close>

text \<open>C27: The tiered prefix cache keeps its books: opened from its directory, and after every
  insertion and lookup, failed ones included, its keys are sorted and distinct, the device and
  host counters are the number and the bytes of their entries, the disk counter covers the disk
  entries and stays in its budget, and device prefixes belong to their keys. No operation
  panics, and an insertion that succeeds leaves a cache within all budgets if it was.\<close>

theorem prefix_cache_keeps_books:
  fixes mdl :: "('c, 'l) causal_model" and st :: "('r, 'd, 'p, 'w) store"
  assumes "store_total cd st" and "store_faithful mdl cd st good whole mid lim"
    and "max_disk_bytes cf < usize_max" and "\<forall>w. fst (create_dir st w) \<noteq> Panic"
  shows "wp (new_cache st mid lim cf)
      (\<lambda>s _. config_ok cf \<and> kept mdl (generation_position cd) good whole mid lim cf s) (\<lambda>_ _. True) w
    \<and> (\<forall>s p prompt. config_ok cf \<and> kept mdl (generation_position cd) good whole mid lim cf s \<and> good p \<longrightarrow>
        wp (insert_prefix mdl cd st p)
          (\<lambda>_ (s', _). kept mdl (generation_position cd) good whole mid lim cf s'
             \<and> (within_budget s \<longrightarrow> within_budget s'))
          (\<lambda>_ (s', _). kept mdl (generation_position cd) good whole mid lim cf s') (s, w)
        \<and> wp (lookup_prefix mdl cd st prompt)
          (\<lambda>_ (s', _). kept mdl (generation_position cd) good whole mid lim cf s'
             \<and> (within_budget s \<longrightarrow> within_budget s'))
          (\<lambda>_ _. False) (s, w))"
proof (intro conjI allI impI)
  have "wp (new_cache st mid lim cf)
      (\<lambda>s _. mid \<noteq> [] \<and> config_ok cf \<and> kept mdl (generation_position cd) good whole mid lim cf s) (\<lambda>_ _. True) w"
    by (rule new_cache_wp [OF assms(1,3)]) (use assms(4) in blast)
  then show "wp (new_cache st mid lim cf)
      (\<lambda>s _. config_ok cf \<and> kept mdl (generation_position cd) good whole mid lim cf s) (\<lambda>_ _. True) w"
    by (rule wp_conseq) blast+
next
  fix s :: "('c, 'l, 'p) tiered" and p and prompt :: "int list"
  assume s: "config_ok cf \<and> kept mdl (generation_position cd) good whole mid lim cf s \<and> good p"
  show "wp (insert_prefix mdl cd st p)
      (\<lambda>_ (s', _). kept mdl (generation_position cd) good whole mid lim cf s' \<and> (within_budget s \<longrightarrow> within_budget s'))
      (\<lambda>_ (s', _). kept mdl (generation_position cd) good whole mid lim cf s') (s, w)"
    using s by (elim conjE) (rule insert_prefix_wp [OF assms(1) _ _ _ assms(2)])
  have k: "kept mdl (generation_position cd) good whole mid lim cf s" using s by (elim conjE)
  show "wp (lookup_prefix mdl cd st prompt)
      (\<lambda>_ (s', _). kept mdl (generation_position cd) good whole mid lim cf s' \<and> (within_budget s \<longrightarrow> within_budget s'))
      (\<lambda>_ _. False) (s, w)"
    by (rule wp_conseq [OF lookup_prefix_wp [OF assms(1,2) k]]) (simp_all add: case_prod_unfold)
qed

lemma prefix_cache_keeps_books_witness:
  "wp (insert_prefix demo_causal demo_codec demo_store (demo_prefix [1, 0]))
     (\<lambda>_ (s', _). kept demo_causal (generation_position demo_codec) demo_sound demo_whole ''m'' demo_limits
        demo_tiers s' \<and> within_budget s')
     (\<lambda>_ (s', _). kept demo_causal (generation_position demo_codec) demo_sound demo_whole ''m'' demo_limits
        demo_tiers s') (demo_cache, [])"
proof -
  have "within_budget demo_cache" by (simp add: within_budget_def empty_cache_def)
  have "\<forall>w. fst (create_dir demo_store w) \<noteq> Panic" by (simp add: demo_store_def)
  moreover have "max_disk_bytes demo_tiers < usize_max" by (simp add: demo_tiers_def usize_max_def)
  ultimately have "wp (insert_prefix demo_causal demo_codec demo_store (demo_prefix [1, 0]))
      (\<lambda>_ (s', _). kept demo_causal (generation_position demo_codec) demo_sound demo_whole ''m'' demo_limits
         demo_tiers s' \<and> (within_budget demo_cache \<longrightarrow> within_budget s'))
      (\<lambda>_ (s', _). kept demo_causal (generation_position demo_codec) demo_sound demo_whole ''m'' demo_limits
         demo_tiers s') (demo_cache, [])"
    by (intro prefix_cache_keeps_books [OF demo_store_total demo_store_faithful, of demo_tiers "[]",
          THEN conjunct2, rule_format, THEN conjunct1] conjI demo_cache_kept demo_tiers_ok demo_prefix_sound) blast+
  then show ?thesis by (rule wp_conseq) (use \<open>within_budget demo_cache\<close> in auto)
qed

section \<open>Lookup\<close>

text \<open>C28: A lookup never fails: it ends with the longest key of the cache that is a prefix of
  the prompt, with a state that belongs to exactly that key, or with nothing when no key is a
  prefix any more. Entries that cannot be loaded are dropped on the way and no key is added; a
  hit counts once, with the tokens it saves.\<close>

theorem lookup_finds_longest:
  assumes "store_total cd st" and "store_faithful mdl cd st good whole mid lim"
    and "kept mdl (generation_position cd) good whole mid lim cf s"
  shows "wp (lookup_prefix mdl cd st prompt)
    (\<lambda>r (s', _). set (keys (entries s')) \<subseteq> set (keys (entries s))
      \<and> lookups (cstats s') = Suc (lookups (cstats s))
      \<and> longest_key (prefix_keys prompt (entries s')) = map_option pre_tokens r
      \<and> (case r of
           None \<Rightarrow> hits (cstats s') = hits (cstats s) \<and> reused_tokens (cstats s') = reused_tokens (cstats s)
         | Some p \<Rightarrow> prefilled_ok mdl mid lim prompt p \<and> good p \<and> hits (cstats s') = Suc (hits (cstats s))
             \<and> reused_tokens (cstats s') = reused_tokens (cstats s) + length (pre_tokens p)))
    (\<lambda>_ _. False) (s, w)"
  by (rule wp_conseq [OF lookup_prefix_wp [OF assms]])
    (auto simp: found_longest_def touch_lookup_def split: option.splits)

definition demo_filled :: "(int list, nat row list, nat) tiered" where
  "demo_filled = demo_cache\<lparr>entries := [([1], \<lparr>tier = Device (demo_prefix [1]), used = 0\<rparr>),
      ([1, 0], \<lparr>tier = Host [1, 0], used = 1\<rparr>), ([1, 1], \<lparr>tier = Disk 7 2, used = 2\<rparr>)],
    tick := 3, cstats := (cstats demo_cache)\<lparr>device_entries := 1, host_bytes := 2, disk_bytes := 2\<rparr>\<rparr>"

lemma demo_filled_kept:
  "kept demo_causal (generation_position demo_codec) demo_sound demo_whole ''m'' demo_limits demo_tiers demo_filled"
proof -
  have "belongs demo_causal (generation_position demo_codec) demo_sound ''m'' demo_limits [1] (demo_prefix [1])"
    using demo_prefix_sound [of "[1]"]
    by (simp add: belongs_def prefilled_ok_def demo_prefix_def demo_causal_def demo_limits_def demo_codec_def)
  then show ?thesis
    by (auto simp: counted_def demo_filled_def empty_cache_def ordered_def weigh_def weight_defs demo_tiers_def
        split: if_splits)
qed

lemma lookup_finds_longest_witness:
  "\<exists>s' w'. lookup_prefix demo_causal demo_codec demo_store [1, 1, 0] (demo_filled, [(9, [])])
       = (Ok (Some (demo_prefix [1])), (s', w'))
     \<and> wp (lookup_prefix demo_causal demo_codec demo_store [1, 1, 0])
        (\<lambda>r (s', _). longest_key (prefix_keys [1, 1, 0] (entries s')) = map_option pre_tokens r)
        (\<lambda>_ _. False) (demo_filled, [(9, [])])"
proof -
  have "wp (lookup_prefix demo_causal demo_codec demo_store [1, 1, 0])
      (\<lambda>r (s', _). longest_key (prefix_keys [1, 1, 0] (entries s')) = map_option pre_tokens r)
      (\<lambda>_ _. False) (demo_filled, [(9, [])])"
    by (rule wp_conseq [OF lookup_finds_longest [OF demo_store_total demo_store_faithful demo_filled_kept]]) auto
  moreover have "\<exists>s' w'. lookup_prefix demo_causal demo_codec demo_store [1, 1, 0] (demo_filled, [(9, [])])
      = (Ok (Some (demo_prefix [1])), (s', w'))"
    by (simp add: lookup_prefix_def demo_filled_def touch_lookup_def empty_cache_def prefix_keys_def Let_def
        load_entry_def demo_store_def drop_failed_def without_def bind_op_def)
      (simp add: prefilled_ok_def demo_prefix_def demo_causal_def demo_limits_def demo_codec_def)
  ultimately show ?thesis by blast
qed

section \<open>Prefill\<close>

text \<open>C29: A prefill through the cache is worth a whole generation: for a lawful model and a
  valid prompt it ends, fails only when the device does not synchronise, and otherwise returns a
  state that stands for exactly the prompt, whatever part of it came from which tier; a session
  started from that state runs to its end with the output, the finish reason, the callbacks, the
  polls and the final synchronisation of plain streaming generation.\<close>

theorem prefill_is_transparent:
  fixes st :: "('r, 'd, 'p, 'w) store"
  assumes "store_total cd st" and "config_ok cf"
    and "store_faithful mdl cd st (sound_prefix mdl rep nxt) whole mid lim"
    and "prefix_model mdl cd lim rep nxt" and "mid \<noteq> []"
    and "kept mdl (generation_position cd) (sound_prefix mdl rep nxt) whole mid lim cf s"
    and "accepted lim prompt gen ctl ends" and "one_shot ctl"
  shows "wp (prefill mdl cd st prompt)
    (\<lambda>p (s', _). kept mdl (generation_position cd) (sound_prefix mdl rep nxt) whole mid lim cf s'
      \<and> pre_tokens p = prompt
      \<and> (\<forall>v. \<exists>t v'. new_greedy_prefilled mdl lim prompt gen ctl mid p v = (Ok t, v')
          \<and> map_option (\<lambda>(r, sw). (r, snd sw)) (run_stream mdl ctl sync sample on_token (t, v'))
            = Some (generate_causal_greedy_stream mdl lim prompt gen ctl sync on_token v)))
    (\<lambda>e (s', _). kept mdl (generation_position cd) (sound_prefix mdl rep nxt) whole mid lim cf s'
      \<and> (\<exists>m u u'. e = ModelFailure m \<and> device_sync st u = (Err m, u')))
    (s, w)"
proof -
  note acc = acceptedD [OF assms(7)]
  have law: "lawful mdl lim rep nxt" using assms(4) by (simp add: prefix_model_def)
  have ok: "prompt \<noteq> []" "length prompt \<le> max_sequence_length lim" "\<not> list_ex (outside (vocab_size lim)) prompt"
    using acc(2,3) assms(7) by (auto simp: accepted_def validate_generation_Ok list_ex_iff)
  have run: "\<exists>t v'. new_greedy_prefilled mdl lim prompt gen ctl mid p v = (Ok t, v')
      \<and> map_option (\<lambda>(r, sw). (r, snd sw)) (run_stream mdl ctl sync sample on_token (t, v'))
        = Some (generate_causal_greedy_stream mdl lim prompt gen ctl sync on_token v)"
    if "reached mdl rep nxt mid lim prompt p" for p v
    unfolding generate_greedy_ref [OF law assms(8,7)]
    using prefilled_generate_ref [OF law assms(7)] that [unfolded reached_def] by blast
  show ?thesis
    by (rule wp_conseq [OF prefill_wp [OF assms(1-6) ok]]) (use run in \<open>auto simp: sync_failed_def\<close>)
qed

lemma prefill_is_transparent_witness:
  "wp (prefill demo_causal demo_codec demo_store [1])
    (\<lambda>p _. pre_tokens p = [1]
      \<and> (\<exists>t v'. new_greedy_prefilled demo_causal demo_limits [1] demo_generation demo_control ''m'' p () = (Ok t, v')
          \<and> map_option (\<lambda>(r, sw). (r, snd sw))
              (run_stream demo_causal demo_control demo_sync (\<lambda>s l p g. (Ok 0, s :: unit)) demo_callback (t, v'))
            = Some (generate_causal_greedy_stream demo_causal demo_limits [1] demo_generation demo_control
                demo_sync demo_callback ())))
    (\<lambda>e _. False) (demo_filled, [])"
  by (rule wp_conseq [OF prefill_is_transparent [OF demo_store_total demo_tiers_ok demo_store_faithful
          demo_prefix_model _ demo_filled_kept demo_accepted demo_one_shot]])
    (auto simp: demo_store_def)

section \<open>Handoff\<close>

text \<open>What the handoff asks of the formats, for one prefix: the bytes decode to what was
  encoded, the native record and the logits come back, and the tokens are in the vocabulary.\<close>

definition formats_ok ::
  "('c, 'l) causal_model \<Rightarrow> ('c, 'l, 's, 'r, 'd, 'q) codec \<Rightarrow> ('r, 'd, 'p, 'w) store \<Rightarrow> ('c, 'l) prefilled \<Rightarrow> bool" where
  "formats_ok mdl cd st p \<longleftrightarrow>
     (\<forall>r d bs. capture_generation cd (pre_cache p) (pre_model_id p) = Ok r \<and> into_data cd (pre_logits p) = Ok d
        \<and> encode st (1, pre_model_id p, pre_limits p, pre_tokens p, r, d) = Ok bs \<longrightarrow>
          decode_bytes st bs = Ok (1, pre_model_id p, pre_limits p, pre_tokens p, r, d)
          \<and> restore_generation cd r (pre_model_id p) (fresh_cache mdl) (length (pre_tokens p)) = Ok (pre_cache p)
          \<and> from_data cd d = pre_logits p \<and> data_shape cd d = [1, 1, vocab_size (pre_limits p)] \<and> data_float cd d
          \<and> checked_mul (vocab_size (pre_limits p)) (data_dtype_size cd d) = Some (data_bytes cd d))
     \<and> length (pre_tokens p) \<le> max_sequence_length (pre_limits p)
     \<and> \<not> list_ex (outside (vocab_size (pre_limits p))) (pre_tokens p)"

text \<open>A prefilled prompt survives the handoff: when the formats round-trip, what
  \<open>export\<close> writes, \<open>import\<close> reads back as the same prefilled prompt under the same identity,
  limits and prompt, and refuses for any other expected prompt.\<close>

theorem handoff_roundtrip:
  assumes "export_prompt mdl cd st p w = (Ok bs, w')" and "formats_ok mdl cd st p"
  shows "import_prompt mdl cd st (pre_model_id p) (pre_limits p) prompt bs
    = (if prompt = pre_tokens p then Ok p
       else Err (ModelFailure ''prefill handoff does not match the requested prompt''))"
proof -
  have ok: "prefilled_ok mdl (pre_model_id p) (pre_limits p) (pre_tokens p) p"
    and cap: "\<exists>w1. capture cd st p w = (Ok bs, w1)"
    using assms(1)
    by (auto simp: export_prompt_def map_err_op_def split: if_splits prod.splits res.splits)
  from cap obtain r d where rd: "capture_generation cd (pre_cache p) (pre_model_id p) = Ok r"
    "into_data cd (pre_logits p) = Ok d"
    "encode st (1, pre_model_id p, pre_limits p, pre_tokens p, r, d) = Ok bs"
    by (auto simp: capture_def bind_op_def split: prod.splits res.splits)
  have "pre_tokens p \<noteq> []" using ok by (auto simp: prefilled_ok_def split: prod.splits)
  then have "restore_prefix mdl cd st (pre_model_id p) (pre_limits p) bs = Ok p"
    using assms(2) rd ok by (cases p) (simp add: restore_prefix_def formats_ok_def Let_def)
  then show ?thesis by (simp add: import_prompt_def)
qed

lemma handoff_roundtrip_witness:
  "\<exists>bs. export_prompt demo_causal demo_codec demo_store (demo_prefix [1, 0]) [] = (Ok bs, [])
    \<and> import_prompt demo_causal demo_codec demo_store ''m'' demo_limits [1, 0] bs = Ok (demo_prefix [1, 0])
    \<and> import_prompt demo_causal demo_codec demo_store ''m'' demo_limits [1] bs
      = Err (ModelFailure ''prefill handoff does not match the requested prompt'')"
proof -
  have fmt: "formats_ok demo_causal demo_codec demo_store (demo_prefix [1, 0])"
    by (simp add: formats_ok_def demo_codec_def demo_store_def demo_prefix_def demo_limits_def outside_def
        checked_mul_def usize_max_def demo_causal_def)
  have "\<exists>bs. export_prompt demo_causal demo_codec demo_store (demo_prefix [1, 0]) [] = (Ok bs, [])"
    by (simp add: export_prompt_def map_err_op_def capture_def bind_op_def demo_store_def demo_codec_def
        demo_prefix_def prefilled_ok_def demo_causal_def demo_limits_def)
  then obtain bs where bs: "export_prompt demo_causal demo_codec demo_store (demo_prefix [1, 0]) [] = (Ok bs, [])" ..
  from handoff_roundtrip [OF bs fmt] have "import_prompt demo_causal demo_codec demo_store ''m'' demo_limits prompt bs
      = (if prompt = [1, 0] then Ok (demo_prefix [1, 0])
         else Err (ModelFailure ''prefill handoff does not match the requested prompt''))" for prompt
    by (simp add: demo_prefix_def)
  with bs show ?thesis by auto
qed

section \<open>A failed disk entry\<close>

text \<open>C30: A disk entry that cannot be read is dropped without being paid back: when it was the
  only entry and filled the disk budget, the lookup that dropped it leaves an empty cache that
  still counts its bytes, and every later payload for the disk tier is refused with
  ''disk budget has no evictable payload'', although nothing is stored.\<close>

theorem failed_disk_entry_leaks:
  assumes "entries s = [(key, \<lparr>tier = Disk path (disk_bytes (cstats s)), used = u\<rparr>)]"
    and "take (length key) prompt = key" and "read_file st path w = (Err m, w')"
    and "length bs \<le> max_disk_bytes (config s)" and "max_disk_bytes (config s) < usize_max"
    and "max_disk_bytes (config s) < disk_bytes (cstats s) + length bs" and "max_disk_bytes (config s) \<noteq> 0"
  shows "\<exists>s'. lookup_prefix mdl cd st prompt (s, w) = (Ok None, (s', w'))
    \<and> entries s' = [] \<and> disk_bytes (cstats s') = disk_bytes (cstats s)
    \<and> put_disk st k bs t (s', v) = (Err (ModelFailure ''disk budget has no evictable payload''), (s', v))"
proof -
  have "entries (touch_lookup s) = entries s" by (simp add: touch_lookup_def)
  then have keys1: "prefix_keys prompt (entries (touch_lookup s)) = [key]"
    by (simp only: prefix_keys_def assms(1) list.map filter.simps fst_conv assms(2) simp_thms if_True)
  define s' where "s' = touch_lookup s\<lparr>entries := []\<rparr>"
  have "lookup_prefix mdl cd st prompt (s, w) = (Ok None, (s', w'))"
    using assms(1,3) keys1
    by (simp add: lookup_prefix_def Let_def load_entry_def drop_failed_def bind_op_def without_def
        s'_def touch_lookup_def prefix_keys_def)
  moreover have "put_disk st k bs t (s', v) = (Err (ModelFailure ''disk budget has no evictable payload''), (s', v))"
    using assms(4-7)
    by (auto simp: put_disk_def bind_op_def evict_disk_def s'_def touch_lookup_def)
  ultimately show ?thesis by (auto simp: s'_def touch_lookup_def)
qed

definition demo_broken :: "(int list, nat row list, nat) tiered" where
  "demo_broken = demo_cache\<lparr>entries := [([1, 1], \<lparr>tier = Disk 7 4, used = 0\<rparr>)],
    cstats := (cstats demo_cache)\<lparr>disk_bytes := 4\<rparr>\<rparr>"

lemma failed_disk_entry_leaks_witness:
  "\<exists>s'. lookup_prefix demo_causal demo_codec demo_store [1, 1, 0] (demo_broken, []) = (Ok None, (s', []))
    \<and> entries s' = [] \<and> disk_bytes (cstats s') = 4
    \<and> put_disk demo_store [1] [7] 0 (s', []) = (Err (ModelFailure ''disk budget has no evictable payload''), (s', []))"
  using failed_disk_entry_leaks [of demo_broken "[1, 1]" 7 0 "[1, 1, 0]" demo_store "[]" "''missing''" "[]"
      "[7]" demo_causal demo_codec "[1]" 0 "[]"]
  by (simp add: demo_broken_def empty_cache_def demo_tiers_def demo_store_def usize_max_def)

end
