(* ===== verification/DisaggregatedProps.thy ===== *)
theory DisaggregatedProps
  imports Disaggregated PrefixCacheProps
begin

text \<open>
  The properties of the remote prefill: frames carry exactly what was written, and a prompt
  prefilled by the service is worth the same generation as one prefilled locally.
\<close>

section \<open>Frames\<close>

lemma from_be64_Cons: "from_be64 (b # bs) = unat b * 256 ^ length bs + from_be64 bs"
proof -
  have "foldl (\<lambda>a b. a * 256 + unat (b :: 8 word)) a bs = a * 256 ^ length bs + from_be64 bs" for a
  proof (induction bs arbitrary: a)
    case (Cons b bs)
    show ?case unfolding from_be64_def foldl_Cons Cons.IH [of "a * 256 + unat b"] Cons.IH [of "0 * 256 + unat b"]
      by (simp add: algebra_simps)
  qed (simp add: from_be64_def)
  from this [of "unat b"] show ?thesis by (simp add: from_be64_def)
qed

lemma from_be64_less: "from_be64 bs < 256 ^ length bs"
proof (induction bs)
  case (Cons b bs)
  have "from_be64 (b # bs) < (unat b + 1) * 256 ^ length bs" using Cons.IH by (simp add: from_be64_Cons)
  also have "\<dots> \<le> 256 * 256 ^ length bs" using unsigned_less [of b, where 'a = nat] by (intro mult_right_mono) simp_all
  finally show ?case by simp
qed (simp add: from_be64_def)

lemma from_be64_inj:
  assumes "length xs = length ys" and "from_be64 xs = from_be64 ys"
  shows "xs = ys"
  using assms
proof (induction xs ys rule: list_induct2)
  case (Cons x xs y ys)
  have eq: "unat x * 256 ^ length xs + from_be64 xs = unat y * 256 ^ length xs + from_be64 ys"
    using Cons.prems Cons.hyps by (simp add: from_be64_Cons)
  have "unat x = (unat x * 256 ^ length xs + from_be64 xs) div 256 ^ length xs"
    using from_be64_less [of xs] by simp
  also have "\<dots> = unat y" unfolding eq using from_be64_less [of ys] Cons.hyps by simp
  finally show ?case using eq Cons.IH by (simp add: word_unat_eq_iff)
qed simp

lemma be64_from_be64:
  assumes "length bs = 8"
  shows "be64 (from_be64 bs) = bs"
proof (rule from_be64_inj)
  have "from_be64 bs < 2 ^ 64" using from_be64_less [of bs] assms by simp
  then show "from_be64 (be64 (from_be64 bs)) = from_be64 bs" by (rule be64_roundtrip)
qed (simp add: assms)

text \<open>Every read of a reliable stream that succeeds took its bytes from the front.\<close>

lemma reliable_recvD:
  assumes "reliable net inc sent" and "recv net k n = (Ok bs, n')"
  shows "inc n = bs @ inc n'" and "length bs = k"
proof -
  have "if k \<le> length (inc n)
      then (\<exists>n'. recv net k n = (Ok (take k (inc n)), n') \<and> inc n' = drop k (inc n) \<and> sent n' = sent n)
      else (\<exists>e n'. recv net k n = (Err e, n') \<and> sent n' = sent n)"
    using assms(1) unfolding reliable_def by (elim conjE allE)
  then show "inc n = bs @ inc n'" "length bs = k" using assms(2) by (auto split: if_splits)
qed

text \<open>The frames of the handoff are exact: on an unbroken stream a payload below 2 to the 64
  that is written is read back as it was and the stream is left at the first byte after it;
  and whatever bytes arrive, a payload is accepted only when they are the frame of that payload,
  with the magic number, its length and its digest.\<close>

theorem frames_are_exact:
  assumes "reliable net inc sent" and "\<forall>p. length (dig p) = 32" and "\<forall>k<mem. reserve net k = Ok ()"
    and "mem \<le> 2 ^ 64"
  shows "(length payload < mem \<longrightarrow> (\<exists>n'. write_frame net dig payload n = (Ok (), n') \<and> inc n' = inc n
        \<and> (\<exists>f. sent n' = sent n @ f \<and> (\<forall>c rest. inc c = f @ rest \<longrightarrow>
             (\<exists>c'. read_frame net dig c = (Ok payload, c') \<and> inc c' = rest \<and> sent c' = sent c)))))
    \<and> (\<forall>c received c'. read_frame net dig c = (Ok received, c') \<longrightarrow> inc c = frame dig received @ inc c')"
proof (intro conjI impI allI)
  assume fits: "length payload < mem"
  obtain n' where n': "write_frame net dig payload n = (Ok (), n')" "inc n' = inc n"
    "sent n' = sent n @ frame dig payload" by (rule write_frame_sends [OF assms(1)])
  have "\<exists>c'. read_frame net dig c = (Ok payload, c') \<and> inc c' = rest \<and> sent c' = sent c"
    if "inc c = frame dig payload @ rest" for c rest
    by (rule read_frame_receives [OF assms(1) _ that]) (use assms(2-4) fits in auto)
  with n' show "\<exists>n'. write_frame net dig payload n = (Ok (), n') \<and> inc n' = inc n
      \<and> (\<exists>f. sent n' = sent n @ f \<and> (\<forall>c rest. inc c = f @ rest \<longrightarrow>
           (\<exists>c'. read_frame net dig c = (Ok payload, c') \<and> inc c' = rest \<and> sent c' = sent c)))"
    by blast
next
  fix c received c'
  assume ok: "read_frame net dig c = (Ok received, c')"
  then obtain len n1 n2 n3 where
    r: "recv net 8 c = (Ok magic, n1)" "recv net 8 n1 = (Ok len, n2)" "recv net 32 n2 = (Ok (dig received), n3)"
      "recv net (from_be64 len) n3 = (Ok received, c')"
    by (auto simp: read_frame_def map_err_op_def bind_op_def err_op_def ret_op_def panic_op_def
        split: prod.splits res.splits if_splits)
  note d1 = reliable_recvD [OF assms(1) r(1)] and d2 = reliable_recvD [OF assms(1) r(2)]
  note d3 = reliable_recvD [OF assms(1) r(3)] and d4 = reliable_recvD [OF assms(1) r(4)]
  have "be64 (length received) = len" using d4(2) be64_from_be64 [OF d2(2)] by simp
  then show "inc c = frame dig received @ inc c'" using d1(1) d2(1) d3(1) d4(1) by (simp add: frame_def)
qed

section \<open>A small connection\<close>

text \<open>Bytes to be read and bytes written; the digest of the witness is constant.\<close>

type_synonym pipe = "bytes \<times> bytes"

definition demo_net :: "pipe net" where
  "demo_net = \<lparr>connect = ret_op (), send = (\<lambda>bs (i, o'). (Ok (), (i, o' @ bs))), flush_net = ret_op (),
     recv = (\<lambda>k (i, o'). if k \<le> length i then (Ok (take k i), (drop k i, o')) else (Err ''end of file'', ([], o'))),
     reserve = (\<lambda>k. if k < 1000 then Ok () else Err ''out of memory'')\<rparr>"

definition demo_digest :: "bytes \<Rightarrow> bytes" where
  "demo_digest bs = replicate 32 7"

lemma demo_net_reliable: "reliable demo_net fst snd"
  by (auto simp: reliable_def demo_net_def ret_op_def)

lemma demo_digest_length: "\<forall>p. length (demo_digest p) = 32"
  by (simp add: demo_digest_def)

lemma demo_net_reserves: "\<forall>k<1000. reserve demo_net k = Ok ()"
  by (simp add: demo_net_def)

lemma frames_are_exact_witness:
  "\<exists>f. write_frame demo_net demo_digest [1, 2] ([], []) = (Ok (), ([], f))
     \<and> (\<exists>c'. read_frame demo_net demo_digest (f @ [9], []) = (Ok [1, 2], c') \<and> fst c' = [9])"
proof -
  have "1000 \<le> (2::nat) ^ 64" by simp
  note ex = frames_are_exact [OF demo_net_reliable demo_digest_length demo_net_reserves this, of "[1, 2]" "([], [])"]
  from conjunct1 [OF ex] obtain n' f where "write_frame demo_net demo_digest [1, 2] ([], []) = (Ok (), n')"
    "fst n' = []" "snd n' = f" and rd: "\<forall>c rest. fst c = f @ rest \<longrightarrow>
         (\<exists>c'. read_frame demo_net demo_digest c = (Ok [1, 2], c') \<and> fst c' = rest \<and> snd c' = snd c)"
    by auto
  moreover from this have "n' = ([], f)" by (simp add: prod_eq_iff)
  moreover have "\<exists>c'. read_frame demo_net demo_digest (f @ [9], []) = (Ok [1, 2], c') \<and> fst c' = [9]"
    using rd [rule_format, of "(f @ [9], [])" "[9]"] by auto
  ultimately show ?thesis by (intro exI [of _ f] conjI) simp_all
qed

section \<open>Remote prefill\<close>

text \<open>A prefix can be exported: capturing it fails only with the device, its formats round-trip
  and the payload fits.\<close>

definition exportable ::
  "nat \<Rightarrow> ('c, 'l) causal_model \<Rightarrow> ('c, 'l, 's, 'r, 'd, 'q) codec \<Rightarrow> ('r, 'd, 'p, 'w) store
   \<Rightarrow> ('c, 'l) prefilled \<Rightarrow> bool" where
  "exportable mem mdl cd st p \<longleftrightarrow> formats_ok mdl cd st p
     \<and> (\<exists>r d bs. capture_generation cd (pre_cache p) (pre_model_id p) = Ok r \<and> into_data cd (pre_logits p) = Ok d
          \<and> encode st (1, pre_model_id p, pre_limits p, pre_tokens p, r, d) = Ok bs \<and> length bs + 1 < mem)"

lemma export_reached:
  assumes "reached mdl rep nxt mid lim prompt p" and "pre_tokens p = prompt"
    and "prefix_model mdl cd lim rep nxt" and "exportable mem mdl cd st p"
    and "\<And>w. fst (device_sync st w) \<noteq> Panic"
  shows "wp (export_prompt mdl cd st p)
    (\<lambda>bs _. length bs + 1 < mem \<and> import_prompt mdl cd st mid lim prompt bs = Ok p)
    (\<lambda>e _. sync_failed st e) w"
proof -
  have ok: "prefilled_ok mdl mid lim prompt p" "rep (pre_cache p) prompt"
    using assms(1,2) by (auto simp: reached_def sound_prefix_def)
  then have p: "pre_model_id p = mid" "pre_limits p = lim" "pre_tokens p = prompt"
    using assms(2) by (auto simp: prefilled_ok_def split: prod.splits)
  have pos: "generation_position cd (pre_cache p) = length prompt"
    using assms(3) ok(2) by (simp add: prefix_model_def)
  obtain r d bs where c: "capture_generation cd (pre_cache p) mid = Ok r" "into_data cd (pre_logits p) = Ok d"
    "encode st (1, mid, lim, prompt, r, d) = Ok bs" "length bs + 1 < mem"
    using assms(4) by (auto simp: exportable_def p)
  have fmt: "formats_ok mdl cd st p" using assms(4) by (simp add: exportable_def)
  obtain x w1 where sync: "device_sync st w = (x, w1)" by force
  show ?thesis
  proof (cases x)
    case (Ok u)
    have ex: "export_prompt mdl cd st p w = (Ok bs, w1)"
      using ok(1) pos c sync Ok by (simp add: export_prompt_def p capture_def bind_op_def map_err_op_def)
    from handoff_roundtrip [OF ex fmt, of prompt] show ?thesis using c(4) ex by (simp add: wp_def p)
  next
    case (Err e)
    then show ?thesis
      using ok(1) pos sync by (auto simp: wp_def export_prompt_def p capture_def bind_op_def map_err_op_def sync_failed_def)
  next
    case Panic
    then show ?thesis using assms(5) [of w] sync by simp
  qed
qed

lemma answer_request_wp:
  fixes st :: "('r, 'd, 'p, 'w) store" and s :: "('c, 'l, 'p) tiered"
  assumes "store_total cd st" and "config_ok cf"
    and "store_faithful mdl cd st (sound_prefix mdl rep nxt) whole mid lim"
    and "prefix_model mdl cd lim rep nxt" and "mid \<noteq> []"
    and "kept mdl (generation_position cd) (sound_prefix mdl rep nxt) whole mid lim cf s"
    and "prompt \<noteq> []" and "length prompt \<le> max_sequence_length lim"
    and "\<not> list_ex (outside (vocab_size lim)) prompt"
    and "dec_request rc bs = Ok \<lparr>req_version = 1, req_model_id = mid, req_limits = lim, req_tokens = prompt\<rparr>"
    and "\<forall>p. reached mdl rep nxt mid lim prompt p \<and> pre_tokens p = prompt \<longrightarrow> exportable mem mdl cd st p"
  shows "wp (answer_request mdl cd st rc mid lim bs)
    (\<lambda>bs (s', _). kept mdl (generation_position cd) (sound_prefix mdl rep nxt) whole mid lim cf s'
        \<and> length bs + 1 < mem
        \<and> (\<exists>p. import_prompt mdl cd st mid lim prompt bs = Ok p \<and> reached mdl rep nxt mid lim prompt p
             \<and> pre_tokens p = prompt))
    (\<lambda>e (s', _). kept mdl (generation_position cd) (sound_prefix mdl rep nxt) whole mid lim cf s' \<and> sync_failed st e)
    (s, w)"
proof -
  let ?K = "\<lambda>(s', _). kept mdl (generation_position cd) (sound_prefix mdl rep nxt) whole mid lim cf s'"
  let ?export = "\<lambda>p (s, w). case export_prompt mdl cd st p w of (bs, w) \<Rightarrow> (bs, (s, w))"
  let ?Q = "\<lambda>bs t. ?K t \<and> length bs + 1 < mem
        \<and> (\<exists>p. import_prompt mdl cd st mid lim prompt bs = Ok p \<and> reached mdl rep nxt mid lim prompt p
             \<and> pre_tokens p = prompt)"
  have total: "\<And>w. fst (device_sync st w) \<noteq> Panic" using assms(1) by (simp add: store_total_def)
  have "wp (prefill mdl cd st prompt) (\<lambda>p. wp (?export p) ?Q (\<lambda>e t. ?K t \<and> sync_failed st e))
      (\<lambda>e t. ?K t \<and> sync_failed st e) (s, w)"
  proof (rule wp_conseq [OF prefill_wp [OF assms(1-9)]])
    fix p and t :: "('c, 'l, 'p) tiered \<times> 'w"
    assume t: "case t of (s', _) \<Rightarrow> kept mdl (generation_position cd) (sound_prefix mdl rep nxt) whole mid lim cf s'
        \<and> reached mdl rep nxt mid lim prompt p \<and> pre_tokens p = prompt"
    obtain s1 w1 where t1: "t = (s1, w1)" by (cases t)
    have p: "?K t" "reached mdl rep nxt mid lim prompt p" "pre_tokens p = prompt" using t by (simp_all add: t1)
    have "exportable mem mdl cd st p" using assms(11) p(2,3) by blast
    from export_reached [OF p(2,3) assms(4) this total, of w1]
    show "wp (?export p) ?Q (\<lambda>e t. ?K t \<and> sync_failed st e) t"
      using p by (auto simp: wp_def t1 split: prod.splits res.splits)
  qed (simp_all add: case_prod_unfold)
  from wp_bind [OF this] show ?thesis
    using assms(10) by (simp add: wp_def answer_request_def case_prod_unfold)
qed

text \<open>C31: A prefill in another process is worth a local one: over unbroken streams the client sends
  a request that the service, whatever its cache keeps, answers without panicking and keeping
  its books; the client that reads the answer gets a state for exactly its prompt, from which a
  session gives the output, the callbacks, the polls and the final synchronisation of plain
  streaming generation, or else the text of a failed device synchronisation of the service.\<close>

theorem remote_prefill_is_local:
  fixes st :: "('r, 'd, 'p, 'w) store" and s :: "('c, 'l, 'p) tiered"
  assumes "store_total cd st" and "config_ok cf"
    and "store_faithful mdl cd st (sound_prefix mdl rep nxt) whole mid lim"
    and "prefix_model mdl cd lim rep nxt" and "mid \<noteq> []"
    and "kept mdl (generation_position cd) (sound_prefix mdl rep nxt) whole mid lim cf s"
    and "accepted lim prompt gen ctl ends" and "one_shot ctl"
    and "\<forall>p. reached mdl rep nxt mid lim prompt p \<and> pre_tokens p = prompt \<longrightarrow> exportable mem mdl cd st p"
    and "reliable net inc sent" and "\<forall>p. length (dig p) = 32"
    and "\<forall>k<mem. reserve net k = Ok ()" and "mem \<le> 2 ^ 64"
    and "enc_request rc \<lparr>req_version = 1, req_model_id = mid, req_limits = lim, req_tokens = prompt\<rparr> = Ok req"
    and "dec_request rc req = Ok \<lparr>req_version = 1, req_model_id = mid, req_limits = lim, req_tokens = prompt\<rparr>"
    and "length req < mem" and "\<forall>e. length (error_text rc e) + 1 < mem"
  shows "\<exists>c' request. send_request rc net dig mid lim prompt c = (Ok (), c') \<and> inc c' = inc c
    \<and> sent c' = sent c @ request
    \<and> (\<forall>n w rest. inc n = request @ rest \<longrightarrow>
        wp (serve_connection mdl cd st rc net dig mid lim n)
          (\<lambda>n' (s', _). kept mdl (generation_position cd) (sound_prefix mdl rep nxt) whole mid lim cf s'
            \<and> (\<exists>answer. sent n' = sent n @ answer \<and> inc n' = rest \<and> (\<forall>k more. inc k = answer @ more \<longrightarrow>
                (\<exists>response k'. read_frame net dig k = (Ok response, k') \<and> inc k' = more
                  \<and> (case read_response mdl cd st rc mid lim prompt response of
                       Ok p \<Rightarrow> pre_tokens p = prompt
                         \<and> (\<forall>v. \<exists>t v'. new_greedy_prefilled mdl lim prompt gen ctl mid p v = (Ok t, v')
                             \<and> map_option (\<lambda>(r, sw). (r, snd sw)) (run_stream mdl ctl sync sample on_token (t, v'))
                               = Some (generate_causal_greedy_stream mdl lim prompt gen ctl sync on_token v))
                     | Err e \<Rightarrow> \<exists>m. e = ModelFailure (lossy rc (error_text rc (ModelFailure m)))
                         \<and> sync_failed st (ModelFailure m)
                     | Panic \<Rightarrow> False)))))
          (\<lambda>_ _. False) (s, w))"
proof -
  note acc = acceptedD [OF assms(7)]
  have law: "lawful mdl lim rep nxt" using assms(4) by (simp add: prefix_model_def)
  have ok: "prompt \<noteq> []" "length prompt \<le> max_sequence_length lim" "\<not> list_ex (outside (vocab_size lim)) prompt"
    using acc(2,3) assms(7) by (auto simp: accepted_def validate_generation_Ok list_ex_iff)
  have valid: "validate_generation lim prompt \<lparr>max_new_tokens = 0, eos_token_ids = []\<rparr> = Ok []"
    using ok assms(7) acc(4) by (auto simp: accepted_def validate_generation_Ok list_ex_iff)
  have dig: "\<And>p. length (dig p) = 32" using assms(11) by blast
  note read = read_frame_receives [OF assms(10) dig]
  have run: "\<exists>t v'. new_greedy_prefilled mdl lim prompt gen ctl mid p v = (Ok t, v')
      \<and> map_option (\<lambda>(r, sw). (r, snd sw)) (run_stream mdl ctl sync sample on_token (t, v'))
        = Some (generate_causal_greedy_stream mdl lim prompt gen ctl sync on_token v)"
    if "reached mdl rep nxt mid lim prompt p" for p v
    unfolding generate_greedy_ref [OF law assms(8,7)]
    using prefilled_generate_ref [OF law assms(7)] that [unfolded reached_def] by blast
  obtain c1 where c1: "connect net c = (Ok (), c1)" "inc c1 = inc c" "sent c1 = sent c"
    by (rule reliable_connect [OF assms(10)])
  obtain c2 where c2: "write_frame net dig req c1 = (Ok (), c2)" "inc c2 = inc c1" "sent c2 = sent c1 @ frame dig req"
    by (rule write_frame_sends [OF assms(10)])
  let ?good = "\<lambda>response. case read_response mdl cd st rc mid lim prompt response of
      Ok p \<Rightarrow> pre_tokens p = prompt
        \<and> (\<forall>v. \<exists>t v'. new_greedy_prefilled mdl lim prompt gen ctl mid p v = (Ok t, v')
            \<and> map_option (\<lambda>(r, sw). (r, snd sw)) (run_stream mdl ctl sync sample on_token (t, v'))
              = Some (generate_causal_greedy_stream mdl lim prompt gen ctl sync on_token v))
    | Err e \<Rightarrow> \<exists>m. e = ModelFailure (lossy rc (error_text rc (ModelFailure m))) \<and> sync_failed st (ModelFailure m)
    | Panic \<Rightarrow> False"
  let ?K = "\<lambda>(s', _). kept mdl (generation_position cd) (sound_prefix mdl rep nxt) whole mid lim cf s'"
  have serve: "wp (serve_connection mdl cd st rc net dig mid lim n)
      (\<lambda>n' t. ?K t \<and> (\<exists>answer. sent n' = sent n @ answer \<and> inc n' = rest \<and> (\<forall>k more. inc k = answer @ more \<longrightarrow>
          (\<exists>response k'. read_frame net dig k = (Ok response, k') \<and> inc k' = more \<and> ?good response))))
      (\<lambda>_ _. False) (s, w)" if n: "inc n = frame dig req @ rest" for n w rest
  proof -
    obtain n1 where n1: "read_frame net dig n = (Ok req, n1)" "inc n1 = rest" "sent n1 = sent n"
      by (rule read [OF n]) (use assms(12,13,16) in auto)
    obtain r t where r: "answer_request mdl cd st rc mid lim req (s, w) = (r, t)"
      by (cases "answer_request mdl cd st rc mid lim req (s, w)")
    note w = answer_request_wp [OF assms(1-6) ok assms(15,9), of w, unfolded wp_def r]
    obtain response where resp: "response_of rc r = Ok response" "length response < mem" "?good response" "?K t"
    proof (cases r)
      case (Ok bs)
      then show ?thesis
        using w run that [of "0 # bs"] by (auto simp: response_of_def read_response_def split: prod.splits)
    next
      case (Err e)
      with w obtain m where "e = ModelFailure m" "sync_failed st (ModelFailure m)" "?K t"
        by (auto simp: sync_failed_def split: prod.splits)
      then show ?thesis
        using Err assms(17) that [of "1 # error_text rc e"] by (auto simp: response_of_def read_response_def)
    qed (use w in simp)
    obtain n2 where n2: "write_frame net dig response n1 = (Ok (), n2)" "inc n2 = inc n1"
      "sent n2 = sent n1 @ frame dig response" by (rule write_frame_sends [OF assms(10)])
    have "\<exists>response k'. read_frame net dig k = (Ok response, k') \<and> inc k' = more \<and> ?good response"
      if "inc k = frame dig response @ more" for k more
      by (rule read [OF that]) (use assms(12,13) resp(2,3) in auto)
    then show ?thesis
      using n1 r resp(1,4) n2 by (auto simp: wp_def serve_connection_def)
  qed
  have "send_request rc net dig mid lim prompt c = (Ok (), c2)"
    using valid assms(14) c1 c2 by (simp add: send_request_def bind_op_def map_err_op_def)
  with c1 c2 serve show ?thesis
    by (intro exI [of _ c2] exI [of _ "frame dig req"]) (simp add: case_prod_unfold)
qed

text \<open>The witness: a model whose logits are the greedy token, behind an empty service cache.\<close>

definition tiny_causal :: "(int list, int) causal_model" where
  "tiny_causal = \<lparr>fresh_cache = [], try_forward = (\<lambda>ts c. (Ok (demo_next (c @ ts)), c @ ts)),
     dims = (\<lambda>l. (1, 1, 2)), same_device = (\<lambda>_. True), greedy_token = Ok\<rparr>"

definition tiny_codec :: "(int list, int, unit, int list, int, unit) codec" where
  "tiny_codec = \<lparr>generation_position = length, capture_generation = (\<lambda>c _. Ok c),
     restore_generation = (\<lambda>c _ _ _. Ok c), into_data = (\<lambda>l. Ok l), from_data = (\<lambda>l. l),
     data_shape = (\<lambda>l. [1, 1, 2]), data_float = (\<lambda>_. True), data_dtype_size = (\<lambda>_. 4),
     data_bytes = (\<lambda>l. 8), to_state = (\<lambda>s. s), from_state = Ok\<rparr>"

definition tiny_store :: "(int list, int, nat, disk) store" where
  "tiny_store = \<lparr>encode = (\<lambda>(v, m, l, ts, r, d). Ok (map of_int ts)),
     decode_bytes = (\<lambda>bs. Ok (1, ''m'', demo_limits, map uint bs, map uint bs, demo_next (map uint bs))),
     remove_file = (\<lambda>f w. (Ok (), w)), read_file = (\<lambda>f w. (Err ''missing'', w)),
     create_new = (\<lambda>f w. (Created, w)), write_sync = (\<lambda>f bs w. (Ok (), w)), path_at = (\<lambda>n. n),
     create_dir = (\<lambda>w. (Ok (), w)), read_dir = (\<lambda>w. (Ok [], w)), device_sync = (\<lambda>w. (Ok (), w))\<rparr>"

definition tiny_requests :: request_codec where
  "tiny_requests = \<lparr>enc_request = (\<lambda>r. Ok (map of_int (req_tokens r))),
     dec_request = (\<lambda>bs. Ok \<lparr>req_version = 1, req_model_id = ''m'', req_limits = demo_limits,
       req_tokens = map uint bs\<rparr>),
     error_text = (\<lambda>_. [33]), lossy = (\<lambda>_. ''failed'')\<rparr>"

abbreviation tiny_cache :: "(int list, int, nat) tiered" where
  "tiny_cache \<equiv> empty_cache ''m'' demo_limits demo_tiers"

abbreviation tiny_sound :: "(int list, int) prefilled \<Rightarrow> bool" where
  "tiny_sound \<equiv> sound_prefix tiny_causal (=) demo_next"

lemma tiny_create: "create_file tiny_store n w = Some (Ok n, w)"
  by (subst create_file.simps) (simp add: tiny_store_def)

lemma tiny_store_total: "store_total tiny_codec tiny_store"
  unfolding store_total_def tiny_create by (auto simp: tiny_store_def tiny_codec_def)

lemma tiny_store_faithful:
  "store_faithful tiny_causal tiny_codec tiny_store tiny_sound demo_whole ''m'' demo_limits"
  by (auto simp: store_faithful_def restore_prefix_def tiny_store_def tiny_codec_def sound_prefix_def Let_def
      tiny_causal_def split: if_splits)

lemma tiny_prefix_model: "prefix_model tiny_causal tiny_codec demo_limits (=) demo_next"
  by (auto simp: prefix_model_def lawful_def tiny_codec_def tiny_causal_def demo_limits_def usize_max_def
      good_logits_def outside_def demo_next_def)

lemma tiny_exportable:
  assumes "reached tiny_causal (=) demo_next ''m'' demo_limits [1] p \<and> pre_tokens p = [1]"
  shows "exportable 1000 tiny_causal tiny_codec tiny_store p"
proof -
  have "p = \<lparr>pre_model_id = ''m'', pre_limits = demo_limits, pre_tokens = [1], pre_cache = [1],
      pre_logits = demo_next [1]\<rparr>"
    using assms by (cases p) (auto simp: reached_def prefilled_ok_def sound_prefix_def tiny_causal_def split: prod.splits)
  then show ?thesis
    by (simp add: exportable_def formats_ok_def tiny_codec_def tiny_store_def tiny_causal_def demo_limits_def
        outside_def checked_mul_def usize_max_def)
qed

lemma remote_prefill_is_local_witness:
  "\<exists>c' request. send_request tiny_requests demo_net demo_digest ''m'' demo_limits [1] ([], []) = (Ok (), c')
    \<and> wp (serve_connection tiny_causal tiny_codec tiny_store tiny_requests demo_net demo_digest ''m'' demo_limits
          (request, []))
        (\<lambda>n' _. \<exists>response k'. read_frame demo_net demo_digest (snd n', []) = (Ok response, k')
           \<and> (\<forall>p. read_response tiny_causal tiny_codec tiny_store tiny_requests ''m'' demo_limits [1] response = Ok p
                \<longrightarrow> pre_tokens p = [1]))
        (\<lambda>_ _. False) (tiny_cache, [])"
proof -
  have mem: "1000 \<le> (2::nat) ^ 64" by simp
  have k: "kept tiny_causal (generation_position tiny_codec) tiny_sound demo_whole ''m'' demo_limits demo_tiers tiny_cache"
    by (rule kept_empty)
  have rc: "enc_request tiny_requests \<lparr>req_version = 1, req_model_id = ''m'', req_limits = demo_limits, req_tokens = [1]\<rparr>
      = Ok [1]" "dec_request tiny_requests [1]
      = Ok \<lparr>req_version = 1, req_model_id = ''m'', req_limits = demo_limits, req_tokens = [1]\<rparr>"
    "length ([1] :: bytes) < 1000" "\<forall>e. length (error_text tiny_requests e) + 1 < 1000"
    by (simp_all add: tiny_requests_def)
  have ex: "\<forall>p. reached tiny_causal (=) demo_next ''m'' demo_limits [1] p \<and> pre_tokens p = [1]
      \<longrightarrow> exportable 1000 tiny_causal tiny_codec tiny_store p"
    using tiny_exportable by blast
  let ?good = "\<lambda>response. case read_response tiny_causal tiny_codec tiny_store tiny_requests ''m'' demo_limits [1] response of
       Ok p \<Rightarrow> pre_tokens p = [1] \<and>
         (\<forall>v. \<exists>t v'. new_greedy_prefilled tiny_causal demo_limits [1] demo_generation demo_control ''m'' p v = (Ok t, v')
             \<and> map_option (\<lambda>(r, sw). (r, snd sw)) (run_stream tiny_causal demo_control demo_sync
                 (\<lambda>s l p g. (Ok 0, s :: unit)) demo_callback (t, v'))
               = Some (generate_causal_greedy_stream tiny_causal demo_limits [1] demo_generation
                   demo_control demo_sync demo_callback v))
     | Err e \<Rightarrow> \<exists>m. e = ModelFailure (lossy tiny_requests (error_text tiny_requests (ModelFailure m)))
         \<and> sync_failed tiny_store (ModelFailure m)
     | Panic \<Rightarrow> False"
  have good: "?good response \<Longrightarrow> \<forall>p. read_response tiny_causal tiny_codec tiny_store tiny_requests ''m''
      demo_limits [1] response = Ok p \<longrightarrow> pre_tokens p = [1]" for response
    by auto
  from remote_prefill_is_local [OF tiny_store_total demo_tiers_ok tiny_store_faithful tiny_prefix_model _ k
      demo_accepted demo_one_shot ex demo_net_reliable demo_digest_length demo_net_reserves mem rc,
      where c = "([], [])" and sync = demo_sync and on_token = demo_callback
      and sample = "\<lambda>s l p g. (Ok 0, s :: unit)"]
  obtain c' request where r: "send_request tiny_requests demo_net demo_digest ''m'' demo_limits [1] ([], []) = (Ok (), c')"
    and all: "\<forall>n w rest. fst n = request @ rest \<longrightarrow>
      wp (serve_connection tiny_causal tiny_codec tiny_store tiny_requests demo_net demo_digest ''m'' demo_limits n)
        (\<lambda>n' (s', _). kept tiny_causal (generation_position tiny_codec) tiny_sound demo_whole ''m'' demo_limits
            demo_tiers s'
          \<and> (\<exists>answer. snd n' = snd n @ answer \<and> fst n' = rest \<and> (\<forall>k more. fst k = answer @ more \<longrightarrow>
              (\<exists>response k'. read_frame demo_net demo_digest k = (Ok response, k') \<and> fst k' = more \<and> ?good response))))
        (\<lambda>_ _. False) (tiny_cache, w)"
    by blast
  have "wp (serve_connection tiny_causal tiny_codec tiny_store tiny_requests demo_net demo_digest ''m'' demo_limits
      (request, []))
    (\<lambda>n' _. \<exists>response k'. read_frame demo_net demo_digest (snd n', []) = (Ok response, k')
       \<and> (\<forall>p. read_response tiny_causal tiny_codec tiny_store tiny_requests ''m'' demo_limits [1] response = Ok p
            \<longrightarrow> pre_tokens p = [1]))
    (\<lambda>_ _. False) (tiny_cache, [])"
  proof (rule wp_conseq [OF all [rule_format, of "(request, [])" "[]"]])
    fix n' and t :: "(int list, int, nat) tiered \<times> disk"
    assume "case t of (s', _) \<Rightarrow> kept tiny_causal (generation_position tiny_codec) tiny_sound demo_whole ''m''
        demo_limits demo_tiers s'
      \<and> (\<exists>answer. snd n' = snd (request, []) @ answer \<and> fst n' = [] \<and> (\<forall>k more. fst k = answer @ more \<longrightarrow>
          (\<exists>response k'. read_frame demo_net demo_digest k = (Ok response, k') \<and> fst k' = more \<and> ?good response)))"
    then have "\<forall>k more. fst k = snd n' @ more \<longrightarrow>
        (\<exists>response k'. read_frame demo_net demo_digest k = (Ok response, k') \<and> fst k' = more \<and> ?good response)"
      by (simp only: case_prod_unfold snd_conv append_Nil) blast
    from this [rule_format, of "(snd n', [])" "[]"] obtain response k' where
      "read_frame demo_net demo_digest (snd n', []) = (Ok response, k')" "?good response"
      by (simp only: fst_conv append_Nil2) blast
    with good show "\<exists>response k'. read_frame demo_net demo_digest (snd n', []) = (Ok response, k')
       \<and> (\<forall>p. read_response tiny_causal tiny_codec tiny_store tiny_requests ''m'' demo_limits [1] response = Ok p
            \<longrightarrow> pre_tokens p = [1])" by blast
  qed simp_all
  with r show ?thesis by blast
qed

end
