(* ===== verification/TrainingData.thy ===== *)
theory TrainingData
  imports Prelude "HOL-Library.Word" "HOL-Library.Multiset"
begin

text \<open>
  \<^verbatim>\<open>src/src/training/data.rs\<close> and the chat template of \<^verbatim>\<open>src/src/huggingface.rs\<close>: examples
  with masked labels, JSONL ingestion, collation and the resumable, sharded loader.

  The tokenizer, the JSON values and the lines of a file are parameters (\<open>reader\<close>). The
  generator works on 64-bit words, which wrap as \<open>wrapping_add\<close> and \<open>wrapping_mul\<close> do;
  the epoch is a word as well. An operation that can panic returns an option.
\<close>

unbundle bit_operations_syntax

section \<open>Examples\<close>

definition ignore_index :: int where
  "ignore_index = - 100"

record sft_example =
  input_ids :: "int list"
  labels :: "int list"

definition causal :: "int list \<Rightarrow> sft_example" where
  "causal ids = \<lparr>input_ids = ids, labels = ids\<rparr>"

definition example_targets :: "sft_example \<Rightarrow> nat" where
  "example_targets e = length (filter (\<lambda>l. l \<ge> 0) (drop 1 (labels e)))"

section \<open>The chat template\<close>

datatype chat_role = System | User | Assistant

record chat_message =
  role :: chat_role
  content :: string

fun role_str :: "chat_role \<Rightarrow> string" where
  "role_str System = ''system''"
| "role_str User = ''user''"
| "role_str Assistant = ''assistant''"

definition newline :: string where
  "newline = [CHR 0x0A]"

definition append_chat_message :: "string \<Rightarrow> chat_message \<Rightarrow> string" where
  "append_chat_message prompt m =
     prompt @ ''<|im_start|>'' @ role_str (role m) @ newline @ content m @ ''<|im_end|>'' @ newline"

definition render_chat :: "chat_message list \<Rightarrow> bool \<Rightarrow> (string, string) res" where
  "render_chat ms add_generation_prompt =
     (case ms of
        [] \<Rightarrow> Err ''Qwen chat requires at least one message''
      | m # rest \<Rightarrow>
          let prompt =
            (if role m = System then foldl append_chat_message (append_chat_message [] m) rest
             else foldl append_chat_message
               (append_chat_message [] \<lparr>role = System, content = ''You are a helpful assistant.''\<rparr>) (m # rest)) in
          Ok (if add_generation_prompt then prompt @ ''<|im_start|>assistant'' @ newline else prompt))"

section \<open>Records\<close>

datatype text_format = QwenChat | Plain

datatype data_error =
    TokenizerFailed string
  | TokenTooLarge
  | ContentNotString
  | BadRole "string option"
  | RenderFailed string
  | Misaligned
  | NoKnownFields
  | CannotOpen string
  | ReadFailed string
  | InvalidJson nat string
  | AtLine nat data_error

text \<open>What is behind the crates: token ids, JSON values, lines.\<close>

record ('v, 'ln) reader =
  token_ids_of :: "string \<Rightarrow> (string, nat list) res"
  field :: "string \<Rightarrow> 'v \<Rightarrow> 'v option"
  as_str :: "'v \<Rightarrow> string option"
  as_array :: "'v \<Rightarrow> 'v list option"
  is_blank :: "'ln \<Rightarrow> bool"
  parse_json :: "'ln \<Rightarrow> (string, 'v) res"

text \<open>\<open>collect\<close> into a result: the first error wins.\<close>

fun collect_res :: "('e, 'a) res list \<Rightarrow> ('e, 'a list) res" where
  "collect_res [] = Ok []"
| "collect_res (Ok a # rs) = (case collect_res rs of Ok as \<Rightarrow> Ok (a # as) | Err e \<Rightarrow> Err e | Panic \<Rightarrow> Panic)"
| "collect_res (Err e # rs) = Err e"
| "collect_res (Panic # rs) = Panic"

definition to_i32 :: "nat \<Rightarrow> (data_error, int) res" where
  "to_i32 n = (if n \<le> i32_max then Ok (int n) else Err TokenTooLarge)"

definition encode_text :: "('v, 'ln) reader \<Rightarrow> string \<Rightarrow> (data_error, int list) res" where
  "encode_text rd text =
     (case token_ids_of rd text of
        Err e \<Rightarrow> Err (TokenizerFailed e)
      | Panic \<Rightarrow> Panic
      | Ok ids \<Rightarrow> collect_res (map to_i32 ids))"

definition chat_role_of :: "('v, 'ln) reader \<Rightarrow> 'v \<Rightarrow> (data_error, chat_role) res" where
  "chat_role_of rd v =
     (let other = Option.bind (field rd ''role'' v) (as_str rd) in
      if other = Some ''system'' then Ok System
      else if other = Some ''user'' then Ok User
      else if other = Some ''assistant'' then Ok Assistant
      else Err (BadRole other))"

definition chat_message_of :: "('v, 'ln) reader \<Rightarrow> 'v \<Rightarrow> (data_error, chat_message) res" where
  "chat_message_of rd v =
     (case Option.bind (field rd ''content'' v) (as_str rd) of
        None \<Rightarrow> Err ContentNotString
      | Some c \<Rightarrow>
          (case chat_role_of rd v of
             Ok r \<Rightarrow> Ok \<lparr>role = r, content = c\<rparr> | Err e \<Rightarrow> Err e | Panic \<Rightarrow> Panic))"

definition encode_chat :: "('v, 'ln) reader \<Rightarrow> chat_message list \<Rightarrow> bool \<Rightarrow> (data_error, int list) res" where
  "encode_chat rd ms add_generation_prompt =
     (case render_chat ms add_generation_prompt of
        Err e \<Rightarrow> Err (RenderFailed e) | Panic \<Rightarrow> Panic | Ok s \<Rightarrow> encode_text rd s)"

definition starts_with :: "int list \<Rightarrow> int list \<Rightarrow> bool" where
  "starts_with xs p \<longleftrightarrow> take (length p) xs = p"

text \<open>\<open>labels[a..b].copy_from_slice(&input_ids[a..b])\<close>.\<close>

definition copy_slice :: "nat \<Rightarrow> nat \<Rightarrow> int list \<Rightarrow> int list \<Rightarrow> int list" where
  "copy_slice a b src dst = take a dst @ drop a (take b src) @ drop b dst"

text \<open>The loop over the messages, from message \<open>index\<close> on.\<close>

fun label_turns ::
  "('v, 'ln) reader \<Rightarrow> chat_message list \<Rightarrow> int list \<Rightarrow> nat \<Rightarrow> chat_message list \<Rightarrow> int list
   \<Rightarrow> (data_error, int list) res" where
  "label_turns rd ms ids index [] labs = Ok labs"
| "label_turns rd ms ids index (m # rest) labs =
     (if role m \<noteq> Assistant then label_turns rd ms ids (index + 1) rest labs
      else case encode_chat rd (take index ms) True of
        Err e \<Rightarrow> Err e
      | Panic \<Rightarrow> Panic
      | Ok start \<Rightarrow>
      (case encode_chat rd (take (index + 1) ms) False of
         Err e \<Rightarrow> Err e
       | Panic \<Rightarrow> Panic
       | Ok part_end \<Rightarrow>
           if \<not> starts_with ids start \<or> \<not> starts_with ids part_end then Err Misaligned
           else
             let stop = max (length part_end - 1) (length start) in
             label_turns rd ms ids (index + 1) rest (copy_slice (length start) stop ids labs)))"

definition chat_example :: "('v, 'ln) reader \<Rightarrow> 'v list \<Rightarrow> (data_error, sft_example) res" where
  "chat_example rd vs =
     (case collect_res (map (chat_message_of rd) vs) of
        Err e \<Rightarrow> Err e
      | Panic \<Rightarrow> Panic
      | Ok ms \<Rightarrow>
      (case encode_chat rd ms False of
         Err e \<Rightarrow> Err e
       | Panic \<Rightarrow> Panic
       | Ok ids \<Rightarrow>
         (case label_turns rd ms ids 0 ms (replicate (length ids) ignore_index) of
            Err e \<Rightarrow> Err e
          | Panic \<Rightarrow> Panic
          | Ok labs \<Rightarrow> Ok \<lparr>input_ids = ids, labels = labs\<rparr>)))"

definition str_field :: "('v, 'ln) reader \<Rightarrow> string \<Rightarrow> 'v \<Rightarrow> string option" where
  "str_field rd name v = Option.bind (field rd name v) (as_str rd)"

definition parse_record ::
  "('v, 'ln) reader \<Rightarrow> 'v \<Rightarrow> text_format \<Rightarrow> int option \<Rightarrow> (data_error, sft_example) res" where
  "parse_record rd v format eos_id =
     (case (if format = QwenChat then Option.bind (field rd ''messages'' v) (as_array rd) else None) of
        Some vs \<Rightarrow> chat_example rd vs
      | None \<Rightarrow>
          let ends = (case eos_id of Some e \<Rightarrow> [e] | None \<Rightarrow> []) in
          (case (str_field rd ''prompt'' v, str_field rd ''completion'' v) of
             (Some prompt, Some completion) \<Rightarrow>
               (case encode_text rd prompt of
                  Err e \<Rightarrow> Err e
                | Panic \<Rightarrow> Panic
                | Ok prompt \<Rightarrow>
                (case encode_text rd completion of
                   Err e \<Rightarrow> Err e
                 | Panic \<Rightarrow> Panic
                 | Ok completion \<Rightarrow>
                     Ok \<lparr>input_ids = prompt @ completion @ ends,
                         labels = replicate (length prompt) ignore_index @ completion @ ends\<rparr>))
           | _ \<Rightarrow>
               (case str_field rd ''text'' v of
                  Some text \<Rightarrow>
                    (case encode_text rd text of
                       Err e \<Rightarrow> Err e | Panic \<Rightarrow> Panic | Ok ids \<Rightarrow> Ok (causal (ids @ ends)))
                | None \<Rightarrow> Err NoKnownFields)))"

section \<open>JSONL\<close>

definition truncate_example :: "nat \<Rightarrow> sft_example \<Rightarrow> sft_example" where
  "truncate_example n e = \<lparr>input_ids = take n (input_ids e), labels = take n (labels e)\<rparr>"

definition too_short :: "sft_example \<Rightarrow> bool" where
  "too_short e \<longleftrightarrow> length (input_ids e) < 2 \<or> example_targets e = 0"

text \<open>The loop over the numbered lines, with the examples and the count of skipped records.\<close>

fun read_lines ::
  "('v, 'ln) reader \<Rightarrow> text_format \<Rightarrow> int option \<Rightarrow> nat \<Rightarrow> nat \<Rightarrow> (string, 'ln) res list
   \<Rightarrow> sft_example list \<Rightarrow> nat \<Rightarrow> (data_error, sft_example list \<times> nat) res" where
  "read_lines rd format eos_id max_tokens number [] examples skipped = Ok (examples, skipped)"
| "read_lines rd format eos_id max_tokens number (line # rest) examples skipped =
     (case line of
        Err e \<Rightarrow> Err (ReadFailed e)
      | Panic \<Rightarrow> Panic
      | Ok l \<Rightarrow>
      if is_blank rd l then read_lines rd format eos_id max_tokens (number + 1) rest examples skipped
      else (case parse_json rd l of
        Err e \<Rightarrow> Err (InvalidJson (number + 1) e)
      | Panic \<Rightarrow> Panic
      | Ok v \<Rightarrow>
      (case parse_record rd v format eos_id of
         Err e \<Rightarrow> Err (AtLine (number + 1) e)
       | Panic \<Rightarrow> Panic
       | Ok e \<Rightarrow>
           let e = truncate_example max_tokens e in
           if too_short e then read_lines rd format eos_id max_tokens (number + 1) rest examples (skipped + 1)
           else read_lines rd format eos_id max_tokens (number + 1) rest (examples @ [e]) skipped)))"

definition from_jsonl ::
  "('v, 'ln) reader \<Rightarrow> (string, (string, 'ln) res list) res \<Rightarrow> text_format \<Rightarrow> int option \<Rightarrow> nat
   \<Rightarrow> (data_error, sft_example list \<times> nat) res" where
  "from_jsonl rd file format eos_id max_tokens =
     (case file of
        Err e \<Rightarrow> Err (CannotOpen e)
      | Panic \<Rightarrow> Panic
      | Ok lines \<Rightarrow> read_lines rd format eos_id max_tokens 0 lines [] 0)"

section \<open>Collation\<close>

record sft_batch =
  batch_rows :: nat
  batch_length :: nat
  batch_tokens :: "int list"
  batch_targets :: "int list"
  batch_target_count :: nat

definition collate_length :: "sft_example list \<Rightarrow> nat" where
  "collate_length es = max (foldr max (map (\<lambda>e. length (input_ids e) - 1) es) 0) 1"

definition collate_row :: "nat \<Rightarrow> int \<Rightarrow> sft_example \<Rightarrow> int list" where
  "collate_row len pad e =
     (let inputs = take (length (input_ids e) - 1) (input_ids e) in
      inputs @ replicate (len - length inputs) pad)"

definition collate_labels :: "nat \<Rightarrow> sft_example \<Rightarrow> int list" where
  "collate_labels len e =
     (let labs = drop 1 (labels e) in labs @ replicate (len - length labs) ignore_index)"

text \<open>\<open>length - labels.len()\<close> underflows when an example has more labels than tokens.\<close>

definition collate :: "sft_example list \<Rightarrow> int \<Rightarrow> sft_batch option" where
  "collate es pad =
     (let len = collate_length es in
      if list_ex (\<lambda>e. length (drop 1 (labels e)) > len) es then None
      else
        let tokens = concat (map (collate_row len pad) es);
            targets = concat (map (collate_labels len) es) in
        Some \<lparr>batch_rows = length es, batch_length = len, batch_tokens = tokens, batch_targets = targets,
              batch_target_count = length (filter (\<lambda>t. t \<ge> 0) targets)\<rparr>)"

section \<open>The loader\<close>

record sft_loader_state =
  epoch :: "64 word"
  cursor :: nat
  seed :: "64 word"

record sft_loader =
  examples_of :: "sft_example list"
  micro_batch :: nat
  pad_token_id :: int
  length_window :: nat
  rank :: nat
  world_size :: nat
  position :: sft_loader_state
  order :: "nat list"

definition split_mix :: "64 word \<Rightarrow> 64 word \<times> 64 word" where
  "split_mix state =
     (let state = state + 0x9E3779B97F4A7C15;
          value = (state XOR drop_bit 30 state) * 0xBF58476D1CE4E5B9;
          value = (value XOR drop_bit 27 value) * 0x94D049BB133111EB in
      (value XOR drop_bit 31 value, state))"

definition swap_at :: "nat \<Rightarrow> nat \<Rightarrow> 'a list \<Rightarrow> 'a list" where
  "swap_at i j xs = xs[i := xs ! j, j := xs ! i]"

text \<open>\<open>for index in (1..count).rev()\<close>, from \<open>index\<close> down.\<close>

fun shuffle_down :: "nat \<Rightarrow> 64 word \<Rightarrow> nat list \<Rightarrow> nat list" where
  "shuffle_down 0 state xs = xs"
| "shuffle_down (Suc i) state xs =
     (case split_mix state of (v, state) \<Rightarrow>
        shuffle_down i state (swap_at (Suc i) (unat v mod (Suc i + 1)) xs))"

text \<open>The windows of \<open>chunks_mut\<close>; the window is never 0.\<close>

function windows :: "nat \<Rightarrow> 'a list \<Rightarrow> 'a list list" where
  "windows n xs = (if n = 0 \<or> xs = [] then [] else take n xs # windows n (drop n xs))"
  by auto
termination by (relation "measure (\<lambda>(n, xs). length xs)") auto

declare windows.simps [simp del]

definition epoch_order :: "sft_example list \<Rightarrow> nat \<Rightarrow> 64 word \<Rightarrow> 64 word \<Rightarrow> nat list" where
  "epoch_order es window sd ep =
     (let n = length es;
          shuffled = shuffle_down (n - 1) (sd XOR (ep * 0xA24BAED4963EE407)) [0..<n] in
      concat (map (sort_key (\<lambda>i. length (input_ids (es ! i)))) (windows window shuffled)))"

definition reorder :: "sft_loader \<Rightarrow> sft_loader" where
  "reorder l = l\<lparr>order := epoch_order (examples_of l) (length_window l) (seed (position l)) (epoch (position l))\<rparr>"

text \<open>The constructor asserts, so it is an option.\<close>

definition new_loader :: "sft_example list \<Rightarrow> nat \<Rightarrow> int \<Rightarrow> 64 word \<Rightarrow> sft_loader option" where
  "new_loader es mb pad sd =
     (if es = [] \<or> mb = 0 then None
      else Some (reorder \<lparr>examples_of = es, micro_batch = mb, pad_token_id = pad, length_window = 64,
        rank = 0, world_size = 1, position = \<lparr>epoch = 0, cursor = 0, seed = sd\<rparr>, order = []\<rparr>))"

definition with_shard :: "nat \<Rightarrow> nat \<Rightarrow> sft_loader \<Rightarrow> sft_loader option" where
  "with_shard r ws l = (if ws > 0 \<and> r < ws then Some (l\<lparr>rank := r, world_size := ws\<rparr>) else None)"

definition with_length_window :: "nat \<Rightarrow> sft_loader \<Rightarrow> sft_loader" where
  "with_length_window window l = reorder (l\<lparr>length_window := max window 1\<rparr>)"

definition restore_loader :: "sft_loader_state \<Rightarrow> sft_loader \<Rightarrow> sft_loader" where
  "restore_loader st l = reorder (l\<lparr>position := st\<rparr>)"

definition batches_per_epoch :: "sft_loader \<Rightarrow> nat" where
  "batches_per_epoch l = div_ceil (length (examples_of l)) (micro_batch l)"

definition next_global :: "sft_loader \<Rightarrow> (sft_batch \<times> sft_loader) option" where
  "next_global l =
     (let l = (if cursor (position l) \<ge> length (order l)
               then reorder (l\<lparr>position := (position l)\<lparr>epoch := epoch (position l) + 1, cursor := 0\<rparr>\<rparr>)
               else l) in
      case checked_add (cursor (position l)) (micro_batch l) of
        None \<Rightarrow> None
      | Some e \<Rightarrow>
          let stop = min e (length (order l)) in
          (case collate (map (\<lambda>i. examples_of l ! i) (drop (cursor (position l)) (take stop (order l))))
                        (pad_token_id l) of
             None \<Rightarrow> None
           | Some b \<Rightarrow> Some (b, l\<lparr>position := (position l)\<lparr>cursor := stop\<rparr>\<rparr>)))"

text \<open>The loop over the shards: the batch of this rank is kept.\<close>

fun shard_loop :: "nat \<Rightarrow> nat \<Rightarrow> sft_batch option \<Rightarrow> sft_loader \<Rightarrow> (sft_batch option \<times> sft_loader) option" where
  "shard_loop 0 shard kept l = Some (kept, l)"
| "shard_loop (Suc n) shard kept l =
     (case next_global l of
        None \<Rightarrow> None
      | Some (b, l) \<Rightarrow> shard_loop n (shard + 1) (if shard = rank l then Some b else kept) l)"

definition next_batch :: "sft_loader \<Rightarrow> (sft_batch \<times> sft_loader) option" where
  "next_batch l =
     (case shard_loop (world_size l) 0 None l of
        Some (Some b, l) \<Rightarrow> Some (b, l)
      | _ \<Rightarrow> None)"

end
