(* ===== verification/TrainingDataInv.thy ===== *)
theory TrainingDataInv
  imports TrainingData
begin

text \<open>
  Lemmas on the training data: permutations and windows, the loader invariant \<open>loader_ok\<close> and
  the global stream \<open>globals\<close>, shards, one epoch, and the labels of chats and records.
\<close>

section \<open>The order of an epoch\<close>

lemma mset_swap_at: "i < length xs \<Longrightarrow> j < length xs \<Longrightarrow> mset (swap_at i j xs) = mset xs"
  unfolding swap_at_def by (rule mset_swap)

lemma length_swap_at [simp]: "length (swap_at i j xs) = length xs"
  by (simp add: swap_at_def)

lemma mset_shuffle_down: "i < length xs \<or> i = 0 \<Longrightarrow> mset (shuffle_down i state xs) = mset xs"
proof (induction i arbitrary: state xs)
  case (Suc i)
  have "unat v mod (Suc i + 1) < length xs" for v :: "64 word"
  proof -
    have "Suc i + 1 \<le> length xs" using Suc.prems by auto
    then show ?thesis by (rule less_le_trans [OF mod_less_divisor, rotated]) simp
  qed
  then show ?case
    using Suc by (auto simp: mset_swap_at split: prod.split)
qed simp

lemma concat_windows: "n \<noteq> 0 \<Longrightarrow> concat (windows n xs) = xs"
  by (induction n xs rule: windows.induct) (subst windows.simps, simp)

lemma mset_windows: "n \<noteq> 0 \<Longrightarrow> (\<And>ys. mset (f ys) = mset ys) \<Longrightarrow> mset (concat (map f (windows n xs))) = mset xs"
proof (induction n xs rule: windows.induct)
  case (1 n xs)
  show ?case
  proof (cases "xs = []")
    case True
    then show ?thesis by (simp add: windows.simps)
  next
    case False
    have "mset (concat (map f (windows n (drop n xs)))) = mset (drop n xs)"
      by (rule "1.IH") (use 1 False in auto)
    moreover have "mset xs = mset (take n xs) + mset (drop n xs)"
      by (simp flip: mset_append)
    ultimately show ?thesis using "1.prems" False by (subst windows.simps) simp
  qed
qed

lemma length_windows: "n \<noteq> 0 \<Longrightarrow> length (windows n xs) = div_ceil (length xs) n"
proof (induction n xs rule: windows.induct)
  case (1 n xs)
  show ?case
  proof (cases "xs = []")
    case True
    then show ?thesis by (simp add: windows.simps div_ceil_def)
  next
    case False
    have "length (windows n (drop n xs)) = div_ceil (length xs - n) n"
      using 1 False by simp
    moreover have "Suc (div_ceil (length xs - n) n) = div_ceil (length xs) n"
    proof (cases "length xs < n")
      case True
      then show ?thesis using False by (simp add: div_ceil_def)
    next
      case ge: False
      then show ?thesis using "1.prems" by (simp add: div_ceil_def le_div_geq le_mod_geq)
    qed
    ultimately show ?thesis using "1.prems" False by (subst windows.simps) simp
  qed
qed

text \<open>Windows that keep their lengths are the windows of their concatenation.\<close>

lemma windows_map:
  assumes "n \<noteq> 0" and "\<And>ys. length (f ys) = length ys"
  shows "windows n (concat (map f (windows n xs))) = map f (windows n xs)"
  using assms(1)
proof (induction n xs rule: windows.induct)
  case (1 n xs)
  show ?case
  proof (cases "xs = []")
    case True
    then show ?thesis by (simp add: windows.simps)
  next
    case False
    let ?rest = "windows n (drop n xs)"
    have IH: "windows n (concat (map f ?rest)) = map f ?rest" using 1 False by simp
    have step: "windows n xs = take n xs # ?rest" using "1.prems" False by (subst windows.simps) simp
    have "length (f (take n xs)) \<noteq> 0" using assms(2) [of "take n xs"] False "1.prems" by (cases n) auto
    then have ne: "f (take n xs) \<noteq> []" by auto
    show ?thesis
    proof (cases "length xs \<le> n")
      case True
      then have "?rest = []" by (simp add: windows.simps)
      then show ?thesis
        using ne True assms(2) [of "take n xs"] "1.prems" unfolding step
        by (subst windows.simps) (simp add: windows.simps)
    next
      case long: False
      then have "length (f (take n xs)) = n" using assms(2) [of "take n xs"] by simp
      then show ?thesis using ne IH "1.prems" unfolding step by (subst windows.simps) simp
    qed
  qed
qed

lemma mset_epoch_order: "window \<noteq> 0 \<Longrightarrow> mset (epoch_order es window sd ep) = mset [0..<length es]"
proof -
  have "mset (shuffle_down (length es - 1) st [0..<length es]) = mset [0..<length es]" for st
    by (rule mset_shuffle_down) (cases es; simp)
  then show "window \<noteq> 0 \<Longrightarrow> ?thesis" unfolding epoch_order_def Let_def by (subst mset_windows) simp_all
qed

lemma epoch_order_facts:
  assumes "window \<noteq> 0"
  shows "distinct (epoch_order es window sd ep)" "set (epoch_order es window sd ep) = {0..<length es}"
    "length (epoch_order es window sd ep) = length es"
proof -
  note m = mset_epoch_order [OF assms, of es sd ep]
  show "distinct (epoch_order es window sd ep)" using mset_eq_imp_distinct_iff [OF m] by simp
  show "set (epoch_order es window sd ep) = {0..<length es}" using mset_eq_setD [OF m] by simp
  show "length (epoch_order es window sd ep) = length es" using mset_eq_length [OF m] by simp
qed

lemma epoch_order_sorted:
  assumes "window \<noteq> 0" and "w \<in> set (windows window (epoch_order es window sd ep))"
  shows "sorted (map (\<lambda>i. length (input_ids (es ! i))) w)"
  using assms(2) unfolding epoch_order_def Let_def
  by (subst (asm) windows_map) (use assms(1) in auto)

section \<open>The invariant of a loader\<close>

text \<open>The examples can be collated, the order is that of the epoch and the sizes are \<open>usize\<close>.\<close>

definition aligned :: "sft_example \<Rightarrow> bool" where
  "aligned e \<longleftrightarrow> length (labels e) = length (input_ids e)
     \<and> (\<forall>i<length (labels e). labels e ! i = ignore_index \<or> labels e ! i = input_ids e ! i)"

definition same_setup :: "sft_loader \<Rightarrow> sft_loader \<Rightarrow> bool" where
  "same_setup l k \<longleftrightarrow> k = l\<lparr>position := position k, order := order k\<rparr> \<and> seed (position k) = seed (position l)"

definition loader_ok :: "sft_loader \<Rightarrow> bool" where
  "loader_ok l \<longleftrightarrow>
     examples_of l \<noteq> [] \<and> (\<forall>e\<in>set (examples_of l). length (labels e) \<le> length (input_ids e))
     \<and> micro_batch l \<noteq> 0 \<and> length_window l \<noteq> 0 \<and> length (examples_of l) + micro_batch l \<le> usize_max
     \<and> order l = epoch_order (examples_of l) (length_window l) (seed (position l)) (epoch (position l))"

lemma loader_ok_order:
  assumes "loader_ok l"
  shows "length (order l) = length (examples_of l)" "set (order l) = {0..<length (examples_of l)}"
    "distinct (order l)"
  using assms epoch_order_facts unfolding loader_ok_def by auto

lemma reorder_fixed: "loader_ok l \<Longrightarrow> reorder l = l"
  by (simp add: loader_ok_def reorder_def)

section \<open>Collation\<close>

lemma foldr_max_ge: "(x :: nat) \<in> set xs \<Longrightarrow> x \<le> foldr max xs 0"
  by (induction xs) auto

lemma collate_length_ge: "e \<in> set es \<Longrightarrow> length (input_ids e) - 1 \<le> collate_length es"
  unfolding collate_length_def by (rule le_trans [OF foldr_max_ge max.cobounded1]) auto

lemma collate_Some:
  assumes "\<forall>e\<in>set es. length (labels e) \<le> length (input_ids e)"
  shows "collate es pad = Some \<lparr>batch_rows = length es, batch_length = collate_length es,
    batch_tokens = concat (map (collate_row (collate_length es) pad) es),
    batch_targets = concat (map (collate_labels (collate_length es)) es),
    batch_target_count =
      length (filter (\<lambda>t. t \<ge> 0) (concat (map (collate_labels (collate_length es)) es)))\<rparr>"
proof -
  have "\<not> list_ex (\<lambda>e. length (drop 1 (labels e)) > collate_length es) es"
    using assms collate_length_ge by (fastforce simp: list_ex_iff)
  then show ?thesis by (simp add: collate_def Let_def)
qed

text \<open>A slice of equal rows.\<close>

lemma concat_slice:
  assumes "\<And>x. x \<in> set xs \<Longrightarrow> length (f x) = n" and "i < length xs" and "j < n"
  shows "concat (map f xs) ! (i * n + j) = f (xs ! i) ! j"
  using assms
proof (induction xs arbitrary: i)
  case (Cons x xs)
  show ?case
  proof (cases i)
    case 0
    then show ?thesis using Cons.prems by (simp add: nth_append)
  next
    case (Suc k)
    have "concat (map f xs) ! (k * n + j) = f (xs ! k) ! j"
      by (rule Cons.IH) (use Cons.prems Suc in auto)
    moreover have "length (f x) = n" using Cons.prems(1) by simp
    ultimately show ?thesis using Suc by (simp add: nth_append)
  qed
qed simp

lemma length_concat_rows: "(\<And>x. x \<in> set xs \<Longrightarrow> length (f x) = n) \<Longrightarrow> length (concat (map f xs)) = length xs * n"
  by (induction xs) auto

lemma length_collate_row: "e \<in> set es \<Longrightarrow> length (collate_row (collate_length es) pad e) = collate_length es"
  using collate_length_ge [of e es] by (simp add: collate_row_def Let_def)

lemma length_collate_labels:
  "e \<in> set es \<Longrightarrow> length (labels e) \<le> length (input_ids e) \<Longrightarrow>
     length (collate_labels (collate_length es) e) = collate_length es"
  using collate_length_ge [of e es] by (simp add: collate_labels_def Let_def)

lemma targets_of_rows:
  "length (filter (\<lambda>t. t \<ge> 0) (concat (map (collate_labels n) es))) = sum_list (map example_targets es)"
proof (induction es)
  case (Cons e es)
  have "filter (\<lambda>t. t \<ge> 0) (replicate k ignore_index) = []" for k
    by (simp add: ignore_index_def)
  then show ?case using Cons by (simp add: collate_labels_def Let_def example_targets_def)
qed simp

section \<open>The global stream\<close>

text \<open>The next \<open>n\<close> global micro-batches.\<close>

fun globals :: "nat \<Rightarrow> sft_loader \<Rightarrow> (sft_batch list \<times> sft_loader) option" where
  "globals 0 l = Some ([], l)"
| "globals (Suc n) l =
     (case next_global l of
        None \<Rightarrow> None
      | Some (b, l) \<Rightarrow> (case globals n l of None \<Rightarrow> None | Some (bs, l) \<Rightarrow> Some (b # bs, l)))"

text \<open>The loader at the start of the next epoch, when this one is used up.\<close>

definition rolled :: "sft_loader \<Rightarrow> sft_loader" where
  "rolled l = (if cursor (position l) \<ge> length (order l)
     then reorder (l\<lparr>position := (position l)\<lparr>epoch := epoch (position l) + 1, cursor := 0\<rparr>\<rparr>) else l)"

definition batch_of :: "sft_loader \<Rightarrow> nat list \<Rightarrow> sft_batch" where
  "batch_of l w = the (collate (map (\<lambda>i. examples_of l ! i) w) (pad_token_id l))"

lemma rolled_ok:
  assumes "loader_ok l"
  shows "loader_ok (rolled l)" "same_setup l (rolled l)" "cursor (position (rolled l)) < length (order (rolled l))"
proof -
  show ok: "loader_ok (rolled l)" using assms by (simp add: rolled_def loader_ok_def reorder_def)
  show "same_setup l (rolled l)" by (cases l) (simp add: rolled_def same_setup_def reorder_def)
  have "length (order (rolled l)) \<noteq> 0" using loader_ok_order(1) [OF ok] ok by (simp add: loader_ok_def)
  then show "cursor (position (rolled l)) < length (order (rolled l))"
    by (auto simp: rolled_def reorder_def)
qed

lemma next_global_eq:
  assumes "loader_ok l"
  defines "k \<equiv> rolled l"
  shows "next_global l = Some (batch_of l (take (micro_batch l) (drop (cursor (position k)) (order k))),
    k\<lparr>position := (position k)\<lparr>cursor := min (cursor (position k) + micro_batch l) (length (order k))\<rparr>\<rparr>)"
proof -
  have k: "loader_ok k" "same_setup l k" "cursor (position k) < length (order k)"
    unfolding k_def using rolled_ok [OF assms(1)] by auto
  have same: "examples_of k = examples_of l" "micro_batch k = micro_batch l" "pad_token_id k = pad_token_id l"
    using k(2) unfolding same_setup_def by (metis sft_loader.select_convs sft_loader.surjective sft_loader.update_convs)+
  have small: "cursor (position k) + micro_batch l \<le> usize_max"
    using k(1,3) loader_ok_order(1) [OF k(1)] same by (simp add: loader_ok_def)
  let ?w = "take (micro_batch l) (drop (cursor (position k)) (order k))"
  have slice: "drop (cursor (position k)) (take (min (cursor (position k) + micro_batch l) (length (order k))) (order k)) = ?w"
    by (simp add: min_def drop_take)
  have "set ?w \<subseteq> {0..<length (examples_of l)}"
    using loader_ok_order(2) [OF k(1)] same by (metis set_drop_subset set_take_subset subset_trans)
  then have "\<forall>e\<in>set (map (\<lambda>i. examples_of l ! i) ?w). length (labels e) \<le> length (input_ids e)"
    using assms(1) unfolding loader_ok_def by fastforce
  from collate_Some [OF this] have c: "collate (map (\<lambda>i. examples_of l ! i) ?w) (pad_token_id l) = Some (batch_of l ?w)"
    by (simp add: batch_of_def)
  have "next_global l = (case checked_add (cursor (position k)) (micro_batch k) of
        None \<Rightarrow> None
      | Some e \<Rightarrow>
          (case collate (map (\<lambda>i. examples_of k ! i) (drop (cursor (position k)) (take (min e (length (order k))) (order k))))
                        (pad_token_id k) of
             None \<Rightarrow> None
           | Some b \<Rightarrow> Some (b, k\<lparr>position := (position k)\<lparr>cursor := min e (length (order k))\<rparr>\<rparr>)))"
    by (simp only: next_global_def k_def rolled_def Let_def)
  then show ?thesis using small by (simp add: same checked_add_def slice c)
qed

lemma same_setupD:
  assumes "same_setup l k"
  shows "examples_of k = examples_of l" "micro_batch k = micro_batch l" "pad_token_id k = pad_token_id l"
    "length_window k = length_window l" "rank k = rank l" "world_size k = world_size l"
  using assms unfolding same_setup_def
  by (metis sft_loader.select_convs sft_loader.surjective sft_loader.update_convs)+

lemma same_setup_refl: "same_setup l l"
  by (simp add: same_setup_def)

lemma same_setup_trans: "same_setup l k \<Longrightarrow> same_setup k m \<Longrightarrow> same_setup l m"
  unfolding same_setup_def by (cases l; cases k; cases m) simp

lemma same_setup_cursor: "same_setup l (l\<lparr>position := (position l)\<lparr>cursor := c\<rparr>\<rparr>)"
  by (cases l) (simp add: same_setup_def)

lemma next_global_keeps:
  assumes "loader_ok l"
  obtains b k where "next_global l = Some (b, k)" "loader_ok k" "same_setup l k"
proof
  let ?k = "(rolled l)\<lparr>position := (position (rolled l))\<lparr>cursor :=
      min (cursor (position (rolled l)) + micro_batch l) (length (order (rolled l)))\<rparr>\<rparr>"
  show "next_global l = Some (batch_of l (take (micro_batch l) (drop (cursor (position (rolled l))) (order (rolled l)))), ?k)"
    by (rule next_global_eq [OF assms])
  show "loader_ok ?k" using rolled_ok(1) [OF assms] by (simp add: loader_ok_def)
  show "same_setup l ?k" by (rule same_setup_trans [OF rolled_ok(2) [OF assms] same_setup_cursor])
qed

lemma globals_keeps:
  assumes "loader_ok l"
  obtains bs k where "globals n l = Some (bs, k)" "length bs = n" "loader_ok k" "same_setup l k"
proof -
  have "\<exists>bs k. globals n l = Some (bs, k) \<and> length bs = n \<and> loader_ok k \<and> same_setup l k"
    using assms
  proof (induction n arbitrary: l)
    case (Suc n)
    obtain b k where k: "next_global l = Some (b, k)" "loader_ok k" "same_setup l k"
      by (rule next_global_keeps [OF Suc.prems])
    from Suc.IH [OF k(2)] obtain bs m where
      "globals n k = Some (bs, m)" "length bs = n" "loader_ok m" "same_setup k m" by blast
    then show ?case using k same_setup_trans [OF k(3)] by simp
  qed (simp add: same_setup_refl)
  then show ?thesis using that by blast
qed

lemma globals_add:
  "globals (m + n) l = (case globals m l of None \<Rightarrow> None
     | Some (bs, k) \<Rightarrow> (case globals n k of None \<Rightarrow> None | Some (cs, j) \<Rightarrow> Some (bs @ cs, j)))"
  by (induction m arbitrary: l) (auto split: option.split prod.split)

section \<open>Shards\<close>

abbreviation sharded :: "nat \<Rightarrow> nat \<Rightarrow> sft_loader \<Rightarrow> sft_loader" where
  "sharded r ws l \<equiv> l\<lparr>rank := r, world_size := ws\<rparr>"

lemma next_global_rolled:
  "next_global l = (let k = rolled l in
     case checked_add (cursor (position k)) (micro_batch k) of
       None \<Rightarrow> None
     | Some e \<Rightarrow>
         (case collate (map (\<lambda>i. examples_of k ! i) (drop (cursor (position k)) (take (min e (length (order k))) (order k))))
                       (pad_token_id k) of
            None \<Rightarrow> None
          | Some b \<Rightarrow> Some (b, k\<lparr>position := (position k)\<lparr>cursor := min e (length (order k))\<rparr>\<rparr>)))"
  by (simp only: next_global_def rolled_def Let_def)

lemma next_global_sharded:
  "next_global (sharded r ws l) = map_option (\<lambda>(b, k). (b, sharded r ws k)) (next_global l)"
proof -
  have "rolled (sharded r ws l) = sharded r ws (rolled l)"
    by (cases l) (simp add: rolled_def reorder_def)
  then show ?thesis
    unfolding next_global_rolled Let_def by (cases "rolled l") (auto simp: checked_add_def split: option.split)
qed

lemma shard_loop_globals:
  "shard_loop n i kept (sharded r ws l) =
     map_option (\<lambda>(bs, k). (if i \<le> r \<and> r < i + n then Some (bs ! (r - i)) else kept, sharded r ws k)) (globals n l)"
proof (induction n arbitrary: i kept l)
  case (Suc n)
  show ?case
  proof (cases "next_global l")
    case (Some q)
    obtain b k where q: "q = (b, k)" by (cases q)
    show ?thesis
    proof (cases "globals n k")
      case None
      then show ?thesis using Some q Suc.IH by (simp add: next_global_sharded)
    next
      case (Some q2)
      obtain bs m where q2: "q2 = (bs, m)" by (cases q2)
      have "r - i = Suc (r - Suc i)" if "i \<le> r" "i \<noteq> r" using that by simp
      then show ?thesis
        using \<open>next_global l = Some q\<close> q Some q2 Suc.IH [of "Suc i" _ k]
        by (auto simp: next_global_sharded)
    qed
  qed (simp add: next_global_sharded)
qed auto

lemma next_batch_globals:
  "r < ws \<Longrightarrow> next_batch (sharded r ws l) = map_option (\<lambda>(bs, k). (bs ! r, sharded r ws k)) (globals ws l)"
  using shard_loop_globals [of ws 0 None ws r l]
  by (simp add: next_batch_def split: option.split prod.split)

text \<open>The next \<open>n\<close> micro-batches of one rank.\<close>

fun batches :: "nat \<Rightarrow> sft_loader \<Rightarrow> (sft_batch list \<times> sft_loader) option" where
  "batches 0 l = Some ([], l)"
| "batches (Suc n) l =
     (case next_batch l of
        None \<Rightarrow> None
      | Some (b, l) \<Rightarrow> (case batches n l of None \<Rightarrow> None | Some (bs, l) \<Rightarrow> Some (b # bs, l)))"

lemma batches_globals:
  assumes "loader_ok l" and "r < ws"
  shows "\<exists>bs k. globals (n * ws) l = Some (bs, k) \<and> length bs = n * ws \<and> loader_ok k \<and> same_setup l k
    \<and> batches n (sharded r ws l) = Some (map (\<lambda>i. bs ! (i * ws + r)) [0..<n], sharded r ws k)"
  using assms(1)
proof (induction n arbitrary: l)
  case (Suc n)
  obtain bs k where k: "globals ws l = Some (bs, k)" "length bs = ws" "loader_ok k" "same_setup l k"
    by (rule globals_keeps [OF Suc.prems])
  from Suc.IH [OF k(3)] obtain cs m where m: "globals (n * ws) k = Some (cs, m)" "length cs = n * ws"
    "loader_ok m" "same_setup k m"
    "batches n (sharded r ws k) = Some (map (\<lambda>i. cs ! (i * ws + r)) [0..<n], sharded r ws m)" by blast
  have shift: "map (\<lambda>i. (bs @ cs) ! (i * ws + r)) [0..<Suc n] = bs ! r # map (\<lambda>i. cs ! (i * ws + r)) [0..<n]"
    using assms(2) k(2) by (simp add: map_upt_Suc nth_append del: upt_Suc)
  have "batches (Suc n) (sharded r ws l) = Some (map (\<lambda>i. (bs @ cs) ! (i * ws + r)) [0..<Suc n], sharded r ws m)"
    unfolding shift using m(5) k(1) by (simp add: next_batch_globals [OF assms(2)])
  moreover have "globals (Suc n * ws) l = Some (bs @ cs, m)" using k(1) m(1) by (simp add: globals_add)
  ultimately show ?case using k(2) m(2-4) same_setup_trans [OF k(4)] by auto
qed (simp add: same_setup_refl)

section \<open>One epoch\<close>

lemma globals_epoch:
  assumes "loader_ok l" and "cursor (position l) \<le> length (order l)"
  shows "globals (length (windows (micro_batch l) (drop (cursor (position l)) (order l)))) l
    = Some (map (batch_of l) (windows (micro_batch l) (drop (cursor (position l)) (order l))),
        l\<lparr>position := (position l)\<lparr>cursor := length (order l)\<rparr>\<rparr>)"
  using assms
proof (induction "length (order l) - cursor (position l)" arbitrary: l rule: less_induct)
  case less
  let ?c = "cursor (position l)" and ?n = "micro_batch l"
  have n: "?n \<noteq> 0" using less.prems(1) by (simp add: loader_ok_def)
  show ?case
  proof (cases "?c = length (order l)")
    case True
    then show ?thesis by (simp add: windows.simps)
  next
    case False
    then have c: "?c < length (order l)" using less.prems(2) by simp
    let ?k = "l\<lparr>position := (position l)\<lparr>cursor := min (?c + ?n) (length (order l))\<rparr>\<rparr>"
    have rolled: "rolled l = l" using c by (simp add: rolled_def)
    have step: "next_global l = Some (batch_of l (take ?n (drop ?c (order l))), ?k)"
      using next_global_eq [OF less.prems(1)] by (simp add: rolled)
    have win: "windows ?n (drop ?c (order l))
        = take ?n (drop ?c (order l)) # windows ?n (drop (cursor (position ?k)) (order ?k))"
      using c n by (subst windows.simps) (simp add: min_def add.commute)
    have ok: "loader_ok ?k" using less.prems(1) by (simp add: loader_ok_def)
    have "batch_of ?k = batch_of l" by (rule ext) (simp add: batch_of_def)
    then show ?thesis
      using less.hyps [of ?k] c n ok unfolding win by (simp add: step)
  qed
qed

lemma batch_of_targets:
  assumes "loader_ok l" and "set w \<subseteq> {0..<length (examples_of l)}"
  shows "batch_target_count (batch_of l w) = sum_list (map (\<lambda>i. example_targets (examples_of l ! i)) w)"
proof -
  have "\<forall>e\<in>set (map (\<lambda>i. examples_of l ! i) w). length (labels e) \<le> length (input_ids e)"
    using assms unfolding loader_ok_def by fastforce
  from collate_Some [OF this] show ?thesis
    by (simp only: batch_of_def option.sel sft_batch.select_convs targets_of_rows) (simp add: comp_def)
qed

lemma sum_list_mset_eq: "mset xs = mset ys \<Longrightarrow> sum_list (map f xs) = (sum_list (map f ys) :: nat)"
  by (metis mset_map sum_mset_sum_list)

lemma sum_windows: "n \<noteq> 0 \<Longrightarrow> sum_list (map (\<lambda>w. sum_list (map f w)) (windows n xs)) = (sum_list (map f xs) :: nat)"
proof (induction n xs rule: windows.induct)
  case (1 n xs)
  have "sum_list (map f xs) = sum_list (map f (take n xs)) + sum_list (map f (drop n xs))"
    by (simp flip: sum_list_append map_append)
  then show ?case using 1 by (subst windows.simps) simp
qed

lemma windows_subset: "w \<in> set (windows n xs) \<Longrightarrow> set w \<subseteq> set xs"
proof (induction n xs rule: windows.induct)
  case (1 n xs)
  then show ?case
    by (subst (asm) (2) windows.simps) (auto split: if_splits dest: in_set_takeD in_set_dropD)
qed

section \<open>Labels\<close>

lemma length_copy_slice: "a \<le> b \<Longrightarrow> b \<le> length src \<Longrightarrow> length dst = length src \<Longrightarrow> length (copy_slice a b src dst) = length dst"
  by (simp add: copy_slice_def)

lemma nth_copy_slice:
  "a \<le> b \<Longrightarrow> b \<le> length src \<Longrightarrow> length dst = length src \<Longrightarrow> i < length dst \<Longrightarrow>
     copy_slice a b src dst ! i = (if a \<le> i \<and> i < b then src ! i else dst ! i)"
  by (auto simp: copy_slice_def nth_append)

lemma starts_with_length: "starts_with xs p \<Longrightarrow> length p \<le> length xs"
  unfolding starts_with_def by (metis length_take min.cobounded1)

text \<open>Position \<open>i\<close> is in an assistant turn of the first \<open>n\<close> messages: after the header of the
  turn and before the line break that follows its end mark.\<close>

definition turn_at :: "('v, 'ln) reader \<Rightarrow> chat_message list \<Rightarrow> nat \<Rightarrow> nat \<Rightarrow> bool" where
  "turn_at rd ms k i \<longleftrightarrow> k < length ms \<and> role (ms ! k) = Assistant
     \<and> (\<exists>a b. encode_chat rd (take k ms) True = Ok a \<and> encode_chat rd (take (k + 1) ms) False = Ok b
          \<and> length a \<le> i \<and> i + 1 < length b)"

definition trained :: "('v, 'ln) reader \<Rightarrow> chat_message list \<Rightarrow> nat \<Rightarrow> nat \<Rightarrow> bool" where
  "trained rd ms n i \<longleftrightarrow> (\<exists>k<n. turn_at rd ms k i)"

lemma trained_Suc: "trained rd ms (Suc n) i \<longleftrightarrow> trained rd ms n i \<or> turn_at rd ms n i"
  unfolding trained_def by (auto simp: less_Suc_eq)

lemma label_turns_trained:
  assumes "label_turns rd ms ids index rest labs = Ok labs'" and "rest = drop index ms" and "index \<le> length ms"
    and "length labs = length ids"
    and "\<forall>i<length ids. labs ! i = (if trained rd ms index i then ids ! i else ignore_index)"
  shows "length labs' = length ids
    \<and> (\<forall>i<length ids. labs' ! i = (if trained rd ms (length ms) i then ids ! i else ignore_index))"
  using assms
proof (induction rest arbitrary: index labs)
  case (Cons m rest)
  have index: "index < length ms" using Cons.prems(2,3) by (metis drop_all linorder_not_le list.discI)
  then have rest: "rest = drop (index + 1) ms" and m: "ms ! index = m"
    using Cons.prems(2) by (simp_all add: Cons_nth_drop_Suc [symmetric])
  show ?case
  proof (cases "role m = Assistant")
    case False
    then have "\<not> turn_at rd ms index i" for i using m by (simp add: turn_at_def)
    then show ?thesis
      using Cons.IH [of "index + 1" labs] Cons.prems False rest index by (simp add: trained_Suc)
  next
    case True
    then obtain a b where ab: "encode_chat rd (take index ms) True = Ok a"
      "encode_chat rd (take (index + 1) ms) False = Ok b" "starts_with ids a" "starts_with ids b"
      and run: "label_turns rd ms ids (index + 1) rest
          (copy_slice (length a) (max (length b - 1) (length a)) ids labs) = Ok labs'"
      using Cons.prems(1) by (auto simp: Let_def split: res.splits if_splits)
    have le: "max (length b - 1) (length a) \<le> length ids"
      using starts_with_length [OF ab(3)] starts_with_length [OF ab(4)] by simp
    have turn: "turn_at rd ms index i \<longleftrightarrow> length a \<le> i \<and> i < max (length b - 1) (length a)" for i
      using True m index ab(1,2) by (auto simp: turn_at_def)
    show ?thesis
    proof (rule Cons.IH [OF run rest])
      show "\<forall>i<length ids. copy_slice (length a) (max (length b - 1) (length a)) ids labs ! i
          = (if trained rd ms (index + 1) i then ids ! i else ignore_index)"
        using Cons.prems(4,5) le by (auto simp: nth_copy_slice trained_Suc turn)
    qed (use index le Cons.prems(4) in \<open>simp_all add: length_copy_slice\<close>)
  qed
qed simp

lemma chat_example_labels:
  assumes "chat_example rd vs = Ok e"
  obtains ms where "collect_res (map (chat_message_of rd) vs) = Ok ms" "encode_chat rd ms False = Ok (input_ids e)"
    "length (labels e) = length (input_ids e)"
    "\<forall>i<length (input_ids e). labels e ! i = (if trained rd ms (length ms) i then input_ids e ! i else ignore_index)"
proof -
  obtain ms ids labs where m: "collect_res (map (chat_message_of rd) vs) = Ok ms" "encode_chat rd ms False = Ok ids"
    "label_turns rd ms ids 0 ms (replicate (length ids) ignore_index) = Ok labs" "e = \<lparr>input_ids = ids, labels = labs\<rparr>"
    using assms by (auto simp: chat_example_def split: res.splits)
  have "length labs = length ids
    \<and> (\<forall>i<length ids. labs ! i = (if trained rd ms (length ms) i then ids ! i else ignore_index))"
    by (rule label_turns_trained [OF m(3)]) (simp_all add: trained_def)
  then show ?thesis using that m by simp
qed

lemma aligned_replicate:
  "aligned \<lparr>input_ids = ps @ cs, labels = replicate (length ps) ignore_index @ cs\<rparr>"
  by (auto simp: aligned_def nth_append)

lemma parse_record_aligned:
  assumes "parse_record rd v format eos_id = Ok e"
  shows "aligned e"
proof (cases "if format = QwenChat then Option.bind (field rd ''messages'' v) (as_array rd) else None")
  case (Some vs)
  then have "chat_example rd vs = Ok e" using assms unfolding parse_record_def by simp
  then show ?thesis by (rule chat_example_labels) (auto simp: aligned_def)
next
  case None
  let ?ends = "case eos_id of Some e \<Rightarrow> [e] | None \<Rightarrow> []"
  from assms consider (pair) ps cs where "e = \<lparr>input_ids = ps @ cs @ ?ends, labels = replicate (length ps) ignore_index @ cs @ ?ends\<rparr>"
    | (whole) ids where "e = causal (ids @ ?ends)"
    unfolding parse_record_def None by (auto simp: Let_def split: option.splits res.splits)
  then show ?thesis
  proof cases
    case pair
    then show ?thesis by (simp only: aligned_replicate)
  next
    case whole
    then show ?thesis by (simp add: aligned_def causal_def)
  qed
qed

lemma aligned_truncate: "aligned e \<Longrightarrow> aligned (truncate_example n e)"
  by (simp add: aligned_def truncate_example_def)

definition counted_line :: "('v, 'ln) reader \<Rightarrow> (string, 'ln) res \<Rightarrow> bool" where
  "counted_line rd line \<longleftrightarrow> (case line of Ok l \<Rightarrow> \<not> is_blank rd l | _ \<Rightarrow> True)"

definition usable :: "nat \<Rightarrow> sft_example \<Rightarrow> bool" where
  "usable max_tokens e \<longleftrightarrow> aligned e \<and> 2 \<le> length (input_ids e) \<and> length (input_ids e) \<le> max_tokens
     \<and> example_targets e \<noteq> 0"

lemma read_lines_usable:
  assumes "read_lines rd format eos_id max_tokens number lines es skipped = Ok (es', skipped')"
    and "\<forall>e\<in>set es. usable max_tokens e"
  shows "(\<forall>e\<in>set es'. usable max_tokens e)
    \<and> length es' + skipped' = length es + skipped + length (filter (counted_line rd) lines)"
  using assms
proof (induction lines arbitrary: number es skipped)
  case (Cons line rest)
  from Cons.prems(1) obtain l where l: "line = Ok l" by (cases line) auto
  show ?case
  proof (cases "is_blank rd l")
    case True
    then show ?thesis using Cons.IH Cons.prems l by (simp add: counted_line_def)
  next
    case False
    with Cons.prems(1) l obtain v e where e: "parse_json rd l = Ok v" "parse_record rd v format eos_id = Ok e"
      by (auto split: res.splits)
    let ?e = "truncate_example max_tokens e"
    show ?thesis
    proof (cases "too_short ?e")
      case True
      then show ?thesis using Cons.IH [of "number + 1" es "skipped + 1"] Cons.prems l False e
        by (simp add: counted_line_def)
    next
      case keep: False
      then have "usable max_tokens ?e"
        using aligned_truncate [OF parse_record_aligned [OF e(2)], of max_tokens]
        by (simp add: usable_def too_short_def) (simp add: truncate_example_def)
      then show ?thesis using Cons.IH [of "number + 1" "es @ [?e]" skipped] Cons.prems l False e keep
        by (simp add: counted_line_def Let_def)
    qed
  qed
qed simp

end
