(* ===== verification/TrainingDataProps.thy ===== *)
theory TrainingDataProps
  imports TrainingDataInv
begin

text \<open>
  The properties of the training data: labels that belong to their tokens, batches that lose
  nothing, epochs that visit every example once, shards that partition the stream and
  loaders that resume where they stopped.
\<close>

section \<open>Ingestion, collation, epochs, shards\<close>


text \<open>C36: Chat labels are the assistant turns and nothing else: in an example made from a
  conversation, a position carries its token as the label exactly when it lies in an assistant
  turn, from the end of the turn's header through its end mark, as located by tokenizing the
  rendered prefixes; every other position is ignored.\<close>

theorem chat_labels_are_assistant_turns:
  assumes "chat_example rd vs = Ok e"
  shows "\<exists>ms. collect_res (map (chat_message_of rd) vs) = Ok ms \<and> encode_chat rd ms False = Ok (input_ids e)
    \<and> length (labels e) = length (input_ids e)
    \<and> (\<forall>i<length (input_ids e). labels e ! i =
         (if \<exists>k<length ms. turn_at rd ms k i then input_ids e ! i else ignore_index))"
  by (rule chat_example_labels [OF assms]) (auto simp: trained_def)

definition token_of :: "char \<Rightarrow> nat" where
  "token_of c = of_char c mod 256"

text \<open>Every character is a token; the JSON values are pairs of a role and a content.\<close>

definition demo_reader :: "(string \<times> string, string) reader" where
  "demo_reader = \<lparr>token_ids_of = (\<lambda>s. Ok (map token_of s)),
     field = (\<lambda>name v. if name = ''role'' then Some (fst v, [])
       else if name = ''content'' \<or> name = ''text'' then Some (snd v, []) else None),
     as_str = (\<lambda>v. Some (fst v)), as_array = (\<lambda>v. None), is_blank = (\<lambda>l. l = []),
     parse_json = (\<lambda>l. Ok (''user'', l))\<rparr>"

lemma demo_reader_sel [simp]:
  "token_ids_of demo_reader s = Ok (map token_of s)" "is_blank demo_reader l \<longleftrightarrow> l = []"
  "field demo_reader ''role'' v = Some (fst v, [])" "field demo_reader ''content'' v = Some (snd v, [])"
  "field demo_reader ''text'' v = Some (snd v, [])" "field demo_reader ''prompt'' v = None"
  "field demo_reader ''messages'' v = None" "as_str demo_reader v = Some (fst v)"
  "parse_json demo_reader l = Ok (''user'', l)"
  by (simp_all add: demo_reader_def)

lemma demo_encode [simp]: "encode_text demo_reader s = Ok (map (\<lambda>c. int (token_of c)) s)"
proof -
  have "collect_res (map to_i32 (map token_of s)) = Ok (map (\<lambda>c. int (token_of c)) s)"
  proof (induction s)
    case (Cons c s)
    have "token_of c < 256" unfolding token_of_def by simp
    then show ?case using Cons by (simp add: to_i32_def i32_max_def)
  qed simp
  then show ?thesis by (simp add: encode_text_def)
qed

lemma chat_labels_are_assistant_turns_witness:
  "\<exists>e ms. chat_example demo_reader [(''user'', ''a''), (''assistant'', ''b'')] = Ok e
    \<and> encode_chat demo_reader ms False = Ok (input_ids e)
    \<and> (\<forall>i<length (input_ids e). labels e ! i =
         (if \<exists>k<length ms. turn_at demo_reader ms k i then input_ids e ! i else ignore_index))"
proof -
  have "\<exists>e. chat_example demo_reader [(''user'', ''a''), (''assistant'', ''b'')] = Ok e"
    by (simp add: chat_example_def chat_message_of_def chat_role_of_def encode_chat_def render_chat_def Let_def
        append_chat_message_def starts_with_def newline_def)
  then obtain e where e: "chat_example demo_reader [(''user'', ''a''), (''assistant'', ''b'')] = Ok e" ..
  from chat_labels_are_assistant_turns [OF e] e show ?thesis by blast
qed

text \<open>Every example read from a JSONL file can be trained on: its labels are aligned with
  its tokens, each label is its token or ignored, it has between two and \<open>max_tokens\<close> tokens and
  at least one target after the shift; every line that is not blank is an example or counted as
  skipped.\<close>

theorem jsonl_examples_usable:
  assumes "from_jsonl rd (Ok lines) format eos_id max_tokens = Ok (es, skipped)"
  shows "(\<forall>e\<in>set es. aligned e \<and> 2 \<le> length (input_ids e) \<and> length (input_ids e) \<le> max_tokens
      \<and> example_targets e \<noteq> 0)
    \<and> length es + skipped = length (filter (counted_line rd) lines)"
  using read_lines_usable [of rd format eos_id max_tokens 0 lines "[]" 0 es skipped] assms
  by (simp add: from_jsonl_def usable_def)

lemma jsonl_examples_usable_witness:
  "\<exists>es. from_jsonl demo_reader (Ok [Ok ''abc'', Ok [], Ok ''d'']) Plain None 2 = Ok (es, 1)
    \<and> (\<forall>e\<in>set es. aligned e \<and> 2 \<le> length (input_ids e) \<and> length (input_ids e) \<le> 2
      \<and> example_targets e \<noteq> 0)
    \<and> length es + 1 = length (filter (counted_line demo_reader) [Ok ''abc'', Ok [], Ok ''d''])"
proof -
  have parse: "parse_record demo_reader (r, s) Plain None = Ok (causal (map (\<lambda>c. int (token_of c)) s))" for r s
    by (simp add: parse_record_def str_field_def)
  have "\<exists>es. from_jsonl demo_reader (Ok [Ok ''abc'', Ok [], Ok ''d'']) Plain None 2 = Ok (es, 1)"
    by (simp add: from_jsonl_def parse Let_def too_short_def truncate_example_def causal_def example_targets_def)
  then obtain es where es: "from_jsonl demo_reader (Ok [Ok ''abc'', Ok [], Ok ''d'']) Plain None 2 = Ok (es, 1)" ..
  from jsonl_examples_usable [OF es] es show ?thesis by blast
qed

text \<open>C37: Collation keeps every token and target in its row: for aligned examples it does not
  panic, the batch is a full rectangle at least one wide, row \<open>i\<close> is the tokens of example \<open>i\<close>
  without the last, padded, its targets are the labels shifted by one and then ignored, and the
  count is that of the targets of the examples.\<close>

theorem collate_keeps_targets:
  assumes "\<forall>e\<in>set es. length (labels e) = length (input_ids e)"
  shows "\<exists>b. collate es pad = Some b \<and> batch_rows b = length es \<and> 1 \<le> batch_length b
    \<and> length (batch_tokens b) = length es * batch_length b
    \<and> length (batch_targets b) = length es * batch_length b
    \<and> batch_target_count b = sum_list (map example_targets es)
    \<and> (\<forall>i<length es. \<forall>j<batch_length b.
         batch_tokens b ! (i * batch_length b + j)
           = (if j + 1 < length (input_ids (es ! i)) then input_ids (es ! i) ! j else pad)
         \<and> batch_targets b ! (i * batch_length b + j)
           = (if j + 1 < length (labels (es ! i)) then labels (es ! i) ! (j + 1) else ignore_index))"
proof -
  let ?n = "collate_length es"
  have le: "\<forall>e\<in>set es. length (labels e) \<le> length (input_ids e)" using assms by simp
  have rows: "\<And>e. e \<in> set es \<Longrightarrow> length (collate_row ?n pad e) = ?n" by (rule length_collate_row)
  have labs: "\<And>e. e \<in> set es \<Longrightarrow> length (collate_labels ?n e) = ?n" using le by (intro length_collate_labels) auto
  have cell: "collate_row ?n pad e ! j = (if j + 1 < length (input_ids e) then input_ids e ! j else pad)
      \<and> collate_labels ?n e ! j = (if j + 1 < length (labels e) then labels e ! (j + 1) else ignore_index)"
    if "e \<in> set es" "j < ?n" for e j
  proof -
    have "length (input_ids e) - 1 \<le> ?n" by (rule collate_length_ge [OF that(1)])
    moreover have "length (labels e) = length (input_ids e)" using assms that(1) by simp
    ultimately show ?thesis
      using that(2) by (auto simp: collate_row_def collate_labels_def Let_def nth_append)
  qed
  have wide: "1 \<le> ?n" by (simp add: collate_length_def)
  show ?thesis
    unfolding collate_Some [OF le]
    using cell wide by (simp add: targets_of_rows length_concat_rows [OF rows] length_concat_rows [OF labs]
        concat_slice [OF rows] concat_slice [OF labs])
qed

definition demo_examples :: "sft_example list" where
  "demo_examples = [causal [5, 6, 7], \<lparr>input_ids = [1, 2], labels = [ignore_index, 2]\<rparr>, causal [3, 4]]"

lemma collate_keeps_targets_witness:
  "\<exists>b. collate demo_examples 0 = Some b \<and> batch_target_count b = 4 \<and> length (batch_tokens b) = 3 * batch_length b"
  using collate_keeps_targets [of demo_examples 0]
  by (auto simp: demo_examples_def causal_def example_targets_def ignore_index_def)

text \<open>C38: An epoch visits every example exactly once: from its start, the micro-batches of one
  epoch are the collated slices of the order, which is a permutation of the examples, sorted by
  length in every window; together they carry every target of the dataset, and the loader ends
  at the end of the same epoch.\<close>

theorem epoch_visits_every_example:
  assumes "loader_ok l" and "cursor (position l) = 0"
  shows "\<exists>bs. globals (batches_per_epoch l) l
      = Some (bs, l\<lparr>position := (position l)\<lparr>cursor := length (examples_of l)\<rparr>\<rparr>)
    \<and> map Some bs = map (\<lambda>w. collate (map ((!) (examples_of l)) w) (pad_token_id l)) (windows (micro_batch l) (order l))
    \<and> mset (order l) = mset [0..<length (examples_of l)]
    \<and> (\<forall>w\<in>set (windows (length_window l) (order l)). sorted (map (\<lambda>i. length (input_ids (examples_of l ! i))) w))
    \<and> sum_list (map batch_target_count bs) = sum_list (map example_targets (examples_of l))"
proof -
  let ?es = "examples_of l" and ?ws = "windows (micro_batch l) (order l)"
  have n: "micro_batch l \<noteq> 0" "length_window l \<noteq> 0" using assms(1) by (auto simp: loader_ok_def)
  have ord: "order l = epoch_order ?es (length_window l) (seed (position l)) (epoch (position l))"
    using assms(1) by (simp add: loader_ok_def)
  note facts = loader_ok_order [OF assms(1)]
  have perm: "mset (order l) = mset [0..<length ?es]" unfolding ord by (rule mset_epoch_order [OF n(2)])
  have inside: "set w \<subseteq> {0..<length ?es}" if "w \<in> set ?ws" for w
    using windows_subset [OF that] facts(2) by simp
  have col: "Some (batch_of l w) = collate (map ((!) ?es) w) (pad_token_id l)" if "w \<in> set ?ws" for w
  proof -
    have "\<forall>e\<in>set (map (\<lambda>i. ?es ! i) w). length (labels e) \<le> length (input_ids e)"
      using assms(1) inside [OF that] unfolding loader_ok_def by fastforce
    from collate_Some [OF this] show ?thesis by (simp add: batch_of_def)
  qed
  have "sum_list (map batch_target_count (map (batch_of l) ?ws))
      = sum_list (map (\<lambda>w. sum_list (map (\<lambda>i. example_targets (?es ! i)) w)) ?ws)"
    unfolding map_map comp_def
    by (rule arg_cong [of _ _ sum_list], rule map_cong [OF refl], rule batch_of_targets [OF assms(1) inside])
  also have "\<dots> = sum_list (map (\<lambda>i. example_targets (?es ! i)) [0..<length ?es])"
    unfolding sum_windows [OF n(1)] by (rule sum_list_mset_eq [OF perm])
  also have "\<dots> = sum_list (map example_targets ?es)"
    by (rule arg_cong [of _ _ sum_list], rule nth_equalityI) simp_all
  finally have targets: "sum_list (map batch_target_count (map (batch_of l) ?ws)) = sum_list (map example_targets ?es)" .
  have "length ?ws = batches_per_epoch l"
    using length_windows [OF n(1), of "order l"] facts(1) by (simp add: batches_per_epoch_def)
  then have "globals (batches_per_epoch l) l
      = Some (map (batch_of l) ?ws, l\<lparr>position := (position l)\<lparr>cursor := length ?es\<rparr>\<rparr>)"
    using globals_epoch [OF assms(1)] assms(2) facts(1) by simp
  moreover have sorted: "\<forall>w\<in>set (windows (length_window l) (order l)). sorted (map (\<lambda>i. length (input_ids (?es ! i))) w)"
    unfolding ord using epoch_order_sorted [OF n(2)] by blast
  ultimately show ?thesis
    using perm targets col sorted by (intro exI [of _ "map (batch_of l) ?ws"]) (simp del: mset_upt)
qed

lemma new_loader_ok:
  assumes "new_loader es mb pad sd = Some l" and "\<forall>e\<in>set es. length (labels e) \<le> length (input_ids e)"
    and "length es + mb \<le> usize_max"
  shows "loader_ok l" "cursor (position l) = 0"
  using assms by (auto simp: new_loader_def loader_ok_def reorder_def split: if_splits)

lemma demo_loader:
  obtains l where "new_loader demo_examples 2 0 42 = Some l" "loader_ok l" "cursor (position l) = 0"
    "examples_of l = demo_examples" "batches_per_epoch l = 2"
proof -
  obtain l where l: "new_loader demo_examples 2 0 42 = Some l"
    by (simp add: new_loader_def demo_examples_def)
  moreover have "examples_of l = demo_examples" "micro_batch l = 2"
    using l by (auto simp: new_loader_def reorder_def split: if_splits)
  moreover have "loader_ok l" "cursor (position l) = 0"
    by (rule new_loader_ok [OF l]; simp add: demo_examples_def causal_def usize_max_def)+
  ultimately show ?thesis using that by (simp add: batches_per_epoch_def demo_examples_def div_ceil_def)
qed

lemma epoch_visits_every_example_witness:
  "\<exists>l bs k. new_loader demo_examples 2 0 42 = Some l \<and> globals 2 l = Some (bs, k)
    \<and> sum_list (map batch_target_count bs) = 4 \<and> mset (order l) = mset [0, 1, 2]"
proof -
  obtain l where l: "new_loader demo_examples 2 0 42 = Some l" "loader_ok l" "cursor (position l) = 0"
    "examples_of l = demo_examples" "batches_per_epoch l = 2" by (rule demo_loader)
  have "length demo_examples = 3" "sum_list (map example_targets demo_examples) = 4" "[0..<3] = [0, 1, 2 :: nat]"
    by (simp_all add: demo_examples_def causal_def example_targets_def ignore_index_def upt_rec)
  then show ?thesis using epoch_visits_every_example [OF l(2,3)] l(1,4,5) by (auto simp del: upt_Suc)
qed

text \<open>C39: The ranks of a data-parallel run share one stream: the \<open>i\<close>-th micro-batch of rank
  \<open>r\<close> of \<open>ws\<close> is global micro-batch \<open>i * ws + r\<close>, across epoch ends, so that the ranks together
  see each global micro-batch once; after the same number of steps they stand at the same
  position, and no step panics.\<close>

theorem ranks_partition_stream:
  assumes "loader_ok l" and "ws > 0"
  shows "\<exists>bs k. globals (n * ws) l = Some (bs, k) \<and> length bs = n * ws
    \<and> (\<forall>r<ws. batches n (l\<lparr>rank := r, world_size := ws\<rparr>)
        = Some (map (\<lambda>i. bs ! (i * ws + r)) [0..<n], k\<lparr>rank := r, world_size := ws\<rparr>))"
proof -
  obtain bs k where g: "globals (n * ws) l = Some (bs, k)" "length bs = n * ws" "loader_ok k" "same_setup l k"
    by (rule globals_keeps [OF assms(1)])
  then have "batches n (sharded r ws l) = Some (map (\<lambda>i. bs ! (i * ws + r)) [0..<n], sharded r ws k)" if "r < ws" for r
    using batches_globals [OF assms(1) that, of n] by auto
  then show ?thesis using g(1,2) by blast
qed

lemma ranks_partition_stream_witness:
  "\<exists>l bs k. new_loader demo_examples 2 0 42 = Some l \<and> globals (3 * 2) l = Some (bs, k) \<and> length bs = 6
    \<and> (\<exists>k. batches 3 (l\<lparr>rank := 1, world_size := 2\<rparr>) = Some ([bs ! 1, bs ! 3, bs ! 5], k))"
proof -
  obtain l where l: "new_loader demo_examples 2 0 42 = Some l" "loader_ok l" by (rule demo_loader)
  obtain bs k where g: "globals (3 * 2) l = Some (bs, k)" "length bs = 3 * 2"
    "\<forall>r<2. batches 3 (l\<lparr>rank := r, world_size := 2\<rparr>)
      = Some (map (\<lambda>i. bs ! (i * 2 + r)) [0..<3], k\<lparr>rank := r, world_size := 2\<rparr>)"
    using ranks_partition_stream [OF l(2), of 2 3] by auto
  have "map (\<lambda>i. bs ! (i * 2 + 1)) [0..<3] = [bs ! 1, bs ! 3, bs ! 5]" by (simp add: upt_rec)
  then have "batches 3 (l\<lparr>rank := 1, world_size := 2\<rparr>) = Some ([bs ! 1, bs ! 3, bs ! 5], k\<lparr>rank := 1, world_size := 2\<rparr>)"
    using g(3) by simp
  moreover have "length bs = 6" using g(2) by simp
  ultimately show ?thesis using l(1) g(1) by blast
qed

text \<open>C40: A loader resumes exactly where it stopped: the position saved after any number of
  micro-batches, restored into any loader with the same dataset and settings, whatever its own
  position, seed and order were, gives back the very loader that was saved.\<close>

theorem loader_resumes:
  assumes "loader_ok l" and "rank l < world_size l" and "batches n l = Some (bs, k)"
  shows "restore_loader (position k) (l\<lparr>position := p, order := ord\<rparr>) = k \<and> loader_ok k"
proof -
  have self: "sharded (rank l) (world_size l) l = l" by simp
  from batches_globals [OF assms(1,2), of n] assms(3) obtain m where
    m: "loader_ok m" "same_setup l m" "k = sharded (rank l) (world_size l) m" unfolding self by auto
  have k: "k = m" using same_setupD(5,6) [OF m(2)] m(3) by (cases m) simp
  have "m = l\<lparr>position := position m, order := order m\<rparr>" using m(2) by (simp add: same_setup_def)
  then have "l\<lparr>position := position m, order := epoch_order (examples_of m) (length_window m)
      (seed (position m)) (epoch (position m))\<rparr> = m"
    using m(1) by (simp add: loader_ok_def)
  then show ?thesis using m(1) same_setupD [OF m(2)] unfolding k by (simp add: restore_loader_def reorder_def)
qed

lemma loader_resumes_witness:
  "\<exists>l bs k. new_loader demo_examples 2 0 42 = Some l \<and> batches 3 l = Some (bs, k)
    \<and> restore_loader (position k) l = k"
proof -
  obtain l where l: "new_loader demo_examples 2 0 42 = Some l" "loader_ok l" by (rule demo_loader)
  have one: "rank l = 0" "world_size l = 1" using l(1) by (auto simp: new_loader_def reorder_def split: if_splits)
  then have self: "sharded 0 1 l = l" by (cases l) simp
  obtain bs k where k: "batches 3 l = Some (bs, k)"
    using batches_globals [OF l(2), of 0 1 3] unfolding self by auto
  have "rank l < world_size l" using one by simp
  from loader_resumes [OF l(2) this k, of "order l" "position l"] l(1) k show ?thesis by auto
qed

end
