(* ===== verification/Spec2Isabelle.thy ===== *)
theory Spec2Isabelle
  imports PagedKvProps BatchOutcomes RuntimeProps WorkerProps FencedProps ReshardProps DisaggregatedProps TrainingDataProps
begin

text \<open>
  A verification library for ruLLM, a Rust library and server for causal language models.

  The library models the parts of the program that decide \<^emph>\<open>which\<close> computation happens: the
  management of key/value pages, the scheduling of requests into batches, the decoding loops,
  the prefix cache and its handoff to other processes, the bounded worker around a replica, the
  contracts of the runtime and the data pipeline of training. What a kernel computes is a
  parameter everywhere.

  \<^bold>\<open>The program\<close> (paths under \<open>src/src\<close>). A request enters through a replica pool and a bounded
  worker (\<open>runtime/worker.rs\<close>) or a server. A scheduler (\<open>continuous_batch.rs\<close>) admits it,
  reserves pages for its next tokens in the KV manager (\<open>paged_kv.rs\<close>), builds a batch, and
  commits or rolls back the reservations when the batch completes or fails; the gate of
  \<open>continuous_batch/fenced.rs\<close> does so only after the device fence of the batch. A single
  request can instead be decoded by a loop (\<open>generation.rs\<close>), an incremental session
  (\<open>generation/session.rs\<close>) or speculation with a draft model (\<open>generation/speculative.rs\<close>),
  with stop sequences found by \<open>generation/control.rs\<close>. A session may start from a prompt
  prefilled through the tiered cache of \<open>prefix_cache.rs\<close> or by another process
  (\<open>disaggregated.rs\<close>). Training reads its batches from \<open>training/data.rs\<close>.

  \<^bold>\<open>Conventions\<close> (\<open>Prelude\<close>). A fallible function returns \<open>res\<close>: \<open>Ok\<close>, \<open>Err\<close> or \<open>Panic\<close>, the last
  for an unwrap, an index out of range, an assertion or an arithmetic overflow. A method is an
  \<open>op\<close>, a function from the state to its result and the new state, composed with \<open>bind_op\<close>;
  state changes made before an error stay. \<open>wp\<close> is its weakest precondition, with one
  postcondition for \<open>Ok\<close> and one for \<open>Err\<close>; a panic satisfies none. The proofs of operations are
  \<open>wp\<close> lemmas named after them. \<open>usize\<close> and \<open>u64\<close> are naturals with the checked and saturating
  arithmetic of the code written out; hashes, random numbers and loader counters, which wrap,
  are 64-bit words. Logical clocks and statistics counters are unbounded naturals, and so are the
  reference counts of pages, 32-bit in the code: they count places of the block tables. The world
  (files, the cancellation flag, callbacks, connections, the device) is a type variable, changed
  only by the operations given as parameters.

  \<^bold>\<open>Theories\<close>
  \<^item> KV manager, \<open>paged_kv.rs\<close>: \<open>PagedKv\<close> has the state \<open>kv_manager\<close> (pages, free list, block
    tables, reservations, published blocks) and one operation per method. \<open>PagedKvPool\<close> holds the
    accounting of one page, \<open>PagedKvInv\<close> the invariant of the manager, \<open>PagedKvMachine\<close> the command
    machine with the refinement of an abstract ledger of committed tokens and reservations,
    \<open>PagedKvProps\<close> the properties. \<open>KvService\<close> is the contract the schedulers rely on, a locale
    interpreted on \<open>PagedKv\<close>. The standard hasher is the parameter \<open>chain\<close>.
  \<^item> Scheduler, \<open>continuous_batch.rs\<close>, \<open>continuous_batch/lifecycle.rs\<close> and
    \<open>continuous_batch/sampling.rs\<close>: \<open>ContinuousBatch\<close> and \<open>BatchLifecycle\<close> have the state and the
    operations; \<open>BatchInv\<close>, \<open>BatchSchedule\<close>, \<open>BatchComplete\<close> and \<open>BatchVerify\<close> the invariant and its
    preservation by scheduling, completion, verification and failure; \<open>BatchMachine\<close> the command
    machine with the guards a driver respects; \<open>BatchFacts\<close>, \<open>BatchProps\<close> and \<open>BatchOutcomes\<close> the
    properties. Admission order, batch contents, budgets, atomic completion, well-ended outputs,
    and agreement of verification batches with greedy decoding are stated there. The preemption
    loop carries fuel, one more than the number of active requests, and is proved to need no more.
    The width of a verification row and the end of a draft are computed in \<open>usize\<close>, an overflow is a
    panic; \<open>id_room\<close>, which the properties on scheduling assume, keeps draft lengths away from it, and
    \<open>widest_draft_panics\<close> shows that the setter does not.
  \<^item> Fence gate, \<open>continuous_batch/fenced.rs\<close>: \<open>Fenced\<close> and \<open>FencedProps\<close>, on top of the scheduler
    model. Fences, launches and samplers are parameters.
  \<^item> Worker and pool, \<open>runtime/worker.rs\<close>: \<open>Worker\<close> is a step relation whose steps are the atomic
    actions of clients, of the worker thread and of the handle; \<open>WorkerProps\<close> proves its
    invariant by rule induction over all interleavings. The load of the stopping flag, the load of
    the job's flag, the call, each look of the running operation at its flag, the publication of its
    result and the report of a failure are steps of their own: a job cancelled or a worker stopped
    between check and call still runs, as in the code. An operation is a codatatype, so it may look
    for ever; the bound on shutdown takes the looks of the operation in hand as a hypothesis. Wakers
    do not panic, and the choice of the pool is modelled for one client at a time.
  \<^item> Runtime contracts, \<open>runtime/error.rs\<close>, \<open>shape.rs\<close>, \<open>memory.rs\<close>, \<open>capabilities.rs\<close>,
    \<open>performance.rs\<close>: \<open>Runtime\<close> and \<open>RuntimeProps\<close>. Messages are dropped, the ratio of two
    durations is a parameter.
  \<^item> Decoding, \<open>generation.rs\<close>, \<open>generation/control.rs\<close>, \<open>generation/session.rs\<close>,
    \<open>generation/session/record.rs\<close>, \<open>generation/speculative.rs\<close>: \<open>StopMatcher\<close>, \<open>Generation\<close>,
    \<open>Session\<close>, \<open>SessionRecord\<close> and \<open>Speculative\<close> have the code, \<open>GenerationInv\<close>, \<open>SessionInv\<close> and
    \<open>SpeculativeInv\<close> the reference decoder without caches and the proofs that the three loops
    implement it, \<open>GenerationProps\<close> the properties. A model is a record of parameters; \<open>lawful\<close> says
    that its logits are a function of the tokens its cache has seen. Loops over sessions and
    speculation rounds are partial functions, proved to return for lawful models.
  \<^item> Tiered prefix cache, \<open>prefix_cache.rs\<close>: \<open>PrefixCache\<close>, its invariant \<open>kept\<close> in
    \<open>PrefixCacheInv\<close>, prefill and opening in \<open>PrefixPrefill\<close>, the properties in
    \<open>PrefixCacheProps\<close>. Files, the wire format and native cache records are parameters;
    \<open>store_total\<close> says that they do not panic, \<open>store_faithful\<close> that a file holds what was written to
    it. Loops carry fuel: the number of entries and one more for the evictions of a tier and for
    the retries of a lookup, the length of the prompt for the blocks of a prefill.
  \<^item> Remote prefill, \<open>disaggregated.rs\<close>: \<open>Disaggregated\<close> and \<open>DisaggregatedProps\<close>. The service loop
    ranges over the list of connections that arrive; \<open>reliable\<close> describes an unbroken stream.
  \<^item> Rotary histories, \<open>llama/rope.rs\<close> and their use in \<open>llama/batching.rs\<close>: \<open>RotaryHistory\<close>
    (run-length histories of a dynamic rotary scaling, deltas, the state rebuilt from them) and
    \<open>RotaryHistoryProps\<close>. The frequencies of a length are a parameter.
  \<^item> Prefix transfer, \<open>prefix_transfer.rs\<close>, the dense prefixes of \<open>batch_kv.rs\<close> and the groups of
    \<open>parallel_batch.rs\<close>: \<open>PrefixTransfer\<close> (shards, named fragments, merge, taking heads, host records,
    device manifests), \<open>DensePrefix\<close> and \<open>ParallelPrefix\<close>; \<open>PrefixTransferInv\<close> and \<open>DensePrefixInv\<close>
    show that fragments of one content stay aligned, mergeable and readable, \<open>DensePrefixProps\<close>
    what a complete prefix is, \<open>ReshardProps\<close> the properties. Tensors are the parameter \<open>tensor_lib\<close>
    of \<open>TensorLib\<close>; \<open>tensor_laws\<close> states what slicing, concatenation and conversion from and to bytes
    do to elements, \<open>ByteTensors\<close> is a concrete library that keeps them.
  \<^item> Training data, \<open>training/data.rs\<close> and the chat template of \<open>huggingface.rs\<close>:
    \<open>TrainingData\<close>, \<open>TrainingDataInv\<close> (permutations, windows, the loader invariant) and
    \<open>TrainingDataProps\<close>. Tokenizer, JSON values and the lines of a file are parameters.

  \<^bold>\<open>Interfaces\<close>. \<open>KvService\<close> states what the scheduler needs of the KV manager. The properties
  that span components are the run safety of the scheduler over the manager, of the gate over
  the scheduler, and the equality of prefilled, remote, session and plain decoding.

  \<^bold>\<open>Assumptions worth knowing\<close>. Prefix reuse of the KV manager is by hash: the properties of runs
  do not depend on it, the property on the longest published prefix speaks of hashes. Greedy
  choices are over any linear order of logits, with \<open>None\<close> for a value that is not finite. The
  fields \<open>deferred\<close> and \<open>admission_ceiling\<close> of the scheduler, set by device adapters that are not
  modelled, keep the values of their constructor.

  \<^bold>\<open>Not modelled\<close>. Kernels and model definitions (\<open>llama\<close>, \<open>qwen3\<close>, \<open>qwen35\<close>, \<open>deepseek2\<close>,
  \<open>paged_attention.rs\<close>, \<open>paged_engine.rs\<close>) are tensor arithmetic over libraries that are not part
  of the repository; checkpoint loading and quantisation are I/O and formats of third parties;
  samplers and training steps are floating-point computations; the HTTP servers are glue over
  third-party frameworks, JSON and templates; device adapters move tensors of the models above.
\<close>

end
